(* ===== verification/Prelude.thy ===== *)
theory Prelude
  imports Main "HOL-Library.Word" "HOL-Library.Multiset" "HOL-Library.Monad_Syntax"
    "HOL-Library.Sublist" "HOL-Library.Code_Target_Nat"
begin

section \<open>Prelude: Rust values, strings and machine arithmetic\<close>

text \<open>
  What every component shares.

  \<^item> A Rust \<^verbatim>\<open>char\<close> is a Unicode scalar value, a natural number (\<open>uchar\<close>); a
    \<^verbatim>\<open>str\<close> is the list of its chars (\<open>ustr\<close>). Offsets into a \<^verbatim>\<open>str\<close> count UTF-8
    bytes, as in Rust: \<open>len_utf8\<close> is the width of a char, \<open>str_len\<close> is
    \<^verbatim>\<open>str::len\<close>, and slicing at an offset that is no char boundary is the panic
    \<open>None\<close> (\<open>str_from\<close>, \<open>str_to\<close>).
  \<^item> A function that can panic returns an \<open>option\<close> (\<open>None\<close> the panic); one that returns
    Rust's own \<^verbatim>\<open>Option\<close> and can panic returns an \<open>option option\<close>.
  \<^item> Unsigned machine integers are natural numbers with their checked and saturating
    operations written out at their width, or words where the code wraps or shifts.
  \<^item> The collections \<open>rust_str\<close> (lengths and slices of strings) and \<open>rust_arith\<close>
    (saturating and checked arithmetic) carry the component proofs.
\<close>

named_theorems rust_str "lengths, slices and boundaries of strings"
named_theorems rust_arith "checked and saturating machine arithmetic"

subsection \<open>Machine integers as bounded naturals\<close>

abbreviation u32_max :: nat where
  "u32_max \<equiv> 4294967295"

abbreviation u64_max :: nat where
  "u64_max \<equiv> 18446744073709551615"

definition checked_add :: "nat \<Rightarrow> nat \<Rightarrow> nat \<Rightarrow> nat option" where
  "checked_add hi a b = (if a + b \<le> hi then Some (a + b) else None)"

definition checked_sub :: "nat \<Rightarrow> nat \<Rightarrow> nat option" where
  "checked_sub a b = (if b \<le> a then Some (a - b) else None)"

definition saturating_add :: "nat \<Rightarrow> nat \<Rightarrow> nat \<Rightarrow> nat" where
  "saturating_add hi a b = min hi (a + b)"

definition saturating_mul :: "nat \<Rightarrow> nat \<Rightarrow> nat \<Rightarrow> nat" where
  "saturating_mul hi a b = min hi (a * b)"

lemma saturating_add_le [rust_arith, simp]: "saturating_add hi a b \<le> hi"
  by (simp add: saturating_add_def)

lemma saturating_mul_le [rust_arith, simp]: "saturating_mul hi a b \<le> hi"
  by (simp add: saturating_mul_def)

lemma saturating_add_exact [rust_arith]: "a + b \<le> hi \<Longrightarrow> saturating_add hi a b = a + b"
  by (simp add: saturating_add_def)

lemma saturating_add_mono: "a \<le> a' \<Longrightarrow> saturating_add hi a b \<le> saturating_add hi a' b"
  by (auto simp: saturating_add_def)

lemma checked_add_eq_Some [rust_arith, simp]:
  "checked_add hi a b = Some c \<longleftrightarrow> c = a + b \<and> a + b \<le> hi"
  by (auto simp: checked_add_def)

lemma checked_sub_eq_Some [rust_arith, simp]:
  "checked_sub a b = Some c \<longleftrightarrow> b \<le> a \<and> c = a - b"
  by (auto simp: checked_sub_def)

subsection \<open>Characters and strings\<close>

type_synonym uchar = nat
type_synonym ustr = "uchar list"

definition len_utf8 :: "uchar \<Rightarrow> nat" where
  "len_utf8 c = (if c < 0x80 then 1 else if c < 0x800 then 2 else if c < 0x10000 then 3 else 4)"

text \<open>\<^verbatim>\<open>char::len_utf16\<close>: the code units Dart counts.\<close>

definition len_utf16 :: "uchar \<Rightarrow> nat" where
  "len_utf16 c = (if c < 0x10000 then 1 else 2)"

definition str_len :: "ustr \<Rightarrow> nat" where
  "str_len s = sum_list (map len_utf8 s)"

definition utf16_len :: "ustr \<Rightarrow> nat" where
  "utf16_len s = sum_list (map len_utf16 s)"

lemma len_utf8_pos [simp]: "0 < len_utf8 c"
  by (simp add: len_utf8_def)

lemma len_utf8_neq_0 [simp]: "len_utf8 c \<noteq> 0"
  by (simp add: len_utf8_def)

lemma len_utf8_Suc: "\<exists>n. len_utf8 c = Suc n"
  using len_utf8_neq_0 not0_implies_Suc by blast

lemma len_utf8_le_4: "len_utf8 c \<le> 4"
  by (simp add: len_utf8_def)

lemma len_utf16_pos [simp]: "0 < len_utf16 c"
  by (simp add: len_utf16_def)

lemma str_len_Nil [rust_str, simp]: "str_len [] = 0"
  by (simp add: str_len_def)

lemma str_len_Cons [rust_str, simp]: "str_len (c # s) = len_utf8 c + str_len s"
  by (simp add: str_len_def)

lemma str_len_append [rust_str, simp]: "str_len (s @ t) = str_len s + str_len t"
  by (simp add: str_len_def)

lemma str_len_eq_0 [rust_str, simp]: "str_len s = 0 \<longleftrightarrow> s = []"
  by (cases s) (auto simp: len_utf8_def)

lemma str_len_pos [rust_str]: "s \<noteq> [] \<Longrightarrow> 0 < str_len s"
  by (cases s) auto

lemma length_le_str_len: "length s \<le> str_len s"
proof (induction s)
  case (Cons c s)
  obtain n where "len_utf8 c = Suc n" using len_utf8_Suc by blast
  with Cons show ?case by simp
qed simp

lemma utf16_len_simps [rust_str, simp]:
  "utf16_len [] = 0" "utf16_len (c # s) = len_utf16 c + utf16_len s"
  "utf16_len (s @ t) = utf16_len s + utf16_len t"
  by (simp_all add: utf16_len_def)

text \<open>\<^verbatim>\<open>&text[b..]\<close> and \<^verbatim>\<open>&text[..b]\<close>; \<open>None\<close> is the panic of a slice that
  is out of range or not on a char boundary.\<close>

fun str_from :: "ustr \<Rightarrow> nat \<Rightarrow> ustr option" where
  "str_from [] b = (if b = 0 then Some [] else None)"
| "str_from (c # s) b =
     (if b = 0 then Some (c # s)
      else if len_utf8 c \<le> b then str_from s (b - len_utf8 c) else None)"

fun str_to :: "ustr \<Rightarrow> nat \<Rightarrow> ustr option" where
  "str_to [] b = (if b = 0 then Some [] else None)"
| "str_to (c # s) b =
     (if b = 0 then Some []
      else if len_utf8 c \<le> b then map_option (Cons c) (str_to s (b - len_utf8 c)) else None)"

text \<open>\<^verbatim>\<open>&text[a..b]\<close>.\<close>

definition str_range :: "ustr \<Rightarrow> nat \<Rightarrow> nat \<Rightarrow> ustr option" where
  "str_range s a b = (if a \<le> b then do { t \<leftarrow> str_from s a; str_to t (b - a) } else None)"

definition is_char_boundary :: "ustr \<Rightarrow> nat \<Rightarrow> bool" where
  "is_char_boundary s b \<longleftrightarrow> str_from s b \<noteq> None"

lemma str_from_0 [rust_str, simp]: "str_from s 0 = Some s"
  by (cases s) auto

lemma str_to_0 [rust_str, simp]: "str_to s 0 = Some []"
  by (cases s) auto

lemma str_from_append [rust_str, simp]: "str_from (p @ s) (str_len p) = Some s"
  by (induction p) simp_all

lemma str_to_append [rust_str, simp]: "str_to (p @ s) (str_len p) = Some p"
  by (induction p) simp_all

lemma str_from_SomeD: "str_from s b = Some t \<Longrightarrow> \<exists>p. s = p @ t \<and> b = str_len p"
proof (induction s b rule: str_from.induct)
  case (2 c s b)
  show ?case
  proof (cases "b = 0")
    case True
    with 2 show ?thesis by (intro exI [of _ "[]"]) simp
  next
    case False
    with 2 have le: "len_utf8 c \<le> b" and "str_from s (b - len_utf8 c) = Some t"
      by (auto split: if_splits)
    with 2 False obtain p where "s = p @ t" "b - len_utf8 c = str_len p" by auto
    with le have "c # s = (c # p) @ t \<and> b = str_len (c # p)" by simp
    then show ?thesis by blast
  qed
qed (auto split: if_splits)

lemma str_to_SomeD: "str_to s b = Some p \<Longrightarrow> \<exists>t. s = p @ t \<and> b = str_len p"
proof (induction s b arbitrary: p rule: str_to.induct)
  case (2 c s b)
  show ?case
  proof (cases "b = 0")
    case False
    with 2 obtain p' where le: "len_utf8 c \<le> b"
      and "str_to s (b - len_utf8 c) = Some p'" and p: "p = c # p'"
      by (auto split: if_splits)
    with 2 False obtain t where "s = p' @ t" "b - len_utf8 c = str_len p'" by auto
    with le p have "c # s = p @ t \<and> b = str_len p" by simp
    then show ?thesis by blast
  qed (use 2 in auto)
qed (auto split: if_splits)

lemma str_from_iff: "str_from s b = Some t \<longleftrightarrow> (\<exists>p. s = p @ t \<and> b = str_len p)"
  using str_from_SomeD by fastforce

lemma str_to_iff: "str_to s b = Some p \<longleftrightarrow> (\<exists>t. s = p @ t \<and> b = str_len p)"
  using str_to_SomeD by fastforce

lemma str_range_iff:
  "str_range s a b = Some m \<longleftrightarrow> (\<exists>p t. s = p @ m @ t \<and> a = str_len p \<and> b = str_len p + str_len m)"
proof
  assume "str_range s a b = Some m"
  then obtain u where ab: "a \<le> b" and "str_from s a = Some u" "str_to u (b - a) = Some m"
    by (auto simp: str_range_def bind_eq_Some_conv split: if_splits)
  then obtain p t where "s = p @ u" "a = str_len p" "u = m @ t" "b - a = str_len m"
    using str_from_SomeD str_to_SomeD by meson
  then have "s = p @ m @ t \<and> a = str_len p \<and> b = str_len p + str_len m"
    using ab by simp
  then show "\<exists>p t. s = p @ m @ t \<and> a = str_len p \<and> b = str_len p + str_len m" by blast
qed (auto simp: str_range_def bind_eq_Some_conv)

lemma str_range_append [rust_str, simp]:
  "str_range (p @ m @ t) (str_len p) (str_len p + str_len m) = Some m"
  by (auto simp: str_range_iff)

lemma is_char_boundary_append [rust_str, simp]: "is_char_boundary (p @ s) (str_len p)"
  by (simp add: is_char_boundary_def)

lemma is_char_boundary_iff: "is_char_boundary s b \<longleftrightarrow> (\<exists>p t. s = p @ t \<and> b = str_len p)"
  by (auto simp: is_char_boundary_def str_from_iff dest!: str_from_SomeD split: option.splits)

subsection \<open>Lists\<close>

lemma takeWhile_eq_self_iff: "takeWhile P xs = xs \<longleftrightarrow> (\<forall>x\<in>set xs. P x)"
  by (induction xs) auto

lemma dropWhile_head: "dropWhile P xs = y # ys \<Longrightarrow> \<not> P y"
  by (induction xs) (auto split: if_splits)

lemma length_dropWhile_less: "xs \<noteq> [] \<Longrightarrow> P (hd xs) \<Longrightarrow> length (dropWhile P xs) < length xs"
  by (cases xs) (auto simp: le_imp_less_Suc length_dropWhile_le)

lemma sort_key_Nil_iff [simp]: "sort_key f xs = [] \<longleftrightarrow> xs = []"
  by (metis length_0_conv length_sort)

text \<open>\<^verbatim>\<open>slice::partition_point\<close> on a partitioned list: how many of its first elements
  satisfy \<open>P\<close>.\<close>

definition partition_point :: "('a \<Rightarrow> bool) \<Rightarrow> 'a list \<Rightarrow> nat" where
  "partition_point P xs = length (takeWhile P xs)"

text \<open>\<^verbatim>\<open>Vec::dedup\<close>: runs of equal neighbours keep their first element
  (\<open>remdups_adj\<close> of the library). Sorted and deduplicated is the sorted list of the set.\<close>

definition sort_dedup :: "'a::linorder list \<Rightarrow> 'a list" where
  "sort_dedup xs = remdups_adj (sort xs)"

lemma set_sort_dedup [simp]: "set (sort_dedup xs) = set xs"
  by (simp add: sort_dedup_def)

lemma sorted_distinct_remdups_adj: "sorted xs \<Longrightarrow> distinct (remdups_adj xs)"
proof (induction xs rule: remdups_adj.induct)
  case (3 x y xs)
  then show ?case by (auto simp: order_antisym_conv)
qed auto

lemma strict_sorted_sort_dedup [simp]: "sorted_wrt (<) (sort_dedup xs)"
  by (simp add: sort_dedup_def strict_sorted_iff sorted_distinct_remdups_adj)

text \<open>Writing distinct indices of a list.\<close>

lemma fold_update_nth:
  "distinct (map e fs) \<Longrightarrow> \<forall>f\<in>set fs. e f < length xs \<Longrightarrow>
     length (fold (\<lambda>f xs. xs[e f := v f]) fs xs) = length xs
     \<and> (\<forall>f\<in>set fs. fold (\<lambda>f xs. xs[e f := v f]) fs xs ! e f = v f)
     \<and> (\<forall>i. i \<notin> e ` set fs \<longrightarrow> fold (\<lambda>f xs. xs[e f := v f]) fs xs ! i = xs ! i)"
proof (induction fs arbitrary: xs)
  case (Cons f fs)
  have d: "distinct (map e fs)" "e f \<notin> e ` set fs" "\<forall>g\<in>set fs. e g < length (xs[e f := v f])" "e f < length xs"
    using Cons.prems by auto
  from Cons.IH [OF d(1,3)] d(2,4) show ?case by (auto simp: nth_list_update image_iff)
qed simp

end
