(* ===== verification/Chars.thy ===== *)
theory Chars
  imports Prelude
begin

section \<open>Character classes, marks and folding\<close>

text \<open>
  The character classes of \<^verbatim>\<open>hebrew_query.rs\<close> (attached marks, word marks, invisible
  chars, presentation forms, the canonical order of marks) and of
  \<^verbatim>\<open>hebrew_tokenizer.rs\<close> (word chars, transparent chars, geresh and gershayim).

  \<^verbatim>\<open>char::is_alphanumeric\<close> outside ASCII and the Hebrew letters is a table of the
  Unicode standard: it is the parameter \<open>alnum\<close> of the definitions that use it. What the
  proofs rely on is \<open>unicode_alnum\<close>: the quote and transparent chars are not
  alphanumeric. \<^verbatim>\<open>str::to_lowercase\<close>, which looks at whole words (a final
  sigma), is the parameter \<open>lower\<close>, a function on strings.
\<close>

subsection \<open>Classes\<close>

definition is_hebrew_letter :: "uchar \<Rightarrow> bool" where
  "is_hebrew_letter c \<longleftrightarrow> 0x05D0 \<le> c \<and> c \<le> 0x05EA"

definition is_ascii :: "uchar \<Rightarrow> bool" where
  "is_ascii c \<longleftrightarrow> c < 0x80"

definition is_ascii_alphanumeric :: "uchar \<Rightarrow> bool" where
  "is_ascii_alphanumeric c \<longleftrightarrow>
     0x30 \<le> c \<and> c \<le> 0x39 \<or> 0x41 \<le> c \<and> c \<le> 0x5A \<or> 0x61 \<le> c \<and> c \<le> 0x7A"

text \<open>\<^verbatim>\<open>char::is_whitespace\<close>: the White_Space property.\<close>

definition is_whitespace :: "uchar \<Rightarrow> bool" where
  "is_whitespace c \<longleftrightarrow>
     0x09 \<le> c \<and> c \<le> 0x0D \<or> c \<in> {0x20, 0x85, 0xA0, 0x1680, 0x2028, 0x2029, 0x202F, 0x205F, 0x3000}
     \<or> 0x2000 \<le> c \<and> c \<le> 0x200A"

definition is_attached_mark :: "uchar \<Rightarrow> bool" where
  "is_attached_mark c \<longleftrightarrow>
     (0x0591 \<le> c \<and> c \<le> 0x05C7) \<and> \<not> (c \<in> {0x05BE, 0x05C0, 0x05C3, 0x05C6})"

definition is_general_combining_mark :: "uchar \<Rightarrow> bool" where
  "is_general_combining_mark c \<longleftrightarrow> 0x0300 \<le> c \<and> c \<le> 0x036F"

definition is_word_mark :: "uchar \<Rightarrow> bool" where
  "is_word_mark c \<longleftrightarrow> is_attached_mark c \<or> is_general_combining_mark c \<or> c = 0xFB1E"

definition is_invisible_char :: "uchar \<Rightarrow> bool" where
  "is_invisible_char c \<longleftrightarrow>
     0x200B \<le> c \<and> c \<le> 0x200F \<or> 0x202A \<le> c \<and> c \<le> 0x202E \<or> 0x2066 \<le> c \<and> c \<le> 0x2069
     \<or> c = 0xFEFF"

definition is_nikud_mark :: "uchar \<Rightarrow> bool" where
  "is_nikud_mark c \<longleftrightarrow>
     0x05B0 \<le> c \<and> c \<le> 0x05BC \<or> c = 0x05BF \<or> c = 0x05C1 \<or> c = 0x05C2 \<or> c = 0x05C7"

definition is_taam_mark :: "uchar \<Rightarrow> bool" where
  "is_taam_mark c \<longleftrightarrow> is_attached_mark c \<and> \<not> is_nikud_mark c"

definition is_transparent :: "uchar \<Rightarrow> bool" where
  "is_transparent c \<longleftrightarrow>
     c \<in> {0x2A, 0x5B, 0x5D, 0x5E, 0x24, 0x5C, 0x2B, 0x2E, 0x7E, 0x60} \<or> is_invisible_char c"

definition is_geresh :: "uchar \<Rightarrow> bool" where
  "is_geresh c \<longleftrightarrow> c \<in> {0x27, 0x05F3, 0x2018, 0x2019}"

definition is_gershayim :: "uchar \<Rightarrow> bool" where
  "is_gershayim c \<longleftrightarrow> c \<in> {0x22, 0x05F4, 0x201C, 0x201D}"

definition is_word_char :: "(uchar \<Rightarrow> bool) \<Rightarrow> uchar \<Rightarrow> bool" where
  "is_word_char alnum c \<longleftrightarrow>
     (if is_hebrew_letter c \<or> is_ascii_alphanumeric c then True
      else \<not> is_ascii c \<and> (alnum c \<or> is_word_mark c))"

definition starts_token :: "(uchar \<Rightarrow> bool) \<Rightarrow> uchar \<Rightarrow> bool" where
  "starts_token alnum c \<longleftrightarrow>
     (if is_hebrew_letter c \<or> is_ascii_alphanumeric c then True
      else \<not> is_ascii c \<and> alnum c \<and> \<not> is_word_mark c)"

definition continues_token :: "(uchar \<Rightarrow> bool) \<Rightarrow> uchar \<Rightarrow> bool" where
  "continues_token alnum c \<longleftrightarrow>
     is_word_char alnum c \<or> is_transparent c \<or> is_geresh c \<or> is_gershayim c"

lemmas char_class_defs =
  is_hebrew_letter_def is_ascii_def is_ascii_alphanumeric_def is_whitespace_def
  is_attached_mark_def is_general_combining_mark_def is_word_mark_def is_invisible_char_def
  is_nikud_mark_def is_taam_mark_def is_transparent_def is_geresh_def is_gershayim_def

text \<open>What the Unicode tables say of the chars the tokenizer names: none of the quote and
  transparent chars, of the white space and of the maqaf is alphanumeric.\<close>

definition unicode_alnum :: "(uchar \<Rightarrow> bool) \<Rightarrow> bool" where
  "unicode_alnum alnum \<longleftrightarrow>
     (\<forall>c. is_transparent c \<or> is_geresh c \<or> is_gershayim c \<or> is_whitespace c \<or> c = 0x05BE \<longrightarrow> \<not> alnum c)"

text \<open>A concrete instance: Latin letters with diacritics, Greek, Cyrillic, the Hebrew
  letters and the presentation forms.\<close>

definition demo_alnum :: "uchar \<Rightarrow> bool" where
  "demo_alnum c \<longleftrightarrow>
     is_ascii_alphanumeric c \<or> 0xC0 \<le> c \<and> c \<le> 0x24F \<or> 0x370 \<le> c \<and> c \<le> 0x52F
     \<or> 0x5D0 \<le> c \<and> c \<le> 0x5F2 \<or> 0xFB1D \<le> c \<and> c \<le> 0xFB4F"

lemma unicode_alnum_demo: "unicode_alnum demo_alnum"
  by (auto simp: unicode_alnum_def demo_alnum_def char_class_defs)

lemma starts_token_is_word_char: "starts_token alnum c \<Longrightarrow> is_word_char alnum c"
  by (auto simp: starts_token_def is_word_char_def split: if_splits)

lemma starts_token_not_mark: "starts_token alnum c \<Longrightarrow> \<not> is_word_mark c"
  by (auto simp: starts_token_def char_class_defs split: if_splits)

lemma quotes_disjoint: "is_geresh c \<Longrightarrow> \<not> is_gershayim c"
  by (auto simp: char_class_defs)

lemma gershayim_not_geresh: "is_gershayim c \<Longrightarrow> \<not> is_geresh c"
  by (auto simp: char_class_defs)

lemma transparent_not_quote: "is_transparent c \<Longrightarrow> \<not> is_geresh c \<and> \<not> is_gershayim c"
  by (auto simp: char_class_defs)

lemma transparent_not_mark: "is_transparent c \<Longrightarrow> \<not> is_word_mark c"
  by (auto simp: char_class_defs)

lemma quote_not_mark: "is_geresh c \<or> is_gershayim c \<Longrightarrow> \<not> is_word_mark c"
  by (auto simp: char_class_defs)

lemma special_not_letter:
  assumes "is_transparent c \<or> is_geresh c \<or> is_gershayim c"
  shows "\<not> is_hebrew_letter c \<and> \<not> is_ascii_alphanumeric c"
  using assms by (auto simp: char_class_defs)

lemma word_char_plain:
  assumes "unicode_alnum alnum" "is_word_char alnum c"
  shows "\<not> is_transparent c \<and> \<not> is_geresh c \<and> \<not> is_gershayim c"
proof (rule ccontr)
  assume "\<not> ?thesis"
  then have s: "is_transparent c \<or> is_geresh c \<or> is_gershayim c" by blast
  with assms(1) have "\<not> alnum c" by (auto simp: unicode_alnum_def)
  moreover have "\<not> is_word_mark c" using s transparent_not_mark quote_not_mark by blast
  ultimately show False using assms(2) special_not_letter [OF s] by (simp add: is_word_char_def)
qed

subsection \<open>Presentation forms\<close>

definition presentation_table :: "(uchar \<times> ustr) list" where
  "presentation_table =
    [(0xFB1D, [0x05D9, 0x05B4]), (0xFB1E, []), (0xFB1F, [0x05F2, 0x05B7]),
     (0xFB20, [0x05E2]), (0xFB21, [0x05D0]), (0xFB22, [0x05D3]), (0xFB23, [0x05D4]),
     (0xFB24, [0x05DB]), (0xFB25, [0x05DC]), (0xFB26, [0x05DD]), (0xFB27, [0x05E8]),
     (0xFB28, [0x05EA]),
     (0xFB2A, [0x05E9, 0x05C1]), (0xFB2B, [0x05E9, 0x05C2]),
     (0xFB2C, [0x05E9, 0x05BC, 0x05C1]), (0xFB2D, [0x05E9, 0x05BC, 0x05C2]),
     (0xFB2E, [0x05D0, 0x05B7]), (0xFB2F, [0x05D0, 0x05B8]), (0xFB30, [0x05D0, 0x05BC]),
     (0xFB31, [0x05D1, 0x05BC]), (0xFB32, [0x05D2, 0x05BC]), (0xFB33, [0x05D3, 0x05BC]),
     (0xFB34, [0x05D4, 0x05BC]), (0xFB35, [0x05D5, 0x05BC]), (0xFB36, [0x05D6, 0x05BC]),
     (0xFB38, [0x05D8, 0x05BC]), (0xFB39, [0x05D9, 0x05BC]), (0xFB3A, [0x05DA, 0x05BC]),
     (0xFB3B, [0x05DB, 0x05BC]), (0xFB3C, [0x05DC, 0x05BC]), (0xFB3E, [0x05DE, 0x05BC]),
     (0xFB40, [0x05E0, 0x05BC]), (0xFB41, [0x05E1, 0x05BC]), (0xFB43, [0x05E3, 0x05BC]),
     (0xFB44, [0x05E4, 0x05BC]), (0xFB46, [0x05E6, 0x05BC]), (0xFB47, [0x05E7, 0x05BC]),
     (0xFB48, [0x05E8, 0x05BC]), (0xFB49, [0x05E9, 0x05BC]), (0xFB4A, [0x05EA, 0x05BC]),
     (0xFB4B, [0x05D5, 0x05B9]), (0xFB4C, [0x05D1, 0x05BF]), (0xFB4D, [0x05DB, 0x05BF]),
     (0xFB4E, [0x05E4, 0x05BF]), (0xFB4F, [0x05D0, 0x05DC])]"

definition fold_presentation_form :: "uchar \<Rightarrow> ustr option" where
  "fold_presentation_form c = map_of presentation_table c"

definition fold_presentation_forms :: "ustr \<Rightarrow> ustr" where
  "fold_presentation_forms text =
     (if \<not> (\<exists>c\<in>set text. fold_presentation_form c \<noteq> None) then text
      else concat (map (\<lambda>c. case fold_presentation_form c of Some folded \<Rightarrow> folded | None \<Rightarrow> [c]) text))"

definition strip_attached_marks :: "ustr \<Rightarrow> ustr" where
  "strip_attached_marks text = filter (\<lambda>c. \<not> is_attached_mark c) text"

definition contains_attached_marks :: "ustr \<Rightarrow> bool" where
  "contains_attached_marks text \<longleftrightarrow> (\<exists>c\<in>set text. is_attached_mark c)"

definition normalize_for_index :: "(ustr \<Rightarrow> ustr) \<Rightarrow> ustr \<Rightarrow> ustr" where
  "normalize_for_index lower text =
     lower (filter (\<lambda>c. \<not> is_word_mark c) (fold_presentation_forms text))"

text \<open>Facts of the table, by evaluation over its entries.\<close>

lemma fold_presentation_form_SomeD:
  assumes "fold_presentation_form c = Some f"
  shows "(c, f) \<in> set presentation_table"
  using assms by (simp add: fold_presentation_form_def map_of_SomeD)

lemma presentation_table_keys:
  "\<forall>(c, f) \<in> set presentation_table. 0xFB1D \<le> c \<and> c \<le> 0xFB4F \<and> (f = [] \<longleftrightarrow> c = 0xFB1E)"
  by (simp add: presentation_table_def)

lemma presentation_table_letters:
  "\<forall>(c, f) \<in> set presentation_table. c \<noteq> 0xFB1E \<longrightarrow>
     (is_hebrew_letter (hd f) \<or> hd f = 0x05F2) \<and> (\<forall>d\<in>set (tl f). is_attached_mark d \<or> d = 0x05DC)"
  by (simp add: presentation_table_def is_hebrew_letter_def is_attached_mark_def)

lemma presentation_table_chars:
  "\<forall>(c, f) \<in> set presentation_table. \<forall>d \<in> set f. 0x05B4 \<le> d \<and> d \<le> 0x05F2"
  by (simp add: presentation_table_def)

lemma fold_presentation_form_key:
  "fold_presentation_form c = Some f \<Longrightarrow> 0xFB1D \<le> c \<and> c \<le> 0xFB4F"
  using fold_presentation_form_SomeD presentation_table_keys by fastforce

lemma fold_presentation_form_below: "c < 0xFB1D \<Longrightarrow> fold_presentation_form c = None"
  using fold_presentation_form_key by (cases "fold_presentation_form c") fastforce+

lemma fold_presentation_form_chars:
  "fold_presentation_form c = Some f \<Longrightarrow> d \<in> set f \<Longrightarrow> 0x05B4 \<le> d \<and> d \<le> 0x05F2"
  using fold_presentation_form_SomeD presentation_table_chars by fastforce

lemma fold_presentation_form_nonempty:
  "fold_presentation_form c = Some f \<Longrightarrow> c \<noteq> 0xFB1E \<Longrightarrow> f \<noteq> []"
  using fold_presentation_form_SomeD presentation_table_keys by fastforce

lemma fold_presentation_form_letter:
  assumes "fold_presentation_form c = Some f" "c \<noteq> 0xFB1E"
  shows "\<exists>d\<in>set f. \<not> is_attached_mark d"
proof -
  have f: "f \<noteq> []" using assms by (rule fold_presentation_form_nonempty)
  have "is_hebrew_letter (hd f) \<or> hd f = 0x05F2"
    using assms fold_presentation_form_SomeD presentation_table_letters by fastforce
  then have "\<not> is_attached_mark (hd f)" by (auto simp: char_class_defs)
  with f show ?thesis by (auto intro: bexI [of _ "hd f"])
qed

lemma fold_presentation_form_no_quote:
  assumes "fold_presentation_form c = Some f" "d \<in> set f"
  shows "\<not> is_geresh d \<and> \<not> is_gershayim d \<and> \<not> is_transparent d"
  using fold_presentation_form_chars [OF assms] by (auto simp: char_class_defs)

text \<open>The fast path of \<^verbatim>\<open>fold_presentation_forms\<close> agrees with its loop, and folding leaves
  nothing to fold.\<close>

lemma fold_presentation_forms_loop:
  "fold_presentation_forms text =
     concat (map (\<lambda>c. case fold_presentation_form c of Some folded \<Rightarrow> folded | None \<Rightarrow> [c]) text)"
proof (cases "\<exists>c\<in>set text. fold_presentation_form c \<noteq> None")
  case False
  then have "concat (map (\<lambda>c. case fold_presentation_form c of Some f \<Rightarrow> f | None \<Rightarrow> [c]) text) = text"
    by (induction "text") auto
  with False show ?thesis by (simp add: fold_presentation_forms_def)
next
  case True
  then show ?thesis by (simp add: fold_presentation_forms_def)
qed

lemma fold_presentation_forms_append [simp]:
  "fold_presentation_forms (s @ t) = fold_presentation_forms s @ fold_presentation_forms t"
  by (simp add: fold_presentation_forms_loop)

lemma fold_presentation_forms_folded:
  assumes "c \<in> set (fold_presentation_forms text)"
  shows "fold_presentation_form c = None"
proof -
  from assms obtain x where x: "x \<in> set text"
    "c \<in> set (case fold_presentation_form x of Some f \<Rightarrow> f | None \<Rightarrow> [x])"
    by (auto simp: fold_presentation_forms_loop)
  show ?thesis
  proof (cases "fold_presentation_form x")
    case None
    with x show ?thesis by simp
  next
    case (Some f)
    with x have "c \<le> 0x05F2" using fold_presentation_form_chars by auto
    then show ?thesis by (simp add: fold_presentation_form_below)
  qed
qed

end
