(* ===== verification/Marks.thy ===== *)
theory Marks
  imports Chars
begin

section \<open>The canonical order of marks\<close>

text \<open>
  \<^verbatim>\<open>mark_combining_class\<close> and \<^verbatim>\<open>canonical_mark_order\<close> of \<^verbatim>\<open>hebrew_query.rs\<close>, and the
  flags that say which typed marks a vocalized query requires. The theory proves that the
  fast path of \<^verbatim>\<open>canonical_mark_order\<close> returns what its loop would, and that the function
  decides canonical equivalence of spellings: two texts have the same image exactly when
  one can be turned into the other by swapping neighbouring marks of different classes and
  by inserting or removing the grapheme joiner.
\<close>

definition mark_combining_class :: "uchar \<Rightarrow> nat" where
  "mark_combining_class c =
    (if c = 0x05B0 then 10 else if c = 0x05B1 then 11 else if c = 0x05B2 then 12
     else if c = 0x05B3 then 13 else if c = 0x05B4 then 14 else if c = 0x05B5 then 15
     else if c = 0x05B6 then 16 else if c = 0x05B7 then 17
     else if c = 0x05B8 \<or> c = 0x05C7 then 18
     else if c = 0x05B9 \<or> c = 0x05BA then 19
     else if c = 0x05BB then 20 else if c = 0x05BC then 21 else if c = 0x05BD then 22
     else if c = 0x05BF then 23 else if c = 0x05C1 then 24 else if c = 0x05C2 then 25
     else if c = 0x0591 \<or> c = 0x0596 \<or> c = 0x059B \<or> 0x05A2 \<le> c \<and> c \<le> 0x05A7
       \<or> c = 0x05AA \<or> c = 0x05C5 then 220
     else if c = 0x059A \<or> c = 0x05AD then 222
     else if c = 0x05AE then 228
     else if 0x0592 \<le> c \<and> c \<le> 0x05AF \<or> c = 0x05C4 then 230
     else if 0x0334 \<le> c \<and> c \<le> 0x0338 then 1
     else if c = 0x0321 \<or> c = 0x0322 \<or> c = 0x0327 \<or> c = 0x0328 then 202
     else if c = 0x031B then 216
     else if 0x0316 \<le> c \<and> c \<le> 0x0319 \<or> 0x031C \<le> c \<and> c \<le> 0x0320
       \<or> 0x0323 \<le> c \<and> c \<le> 0x0326 \<or> 0x0329 \<le> c \<and> c \<le> 0x0333
       \<or> 0x0339 \<le> c \<and> c \<le> 0x033C \<or> 0x0347 \<le> c \<and> c \<le> 0x0349
       \<or> c = 0x034D \<or> c = 0x034E \<or> 0x0353 \<le> c \<and> c \<le> 0x0356
       \<or> c = 0x0359 \<or> c = 0x035A then 220
     else if c = 0x0315 \<or> c = 0x031A \<or> c = 0x0358 then 232
     else if c = 0x035C \<or> c = 0x035F \<or> c = 0x0362 then 233
     else if c = 0x035D \<or> c = 0x035E \<or> c = 0x0360 \<or> c = 0x0361 then 234
     else if c = 0x0345 then 240
     else if 0x0300 \<le> c \<and> c \<le> 0x034E \<or> 0x0350 \<le> c \<and> c \<le> 0x036F then 230
     else 0)"

definition CGJ :: uchar where
  "CGJ = 0x034F"

text \<open>The check \<^verbatim>\<open>in_order\<close>, with the class of the previous char as its state.\<close>

fun in_order :: "nat \<Rightarrow> ustr \<Rightarrow> bool" where
  "in_order prev [] = True"
| "in_order prev (c # s) =
     (let cls = mark_combining_class c
      in (c \<noteq> CGJ \<and> (cls = 0 \<or> prev \<le> cls)) \<and> in_order cls s)"

text \<open>The loop: \<open>run\<close> holds the marks since the last base char with their classes,
  \<open>out\<close> what is written.\<close>

definition flush_run :: "(nat \<times> uchar) list \<Rightarrow> ustr \<Rightarrow> ustr" where
  "flush_run run out = out @ map snd (sort_key fst run)"

fun mark_loop :: "(nat \<times> uchar) list \<Rightarrow> ustr \<Rightarrow> ustr \<Rightarrow> ustr" where
  "mark_loop run out [] = flush_run run out"
| "mark_loop run out (c # s) =
     (if mark_combining_class c = 0 then mark_loop [] (flush_run run out @ [c]) s
      else mark_loop (run @ [(mark_combining_class c, c)]) out s)"

definition canonical_mark_order :: "ustr \<Rightarrow> ustr" where
  "canonical_mark_order s =
     (if in_order 0 s then s else mark_loop [] [] (filter (\<lambda>c. c \<noteq> CGJ) s))"

subsection \<open>The loop without its accumulators\<close>

abbreviation cls :: "uchar \<Rightarrow> nat" where
  "cls \<equiv> mark_combining_class"

fun sort_runs :: "ustr \<Rightarrow> ustr \<Rightarrow> ustr" where
  "sort_runs r [] = sort_key cls r"
| "sort_runs r (c # s) =
     (if cls c = 0 then sort_key cls r @ c # sort_runs [] s else sort_runs (r @ [c]) s)"

lemma cls_CGJ [simp]: "cls CGJ = 0"
  by (simp add: mark_combining_class_def CGJ_def)

lemma sort_key_pairs: "map snd (sort_key fst (map (\<lambda>c. (f c, c)) r)) = sort_key f r"
proof (induction r)
  case (Cons c r)
  have "map snd (insort_key fst (f c, c) ps) = insort_key f c (map snd ps)"
    if "\<forall>p\<in>set ps. fst p = f (snd p)" for ps :: "('b \<times> 'a) list"
    using that by (induction ps) auto
  from this [of "sort_key fst (map (\<lambda>c. (f c, c)) r)"] Cons show ?case by auto
qed simp

lemma mark_loop_eq:
  "mark_loop (map (\<lambda>c. (cls c, c)) r) out s = out @ sort_runs r s"
proof (induction s arbitrary: r out)
  case Nil
  then show ?case by (simp add: flush_run_def sort_key_pairs)
next
  case (Cons c s)
  from Cons [of "[]"] Cons [of "r @ [c]"] show ?case
    by (simp add: flush_run_def sort_key_pairs)
qed

definition canon :: "ustr \<Rightarrow> ustr" where
  "canon s = sort_runs [] (filter (\<lambda>c. c \<noteq> CGJ) s)"

lemma canonical_mark_order_loop:
  "canonical_mark_order s = (if in_order 0 s then s else canon s)"
  using mark_loop_eq [of "[]" "[]"] by (simp add: canonical_mark_order_def canon_def)

subsection \<open>The fast path\<close>

lemma in_order_CGJ: "in_order p s \<Longrightarrow> CGJ \<notin> set s"
  by (induction p s rule: in_order.induct) (auto simp: Let_def)

lemma filter_CGJ_id: "CGJ \<notin> set s \<Longrightarrow> filter (\<lambda>c. c \<noteq> CGJ) s = s"
  by (induction s) auto

lemma sort_runs_in_order:
  "in_order p s \<Longrightarrow> sorted (map cls r) \<Longrightarrow> \<forall>c\<in>set r. cls c \<noteq> 0 \<and> cls c \<le> p
    \<Longrightarrow> sort_runs r s = r @ s"
proof (induction s arbitrary: r p)
  case Nil
  then show ?case by (simp add: sorted_sort_id sort_key_id_if_sorted)
next
  case (Cons c s)
  show ?case
  proof (cases "cls c = 0")
    case True
    with Cons.prems Cons.IH [of 0 "[]"] show ?thesis
      by (simp add: Let_def sort_key_id_if_sorted)
  next
    case False
    with Cons.prems have "in_order (cls c) s" "sorted (map cls (r @ [c]))"
      "\<forall>d\<in>set (r @ [c]). cls d \<noteq> 0 \<and> cls d \<le> cls c"
      by (auto simp: Let_def sorted_append)
    from Cons.IH [OF this] False show ?thesis by simp
  qed
qed

lemma canon_in_order: "in_order 0 s \<Longrightarrow> canon s = s"
  using sort_runs_in_order [of 0 s "[]"] in_order_CGJ [of 0 s]
  by (simp add: canon_def filter_CGJ_id)

lemma canonical_mark_order_canon: "canonical_mark_order s = canon s"
  by (simp add: canonical_mark_order_loop canon_in_order)

subsection \<open>The image is in order\<close>

lemma in_order_0: "in_order p s \<Longrightarrow> in_order 0 s"
  by (cases s) (auto simp: Let_def)

lemma in_order_marks_append:
  "sorted (map cls r) \<Longrightarrow> \<forall>c\<in>set r. cls c \<noteq> 0 \<and> p \<le> cls c \<Longrightarrow>
   in_order (if r = [] then p else cls (last r)) s \<Longrightarrow> in_order p (r @ s)"
proof (induction r arbitrary: p)
  case (Cons c r)
  then have "in_order (cls c) (r @ s)" by (intro Cons.IH) (auto split: if_splits)
  with Cons.prems show ?case by (auto simp: Let_def)
qed simp

lemma in_order_base: "cls c = 0 \<Longrightarrow> c \<noteq> CGJ \<Longrightarrow> in_order 0 s \<Longrightarrow> in_order p (c # s)"
  by (simp add: Let_def)

lemma in_order_sort_runs:
  "CGJ \<notin> set s \<Longrightarrow> \<forall>c\<in>set r. cls c \<noteq> 0 \<Longrightarrow> in_order 0 (sort_runs r s)"
proof (induction s arbitrary: r)
  case Nil
  then show ?case using in_order_marks_append [of "sort_key cls r" 0 "[]"] by simp
next
  case (Cons c s)
  show ?case
  proof (cases "cls c = 0")
    case True
    with Cons have "in_order 0 (sort_runs [] s)" "c \<noteq> CGJ" by auto
    with True Cons.prems show ?thesis
      by (auto intro!: in_order_marks_append in_order_base simp del: in_order.simps)
  next
    case False
    with Cons.prems Cons.IH [of "r @ [c]"] show ?thesis by auto
  qed
qed

lemma in_order_canon: "in_order 0 (canon s)"
  by (simp add: canon_def in_order_sort_runs)

lemma canon_idem: "canon (canon s) = canon s"
  by (simp add: canon_in_order in_order_canon)

lemma mset_sort_runs: "mset (sort_runs r s) = mset r + mset s"
  by (induction r s rule: sort_runs.induct) auto

lemma mset_canon: "mset (canon s) = filter_mset (\<lambda>c. c \<noteq> CGJ) (mset s)"
  by (simp add: canon_def mset_sort_runs)

lemma set_canon: "set (canon s) = set s - {CGJ}"
proof -
  have "set (canon s) = set_mset (mset (canon s))" by simp
  also have "\<dots> = set s - {CGJ}" unfolding mset_canon by auto
  finally show ?thesis .
qed

lemma sort_key_marks: "\<forall>c\<in>set r. \<not> P c \<Longrightarrow> filter P (sort_key cls r) = []"
  by (simp add: filter_empty_conv)

lemma filter_base_sort_runs:
  "\<forall>c\<in>set r. cls c \<noteq> 0 \<Longrightarrow> filter (\<lambda>c. cls c = 0) (sort_runs r s) = filter (\<lambda>c. cls c = 0) s"
  by (induction r s rule: sort_runs.induct) (auto simp: sort_key_marks)

text \<open>The base characters keep their order.\<close>

lemma canon_base: "filter (\<lambda>c. cls c = 0) (canon s) = filter (\<lambda>c. cls c = 0 \<and> c \<noteq> CGJ) s"
  by (simp add: canon_def filter_base_sort_runs conj_commute)

subsection \<open>Canonical equivalence\<close>

text \<open>Spellings that differ in the order of neighbouring marks of different classes, or in
  a grapheme joiner.\<close>

inductive mark_equiv :: "ustr \<Rightarrow> ustr \<Rightarrow> bool" where
  equiv_refl: "mark_equiv s s"
| equiv_sym: "mark_equiv s t \<Longrightarrow> mark_equiv t s"
| equiv_trans: "mark_equiv s t \<Longrightarrow> mark_equiv t u \<Longrightarrow> mark_equiv s u"
| equiv_swap: "cls a \<noteq> 0 \<Longrightarrow> cls b \<noteq> 0 \<Longrightarrow> cls a \<noteq> cls b
    \<Longrightarrow> mark_equiv (p @ a # b # q) (p @ b # a # q)"
| equiv_joiner: "mark_equiv (p @ CGJ # q) (p @ q)"

lemma sort_key_swap:
  assumes "f a \<noteq> f b"
  shows "sort_key f (p @ a # b # q) = sort_key f (p @ b # a # q)"
proof (rule properties_for_sort_key)
  show "mset (sort_key f (p @ b # a # q)) = mset (p @ a # b # q)" by simp
  fix k
  assume "k \<in> set (sort_key f (p @ b # a # q))"
  show "filter (\<lambda>x. f k = f x) (sort_key f (p @ b # a # q)) = filter (\<lambda>x. f k = f x) (p @ a # b # q)"
  proof -
    have "filter (\<lambda>x. f x = f k) (sort_key f (p @ b # a # q)) = filter (\<lambda>x. f x = f k) (p @ b # a # q)"
      by (rule sort_key_stable)
    then show ?thesis using assms by (auto simp: eq_commute [of "f k"])
  qed
qed simp

text \<open>Stability of the sort makes two neighbours of different classes interchangeable.\<close>

lemma sort_runs_swap:
  assumes "cls a \<noteq> 0" "cls b \<noteq> 0" "cls a \<noteq> cls b"
  shows "sort_runs r (p @ a # b # q) = sort_runs r (p @ b # a # q)"
proof (induction p arbitrary: r)
  case Nil
  have "sort_runs (u @ a # b # v) q = sort_runs (u @ b # a # v) q" for u v
  proof (induction q arbitrary: v)
    case (Cons c q)
    from Cons [of "v @ [c]"] show ?case using assms by (simp add: sort_key_swap)
  qed (use assms in \<open>simp add: sort_key_swap\<close>)
  from this [of r "[]"] show ?case using assms by simp
qed auto

lemma mark_equiv_canon: "mark_equiv s t \<Longrightarrow> canon s = canon t"
proof (induction rule: mark_equiv.induct)
  case (equiv_swap a b p q)
  then have "a \<noteq> CGJ" "b \<noteq> CGJ" by auto
  with equiv_swap show ?case by (simp add: canon_def sort_runs_swap)
qed (auto simp: canon_def)

lemma mark_equiv_context: "mark_equiv s t \<Longrightarrow> mark_equiv (p @ s @ q) (p @ t @ q)"
proof (induction rule: mark_equiv.induct)
  case (equiv_swap a b u v)
  from mark_equiv.equiv_swap [OF equiv_swap, of "p @ u" "v @ q"] show ?case by simp
next
  case (equiv_joiner u v)
  from mark_equiv.equiv_joiner [of "p @ u" "v @ q"] show ?case by simp
qed (auto intro: mark_equiv.intros(1-3))

lemma mark_equiv_insort:
  "\<forall>d\<in>set r. cls d \<noteq> 0 \<Longrightarrow> cls c \<noteq> 0 \<Longrightarrow> mark_equiv (c # r) (insort_key cls c r)"
proof (induction r)
  case (Cons d r)
  show ?case
  proof (cases "cls c \<le> cls d")
    case False
    have "mark_equiv (c # d # r) (d # c # r)"
      using equiv_swap [of c d "[]" r] Cons.prems False by simp
    moreover have "mark_equiv (d # c # r) (d # insort_key cls c r)"
      using mark_equiv_context [of "c # r" "insort_key cls c r" "[d]" "[]"] Cons by simp
    ultimately show ?thesis using False by (auto intro: equiv_trans)
  qed (auto intro: equiv_refl)
qed (auto intro: equiv_refl)

lemma mark_equiv_sort: "\<forall>c\<in>set r. cls c \<noteq> 0 \<Longrightarrow> mark_equiv r (sort_key cls r)"
proof (induction r)
  case (Cons c r)
  then have "mark_equiv (c # r) (c # sort_key cls r)"
    using mark_equiv_context [of r "sort_key cls r" "[c]" "[]"] by simp
  moreover have "mark_equiv (c # sort_key cls r) (insort_key cls c (sort_key cls r))"
    using Cons.prems by (intro mark_equiv_insort) auto
  ultimately show ?case by (auto intro: equiv_trans)
qed (auto intro: equiv_refl)

lemma mark_equiv_sort_runs:
  "\<forall>c\<in>set r. cls c \<noteq> 0 \<Longrightarrow> mark_equiv (r @ s) (sort_runs r s)"
proof (induction s arbitrary: r)
  case Nil
  then show ?case by (simp add: mark_equiv_sort)
next
  case (Cons c s)
  show ?case
  proof (cases "cls c = 0")
    case True
    have "mark_equiv (r @ c # s) (sort_key cls r @ c # s)"
      using mark_equiv_context [of r "sort_key cls r" "[]" "c # s"] mark_equiv_sort Cons.prems
      by simp
    moreover have "mark_equiv (sort_key cls r @ c # s) (sort_key cls r @ c # sort_runs [] s)"
      using mark_equiv_context [of s "sort_runs [] s" "sort_key cls r @ [c]" "[]"] Cons.IH [of "[]"]
      by simp
    ultimately show ?thesis using True by (auto intro: equiv_trans)
  next
    case False
    with Cons.IH [of "r @ [c]"] Cons.prems show ?thesis by simp
  qed
qed

lemma mark_equiv_drop_joiners: "mark_equiv s (filter (\<lambda>c. c \<noteq> CGJ) s)"
proof (induction s)
  case (Cons c s)
  have tl: "mark_equiv (c # s) (c # filter (\<lambda>c. c \<noteq> CGJ) s)"
    using mark_equiv_context [OF Cons.IH, of "[c]" "[]"] by simp
  show ?case
  proof (cases "c = CGJ")
    case True
    then show ?thesis using tl equiv_joiner [of "[]" "filter (\<lambda>c. c \<noteq> CGJ) s"]
      by (auto intro: equiv_trans)
  qed (use tl in simp)
qed (auto intro: equiv_refl)

lemma mark_equiv_to_canon: "mark_equiv s (canon s)"
  using mark_equiv_drop_joiners mark_equiv_sort_runs [of "[]"]
  by (auto simp: canon_def intro: equiv_trans)

subsection \<open>Properties\<close>

text \<open>C21: \<^verbatim>\<open>canonical_mark_order\<close> decides canonical equivalence: two texts have the same
  image exactly when one turns into the other by swapping neighbouring marks of different
  combining classes and by inserting or dropping the grapheme joiner.\<close>

theorem canonical_mark_order_iff_equiv:
  "canonical_mark_order s = canonical_mark_order t \<longleftrightarrow> mark_equiv s t"
  unfolding canonical_mark_order_canon
  by (metis mark_equiv_canon mark_equiv_to_canon equiv_sym equiv_trans)

text \<open>The image is in canonical order, a second pass changes nothing, it holds the same
  characters without the grapheme joiner, and the base characters keep their order.\<close>

theorem canonical_mark_order_normal:
  "in_order 0 (canonical_mark_order s)
   \<and> canonical_mark_order (canonical_mark_order s) = canonical_mark_order s
   \<and> mset (canonical_mark_order s) = filter_mset (\<lambda>c. c \<noteq> CGJ) (mset s)
   \<and> filter (\<lambda>c. mark_combining_class c = 0) (canonical_mark_order s)
       = filter (\<lambda>c. mark_combining_class c = 0 \<and> c \<noteq> CGJ) s"
  by (simp add: canonical_mark_order_canon in_order_canon canon_idem mset_canon canon_base)

end
