(* ===== verification/Tokenizer.thy ===== *)
theory Tokenizer
  imports Marks
begin

section \<open>The Hebrew tokenizer\<close>

text \<open>
  \<^verbatim>\<open>hebrew_tokenizer.rs\<close>: where a token starts and ends (\<open>next_token_boundaries\<close>, the
  core the index and the query share), the paired reading \<^verbatim>\<open>(X) [Y]\<close>, the normal form of
  a token's text and the token stream with its positions and quote-free twins.

  Offsets count UTF-8 bytes. A slice off a char boundary is a panic (\<open>None\<close>); the theory
  proves that none happens, that the stream ends, and what its tokens look like.
\<close>

subsection \<open>Token boundaries\<close>

record quote_run =
  geresh_n :: nat
  gershayim_n :: nat
  first_is_geresh :: bool
  first_quote_end :: nat

definition no_quotes :: quote_run where
  "no_quotes = \<lparr>geresh_n = 0, gershayim_n = 0, first_is_geresh = False, first_quote_end = 0\<rparr>"

definition count_quote :: "nat \<Rightarrow> uchar \<Rightarrow> quote_run \<Rightarrow> quote_run" where
  "count_quote at c q =
     (let q' = (if geresh_n q + gershayim_n q = 0
                then q\<lparr>first_quote_end := at + len_utf8 c, first_is_geresh := is_geresh c\<rparr> else q)
      in if is_geresh c then q'\<lparr>geresh_n := geresh_n q' + 1\<rparr>
         else q'\<lparr>gershayim_n := gershayim_n q' + 1\<rparr>)"

text \<open>The look-ahead through transparent chars and quotes: what it counted and the first
  other char, with its offset and the text from it on.\<close>

fun look_ahead :: "nat \<Rightarrow> ustr \<Rightarrow> quote_run \<Rightarrow> quote_run \<times> (nat \<times> ustr) option" where
  "look_ahead at [] q = (q, None)"
| "look_ahead at (c # s) q =
     (if is_geresh c \<or> is_gershayim c then look_ahead (at + len_utf8 c) s (count_quote at c q)
      else if \<not> is_transparent c then (q, Some (at, c # s))
      else look_ahead (at + len_utf8 c) s q)"

text \<open>The run of quotes inside a word that a token continues through.\<close>

definition inner_run :: "nat \<Rightarrow> nat \<Rightarrow> bool" where
  "inner_run g d \<longleftrightarrow> (g, d) = (0, 0) \<or> (g, d) = (1, 0) \<or> (g, d) = (2, 0) \<or> (g, d) = (0, 1)"

lemma length_look_ahead: "look_ahead at s q = (q', Some (i, t)) \<Longrightarrow> length t \<le> length s"
  by (induction at s q rule: look_ahead.induct) (auto split: if_splits)

lemma look_ahead_head:
  "look_ahead at s q = (q', Some (i, t)) \<Longrightarrow>
     t \<noteq> [] \<and> \<not> is_geresh (hd t) \<and> \<not> is_gershayim (hd t) \<and> \<not> is_transparent (hd t)"
  by (induction at s q rule: look_ahead.induct) (auto split: if_splits)

text \<open>The loop that finds the end of a token: \<open>rest\<close> is the text from byte \<open>pos\<close> on. It
  passes the word chars, then looks ahead.\<close>

function tok_end :: "(uchar \<Rightarrow> bool) \<Rightarrow> nat \<Rightarrow> ustr \<Rightarrow> nat" where
  "tok_end alnum pos rest =
     (let run = takeWhile (is_word_char alnum) rest;
          pos' = pos + str_len run;
          after_run = dropWhile (is_word_char alnum) rest
      in case look_ahead pos' after_run no_quotes of
           (q, Some (i, next)) \<Rightarrow>
             if is_word_char alnum (hd next)
             then (if inner_run (geresh_n q) (gershayim_n q) then tok_end alnum i next else pos')
             else if first_is_geresh q then first_quote_end q else pos'
         | (q, None) \<Rightarrow> if first_is_geresh q then first_quote_end q else pos')"
  by pat_completeness auto

lemma look_ahead_progress:
  assumes "look_ahead at (dropWhile P s) q = (q', Some (i, t))" "P (hd t)"
  shows "length t < length s"
proof (cases "dropWhile P s")
  case Nil
  with assms show ?thesis by simp
next
  case (Cons c r)
  then have c: "\<not> P c" by (rule dropWhile_head)
  have "length t \<le> length r"
  proof (cases "is_geresh c \<or> is_gershayim c \<or> is_transparent c")
    case True
    with assms(1) Cons show ?thesis by (auto split: if_splits dest: length_look_ahead)
  next
    case False
    with assms(1) Cons have "t = c # r" by simp
    with assms(2) c show ?thesis by simp
  qed
  with Cons show ?thesis by (metis length_Cons length_dropWhile_le le_imp_less_Suc order_less_le_trans)
qed

termination tok_end
  by (relation "measure (\<lambda>(alnum, pos, rest). length rest)")
    (auto dest: look_ahead_progress [OF sym])

declare tok_end.simps [simp del]

fun find_char :: "(uchar \<Rightarrow> bool) \<Rightarrow> nat \<Rightarrow> ustr \<Rightarrow> nat option" where
  "find_char P at [] = None"
| "find_char P at (c # s) = (if P c then Some at else find_char P (at + len_utf8 c) s)"

definition next_token_boundaries ::
  "(uchar \<Rightarrow> bool) \<Rightarrow> ustr \<Rightarrow> nat \<Rightarrow> (nat \<times> nat) option option" where
  "next_token_boundaries alnum txt start_byte = do {
     slice \<leftarrow> str_from txt start_byte;
     case find_char (starts_token alnum) 0 slice of
       None \<Rightarrow> Some None
     | Some tok_start_rel \<Rightarrow> do {
         let tok_start = start_byte + tok_start_rel;
         s \<leftarrow> str_from txt tok_start;
         Some (Some (tok_start, tok_start + tok_end alnum 0 s)) } }"

subsection \<open>Paired readings\<close>

record paired_reading =
  second_start :: nat
  second_end :: nat
  after_pair :: nat

definition is_reading_suffix :: "(uchar \<Rightarrow> bool) \<Rightarrow> uchar \<Rightarrow> bool" where
  "is_reading_suffix alnum c \<longleftrightarrow>
     \<not> is_word_char alnum c \<and> c \<notin> {0x28, 0x29, 0x5B, 0x5D, 0x3C, 0x3E}"

definition strip_prefix_char :: "uchar \<Rightarrow> ustr \<Rightarrow> ustr option" where
  "strip_prefix_char p s = (case s of [] \<Rightarrow> None | c # r \<Rightarrow> if c = p then Some r else None)"

definition paired_reading_after ::
  "(uchar \<Rightarrow> bool) \<Rightarrow> ustr \<Rightarrow> nat \<Rightarrow> nat \<Rightarrow> paired_reading option option" where
  "paired_reading_after alnum txt tok_start tok_end' = do {
     prefix \<leftarrow> str_to txt tok_start;
     if prefix = [] \<or> last prefix \<noteq> 0x28 then Some None
     else do {
       after_tok \<leftarrow> str_from txt tok_end';
       case strip_prefix_char 0x29 (dropWhile (is_reading_suffix alnum) after_tok) of
         None \<Rightarrow> Some None
       | Some after_close \<Rightarrow>
         case strip_prefix_char 0x5B (dropWhile is_whitespace after_close) of
           None \<Rightarrow> Some None
         | Some after_open \<Rightarrow> do {
             let y_start = str_len txt - str_len after_open;
             b \<leftarrow> next_token_boundaries alnum txt y_start;
             case b of
               None \<Rightarrow> Some None
             | Some (start, end_) \<Rightarrow>
               if start \<noteq> y_start then Some None
               else do {
                 after_y \<leftarrow> str_from txt end_;
                 case strip_prefix_char 0x5D (dropWhile (is_reading_suffix alnum) after_y) of
                   None \<Rightarrow> Some None
                 | Some rest \<Rightarrow>
                   Some (Some \<lparr>second_start = start, second_end = end_,
                               after_pair = str_len txt - str_len rest\<rparr>) } } } }"

subsection \<open>The text of a token\<close>

definition needs_normalising :: "uchar \<Rightarrow> bool" where
  "needs_normalising c \<longleftrightarrow>
     is_word_mark c \<or> is_transparent c \<or> is_geresh c \<or> (is_gershayim c \<and> c \<noteq> 0x22)
     \<or> fold_presentation_form c \<noteq> None"

definition push_gershayim_deduped :: "ustr \<Rightarrow> ustr" where
  "push_gershayim_deduped txt = (if txt \<noteq> [] \<and> last txt = 0x22 then txt else txt @ [0x22])"

definition sort_marks :: "ustr \<Rightarrow> ustr" where
  "sort_marks txt = canonical_mark_order txt"

definition push_token_char :: "bool \<Rightarrow> ustr \<Rightarrow> uchar \<Rightarrow> ustr" where
  "push_token_char keep_marks out c =
     (if is_word_mark c \<and> c \<noteq> 0xFB1E then (if keep_marks \<and> c \<noteq> CGJ then out @ [c] else out)
      else if is_transparent c then out
      else if is_geresh c then
        (if out \<noteq> [] \<and> last out = 0x27 then push_gershayim_deduped (butlast out) else out @ [0x27])
      else if is_gershayim c then push_gershayim_deduped out
      else case fold_presentation_form c of
             Some folded \<Rightarrow> out @ filter (\<lambda>f. keep_marks \<or> \<not> is_attached_mark f) folded
           | None \<Rightarrow> out @ [c])"

definition normal_token_text :: "bool \<Rightarrow> ustr \<Rightarrow> ustr" where
  "normal_token_text keep_marks tok =
     (if \<exists>c\<in>set tok. needs_normalising c
      then (let out = foldl (push_token_char keep_marks) [] tok
            in if keep_marks then sort_marks out else out)
      else tok)"

subsection \<open>The token stream\<close>

record tokenizer =
  emit_quote_free :: bool
  keep_marks :: bool

record token =
  token_text :: ustr
  offset_from :: nat
  offset_to :: nat
  position :: nat

record stream =
  byte_pos :: nat
  token_count :: nat
  pending_quote_free :: "token option"
  share_next_position :: bool

definition stream_start :: stream where
  "stream_start = \<lparr>byte_pos = 0, token_count = 0, pending_quote_free = None,
                   share_next_position = False\<rparr>"

text \<open>The quote-free twin of a token, in the mode that emits one.\<close>

definition quote_free_twin :: "tokenizer \<Rightarrow> token \<Rightarrow> token option" where
  "quote_free_twin cfg t =
     (if emit_quote_free cfg \<and> (\<exists>c\<in>set (token_text t). c = 0x27 \<or> c = 0x22)
      then (let stripped = filter (\<lambda>c. c \<noteq> 0x27 \<and> c \<noteq> 0x22) (token_text t);
                stripped = (if keep_marks cfg then sort_marks stripped else stripped)
            in if stripped \<noteq> [] \<and> stripped \<noteq> token_text t
               then Some (t\<lparr>token_text := stripped\<rparr>) else None)
      else None)"

text \<open>\<^verbatim>\<open>TokenStream::advance\<close>: the new state and the token, if there is one. \<open>None\<close> is a
  panic: a bad slice, or \<^verbatim>\<open>token_count - 1\<close> below zero.\<close>

definition advance ::
  "(uchar \<Rightarrow> bool) \<Rightarrow> tokenizer \<Rightarrow> ustr \<Rightarrow> stream \<Rightarrow> (stream \<times> token option) option" where
  "advance alnum cfg txt st =
     (case pending_quote_free st of
        Some pending \<Rightarrow> Some (st\<lparr>pending_quote_free := None\<rparr>, Some pending)
      | None \<Rightarrow> do {
          b \<leftarrow> next_token_boundaries alnum txt (byte_pos st);
          case b of
            None \<Rightarrow> Some (st, None)
          | Some (tok_start, tok_end') \<Rightarrow> do {
              tok \<leftarrow> str_range txt tok_start tok_end';
              pos \<leftarrow> (if share_next_position st then checked_sub (token_count st) 1
                     else Some (token_count st));
              pair \<leftarrow> paired_reading_after alnum txt tok_start tok_end';
              let t = \<lparr>token_text = normal_token_text (keep_marks cfg) tok,
                       offset_from = tok_start, offset_to = tok_end', position = pos\<rparr>;
              Some (\<lparr>byte_pos = tok_end',
                     token_count = (if share_next_position st then token_count st
                                    else token_count st + 1),
                     pending_quote_free = quote_free_twin cfg t,
                     share_next_position = pair \<noteq> None\<rparr>, Some t) } })"

text \<open>The loop that drains the stream: \<open>None\<close> if it panics or never ends.\<close>

partial_function (option) drain ::
  "(uchar \<Rightarrow> bool) \<Rightarrow> tokenizer \<Rightarrow> ustr \<Rightarrow> stream \<Rightarrow> token list option" where
  "drain alnum cfg txt st =
     Option.bind (advance alnum cfg txt st) (\<lambda>r.
       case snd r of
         None \<Rightarrow> Some []
       | Some t \<Rightarrow> Option.bind (drain alnum cfg txt (fst r)) (\<lambda>ts. Some (t # ts)))"

definition tokenize :: "(uchar \<Rightarrow> bool) \<Rightarrow> tokenizer \<Rightarrow> ustr \<Rightarrow> token list option" where
  "tokenize alnum cfg txt = drain alnum cfg txt stream_start"

end
