(* ===== verification/TokenShape.thy ===== *)
theory TokenShape
  imports Tokenizer
begin

section \<open>What a token looks like\<close>

text \<open>
  The shape of the tokens \<open>next_token_boundaries\<close> delimits (\<open>token_shape\<close>), the
  specification of the boundaries against it, and the normal form of their text
  (\<open>text_ok\<close>).
\<close>

subsection \<open>Shapes\<close>

definition skippable :: "uchar \<Rightarrow> bool" where
  "skippable c \<longleftrightarrow> is_geresh c \<or> is_gershayim c \<or> is_transparent c"

definition word_run :: "(uchar \<Rightarrow> bool) \<Rightarrow> ustr \<Rightarrow> bool" where
  "word_run alnum w \<longleftrightarrow> w \<noteq> [] \<and> (\<forall>c\<in>set w. is_word_char alnum c)"

text \<open>The quotes a word may have inside: none, one geresh, two of them, or one gershayim.\<close>

definition joins :: "nat \<Rightarrow> nat \<Rightarrow> bool" where
  "joins g d \<longleftrightarrow> d = 0 \<and> g \<le> 2 \<or> g = 0 \<and> d = 1"

lemma inner_run_joins: "inner_run g d = joins g d"
  by (auto simp: inner_run_def joins_def)

definition joint :: "ustr \<Rightarrow> bool" where
  "joint q \<longleftrightarrow> q \<noteq> [] \<and> (\<forall>c\<in>set q. skippable c)
     \<and> joins (length (filter is_geresh q)) (length (filter is_gershayim q))"

inductive token_shape :: "(uchar \<Rightarrow> bool) \<Rightarrow> ustr \<Rightarrow> bool" for alnum where
  shape_word: "word_run alnum w \<Longrightarrow> token_shape alnum w"
| shape_closing: "word_run alnum w \<Longrightarrow> \<forall>c\<in>set ts. is_transparent c \<Longrightarrow> is_geresh g
    \<Longrightarrow> token_shape alnum (w @ ts @ [g])"
| shape_joint: "word_run alnum w \<Longrightarrow> joint q \<Longrightarrow> token_shape alnum t
    \<Longrightarrow> token_shape alnum (w @ q @ t)"

lemma token_shape_nonempty: "token_shape alnum t \<Longrightarrow> t \<noteq> []"
  by (induction rule: token_shape.induct) (auto simp: word_run_def)

lemma token_shape_hd: "token_shape alnum t \<Longrightarrow> is_word_char alnum (hd t)"
  by (induction rule: token_shape.induct) (auto simp: word_run_def neq_Nil_conv)

lemma token_shape_chars:
  "token_shape alnum t \<Longrightarrow> c \<in> set t \<Longrightarrow> is_word_char alnum c \<or> skippable c"
  by (induction rule: token_shape.induct) (auto simp: word_run_def joint_def skippable_def)

subsection \<open>The look-ahead\<close>

lemma look_ahead_rest:
  "snd (look_ahead at s q) =
     (if dropWhile skippable s = [] then None
      else Some (at + str_len (takeWhile skippable s), dropWhile skippable s))"
proof (induction at s q rule: look_ahead.induct)
  case (2 at c s q)
  then show ?case by (cases "skippable c") (auto simp: skippable_def [of c])
qed simp

lemma count_quote_simps:
  "is_geresh c \<Longrightarrow> geresh_n (count_quote at c q) = Suc (geresh_n q)"
  "is_geresh c \<Longrightarrow> gershayim_n (count_quote at c q) = gershayim_n q"
  "\<not> is_geresh c \<Longrightarrow> geresh_n (count_quote at c q) = geresh_n q"
  "\<not> is_geresh c \<Longrightarrow> gershayim_n (count_quote at c q) = Suc (gershayim_n q)"
  by (simp_all add: count_quote_def Let_def)

lemma look_ahead_geresh:
  "geresh_n (fst (look_ahead at s q)) = geresh_n q + length (filter is_geresh (takeWhile skippable s))"
proof (induction at s q rule: look_ahead.induct)
  case (2 at c s q)
  then show ?case
    by (cases "is_geresh c"; cases "is_gershayim c"; cases "is_transparent c")
      (simp_all add: skippable_def [of c] count_quote_simps)
qed simp

lemma look_ahead_gershayim:
  "gershayim_n (fst (look_ahead at s q)) =
     gershayim_n q + length (filter is_gershayim (takeWhile skippable s))"
proof (induction at s q rule: look_ahead.induct)
  case (2 at c s q)
  then show ?case using gershayim_not_geresh [of c]
    by (cases "is_geresh c"; cases "is_gershayim c"; cases "is_transparent c")
      (simp_all add: skippable_def [of c] count_quote_simps)
qed simp

lemmas look_ahead_counts = look_ahead_geresh look_ahead_gershayim

lemma look_ahead_first_kept:
  "0 < geresh_n q + gershayim_n q \<Longrightarrow>
     first_is_geresh (fst (look_ahead at s q)) = first_is_geresh q
     \<and> first_quote_end (fst (look_ahead at s q)) = first_quote_end q"
proof (induction at s q rule: look_ahead.induct)
  case (2 at c s q)
  have "0 < geresh_n (count_quote at c q) + gershayim_n (count_quote at c q)"
    by (cases "is_geresh c") (simp_all add: count_quote_simps)
  with 2 show ?case by (auto simp: count_quote_def Let_def)
qed simp

subsection \<open>The token at the start of a text\<close>

definition closes :: "ustr \<Rightarrow> bool" where
  "closes m \<longleftrightarrow> (case dropWhile is_transparent m of [] \<Rightarrow> False | g # _ \<Rightarrow> is_geresh g)"

definition closing :: "ustr \<Rightarrow> ustr" where
  "closing m = takeWhile is_transparent m @ [hd (dropWhile is_transparent m)]"

definition inner_joint :: "ustr \<Rightarrow> bool" where
  "inner_joint m \<longleftrightarrow> joins (length (filter is_geresh m)) (length (filter is_gershayim m))"

lemma dropWhile_skippable_shorter:
  assumes "next = dropWhile Q (dropWhile P s)" "next \<noteq> []" "P (hd next)"
  shows "length next < length s"
proof (cases "dropWhile P s")
  case Nil
  with assms show ?thesis by simp
next
  case (Cons c r)
  then have "\<not> P c" by (rule dropWhile_head)
  with assms Cons have "length next \<le> length r"
    by (auto simp: length_dropWhile_le split: if_splits)
  moreover have "length r < length s"
    using Cons length_dropWhile_le [of P s] by simp
  ultimately show ?thesis by simp
qed

function tok_split :: "(uchar \<Rightarrow> bool) \<Rightarrow> ustr \<Rightarrow> ustr" where
  "tok_split alnum rest =
     (let run = takeWhile (is_word_char alnum) rest;
          after_run = dropWhile (is_word_char alnum) rest;
          m = takeWhile skippable after_run;
          next = dropWhile skippable after_run
      in if next \<noteq> [] \<and> is_word_char alnum (hd next)
         then (if inner_joint m then run @ m @ tok_split alnum next else run)
         else if closes m then run @ closing m else run)"
  by pat_completeness auto

termination tok_split
  by (relation "measure (\<lambda>(alnum, rest). length rest)")
    (auto intro: dropWhile_skippable_shorter [OF refl])

declare tok_split.simps [simp del]

lemma look_ahead_first:
  assumes "geresh_n q + gershayim_n q = 0" "\<not> first_is_geresh q"
  shows "first_is_geresh (fst (look_ahead at s q)) = closes (takeWhile skippable s)
    \<and> (closes (takeWhile skippable s) \<longrightarrow>
        first_quote_end (fst (look_ahead at s q)) = at + str_len (closing (takeWhile skippable s)))"
  using assms
proof (induction at s q rule: look_ahead.induct)
  case (2 at c s q)
  show ?case
  proof (cases "is_geresh c \<or> is_gershayim c")
    case True
    let ?q = "count_quote at c q"
    have "0 < geresh_n ?q + gershayim_n ?q"
      by (cases "is_geresh c") (simp_all add: count_quote_simps)
    note kept = look_ahead_first_kept [OF this, of "at + len_utf8 c" s]
    have "first_is_geresh ?q = is_geresh c" "first_quote_end ?q = at + len_utf8 c"
      using 2 by (auto simp: count_quote_def Let_def)
    moreover have "\<not> is_transparent c" "skippable c"
      using True transparent_not_quote by (auto simp: skippable_def)
    ultimately show ?thesis using True kept by (auto simp: closes_def closing_def)
  next
    case False
    show ?thesis
    proof (cases "is_transparent c")
      case True
      with False 2 show ?thesis by (auto simp: closes_def closing_def skippable_def)
    next
      case False
      with \<open>\<not> (is_geresh c \<or> is_gershayim c)\<close> 2 show ?thesis
        by (auto simp: closes_def skippable_def)
    qed
  qed
qed (simp add: closes_def)

lemma tok_end_split: "tok_end alnum pos rest = pos + str_len (tok_split alnum rest)"
proof (induction alnum pos rest rule: tok_end.induct)
  case (1 alnum pos rest)
  let ?P = "is_word_char alnum"
  let ?run = "takeWhile ?P rest" and ?after = "dropWhile ?P rest"
  let ?pos = "pos + str_len ?run"
  let ?m = "takeWhile skippable ?after" and ?next = "dropWhile skippable ?after"
  obtain q r where la: "look_ahead ?pos ?after no_quotes = (q, r)" by fastforce
  have nq: "geresh_n no_quotes + gershayim_n no_quotes = 0" "\<not> first_is_geresh no_quotes"
    by (simp_all add: no_quotes_def)
  note first = look_ahead_first [OF nq, of ?pos ?after, unfolded la, simplified]
  have r: "r = (if ?next = [] then None else Some (?pos + str_len ?m, ?next))"
    using look_ahead_rest [of ?pos ?after no_quotes] la by simp
  have inner: "inner_joint ?m = inner_run (geresh_n q) (gershayim_n q)"
    using look_ahead_counts [of ?pos ?after no_quotes] la by (simp add: inner_joint_def inner_run_joins no_quotes_def)
  show ?case
  proof (cases "?next \<noteq> [] \<and> ?P (hd ?next) \<and> inner_joint ?m")
    case True
    with r have "r = Some (?pos + str_len ?m, ?next)" by simp
    from "1.IH" [OF refl refl refl la [symmetric] this refl] True inner
    have "tok_end alnum (?pos + str_len ?m) ?next = ?pos + str_len ?m + str_len (tok_split alnum ?next)"
      by simp
    with True la r inner show ?thesis
      by (subst tok_end.simps, subst tok_split.simps) (simp add: Let_def del: dropWhile_eq_Nil_conv)
  next
    case False
    with la r inner first show ?thesis
      by (subst tok_end.simps, subst tok_split.simps)
        (auto simp: Let_def simp del: dropWhile_eq_Nil_conv split: if_splits)
  qed
qed

lemma closing_prefix:
  assumes "closes m"
  shows "\<exists>v. m = closing m @ v"
proof -
  obtain g r where "dropWhile is_transparent m = g # r"
    using assms by (auto simp: closes_def split: list.splits)
  then have "m = closing m @ r"
    by (metis append.assoc append_Cons append_Nil closing_def list.sel(1) takeWhile_dropWhile_id)
  then show ?thesis by blast
qed

lemma tok_split_prefix: "\<exists>rem. rest = tok_split alnum rest @ rem"
proof (induction alnum rest rule: tok_split.induct)
  case (1 alnum rest)
  let ?P = "is_word_char alnum"
  let ?run = "takeWhile ?P rest" and ?after = "dropWhile ?P rest"
  let ?m = "takeWhile skippable ?after" and ?next = "dropWhile skippable ?after"
  have rest: "rest = ?run @ ?m @ ?next" by simp
  show ?case
  proof (cases "?next \<noteq> [] \<and> ?P (hd ?next) \<and> inner_joint ?m")
    case True
    with "1.IH" [OF refl refl refl refl] obtain rem where "?next = tok_split alnum ?next @ rem"
      by blast
    then have "rest = (?run @ ?m @ tok_split alnum ?next) @ rem" using rest by simp
    moreover have "tok_split alnum rest = ?run @ ?m @ tok_split alnum ?next"
      using True by (subst tok_split.simps) (simp add: Let_def)
    ultimately show ?thesis by metis
  next
    case False
    then have "tok_split alnum rest = ?run \<or> closes ?m \<and> tok_split alnum rest = ?run @ closing ?m"
      by (subst (1 2) tok_split.simps) (auto simp: Let_def simp del: dropWhile_eq_Nil_conv)
    then consider "tok_split alnum rest = ?run" | "closes ?m" "tok_split alnum rest = ?run @ closing ?m"
      by blast
    then show ?thesis
    proof cases
      case 1
      then show ?thesis by (metis takeWhile_dropWhile_id)
    next
      case 2
      then obtain v where "?m = closing ?m @ v" using closing_prefix by blast
      then have "rest = (?run @ closing ?m) @ v @ ?next" using rest by (metis append.assoc)
      with 2 show ?thesis by metis
    qed
  qed
qed

lemma tok_split_nonempty:
  assumes "is_word_char alnum c"
  shows "tok_split alnum (c # s) \<noteq> []"
  using assms by (subst tok_split.simps) (simp add: Let_def)

lemma while_run:
  assumes "\<forall>c\<in>set u. P c"
  shows "takeWhile P (u @ s) = u @ takeWhile P s" "dropWhile P (u @ s) = dropWhile P s"
  using assms by (induction u) auto

lemma tok_split_run:
  assumes "\<forall>c\<in>set u. is_word_char alnum c"
  shows "tok_split alnum (u @ s) = u @ tok_split alnum s"
  by (subst (1 2) tok_split.simps) (simp add: while_run [OF assms] Let_def)

subsection \<open>Where a token ends\<close>

text \<open>Whether a word goes on after the quotes and transparent chars behind it.\<close>

definition resumes :: "(uchar \<Rightarrow> bool) \<Rightarrow> ustr \<Rightarrow> bool" where
  "resumes alnum next \<longleftrightarrow> next \<noteq> [] \<and> is_word_char alnum (hd next)"

text \<open>A token and the text that follows it. A word stops at the chars \<open>m\<close> behind it, with \<open>next\<close> after them: if
  the word goes on after them, because they are no inner run of quotes, and otherwise because they
  do not open with a closing geresh; a closing geresh belongs to the token when no word goes on
  after it; and an inner run of quotes, or none, belongs to the token whenever the word goes on.\<close>

inductive token_then :: "(uchar \<Rightarrow> bool) \<Rightarrow> ustr \<Rightarrow> ustr \<Rightarrow> bool" for alnum where
  stops: "word_run alnum w \<Longrightarrow> \<forall>c\<in>set m. skippable c \<Longrightarrow> next = [] \<or> \<not> skippable (hd next)
    \<Longrightarrow> (if resumes alnum next then \<not> inner_joint m else \<not> closes m) \<Longrightarrow> token_then alnum w (m @ next)"
| closed: "word_run alnum w \<Longrightarrow> \<forall>c\<in>set ts. is_transparent c \<Longrightarrow> is_geresh g \<Longrightarrow> \<forall>c\<in>set m. skippable c
    \<Longrightarrow> next = [] \<or> \<not> skippable (hd next) \<Longrightarrow> \<not> resumes alnum next \<Longrightarrow> token_then alnum (w @ ts @ [g]) (m @ next)"
| goes_on: "word_run alnum w \<Longrightarrow> joint q \<Longrightarrow> token_then alnum t rem \<Longrightarrow> token_then alnum (w @ q @ t) rem"

lemma token_then_shape: "token_then alnum tok rem \<Longrightarrow> token_shape alnum tok"
  by (induction rule: token_then.induct) (auto intro: token_shape.intros)

lemma token_then_hd: "token_then alnum tok rem \<Longrightarrow> tok \<noteq> [] \<and> is_word_char alnum (hd tok)"
  using token_then_shape token_shape_nonempty token_shape_hd by blast

text \<open>The lexer cuts off such a token.\<close>

lemma joint_inner: "joint q \<longleftrightarrow> q \<noteq> [] \<and> (\<forall>c\<in>set q. skippable c) \<and> inner_joint q"
  by (simp add: joint_def inner_joint_def)

lemma tok_split_then:
  assumes "rest \<noteq> []" "is_word_char alnum (hd rest)"
  shows "\<exists>rem. rest = tok_split alnum rest @ rem \<and> token_then alnum (tok_split alnum rest) rem"
  using assms
proof (induction alnum rest rule: tok_split.induct)
  case (1 alnum rest)
  let ?P = "is_word_char alnum"
  let ?run = "takeWhile ?P rest" and ?after = "dropWhile ?P rest"
  let ?m = "takeWhile skippable ?after" and ?next = "dropWhile skippable ?after"
  have rest: "rest = ?run @ ?m @ ?next" by simp
  have run: "word_run alnum ?run"
    using "1.prems" by (cases rest) (auto simp: word_run_def dest: set_takeWhileD)
  have m: "\<forall>c\<in>set ?m. skippable c" by (auto dest: set_takeWhileD)
  have nx: "?next = [] \<or> \<not> skippable (hd ?next)" by (metis hd_dropWhile)
  show ?case
  proof (cases "resumes alnum ?next \<and> inner_joint ?m")
    case True
    then have on: "?next \<noteq> []" "?P (hd ?next)" "inner_joint ?m" by (auto simp: resumes_def)
    have "?m \<noteq> []"
    proof
      assume "?m = []"
      then have "?next = ?after" by (metis append_Nil takeWhile_dropWhile_id)
      then have "?P (hd ?after)" "?after \<noteq> []" using on by simp_all
      then show False by (metis hd_dropWhile)
    qed
    then have joint: "joint ?m" using m on(3) by (simp add: joint_inner)
    obtain rem where rem: "?next = tok_split alnum ?next @ rem" "token_then alnum (tok_split alnum ?next) rem"
      using "1.IH" [OF refl refl refl refl] on by blast
    have "tok_split alnum rest = ?run @ ?m @ tok_split alnum ?next"
      using on by (subst tok_split.simps) (simp add: Let_def)
    moreover from this have "rest = tok_split alnum rest @ rem" using rest rem(1) by (metis append.assoc)
    ultimately show ?thesis using goes_on [OF run joint rem(2)] by metis
  next
    case False
    show ?thesis
    proof (cases "\<not> resumes alnum ?next \<and> closes ?m")
      case True
      obtain g r where g: "dropWhile is_transparent ?m = g # r" "is_geresh g"
        using True by (auto simp: closes_def split: list.splits)
      define ts where "ts = takeWhile is_transparent ?m"
      have m_eq: "?m = ts @ g # r" using g(1) by (metis takeWhile_dropWhile_id ts_def)
      have split: "tok_split alnum rest = ?run @ ts @ [g]"
        using True g(1) by (subst tok_split.simps) (auto simp: Let_def resumes_def closing_def ts_def simp del: dropWhile_eq_Nil_conv)
      have "token_then alnum (?run @ ts @ [g]) (r @ ?next)"
      proof (rule closed [OF run _ g(2) _ nx])
        show "\<forall>c\<in>set ts. is_transparent c" by (auto simp: ts_def dest: set_takeWhileD)
        show "\<forall>c\<in>set r. skippable c" using m unfolding m_eq by simp
        show "\<not> resumes alnum ?next" using True by blast
      qed
      moreover have "rest = (?run @ ts @ [g]) @ r @ ?next" using rest m_eq by (metis append.assoc append_Cons append_Nil)
      ultimately show ?thesis using split by metis
    next
      case still: False
      have "tok_split alnum rest = ?run"
        using False still by (subst tok_split.simps) (auto simp: Let_def resumes_def simp del: dropWhile_eq_Nil_conv)
      moreover have "token_then alnum ?run (?m @ ?next)"
        by (rule stops [OF run m nx]) (use False still in auto)
      ultimately show ?thesis using rest by metis
    qed
  qed
qed

lemma tok_end_then:
  assumes "rest \<noteq> []" "is_word_char alnum (hd rest)"
  shows "\<exists>tok rem. rest = tok @ rem \<and> tok_end alnum pos rest = pos + str_len tok \<and> token_then alnum tok rem"
  using tok_split_then [OF assms] tok_end_split by metis

text \<open>There is only one: the text determines where its token ends.\<close>

lemma word_not_skippable: "unicode_alnum alnum \<Longrightarrow> is_word_char alnum c \<Longrightarrow> \<not> skippable c"
  using word_char_plain by (auto simp: skippable_def)

lemma while_head: "s = [] \<or> \<not> P (hd s) \<Longrightarrow> takeWhile P s = [] \<and> dropWhile P s = s"
  by (cases s) auto

lemma token_then_split:
  assumes "token_then alnum tok rem" "unicode_alnum alnum"
  shows "tok_split alnum (tok @ rem) = tok"
  using assms(1)
proof induction
  case (stops w m "next")
  have w: "\<forall>c\<in>set w. is_word_char alnum c" using stops(1) by (simp add: word_run_def)
  have m: "\<forall>c\<in>set m. skippable c" by (rule stops(2))
  show ?case
  proof (cases "m = [] \<and> resumes alnum next")
    case True
    then have "inner_joint m" by (simp add: inner_joint_def joins_def)
    then show ?thesis using stops(4) True by simp
  next
    case False
    then have "m @ next = [] \<or> \<not> is_word_char alnum (hd (m @ next))"
      using m word_not_skippable [OF assms(2)] by (cases m) (auto simp: resumes_def)
    then have after: "takeWhile (is_word_char alnum) (m @ next) = [] \<and> dropWhile (is_word_char alnum) (m @ next) = m @ next"
      by (rule while_head [where s = "m @ next"])
    have "tok_split alnum (m @ next) = []"
      using stops(4) while_head [of "next" skippable] stops(3) after
      by (subst tok_split.simps) (auto simp: Let_def while_run [OF m] resumes_def split: if_splits simp del: dropWhile_eq_Nil_conv)
    then show ?thesis using tok_split_run [OF w] by simp
  qed
next
  case (closed w ts g m "next")
  have w: "\<forall>c\<in>set w. is_word_char alnum c" using closed(1) by (simp add: word_run_def)
  let ?k = "ts @ g # m"
  have k: "\<forall>c\<in>set ?k. skippable c" using closed(2-4) by (auto simp: skippable_def)
  then have "\<not> is_word_char alnum (hd (?k @ next))"
    using word_not_skippable [OF assms(2)] by (cases ts) auto
  then have after: "takeWhile (is_word_char alnum) (?k @ next) = [] \<and> dropWhile (is_word_char alnum) (?k @ next) = ?k @ next"
    by (intro while_head) blast
  have "\<not> is_transparent g" using closed(3) transparent_not_quote by blast
  then have tr: "takeWhile is_transparent ?k = ts" "dropWhile is_transparent ?k = g # m"
    using while_run [OF closed(2), of "g # m"] by simp_all
  then have "closes ?k" "closing ?k = ts @ [g]" using closed(3) by (simp_all add: closes_def closing_def)
  then have "tok_split alnum (?k @ next) = ts @ [g]"
    using closed(6) while_head [of "next" skippable] closed(5) after while_run [OF k, of "next"]
    by (subst tok_split.simps) (auto simp: Let_def resumes_def simp del: dropWhile_eq_Nil_conv)
  then show ?case using tok_split_run [OF w, of "?k @ next"] by simp
next
  case (goes_on w q t rem)
  have w: "\<forall>c\<in>set w. is_word_char alnum c" using goes_on(1) by (simp add: word_run_def)
  have q: "q \<noteq> []" "\<forall>c\<in>set q. skippable c" "inner_joint q" using goes_on(2) by (simp_all add: joint_inner)
  have t: "t \<noteq> []" "is_word_char alnum (hd t)" using token_then_hd [OF goes_on(3)] by blast+
  have "\<not> is_word_char alnum (hd (q @ t @ rem))" using q(1,2) word_not_skippable [OF assms(2)] by (cases q) auto
  then have after: "takeWhile (is_word_char alnum) (q @ t @ rem) = [] \<and> dropWhile (is_word_char alnum) (q @ t @ rem) = q @ t @ rem"
    by (intro while_head) blast
  have "\<not> skippable (hd (t @ rem))" using t word_not_skippable [OF assms(2)] by (cases t) auto
  then have head: "takeWhile skippable (t @ rem) = [] \<and> dropWhile skippable (t @ rem) = t @ rem" by (intro while_head) blast
  have "is_word_char alnum (hd (t @ rem))" using t by (cases t) auto
  then have "tok_split alnum (q @ t @ rem) = q @ tok_split alnum (t @ rem)"
    using after head q(3) t(1) while_run [OF q(2), of "t @ rem"]
    by (subst tok_split.simps) (simp add: Let_def del: dropWhile_eq_Nil_conv)
  then show ?case using tok_split_run [OF w, of "q @ t @ rem"] goes_on.IH by simp
qed

lemma token_then_unique:
  "unicode_alnum alnum \<Longrightarrow> token_then alnum tok rem \<Longrightarrow> token_then alnum tok' rem' \<Longrightarrow> tok @ rem = tok' @ rem' \<Longrightarrow>
    tok = tok' \<and> rem = rem'"
  using token_then_split by (metis same_append_eq)

subsection \<open>The boundaries\<close>

lemma find_char_None_iff: "find_char P at s = None \<longleftrightarrow> (\<forall>c\<in>set s. \<not> P c)"
  by (induction P at s rule: find_char.induct) auto

lemma find_char_SomeD:
  "find_char P at s = Some i \<Longrightarrow>
     \<exists>skip c t. s = skip @ c # t \<and> i = at + str_len skip \<and> (\<forall>d\<in>set skip. \<not> P d) \<and> P c"
proof (induction P at s rule: find_char.induct)
  case (2 P at c s)
  show ?case
  proof (cases "P c")
    case True
    with 2 show ?thesis by (intro exI [of _ "[]"]) auto
  next
    case False
    with 2 obtain skip d t where "s = skip @ d # t" "i = at + len_utf8 c + str_len skip"
      "\<forall>d\<in>set skip. \<not> P d" "P d" by auto
    with False show ?thesis by (intro exI [of _ "c # skip"] exI [of _ d] exI [of _ t]) auto
  qed
qed simp

text \<open>The boundaries of the next token after a char boundary: no panic; either no char of
  the rest opens a token, or the token found is the text between the returned offsets, it
  opens with the first char that can, and it is the token that stands before the rest.\<close>

definition next_token_spec :: "(uchar \<Rightarrow> bool) \<Rightarrow> ustr \<Rightarrow> ustr \<Rightarrow> (nat \<times> nat) option \<Rightarrow> bool" where
  "next_token_spec alnum p s r \<longleftrightarrow>
     (case r of
        None \<Rightarrow> \<forall>c\<in>set s. \<not> starts_token alnum c
      | Some (a, b) \<Rightarrow> \<exists>skip tok rem. s = skip @ tok @ rem \<and> a = str_len (p @ skip)
          \<and> b = str_len (p @ skip @ tok) \<and> (\<forall>c\<in>set skip. \<not> starts_token alnum c)
          \<and> starts_token alnum (hd tok) \<and> token_then alnum tok rem)"

lemma next_token_boundaries_spec:
  "\<exists>r. next_token_boundaries alnum (p @ s) (str_len p) = Some r \<and> next_token_spec alnum p s r"
proof (cases "find_char (starts_token alnum) 0 s")
  case None
  then have "\<forall>c\<in>set s. \<not> starts_token alnum c" using find_char_None_iff by blast
  with None show ?thesis by (simp add: next_token_boundaries_def next_token_spec_def)
next
  case (Some i)
  from find_char_SomeD [OF this] obtain skip c t where
    s: "s = skip @ c # t" "i = str_len skip" "\<forall>d\<in>set skip. \<not> starts_token alnum d"
    and c: "starts_token alnum c" by auto
  from tok_end_then [of "c # t" alnum 0] starts_token_is_word_char [OF c]
  obtain tok rem where tok: "c # t = tok @ rem" "tok_end alnum 0 (c # t) = str_len tok"
    "token_then alnum tok rem" by auto
  have "str_from (p @ s) (str_len p + i) = Some (c # t)"
    using str_from_append [of "p @ skip" "c # t"] s by simp
  then have "next_token_boundaries alnum (p @ s) (str_len p)
      = Some (Some (str_len (p @ skip), str_len (p @ skip @ tok)))"
    using Some s tok by (simp add: next_token_boundaries_def Let_def)
  moreover have "starts_token alnum (hd tok)"
    using tok(1,3) c token_then_hd by (cases tok) auto
  ultimately show ?thesis using s tok by (auto simp: next_token_spec_def)
qed

lemma next_token_boundaries_total:
  "is_char_boundary txt b \<Longrightarrow> \<exists>r. next_token_boundaries alnum txt b = Some r"
  by (metis is_char_boundary_iff next_token_boundaries_spec)

lemma next_token_boundaries_SomeD:
  assumes "next_token_boundaries alnum (p @ s) (str_len p) = Some (Some (a, b))"
  shows "\<exists>skip tok rem. s = skip @ tok @ rem \<and> a = str_len (p @ skip) \<and> b = str_len (p @ skip @ tok)
     \<and> (\<forall>c\<in>set skip. \<not> starts_token alnum c)
     \<and> starts_token alnum (hd tok) \<and> token_shape alnum tok"
  using next_token_boundaries_spec [of alnum p s] assms token_then_shape
  unfolding next_token_spec_def by fastforce

text \<open>The boundaries are the only ones that fit.\<close>

lemma next_token_spec_unique:
  assumes "unicode_alnum alnum" "next_token_spec alnum p s r" "next_token_spec alnum p s r'"
  shows "r = r'"
proof -
  have opens: "\<exists>c \<in> set s. starts_token alnum c" if "next_token_spec alnum p s (Some (a, b))" for a b
  proof -
    obtain skip tok rem where t: "s = skip @ tok @ rem" "starts_token alnum (hd tok)" "token_then alnum tok rem"
      using \<open>next_token_spec alnum p s (Some (a, b))\<close> by (auto simp: next_token_spec_def)
    then have "hd tok \<in> set s" using token_then_hd [OF t(3)] by simp
    then show ?thesis using t(2) by blast
  qed
  show ?thesis
  proof (cases r; cases r')
    fix ab ab'
    assume r: "r = Some ab" "r' = Some ab'"
    obtain skip tok rem where t: "s = skip @ tok @ rem" "ab = (str_len (p @ skip), str_len (p @ skip @ tok))"
      "\<forall>c\<in>set skip. \<not> starts_token alnum c" "starts_token alnum (hd tok)" "token_then alnum tok rem"
      using assms(2) r(1) by (cases ab) (auto simp: next_token_spec_def)
    obtain skip' tok' rem' where t': "s = skip' @ tok' @ rem'" "ab' = (str_len (p @ skip'), str_len (p @ skip' @ tok'))"
      "\<forall>c\<in>set skip'. \<not> starts_token alnum c" "starts_token alnum (hd tok')" "token_then alnum tok' rem'"
      using assms(3) r(2) by (cases ab') (auto simp: next_token_spec_def)
    have skip: "takeWhile (\<lambda>c. \<not> starts_token alnum c) (k @ u @ v) = k"
      if "\<forall>c\<in>set k. \<not> starts_token alnum c" "starts_token alnum (hd u)" "u \<noteq> []" for k u v
      using that by (cases u) (simp_all add: takeWhile_append2)
    have "skip = skip'" using skip [OF t(3,4)] skip [OF t'(3,4)] token_then_hd [OF t(5)] token_then_hd [OF t'(5)] t(1) t'(1) by metis
    then have "tok = tok'" using token_then_unique [OF assms(1) t(5) t'(5)] t(1) t'(1) by simp
    then show "r = r'" using r t(2) t'(2) \<open>skip = skip'\<close> by simp
  next
    fix ab
    assume "r = None" "r' = Some ab"
    then show "r = r'" using assms(2,3) opens by (cases ab) (force simp: next_token_spec_def)
  next
    fix ab
    assume "r = Some ab" "r' = None"
    then show "r = r'" using assms(2,3) opens by (cases ab) (force simp: next_token_spec_def)
  qed simp
qed

subsection \<open>The normal form of a token's text\<close>

fun has_adj :: "'a \<Rightarrow> 'a \<Rightarrow> 'a list \<Rightarrow> bool" where
  "has_adj x y (a # b # s) \<longleftrightarrow> a = x \<and> b = y \<or> has_adj x y (b # s)"
| "has_adj x y _ \<longleftrightarrow> False"

lemma has_adj_append:
  "has_adj x y (s @ t) \<longleftrightarrow>
     has_adj x y s \<or> has_adj x y t \<or> s \<noteq> [] \<and> t \<noteq> [] \<and> last s = x \<and> hd t = y"
proof (induction s)
  case (Cons a s)
  then show ?case by (cases s; cases t) auto
qed simp

lemma has_adj_mem: "has_adj x y s \<Longrightarrow> x \<in> set s \<and> y \<in> set s"
  by (induction x y s rule: has_adj.induct) auto

lemma has_adj_butlast: "has_adj x y (butlast s) \<Longrightarrow> has_adj x y s"
  by (metis append_butlast_last_id butlast.simps(1) has_adj_append)

text \<open>A text the term dictionary may hold: not empty, quotes folded to ASCII and never
  doubled, no transparent char and no presentation form, and marks only where they are kept.\<close>

definition text_ok :: "bool \<Rightarrow> ustr \<Rightarrow> bool" where
  "text_ok keep t \<longleftrightarrow> t \<noteq> []
     \<and> (\<forall>c\<in>set t. \<not> is_transparent c \<and> (is_geresh c \<longrightarrow> c = 0x27) \<and> (is_gershayim c \<longrightarrow> c = 0x22)
          \<and> fold_presentation_form c = None \<and> (is_word_mark c \<longrightarrow> keep \<and> c \<noteq> CGJ))
     \<and> \<not> has_adj 0x27 0x27 t \<and> \<not> has_adj 0x22 0x22 t"

definition out_ok :: "bool \<Rightarrow> ustr \<Rightarrow> bool" where
  "out_ok keep t \<longleftrightarrow>
     (\<forall>c\<in>set t. \<not> is_transparent c \<and> (is_geresh c \<longrightarrow> c = 0x27) \<and> (is_gershayim c \<longrightarrow> c = 0x22)
        \<and> fold_presentation_form c = None \<and> (is_word_mark c \<longrightarrow> keep \<and> c \<noteq> CGJ))
     \<and> \<not> has_adj 0x27 0x27 t \<and> \<not> has_adj 0x22 0x22 t"

lemma text_ok_out: "text_ok keep t \<longleftrightarrow> t \<noteq> [] \<and> out_ok keep t"
  by (simp add: text_ok_def out_ok_def)

lemma quote_consts [simp]:
  "is_geresh 0x27" "\<not> is_gershayim 0x27" "is_gershayim 0x22" "\<not> is_geresh 0x22"
  "\<not> is_word_mark 0x27" "\<not> is_word_mark 0x22" "\<not> is_transparent 0x27" "\<not> is_transparent 0x22"
  "fold_presentation_form 0x27 = None" "fold_presentation_form 0x22 = None"
  by (simp_all add: char_class_defs fold_presentation_form_below)

lemma out_ok_snoc:
  "out_ok keep t \<Longrightarrow> \<not> is_transparent c \<Longrightarrow> is_geresh c \<longrightarrow> c = 0x27 \<Longrightarrow> is_gershayim c \<longrightarrow> c = 0x22
   \<Longrightarrow> fold_presentation_form c = None \<Longrightarrow> (is_word_mark c \<longrightarrow> keep \<and> c \<noteq> CGJ)
   \<Longrightarrow> \<not> (t \<noteq> [] \<and> last t = c \<and> (c = 0x27 \<or> c = 0x22)) \<Longrightarrow> out_ok keep (t @ [c])"
  by (auto simp: out_ok_def has_adj_append)

lemma out_ok_subset:
  "out_ok keep t \<Longrightarrow> set u \<subseteq> set t \<Longrightarrow> \<not> has_adj 0x27 0x27 u \<Longrightarrow> \<not> has_adj 0x22 0x22 u
   \<Longrightarrow> out_ok keep u"
  unfolding out_ok_def by blast

lemma out_ok_butlast: "out_ok keep t \<Longrightarrow> out_ok keep (butlast t)"
  by (rule out_ok_subset) (auto simp: out_ok_def dest: in_set_butlastD has_adj_butlast)

lemma out_ok_push_gershayim: "out_ok keep t \<Longrightarrow> out_ok keep (push_gershayim_deduped t)"
  using out_ok_snoc [of keep t "0x22"] by (simp add: push_gershayim_deduped_def)

lemma out_ok_push_geresh:
  "out_ok keep t \<Longrightarrow> \<not> (t \<noteq> [] \<and> last t = 0x27) \<Longrightarrow> out_ok keep (t @ [0x27])"
  using out_ok_snoc [of keep t "0x27"] by simp

lemma out_ok_snoc_letter:
  assumes "out_ok keep t" "\<not> is_transparent c" "\<not> is_geresh c" "\<not> is_gershayim c"
    "fold_presentation_form c = None" "is_word_mark c \<longrightarrow> keep \<and> c \<noteq> CGJ"
  shows "out_ok keep (t @ [c])"
proof (rule out_ok_snoc)
  show "\<not> (t \<noteq> [] \<and> last t = c \<and> (c = 0x27 \<or> c = 0x22))"
    using assms(3,4) by auto
qed (use assms in blast)+

lemma out_ok_append_letters:
  "out_ok keep t \<Longrightarrow> \<forall>d\<in>set f. \<not> is_transparent d \<and> \<not> is_geresh d \<and> \<not> is_gershayim d
     \<and> fold_presentation_form d = None \<and> (is_word_mark d \<longrightarrow> keep \<and> d \<noteq> CGJ) \<Longrightarrow> out_ok keep (t @ f)"
proof (induction f rule: rev_induct)
  case (snoc d f)
  have "out_ok keep (t @ f)" using snoc.prems by (intro snoc.IH) auto
  then have "out_ok keep ((t @ f) @ [d])"
    using snoc.prems by (intro out_ok_snoc_letter) auto
  then show ?case by simp
qed simp

lemma folded_letter_not_word_mark:
  "fold_presentation_form c = Some f \<Longrightarrow> d \<in> set f \<Longrightarrow> \<not> is_attached_mark d \<Longrightarrow> \<not> is_word_mark d"
  by (auto dest!: fold_presentation_form_chars simp: is_word_mark_def is_general_combining_mark_def)

lemma out_ok_push:
  assumes "out_ok keep t"
  shows "out_ok keep (push_token_char keep t c)"
proof -
  consider (mark) "is_word_mark c \<and> c \<noteq> 0xFB1E" | (transparent) "\<not> (is_word_mark c \<and> c \<noteq> 0xFB1E)" "is_transparent c"
    | (geresh) "is_geresh c" | (gershayim) "is_gershayim c"
    | (fold) f where "\<not> (is_word_mark c \<and> c \<noteq> 0xFB1E)" "\<not> is_transparent c" "\<not> is_geresh c"
        "\<not> is_gershayim c" "fold_presentation_form c = Some f"
    | (plain) "\<not> (is_word_mark c \<and> c \<noteq> 0xFB1E)" "\<not> is_transparent c" "\<not> is_geresh c" "\<not> is_gershayim c"
        "fold_presentation_form c = None" by blast
  then show ?thesis
  proof cases
    case mark
    then have "fold_presentation_form c = None" "\<not> is_transparent c" "\<not> is_geresh c" "\<not> is_gershayim c"
      using fold_presentation_form_below [of c] transparent_not_mark quote_not_mark
      by (auto simp: is_word_mark_def is_attached_mark_def is_general_combining_mark_def)
    with mark assms show ?thesis
      by (auto simp: push_token_char_def intro!: out_ok_snoc_letter)
  next
    case transparent
    with assms show ?thesis by (auto simp: push_token_char_def)
  next
    case geresh
    then have "\<not> is_word_mark c" "\<not> is_transparent c"
      using quote_not_mark transparent_not_quote by blast+
    then have "push_token_char keep t c =
        (if t \<noteq> [] \<and> last t = 0x27 then push_gershayim_deduped (butlast t) else t @ [0x27])"
      using geresh by (auto simp: push_token_char_def)
    with assms show ?thesis
      using out_ok_push_gershayim [OF out_ok_butlast [OF assms]] out_ok_push_geresh [OF assms] by auto
  next
    case gershayim
    then have "\<not> is_word_mark c" "\<not> is_transparent c" "\<not> is_geresh c"
      using quote_not_mark transparent_not_quote gershayim_not_geresh by blast+
    with gershayim assms show ?thesis
      by (auto simp: push_token_char_def intro!: out_ok_push_gershayim)
  next
    case fold
    have "fold_presentation_form d = None \<and> d \<noteq> CGJ" if "d \<in> set f" for d
      using fold_presentation_form_chars [OF fold(5) that]
      by (simp add: fold_presentation_form_below CGJ_def)
    then have "out_ok keep (t @ filter (\<lambda>f. keep \<or> \<not> is_attached_mark f) f)"
      using fold_presentation_form_no_quote [OF fold(5)] folded_letter_not_word_mark [OF fold(5)]
      by (intro out_ok_append_letters assms) auto
    with fold show ?thesis by (auto simp: push_token_char_def)
  next
    case plain
    then have "\<not> is_word_mark c"
      by (cases "c = 0xFB1E") (auto simp: fold_presentation_form_def presentation_table_def)
    with plain assms show ?thesis
      by (auto simp: push_token_char_def intro!: out_ok_snoc_letter)
  qed
qed

lemma out_ok_fold: "out_ok keep t \<Longrightarrow> out_ok keep (foldl (push_token_char keep) t tok)"
  by (induction tok arbitrary: t) (simp_all add: out_ok_push)

subsection \<open>Sorting the marks keeps the normal form\<close>

lemma is_word_mark_CGJ [simp]: "is_word_mark CGJ"
  by (simp add: CGJ_def is_word_mark_def is_general_combining_mark_def)

lemma out_ok_no_CGJ: "out_ok keep t \<Longrightarrow> CGJ \<notin> set t"
  unfolding out_ok_def using is_word_mark_CGJ by blast

lemma hd_sort_runs:
  "\<forall>c\<in>set r. cls c \<noteq> 0 \<Longrightarrow> r \<noteq> [] \<Longrightarrow> sort_runs r s \<noteq> [] \<and> cls (hd (sort_runs r s)) \<noteq> 0"
proof (induction r s rule: sort_runs.induct)
  case (1 r)
  then have "hd (sort_key cls r) \<in> set (sort_key cls r)" by (intro hd_in_set) auto
  with 1 show ?case by simp
next
  case (2 r c s)
  then have "hd (sort_key cls r) \<in> set (sort_key cls r)" by (intro hd_in_set) auto
  with 2 have "sort_key cls r \<noteq> [] \<and> cls (hd (sort_key cls r)) \<noteq> 0" by simp
  with 2 show ?case by (cases "cls c = 0") auto
qed

lemma has_adj_sort_runs:
  assumes "cls x = 0" "cls y = 0"
  shows "\<forall>c\<in>set r. cls c \<noteq> 0 \<Longrightarrow> has_adj x y (sort_runs r s) \<Longrightarrow> has_adj x y s"
proof (induction r s rule: sort_runs.induct)
  case (1 r)
  then have "x \<in> set (sort_key cls r)" using has_adj_mem by fastforce
  with 1 assms show ?case by auto
next
  case (2 r c s)
  show ?case
  proof (cases "cls c = 0")
    case False
    with 2 show ?thesis by (cases s) auto
  next
    case True
    have "x \<notin> set (sort_key cls r)" using 2 assms by auto
    then have "has_adj x y (c # sort_runs [] s)"
      using 2 True has_adj_mem [of x y "sort_key cls r"] last_in_set [of "sort_key cls r"]
      by (auto simp: has_adj_append)
    then consider "has_adj x y (sort_runs [] s)" | "c = x" "sort_runs [] s \<noteq> []" "hd (sort_runs [] s) = y"
      using has_adj_append [of x y "[c]" "sort_runs [] s"] by auto
    then show ?thesis
    proof cases
      case 1
      with 2 True show ?thesis by (cases s) auto
    next
      case 2
      then obtain d s' where s: "s = d # s'" by (cases s) auto
      with 2 assms hd_sort_runs [of "[d]" s'] show ?thesis by (auto split: if_splits)
    qed
  qed
qed

lemma sort_marks_runs: "out_ok keep t \<Longrightarrow> sort_marks t = sort_runs [] t"
  using out_ok_no_CGJ
  by (simp add: sort_marks_def canonical_mark_order_canon canon_def filter_CGJ_id)

lemma mset_sort_marks: "out_ok keep t \<Longrightarrow> mset (sort_marks t) = mset t"
  by (simp add: sort_marks_runs mset_sort_runs)

lemma set_sort_marks: "out_ok keep t \<Longrightarrow> set (sort_marks t) = set t"
  by (rule mset_eq_setD) (rule mset_sort_marks)

lemma out_ok_sort:
  assumes "out_ok keep t"
  shows "out_ok keep (sort_marks t)"
proof -
  have "cls 0x27 = 0" "cls 0x22 = 0" by (simp_all add: mark_combining_class_def)
  then show ?thesis
    using has_adj_sort_runs [of "0x27" "0x27" "[]" t] has_adj_sort_runs [of "0x22" "0x22" "[]" t]
      assms sort_marks_runs [OF assms] set_sort_marks [OF assms]
    by (intro out_ok_subset [OF assms]) (auto simp: out_ok_def)
qed

lemma sort_marks_Nil_iff: "out_ok keep t \<Longrightarrow> sort_marks t = [] \<longleftrightarrow> t = []"
  by (metis mset_sort_marks mset_zero_iff)

subsection \<open>The text of a token is normal\<close>

lemma push_nonempty: "t \<noteq> [] \<Longrightarrow> push_token_char keep t c \<noteq> []"
  by (auto simp: push_token_char_def push_gershayim_deduped_def split: option.splits)

lemma fold_nonempty: "t \<noteq> [] \<Longrightarrow> foldl (push_token_char keep) t tok \<noteq> []"
  by (induction tok arbitrary: t) (simp_all add: push_nonempty)

lemma push_starts_token:
  assumes "unicode_alnum alnum" "starts_token alnum c"
  shows "push_token_char keep [] c \<noteq> []"
proof -
  have "\<not> is_transparent c" "\<not> is_geresh c" "\<not> is_gershayim c" "\<not> is_word_mark c"
    using assms word_char_plain starts_token_is_word_char starts_token_not_mark by blast+
  moreover have "filter (\<lambda>f. keep \<or> \<not> is_attached_mark f) f \<noteq> []"
    if "fold_presentation_form c = Some f" for f
    using fold_presentation_form_letter [OF that] \<open>\<not> is_word_mark c\<close>
    by (auto simp: filter_empty_conv is_word_mark_def)
  ultimately show ?thesis by (auto simp: push_token_char_def split: option.splits)
qed

text \<open>On the fast path a token holds no geresh, and its gershayim stand alone between
  letters.\<close>

lemma joint_ascii:
  assumes "joint q" "\<forall>c\<in>set q. \<not> needs_normalising c"
  shows "q = [0x22]"
proof -
  have q: "\<forall>c\<in>set q. c = 0x22"
    using assms by (auto simp: joint_def skippable_def needs_normalising_def)
  then have "filter is_geresh q = []" "filter is_gershayim q = q"
    by (auto simp: filter_empty_conv filter_id_conv)
  then have "length q = 1" using assms(1) by (auto simp: joint_def joins_def)
  with q show ?thesis by (cases q) auto
qed

lemma word_char_not_gershayim: "is_word_char alnum 0x22 \<longleftrightarrow> False"
  by (simp add: is_word_char_def char_class_defs)

lemma token_shape_gershayim_alone:
  "token_shape alnum t \<Longrightarrow> \<forall>c\<in>set t. \<not> needs_normalising c \<Longrightarrow> \<not> has_adj 0x22 0x22 t"
proof (induction rule: token_shape.induct)
  case (shape_word w)
  then show ?case using has_adj_mem word_char_not_gershayim by (fastforce simp: word_run_def)
next
  case (shape_closing w ts g)
  then show ?case by (auto simp: needs_normalising_def)
next
  case (shape_joint w q t)
  then have q: "q = [0x22]" by (intro joint_ascii) auto
  have "0x22 \<notin> set w" using shape_joint word_char_not_gershayim by (auto simp: word_run_def)
  moreover have "hd t \<noteq> 0x22" "t \<noteq> []"
    using token_shape_hd [OF shape_joint(3)] token_shape_nonempty [OF shape_joint(3)]
      word_char_not_gershayim by auto
  moreover have "\<not> has_adj 0x22 0x22 (0x22 # t)"
    using shape_joint calculation by (cases t) auto
  moreover have "\<not> has_adj 0x22 0x22 w" using has_adj_mem [of "0x22" "0x22" w] calculation(1) by auto
  moreover have "w \<noteq> [] \<longrightarrow> last w \<noteq> 0x22" using calculation(1) last_in_set by metis
  ultimately show ?case using q by (auto simp: has_adj_append)
qed

lemma normal_token_text_ok:
  assumes "unicode_alnum alnum" "starts_token alnum (hd tok)" "token_shape alnum tok"
  shows "text_ok keep (normal_token_text keep tok)"
proof (cases "\<exists>c\<in>set tok. needs_normalising c")
  case True
  let ?out = "foldl (push_token_char keep) [] tok"
  obtain c r where tok: "tok = c # r" using token_shape_nonempty [OF assms(3)] by (cases tok) auto
  have "out_ok keep []" by (simp add: out_ok_def)
  then have ok: "out_ok keep ?out" by (rule out_ok_fold)
  have "?out \<noteq> []" using push_starts_token [OF assms(1)] assms(2) fold_nonempty tok by simp
  with ok True show ?thesis
    using out_ok_sort [OF ok] sort_marks_Nil_iff [OF ok]
    by (cases keep) (simp_all add: normal_token_text_def text_ok_out Let_def)
next
  case False
  then have "\<not> has_adj 0x22 0x22 tok" "0x27 \<notin> set tok" "tok \<noteq> []"
    using token_shape_gershayim_alone [OF assms(3)] token_shape_nonempty [OF assms(3)]
    by (auto simp: needs_normalising_def)
  with False has_adj_mem [of "0x27" "0x27" tok] show ?thesis
    by (auto simp: normal_token_text_def text_ok_def needs_normalising_def)
qed

end
