(* ===== verification/TokenStream.thy ===== *)
theory TokenStream
  imports TokenShape
begin

section \<open>The token stream\<close>

text \<open>
  The stream of \<open>advance\<close>: it never panics, it ends, and the tokens it yields cover every
  char that opens a word, in order, with the positions the phrase queries rely on: one more
  than the previous token, the same for a quote-free twin and for the second word of a
  paired reading.
\<close>

subsection \<open>Paired readings\<close>

text \<open>What stands between the first word of a pair and the second.\<close>

definition pair_gap :: "(uchar \<Rightarrow> bool) \<Rightarrow> ustr \<Rightarrow> bool" where
  "pair_gap alnum m \<longleftrightarrow> (\<exists>u w. m = u @ 0x29 # w @ [0x5B]
     \<and> (\<forall>c\<in>set u. is_reading_suffix alnum c) \<and> (\<forall>c\<in>set w. is_whitespace c))"

definition pair_spec ::
  "(uchar \<Rightarrow> bool) \<Rightarrow> ustr \<Rightarrow> ustr \<Rightarrow> ustr \<Rightarrow> paired_reading \<Rightarrow> bool" where
  "pair_spec alnum p tok rem pr \<longleftrightarrow>
     p \<noteq> [] \<and> last p = 0x28 \<and>
     (\<exists>m y v r. rem = m @ y @ v @ 0x5D # r \<and> pair_gap alnum m
        \<and> starts_token alnum (hd y) \<and> token_then alnum y (v @ 0x5D # r)
        \<and> (\<forall>c\<in>set v. is_reading_suffix alnum c)
        \<and> second_start pr = str_len (p @ tok @ m)
        \<and> second_end pr = str_len (p @ tok @ m @ y)
        \<and> after_pair pr = str_len (p @ tok @ m @ y @ v @ [0x5D]))"

lemma strip_prefix_char_Some: "strip_prefix_char c s = Some r \<longleftrightarrow> s = c # r"
  by (auto simp: strip_prefix_char_def split: list.splits if_splits)

lemma split_dropWhile: "dropWhile P s = t \<Longrightarrow> \<exists>u. s = u @ t \<and> (\<forall>c\<in>set u. P c)"
  by (metis set_takeWhileD takeWhile_dropWhile_id)

lemma paired_reading_after_spec:
  "\<exists>r. paired_reading_after alnum (p @ tok @ rem) (str_len p) (str_len (p @ tok)) = Some r
     \<and> (\<forall>pr. r = Some pr \<longrightarrow> pair_spec alnum p tok rem pr)"
proof -
  let ?txt = "p @ tok @ rem"
  let ?call = "paired_reading_after alnum ?txt (str_len p) (str_len (p @ tok))"
  have tok': "str_from ?txt (str_len (p @ tok)) = Some rem"
    using str_from_append [of "p @ tok" rem] by (simp del: str_len_append)
  then have tok: "str_from ?txt (str_len p + str_len tok) = Some rem" by simp
  consider (none) "?call = Some None"
    | (some) ac ao where "p \<noteq> []" "last p = 0x28"
        "strip_prefix_char 0x29 (dropWhile (is_reading_suffix alnum) rem) = Some ac"
        "strip_prefix_char 0x5B (dropWhile is_whitespace ac) = Some ao"
  proof (cases "p = [] \<or> last p \<noteq> 0x28")
    case True
    then show ?thesis by (intro none) (auto simp: paired_reading_after_def)
  next
    case open_: False
    show ?thesis
    proof (cases "strip_prefix_char 0x29 (dropWhile (is_reading_suffix alnum) rem)")
      case None
      with open_ show ?thesis by (intro none) (simp add: paired_reading_after_def tok)
    next
      case close: (Some ac)
      show ?thesis
      proof (cases "strip_prefix_char 0x5B (dropWhile is_whitespace ac)")
        case None
        with open_ close show ?thesis by (intro none) (simp add: paired_reading_after_def tok)
      qed (use open_ close some in blast)
    qed
  qed
  then show ?thesis
  proof cases
    case some
    then obtain u where u: "rem = u @ 0x29 # ac" "\<forall>c\<in>set u. is_reading_suffix alnum c"
      using split_dropWhile by (metis strip_prefix_char_Some)
    from some obtain w where w: "ac = w @ 0x5B # ao" "\<forall>c\<in>set w. is_whitespace c"
      using split_dropWhile by (metis strip_prefix_char_Some)
    let ?m = "u @ 0x29 # w @ [0x5B]"
    have rem: "rem = ?m @ ao" using u w by simp
    have gap: "pair_gap alnum ?m" using u w unfolding pair_gap_def by blast
    let ?q = "p @ tok @ ?m"
    have y: "str_len ?txt - str_len ao = str_len ?q" using rem by simp
    have whole: "?txt = ?q @ ao" using rem by simp
    obtain b where b: "next_token_boundaries alnum ?txt (str_len ?q) = Some b"
      using next_token_boundaries_spec [of alnum ?q ao] whole by metis
    show ?thesis
    proof (cases "\<exists>e. b = Some (str_len ?q, e)")
      case False
      then have "?call = Some None"
        using some tok' b y
        by (cases b) (auto simp: paired_reading_after_def Let_def simp del: str_len_append str_len_Cons)
      then show ?thesis by simp
    next
      case True
      then obtain e where e: "b = Some (str_len ?q, e)" by blast
      with b whole have "next_token_boundaries alnum (?q @ ao) (str_len ?q) = Some (Some (str_len ?q, e))"
        by metis
      with next_token_boundaries_spec [of alnum ?q ao] have "next_token_spec alnum ?q ao (Some (str_len ?q, e))" by simp
      then obtain skip yy r where
        ao: "ao = skip @ yy @ r" "str_len ?q = str_len (?q @ skip)" "e = str_len (?q @ skip @ yy)"
          "starts_token alnum (hd yy)" "token_then alnum yy r" unfolding next_token_spec_def by auto
      then have skip: "skip = []" by simp
      have after: "str_from ?txt e = Some r"
        using str_from_append [of "?q @ yy" r] ao skip whole by simp
      have call: "?call = Some (case strip_prefix_char 0x5D (dropWhile (is_reading_suffix alnum) r) of
           None \<Rightarrow> None
         | Some rest \<Rightarrow> Some \<lparr>second_start = str_len ?q, second_end = e,
                             after_pair = str_len ?txt - str_len rest\<rparr>)"
        using some tok' b y e after
        by (auto simp: paired_reading_after_def Let_def simp del: str_len_append str_len_Cons
            split: option.splits)
      show ?thesis
      proof (cases "strip_prefix_char 0x5D (dropWhile (is_reading_suffix alnum) r)")
        case None
        with call show ?thesis by simp
      next
        case (Some rest)
        then obtain v where v: "r = v @ 0x5D # rest" "\<forall>c\<in>set v. is_reading_suffix alnum c"
          using split_dropWhile by (metis strip_prefix_char_Some)
        have "pair_spec alnum p tok rem \<lparr>second_start = str_len ?q, second_end = e,
                after_pair = str_len ?txt - str_len rest\<rparr>"
          unfolding pair_spec_def using some(1,2) gap ao skip v rem
          by (intro conjI exI [of _ ?m] exI [of _ yy] exI [of _ v] exI [of _ rest]) auto
        with call Some show ?thesis by simp
      qed
    qed
  qed simp
qed

text \<open>And every pair is reported, with its own offsets.\<close>

lemma next_token_boundaries_at:
  assumes "unicode_alnum alnum" "starts_token alnum (hd tok)" "token_then alnum tok rem"
  shows "next_token_boundaries alnum (p @ tok @ rem) (str_len p) = Some (Some (str_len p, str_len (p @ tok)))"
proof -
  have "next_token_spec alnum p (tok @ rem) (Some (str_len p, str_len (p @ tok)))"
    unfolding next_token_spec_def option.case prod.case using assms(2,3)
    by (intro exI [of _ "[]"] exI [of _ tok] exI [of _ rem]) simp
  then show ?thesis
    using next_token_boundaries_spec [of alnum p "tok @ rem"] next_token_spec_unique [OF assms(1)] by fastforce
qed

lemma dropWhile_stop: "\<forall>c\<in>set u. P c \<Longrightarrow> \<not> P b \<Longrightarrow> dropWhile P (u @ b # r) = b # r"
  by (induction u) auto

lemma paired_reading_after_complete:
  assumes "unicode_alnum alnum" "pair_spec alnum p tok rem pr"
  shows "paired_reading_after alnum (p @ tok @ rem) (str_len p) (str_len (p @ tok)) = Some (Some pr)"
proof -
  obtain m y v r where open_: "p \<noteq> []" "last p = 0x28" and rem: "rem = m @ y @ v @ 0x5D # r" and gap: "pair_gap alnum m"
    and y: "starts_token alnum (hd y)" "token_then alnum y (v @ 0x5D # r)" and v: "\<forall>c\<in>set v. is_reading_suffix alnum c"
    and pr: "second_start pr = str_len (p @ tok @ m)" "second_end pr = str_len (p @ tok @ m @ y)"
      "after_pair pr = str_len (p @ tok @ m @ y @ v @ [0x5D])"
    using assms(2) unfolding pair_spec_def by blast
  obtain u w where m: "m = u @ 0x29 # w @ [0x5B]" "\<forall>c\<in>set u. is_reading_suffix alnum c" "\<forall>c\<in>set w. is_whitespace c"
    using gap unfolding pair_gap_def by blast
  let ?ao = "y @ v @ 0x5D # r" and ?q = "p @ tok @ m" and ?txt = "p @ tok @ rem"
  have whole: "?txt = ?q @ ?ao" using rem by simp
  have plain: "\<not> is_reading_suffix alnum 0x29" "\<not> is_reading_suffix alnum 0x5D" "\<not> is_whitespace 0x5B"
    by (simp_all add: is_reading_suffix_def is_whitespace_def)
  have "str_from ?txt (str_len (p @ tok)) = Some rem"
    using str_from_append [of "p @ tok" rem] by (simp del: str_len_append)
  moreover have "dropWhile (is_reading_suffix alnum) rem = 0x29 # w @ 0x5B # ?ao"
    using dropWhile_stop [OF m(2) plain(1)] rem m(1) by simp
  moreover have "dropWhile is_whitespace (w @ 0x5B # ?ao) = 0x5B # ?ao"
    by (rule dropWhile_stop [OF m(3) plain(3)])
  moreover have "str_len ?txt - str_len ?ao = str_len ?q" using whole by simp
  moreover have "next_token_boundaries alnum ?txt (str_len ?q) = Some (Some (str_len ?q, str_len (?q @ y)))"
    using next_token_boundaries_at [OF assms(1) y, of ?q] whole by simp
  moreover have "str_from ?txt (str_len (?q @ y)) = Some (v @ 0x5D # r)"
    using str_from_append [of "?q @ y" "v @ 0x5D # r"] whole by simp
  moreover have "dropWhile (is_reading_suffix alnum) (v @ 0x5D # r) = 0x5D # r"
    by (rule dropWhile_stop [OF v plain(2)])
  moreover have "str_len ?txt - str_len r = str_len (?q @ y @ v @ [0x5D])" using whole by simp
  moreover have "pr = \<lparr>second_start = str_len ?q, second_end = str_len (?q @ y), after_pair = str_len (?q @ y @ v @ [0x5D])\<rparr>"
    using pr by (cases pr) simp
  ultimately show ?thesis
    using open_ unfolding paired_reading_after_def
    by (simp add: strip_prefix_char_def Let_def del: str_len_append str_len_Cons)
qed

lemma paired_reading_after_iff:
  assumes "unicode_alnum alnum" "paired_reading_after alnum (p @ tok @ rem) (str_len p) (str_len (p @ tok)) = Some r"
  shows "r \<noteq> None \<longleftrightarrow> (\<exists>pr. pair_spec alnum p tok rem pr)"
proof
  obtain r' where "paired_reading_after alnum (p @ tok @ rem) (str_len p) (str_len (p @ tok)) = Some r'"
    "\<forall>pr. r' = Some pr \<longrightarrow> pair_spec alnum p tok rem pr" using paired_reading_after_spec by blast
  then have "\<forall>pr. r = Some pr \<longrightarrow> pair_spec alnum p tok rem pr" unfolding assms(2) by simp
  then show "r \<noteq> None \<Longrightarrow> \<exists>pr. pair_spec alnum p tok rem pr" by blast
next
  assume "\<exists>pr. pair_spec alnum p tok rem pr"
  then obtain pr where "pair_spec alnum p tok rem pr" by blast
  from paired_reading_after_complete [OF assms(1) this] show "r \<noteq> None" unfolding assms(2) by simp
qed

lemma paired_reading_after_total:
  "str_range txt a b = Some tok \<Longrightarrow> \<exists>r. paired_reading_after alnum txt a b = Some r"
  using paired_reading_after_spec by (fastforce simp: str_range_iff)

subsection \<open>What the stream yields\<close>

text \<open>No char between two offsets opens a token.\<close>

definition gap_free :: "(uchar \<Rightarrow> bool) \<Rightarrow> ustr \<Rightarrow> nat \<Rightarrow> nat \<Rightarrow> bool" where
  "gap_free alnum s a b \<longleftrightarrow> (\<exists>m. str_range s a b = Some m \<and> (\<forall>c\<in>set m. \<not> starts_token alnum c))"

text \<open>A token spans a piece of the text that opens with a char that can and ends where it must.\<close>

definition token_ok :: "(uchar \<Rightarrow> bool) \<Rightarrow> tokenizer \<Rightarrow> ustr \<Rightarrow> token \<Rightarrow> bool" where
  "token_ok alnum cfg s t \<longleftrightarrow>
     (\<exists>p raw r. s = p @ raw @ r \<and> offset_from t = str_len p \<and> offset_to t = str_len (p @ raw)
        \<and> starts_token alnum (hd raw) \<and> token_then alnum raw r) \<and> text_ok (keep_marks cfg) (token_text t)"

text \<open>The offset and the position after an optional previous token.\<close>

definition end_of :: "token option \<Rightarrow> nat" where
  "end_of prev = (case prev of None \<Rightarrow> 0 | Some t \<Rightarrow> offset_to t)"

definition count_of :: "token option \<Rightarrow> nat" where
  "count_of prev = (case prev of None \<Rightarrow> 0 | Some t \<Rightarrow> position t + 1)"

definition paired_with_next :: "(uchar \<Rightarrow> bool) \<Rightarrow> ustr \<Rightarrow> token option \<Rightarrow> bool" where
  "paired_with_next alnum s prev = (case prev of None \<Rightarrow> False
     | Some t \<Rightarrow> \<exists>p tok rem pr. s = p @ tok @ rem \<and> offset_from t = str_len p \<and> offset_to t = str_len (p @ tok)
         \<and> pair_spec alnum p tok rem pr)"

text \<open>The twin a token must have: in the mode that emits twins, every token with a quote whose text is more than
  quotes has one, the token without its quotes, its marks in canonical order where they are kept.\<close>

definition due_twin :: "tokenizer \<Rightarrow> token \<Rightarrow> token option" where
  "due_twin cfg t =
     (let bare = filter (\<lambda>c. c \<noteq> 0x27 \<and> c \<noteq> 0x22) (token_text t)
      in if emit_quote_free cfg \<and> bare \<noteq> token_text t \<and> bare \<noteq> []
         then Some (t\<lparr>token_text := if keep_marks cfg then canonical_mark_order bare else bare\<rparr>) else None)"

definition next_word :: "(uchar \<Rightarrow> bool) \<Rightarrow> tokenizer \<Rightarrow> ustr \<Rightarrow> token option \<Rightarrow> token \<Rightarrow> bool" where
  "next_word alnum cfg s prev u \<longleftrightarrow> gap_free alnum s (end_of prev) (offset_from u)
     \<and> position u = (if paired_with_next alnum s prev then count_of prev - 1 else count_of prev)
     \<and> (\<exists>raw. str_range s (offset_from u) (offset_to u) = Some raw \<and> token_text u = normal_token_text (keep_marks cfg) raw)"

text \<open>The tokens after \<open>prev\<close>, where \<open>due\<close> is the twin that must come first.\<close>

fun stream_ok :: "(uchar \<Rightarrow> bool) \<Rightarrow> tokenizer \<Rightarrow> ustr \<Rightarrow> token option \<Rightarrow> token option \<Rightarrow> token list \<Rightarrow> bool" where
  "stream_ok alnum cfg s prev due [] \<longleftrightarrow> due = None \<and> gap_free alnum s (end_of prev) (str_len s)"
| "stream_ok alnum cfg s prev due (t # ts) \<longleftrightarrow>
     token_ok alnum cfg s t \<and>
     (case due of
        Some u \<Rightarrow> t = u \<and> stream_ok alnum cfg s (Some t) None ts
      | None \<Rightarrow> next_word alnum cfg s prev t \<and> stream_ok alnum cfg s (Some t) (due_twin cfg t) ts)"

subsection \<open>The invariant of the stream\<close>

definition state_ok :: "(uchar \<Rightarrow> bool) \<Rightarrow> tokenizer \<Rightarrow> ustr \<Rightarrow> token option \<Rightarrow> stream \<Rightarrow> bool" where
  "state_ok alnum cfg s prev st \<longleftrightarrow>
     is_char_boundary s (byte_pos st) \<and> byte_pos st = end_of prev
     \<and> token_count st = count_of prev
     \<and> share_next_position st = paired_with_next alnum s prev
     \<and> (\<forall>u. pending_quote_free st = Some u \<longrightarrow> token_ok alnum cfg s u \<and> end_of (Some u) = end_of prev
          \<and> count_of (Some u) = count_of prev \<and> paired_with_next alnum s (Some u) = paired_with_next alnum s prev)"

lemma state_ok_start: "state_ok alnum cfg s None stream_start"
  by (simp add: state_ok_def stream_start_def is_char_boundary_def end_of_def count_of_def
      paired_with_next_def)

text \<open>The code emits the twins that are due, and each is a token of the same place.\<close>

lemma quote_free_twin_due:
  assumes "token_ok alnum cfg s t"
  shows "quote_free_twin cfg t = due_twin cfg t"
    "due_twin cfg t = Some u \<Longrightarrow> token_ok alnum cfg s u \<and> offset_from u = offset_from t \<and> offset_to u = offset_to t
      \<and> position u = position t"
proof -
  define bare where "bare = filter (\<lambda>c. c \<noteq> 0x27 \<and> c \<noteq> 0x22) (token_text t)"
  define shown where "shown = (if keep_marks cfg then sort_marks bare else bare)"
  have no_quotes: "0x27 \<notin> set bare" "0x22 \<notin> set bare" by (simp_all add: bare_def)
  then have adj: "\<not> has_adj 0x27 0x27 bare" "\<not> has_adj 0x22 0x22 bare"
    using has_adj_mem [of "0x27" "0x27" bare] has_adj_mem [of "0x22" "0x22" bare] by auto
  have "out_ok (keep_marks cfg) (token_text t)"
    using assms by (simp add: token_ok_def text_ok_out)
  from out_ok_subset [OF this _ adj] have ok: "out_ok (keep_marks cfg) bare" by (simp add: bare_def)
  have chars: "set shown = set bare" and empty: "shown = [] \<longleftrightarrow> bare = []"
    using set_sort_marks [OF ok] sort_marks_Nil_iff [OF ok] by (simp_all add: shown_def)
  have quoted: "bare \<noteq> token_text t \<longleftrightarrow> (\<exists>c\<in>set (token_text t). c = 0x27 \<or> c = 0x22)"
    unfolding bare_def filter_id_conv by blast
  then have "bare \<noteq> token_text t \<Longrightarrow> shown \<noteq> token_text t" using chars no_quotes by auto
  then show "quote_free_twin cfg t = due_twin cfg t"
    using quoted empty unfolding quote_free_twin_def due_twin_def Let_def bare_def [symmetric] sort_marks_def [symmetric]
      shown_def [symmetric] by auto
  assume "due_twin cfg t = Some u"
  then have u: "u = t\<lparr>token_text := shown\<rparr>" and ne: "bare \<noteq> []"
    unfolding due_twin_def Let_def bare_def [symmetric] sort_marks_def [symmetric] shown_def [symmetric] by (auto split: if_splits)
  have "text_ok (keep_marks cfg) shown"
    using ok out_ok_sort [OF ok] ne empty by (cases "keep_marks cfg") (simp_all add: shown_def text_ok_out)
  then show "token_ok alnum cfg s u \<and> offset_from u = offset_from t \<and> offset_to u = offset_to t \<and> position u = position t"
    using assms u by (simp add: token_ok_def)
qed

lemma same_place:
  assumes "offset_from u = offset_from t" "offset_to u = offset_to t" "position u = position t"
  shows "end_of (Some u) = end_of (Some t)" "count_of (Some u) = count_of (Some t)"
    "paired_with_next alnum s (Some u) = paired_with_next alnum s (Some t)"
  using assms by (simp_all add: end_of_def count_of_def paired_with_next_def)

text \<open>The work left: bytes after the position, and the twin that waits.\<close>

definition stream_left :: "ustr \<Rightarrow> stream \<Rightarrow> nat" where
  "stream_left s st = 2 * (str_len s - byte_pos st) + (if pending_quote_free st = None then 0 else 1)"

definition yields :: "(uchar \<Rightarrow> bool) \<Rightarrow> tokenizer \<Rightarrow> ustr \<Rightarrow> token option \<Rightarrow> token option \<Rightarrow> token \<Rightarrow> token option \<Rightarrow> bool" where
  "yields alnum cfg s prev due t due' \<longleftrightarrow> token_ok alnum cfg s t \<and>
     (case due of Some u \<Rightarrow> t = u \<and> due' = None | None \<Rightarrow> next_word alnum cfg s prev t \<and> due' = due_twin cfg t)"

lemma advance_step:
  assumes "unicode_alnum alnum" "state_ok alnum cfg s prev st"
  shows "(advance alnum cfg s st = Some (st, None) \<and> pending_quote_free st = None \<and> gap_free alnum s (end_of prev) (str_len s))
    \<or> (\<exists>st' t. advance alnum cfg s st = Some (st', Some t)
         \<and> yields alnum cfg s prev (pending_quote_free st) t (pending_quote_free st')
         \<and> state_ok alnum cfg s (Some t) st' \<and> stream_left s st' < stream_left s st)"
proof (cases "pending_quote_free st")
  case (Some u)
  then have u: "token_ok alnum cfg s u" "end_of (Some u) = end_of prev" "count_of (Some u) = count_of prev"
      "paired_with_next alnum s (Some u) = paired_with_next alnum s prev"
    using assms(2) by (auto simp: state_ok_def)
  let ?st = "st\<lparr>pending_quote_free := None\<rparr>"
  have "advance alnum cfg s st = Some (?st, Some u)" using Some by (simp add: advance_def)
  moreover have "state_ok alnum cfg s (Some u) ?st" using assms(2) u by (auto simp: state_ok_def)
  moreover have "stream_left s ?st < stream_left s st" using Some by (simp add: stream_left_def)
  moreover have "yields alnum cfg s prev (pending_quote_free st) u (pending_quote_free ?st)"
    using u(1) Some by (simp add: yields_def)
  ultimately show ?thesis by blast
next
  case None
  obtain p rest where s: "s = p @ rest" and pos: "byte_pos st = str_len p"
    using assms(2) by (auto simp: state_ok_def is_char_boundary_iff)
  have prev: "end_of prev = str_len p" using assms(2) pos by (simp add: state_ok_def)
  obtain b where b: "next_token_boundaries alnum (p @ rest) (str_len p) = Some b"
    "next_token_spec alnum p rest b" using next_token_boundaries_spec by blast
  show ?thesis
  proof (cases b)
    case None
    with b \<open>pending_quote_free st = None\<close> have "advance alnum cfg s st = Some (st, None)"
      by (simp add: advance_def s pos)
    moreover have "gap_free alnum s (end_of prev) (str_len s)"
      using b None prev s str_range_append [of p rest "[]"]
      by (auto simp: gap_free_def next_token_spec_def)
    ultimately show ?thesis using \<open>pending_quote_free st = None\<close> by blast
  next
    case (Some ab)
    with b(2) obtain skip tok rem where rest: "rest = skip @ tok @ rem"
      and ab: "ab = (str_len (p @ skip), str_len (p @ skip @ tok))"
      and skip: "\<forall>c\<in>set skip. \<not> starts_token alnum c"
      and hd: "starts_token alnum (hd tok)" and ends: "token_then alnum tok rem"
      by (cases ab) (auto simp: next_token_spec_def)
    note shape = token_then_shape [OF ends]
    let ?a = "str_len (p @ skip)" and ?b = "str_len (p @ skip @ tok)"
    have range: "str_range s ?a ?b = Some tok"
      using str_range_append [of "p @ skip" tok rem] s rest by (simp add: add.assoc)
    have whole: "s = (p @ skip) @ tok @ rem" using s rest by simp
    obtain pair where pair: "paired_reading_after alnum s ?a ?b = Some pair"
      using paired_reading_after_total [OF range] by blast
    have count: "token_count st = count_of prev"
      and share: "share_next_position st = paired_with_next alnum s prev"
      using assms(2) by (auto simp: state_ok_def)
    let ?pos = "if share_next_position st then token_count st - 1 else token_count st"
    let ?t = "\<lparr>token_text = normal_token_text (keep_marks cfg) tok, offset_from = ?a,
               offset_to = ?b, position = ?pos\<rparr>"
    let ?st = "\<lparr>byte_pos = ?b,
                token_count = (if share_next_position st then token_count st else token_count st + 1),
                pending_quote_free = quote_free_twin cfg ?t, share_next_position = pair \<noteq> None\<rparr>"
    have pos1: "share_next_position st \<Longrightarrow> 1 \<le> token_count st"
      using count share by (auto simp: count_of_def paired_with_next_def split: option.splits)
    have adv: "advance alnum cfg s st = Some (?st, Some ?t)"
      using \<open>pending_quote_free st = None\<close> b(1) Some ab pair range pos1
      by (auto simp: advance_def s pos checked_sub_def Let_def simp del: str_len_append)
    have t: "token_ok alnum cfg s ?t"
      unfolding token_ok_def using whole hd ends normal_token_text_ok [OF assms(1) hd shape]
      by (intro conjI exI [of _ "p @ skip"] exI [of _ tok] exI [of _ rem]) simp_all
    have "gap_free alnum s (end_of prev) ?a"
      using str_range_append [of p skip "tok @ rem"] skip prev s rest by (auto simp: gap_free_def)
    then have word: "next_word alnum cfg s prev ?t" using count share range by (simp add: next_word_def)
    note twin = quote_free_twin_due [OF t]
    have "state_ok alnum cfg s (Some ?t) ?st"
    proof -
      have "is_char_boundary s ?b"
        using is_char_boundary_append [of "p @ skip @ tok" rem] s rest by simp
      moreover have "(if share_next_position st then token_count st else token_count st + 1)
          = count_of (Some ?t)" using pos1 by (cases "share_next_position st") (simp_all add: count_of_def)
      moreover have "(pair \<noteq> None) = paired_with_next alnum s (Some ?t)"
      proof -
        have "pair \<noteq> None \<longleftrightarrow> (\<exists>pr. pair_spec alnum (p @ skip) tok rem pr)"
          using paired_reading_after_iff [OF assms(1), of "p @ skip" tok rem pair] pair whole by simp
        also have "\<dots> \<longleftrightarrow> paired_with_next alnum s (Some ?t)"
        proof
          assume "\<exists>pr. pair_spec alnum (p @ skip) tok rem pr"
          then obtain pr where pr: "pair_spec alnum (p @ skip) tok rem pr" by blast
          show "paired_with_next alnum s (Some ?t)"
            unfolding paired_with_next_def option.case using whole pr
            by (intro exI [of _ "p @ skip"] exI [of _ tok] exI [of _ rem] exI [of _ pr]) simp
        next
          assume "paired_with_next alnum s (Some ?t)"
          then obtain p' tok' rem' pr where *: "s = p' @ tok' @ rem'" "?a = str_len p'" "?b = str_len (p' @ tok')"
            "pair_spec alnum p' tok' rem' pr" unfolding paired_with_next_def by auto
          have "p' = p @ skip" using str_to_append [of p' "tok' @ rem'"] str_to_append [of "p @ skip" "tok @ rem"] *(1,2) whole by simp
          moreover have "p' @ tok' = p @ skip @ tok"
            using str_to_append [of "p' @ tok'" rem'] str_to_append [of "p @ skip @ tok" rem] *(1,3) whole by simp
          ultimately have "tok' = tok" "rem' = rem" using *(1) whole by simp_all
          then show "\<exists>pr. pair_spec alnum (p @ skip) tok rem pr" using *(4) \<open>p' = p @ skip\<close> by blast
        qed
        finally show ?thesis .
      qed
      moreover have "?b = end_of (Some ?t)" by (simp add: end_of_def)
      moreover have "\<forall>u. quote_free_twin cfg ?t = Some u \<longrightarrow> token_ok alnum cfg s u \<and> end_of (Some u) = end_of (Some ?t)
          \<and> count_of (Some u) = count_of (Some ?t) \<and> paired_with_next alnum s (Some u) = paired_with_next alnum s (Some ?t)"
      proof (intro allI impI)
        fix u
        assume "quote_free_twin cfg ?t = Some u"
        then have u: "token_ok alnum cfg s u" "offset_from u = offset_from ?t" "offset_to u = offset_to ?t" "position u = position ?t"
          unfolding twin(1) using twin(2) [of u] by blast+
        show "token_ok alnum cfg s u \<and> end_of (Some u) = end_of (Some ?t)
          \<and> count_of (Some u) = count_of (Some ?t) \<and> paired_with_next alnum s (Some u) = paired_with_next alnum s (Some ?t)"
          using u(1) same_place [OF u(2-4)] by blast
      qed
      ultimately show ?thesis unfolding state_ok_def stream.select_convs by blast
    qed
    moreover have "stream_left s ?st < stream_left s st"
    proof -
      have "0 < str_len tok" using token_shape_nonempty [OF shape] by (rule str_len_pos)
      with \<open>pending_quote_free st = None\<close> show ?thesis
        by (auto simp: stream_left_def s pos rest)
    qed
    moreover have "yields alnum cfg s prev (pending_quote_free st) ?t (pending_quote_free ?st)"
      using t word twin(1) \<open>pending_quote_free st = None\<close> by (simp add: yields_def)
    ultimately show ?thesis using adv by blast
  qed
qed

lemma drain_ok:
  assumes "unicode_alnum alnum"
  shows "state_ok alnum cfg s prev st \<Longrightarrow>
    \<exists>ts. drain alnum cfg s st = Some ts \<and> stream_ok alnum cfg s prev (pending_quote_free st) ts"
proof (induction "stream_left s st" arbitrary: st prev rule: less_induct)
  case less
  from advance_step [OF assms less.prems]
  consider (stop) "advance alnum cfg s st = Some (st, None)" "pending_quote_free st = None" "gap_free alnum s (end_of prev) (str_len s)"
    | (go) st' t where "advance alnum cfg s st = Some (st', Some t)"
        "yields alnum cfg s prev (pending_quote_free st) t (pending_quote_free st')" "state_ok alnum cfg s (Some t) st'"
        "stream_left s st' < stream_left s st"
    by (elim disjE exE conjE) blast+
  then show ?case
  proof cases
    case stop
    then show ?thesis by (subst drain.simps) simp
  next
    case go
    from less.hyps [OF go(4,3)] obtain ts where
      ts: "drain alnum cfg s st' = Some ts" "stream_ok alnum cfg s (Some t) (pending_quote_free st') ts" by blast
    then have "stream_ok alnum cfg s prev (pending_quote_free st) (t # ts)"
      using go(2) by (auto simp: yields_def split: option.splits)
    with go(1) ts(1) show ?thesis by (subst drain.simps) simp
  qed
qed


subsection \<open>Keeping marks moves no token\<close>

definition span_of :: "token \<Rightarrow> nat \<times> nat \<times> nat" where
  "span_of t = (offset_from t, offset_to t, position t)"

lemma advance_keep_marks:
  assumes "pending_quote_free st = None"
  shows "rel_option (rel_prod (\<lambda>a b. a = b \<and> pending_quote_free a = None)
           (rel_option (\<lambda>t u. span_of t = span_of u)))
     (advance alnum \<lparr>emit_quote_free = False, keep_marks = k\<rparr> s st)
     (advance alnum \<lparr>emit_quote_free = False, keep_marks = k'\<rparr> s st)"
proof -
  have "quote_free_twin \<lparr>emit_quote_free = False, keep_marks = b\<rparr> t = None" for b t
    by (simp add: quote_free_twin_def)
  then show ?thesis using assms
    by (auto simp: advance_def span_of_def Let_def checked_sub_def split: option.split bind_splits)
qed

lemma drain_keep_marks:
  assumes "unicode_alnum alnum"
    and ok: "state_ok alnum \<lparr>emit_quote_free = False, keep_marks = k\<rparr> s prev st"
    and "pending_quote_free st = None"
  shows "\<exists>ts us. drain alnum \<lparr>emit_quote_free = False, keep_marks = k\<rparr> s st = Some ts
     \<and> drain alnum \<lparr>emit_quote_free = False, keep_marks = k'\<rparr> s st = Some us
     \<and> map span_of ts = map span_of us"
  using ok assms(3)
proof (induction "stream_left s st" arbitrary: st prev rule: less_induct)
  case less
  let ?c = "\<lparr>emit_quote_free = False, keep_marks = k\<rparr>"
  let ?c' = "\<lparr>emit_quote_free = False, keep_marks = k'\<rparr>"
  note rel = advance_keep_marks [OF less.prems(2), of alnum k s k']
  from advance_step [OF assms(1) less.prems(1)]
  consider (stop) "advance alnum ?c s st = Some (st, None)"
    | (go) st' t where "advance alnum ?c s st = Some (st', Some t)"
        "state_ok alnum ?c s (Some t) st'" "stream_left s st' < stream_left s st" by blast
  then show ?case
  proof cases
    case stop
    with rel have "advance alnum ?c' s st = Some (st, None)" by (auto simp: option_rel_Some1 rel_prod_sel)
    with stop show ?thesis by (subst (1 2) drain.simps) simp
  next
    case go
    with rel obtain u where u: "advance alnum ?c' s st = Some (st', Some u)"
      "span_of t = span_of u" "pending_quote_free st' = None"
      by (auto simp: option_rel_Some1)
    from less.hyps [OF go(3,2) u(3)] go(1) u show ?thesis
      by (subst (1 2) drain.simps) auto
  qed
qed

subsection \<open>Properties\<close>

text \<open>C1: Tokenizing any text ends without a panic and yields exactly the promised tokens. Every token opens
  with the first char that can, after the one before, and ends where the rules of inner quotes and
  closing geresh say, which leaves one place only; its text is the normal form of its piece; no char
  that could open a token is skipped. Positions count up by one, except that the second of a paired
  reading takes the position of the first, for every pair in the notation and for nothing else. A
  token with quotes is followed by its twin without them, at the same place, in the mode that emits
  twins and in no other case.\<close>

theorem tokenize_ok:
  "unicode_alnum alnum \<Longrightarrow> \<exists>ts. tokenize alnum cfg s = Some ts \<and> stream_ok alnum cfg s None None ts"
  unfolding tokenize_def using drain_ok [OF _ state_ok_start, of alnum cfg s] by (simp add: stream_start_def)

lemma tokenize_ok_witness:
  "\<exists>ts. tokenize demo_alnum \<lparr>emit_quote_free = True, keep_marks = False\<rparr> [0x28, 0x5D0, 0x27, 0x29, 0x5B, 0x5D1, 0x5D] = Some ts
     \<and> stream_ok demo_alnum \<lparr>emit_quote_free = True, keep_marks = False\<rparr> [0x28, 0x5D0, 0x27, 0x29, 0x5B, 0x5D1, 0x5D] None None ts"
  by (rule tokenize_ok [OF unicode_alnum_demo])

text \<open>C26: The boundaries of the next token after any char boundary are found without a panic, and they are
  the only ones that fit: either no char of the rest of the text opens a token, or the token found opens
  with the first char that can and ends where the rules of inner quotes and closing geresh say.\<close>

theorem next_token_boundaries_correct:
  assumes "unicode_alnum alnum" "is_char_boundary s b"
  shows "\<exists>p t r. s = p @ t \<and> b = str_len p \<and> next_token_boundaries alnum s b = Some r
     \<and> next_token_spec alnum p t r \<and> (\<forall>r'. next_token_spec alnum p t r' \<longrightarrow> r' = r)"
proof -
  from assms(2) obtain p t where s: "s = p @ t" "b = str_len p" by (auto simp: is_char_boundary_iff)
  obtain r where r: "next_token_boundaries alnum s b = Some r" "next_token_spec alnum p t r"
    using next_token_boundaries_spec [of alnum p t] s by blast
  then show ?thesis using s next_token_spec_unique [OF assms(1)] by blast
qed

lemma next_token_boundaries_correct_witness:
  "\<exists>p t r. [0x5D0, 0x20, 0x5D1] = p @ t \<and> 2 = str_len p
     \<and> next_token_boundaries demo_alnum [0x5D0, 0x20, 0x5D1] 2 = Some r \<and> next_token_spec demo_alnum p t r
     \<and> (\<forall>r'. next_token_spec demo_alnum p t r' \<longrightarrow> r' = r)"
proof -
  have "is_char_boundary [0x5D0, 0x20, 0x5D1] 2"
    by (simp add: is_char_boundary_def len_utf8_def)
  with unicode_alnum_demo show ?thesis by (rule next_token_boundaries_correct)
qed

text \<open>C27: The tokenizer that keeps marks and the one that drops them place the same tokens: the
  same offsets and the same positions, in the same order. (The vocalized and the plain field of
  a line agree on positions.)\<close>

theorem tokenize_keep_marks:
  assumes "unicode_alnum alnum"
  shows "\<exists>ts us. tokenize alnum \<lparr>emit_quote_free = False, keep_marks = True\<rparr> s = Some ts
     \<and> tokenize alnum \<lparr>emit_quote_free = False, keep_marks = False\<rparr> s = Some us
     \<and> map span_of ts = map span_of us"
  unfolding tokenize_def
  by (rule drain_keep_marks [OF assms state_ok_start]) (simp add: stream_start_def)

lemma tokenize_keep_marks_witness:
  "\<exists>ts us. tokenize demo_alnum \<lparr>emit_quote_free = False, keep_marks = True\<rparr> [0x5D0, 0x5B8, 0x27, 0x20] = Some ts
     \<and> tokenize demo_alnum \<lparr>emit_quote_free = False, keep_marks = False\<rparr> [0x5D0, 0x5B8, 0x27, 0x20] = Some us
     \<and> map span_of ts = map span_of us"
  by (rule tokenize_keep_marks [OF unicode_alnum_demo])

text \<open>\<^verbatim>\<open>paired_reading_after\<close> never panics on the span of a token, and a pair it
  reports stands in the notation \<^verbatim>\<open>(X) [Y]\<close>: the token stands in round brackets, only
  non-word suffix chars before the closing one and white space before the square one, the second
  reading opens right after it and has the shape of a token, and the returned offsets are those of
  the second reading and of the end of the pair.\<close>

theorem paired_reading_after_correct:
  "\<exists>r. paired_reading_after alnum (p @ tok @ rem) (str_len p) (str_len (p @ tok)) = Some r
     \<and> (case r of None \<Rightarrow> True | Some pr \<Rightarrow> pair_spec alnum p tok rem pr)"
  using paired_reading_after_spec [of alnum p tok rem] by (auto split: option.splits)

end
