(* ===== verification/QueryWords.thy ===== *)
theory QueryWords
  imports TokenStream "HOL-Library.Word"
begin

section \<open>The words of a query\<close>

text \<open>
  \<^verbatim>\<open>hebrew_query.rs\<close>: how a typed query becomes words. \<open>sanitize_query\<close> replaces paired
  readings by their second reading, folds quotes, turns separators into spaces and deletes
  transparent chars; \<open>split_query_words\<close> cuts the result with the tokenizer's own boundaries;
  \<open>query_word_spans\<close> gives the words with their UTF-16 ranges in the query as typed.

  The loops walk the text by byte offset and are partial functions; \<open>QueryAgree\<close> proves
  that they end without a panic. Byte offsets are naturals; the \<^verbatim>\<open>u32\<close> counters of
  \<^verbatim>\<open>query_word_spans\<close> are words, which wrap as those of a release build do.
\<close>

text \<open>\<^verbatim>\<open>collapse_whitespace\<close>: the loop, then \<^verbatim>\<open>trim\<close>.\<close>

fun collapse_loop :: "bool \<Rightarrow> ustr \<Rightarrow> ustr" where
  "collapse_loop prev [] = []"
| "collapse_loop prev (c # s) =
     (if is_whitespace c then (if prev then collapse_loop True s else 0x20 # collapse_loop True s)
      else c # collapse_loop False s)"

definition trim_start :: "ustr \<Rightarrow> ustr" where
  "trim_start s = dropWhile is_whitespace s"

definition trim_end :: "ustr \<Rightarrow> ustr" where
  "trim_end s = rev (dropWhile is_whitespace (rev s))"

definition trim :: "ustr \<Rightarrow> ustr" where
  "trim s = trim_end (trim_start s)"

definition collapse_whitespace :: "ustr \<Rightarrow> ustr" where
  "collapse_whitespace s = trim (collapse_loop False s)"

text \<open>The replacement of paired readings: \<open>out\<close> is what is written, \<open>copied\<close> how far the
  query has been copied, \<open>pos\<close> where the next token is searched.\<close>

partial_function (option) keep_second_loop ::
  "(uchar \<Rightarrow> bool) \<Rightarrow> ustr \<Rightarrow> ustr \<Rightarrow> nat \<Rightarrow> nat \<Rightarrow> (ustr \<times> nat) option" where
  "keep_second_loop alnum query out copied pos =
     Option.bind (next_token_boundaries alnum query pos) (\<lambda>b.
       case b of
         None \<Rightarrow> Some (out, copied)
       | Some (start, end_) \<Rightarrow>
           Option.bind (paired_reading_after alnum query start end_) (\<lambda>p.
             case p of
               None \<Rightarrow> keep_second_loop alnum query out copied end_
             | Some pair \<Rightarrow>
                 Option.bind (checked_sub start 1) (\<lambda>open_at.
                 Option.bind (str_range query copied open_at) (\<lambda>plain.
                 Option.bind (str_range query (second_start pair) (second_end pair)) (\<lambda>second.
                   keep_second_loop alnum query (out @ plain @ [0x20] @ second @ [0x20])
                     (after_pair pair) (after_pair pair))))))"

definition keep_second_of_paired_readings :: "(uchar \<Rightarrow> bool) \<Rightarrow> ustr \<Rightarrow> ustr option" where
  "keep_second_of_paired_readings alnum query = do {
     r \<leftarrow> keep_second_loop alnum query [] 0 0;
     (if snd r = 0 then Some query
      else do { tail \<leftarrow> str_from query (snd r); Some (fst r @ tail) }) }"

definition sanitize_char :: "uchar \<Rightarrow> ustr" where
  "sanitize_char ch =
     (if ch \<in> {0x05F4, 0x201C, 0x201D} then [0x22]
      else if ch \<in> {0x05F3, 0x2018, 0x2019} then [0x27]
      else if ch \<in> {0x05BE, 0x2D, 0x7C, 0x2C, 0x3B, 0x3A, 0x21, 0x3F, 0x28, 0x29, 0x7B, 0x7D}
        then [0x20]
      else if ch \<in> {0x2A, 0x5B, 0x5D, 0x5E, 0x24, 0x5C, 0x2B, 0x2E, 0x7E, 0x60}
              \<or> is_invisible_char ch then []
      else [ch])"

definition sanitize_query :: "(uchar \<Rightarrow> bool) \<Rightarrow> ustr \<Rightarrow> ustr option" where
  "sanitize_query alnum query = do {
     q \<leftarrow> keep_second_of_paired_readings alnum query;
     Some (collapse_whitespace (concat (map sanitize_char q))) }"

text \<open>The text of a query word: a pair of geresh chars becomes a gershayim.\<close>

definition push_query_char :: "ustr \<Rightarrow> uchar \<Rightarrow> ustr" where
  "push_query_char word c =
     (if c = 0x27 \<and> word \<noteq> [] \<and> last word = 0x27 then butlast word @ [0x22] else word @ [c])"

partial_function (option) split_loop :: "(uchar \<Rightarrow> bool) \<Rightarrow> ustr \<Rightarrow> nat \<Rightarrow> ustr list option" where
  "split_loop alnum cleaned pos =
     Option.bind (next_token_boundaries alnum cleaned pos) (\<lambda>b.
       case b of
         None \<Rightarrow> Some []
       | Some (start, end_) \<Rightarrow>
           Option.bind (str_range cleaned start end_) (\<lambda>raw.
           Option.bind (split_loop alnum cleaned end_) (\<lambda>words.
             Some (foldl push_query_char [] raw # words))))"

definition split_query_words :: "(uchar \<Rightarrow> bool) \<Rightarrow> ustr \<Rightarrow> ustr list option" where
  "split_query_words alnum query = do {
     cleaned \<leftarrow> sanitize_query alnum query;
     split_loop alnum cleaned 0 }"

type_synonym u32 = "32 word"

definition utf16_count :: "ustr \<Rightarrow> u32" where
  "utf16_count s = of_nat (utf16_len s)"

text \<open>The spans: \<open>source_byte\<close> and \<open>source_utf16\<close> are the two counters of the loop.
  \<open>read_span\<close> is the token, or the second reading of the pair it opens, with the offset the
  search goes on from.\<close>

definition read_span :: "nat \<Rightarrow> nat \<Rightarrow> paired_reading option \<Rightarrow> nat \<times> nat \<times> nat" where
  "read_span a b p =
     (case p of None \<Rightarrow> (a, b, b)
      | Some pair \<Rightarrow> (second_start pair, second_end pair, after_pair pair))"

partial_function (option) spans_loop ::
  "(uchar \<Rightarrow> bool) \<Rightarrow> ustr \<Rightarrow> nat \<Rightarrow> nat \<Rightarrow> u32 \<Rightarrow> (ustr \<times> u32 \<times> u32) list option" where
  "spans_loop alnum query pos source_byte source_utf16 =
     Option.bind (next_token_boundaries alnum query pos) (\<lambda>b.
       case b of
         None \<Rightarrow> Some []
       | Some (start0, end0) \<Rightarrow>
           Option.bind (paired_reading_after alnum query start0 end0) (\<lambda>p.
             case read_span start0 end0 p of (start, end_, pos') \<Rightarrow>
               Option.bind (str_range query source_byte start) (\<lambda>skipped.
               Option.bind (str_range query start end_) (\<lambda>word.
               Option.bind (split_query_words alnum word) (\<lambda>words.
               Option.bind (spans_loop alnum query pos' end_
                              (source_utf16 + utf16_count skipped + utf16_count word)) (\<lambda>rest.
                 Some (map (\<lambda>w. (w, source_utf16 + utf16_count skipped,
                                    source_utf16 + utf16_count skipped + utf16_count word)) words
                       @ rest)))))))"

definition query_word_spans :: "(uchar \<Rightarrow> bool) \<Rightarrow> ustr \<Rightarrow> (ustr \<times> u32 \<times> u32) list option" where
  "query_word_spans alnum query = spans_loop alnum query 0 0 0"

end
