(* ===== verification/Lexer.thy ===== *)
theory Lexer
  imports TokenStream
begin

section \<open>The tokenizer as a lexer on lists\<close>

text \<open>
  \<open>next_token_boundaries\<close> without offsets: \<open>raw_words\<close> are the texts of all tokens of a text, cut
  off one after the other by \<open>tok_split\<close>. The two laws that carry the agreement
  of the query with the index are proved here: the lexer looks no further than a breaker
  (\<open>raw_words_breaker\<close>), and it commutes with every map of chars that respects their class
  (\<open>raw_words_class_map\<close>).
\<close>

subsection \<open>What follows the token\<close>

definition tok_rest :: "(uchar \<Rightarrow> bool) \<Rightarrow> ustr \<Rightarrow> ustr" where
  "tok_rest alnum s = drop (length (tok_split alnum s)) s"

lemma tok_split_rest: "tok_split alnum s @ tok_rest alnum s = s"
  unfolding tok_rest_def using tok_split_prefix by (metis append_eq_conv_conj)

lemma tok_rest_shorter: "is_word_char alnum c \<Longrightarrow> length (tok_rest alnum (c # s)) < length (c # s)"
  using tok_split_nonempty [of alnum c s] by (simp add: tok_rest_def)

subsection \<open>All tokens\<close>

function raw_words :: "(uchar \<Rightarrow> bool) \<Rightarrow> ustr \<Rightarrow> ustr list" where
  "raw_words alnum [] = []"
| "raw_words alnum (c # s) =
     (if starts_token alnum c
      then tok_split alnum (c # s) # raw_words alnum (tok_rest alnum (c # s))
      else raw_words alnum s)"
  by pat_completeness auto

termination raw_words
proof (relation "measure (\<lambda>(alnum, s). length s)")
  fix alnum c s
  assume "starts_token alnum c"
  then show "((alnum, tok_rest alnum (c # s)), (alnum, c # s)) \<in> measure (\<lambda>(alnum, s). length s)"
    using tok_rest_shorter starts_token_is_word_char by simp
qed auto

lemma raw_words_skip: "\<forall>c\<in>set p. \<not> starts_token alnum c \<Longrightarrow> raw_words alnum (p @ s) = raw_words alnum s"
  by (induction p) auto

lemma raw_words_none: "\<forall>c\<in>set s. \<not> starts_token alnum c \<Longrightarrow> raw_words alnum s = []"
  using raw_words_skip [of s alnum "[]"] by simp

text \<open>What \<open>next_token_boundaries\<close> finds, in these terms.\<close>

lemma next_token_boundaries_lexer:
  "next_token_boundaries alnum (p @ s) (str_len p) =
     (case dropWhile (\<lambda>c. \<not> starts_token alnum c) s of
        [] \<Rightarrow> Some None
      | c # t \<Rightarrow> (let skip = takeWhile (\<lambda>c. \<not> starts_token alnum c) s
                 in Some (Some (str_len (p @ skip), str_len (p @ skip @ tok_split alnum (c # t))))))"
proof (cases "dropWhile (\<lambda>c. \<not> starts_token alnum c) s")
  case Nil
  then have "find_char (starts_token alnum) 0 s = None"
    by (simp add: dropWhile_eq_Nil_conv find_char_None_iff)
  with Nil show ?thesis by (simp add: next_token_boundaries_def del: dropWhile_eq_Nil_conv)
next
  case (Cons c t)
  let ?skip = "takeWhile (\<lambda>c. \<not> starts_token alnum c) s"
  have s: "s = ?skip @ c # t" using Cons by (metis takeWhile_dropWhile_id)
  have c: "starts_token alnum c" using dropWhile_head [OF Cons] by simp
  have fc: "find_char P n (u @ d # v) = Some (n + str_len u)"
    if "\<forall>x\<in>set u. \<not> P x" "P d" for P n u d v
    using that by (induction u arbitrary: n) auto
  have f: "find_char (starts_token alnum) 0 s = Some (str_len ?skip)"
    using fc [of ?skip "starts_token alnum" c 0 t] s c by (metis (no_types) add_0 set_takeWhileD)
  have "str_from (p @ s) (str_len p + str_len ?skip) = Some (c # t)"
    using str_from_append [of "p @ ?skip" "c # t"] s by (metis append.assoc str_len_append)
  with f Cons show ?thesis by (simp add: next_token_boundaries_def tok_end_split Let_def)
qed

subsection \<open>A breaker ends the look-ahead\<close>

definition breaker :: "(uchar \<Rightarrow> bool) \<Rightarrow> uchar \<Rightarrow> bool" where
  "breaker alnum b \<longleftrightarrow> \<not> is_word_char alnum b \<and> \<not> skippable b"

lemma breaker_not_start: "breaker alnum b \<Longrightarrow> \<not> starts_token alnum b"
  using starts_token_is_word_char by (auto simp: breaker_def)

lemma while_stop:
  assumes "\<not> P b"
  shows "takeWhile P (u @ b # r) = takeWhile P u" "dropWhile P (u @ b # r) = dropWhile P u @ b # r"
  using assms by (induction u) auto

lemma tok_split_breaker:
  assumes "breaker alnum b"
  shows "tok_split alnum (u @ b # r) = tok_split alnum u"
  using assms
proof (induction alnum u rule: tok_split.induct)
  case (1 alnum u)
  have b: "\<not> is_word_char alnum b" "\<not> skippable b" using 1 by (auto simp: breaker_def)
  note w = while_stop [of "is_word_char alnum" b, OF b(1)] while_stop [of skippable b, OF b(2)]
  let ?next = "dropWhile skippable (dropWhile (is_word_char alnum) u)"
  show ?case
  proof (cases "?next = []")
    case True
    then show ?thesis using b
      by (subst (1 2) tok_split.simps) (simp add: Let_def w del: dropWhile_eq_Nil_conv)
  next
    case False
    with "1.IH" [OF refl refl refl refl] "1.prems" show ?thesis
      by (subst (1 2) tok_split.simps) (auto simp: Let_def w simp del: dropWhile_eq_Nil_conv)
  qed
qed

lemma tok_rest_breaker:
  assumes "breaker alnum b"
  shows "tok_rest alnum (u @ b # r) = tok_rest alnum u @ b # r"
proof -
  have "length (tok_split alnum u) \<le> length u"
    using tok_split_prefix [of u alnum] by (metis le_add1 length_append)
  then show ?thesis by (simp add: tok_rest_def tok_split_breaker [OF assms])
qed

lemma raw_words_breaker:
  assumes "breaker alnum b"
  shows "raw_words alnum (u @ b # r) = raw_words alnum u @ raw_words alnum r"
  using assms
proof (induction alnum u rule: raw_words.induct)
  case (1 alnum)
  then show ?case using breaker_not_start by simp
next
  case (2 alnum c s)
  then show ?case
    using tok_split_breaker [OF "2.prems", of "c # s" r] tok_rest_breaker [OF "2.prems", of "c # s" r]
    by simp
qed

lemma raw_words_end:
  assumes "\<forall>c\<in>set p. breaker alnum c"
  shows "raw_words alnum (s @ p) = raw_words alnum s"
proof (cases p)
  case (Cons b r)
  with assms have "breaker alnum b" "\<forall>c\<in>set r. \<not> starts_token alnum c"
    using breaker_not_start by auto
  then show ?thesis using Cons by (simp add: raw_words_breaker raw_words_none)
qed simp

subsection \<open>A token is closed under the lexer\<close>

lemma tok_split_self:
  assumes "rest \<noteq> []" "is_word_char alnum (hd rest)" "unicode_alnum alnum"
  shows "tok_split alnum (tok_split alnum rest) = tok_split alnum rest"
  using assms
proof (induction alnum rest rule: tok_split.induct)
  case (1 alnum rest)
  let ?P = "is_word_char alnum"
  let ?run = "takeWhile ?P rest" and ?after = "dropWhile ?P rest"
  let ?m = "takeWhile skippable ?after" and ?next = "dropWhile skippable ?after"
  have run: "\<forall>c\<in>set ?run. ?P c" by (auto dest: set_takeWhileD)
  have sk: "\<not> ?P c" if "skippable c" for c
    using that word_char_plain [OF "1.prems"(3)] by (auto simp: skippable_def)
  have m: "\<forall>c\<in>set ?m. skippable c" by (auto dest: set_takeWhileD)
  have no_run: "takeWhile ?P (k @ t) = []" "dropWhile ?P (k @ t) = k @ t"
    if "k \<noteq> []" "\<forall>c\<in>set k. skippable c" for k t
    using that sk by (cases k; simp)+
  show ?case
  proof (cases "?next \<noteq> [] \<and> ?P (hd ?next) \<and> inner_joint ?m")
    case True
    then have ih: "tok_split alnum (tok_split alnum ?next) = tok_split alnum ?next"
      using "1.IH" [OF refl refl refl refl] "1.prems" by blast
    obtain c t where ct: "tok_split alnum ?next = c # t" "?P c"
    proof -
      obtain d v where d: "?next = d # v" using True by (cases ?next) auto
      then have "?P d" using True by simp
      then have "tok_split alnum ?next \<noteq> []" using tok_split_nonempty d by metis
      moreover obtain w where "?next = tok_split alnum ?next @ w" using tok_split_prefix by blast
      ultimately show ?thesis using that True by (cases "tok_split alnum ?next") auto
    qed
    then have c: "\<not> skippable c" using sk by blast
    have "?m \<noteq> []"
    proof
      assume "?m = []"
      then have "?after = ?next" by (metis append_Nil takeWhile_dropWhile_id)
      with True dropWhile_head [of ?P rest] show False by (metis hd_Cons_tl)
    qed
    then have "tok_split alnum (?m @ tok_split alnum ?next) = ?m @ tok_split alnum ?next"
      using True c ct ih
      by (subst tok_split.simps)
        (simp add: Let_def no_run [OF _ m] while_run [OF m])
    then have "tok_split alnum (?run @ ?m @ tok_split alnum ?next) = ?run @ ?m @ tok_split alnum ?next"
      using tok_split_run [OF run] by simp
    moreover have "tok_split alnum rest = ?run @ ?m @ tok_split alnum ?next"
      using True by (subst tok_split.simps) (simp add: Let_def)
    ultimately show ?thesis by metis
  next
    case False
    then have "tok_split alnum rest = ?run \<or> closes ?m \<and> tok_split alnum rest = ?run @ closing ?m"
      by (subst (1 2) tok_split.simps) (auto simp: Let_def simp del: dropWhile_eq_Nil_conv)
    then consider "tok_split alnum rest = ?run" | "closes ?m" "tok_split alnum rest = ?run @ closing ?m"
      by blast
    then show ?thesis
    proof cases
      case 1
      have "tok_split alnum [] = []" by (subst tok_split.simps) (simp add: Let_def closes_def)
      with 1 tok_split_run [OF run, of "[]"] show ?thesis by simp
    next
      case 2
      let ?k = "closing ?m"
      obtain g r where g: "dropWhile is_transparent ?m = g # r" "is_geresh g"
        using 2 by (auto simp: closes_def split: list.splits)
      then have k: "?k = takeWhile is_transparent ?m @ [g]" by (simp add: closing_def)
      have tr: "\<forall>c\<in>set (takeWhile is_transparent ?m). is_transparent c" by (auto dest: set_takeWhileD)
      have ng: "\<not> is_transparent g" using dropWhile_head [OF g(1)] .
      have ks: "\<forall>c\<in>set ?k. skippable c" using k tr g by (auto simp: skippable_def)
      have "closes ?k" "closing ?k = ?k"
        unfolding k using ng g(2) while_run [OF tr, of "[g]"] by (simp_all add: closes_def closing_def)
      then have "tok_split alnum ?k = ?k"
        using no_run [of ?k "[]"] ks k while_run [OF ks, of "[]"]
        by (subst tok_split.simps) (simp add: Let_def)
      with 2 tok_split_run [OF run, of ?k] show ?thesis by simp
    qed
  qed
qed

subsection \<open>Maps of chars that respect the classes\<close>

abbreviation mapped :: "(uchar \<Rightarrow> ustr) \<Rightarrow> ustr \<Rightarrow> ustr" where
  "mapped h s \<equiv> concat (map h s)"

locale class_map =
  fixes alnum :: "uchar \<Rightarrow> bool" and h :: "uchar \<Rightarrow> ustr"
  assumes unicode: "unicode_alnum alnum"
    and h_word: "is_word_char alnum c \<Longrightarrow> h c = [c]"
    and h_geresh: "is_geresh c \<Longrightarrow> \<exists>d. h c = [d] \<and> is_geresh d"
    and h_gershayim: "is_gershayim c \<Longrightarrow> \<exists>d. h c = [d] \<and> is_gershayim d"
    and h_transparent: "is_transparent c \<Longrightarrow> h c = []"
    and h_breaker: "breaker alnum c \<Longrightarrow> \<exists>d. h c = [d] \<and> breaker alnum d"
begin

lemma mapped_words: "\<forall>c\<in>set w. is_word_char alnum c \<Longrightarrow> mapped h w = w"
  by (induction w) (auto simp: h_word)

lemma mapped_transparent: "\<forall>c\<in>set w. is_transparent c \<Longrightarrow> mapped h w = []"
  using h_transparent by auto

lemma mapped_skippable: "\<forall>c\<in>set m. skippable c \<Longrightarrow> \<forall>c\<in>set (mapped h m). skippable c"
proof (induction m)
  case (Cons c m)
  have "\<forall>d\<in>set (h c). skippable d"
    using Cons.prems h_geresh [of c] h_gershayim [of c] h_transparent [of c]
    by (auto simp: skippable_def)
  with Cons show ?case by auto
qed simp

lemma mapped_counts:
  "\<forall>c\<in>set m. skippable c \<Longrightarrow> length (filter is_geresh (mapped h m)) = length (filter is_geresh m)
     \<and> length (filter is_gershayim (mapped h m)) = length (filter is_gershayim m)"
proof (induction m)
  case (Cons c m)
  then have ih: "length (filter is_geresh (mapped h m)) = length (filter is_geresh m)"
    "length (filter is_gershayim (mapped h m)) = length (filter is_gershayim m)" by auto
  consider "is_geresh c" | "is_gershayim c" | "is_transparent c"
    using Cons.prems by (auto simp: skippable_def)
  then show ?case
  proof cases
    case 1
    with h_geresh quotes_disjoint ih show ?thesis by fastforce
  next
    case 2
    with h_gershayim gershayim_not_geresh ih show ?thesis by fastforce
  next
    case 3
    with h_transparent transparent_not_quote ih show ?thesis by auto
  qed
qed simp

lemma mapped_closes:
  "\<forall>c\<in>set m. skippable c \<Longrightarrow> closes (mapped h m) = closes m
     \<and> (closes m \<longrightarrow> closing (mapped h m) = mapped h (closing m))"
proof (induction m)
  case Nil
  then show ?case by (simp add: closes_def)
next
  case (Cons c m)
  show ?case
  proof (cases "is_transparent c")
    case True
    with Cons h_transparent show ?thesis by (simp add: closes_def closing_def)
  next
    case False
    with Cons.prems consider "is_geresh c" | "is_gershayim c" by (auto simp: skippable_def)
    then show ?thesis
    proof cases
      case 1
      then obtain d where "h c = [d]" "is_geresh d" using h_geresh by blast
      then show ?thesis using 1 False transparent_not_quote [of d] by (auto simp: closes_def closing_def)
    next
      case 2
      then obtain d where "h c = [d]" "is_gershayim d" using h_gershayim by blast
      then show ?thesis
        using 2 False transparent_not_quote [of d] gershayim_not_geresh
        by (auto simp: closes_def)
    qed
  qed
qed

lemma mapped_inner: "\<forall>c\<in>set m. skippable c \<Longrightarrow> inner_joint (mapped h m) = inner_joint m"
  using mapped_counts by (simp add: inner_joint_def)

lemma char_classes:
  obtains "is_word_char alnum c" | "skippable c" | "breaker alnum c"
  by (auto simp: breaker_def)

lemma mapped_next:
  assumes "next \<noteq> []" "\<not> skippable (hd next)"
  shows "\<exists>d v. mapped h next = d # v \<and> \<not> skippable d \<and> is_word_char alnum d = is_word_char alnum (hd next)"
proof -
  obtain c t where n: "next = c # t" using assms by (cases "next") auto
  show ?thesis
  proof (cases "is_word_char alnum c")
    case True
    then show ?thesis using n h_word word_not_skippable [OF unicode] by auto
  next
    case False
    then have "breaker alnum c" using assms n by (simp add: breaker_def)
    then obtain d where "h c = [d]" "breaker alnum d" using h_breaker by blast
    then show ?thesis using n False by (auto simp: breaker_def)
  qed
qed

lemma tok_split_skippable:
  assumes "m \<noteq> []" "\<forall>c\<in>set m. skippable c" "next = [] \<or> \<not> skippable (hd next)"
  shows "tok_split alnum (m @ next) =
    (if next \<noteq> [] \<and> is_word_char alnum (hd next)
     then (if inner_joint m then m @ tok_split alnum next else [])
     else if closes m then closing m else [])"
proof -
  have "\<not> is_word_char alnum (hd m)" using assms(1,2) word_not_skippable [OF unicode] by (cases m) auto
  then have 1: "takeWhile (is_word_char alnum) (m @ next) = []"
    "dropWhile (is_word_char alnum) (m @ next) = m @ next"
    using assms(1) by (cases m; simp)+
  have 2: "takeWhile skippable (m @ next) = m" "dropWhile skippable (m @ next) = next"
    using assms(3) while_run [OF assms(2), of "next"] by (cases "next"; simp)+
  show ?thesis
    by (subst tok_split.simps) (simp only: Let_def 1 2 append_Nil if_True if_False)
qed

lemma tok_split_breaker_first:
  assumes "next = [] \<or> breaker alnum (hd next)"
  shows "tok_split alnum next = []"
proof (cases "next")
  case Nil
  then show ?thesis by (subst tok_split.simps) (simp add: Let_def closes_def)
next
  case (Cons b r)
  with assms show ?thesis
    by (subst tok_split.simps) (auto simp: Let_def closes_def breaker_def)
qed

lemma tok_split_mapped: "tok_split alnum (mapped h rest) = mapped h (tok_split alnum rest)"
proof (induction "length rest" arbitrary: rest rule: less_induct)
  case less
  let ?P = "is_word_char alnum"
  let ?run = "takeWhile ?P rest" and ?after = "dropWhile ?P rest"
  define m nxt where "m = takeWhile skippable ?after" and "nxt = dropWhile skippable ?after"
  have run: "\<forall>c\<in>set ?run. ?P c" by (auto dest: set_takeWhileD)
  have m: "\<forall>c\<in>set m. skippable c" by (auto simp: m_def dest: set_takeWhileD)
  have nx: "nxt = [] \<or> \<not> skippable (hd nxt)"
    unfolding nxt_def using dropWhile_head by (metis hd_Cons_tl)
  have rest: "rest = ?run @ m @ nxt" by (simp add: m_def nxt_def)
  then have img: "mapped h rest = ?run @ mapped h m @ mapped h nxt"
    using mapped_words [OF run] by (metis concat_append map_append)
  have ihn: "tok_split alnum (mapped h nxt) = mapped h (tok_split alnum nxt)"
    if "nxt \<noteq> []" "?P (hd nxt)"
  proof (rule less)
    show "length nxt < length rest"
      using dropWhile_skippable_shorter [OF nxt_def that] .
  qed
  have "tok_split alnum (mapped h m @ mapped h nxt) = mapped h (tok_split alnum (m @ nxt))"
  proof (cases "m = []")
    case True
    have "\<not> ?P (hd nxt)" if "nxt \<noteq> []"
    proof -
      have "nxt = ?after" using True by (metis append_Nil m_def nxt_def takeWhile_dropWhile_id)
      then show ?thesis using that dropWhile_head [of ?P rest] by (metis hd_Cons_tl)
    qed
    then have br: "nxt = [] \<or> breaker alnum (hd nxt)" using nx by (auto simp: breaker_def)
    from br have "mapped h nxt = [] \<or> breaker alnum (hd (mapped h nxt))"
      using h_breaker by (cases nxt) fastforce+
    with True br show ?thesis by (simp add: tok_split_breaker_first)
  next
    case False
    note orig = tok_split_skippable [OF False m nx]
    have nx': "mapped h nxt = [] \<or> \<not> skippable (hd (mapped h nxt))"
      using mapped_next [of nxt] nx by (cases "nxt = []") (auto simp del: concat_eq_Nil_conv)
    have wd: "mapped h nxt \<noteq> [] \<and> ?P (hd (mapped h nxt)) \<longleftrightarrow> nxt \<noteq> [] \<and> ?P (hd nxt)"
      using mapped_next [of nxt] nx by (cases "nxt = []") (auto simp del: concat_eq_Nil_conv)
    show ?thesis
    proof (cases "mapped h m = []")
      case True
      have "inner_joint []" "\<not> closes []" by (simp_all add: inner_joint_def joins_def closes_def)
      then have "inner_joint m" "\<not> closes m"
        using mapped_inner [OF m] mapped_closes [OF m] unfolding True by blast+
      moreover have "tok_split alnum (mapped h nxt) = []" if "\<not> (nxt \<noteq> [] \<and> ?P (hd nxt))"
        using that nx' wd by (intro tok_split_breaker_first) (auto simp: breaker_def)
      ultimately show ?thesis
        using orig ihn unfolding True by (cases "nxt \<noteq> [] \<and> ?P (hd nxt)") (auto simp: True)
    next
      case False
      note img = tok_split_skippable [OF False mapped_skippable [OF m] nx']
      show ?thesis
        unfolding img orig wd using mapped_inner [OF m] mapped_closes [OF m] ihn by auto
    qed
  qed
  then have "tok_split alnum (?run @ mapped h m @ mapped h nxt) = ?run @ mapped h (tok_split alnum (m @ nxt))"
    using tok_split_run [OF run] by simp
  also have "\<dots> = mapped h (tok_split alnum rest)"
    using tok_split_run [OF run, of "m @ nxt"] rest mapped_words [OF run] by (metis concat_append map_append)
  finally show ?case using img by simp
qed

lemma mapped_tok_rest: "tok_rest alnum (mapped h s) = mapped h (tok_rest alnum s)"
proof -
  have "mapped h s = mapped h (tok_split alnum s) @ mapped h (tok_rest alnum s)"
    by (metis concat_append map_append tok_split_rest)
  then show ?thesis using tok_split_mapped [of s] by (simp add: tok_rest_def)
qed

lemma mapped_not_start:
  assumes "\<not> starts_token alnum c" "d \<in> set (h c)"
  shows "\<not> starts_token alnum d"
proof -
  consider "is_word_char alnum c" | "is_geresh c" | "is_gershayim c" | "is_transparent c" | "breaker alnum c"
    by (auto simp: breaker_def skippable_def)
  then show ?thesis
  proof cases
    case 1
    with assms show ?thesis using h_word by simp
  next
    case 2
    with assms h_geresh have "is_geresh d" by fastforce
    then show ?thesis using word_not_skippable [OF unicode] starts_token_is_word_char by (auto simp: skippable_def)
  next
    case 3
    with assms h_gershayim have "is_gershayim d" by fastforce
    then show ?thesis using word_not_skippable [OF unicode] starts_token_is_word_char by (auto simp: skippable_def)
  next
    case 4
    with assms h_transparent show ?thesis by simp
  next
    case 5
    with assms h_breaker have "breaker alnum d" by fastforce
    then show ?thesis by (rule breaker_not_start)
  qed
qed

lemma raw_words_mapped: "raw_words alnum (mapped h s) = map (mapped h) (raw_words alnum s)"
proof (induction "length s" arbitrary: s rule: less_induct)
  case less
  show ?case
  proof (cases s)
    case (Cons c t)
    show ?thesis
    proof (cases "starts_token alnum c")
      case True
      then have w: "is_word_char alnum c" by (rule starts_token_is_word_char)
      then have hs: "mapped h s = c # mapped h t" using h_word Cons by simp
      have "length (tok_rest alnum s) < length s" using tok_rest_shorter [OF w] Cons by simp
      from less [OF this] True Cons hs show ?thesis
        using tok_split_mapped [of s] mapped_tok_rest [of s] by simp
    next
      case False
      then have "\<forall>d\<in>set (h c). \<not> starts_token alnum d" using mapped_not_start by blast
      with False Cons less [of t] show ?thesis by (simp add: raw_words_skip)
    qed
  qed simp
qed

end

end
