(* ===== verification/QueryAgree.thy ===== *)
theory QueryAgree
  imports QueryWords Lexer
begin

section \<open>The query and the index agree on words\<close>

text \<open>
  The contract of \<^verbatim>\<open>split_query_words\<close>: it cuts a query into the very tokens the index
  holds for the same text, a paired reading counting as its second reading, and
  \<^verbatim>\<open>query_word_spans\<close> returns the same words with their exact source ranges. Both never panic.
\<close>

subsection \<open>Sanitising respects the classes\<close>

lemma sanitize_class_map:
  assumes "unicode_alnum alnum"
  shows "class_map alnum sanitize_char"
proof
  show "unicode_alnum alnum" by fact
next
  fix c
  assume c: "is_word_char alnum c"
  have "c \<notin> {0x05BE, 0x2D, 0x7C, 0x2C, 0x3B, 0x3A, 0x21, 0x3F, 0x28, 0x29, 0x7B, 0x7D}"
  proof
    assume "c \<in> {0x05BE, 0x2D, 0x7C, 0x2C, 0x3B, 0x3A, 0x21, 0x3F, 0x28, 0x29, 0x7B, 0x7D}"
    then have "\<not> is_hebrew_letter c \<and> \<not> is_ascii_alphanumeric c \<and> \<not> is_word_mark c
        \<and> (is_ascii c \<or> c = 0x05BE)"
      by (auto simp: char_class_defs)
    with c assms show False by (auto simp: is_word_char_def unicode_alnum_def)
  qed
  moreover note word_char_plain [OF assms c]
  ultimately show "sanitize_char c = [c]"
    by (auto simp: sanitize_char_def is_geresh_def is_gershayim_def is_transparent_def)
next
  fix c
  assume "is_geresh c"
  then show "\<exists>d. sanitize_char c = [d] \<and> is_geresh d"
    unfolding is_geresh_def by (elim insertE) (simp_all add: sanitize_char_def is_invisible_char_def)
next
  fix c
  assume "is_gershayim c"
  then show "\<exists>d. sanitize_char c = [d] \<and> is_gershayim d"
    unfolding is_gershayim_def by (elim insertE) (simp_all add: sanitize_char_def is_invisible_char_def)
next
  fix c
  assume c: "is_transparent c"
  have "c \<notin> {0x05F4, 0x201C, 0x201D}" "c \<notin> {0x05F3, 0x2018, 0x2019}"
    using transparent_not_quote [OF c] by (auto simp: is_geresh_def is_gershayim_def)
  moreover have "c \<notin> {0x05BE, 0x2D, 0x7C, 0x2C, 0x3B, 0x3A, 0x21, 0x3F, 0x28, 0x29, 0x7B, 0x7D}"
  proof
    assume "c \<in> {0x05BE, 0x2D, 0x7C, 0x2C, 0x3B, 0x3A, 0x21, 0x3F, 0x28, 0x29, 0x7B, 0x7D}"
    then have "\<not> is_transparent c" by (elim insertE) (simp_all add: is_transparent_def is_invisible_char_def)
    with c show False by simp
  qed
  ultimately show "sanitize_char c = []"
    using c unfolding sanitize_char_def is_transparent_def by simp
next
  fix c
  assume c: "breaker alnum c"
  have "breaker alnum 0x20"
    by (simp add: breaker_def is_word_char_def skippable_def char_class_defs)
  moreover have "c \<notin> {0x05F4, 0x201C, 0x201D}" "c \<notin> {0x05F3, 0x2018, 0x2019}"
    "\<not> (c \<in> {0x2A, 0x5B, 0x5D, 0x5E, 0x24, 0x5C, 0x2B, 0x2E, 0x7E, 0x60} \<or> is_invisible_char c)"
    using c unfolding breaker_def skippable_def is_geresh_def is_gershayim_def is_transparent_def
    by blast+
  ultimately show "\<exists>d. sanitize_char c = [d] \<and> breaker alnum d"
    using c unfolding sanitize_char_def by simp
qed

interpretation sanitize: class_map demo_alnum sanitize_char
  by (rule sanitize_class_map [OF unicode_alnum_demo])

subsection \<open>White space\<close>

lemma whitespace_breaker:
  assumes "unicode_alnum alnum" "is_whitespace c"
  shows "breaker alnum c"
proof -
  have "\<not> is_hebrew_letter c \<and> \<not> is_ascii_alphanumeric c \<and> \<not> is_word_mark c \<and> \<not> skippable c"
    using assms(2) by (auto simp: char_class_defs skippable_def)
  with assms show ?thesis by (auto simp: breaker_def is_word_char_def unicode_alnum_def)
qed

lemma raw_words_collapse_loop:
  assumes "unicode_alnum alnum"
  shows "raw_words alnum (v @ collapse_loop False s) = raw_words alnum (v @ s)"
    "raw_words alnum (collapse_loop True s) = raw_words alnum s"
proof (induction s arbitrary: v)
  case Nil
  { case 1 then show ?case by simp }
  { case 2 then show ?case by simp }
next
  case (Cons c s)
  have sp: "breaker alnum 0x20"
    using whitespace_breaker [OF assms, of "0x20"] by (simp add: is_whitespace_def)
  { case 1
    show ?case
    proof (cases "is_whitespace c")
      case True
      then show ?thesis
        using Cons(2) raw_words_breaker [OF sp] raw_words_breaker [OF whitespace_breaker [OF assms True]]
        by simp
    next
      case False
      with Cons(1) [of "v @ [c]"] show ?thesis by simp
    qed }
  { case 2
    show ?case
    proof (cases "is_whitespace c")
      case True
      then show ?thesis
        using Cons(2) raw_words_breaker [OF whitespace_breaker [OF assms True], of "[]"] by simp
    next
      case False
      with Cons(1) [of "[c]"] show ?thesis by simp
    qed }
qed

lemma raw_words_collapse:
  assumes "unicode_alnum alnum"
  shows "raw_words alnum (collapse_whitespace s) = raw_words alnum s"
proof -
  let ?t = "collapse_loop False s"
  have ws: "\<forall>c\<in>set (takeWhile is_whitespace t). breaker alnum c" for t
    using whitespace_breaker [OF assms] by (auto dest: set_takeWhileD)
  have 1: "raw_words alnum (trim_start t) = raw_words alnum t" for t
    using raw_words_skip [of "takeWhile is_whitespace t" alnum "trim_start t"] ws [of t]
      breaker_not_start by (auto simp: trim_start_def)
  have 2: "raw_words alnum (trim_end t) = raw_words alnum t" for t
  proof -
    have "t = trim_end t @ rev (takeWhile is_whitespace (rev t))"
      by (simp add: trim_end_def flip: rev_append)
    moreover have "raw_words alnum (trim_end t @ rev (takeWhile is_whitespace (rev t)))
        = raw_words alnum (trim_end t)"
      using ws [of "rev t"] by (intro raw_words_end) simp
    ultimately show ?thesis by metis
  qed
  show ?thesis
    using raw_words_collapse_loop(1) [OF assms, of "[]" s]
    by (simp add: collapse_whitespace_def trim_def 1 2)
qed

subsection \<open>The loops against the lexer\<close>

lemma next_token_cases:
  obtains (none) "\<forall>c\<in>set s. \<not> starts_token alnum c"
      "next_token_boundaries alnum (p @ s) (str_len p) = Some None" "raw_words alnum s = []"
  | (word) skip tok rem where "s = skip @ tok @ rem" "\<forall>c\<in>set skip. \<not> starts_token alnum c"
      "tok \<noteq> []" "starts_token alnum (hd tok)"
      "next_token_boundaries alnum (p @ s) (str_len p)
         = Some (Some (str_len (p @ skip), str_len (p @ skip @ tok)))"
      "tok = tok_split alnum (tok @ rem)" "raw_words alnum s = tok # raw_words alnum rem"
proof (cases "dropWhile (\<lambda>c. \<not> starts_token alnum c) s")
  case Nil
  then have n: "\<forall>c\<in>set s. \<not> starts_token alnum c" by (simp add: dropWhile_eq_Nil_conv)
  moreover have "next_token_boundaries alnum (p @ s) (str_len p) = Some None"
    unfolding next_token_boundaries_lexer using Nil by (simp del: dropWhile_eq_Nil_conv)
  ultimately show ?thesis using none raw_words_none by blast
next
  case (Cons c t)
  let ?skip = "takeWhile (\<lambda>c. \<not> starts_token alnum c) s"
  let ?tok = "tok_split alnum (c # t)" and ?rem = "tok_rest alnum (c # t)"
  have s: "s = ?skip @ ?tok @ ?rem" using Cons tok_split_rest by (metis takeWhile_dropWhile_id)
  have skip: "\<forall>c\<in>set ?skip. \<not> starts_token alnum c" by (auto dest: set_takeWhileD)
  have c: "starts_token alnum c" using dropWhile_head [OF Cons] by simp
  have ne: "?tok \<noteq> []" using tok_split_nonempty starts_token_is_word_char [OF c] by blast
  have ct: "?tok @ ?rem = c # t" by (rule tok_split_rest)
  show ?thesis
  proof (rule word [OF s skip ne])
    show "starts_token alnum (hd ?tok)" using ct c ne by (cases ?tok) auto
    show "next_token_boundaries alnum (p @ s) (str_len p)
        = Some (Some (str_len (p @ ?skip), str_len (p @ ?skip @ ?tok)))"
      unfolding next_token_boundaries_lexer using Cons by (simp add: Let_def)
    show "?tok = tok_split alnum (?tok @ ?rem)" using ct by simp
    have "raw_words alnum s = raw_words alnum (c # t)"
      using raw_words_skip [OF skip] Cons by (metis takeWhile_dropWhile_id)
    then show "raw_words alnum s = ?tok # raw_words alnum ?rem" using c by simp
  qed
qed

abbreviation query_word :: "ustr \<Rightarrow> ustr" where
  "query_word raw \<equiv> foldl push_query_char [] raw"

lemma split_loop_lexer:
  "split_loop alnum (p @ s) (str_len p) = Some (map query_word (raw_words alnum s))"
proof (induction "length s" arbitrary: p s rule: less_induct)
  case less
  show ?case
  proof (cases rule: next_token_cases [of s alnum p])
    case none
    then show ?thesis by (subst split_loop.simps) simp
  next
    case (word skip tok rem)
    have "length rem < length s" using word(1,3) by simp
    from less [OF this, of "p @ skip @ tok"] word(1)
    have "split_loop alnum (p @ s) (str_len (p @ skip @ tok)) = Some (map query_word (raw_words alnum rem))"
      by simp
    moreover have "str_range (p @ s) (str_len (p @ skip)) (str_len (p @ skip @ tok)) = Some tok"
      using str_range_append [of "p @ skip" tok rem] word(1) by (simp add: add.assoc)
    ultimately show ?thesis using word(5,7) by (subst split_loop.simps) (simp del: str_len_append)
  qed
qed

lemma split_query_words_sanitized:
  assumes "unicode_alnum alnum" "keep_second_of_paired_readings alnum q = Some q'"
  shows "split_query_words alnum q = Some (map (query_word \<circ> mapped sanitize_char) (raw_words alnum q'))"
  using assms split_loop_lexer [of alnum "[]"] raw_words_collapse [OF assms(1)]
    class_map.raw_words_mapped [OF sanitize_class_map [OF assms(1)]]
  by (simp add: split_query_words_def sanitize_query_def)

subsection \<open>The readings of a text\<close>

text \<open>How the loops walk a text \<open>p @ s\<close> from the offset of \<open>s\<close>: the tokens, where a paired
  reading counts as its second reading.\<close>

inductive reads :: "(uchar \<Rightarrow> bool) \<Rightarrow> ustr \<Rightarrow> ustr \<Rightarrow> ustr list \<Rightarrow> bool" for alnum where
  reads_none: "next_token_boundaries alnum (p @ s) (str_len p) = Some None
    \<Longrightarrow> \<forall>c\<in>set s. \<not> starts_token alnum c \<Longrightarrow> reads alnum p s []"
| reads_word: "next_token_boundaries alnum (p @ skip @ tok @ rem) (str_len p)
      = Some (Some (str_len (p @ skip), str_len (p @ skip @ tok)))
    \<Longrightarrow> \<forall>c\<in>set skip. \<not> starts_token alnum c \<Longrightarrow> starts_token alnum (hd tok) \<Longrightarrow> tok \<noteq> []
    \<Longrightarrow> tok = tok_split alnum (tok @ rem)
    \<Longrightarrow> paired_reading_after alnum (p @ skip @ tok @ rem) (str_len (p @ skip)) (str_len (p @ skip @ tok))
          = Some None
    \<Longrightarrow> reads alnum (p @ skip @ tok) rem ws
    \<Longrightarrow> reads alnum p (skip @ tok @ rem) (tok # ws)"
| reads_pair: "next_token_boundaries alnum (p @ skip @ tok @ m @ y @ v @ 0x5D # r) (str_len p)
      = Some (Some (str_len (p @ skip), str_len (p @ skip @ tok)))
    \<Longrightarrow> \<forall>c\<in>set skip. \<not> starts_token alnum c \<Longrightarrow> starts_token alnum (hd tok) \<Longrightarrow> tok \<noteq> []
    \<Longrightarrow> tok = tok_split alnum (tok @ m @ y @ v @ 0x5D # r)
    \<Longrightarrow> paired_reading_after alnum (p @ skip @ tok @ m @ y @ v @ 0x5D # r)
          (str_len (p @ skip)) (str_len (p @ skip @ tok))
          = Some (Some \<lparr>second_start = str_len (p @ skip @ tok @ m),
                        second_end = str_len (p @ skip @ tok @ m @ y),
                        after_pair = str_len (p @ skip @ tok @ m @ y @ v @ [0x5D])\<rparr>)
    \<Longrightarrow> p @ skip \<noteq> [] \<Longrightarrow> last (p @ skip) = 0x28 \<Longrightarrow> pair_gap alnum m
    \<Longrightarrow> \<forall>c\<in>set v. is_reading_suffix alnum c \<Longrightarrow> starts_token alnum (hd y) \<Longrightarrow> y \<noteq> []
    \<Longrightarrow> y = tok_split alnum (y @ v @ 0x5D # r)
    \<Longrightarrow> reads alnum (p @ skip @ tok @ m @ y @ v @ [0x5D]) r ws
    \<Longrightarrow> reads alnum p (skip @ tok @ m @ y @ v @ 0x5D # r) (y # ws)"

lemma str_len_prefix_eq: "u @ x = w @ z \<Longrightarrow> str_len u = str_len w \<Longrightarrow> u = w"
  by (metis option.inject str_to_append)

lemma paired_second:
  "paired_reading_after alnum txt a b = Some (Some pr) \<Longrightarrow>
     next_token_boundaries alnum txt (second_start pr) = Some (Some (second_start pr, second_end pr))"
  by (auto simp: paired_reading_after_def Let_def split: if_splits option.splits bind_splits)

lemma second_reading_split:
  assumes "paired_reading_after alnum (p @ y @ s) a b = Some (Some pr)"
    "second_start pr = str_len p" "second_end pr = str_len (p @ y)" "starts_token alnum (hd y)" "y \<noteq> []"
  shows "y = tok_split alnum (y @ s)"
proof -
  have b: "next_token_boundaries alnum (p @ y @ s) (str_len p)
      = Some (Some (str_len p, str_len (p @ y)))"
    using paired_second [OF assms(1)] assms(2,3) by simp
  obtain c t where y: "y = c # t" using assms(5) by (cases y) auto
  then have "str_len (p @ y) = str_len (p @ tok_split alnum (y @ s))"
    using b assms(4) unfolding next_token_boundaries_lexer by (simp add: Let_def)
  moreover obtain r where "y @ s = tok_split alnum (y @ s) @ r" using tok_split_prefix by blast
  ultimately show ?thesis using str_len_prefix_eq by (metis str_len_append add_left_cancel)
qed

lemma reads_ex: "\<exists>ws. reads alnum p s ws"
proof (induction "length s" arbitrary: p s rule: less_induct)
  case less
  show ?case
  proof (cases rule: next_token_cases [of s alnum p])
    case none
    then show ?thesis using reads_none by blast
  next
    case (word skip tok rem)
    let ?P = "p @ skip"
    have b: "next_token_boundaries alnum (p @ skip @ tok @ rem) (str_len p)
        = Some (Some (str_len (p @ skip), str_len (p @ skip @ tok)))" using word(1,5) by simp
    obtain r where r: "paired_reading_after alnum (?P @ tok @ rem) (str_len ?P) (str_len (?P @ tok)) = Some r"
      "\<forall>pr. r = Some pr \<longrightarrow> pair_spec alnum ?P tok rem pr"
      using paired_reading_after_spec by blast
    show ?thesis
    proof (cases r)
      case None
      have "length rem < length s" using word(1,3) by simp
      from less [OF this, of "?P @ tok"] obtain ws where "reads alnum (p @ skip @ tok) rem ws" by auto
      from reads_word [OF b word(2,4,3,6) _ this] r(1) None word(1) show ?thesis by auto
    next
      case (Some pr)
      with r(2) have "pair_spec alnum ?P tok rem pr" by blast
      then obtain m y v t where ps: "?P \<noteq> []" "last ?P = 0x28" "rem = m @ y @ v @ 0x5D # t"
        "pair_gap alnum m" "starts_token alnum (hd y)" "token_shape alnum y"
        "\<forall>c\<in>set v. is_reading_suffix alnum c"
        "second_start pr = str_len (?P @ tok @ m)" "second_end pr = str_len (?P @ tok @ m @ y)"
        "after_pair pr = str_len (?P @ tok @ m @ y @ v @ [0x5D])"
        using token_then_shape unfolding pair_spec_def by blast
      have pr: "pr = \<lparr>second_start = str_len (p @ skip @ tok @ m),
           second_end = str_len (p @ skip @ tok @ m @ y),
           after_pair = str_len (p @ skip @ tok @ m @ y @ v @ [0x5D])\<rparr>"
        using ps(8-10) by simp
      have y: "y \<noteq> []" using ps(6) by (rule token_shape_nonempty)
      have pd: "paired_reading_after alnum (p @ skip @ tok @ m @ y @ v @ 0x5D # t)
          (str_len (p @ skip)) (str_len (p @ skip @ tok)) = Some (Some pr)"
        using r(1) Some ps(3) by simp
      have ys: "y = tok_split alnum (y @ v @ 0x5D # t)"
        using second_reading_split [of alnum "?P @ tok @ m" y "v @ 0x5D # t" _ _ pr] pd ps(5,8,9) y
        by simp
      have "length t < length s" using word(1) ps(3) by simp
      from less [OF this] obtain ws where "reads alnum (p @ skip @ tok @ m @ y @ v @ [0x5D]) t ws"
        by blast
      from reads_pair [OF b [unfolded ps(3)] word(2,4,3) word(6) [unfolded ps(3)]
          pd [unfolded pr] ps(1,2,4,7,5) y ys this]
      show ?thesis using word(1) ps(3) by auto
    qed
  qed
qed

lemma bracket_breaker: "c \<in> {0x28, 0x29, 0x20} \<Longrightarrow> breaker alnum c"
  by (elim insertE) (simp_all add: breaker_def is_word_char_def skippable_def char_class_defs)

lemma suffix_not_start:
  "is_reading_suffix alnum c \<Longrightarrow> \<not> starts_token alnum c"
  using starts_token_is_word_char by (auto simp: is_reading_suffix_def)

lemma square_not_start: "\<not> starts_token alnum 0x5B" "\<not> starts_token alnum 0x5D"
  by (simp_all add: starts_token_def char_class_defs)

lemma gap_not_start:
  assumes "pair_gap alnum m" "unicode_alnum alnum"
  shows "\<forall>c\<in>set m. \<not> starts_token alnum c"
  using assms suffix_not_start whitespace_breaker breaker_not_start bracket_breaker [of "0x29"]
    square_not_start
  unfolding pair_gap_def by fastforce

lemma tok_rest_self: "y = tok_split alnum (y @ t) \<Longrightarrow> tok_rest alnum (y @ t) = t"
  by (metis append_eq_conv_conj tok_rest_def)

lemma raw_words_token:
  assumes "unicode_alnum alnum" "y \<noteq> []" "starts_token alnum (hd y)" "y = tok_split alnum (y @ t)"
  shows "raw_words alnum (y @ t) = y # raw_words alnum t" "raw_words alnum y = [y]"
proof -
  obtain c z where y: "y = c # z" using assms(2) by (cases y) auto
  have "tok_split alnum (c # z @ t) = c # z"
    using assms(4) [symmetric] unfolding y append_Cons .
  moreover have "tok_rest alnum (c # z @ t) = t"
    using tok_rest_self [OF assms(4)] unfolding y append_Cons .
  ultimately show "raw_words alnum (y @ t) = y # raw_words alnum t" using assms(3) y by simp
  have "tok_split alnum (y @ []) = y"
    using tok_split_self [of "y @ t" alnum] assms starts_token_is_word_char y by simp
  then show "raw_words alnum y = [y]"
    using tok_rest_self [of y alnum "[]"] assms(3) y by (metis append_Nil2 list.sel(1) raw_words.simps)
qed

subsection \<open>Replacing the pairs\<close>

definition pairs_replaced ::
  "(uchar \<Rightarrow> bool) \<Rightarrow> ustr \<Rightarrow> ustr \<Rightarrow> nat \<Rightarrow> ustr list \<Rightarrow> (ustr \<times> nat) option \<Rightarrow> bool" where
  "pairs_replaced alnum q out c0 ws res \<longleftrightarrow>
     (\<exists>out' copied tail. res = Some (out', copied) \<and> str_from q copied = Some tail
        \<and> raw_words alnum (out' @ tail) = raw_words alnum out @ ws
        \<and> c0 \<le> copied \<and> (copied = c0 \<longrightarrow> out' = out))"

lemma raw_words_after:
  "out = [] \<or> breaker alnum (last out) \<Longrightarrow> raw_words alnum (out @ t) = raw_words alnum out @ raw_words alnum t"
proof (cases out rule: rev_cases)
  case (snoc u b)
  assume "out = [] \<or> breaker alnum (last out)"
  with snoc have b: "breaker alnum b" by simp
  then show ?thesis using snoc raw_words_breaker [OF b, of u t] raw_words_end [of "[b]" alnum u] by simp
qed simp

lemma keep_second_loop_reads:
  assumes "unicode_alnum alnum"
  shows "reads alnum p s ws \<Longrightarrow> p = a @ b \<Longrightarrow> raw_words alnum (b @ s) = B @ raw_words alnum s
    \<Longrightarrow> out = [] \<or> breaker alnum (last out) \<Longrightarrow> a = [] \<or> last a = 0x5D
    \<Longrightarrow> pairs_replaced alnum (p @ s) out (str_len a) (B @ ws)
          (keep_second_loop alnum (p @ s) out (str_len a) (str_len p))"
proof (induction p s ws arbitrary: a b B out rule: reads.induct)
  case (reads_none p s)
  have "str_from (p @ s) (str_len a) = Some (b @ s)"
    using reads_none.prems(1) str_from_append [of a "b @ s"] by simp
  with reads_none raw_words_none [OF reads_none.hyps(2)] raw_words_after [OF reads_none.prems(3), of "b @ s"]
  show ?case
    by (subst keep_second_loop.simps) (auto simp: pairs_replaced_def)
next
  case (reads_word p skip tok rem ws)
  have "raw_words alnum (skip @ tok @ rem) = tok # raw_words alnum rem"
    using raw_words_skip [OF reads_word.hyps(2)] raw_words_token(1) [OF assms reads_word.hyps(4,3,5)]
    by simp
  then have "raw_words alnum ((b @ skip @ tok) @ rem) = (B @ [tok]) @ raw_words alnum rem"
    using reads_word.prems(2) by simp
  from reads_word.IH [OF _ this reads_word.prems(3,4)] reads_word.prems(1) reads_word.hyps(1,6)
  show ?case by (subst keep_second_loop.simps) (simp del: str_len_append)
next
  case (reads_pair p skip tok m y v r ws)
  let ?q = "p @ skip @ tok @ m @ y @ v @ 0x5D # r"
  have "b @ skip \<noteq> []"
    using reads_pair.prems(1,4) reads_pair.hyps(7,8) by auto
  moreover have "last (b @ skip) = 0x28"
    using calculation reads_pair.prems(1) reads_pair.hyps(8) by (metis append.assoc last_appendR)
  ultimately obtain g where g: "b @ skip = g @ [0x28]" by (metis append_butlast_last_id)
  let ?rest = "tok @ m @ y @ v @ 0x5D # r"
  have "raw_words alnum (b @ skip @ ?rest) = B @ raw_words alnum ?rest"
    using reads_pair.prems(2) raw_words_skip [OF reads_pair.hyps(2)] by simp
  moreover have "b @ skip @ ?rest = g @ 0x28 # ?rest" using g by (metis append.assoc append_Cons append_Nil)
  ultimately have raw_g: "raw_words alnum g = B"
    using raw_words_breaker [OF bracket_breaker, of "0x28" alnum g ?rest] by simp
  let ?out = "out @ g @ [0x20] @ y @ [0x20]"
  have sp: "breaker alnum 0x20" by (rule bracket_breaker) simp
  have raw_out: "raw_words alnum ?out = raw_words alnum out @ B @ [y]"
    using raw_words_after [OF reads_pair.prems(3)] raw_words_breaker [OF sp, of g "y @ [0x20]"]
      raw_words_end [of "[0x20]" alnum y] sp raw_g
      raw_words_token(2) [OF assms reads_pair.hyps(12,11,13)] by simp
  let ?a = "p @ skip @ tok @ m @ y @ v @ [0x5D]"
  have ih: "pairs_replaced alnum (?a @ r) ?out (str_len ?a) ws
      (keep_second_loop alnum (?a @ r) ?out (str_len ?a) (str_len ?a))"
    using reads_pair.IH [of ?a "[]" "[]" ?out] sp by simp
  have pg: "p @ skip = a @ g @ [0x28]" using reads_pair.prems(1) g by simp
  have one: "len_utf8 0x28 = 1" by (simp add: len_utf8_def)
  have start: "checked_sub (str_len (p @ skip)) 1 = Some (str_len (a @ g))"
    unfolding pg using one by (simp add: checked_sub_def)
  have q: "?q = a @ g @ 0x28 # ?rest" using pg by simp
  have plain: "str_range ?q (str_len a) (str_len (a @ g)) = Some g"
    unfolding q using str_range_append [of a g "0x28 # ?rest"] by simp
  have second: "str_range ?q (str_len (p @ skip @ tok @ m)) (str_len (p @ skip @ tok @ m @ y)) = Some y"
    using str_range_append [of "p @ skip @ tok @ m" y "v @ 0x5D # r"] by (simp add: add.assoc)
  have "keep_second_loop alnum ?q out (str_len a) (str_len p)
      = keep_second_loop alnum (?a @ r) ?out (str_len ?a) (str_len ?a)"
    using reads_pair.hyps(1,6) start plain second
    by (subst keep_second_loop.simps)
      (simp del: str_len_append str_len_Cons checked_sub_eq_Some One_nat_def)
  moreover have "str_len a < str_len ?a" using reads_pair.prems(1) str_len_pos [OF reads_pair.hyps(4)] by simp
  ultimately show ?case using ih raw_out unfolding pairs_replaced_def by fastforce
qed

lemma keep_second_reads:
  assumes "unicode_alnum alnum" "reads alnum [] q ws"
  shows "\<exists>q'. keep_second_of_paired_readings alnum q = Some q' \<and> raw_words alnum q' = ws"
  using keep_second_loop_reads [OF assms, of "[]" "[]" "[]" "[]"]
  by (auto simp: pairs_replaced_def keep_second_of_paired_readings_def)

lemma split_query_words_reads:
  assumes "unicode_alnum alnum" "reads alnum [] q ws"
  shows "split_query_words alnum q = Some (map (query_word \<circ> mapped sanitize_char) ws)"
proof -
  obtain q' where "keep_second_of_paired_readings alnum q = Some q'" "raw_words alnum q' = ws"
    using keep_second_reads [OF assms] by blast
  then show ?thesis using split_query_words_sanitized [OF assms(1)] by simp
qed

subsection \<open>Spans\<close>

text \<open>A word's own text holds no parenthesis: split by itself it is one word.\<close>

lemma no_paren_reads: "reads alnum p s ws \<Longrightarrow> 0x28 \<notin> set (p @ s) \<Longrightarrow> ws = raw_words alnum s"
proof (induction p s ws rule: reads.induct)
  case (reads_none p s)
  then show ?case using raw_words_none by simp
next
  case (reads_word p skip tok rem ws)
  obtain c z where t: "tok = c # z" using reads_word.hyps(4) by (cases tok) auto
  have "tok_split alnum (c # z @ rem) = c # z"
    using reads_word.hyps(5) [symmetric] unfolding t append_Cons .
  moreover have "tok_rest alnum (c # z @ rem) = rem"
    using tok_rest_self [OF reads_word.hyps(5)] unfolding t append_Cons .
  ultimately have "raw_words alnum (tok @ rem) = tok # raw_words alnum rem"
    using reads_word.hyps(3) t by simp
  then show ?case using reads_word raw_words_skip [OF reads_word.hyps(2)] by simp
next
  case (reads_pair p skip tok m y v r ws)
  have "last (p @ skip) \<in> set (p @ skip)" using reads_pair.hyps(7) by (rule last_in_set)
  with reads_pair show ?case by auto
qed

lemma split_one_word:
  assumes "unicode_alnum alnum" "y \<noteq> []" "starts_token alnum (hd y)" "y = tok_split alnum (y @ t)"
    "token_shape alnum y"
  shows "split_query_words alnum y = Some [query_word (mapped sanitize_char y)]"
proof -
  have "0x28 \<notin> set y"
  proof
    assume "0x28 \<in> set y"
    from token_shape_chars [OF assms(5) this] bracket_breaker [of "0x28" alnum] show False
      by (auto simp: breaker_def)
  qed
  moreover obtain ws where r: "reads alnum [] y ws" using reads_ex by blast
  ultimately have "ws = [y]"
    using no_paren_reads [OF r] raw_words_token(2) [OF assms(1-4)] by simp
  then show ?thesis using split_query_words_reads [OF assms(1) r] by simp
qed

lemma next_token_shape:
  assumes "next_token_boundaries alnum (p @ skip @ tok @ rem) (str_len p)
      = Some (Some (str_len (p @ skip), str_len (p @ skip @ tok)))"
  shows "token_shape alnum tok"
proof -
  from next_token_boundaries_SomeD [OF assms] obtain k t r where
    k: "skip @ tok @ rem = k @ t @ r" "str_len (p @ skip) = str_len (p @ k)"
    "str_len (p @ skip @ tok) = str_len (p @ k @ t)" and t: "token_shape alnum t" by blast
  have "skip = k" using k(1,2) str_len_prefix_eq [of skip "tok @ rem" k "t @ r"] by simp
  then have "tok = t" using k(1,3) str_len_prefix_eq [of tok rem t r] by simp
  then show ?thesis using t by simp
qed

text \<open>Exact spans of what follows \<open>p\<close>: each is a token of the query, at its own UTF-16 offsets, whose only word
  is the one it comes with, and the next follows after it.\<close>

fun spans_exact :: "(uchar \<Rightarrow> bool) \<Rightarrow> ustr \<Rightarrow> ustr \<Rightarrow> (ustr \<times> u32 \<times> u32) list \<Rightarrow> bool" where
  "spans_exact alnum p s [] \<longleftrightarrow> True"
| "spans_exact alnum p s ((w, a, b) # ss) \<longleftrightarrow>
     (\<exists>g y r. s = g @ y @ r \<and> a = of_nat (utf16_len (p @ g)) \<and> b = of_nat (utf16_len (p @ g @ y))
        \<and> starts_token alnum (hd y) \<and> token_then alnum y r \<and> split_query_words alnum y = Some [w]
        \<and> spans_exact alnum (p @ g @ y) r ss)"

lemma split_then:
  assumes "y \<noteq> []" "starts_token alnum (hd y)" "y = tok_split alnum (y @ t)"
  shows "token_then alnum y t"
proof -
  have "y @ t \<noteq> []" "is_word_char alnum (hd (y @ t))"
    using assms(1,2) starts_token_is_word_char by (cases y; simp)+
  then obtain rem where "y @ t = tok_split alnum (y @ t) @ rem" "token_then alnum (tok_split alnum (y @ t)) rem"
    using tok_split_then by blast
  then show ?thesis using assms(3) by (metis same_append_eq)
qed

lemma utf16_count_append: "utf16_count (s @ t) = utf16_count s + utf16_count t"
  by (simp add: utf16_count_def)

lemma spans_loop_reads:
  assumes "unicode_alnum alnum"
  shows "reads alnum p s ws \<Longrightarrow> p = a @ b \<Longrightarrow>
     \<exists>ss. spans_loop alnum (p @ s) (str_len p) (str_len a) (utf16_count a) = Some ss
       \<and> map fst ss = map (query_word \<circ> mapped sanitize_char) ws
       \<and> spans_exact alnum a (b @ s) ss"
proof (induction p s ws arbitrary: a b rule: reads.induct)
  case (reads_none p s)
  then show ?case by (subst spans_loop.simps) auto
next
  case (reads_word p skip tok rem ws)
  have shape: "token_shape alnum tok" by (rule next_token_shape [OF reads_word.hyps(1)])
  note one = split_one_word [OF assms reads_word.hyps(4,3,5) shape]
  note ends = split_then [OF reads_word.hyps(4,3,5)]
  obtain ss where ss: "spans_loop alnum ((p @ skip @ tok) @ rem) (str_len (p @ skip @ tok))
        (str_len (p @ skip @ tok)) (utf16_count (p @ skip @ tok)) = Some ss"
      "map fst ss = map (query_word \<circ> mapped sanitize_char) ws"
      "spans_exact alnum (p @ skip @ tok) rem ss"
    using reads_word.IH [of "p @ skip @ tok" "[]"] by auto
  have skipped: "str_range (p @ skip @ tok @ rem) (str_len a) (str_len (p @ skip)) = Some (b @ skip)"
    using str_range_append [of a "b @ skip" "tok @ rem"] reads_word.prems by simp
  have word: "str_range (p @ skip @ tok @ rem) (str_len (p @ skip)) (str_len (p @ skip @ tok)) = Some tok"
    using str_range_append [of "p @ skip" tok rem] by (simp add: add.assoc)
  have u: "utf16_count a + utf16_count (b @ skip) = utf16_count (p @ skip)"
    "utf16_count (p @ skip) + utf16_count tok = utf16_count (p @ skip @ tok)"
    using reads_word.prems by (simp_all add: utf16_count_append)
  from ss(1) have ss1: "spans_loop alnum (p @ skip @ tok @ rem) (str_len (p @ skip @ tok))
        (str_len (p @ skip @ tok)) (utf16_count (p @ skip @ tok)) = Some ss" by simp
  have "spans_loop alnum (p @ skip @ tok @ rem) (str_len p) (str_len a) (utf16_count a)
      = Some ((query_word (mapped sanitize_char tok), utf16_count (p @ skip), utf16_count (p @ skip @ tok)) # ss)"
    using reads_word.hyps(1,6) skipped word one ss1
    by (subst spans_loop.simps) (simp add: read_span_def u del: str_len_append)
  moreover have "spans_exact alnum a (b @ skip @ tok @ rem)
      ((query_word (mapped sanitize_char tok), utf16_count (p @ skip), utf16_count (p @ skip @ tok)) # ss)"
    unfolding spans_exact.simps using reads_word.prems reads_word.hyps(3) ends one ss(3)
    by (intro exI [of _ "b @ skip"] exI [of _ tok] exI [of _ rem]) (simp add: utf16_count_def)
  ultimately show ?case using ss(2) by simp
next
  case (reads_pair p skip tok m y v r ws)
  let ?q = "p @ skip @ tok @ m @ y @ v @ 0x5D # r"
  let ?pre = "p @ skip @ tok @ m"
  have "next_token_boundaries alnum (?pre @ [] @ y @ v @ 0x5D # r) (str_len ?pre)
      = Some (Some (str_len (?pre @ []), str_len (?pre @ [] @ y)))"
    using paired_second [OF reads_pair.hyps(6)] by simp
  from next_token_shape [OF this] have shape: "token_shape alnum y" .
  note one = split_one_word [OF assms reads_pair.hyps(12,11,13) shape]
  note ends = split_then [OF reads_pair.hyps(12,11,13)]
  obtain ss where ss: "spans_loop alnum ?q (str_len (?pre @ y @ v @ [0x5D]))
        (str_len (?pre @ y)) (utf16_count (?pre @ y)) = Some ss"
      "map fst ss = map (query_word \<circ> mapped sanitize_char) ws"
      "spans_exact alnum (?pre @ y) (v @ 0x5D # r) ss"
    using reads_pair.IH [of "?pre @ y" "v @ [0x5D]"] by auto
  have skipped: "str_range ?q (str_len a) (str_len ?pre) = Some (b @ skip @ tok @ m)"
    using str_range_append [of a "b @ skip @ tok @ m" "y @ v @ 0x5D # r"] reads_pair.prems by simp
  have word: "str_range ?q (str_len ?pre) (str_len (p @ skip @ tok @ m @ y)) = Some y"
    using str_range_append [of ?pre y "v @ 0x5D # r"] by (simp add: add.assoc)
  have u: "utf16_count a + utf16_count (b @ skip @ tok @ m) = utf16_count ?pre"
    "utf16_count ?pre + utf16_count y = utf16_count (p @ skip @ tok @ m @ y)"
    using reads_pair.prems by (simp_all add: utf16_count_append add.assoc)
  from ss(1) have ss1: "spans_loop alnum ?q (str_len (p @ skip @ tok @ m @ y @ v @ [0x5D]))
        (str_len (p @ skip @ tok @ m @ y)) (utf16_count (p @ skip @ tok @ m @ y)) = Some ss" by simp
  have "spans_loop alnum ?q (str_len p) (str_len a) (utf16_count a)
      = Some ((query_word (mapped sanitize_char y), utf16_count ?pre, utf16_count (p @ skip @ tok @ m @ y)) # ss)"
    using reads_pair.hyps(1,6) skipped word one ss1
    by (subst spans_loop.simps) (simp add: read_span_def u del: str_len_append str_len_Cons)
  moreover have "spans_exact alnum a (b @ skip @ tok @ m @ y @ v @ 0x5D # r)
      ((query_word (mapped sanitize_char y), utf16_count ?pre, utf16_count (p @ skip @ tok @ m @ y)) # ss)"
    unfolding spans_exact.simps using reads_pair.prems reads_pair.hyps(11) ends one ss(3)
    by (intro exI [of _ "b @ skip @ tok @ m"] exI [of _ y] exI [of _ "v @ 0x5D # r"]) (simp add: utf16_count_def)
  ultimately show ?case using ss(2) by simp
qed

subsection \<open>The token stream over the same readings\<close>

abbreviation plain_tokenizer :: "bool \<Rightarrow> tokenizer" where
  "plain_tokenizer k \<equiv> \<lparr>emit_quote_free = False, keep_marks = k\<rparr>"

definition unpaired :: "(uchar \<Rightarrow> bool) \<Rightarrow> ustr \<Rightarrow> token \<Rightarrow> bool" where
  "unpaired alnum q t \<longleftrightarrow> paired_reading_after alnum q (offset_from t) (offset_to t) = Some None"

lemma drain_word:
  assumes "next_token_boundaries alnum q (byte_pos st) = Some (Some (i, j))"
    "str_range q i j = Some tok" "paired_reading_after alnum q i j = Some pr"
    "pending_quote_free st = None" "share_next_position st \<longrightarrow> 1 \<le> token_count st"
  shows "\<exists>t st'. advance alnum (plain_tokenizer k) q st = Some (st', Some t)
    \<and> token_text t = normal_token_text k tok \<and> offset_from t = i \<and> offset_to t = j
    \<and> byte_pos st' = j \<and> pending_quote_free st' = None \<and> 1 \<le> token_count st'"
  using assms by (auto simp: advance_def quote_free_twin_def Let_def checked_sub_def)

lemma boundaries_skip:
  assumes "\<forall>c\<in>set g. \<not> starts_token alnum c"
  shows "next_token_boundaries alnum (p @ g @ s) (str_len p)
    = next_token_boundaries alnum ((p @ g) @ s) (str_len (p @ g))"
proof -
  have "dropWhile (\<lambda>c. \<not> starts_token alnum c) (g @ s) = dropWhile (\<lambda>c. \<not> starts_token alnum c) s"
    "takeWhile (\<lambda>c. \<not> starts_token alnum c) (g @ s) = g @ takeWhile (\<lambda>c. \<not> starts_token alnum c) s"
    using while_run [OF assms] by auto
  then show ?thesis unfolding next_token_boundaries_lexer by (simp add: Let_def add.assoc del: dropWhile_eq_Nil_conv split: list.split)
qed

lemma drain_reads:
  assumes "unicode_alnum alnum"
  shows "reads alnum p s ws \<Longrightarrow> p = a @ g \<Longrightarrow> \<forall>c\<in>set g. \<not> starts_token alnum c \<Longrightarrow>
     byte_pos st = str_len a \<Longrightarrow> pending_quote_free st = None \<Longrightarrow>
     share_next_position st \<longrightarrow> 1 \<le> token_count st \<Longrightarrow>
     \<exists>ts. drain alnum (plain_tokenizer k) (p @ s) st = Some ts
       \<and> map token_text (filter (unpaired alnum (p @ s)) ts) = map (normal_token_text k) ws"
proof (induction p s ws arbitrary: a g st rule: reads.induct)
  case (reads_none p s)
  then have "next_token_boundaries alnum (p @ s) (byte_pos st) = Some None"
    using boundaries_skip [OF reads_none.prems(2), of a s] by simp
  then have "advance alnum (plain_tokenizer k) (p @ s) st = Some (st, None)"
    using reads_none.prems(4) by (simp add: advance_def)
  then show ?case by (subst drain.simps) simp
next
  case (reads_word p skip tok rem ws)
  let ?q = "p @ skip @ tok @ rem"
  have b: "next_token_boundaries alnum ?q (byte_pos st)
      = Some (Some (str_len (p @ skip), str_len (p @ skip @ tok)))"
    using boundaries_skip [OF reads_word.prems(2), of a "skip @ tok @ rem"] reads_word.hyps(1)
      reads_word.prems(1,3) by simp
  have r: "str_range ?q (str_len (p @ skip)) (str_len (p @ skip @ tok)) = Some tok"
    using str_range_append [of "p @ skip" tok rem] by (simp add: add.assoc)
  obtain t st' where t: "advance alnum (plain_tokenizer k) ?q st = Some (st', Some t)"
    "token_text t = normal_token_text k tok" "offset_from t = str_len (p @ skip)"
    "offset_to t = str_len (p @ skip @ tok)" "byte_pos st' = str_len (p @ skip @ tok)"
    "pending_quote_free st' = None" "1 \<le> token_count st'"
    using drain_word [OF b r reads_word.hyps(6) reads_word.prems(4,5)] by blast
  from reads_word.IH [of "p @ skip @ tok" "[]" st'] t obtain ts where
    ts: "drain alnum (plain_tokenizer k) ?q st' = Some ts"
    "map token_text (filter (unpaired alnum ?q) ts) = map (normal_token_text k) ws" by auto
  have "unpaired alnum ?q t" unfolding unpaired_def t(3,4) by (rule reads_word.hyps(6))
  with t(1,2) ts show ?case by (subst drain.simps) simp
next
  case (reads_pair p skip tok m y v r ws)
  let ?q = "p @ skip @ tok @ m @ y @ v @ 0x5D # r"
  let ?pre = "p @ skip @ tok"
  have b: "next_token_boundaries alnum ?q (byte_pos st)
      = Some (Some (str_len (p @ skip), str_len (p @ skip @ tok)))"
    using boundaries_skip [OF reads_pair.prems(2), of a "skip @ tok @ m @ y @ v @ 0x5D # r"]
      reads_pair.hyps(1) reads_pair.prems(1,3) by simp
  have rt: "str_range ?q (str_len (p @ skip)) (str_len (p @ skip @ tok)) = Some tok"
    using str_range_append [of "p @ skip" tok "m @ y @ v @ 0x5D # r"] by (simp add: add.assoc)
  obtain t st1 where t: "advance alnum (plain_tokenizer k) ?q st = Some (st1, Some t)"
    "offset_from t = str_len (p @ skip)" "offset_to t = str_len (p @ skip @ tok)"
    "byte_pos st1 = str_len (p @ skip @ tok)" "pending_quote_free st1 = None" "1 \<le> token_count st1"
    using drain_word [OF b rt reads_pair.hyps(6) reads_pair.prems(4,5)] by blast
  have m: "\<forall>c\<in>set m. \<not> starts_token alnum c" by (rule gap_not_start [OF reads_pair.hyps(9) assms])
  have "next_token_boundaries alnum ((?pre @ m) @ y @ v @ 0x5D # r) (str_len (?pre @ m))
      = Some (Some (str_len (?pre @ m), str_len (?pre @ m @ y)))"
    using paired_second [OF reads_pair.hyps(6)] by simp
  then have b1: "next_token_boundaries alnum ?q (byte_pos st1)
      = Some (Some (str_len (?pre @ m), str_len (?pre @ m @ y)))"
    using boundaries_skip [OF m, of ?pre "y @ v @ 0x5D # r"] t(4) by simp
  have ry: "str_range ?q (str_len (?pre @ m)) (str_len (?pre @ m @ y)) = Some y"
    using str_range_append [of "?pre @ m" y "v @ 0x5D # r"] by (simp add: add.assoc)
  have "m \<noteq> [] \<and> last m = 0x5B" using reads_pair.hyps(9) by (auto simp: pair_gap_def)
  then have "last (?pre @ m) = 0x5B" by simp
  moreover have "str_to ?q (str_len (?pre @ m)) = Some (?pre @ m)"
    using str_to_append [of "?pre @ m" "y @ v @ 0x5D # r"] by simp
  ultimately have p1: "paired_reading_after alnum ?q (str_len (?pre @ m)) (str_len (?pre @ m @ y)) = Some None"
    by (simp add: paired_reading_after_def del: str_len_append)
  obtain t2 st2 where t2: "advance alnum (plain_tokenizer k) ?q st1 = Some (st2, Some t2)"
    "token_text t2 = normal_token_text k y" "offset_from t2 = str_len (?pre @ m)"
    "offset_to t2 = str_len (?pre @ m @ y)" "byte_pos st2 = str_len (?pre @ m @ y)"
    "pending_quote_free st2 = None" "1 \<le> token_count st2"
    using drain_word [OF b1 ry p1 t(5)] t(6) by blast
  have v: "\<forall>c\<in>set (v @ [0x5D]). \<not> starts_token alnum c"
    using reads_pair.hyps(10) suffix_not_start square_not_start by auto
  from reads_pair.IH [of "?pre @ m @ y" "v @ [0x5D]" st2] v t2 obtain ts where
    ts: "drain alnum (plain_tokenizer k) ?q st2 = Some ts"
    "map token_text (filter (unpaired alnum ?q) ts) = map (normal_token_text k) ws" by auto
  have "\<not> unpaired alnum ?q t" unfolding unpaired_def t(2,3) reads_pair.hyps(6) by simp
  moreover have "unpaired alnum ?q t2" unfolding unpaired_def t2(3,4) by (rule p1)
  ultimately show ?case using t(1) t2(1,2) ts by (subst drain.simps, subst drain.simps) simp
qed

subsection \<open>The text of a word\<close>

text \<open>A text with nothing to strip and nothing to fold.\<close>

definition plain_text :: "ustr \<Rightarrow> bool" where
  "plain_text s \<longleftrightarrow> (\<forall>c\<in>set s. \<not> is_word_mark c \<and> fold_presentation_form c = None)"

definition quote_end :: "ustr \<Rightarrow> bool" where
  "quote_end out \<longleftrightarrow> out \<noteq> [] \<and> (last out = 0x27 \<or> last out = 0x22)"

lemma push_word_chars:
  assumes "unicode_alnum alnum" "\<forall>c\<in>set w. is_word_char alnum c" "plain_text w"
  shows "foldl (push_token_char k) out w = out @ w"
    "foldl push_query_char out (mapped sanitize_char w) = out @ w"
proof -
  have "foldl (push_token_char k) out w = out @ w \<and> foldl push_query_char out w = out @ w"
    using assms(2,3)
  proof (induction w arbitrary: out)
    case (Cons c w)
    have c: "\<not> is_transparent c" "\<not> is_geresh c" "\<not> is_gershayim c"
      using word_char_plain [OF assms(1)] Cons.prems by auto
    then have "c \<noteq> 0x27" by (auto simp: is_geresh_def)
    with c Cons show ?case by (simp add: plain_text_def push_token_char_def push_query_char_def)
  qed simp
  moreover have "mapped sanitize_char w = w"
    using class_map.mapped_words [OF sanitize_class_map [OF assms(1)] assms(2)] .
  ultimately show "foldl (push_token_char k) out w = out @ w"
    "foldl push_query_char out (mapped sanitize_char w) = out @ w" by simp_all
qed

lemma sanitize_quotes:
  assumes "unicode_alnum alnum"
  shows "is_geresh c \<Longrightarrow> sanitize_char c = [0x27]" "is_gershayim c \<Longrightarrow> sanitize_char c = [0x22]"
    "is_transparent c \<Longrightarrow> sanitize_char c = []"
proof -
  show "is_geresh c \<Longrightarrow> sanitize_char c = [0x27]"
    unfolding is_geresh_def by (elim insertE) (simp_all add: sanitize_char_def is_invisible_char_def)
  show "is_gershayim c \<Longrightarrow> sanitize_char c = [0x22]"
    unfolding is_gershayim_def by (elim insertE) (simp_all add: sanitize_char_def is_invisible_char_def)
  show "is_transparent c \<Longrightarrow> sanitize_char c = []"
    using class_map.h_transparent [OF sanitize_class_map [OF assms]] .
qed

text \<open>Quotes between words: at most one gershayim, or at most two geresh chars.\<close>

lemma push_joint_step:
  assumes "skippable c"
  shows "push_token_char k out c =
     (if is_geresh c then (if out \<noteq> [] \<and> last out = 0x27 then push_gershayim_deduped (butlast out) else out @ [0x27])
      else if is_gershayim c then push_gershayim_deduped out else out)"
  using assms transparent_not_mark [of c] quote_not_mark [of c] transparent_not_quote [of c]
  by (auto simp: push_token_char_def skippable_def)

definition same_pushes :: "bool \<Rightarrow> ustr \<Rightarrow> bool" where
  "same_pushes k q \<longleftrightarrow> (\<forall>out. \<not> quote_end out \<longrightarrow>
     foldl (push_token_char k) out q = foldl push_query_char out (mapped sanitize_char q))"

lemma push_no_quotes:
  assumes "unicode_alnum alnum"
  shows "\<forall>c\<in>set q. skippable c \<Longrightarrow> filter is_geresh q = [] \<Longrightarrow> filter is_gershayim q = [] \<Longrightarrow>
     foldl (push_token_char k) out q = out \<and> mapped sanitize_char q = []"
proof (induction q)
  case (Cons c q)
  then have "\<not> is_geresh c" "\<not> is_gershayim c" "is_transparent c"
    by (auto simp: skippable_def split: if_splits)
  with Cons show ?case by (simp add: push_joint_step sanitize_quotes(3) [OF assms])
qed simp

lemma no_quotes_left:
  assumes "unicode_alnum alnum" "\<forall>c\<in>set q. skippable c" "filter is_geresh q = []"
    "filter is_gershayim q = []"
  shows "mapped sanitize_char q = [] \<and> (\<forall>out. foldl (push_token_char k) out q = out)"
  using push_no_quotes [OF assms] by blast

lemma same_pushes_no_quote:
  assumes "unicode_alnum alnum"
  shows "\<forall>c\<in>set q. skippable c \<Longrightarrow>
     length (filter is_geresh q) + length (filter is_gershayim q) \<le> 1 \<Longrightarrow> same_pushes k q"
  unfolding same_pushes_def
proof (induction q)
  case (Cons c q)
  show ?case
  proof (intro allI impI)
    fix out
    assume out: "\<not> quote_end out"
    consider "is_transparent c" "\<not> is_geresh c" "\<not> is_gershayim c" | "is_geresh c" "\<not> is_gershayim c"
      | "is_gershayim c" "\<not> is_geresh c"
      using Cons.prems(1) quotes_disjoint gershayim_not_geresh by (auto simp: skippable_def)
    then show "foldl (push_token_char k) out (c # q) = foldl push_query_char out (mapped sanitize_char (c # q))"
    proof cases
      case 1
      with Cons out show ?thesis by (simp add: push_joint_step sanitize_quotes(3) [OF assms])
    next
      case 2
      then have "filter is_geresh q = []" "filter is_gershayim q = []" using Cons.prems(2) by auto
      from no_quotes_left [OF assms _ this, of k] Cons.prems(1)
      have nq: "foldl (push_token_char k) o1 q = o1" "mapped sanitize_char q = []" for o1
        by (auto simp del: concat_eq_Nil_conv)
      show ?thesis using 2 Cons.prems(1) out
        by (auto simp: push_joint_step sanitize_quotes(1) [OF assms] push_query_char_def quote_end_def nq
            simp del: concat_eq_Nil_conv)
    next
      case 3
      then have "filter is_geresh q = []" "filter is_gershayim q = []" using Cons.prems(2) by auto
      from no_quotes_left [OF assms _ this, of k] Cons.prems(1)
      have nq: "foldl (push_token_char k) o1 q = o1" "mapped sanitize_char q = []" for o1
        by (auto simp del: concat_eq_Nil_conv)
      show ?thesis using 3 Cons.prems(1) out
        by (auto simp: push_joint_step sanitize_quotes(2) [OF assms] push_query_char_def quote_end_def
            push_gershayim_deduped_def nq simp del: concat_eq_Nil_conv)
    qed
  qed
qed simp

lemma push_after_geresh:
  assumes "unicode_alnum alnum" "\<not> quote_end out"
  shows "\<forall>c\<in>set q. skippable c \<Longrightarrow> length (filter is_geresh q) = 1 \<Longrightarrow> filter is_gershayim q = [] \<Longrightarrow>
     foldl (push_token_char k) (out @ [0x27]) q = foldl push_query_char (out @ [0x27]) (mapped sanitize_char q)"
proof (induction q)
  case (Cons c q)
  show ?case
  proof (cases "is_geresh c")
    case True
    then have "filter is_geresh q = []" "filter is_gershayim q = []"
      using Cons.prems quotes_disjoint by (auto split: if_splits)
    from no_quotes_left [OF assms(1) _ this, of k] Cons.prems(1)
    have nq: "foldl (push_token_char k) o1 q = o1" "mapped sanitize_char q = []" for o1
      by (auto simp del: concat_eq_Nil_conv)
    show ?thesis using True Cons.prems(1) assms(2)
      by (auto simp: push_joint_step sanitize_quotes(1) [OF assms(1)] push_query_char_def quote_end_def
          push_gershayim_deduped_def nq simp del: concat_eq_Nil_conv)
  next
    case False
    then have "is_transparent c" "\<not> is_gershayim c" using Cons.prems by (auto simp: skippable_def split: if_splits)
    with False Cons show ?thesis by (simp add: push_joint_step sanitize_quotes(3) [OF assms(1)])
  qed
qed simp

lemma same_pushes_two_geresh:
  assumes "unicode_alnum alnum"
  shows "\<forall>c\<in>set q. skippable c \<Longrightarrow> length (filter is_geresh q) = 2 \<Longrightarrow> filter is_gershayim q = []
    \<Longrightarrow> same_pushes k q"
  unfolding same_pushes_def
proof (induction q)
  case (Cons c q)
  show ?case
  proof (intro allI impI)
    fix out
    assume out: "\<not> quote_end out"
    then have o1: "out = [] \<or> last out \<noteq> 0x27" by (auto simp: quote_end_def)
    show "foldl (push_token_char k) out (c # q) = foldl push_query_char out (mapped sanitize_char (c # q))"
    proof (cases "is_geresh c")
      case True
      then have "length (filter is_geresh q) = 1" "filter is_gershayim q = []"
        using Cons.prems quotes_disjoint by (auto split: if_splits)
      with Cons.prems(1) push_after_geresh [OF assms out]
      have "foldl (push_token_char k) (out @ [0x27]) q = foldl push_query_char (out @ [0x27]) (mapped sanitize_char q)"
        by simp
      with True Cons.prems(1) o1 show ?thesis
        by (auto simp: push_joint_step sanitize_quotes(1) [OF assms] push_query_char_def)
    next
      case False
      then have "is_transparent c" "\<not> is_gershayim c" using Cons.prems by (auto simp: skippable_def split: if_splits)
      with False Cons out show ?thesis by (simp add: push_joint_step sanitize_quotes(3) [OF assms])
    qed
  qed
qed simp

lemma same_pushes_joint: "unicode_alnum alnum \<Longrightarrow> joint q \<Longrightarrow> same_pushes k q"
  using same_pushes_no_quote same_pushes_two_geresh
  unfolding joint_def joins_def by fastforce

lemma word_end_no_quote:
  assumes "unicode_alnum alnum" "word_run alnum w"
  shows "\<not> quote_end (out @ w)"
proof -
  have "is_word_char alnum (last w)" "w \<noteq> []" using assms(2) by (auto simp: word_run_def)
  with word_char_plain [OF assms(1)] show ?thesis
    by (auto simp: quote_end_def is_geresh_def is_gershayim_def)
qed

lemma plain_text_append [simp]: "plain_text (s @ t) \<longleftrightarrow> plain_text s \<and> plain_text t"
  by (auto simp: plain_text_def)

lemma push_token_shape:
  assumes "unicode_alnum alnum"
  shows "token_shape alnum t \<Longrightarrow> plain_text t \<Longrightarrow>
     foldl (push_token_char k) out t = foldl push_query_char out (mapped sanitize_char t)"
proof (induction arbitrary: out rule: token_shape.induct)
  case (shape_word w)
  then show ?case using push_word_chars [OF assms] by (simp add: word_run_def)
next
  case (shape_closing w ts g)
  then have w: "\<forall>c\<in>set w. is_word_char alnum c" "plain_text w" by (simp_all add: word_run_def)
  have "filter is_geresh ts = []" "filter is_gershayim (ts @ [g]) = []"
    using shape_closing.hyps(2,3) transparent_not_quote quotes_disjoint by (auto simp: filter_empty_conv)
  then have "same_pushes k (ts @ [g])"
    using shape_closing.hyps by (intro same_pushes_no_quote [OF assms]) (auto simp: skippable_def)
  with word_end_no_quote [OF assms shape_closing.hyps(1), of out] show ?case
    using push_word_chars [OF assms w] unfolding same_pushes_def by simp
next
  case (shape_joint w q t)
  then have w: "\<forall>c\<in>set w. is_word_char alnum c" "plain_text w" by (simp_all add: word_run_def)
  have "foldl (push_token_char k) (out @ w) q = foldl push_query_char (out @ w) (mapped sanitize_char q)"
    using same_pushes_joint [OF assms shape_joint.hyps(2)] word_end_no_quote [OF assms shape_joint.hyps(1)]
    unfolding same_pushes_def by blast
  with shape_joint push_word_chars [OF assms w] show ?case by simp
qed

lemma normal_token_text_query_word:
  assumes "unicode_alnum alnum" "token_shape alnum t" "plain_text t"
  shows "normal_token_text False t = query_word (mapped sanitize_char t)"
proof (cases "\<exists>c\<in>set t. needs_normalising c")
  case True
  then show ?thesis using push_token_shape [OF assms] by (simp add: normal_token_text_def)
next
  case False
  have keep: "query_word (mapped sanitize_char s) = s \<and> mapped sanitize_char s = s"
    if "\<forall>c\<in>set s. (is_word_char alnum c \<or> skippable c) \<and> \<not> needs_normalising c" for s
    using that
  proof (induction s rule: rev_induct)
    case (snoc c s)
    have "\<not> is_geresh c" using snoc.prems by (simp add: needs_normalising_def)
    then have "c \<noteq> 0x27" by (auto simp: is_geresh_def)
    moreover have "sanitize_char c = [c]"
    proof (cases "is_word_char alnum c")
      case True
      then show ?thesis using class_map.h_word [OF sanitize_class_map [OF assms(1)]] by blast
    next
      case False
      with snoc.prems have "c = 0x22" by (auto simp: needs_normalising_def skippable_def)
      then show ?thesis by (simp add: sanitize_char_def is_invisible_char_def)
    qed
    moreover have "query_word s = s" "mapped sanitize_char s = s"
      using snoc by (auto simp del: concat_eq_Nil_conv)
    ultimately show ?case by (simp add: push_query_char_def [of s])
  qed simp
  have "\<forall>c\<in>set t. (is_word_char alnum c \<or> skippable c) \<and> \<not> needs_normalising c"
    using False token_shape_chars [OF assms(2)] by blast
  from keep [OF this] have "query_word (mapped sanitize_char t) = t" by blast
  with False show ?thesis unfolding normal_token_text_def by simp
qed

lemma reads_plain: "reads alnum p s ws \<Longrightarrow> plain_text s \<Longrightarrow> \<forall>w\<in>set ws. plain_text w"
proof (induction rule: reads.induct)
  case (reads_word p skip tok rem ws)
  from reads_word.IH reads_word.prems show ?case by simp
next
  case (reads_pair p skip tok m y v r ws)
  have "plain_text r \<and> plain_text y" using reads_pair.prems by (simp add: plain_text_def)
  with reads_pair.IH show ?case by simp
qed simp

lemma reads_shape: "reads alnum p s ws \<Longrightarrow> \<forall>w\<in>set ws. token_shape alnum w"
proof (induction rule: reads.induct)
  case (reads_pair p skip tok m y v r ws)
  let ?pre = "p @ skip @ tok @ m"
  have "next_token_boundaries alnum (?pre @ [] @ y @ v @ 0x5D # r) (str_len ?pre)
      = Some (Some (str_len (?pre @ []), str_len (?pre @ [] @ y)))"
    using paired_second [OF reads_pair.hyps(6)] by simp
  from next_token_shape [OF this] reads_pair.IH show ?case by simp
next
  case (reads_word p skip tok rem ws)
  from next_token_shape [OF reads_word.hyps(1)] reads_word.IH show ?case by simp
qed simp

subsection \<open>Properties\<close>

text \<open>C2: Splitting a query never panics and yields the terms the index holds for the same text:
  for a query without marks and presentation forms, \<^verbatim>\<open>split_query_words\<close> returns exactly the
  token texts of the plain tokenizer, in order, leaving out the first readings of the paired
  readings \<^verbatim>\<open>(X) [Y]\<close>.\<close>

theorem query_words_agree:
  assumes "unicode_alnum alnum" "plain_text q"
  shows "\<exists>ts. tokenize alnum \<lparr>emit_quote_free = False, keep_marks = False\<rparr> q = Some ts
     \<and> split_query_words alnum q = Some (map token_text (filter (unpaired alnum q) ts))"
proof -
  obtain ws where r: "reads alnum [] q ws" using reads_ex by blast
  have "map (query_word \<circ> mapped sanitize_char) ws = map (normal_token_text False) ws"
    using reads_plain [OF r assms(2)] reads_shape [OF r] normal_token_text_query_word [OF assms(1)]
    by simp
  moreover have "\<exists>ts. drain alnum (plain_tokenizer False) q stream_start = Some ts
      \<and> map token_text (filter (unpaired alnum q) ts) = map (normal_token_text False) ws"
    using drain_reads [OF assms(1) r, of "[]" "[]" stream_start] by (simp add: stream_start_def)
  ultimately show ?thesis
    using split_query_words_reads [OF assms(1) r] by (auto simp: tokenize_def)
qed

lemma query_words_agree_witness:
  "\<exists>ts. tokenize demo_alnum \<lparr>emit_quote_free = False, keep_marks = False\<rparr> [0x28, 0x5D0, 0x29, 0x5B, 0x5D1, 0x5D] = Some ts
     \<and> split_query_words demo_alnum [0x28, 0x5D0, 0x29, 0x5B, 0x5D1, 0x5D]
         = Some (map token_text (filter (unpaired demo_alnum [0x28, 0x5D0, 0x29, 0x5B, 0x5D1, 0x5D]) ts))"
proof -
  have "plain_text [0x28, 0x5D0, 0x29, 0x5B, 0x5D1, 0x5D]"
    by (simp add: plain_text_def char_class_defs fold_presentation_form_below)
  then show ?thesis by (rule query_words_agree [OF unicode_alnum_demo])
qed

text \<open>C22: \<^verbatim>\<open>query_word_spans\<close> never panics; it returns the words of \<^verbatim>\<open>split_query_words\<close> in the
  same order, each with the exact source range it is read from: the UTF-16 offsets, as 32 bit counters,
  of the start and the end of the token of the query that has this word and no other; the ranges follow
  one after the other.\<close>

theorem query_word_spans_agree:
  assumes "unicode_alnum alnum"
  shows "\<exists>ss. query_word_spans alnum q = Some ss \<and> split_query_words alnum q = Some (map fst ss)
     \<and> spans_exact alnum [] q ss"
proof -
  obtain ws where r: "reads alnum [] q ws" using reads_ex by blast
  have "utf16_count [] = 0" by (simp add: utf16_count_def)
  then show ?thesis
    using spans_loop_reads [OF assms r, of "[]" "[]"] split_query_words_reads [OF assms r]
    by (auto simp: query_word_spans_def)
qed

lemma query_word_spans_agree_witness:
  "\<exists>ss. query_word_spans demo_alnum [0x5D0, 0x1D400, 0x20, 0x5D1] = Some ss
     \<and> split_query_words demo_alnum [0x5D0, 0x1D400, 0x20, 0x5D1] = Some (map fst ss)
     \<and> spans_exact demo_alnum [] [0x5D0, 0x1D400, 0x20, 0x5D1] ss"
  by (rule query_word_spans_agree [OF unicode_alnum_demo])

end
