(* ===== verification/DocSets.thy ===== *)
theory DocSets
  imports Prelude
begin

section \<open>Doc sets\<close>

text \<open>
  The interface of the search library every scorer of the engine implements
  (\<^verbatim>\<open>tantivy::DocSet\<close>): a cursor over ascending document numbers with \<^verbatim>\<open>doc\<close>,
  \<^verbatim>\<open>advance\<close> and \<^verbatim>\<open>seek\<close>, and \<^verbatim>\<open>TERMINATED\<close> past the last document. The library's own
  scorers are parameters: a record of operations on a state of any type. A call returns the
  new state and the document; \<open>None\<close> is a call that panics or does not return.

  The locale \<open>doc_set\<close> is the contract: an invariant and the list of documents still to come.
  \<open>checked_set\<close> is the filter the engine wraps scorers with (\<^verbatim>\<open>SectionFilteredScorer\<close> of
  \<^verbatim>\<open>section_scope.rs\<close>, \<^verbatim>\<open>GapVerifiedScorer\<close> of \<^verbatim>\<open>gap_phrase.rs\<close>): it keeps the
  documents a check admits, where the check may keep forward-only state of its own. The
  sublocale proves that the filter of a doc set is a doc set of exactly those documents.
\<close>

definition TERMINATED :: nat where
  "TERMINATED = 2147483647"

record 's docset =
  ds_doc :: "'s \<Rightarrow> nat"
  ds_advance :: "'s \<Rightarrow> ('s \<times> nat) option"
  ds_seek :: "nat \<Rightarrow> 's \<Rightarrow> ('s \<times> nat) option"
  ds_size_hint :: "'s \<Rightarrow> nat"

definition first_doc :: "nat list \<Rightarrow> nat" where
  "first_doc ds = (case ds of [] \<Rightarrow> TERMINATED | d # _ \<Rightarrow> d)"

abbreviation docs_from :: "nat \<Rightarrow> nat list \<Rightarrow> nat list" where
  "docs_from t ds \<equiv> dropWhile (\<lambda>d. d < t) ds"

definition docs_ok :: "nat list \<Rightarrow> bool" where
  "docs_ok ds \<longleftrightarrow> sorted_wrt (<) ds \<and> (\<forall>d\<in>set ds. d < TERMINATED)"

locale doc_set =
  fixes ops :: "'s docset" and inv :: "'s \<Rightarrow> bool" and docs :: "'s \<Rightarrow> nat list"
  assumes ok: "inv s \<Longrightarrow> docs_ok (docs s)"
    and doc: "inv s \<Longrightarrow> ds_doc ops s = first_doc (docs s)"
    and advance: "inv s \<Longrightarrow>
      \<exists>s'. ds_advance ops s = Some (s', first_doc (tl (docs s))) \<and> inv s' \<and> docs s' = tl (docs s)"
    and seek: "inv s \<Longrightarrow> first_doc (docs s) \<le> t \<Longrightarrow> t \<le> TERMINATED \<Longrightarrow>
      \<exists>s'. ds_seek ops t s = Some (s', first_doc (docs_from t (docs s))) \<and> inv s'
        \<and> docs s' = docs_from t (docs s)"

subsection \<open>Lists of documents\<close>

lemma first_doc_simps [simp]: "first_doc [] = TERMINATED" "first_doc (d # ds) = d"
  by (simp_all add: first_doc_def)

lemma docs_ok_Nil [simp]: "docs_ok []"
  by (simp add: docs_ok_def)

lemma docs_ok_Cons [simp]:
  "docs_ok (d # ds) \<longleftrightarrow> d < TERMINATED \<and> (\<forall>e\<in>set ds. d < e) \<and> docs_ok ds"
  by (auto simp: docs_ok_def)

lemma docs_ok_tl: "docs_ok ds \<Longrightarrow> docs_ok (tl ds)"
  by (cases ds) auto

lemma docs_ok_filter: "docs_ok ds \<Longrightarrow> docs_ok (filter P ds)"
  by (induction ds) auto

lemma docs_ok_from: "docs_ok ds \<Longrightarrow> docs_ok (docs_from t ds)"
  by (induction ds) auto

lemma docs_ok_drop: "docs_ok ds \<Longrightarrow> docs_ok (drop n ds)"
proof (induction n arbitrary: ds)
  case (Suc n)
  then show ?case by (cases ds) auto
qed simp

lemma docs_from_eq_filter: "docs_ok ds \<Longrightarrow> docs_from t ds = filter (\<lambda>d. t \<le> d) ds"
proof (induction ds)
  case (Cons d ds)
  show ?case
  proof (cases "d < t")
    case False
    with Cons.prems have "\<forall>e\<in>set ds. t \<le> e" by auto
    with False show ?thesis by simp
  qed (use Cons in auto)
qed simp

lemma first_doc_TERMINATED: "docs_ok ds \<Longrightarrow> first_doc ds = TERMINATED \<longleftrightarrow> ds = []"
  by (cases ds) auto

lemma first_doc_le: "docs_ok ds \<Longrightarrow> first_doc ds \<le> TERMINATED"
  by (cases ds) auto

lemma docs_from_first: "docs_ok ds \<Longrightarrow> t \<le> first_doc ds \<Longrightarrow> docs_from t ds = ds"
  by (cases ds) auto

subsection \<open>Scanning a doc set\<close>

text \<open>How a collector reads a scorer: the document it stands on, then \<^verbatim>\<open>advance\<close> until
  \<^verbatim>\<open>TERMINATED\<close>.\<close>

partial_function (option) scan_from :: "'s docset \<Rightarrow> 's \<Rightarrow> nat \<Rightarrow> nat list option" where
  "scan_from ops s d =
     (if d = TERMINATED then Some []
      else Option.bind (ds_advance ops s) (\<lambda>r.
           Option.bind (scan_from ops (fst r) (snd r)) (\<lambda>ds. Some (d # ds))))"

definition scan :: "'s docset \<Rightarrow> 's \<Rightarrow> nat list option" where
  "scan ops s = scan_from ops s (ds_doc ops s)"

context doc_set
begin

lemma scan_docs: "inv s \<Longrightarrow> scan ops s = Some (docs s)"
proof -
  have "scan_from ops s (first_doc (docs s)) = Some (docs s)" if "inv s" for s
    using that
  proof (induction "length (docs s)" arbitrary: s rule: less_induct)
    case less
    show ?case
    proof (cases "docs s")
      case Nil
      then show ?thesis by (subst scan_from.simps) simp
    next
      case (Cons d ds)
      obtain s' where s': "ds_advance ops s = Some (s', first_doc (docs s'))" "inv s'" "docs s' = ds"
        using advance [OF less.prems] Cons by auto
      have "scan_from ops s' (first_doc (docs s')) = Some (docs s')"
        using less.hyps [OF _ s'(2)] s'(3) Cons by simp
      moreover have "d < TERMINATED" using ok [OF less.prems] Cons by simp
      ultimately show ?thesis using Cons s' by (subst scan_from.simps) simp
    qed
  qed
  then show "inv s \<Longrightarrow> scan ops s = Some (docs s)" using doc by (simp add: scan_def)
qed

end

subsection \<open>A doc set filtered by a check\<close>

text \<open>The loop the wrappers share: from a document the inner set stands on, go on until it is
  exhausted or the check admits the document. A check that panics (\<open>None\<close>) ends it with \<open>None\<close>.\<close>

partial_function (option) settle ::
  "'s docset \<Rightarrow> (nat \<Rightarrow> 'c \<Rightarrow> ('c \<times> bool) option) \<Rightarrow> 's \<Rightarrow> 'c \<Rightarrow> nat \<Rightarrow> (('s \<times> 'c) \<times> nat) option" where
  "settle ops chk s c d =
     (if d = TERMINATED then Some ((s, c), d)
      else Option.bind (chk d c) (\<lambda>(c', admit).
        if admit then Some ((s, c'), d)
        else Option.bind (ds_advance ops s) (\<lambda>r. settle ops chk (fst r) c' (snd r))))"

definition checked_new :: "'s docset \<Rightarrow> (nat \<Rightarrow> 'c \<Rightarrow> ('c \<times> bool) option) \<Rightarrow> 's \<Rightarrow> 'c \<Rightarrow> ('s \<times> 'c) option" where
  "checked_new ops chk s c = map_option fst (settle ops chk s c (ds_doc ops s))"

definition checked_advance ::
  "'s docset \<Rightarrow> (nat \<Rightarrow> 'c \<Rightarrow> ('c \<times> bool) option) \<Rightarrow> 's \<times> 'c \<Rightarrow> (('s \<times> 'c) \<times> nat) option" where
  "checked_advance ops chk sc =
     Option.bind (ds_advance ops (fst sc)) (\<lambda>r. settle ops chk (fst r) (snd sc) (snd r))"

definition checked_seek ::
  "'s docset \<Rightarrow> (nat \<Rightarrow> 'c \<Rightarrow> ('c \<times> bool) option) \<Rightarrow> nat \<Rightarrow> 's \<times> 'c \<Rightarrow> (('s \<times> 'c) \<times> nat) option" where
  "checked_seek ops chk target sc =
     (if target \<le> ds_doc ops (fst sc) then Some (sc, ds_doc ops (fst sc))
      else Option.bind (ds_seek ops target (fst sc)) (\<lambda>r. settle ops chk (fst r) (snd sc) (snd r)))"

definition checked_set :: "'s docset \<Rightarrow> (nat \<Rightarrow> 'c \<Rightarrow> ('c \<times> bool) option) \<Rightarrow> ('s \<times> 'c) docset" where
  "checked_set ops chk =
     \<lparr>ds_doc = \<lambda>sc. ds_doc ops (fst sc), ds_advance = checked_advance ops chk,
      ds_seek = checked_seek ops chk, ds_size_hint = \<lambda>sc. ds_size_hint ops (fst sc)\<rparr>"

text \<open>A check that answers \<open>P\<close> and does not panic as long as it is asked about ascending documents: \<open>at c\<close> is
  the last document its state has passed.\<close>

locale checked = doc_set ops inv docs
  for ops :: "'s docset" and inv docs +
  fixes chk :: "nat \<Rightarrow> 'c \<Rightarrow> ('c \<times> bool) option" and cinv :: "nat \<Rightarrow> 'c \<Rightarrow> bool" and P :: "nat \<Rightarrow> bool"
  assumes chk: "cinv lo c \<Longrightarrow> lo \<le> d \<Longrightarrow> d < TERMINATED \<Longrightarrow> \<exists>c'. chk d c = Some (c', P d) \<and> cinv (d + 1) c'"
    and mono: "cinv lo c \<Longrightarrow> lo \<le> hi \<Longrightarrow> cinv hi c"
begin

definition checked_inv :: "'s \<times> 'c \<Rightarrow> bool" where
  "checked_inv sc \<longleftrightarrow> inv (fst sc) \<and> (docs (fst sc) = [] \<or> P (hd (docs (fst sc))) \<and>
     cinv (hd (docs (fst sc)) + 1) (snd sc))"

definition checked_docs :: "'s \<times> 'c \<Rightarrow> nat list" where
  "checked_docs sc = filter P (docs (fst sc))"

lemma settle_spec:
  assumes "inv s" "docs s = [] \<or> cinv (hd (docs s)) c"
  shows "\<exists>s' c'. settle ops chk s c (first_doc (docs s)) = Some ((s', c'), first_doc (filter P (docs s)))
     \<and> checked_inv (s', c') \<and> filter P (docs s') = filter P (docs s)"
  using assms
proof (induction "length (docs s)" arbitrary: s c rule: less_induct)
  case less
  show ?case
  proof (cases "docs s")
    case Nil
    then show ?thesis using less.prems by (subst settle.simps) (auto simp: checked_inv_def)
  next
    case (Cons d ds)
    have lt: "d < TERMINATED" "\<forall>e\<in>set ds. d < e" using ok [OF less.prems(1)] Cons by auto
    have c: "cinv d c" using less.prems(2) Cons by simp
    obtain c' where ck: "chk d c = Some (c', P d)" "cinv (d + 1) c'" using chk [OF c order_refl lt(1)] by blast
    show ?thesis
    proof (cases "P d")
      case True
      with Cons lt ck less.prems(1) show ?thesis
        by (subst settle.simps) (auto simp: checked_inv_def)
    next
      case False
      obtain s' where s': "ds_advance ops s = Some (s', first_doc (docs s'))" "inv s'" "docs s' = ds"
        using advance [OF less.prems(1)] Cons by auto
      have "docs s' = [] \<or> cinv (hd (docs s')) c'"
        using ck mono [of "d + 1" c'] s'(3) lt(2) by (cases ds) (auto simp: Suc_le_eq)
      from less.hyps [OF _ s'(2) this] s'(3) Cons False ck lt s'(1) show ?thesis
        by (subst settle.simps) auto
    qed
  qed
qed

lemma checked_new_spec:
  assumes "inv s" "cinv 0 c"
  shows "\<exists>sc. checked_new ops chk s c = Some sc \<and> checked_inv sc \<and> checked_docs sc = filter P (docs s)"
proof -
  have "docs s = [] \<or> cinv (hd (docs s)) c" using mono [OF assms(2)] by simp
  from settle_spec [OF assms(1) this] show ?thesis
    using doc [OF assms(1)] by (auto simp: checked_new_def checked_docs_def)
qed

lemma checked_head:
  assumes "checked_inv sc"
  shows "first_doc (checked_docs sc) = first_doc (docs (fst sc))"
  using assms by (cases "docs (fst sc)") (auto simp: checked_inv_def checked_docs_def)

end

sublocale checked \<subseteq> filtered: doc_set "checked_set ops chk" checked_inv checked_docs
proof
  fix sc
  assume i: "checked_inv sc"
  then have si: "inv (fst sc)" by (simp add: checked_inv_def)
  show "docs_ok (checked_docs sc)" using ok [OF si] by (simp add: checked_docs_def docs_ok_filter)
  show "ds_doc (checked_set ops chk) sc = first_doc (checked_docs sc)"
    using doc [OF si] checked_head [OF i] by (simp add: checked_set_def)
  obtain s c where sc: "sc = (s, c)" by fastforce
  show "\<exists>sc'. ds_advance (checked_set ops chk) sc = Some (sc', first_doc (tl (checked_docs sc)))
      \<and> checked_inv sc' \<and> checked_docs sc' = tl (checked_docs sc)"
  proof -
    obtain s' where s': "ds_advance ops s = Some (s', first_doc (docs s'))" "inv s'" "docs s' = tl (docs s)"
      using advance [of s] si sc by auto
    have "docs s' = [] \<or> cinv (hd (docs s')) c"
    proof (cases "docs s")
      case (Cons d ds)
      have "\<forall>e\<in>set ds. d < e" using ok [OF si] sc Cons by simp
      with i sc Cons s'(3) mono [of "d + 1" c] show ?thesis
        by (cases ds) (auto simp: checked_inv_def Suc_le_eq)
    qed (use s'(3) in simp)
    moreover have "filter P (tl (docs s)) = tl (filter P (docs s))"
      using i sc by (cases "docs s") (auto simp: checked_inv_def)
    ultimately show ?thesis
      using settle_spec [OF s'(2), of c] s' sc
      by (auto simp: checked_set_def checked_advance_def checked_docs_def)
  qed
  fix t
  assume t: "first_doc (checked_docs sc) \<le> t" "t \<le> TERMINATED"
  then have ft: "first_doc (docs s) \<le> t" using checked_head [OF i] sc by simp
  show "\<exists>sc'. ds_seek (checked_set ops chk) t sc = Some (sc', first_doc (docs_from t (checked_docs sc)))
      \<and> checked_inv sc' \<and> checked_docs sc' = docs_from t (checked_docs sc)"
  proof (cases "t \<le> ds_doc ops s")
    case True
    then have eq: "first_doc (docs s) = t" using ft doc [of s] si sc by simp
    then have "docs_from t (checked_docs sc) = checked_docs sc"
      using docs_from_first [of "checked_docs sc" t] checked_head [OF i] sc ok [OF si]
      by (simp add: checked_docs_def docs_ok_filter)
    with True i sc eq checked_head [OF i] doc [OF si] show ?thesis
      by (simp add: checked_set_def checked_seek_def)
  next
    case False
    obtain s' where s': "ds_seek ops t s = Some (s', first_doc (docs s'))" "inv s'"
      "docs s' = docs_from t (docs s)"
      using seek [of s t] ft t(2) si sc by auto
    have lt: "first_doc (docs s) < t" using False doc [of s] si sc by simp
    have "docs s' = [] \<or> cinv (hd (docs s')) c"
    proof (cases "docs s")
      case (Cons d ds)
      have le: "d + 1 \<le> hd (docs s')" if ne: "docs s' \<noteq> []"
      proof -
        obtain e es where e: "docs s' = e # es" using ne by (metis neq_Nil_conv)
        then have "docs_from t (docs s) = e # es" using s'(3) by argo
        then have "\<not> e < t" by (rule dropWhile_head)
        then show ?thesis using lt Cons e by simp
      qed
      have "cinv (d + 1) c" using i sc Cons by (simp add: checked_inv_def)
      then show ?thesis using mono le by blast
    qed (use s'(3) in simp)
    moreover have "filter P (docs_from t (docs s)) = docs_from t (filter P (docs s))"
      using ok [OF si] sc by (simp add: docs_from_eq_filter docs_ok_filter conj_commute)
    ultimately show ?thesis
      using settle_spec [OF s'(2), of c] s' sc False
      by (auto simp: checked_set_def checked_seek_def checked_docs_def)
  qed
qed

context checked
begin

lemma checked_doc_set: "doc_set (checked_set ops chk) checked_inv checked_docs"
  by (rule filtered.doc_set_axioms)

text \<open>A fresh wrapper, scanned to its end, yields the admitted documents.\<close>

lemma scan_new:
  assumes "inv s" "cinv 0 c"
  shows "Option.bind (checked_new ops chk s c) (scan (checked_set ops chk)) = Some (filter P (docs s))"
  using checked_new_spec [OF assms] filtered.scan_docs by auto

end

end
