(* ===== verification/IdLookup.thy ===== *)
theory IdLookup
  imports DocSets "HOL-Library.Product_Lexorder"
begin

section \<open>Documents found by ident\<close>

text \<open>
  \<^verbatim>\<open>id_lookup.rs\<close>: the \<^verbatim>\<open>id\<close> column of a segment as runs of consecutive ids on
  consecutive documents (\<open>read\<close>), the binary search over the runs (\<open>docs_of_id\<close>), the
  per-segment cache of the runs, and the queries built on them. A segment is its id column
  (\<^verbatim>\<open>None\<close> where a document has no id), its segment id and its deleted documents; it never
  changes. The theory proves that the lookup returns exactly the documents holding an id below
  \<^verbatim>\<open>u64::MAX\<close>, whatever the cache holds.
\<close>

subsection \<open>The model\<close>

record segment =
  segment_id :: nat
  id_column :: "nat option list"
  is_deleted :: "nat \<Rightarrow> bool"

abbreviation max_doc :: "segment \<Rightarrow> nat" where
  "max_doc r \<equiv> length (id_column r)"

definition first_id :: "segment \<Rightarrow> nat \<Rightarrow> nat option" where
  "first_id r doc = (if doc < max_doc r then id_column r ! doc else None)"

definition neighbour :: "segment \<Rightarrow> nat \<Rightarrow> nat \<Rightarrow> nat option" where
  "neighbour r doc ident =
     find (\<lambda>candidate. first_id r candidate = Some ident \<and> \<not> is_deleted r candidate)
       (filter (\<lambda>candidate. candidate < max_doc r)
          (List.map_filter (\<lambda>c. c) [checked_add u32_max doc 1, checked_sub doc 1, Some doc]))"

type_synonym run = "nat \<times> nat \<times> nat"

record id_runs =
  runs :: "run list"
  max_end :: "nat list"

definition CHUNK :: nat where
  "CHUNK = 4096"

definition push_run :: "run list \<Rightarrow> nat \<times> nat option \<Rightarrow> run list" where
  "push_run rs dv =
     (case dv of
        (doc, None) \<Rightarrow> rs
      | (doc, Some ident) \<Rightarrow>
          if rs \<noteq> [] \<and> (case last rs of (first, start, len) \<Rightarrow>
               start + len = doc \<and> checked_add u64_max first len = Some ident)
          then butlast rs @ [case last rs of (first, start, len) \<Rightarrow> (first, start, len + 1)]
          else rs @ [(ident, doc, 1)])"

text \<open>One chunk of documents: \<^verbatim>\<open>(0..max_doc).step_by(CHUNK)\<close> and the loop in it.\<close>

definition chunk_docs :: "nat \<Rightarrow> nat \<Rightarrow> nat list" where
  "chunk_docs n chunk_start = [chunk_start ..< min (chunk_start + CHUNK) n]"

definition chunk_starts :: "nat \<Rightarrow> nat list" where
  "chunk_starts n = map (\<lambda>k. k * CHUNK) [0 ..< (n + CHUNK - 1) div CHUNK]"

definition read_chunk :: "segment \<Rightarrow> run list \<Rightarrow> nat \<Rightarrow> run list" where
  "read_chunk r rs chunk_start =
     (let docs = chunk_docs (max_doc r) chunk_start
      in foldl push_run rs (zip docs (map (first_id r) docs)))"

fun max_ends :: "nat \<Rightarrow> run list \<Rightarrow> nat list" where
  "max_ends hi [] = []"
| "max_ends hi ((first, start, len) # rs) =
     (let hi' = max hi (saturating_add u64_max first len) in hi' # max_ends hi' rs)"

definition read :: "segment \<Rightarrow> id_runs" where
  "read r =
     (let rs = sort (foldl (read_chunk r) [] (chunk_starts (max_doc r)))
      in \<lparr>runs = rs, max_end = max_ends 0 rs\<rparr>)"

fun docs_loop :: "id_runs \<Rightarrow> nat \<Rightarrow> nat \<Rightarrow> nat list" where
  "docs_loop r ident i =
     (if i = 0 \<or> max_end r ! (i - 1) \<le> ident then []
      else (case runs r ! (i - 1) of (first, start, len) \<Rightarrow>
              (if ident - first < len then [start + (ident - first)] else []) @ docs_loop r ident (i - 1)))"

declare docs_loop.simps [simp del]

definition docs_of_id :: "id_runs \<Rightarrow> nat \<Rightarrow> nat list" where
  "docs_of_id r ident = docs_loop r ident (partition_point (\<lambda>(first, _, _). first \<le> ident) (runs r))"

text \<open>The cache: \<^verbatim>\<open>RUNS\<close>, a map from segment ids.\<close>

type_synonym runs_cache = "(nat \<times> id_runs) list"

definition RUNS_CACHED_SEGMENTS :: nat where
  "RUNS_CACHED_SEGMENTS = 256"

definition runs_of :: "runs_cache \<Rightarrow> segment \<Rightarrow> runs_cache \<times> id_runs" where
  "runs_of cache r =
     (case map_of cache (segment_id r) of
        Some rs \<Rightarrow> (cache, rs)
      | None \<Rightarrow>
          (let rs = read r;
               cache = (if RUNS_CACHED_SEGMENTS \<le> length cache then [] else cache)
           in ((segment_id r, rs) # cache, rs)))"

definition docs_with_ids :: "runs_cache \<Rightarrow> segment \<Rightarrow> nat list \<Rightarrow> runs_cache \<times> nat list" where
  "docs_with_ids cache r ids =
     (if ids = [] then (cache, [])
      else (let (cache, rs) = runs_of cache r;
                docs = concat (map (docs_of_id rs) ids)
            in (cache, sort_dedup (filter (\<lambda>doc. \<not> is_deleted r doc) docs))))"

text \<open>\<^verbatim>\<open>find_ids\<close>: the first place of every id; the loop stops when every id is found.\<close>

type_synonym places = "(nat \<times> nat \<times> nat) list"

definition or_insert :: "places \<Rightarrow> nat \<Rightarrow> nat \<times> nat \<Rightarrow> places" where
  "or_insert found ident place = (if map_of found ident = None then (ident, place) # found else found)"

definition note_doc :: "segment \<Rightarrow> nat \<Rightarrow> places \<Rightarrow> nat \<Rightarrow> places" where
  "note_doc r ordinal found doc =
     (case first_id r doc of None \<Rightarrow> found | Some ident \<Rightarrow> or_insert found ident (ordinal, doc))"

fun find_loop ::
  "nat list \<Rightarrow> runs_cache \<Rightarrow> places \<Rightarrow> nat \<Rightarrow> segment list \<Rightarrow> runs_cache \<times> places" where
  "find_loop ids cache found ordinal [] = (cache, found)"
| "find_loop ids cache found ordinal (r # rs) =
     (if length found = length ids then (cache, found)
      else (let (cache, docs) = docs_with_ids cache r ids
            in find_loop ids cache (foldl (note_doc r ordinal) found docs) (ordinal + 1) rs))"

definition find_ids :: "runs_cache \<Rightarrow> segment list \<Rightarrow> nat list \<Rightarrow> runs_cache \<times> places" where
  "find_ids cache readers ids = find_loop (sort_dedup ids) cache [] 0 readers"

text \<open>\<^verbatim>\<open>Docs\<close>: ascending documents as a doc set; it inherits \<^verbatim>\<open>seek\<close> from the trait.\<close>

record docs_cursor =
  cursor_docs :: "nat list"
  cursor :: nat

definition docs_doc :: "docs_cursor \<Rightarrow> nat" where
  "docs_doc s = (if cursor s < length (cursor_docs s) then cursor_docs s ! cursor s else TERMINATED)"

definition docs_advance :: "docs_cursor \<Rightarrow> docs_cursor \<times> nat" where
  "docs_advance s =
     (let s' = s\<lparr>cursor := min (cursor s + 1) (length (cursor_docs s))\<rparr> in (s', docs_doc s'))"

definition docs_set :: "(nat \<Rightarrow> docs_cursor \<Rightarrow> (docs_cursor \<times> nat) option) \<Rightarrow> docs_cursor docset" where
  "docs_set inherited_seek =
     \<lparr>ds_doc = docs_doc, ds_advance = \<lambda>s. Some (docs_advance s), ds_seek = inherited_seek,
      ds_size_hint = \<lambda>s. length (cursor_docs s)\<rparr>"

text \<open>\<^verbatim>\<open>IdSetQuery\<close>: its scorer and its \<^verbatim>\<open>explain\<close>.\<close>

definition id_set_new :: "nat list \<Rightarrow> nat list" where
  "id_set_new ids = sort_dedup ids"

definition id_set_scorer :: "runs_cache \<Rightarrow> segment \<Rightarrow> nat list \<Rightarrow> runs_cache \<times> docs_cursor" where
  "id_set_scorer cache r ids =
     (let (cache, docs) = docs_with_ids cache r ids in (cache, \<lparr>cursor_docs = docs, cursor = 0\<rparr>))"

definition id_set_explain :: "runs_cache \<Rightarrow> segment \<Rightarrow> nat list \<Rightarrow> nat \<Rightarrow> runs_cache \<times> bool" where
  "id_set_explain cache r ids doc =
     (let (cache, docs) = docs_with_ids cache r ids in (cache, doc \<in> set docs))"

subsection \<open>The runs cover the column\<close>

definition run_pairs :: "run \<Rightarrow> (nat \<times> nat) set" where
  "run_pairs x = (case x of (first, start, len) \<Rightarrow> {(start + i, first + i) |i. i < len})"

definition covered :: "run list \<Rightarrow> (nat \<times> nat) set" where
  "covered rs = (\<Union>x\<in>set rs. run_pairs x)"

definition run_ok :: "run \<Rightarrow> bool" where
  "run_ok x \<longleftrightarrow> (case x of (first, start, len) \<Rightarrow> first + len \<le> u64_max + 1)"

lemma run_pairs_extend: "run_pairs (f, s, Suc l) = insert (s + l, f + l) (run_pairs (f, s, l))"
  unfolding run_pairs_def by (auto simp: less_Suc_eq)

lemma run_pairs_one: "run_pairs (f, s, Suc 0) = {(s, f)}"
  by (auto simp: run_pairs_def)

lemma covered_simps [simp]: "covered [] = {}" "covered (x # rs) = run_pairs x \<union> covered rs"
  "covered (rs @ ts) = covered rs \<union> covered ts"
  by (auto simp: covered_def)

lemma push_run_spec:
  assumes "\<forall>x\<in>set rs. run_ok x" "\<forall>ident. v = Some ident \<longrightarrow> ident \<le> u64_max"
  shows "covered (push_run rs (d, v)) = covered rs \<union> {(d, ident) |ident. v = Some ident}
    \<and> (\<forall>x\<in>set (push_run rs (d, v)). run_ok x)"
proof (cases v)
  case None
  with assms show ?thesis by (simp add: push_run_def)
next
  case (Some ident)
  show ?thesis
  proof (cases "rs = []")
    case True
    with Some assms show ?thesis by (simp add: push_run_def run_pairs_one run_ok_def)
  next
    case False
    obtain f s l where last: "last rs = (f, s, l)" by (cases "last rs")
    have rs: "rs = butlast rs @ [(f, s, l)]" using False last by (metis append_butlast_last_id)
    have cov: "covered rs = covered (butlast rs) \<union> run_pairs (f, s, l)"
      by (subst rs) (simp add: Un_commute)
    have sub: "set (butlast rs) \<subseteq> set rs" by (auto dest: in_set_butlastD)
    show ?thesis
    proof (cases "s + l = d \<and> checked_add u64_max f l = Some ident")
      case True
      then have "push_run rs (d, v) = butlast rs @ [(f, s, Suc l)]"
        using Some False last by (simp add: push_run_def)
      then show ?thesis using True Some cov assms sub
        by (auto simp: run_pairs_extend run_ok_def)
    next
      case F: False
      then have "push_run rs (d, v) = rs @ [(ident, d, 1)]"
        using Some False last by (auto simp: push_run_def)
      then show ?thesis using Some assms by (auto simp: run_pairs_one run_ok_def)
    qed
  qed
qed

lemma foldl_push_run:
  assumes "\<forall>d\<in>set ds. \<forall>ident. g d = Some ident \<longrightarrow> ident \<le> u64_max" "\<forall>x\<in>set rs. run_ok x"
  shows "covered (foldl push_run rs (zip ds (map g ds))) = covered rs \<union> {(d, ident). d \<in> set ds \<and> g d = Some ident}
    \<and> (\<forall>x\<in>set (foldl push_run rs (zip ds (map g ds))). run_ok x)"
  using assms
proof (induction ds arbitrary: rs)
  case (Cons d ds)
  have "\<forall>i. g d = Some i \<longrightarrow> i \<le> u64_max" using Cons.prems(1) by simp
  from push_run_spec [OF Cons.prems(2) this, of d]
  have one: "covered (push_run rs (d, g d)) = covered rs \<union> {(d, i) |i. g d = Some i}"
    "\<forall>x\<in>set (push_run rs (d, g d)). run_ok x" by blast+
  have "\<forall>d\<in>set ds. \<forall>ident. g d = Some ident \<longrightarrow> ident \<le> u64_max" using Cons.prems(1) by simp
  note ih = Cons.IH [OF this one(2)]
  have "{(e, i). e \<in> set (d # ds) \<and> g e = Some i}
      = {(d, i) |i. g d = Some i} \<union> {(e, i). e \<in> set ds \<and> g e = Some i}" by auto
  with ih one(1) show ?case by (simp only: list.map zip_Cons_Cons foldl_Cons Un_assoc) simp
qed simp

lemma foldl_foldl: "foldl (\<lambda>a x. foldl f a (g x)) b xs = foldl f b (concat (map g xs))"
  by (induction xs arbitrary: b) auto

lemma chunks_concat:
  "concat (map (\<lambda>k. [k * c ..< min (k * c + c) n]) [0 ..< m]) = [0 ..< min (m * c) n]"
proof (induction m)
  case (Suc m)
  have "[0 ..< min (m * c) n] @ [m * c ..< min (m * c + c) n] = [0 ..< min (m * c + c) n]"
  proof (cases "m * c \<le> n")
    case True
    then have "min (m * c) n = m * c" "m * c \<le> min (m * c + c) n" by auto
    then show ?thesis using upt_add_eq_append [of 0 "m * c" "min (m * c + c) n - m * c"] by simp
  next
    case False
    then show ?thesis by (simp add: min_def)
  qed
  with Suc show ?case by (simp add: add.commute)
qed simp

lemma chunk_docs_all: "concat (map (chunk_docs n) (chunk_starts n)) = [0 ..< n]"
proof -
  let ?m = "(n + CHUNK - 1) div CHUNK"
  have "n \<le> ?m * CHUNK"
  proof -
    have "n + CHUNK - 1 < (?m + 1) * CHUNK"
      using dividend_less_times_div [of CHUNK "n + CHUNK - 1"] by (simp add: CHUNK_def algebra_simps)
    then show ?thesis by (simp add: CHUNK_def)
  qed
  then have "min (?m * CHUNK) n = n" by simp
  then show ?thesis
    using chunks_concat [where c = CHUNK and n = n and m = ?m]
    by (simp add: chunk_docs_def [abs_def] chunk_starts_def comp_def)
qed

definition segment_ok :: "segment \<Rightarrow> bool" where
  "segment_ok r \<longleftrightarrow> max_doc r \<le> TERMINATED \<and> (\<forall>d ident. first_id r d = Some ident \<longrightarrow> ident \<le> u64_max)"

lemma read_covers:
  assumes "segment_ok r"
  shows "covered (runs (read r)) = {(d, ident). first_id r d = Some ident} \<and> (\<forall>x\<in>set (runs (read r)). run_ok x)"
proof -
  let ?docs = "[0 ..< max_doc r]"
  have z: "zip ds (map g ds) = map (\<lambda>d. (d, g d)) ds" for ds :: "nat list" and g :: "nat \<Rightarrow> nat option"
    by (induction ds) auto
  have "foldl (read_chunk r) [] (chunk_starts (max_doc r)) = foldl push_run [] (zip ?docs (map (first_id r) ?docs))"
  proof -
    have "foldl (read_chunk r) [] (chunk_starts (max_doc r))
        = foldl push_run [] (concat (map (\<lambda>s. map (\<lambda>d. (d, first_id r d)) (chunk_docs (max_doc r) s))
            (chunk_starts (max_doc r))))"
      unfolding read_chunk_def [abs_def] Let_def z by (rule foldl_foldl)
    also have "concat (map (\<lambda>s. map (\<lambda>d. (d, first_id r d)) (chunk_docs (max_doc r) s)) (chunk_starts (max_doc r)))
        = map (\<lambda>d. (d, first_id r d)) (concat (map (chunk_docs (max_doc r)) (chunk_starts (max_doc r))))"
      by (simp add: map_concat comp_def)
    finally show ?thesis by (simp add: chunk_docs_all z)
  qed
  moreover have "covered (foldl push_run [] (zip ?docs (map (first_id r) ?docs)))
      = covered [] \<union> {(d, ident). d \<in> set ?docs \<and> first_id r d = Some ident}
    \<and> (\<forall>x\<in>set (foldl push_run [] (zip ?docs (map (first_id r) ?docs))). run_ok x)"
    using assms by (intro foldl_push_run) (auto simp: segment_ok_def)
  ultimately have "covered (runs (read r)) = {(d, ident). d < max_doc r \<and> first_id r d = Some ident}
      \<and> (\<forall>x\<in>set (runs (read r)). run_ok x)"
    by (simp add: read_def Let_def covered_def)
  then show ?thesis by (auto simp: first_id_def split: if_splits)
qed

subsection \<open>The search over the runs\<close>

abbreviation run_first :: "run \<Rightarrow> nat" where
  "run_first x \<equiv> fst x"

definition run_end :: "run \<Rightarrow> nat" where
  "run_end x = saturating_add u64_max (fst x) (snd (snd x))"

lemma length_max_ends [simp]: "length (max_ends hi rs) = length rs"
  by (induction hi rs rule: max_ends.induct) (auto simp: Let_def)

lemma max_ends_bound:
  "i < length rs \<Longrightarrow> hi \<le> max_ends hi rs ! i \<and> (\<forall>j\<le>i. run_end (rs ! j) \<le> max_ends hi rs ! i)"
proof (induction hi rs arbitrary: i rule: max_ends.induct)
  case (2 hi f s l rs)
  let ?hi = "max hi (saturating_add u64_max f l)"
  show ?case
  proof (cases i)
    case 0
    then show ?thesis by (simp add: Let_def run_end_def)
  next
    case (Suc k)
    from 2 Suc have ih: "?hi \<le> max_ends ?hi rs ! k" "\<forall>j\<le>k. run_end (rs ! j) \<le> max_ends ?hi rs ! k"
      by (auto simp: Let_def)
    have "run_end (((f, s, l) # rs) ! j) \<le> max_ends ?hi rs ! k" if "j \<le> i" for j
      using that ih Suc by (cases j) (auto simp: run_end_def)
    with Suc ih show ?thesis by (simp add: Let_def)
  qed
qed simp

lemma sorted_runs_first:
  assumes "sorted rs" "i \<le> j" "j < length rs"
  shows "run_first (rs ! i) \<le> run_first (rs ! j)"
proof -
  have "rs ! i \<le> rs ! j" using assms by (simp add: sorted_nth_mono)
  then show ?thesis by (auto simp: less_eq_prod_def)
qed

lemma partition_point_sorted:
  assumes "sorted rs"
  shows "partition_point (\<lambda>(first, _, _). first \<le> k) rs \<le> length rs"
    "i < partition_point (\<lambda>(first, _, _). first \<le> k) rs \<Longrightarrow> run_first (rs ! i) \<le> k"
    "partition_point (\<lambda>(first, _, _). first \<le> k) rs \<le> i \<Longrightarrow> i < length rs \<Longrightarrow> k < run_first (rs ! i)"
proof -
  let ?P = "\<lambda>(first, _, _). first \<le> k"
  have P: "?P x \<longleftrightarrow> fst x \<le> k" for x :: run by (cases x) simp
  show "partition_point ?P rs \<le> length rs"
    by (simp add: partition_point_def length_takeWhile_le)
  show "run_first (rs ! i) \<le> k" if "i < partition_point ?P rs"
  proof -
    have "?P (takeWhile ?P rs ! i)"
      using that nth_mem set_takeWhileD unfolding partition_point_def by metis
    then show ?thesis using that P by (simp add: partition_point_def takeWhile_nth)
  qed
  show "k < run_first (rs ! i)" if "partition_point ?P rs \<le> i" "i < length rs"
  proof -
    let ?n = "partition_point ?P rs"
    have "\<not> ?P (rs ! ?n)"
      using that nth_length_takeWhile [of ?P rs] by (simp add: partition_point_def)
    then have "k < run_first (rs ! ?n)" using P by simp
    also have "\<dots> \<le> run_first (rs ! i)" using sorted_runs_first [OF assms] that by blast
    finally show ?thesis .
  qed
qed

lemma run_pairs_iff:
  "(d, k) \<in> run_pairs (f, s, l) \<longleftrightarrow> f \<le> k \<and> k - f < l \<and> d = s + (k - f)"
proof
  show "(d, k) \<in> run_pairs (f, s, l) \<Longrightarrow> f \<le> k \<and> k - f < l \<and> d = s + (k - f)"
    by (auto simp: run_pairs_def)
next
  assume "f \<le> k \<and> k - f < l \<and> d = s + (k - f)"
  then have "d = s + (k - f) \<and> k = f + (k - f) \<and> k - f < l" by simp
  then show "(d, k) \<in> run_pairs (f, s, l)" unfolding run_pairs_def by blast
qed

lemma docs_loop_spec:
  assumes "sorted (runs r)" "max_end r = max_ends 0 (runs r)" "\<forall>x\<in>set (runs r). run_ok x" "k < u64_max"
  shows "i \<le> length (runs r) \<Longrightarrow> \<forall>j<i. run_first (runs r ! j) \<le> k \<Longrightarrow>
     set (docs_loop r k i) = {d. \<exists>j<i. (d, k) \<in> run_pairs (runs r ! j)}"
proof (induction i)
  case 0
  then show ?case by (simp add: docs_loop.simps)
next
  case (Suc i)
  obtain f s l where x: "runs r ! i = (f, s, l)" by (cases "runs r ! i")
  show ?case
  proof (cases "max_end r ! i \<le> k")
    case True
    have "(d, k) \<notin> run_pairs (runs r ! j)" if "j \<le> i" for j d
    proof
      assume in_run: "(d, k) \<in> run_pairs (runs r ! j)"
      obtain f s l where y: "runs r ! j = (f, s, l)" by (cases "runs r ! j")
      have "run_end (runs r ! j) \<le> k"
        using max_ends_bound [of i "runs r" 0] assms(2) True Suc.prems(1) that by fastforce
      then have "min u64_max (f + l) \<le> k" using y by (simp add: run_end_def saturating_add_def)
      moreover have "f \<le> k \<and> k - f < l" using in_run y run_pairs_iff by simp
      ultimately show False using assms(4) by (auto simp: min_def split: if_splits)
    qed
    then show ?thesis using True by (subst docs_loop.simps) (auto simp: less_Suc_eq_le)
  next
    case False
    have "f \<le> k" using Suc.prems(2) x by force
    then have "set (if k - f < l then [s + (k - f)] else []) = {d. (d, k) \<in> run_pairs (runs r ! i)}"
      by (auto simp: run_pairs_iff x)
    moreover have "{d. \<exists>j<Suc i. (d, k) \<in> run_pairs (runs r ! j)}
        = {d. (d, k) \<in> run_pairs (runs r ! i)} \<union> {d. \<exists>j<i. (d, k) \<in> run_pairs (runs r ! j)}"
      by (auto simp: less_Suc_eq)
    ultimately show ?thesis
      using Suc False x by (subst docs_loop.simps) (simp add: Let_def)
  qed
qed

lemma docs_of_id_spec:
  assumes "segment_ok r" "k < u64_max"
  shows "set (docs_of_id (read r) k) = {d. first_id r d = Some k}"
proof -
  let ?rs = "runs (read r)"
  have s: "sorted ?rs" and m: "max_end (read r) = max_ends 0 ?rs" by (simp_all add: read_def Let_def)
  let ?n = "partition_point (\<lambda>(first, _, _). first \<le> k) ?rs"
  have le: "?n \<le> length ?rs" by (rule partition_point_sorted(1) [OF s])
  have below: "\<forall>j<?n. run_first (?rs ! j) \<le> k" using partition_point_sorted(2) [OF s] by blast
  have "set (docs_of_id (read r) k) = {d. \<exists>j<?n. (d, k) \<in> run_pairs (?rs ! j)}"
    unfolding docs_of_id_def
    using docs_loop_spec [OF s m _ assms(2) le below] read_covers [OF assms(1)] by blast
  also have "\<dots> = {d. (d, k) \<in> covered ?rs}"
  proof -
    have inside: "j < ?n" if "j < length ?rs" "(d, k) \<in> run_pairs (?rs ! j)" for j d
    proof (rule ccontr)
      assume "\<not> j < ?n"
      then have "k < run_first (?rs ! j)" using partition_point_sorted(3) [OF s] that(1) by simp
      moreover have "run_first (?rs ! j) \<le> k"
        using that(2) run_pairs_iff by (cases "?rs ! j") auto
      ultimately show False by simp
    qed
    have "(d, k) \<in> covered ?rs \<longleftrightarrow> (\<exists>j<length ?rs. (d, k) \<in> run_pairs (?rs ! j))" for d
      unfolding covered_def by (metis (no_types, lifting) UN_iff in_set_conv_nth)
    then show ?thesis using le inside by (metis (lifting) order_less_le_trans)
  qed
  also have "\<dots> = {d. first_id r d = Some k}" using read_covers [OF assms(1)] by simp
  finally show ?thesis .
qed

subsection \<open>The cache\<close>

text \<open>Segments never change: \<open>seg\<close> gives the segment of an id.\<close>

definition cache_ok :: "(nat \<Rightarrow> segment) \<Rightarrow> runs_cache \<Rightarrow> bool" where
  "cache_ok seg cache \<longleftrightarrow> length cache \<le> RUNS_CACHED_SEGMENTS \<and> distinct (map fst cache)
     \<and> (\<forall>(i, rs)\<in>set cache. rs = read (seg i))"

lemma runs_of_spec:
  assumes "cache_ok seg cache" "seg (segment_id r) = r"
  shows "snd (runs_of cache r) = read r \<and> cache_ok seg (fst (runs_of cache r))"
proof (cases "map_of cache (segment_id r)")
  case None
  then have "segment_id r \<notin> fst ` set cache" by (simp add: map_of_eq_None_iff)
  with None assms show ?thesis
    by (auto simp: runs_of_def Let_def cache_ok_def RUNS_CACHED_SEGMENTS_def)
next
  case (Some rs)
  then have "(segment_id r, rs) \<in> set cache" by (rule map_of_SomeD)
  with assms have "rs = read r" unfolding cache_ok_def by fastforce
  with Some assms show ?thesis by (simp add: runs_of_def)
qed

lemma docs_with_ids_spec:
  assumes "cache_ok seg cache" "seg (segment_id r) = r" "segment_ok r" "\<forall>k\<in>set ks. k < u64_max"
  shows "set (snd (docs_with_ids cache r ks)) = {d. \<not> is_deleted r d \<and> (\<exists>k\<in>set ks. first_id r d = Some k)}
    \<and> sorted_wrt (<) (snd (docs_with_ids cache r ks)) \<and> cache_ok seg (fst (docs_with_ids cache r ks))"
proof (cases "ks = []")
  case True
  then show ?thesis using assms(1) by (simp add: docs_with_ids_def)
next
  case False
  obtain cache' rs where c: "runs_of cache r = (cache', rs)" by fastforce
  with runs_of_spec [OF assms(1,2)] have "rs = read r" "cache_ok seg cache'" by auto
  with False c show ?thesis
    using docs_of_id_spec [OF assms(3)] assms(4) by (auto simp: docs_with_ids_def Let_def)
qed

subsection \<open>Finding ids in several segments\<close>

text \<open>The reference: the first segment with a live document of that id, and the first such
  document in it.\<close>

definition live_doc :: "segment \<Rightarrow> nat \<Rightarrow> nat option" where
  "live_doc r k = find (\<lambda>d. first_id r d = Some k \<and> \<not> is_deleted r d) [0 ..< max_doc r]"

fun place :: "nat \<Rightarrow> nat \<Rightarrow> segment list \<Rightarrow> (nat \<times> nat) option" where
  "place k ordinal [] = None"
| "place k ordinal (r # rs) =
     (case live_doc r k of Some d \<Rightarrow> Some (ordinal, d) | None \<Rightarrow> place k (ordinal + 1) rs)"

lemma sorted_wrt_less_unique:
  assumes "sorted_wrt (<) (xs :: nat list)" "sorted_wrt (<) ys" "set xs = set ys"
  shows "xs = ys"
  using assms by (simp add: strict_sorted_equal)

lemma find_filter: "find P (filter Q xs) = find (\<lambda>x. P x \<and> Q x) xs"
  by (induction xs) auto

lemma map_of_note_docs:
  "map_of (foldl (note_doc r o1) found docs) k =
     (case map_of found k of Some p \<Rightarrow> Some p
      | None \<Rightarrow> map_option (\<lambda>d. (o1, d)) (find (\<lambda>d. first_id r d = Some k) docs))"
proof (induction docs arbitrary: found)
  case Nil
  then show ?case by (simp split: option.split)
next
  case (Cons d docs)
  show ?case
    unfolding foldl_Cons Cons.IH
    by (auto simp: note_doc_def or_insert_def split: option.splits)
qed

lemma note_docs_keys:
  assumes "distinct (map fst found)" "fst ` set found \<subseteq> K"
    "\<forall>d\<in>set docs. \<exists>k\<in>K. first_id r d = Some k"
  shows "distinct (map fst (foldl (note_doc r o1) found docs))
    \<and> fst ` set (foldl (note_doc r o1) found docs) \<subseteq> K"
  using assms
proof (induction docs arbitrary: found)
  case (Cons d docs)
  obtain k where k: "k \<in> K" "first_id r d = Some k" using Cons.prems(3) by auto
  have "distinct (map fst (note_doc r o1 found d)) \<and> fst ` set (note_doc r o1 found d) \<subseteq> K"
    using Cons.prems k by (auto simp: note_doc_def or_insert_def map_of_eq_None_iff)
  with Cons show ?case by simp
qed simp

lemma live_docs_list:
  assumes "cache_ok seg cache" "seg (segment_id r) = r" "segment_ok r" "\<forall>k\<in>set ks. k < u64_max"
  shows "snd (docs_with_ids cache r ks) =
    filter (\<lambda>d. \<not> is_deleted r d \<and> (\<exists>k\<in>set ks. first_id r d = Some k)) [0 ..< max_doc r]"
proof (rule sorted_wrt_less_unique)
  note spec = docs_with_ids_spec [OF assms]
  show "sorted_wrt (<) (snd (docs_with_ids cache r ks))" using spec by blast
  show "sorted_wrt (<) (filter (\<lambda>d. \<not> is_deleted r d \<and> (\<exists>k\<in>set ks. first_id r d = Some k)) [0 ..< max_doc r])"
    by (simp add: sorted_wrt_filter)
  have "d < max_doc r" if "first_id r d = Some k" for d k
    using that by (auto simp: first_id_def split: if_splits)
  then show "set (snd (docs_with_ids cache r ks)) =
      set (filter (\<lambda>d. \<not> is_deleted r d \<and> (\<exists>k\<in>set ks. first_id r d = Some k)) [0 ..< max_doc r])"
    using spec by auto
qed

lemma find_cong_set: "(\<And>x. x \<in> set xs \<Longrightarrow> P x = Q x) \<Longrightarrow> find P xs = find Q xs"
  by (induction xs) auto

lemma find_loop_spec:
  assumes "\<forall>k\<in>set ks. k < u64_max" "distinct ks"
  shows "cache_ok seg cache \<Longrightarrow> \<forall>r\<in>set readers. seg (segment_id r) = r \<and> segment_ok r \<Longrightarrow>
     distinct (map fst found) \<Longrightarrow> fst ` set found \<subseteq> set ks \<Longrightarrow> k \<in> set ks \<Longrightarrow>
     cache_ok seg (fst (find_loop ks cache found n readers))
     \<and> map_of (snd (find_loop ks cache found n readers)) k =
         (case map_of found k of Some p \<Rightarrow> Some p | None \<Rightarrow> place k n readers)
     \<and> fst ` set (snd (find_loop ks cache found n readers)) \<subseteq> set ks"
proof (induction readers arbitrary: cache found n)
  case Nil
  then show ?case by (simp split: option.split)
next
  case (Cons r rs)
  show ?case
  proof (cases "length found = length ks")
    case True
    then have "card (fst ` set found) = card (set ks)"
      using Cons.prems(3) assms(2) by (simp add: distinct_card flip: set_map)
    then have "fst ` set found = set ks" using Cons.prems(4) by (simp add: card_subset_eq)
    then have "map_of found k \<noteq> None" using Cons.prems(5) by (simp add: map_of_eq_None_iff)
    with True Cons.prems show ?thesis by auto
  next
    case False
    obtain cache' docs where c: "docs_with_ids cache r ks = (cache', docs)" by fastforce
    have r: "seg (segment_id r) = r" "segment_ok r" using Cons.prems(2) by auto
    have docs: "docs = filter (\<lambda>d. \<not> is_deleted r d \<and> (\<exists>k\<in>set ks. first_id r d = Some k)) [0 ..< max_doc r]"
      using live_docs_list [OF Cons.prems(1) r assms(1)] c by simp
    have c': "cache_ok seg cache'" using docs_with_ids_spec [OF Cons.prems(1) r assms(1)] c by simp
    let ?found = "foldl (note_doc r n) found docs"
    have keys: "distinct (map fst ?found) \<and> fst ` set ?found \<subseteq> set ks"
      using Cons.prems(3,4) docs by (intro note_docs_keys) auto
    have "find (\<lambda>d. first_id r d = Some k) docs = live_doc r k"
      unfolding docs find_filter live_doc_def using Cons.prems(5) by (intro find_cong_set) auto
    then have "map_of ?found k = (case map_of found k of Some p \<Rightarrow> Some p
        | None \<Rightarrow> map_option (\<lambda>d. (n, d)) (live_doc r k))" by (simp add: map_of_note_docs split: option.split)
    with Cons.IH [OF c' _ conjunct1 [OF keys] conjunct2 [OF keys] Cons.prems(5), of "n + 1"]
      Cons.prems(2) False c
    show ?thesis by (auto split: option.splits)
  qed
qed

subsection \<open>Ascending documents as a doc set\<close>

definition cursor_inv :: "docs_cursor \<Rightarrow> bool" where
  "cursor_inv s \<longleftrightarrow> docs_ok (cursor_docs s) \<and> cursor s \<le> length (cursor_docs s)"

definition cursor_rest :: "docs_cursor \<Rightarrow> nat list" where
  "cursor_rest s = drop (cursor s) (cursor_docs s)"

text \<open>The trait's \<^verbatim>\<open>seek\<close> for such a cursor: go on until the target is reached.\<close>

definition walk_to :: "nat \<Rightarrow> docs_cursor \<Rightarrow> (docs_cursor \<times> nat) option" where
  "walk_to t s =
     (let s' = s\<lparr>cursor := cursor s + length (takeWhile (\<lambda>d. d < t) (cursor_rest s))\<rparr>
      in Some (s', docs_doc s'))"

lemma docs_doc_first: "cursor_inv s \<Longrightarrow> docs_doc s = first_doc (cursor_rest s)"
  by (auto simp: docs_doc_def cursor_inv_def cursor_rest_def first_doc_def hd_drop_conv_nth
      split: list.splits dest!: arg_cong [of _ "[]" length]) (metis hd_drop_conv_nth list.sel(1))

text \<open>What the code needs of the inherited method.\<close>

definition inherited_seek_ok :: "(nat \<Rightarrow> docs_cursor \<Rightarrow> (docs_cursor \<times> nat) option) \<Rightarrow> bool" where
  "inherited_seek_ok sk \<longleftrightarrow> (\<forall>t s. cursor_inv s \<longrightarrow> first_doc (cursor_rest s) \<le> t \<longrightarrow> t \<le> TERMINATED \<longrightarrow>
     (\<exists>s'. sk t s = Some (s', first_doc (docs_from t (cursor_rest s))) \<and> cursor_inv s'
        \<and> cursor_rest s' = docs_from t (cursor_rest s)))"

lemma walk_to_ok: "inherited_seek_ok walk_to"
  unfolding inherited_seek_ok_def
proof (intro allI impI)
  fix t s
  assume s: "cursor_inv s"
  let ?n = "length (takeWhile (\<lambda>d. d < t) (cursor_rest s))"
  let ?s = "s\<lparr>cursor := cursor s + ?n\<rparr>"
  have "?n \<le> length (cursor_rest s)" by (rule length_takeWhile_le)
  then have i: "cursor_inv ?s" using s by (auto simp: cursor_inv_def cursor_rest_def)
  have "cursor_rest ?s = drop ?n (cursor_rest s)" by (simp add: cursor_rest_def add.commute)
  also have "\<dots> = docs_from t (cursor_rest s)" by (simp add: dropWhile_eq_drop)
  finally have r: "cursor_rest ?s = docs_from t (cursor_rest s)" .
  show "\<exists>s'. walk_to t s = Some (s', first_doc (docs_from t (cursor_rest s))) \<and> cursor_inv s'
      \<and> cursor_rest s' = docs_from t (cursor_rest s)"
    using i r docs_doc_first [OF i] by (simp add: walk_to_def Let_def)
qed

lemma docs_set_doc_set:
  assumes "inherited_seek_ok sk"
  shows "doc_set (docs_set sk) cursor_inv cursor_rest"
proof
  fix s
  assume s: "cursor_inv s"
  show "docs_ok (cursor_rest s)" using s docs_ok_drop by (simp add: cursor_inv_def cursor_rest_def)
  show "ds_doc (docs_set sk) s = first_doc (cursor_rest s)"
    using docs_doc_first [OF s] by (simp add: docs_set_def)
  let ?s = "s\<lparr>cursor := min (cursor s + 1) (length (cursor_docs s))\<rparr>"
  have i: "cursor_inv ?s" using s by (simp add: cursor_inv_def)
  moreover have "cursor_rest ?s = tl (cursor_rest s)"
    using s by (auto simp: cursor_rest_def cursor_inv_def min_def drop_Suc tl_drop)
  ultimately show "\<exists>s'. ds_advance (docs_set sk) s = Some (s', first_doc (tl (cursor_rest s))) \<and> cursor_inv s'
      \<and> cursor_rest s' = tl (cursor_rest s)"
    using docs_doc_first [OF i] by (simp add: docs_set_def docs_advance_def Let_def)
  fix t
  assume "first_doc (cursor_rest s) \<le> t" "t \<le> TERMINATED"
  then show "\<exists>s'. ds_seek (docs_set sk) t s = Some (s', first_doc (docs_from t (cursor_rest s))) \<and> cursor_inv s'
      \<and> cursor_rest s' = docs_from t (cursor_rest s)"
    using assms s by (simp add: inherited_seek_ok_def docs_set_def)
qed

interpretation id_docs: doc_set "docs_set walk_to" cursor_inv cursor_rest
  by (rule docs_set_doc_set [OF walk_to_ok])

subsection \<open>Properties\<close>

text \<open>C28: A lookup of a set of ids in a segment returns the live documents holding one of them, all
  of them and each once, ascending, whatever the cache of runs holds; and the cache stays the
  runs of its segments and bounded. (Ids below the largest 64-bit value; a lookup of that one
  finds nothing, as \<open>max_id_not_found\<close> shows.)\<close>

theorem docs_with_ids_correct:
  assumes "cache_ok seg cache" "seg (segment_id r) = r" "segment_ok r" "\<forall>k\<in>set ks. k < u64_max"
  shows "snd (docs_with_ids cache r ks) =
      filter (\<lambda>d. \<not> is_deleted r d \<and> (\<exists>k\<in>set ks. first_id r d = Some k)) [0 ..< max_doc r]
    \<and> cache_ok seg (fst (docs_with_ids cache r ks))"
  using live_docs_list [OF assms] docs_with_ids_spec [OF assms] by blast

definition demo_segment :: segment where
  "demo_segment = \<lparr>segment_id = 1, id_column = [Some 7, Some 8, None, Some 3, Some 7],
                    is_deleted = \<lambda>d. d = 1\<rparr>"

lemma demo_segment_ok: "segment_ok demo_segment"
  by (auto simp: segment_ok_def demo_segment_def TERMINATED_def first_id_def less_Suc_eq nth_Cons'
      split: if_splits)

lemma docs_with_ids_correct_witness:
  "snd (docs_with_ids [] demo_segment [7, 8]) =
      filter (\<lambda>d. \<not> is_deleted demo_segment d \<and> (\<exists>k\<in>set [7, 8]. first_id demo_segment d = Some k)) [0 ..< max_doc demo_segment]
    \<and> cache_ok (\<lambda>_. demo_segment) (fst (docs_with_ids [] demo_segment [7, 8]))"
proof (rule docs_with_ids_correct [where seg = "\<lambda>_. demo_segment"])
  show "cache_ok (\<lambda>_. demo_segment) []" by (simp add: cache_ok_def)
qed (simp_all add: demo_segment_ok)

text \<open>The largest id is out of reach: the saturated end of its run is not above it.\<close>

lemma max_id_not_found: "docs_of_id (read r) u64_max = []"
proof -
  have "max_ends hi rs ! j \<le> u64_max" if "j < length rs" "hi \<le> u64_max" for j hi rs
    using that
  proof (induction hi rs arbitrary: j rule: max_ends.induct)
    case (2 hi f s l rs)
    then show ?case by (cases j) (auto simp: Let_def saturating_add_def)
  qed simp
  then have "docs_loop (read r) u64_max i = []" if "i \<le> length (runs (read r))" for i
    using that by (cases i) (auto simp: docs_loop.simps read_def Let_def)
  moreover have "partition_point P xs \<le> length xs" for P and xs :: "run list"
    by (simp add: partition_point_def length_takeWhile_le)
  ultimately show ?thesis by (simp add: docs_of_id_def)
qed

text \<open>\<^verbatim>\<open>find_ids\<close> places every asked id where the reference does: in the first segment
  that has a live document of that id, at the first such document; an id without one has no
  place, and no other id gets one. Stopping early when every id is found changes nothing.\<close>

theorem find_ids_correct:
  assumes "cache_ok seg cache" "\<forall>r\<in>set readers. seg (segment_id r) = r \<and> segment_ok r"
    "\<forall>k\<in>set ks. k < u64_max"
  shows "map_of (snd (find_ids cache readers ks)) k = (if k \<in> set ks then place k 0 readers else None)"
proof -
  have ks: "\<forall>k\<in>set (sort_dedup ks). k < u64_max" "distinct (sort_dedup ks)"
    using assms(3) strict_sorted_sort_dedup [of ks] by (simp_all add: strict_sorted_iff)
  note spec = find_loop_spec [OF ks assms(1,2), of "[]", simplified]
  show ?thesis
  proof (cases "k \<in> set ks")
    case True
    then show ?thesis using spec [of k 0] by (simp add: find_ids_def)
  next
    case False
    show ?thesis
    proof (cases "ks = []")
      case True
      then have "snd (find_ids cache readers ks) = []"
        by (cases readers) (simp_all add: find_ids_def sort_dedup_def)
      with True show ?thesis by simp
    next
      case ne: False
      then obtain k' where "k' \<in> set ks" by (meson list.set_sel(1))
      from spec [of k' 0] this have "fst ` set (snd (find_ids cache readers ks)) \<subseteq> set ks"
        by (simp add: find_ids_def)
      with False have "map_of (snd (find_ids cache readers ks)) k = None"
        by (auto simp: map_of_eq_None_iff)
      with False show ?thesis by simp
    qed
  qed
qed

lemma find_ids_correct_witness:
  "map_of (snd (find_ids [] [demo_segment] [3, 8])) 3 = (if 3 \<in> set [3, 8::nat] then place 3 0 [demo_segment] else None)"
proof (rule find_ids_correct [where seg = "\<lambda>_. demo_segment"])
  show "cache_ok (\<lambda>_. demo_segment) []" by (simp add: cache_ok_def)
  show "\<forall>r\<in>set [demo_segment]. demo_segment = r \<and> segment_ok r" using demo_segment_ok by simp
qed simp

text \<open>The scorer of \<^verbatim>\<open>IdSetQuery\<close>, driven to its end by \<^verbatim>\<open>advance\<close>, starts on the
  first matching document and steps through the live documents with one of the ids in order, and
  \<^verbatim>\<open>explain\<close> accepts exactly those.\<close>

theorem id_set_query_correct:
  assumes "cache_ok seg cache" "seg (segment_id r) = r" "segment_ok r" "\<forall>k\<in>set ks. k < u64_max"
  defines "hits \<equiv> filter (\<lambda>d. \<not> is_deleted r d \<and> (\<exists>k\<in>set ks. first_id r d = Some k)) [0 ..< max_doc r]"
  shows "docs_doc (((\<lambda>s. fst (docs_advance s)) ^^ n) (snd (id_set_scorer cache r (id_set_new ks))))
      = (if n < length hits then hits ! n else TERMINATED)
    \<and> snd (id_set_explain cache r (id_set_new ks) d) = (d \<in> set hits)"
proof -
  have docs: "snd (docs_with_ids cache r (id_set_new ks)) = hits"
    using live_docs_list [OF assms(1-3), of "id_set_new ks"] assms(4)
    by (simp add: hits_def id_set_new_def)
  let ?s = "snd (id_set_scorer cache r (id_set_new ks))"
  have s: "?s = \<lparr>cursor_docs = hits, cursor = 0\<rparr>"
    using docs by (simp add: id_set_scorer_def case_prod_unfold Let_def)
  have "((\<lambda>s. fst (docs_advance s)) ^^ n) ?s = \<lparr>cursor_docs = hits, cursor = min n (length hits)\<rparr>"
    unfolding s by (induction n) (auto simp: docs_advance_def Let_def)
  then show ?thesis using docs
    by (simp add: docs_doc_def id_set_explain_def case_prod_unfold Let_def min_def)
qed

lemma id_set_query_correct_witness:
  "docs_doc (((\<lambda>s. fst (docs_advance s)) ^^ 1) (snd (id_set_scorer [] demo_segment (id_set_new [7]))))
      = (if 1 < length (filter (\<lambda>d. \<not> is_deleted demo_segment d \<and> (\<exists>k\<in>set [7]. first_id demo_segment d = Some k)) [0 ..< max_doc demo_segment])
         then filter (\<lambda>d. \<not> is_deleted demo_segment d \<and> (\<exists>k\<in>set [7]. first_id demo_segment d = Some k)) [0 ..< max_doc demo_segment] ! 1 else TERMINATED)
    \<and> snd (id_set_explain [] demo_segment (id_set_new [7]) 4)
        = (4 \<in> set (filter (\<lambda>d. \<not> is_deleted demo_segment d \<and> (\<exists>k\<in>set [7]. first_id demo_segment d = Some k)) [0 ..< max_doc demo_segment]))"
proof (rule id_set_query_correct [where seg = "\<lambda>_. demo_segment"])
  show "cache_ok (\<lambda>_. demo_segment) []" by (simp add: cache_ok_def)
qed (simp_all add: demo_segment_ok)

end
