(* ===== verification/DerivedColumns.thy ===== *)
theory DerivedColumns
  imports Prelude
begin

unbundle bit_operations_syntax

section \<open>The section of a document, derived from its id\<close>

text \<open>
  \<^verbatim>\<open>derived_columns.rs\<close>: the index keeps only the offset of a document's section from the id
  base of its book, in 64-bit arithmetic that wraps, and recombines the two when it reads.
\<close>

type_synonym u64 = "64 word"

definition BOOK_MASK :: u64 where
  "BOOK_MASK = NOT 0xFFFFFFFF"

definition section_offset :: "u64 \<Rightarrow> u64 \<Rightarrow> u64" where
  "section_offset doc_id sect = sect - (doc_id AND BOOK_MASK)"

definition section_id :: "u64 \<Rightarrow> u64 \<Rightarrow> u64" where
  "section_id doc_id offset = (doc_id AND BOOK_MASK) + offset"

text \<open>\<^verbatim>\<open>SectionIdColumn\<close>: the values of the two columns for every document.\<close>

record section_column =
  id_values :: "nat \<Rightarrow> u64 list"
  offset_values :: "nat \<Rightarrow> u64 list"

definition first_value :: "'a list \<Rightarrow> 'a option" where
  "first_value xs = (case xs of [] \<Rightarrow> None | x # _ \<Rightarrow> Some x)"

definition section_first :: "section_column \<Rightarrow> nat \<Rightarrow> u64 option" where
  "section_first c doc = do {
     i \<leftarrow> first_value (id_values c doc);
     off \<leftarrow> first_value (offset_values c doc);
     Some (section_id i off) }"

definition section_values :: "section_column \<Rightarrow> nat \<Rightarrow> u64 list" where
  "section_values c doc =
     (let ids = id_values c doc;
          offsets = offset_values c doc;
          doubled = 1 < length ids \<or> 1 < length offsets;
          first = (case (first_value ids, first_value offsets) of
                     (Some i, Some off) \<Rightarrow> [section_id i off] | _ \<Rightarrow> [])
      in first @ (if doubled then [-1] else []))"

subsection \<open>Properties\<close>

lemma section_round_trip: "section_id doc_id (section_offset doc_id sect) = sect"
  by (simp add: section_id_def section_offset_def)

lemma split_book: "(x AND BOOK_MASK) + (x AND 0xFFFFFFFF) = (x :: u64)"
proof -
  have "(x AND NOT m) + (x AND m) = (x AND NOT m) OR (x AND m)" for m :: u64
    by (rule disjunctive_add_eq_or) (simp add: bit_eq_iff bit_simps)
  moreover have "(x AND NOT m) OR (x AND m) = x" for m by (auto simp: bit_eq_iff bit_simps)
  ultimately have "(x AND NOT m) + (x AND m) = x" for m by simp
  then show ?thesis unfolding BOOK_MASK_def by blast
qed

text \<open>A section id comes back exactly from its offset, for every id and every section id of
  64 bits; and when both belong to the same book the offset is the section's line number in the
  book, below 2^32.\<close>

theorem section_offset_round_trip:
  "section_id doc_id (section_offset doc_id sect) = sect
   \<and> (sect AND BOOK_MASK = doc_id AND BOOK_MASK \<longrightarrow>
        section_offset doc_id sect = sect AND 0xFFFFFFFF \<and> section_offset doc_id sect < 2 ^ 32)"
proof (intro conjI impI)
  show "section_id doc_id (section_offset doc_id sect) = sect" by (rule section_round_trip)
  assume "sect AND BOOK_MASK = doc_id AND BOOK_MASK"
  then show off: "section_offset doc_id sect = sect AND 0xFFFFFFFF"
    using split_book [of sect] by (simp add: section_offset_def algebra_simps)
  have "sect AND 0xFFFFFFFF \<le> 0xFFFFFFFF" by (rule word_and_le1)
  then show "section_offset doc_id sect < 2 ^ 32" unfolding off by (auto intro: le_less_trans)
qed

lemma section_offset_round_trip_witness:
  "section_id 0x500000007 (section_offset 0x500000007 0x500000002) = 0x500000002
   \<and> section_offset 0x500000007 0x500000002 < 2 ^ 32"
proof -
  have "(0x500000002 :: u64) AND BOOK_MASK = 0x500000007 AND BOOK_MASK" by (simp add: BOOK_MASK_def)
  then show ?thesis using section_offset_round_trip [of "0x500000007" "0x500000002"] by blast
qed

text \<open>A strict reader and a lenient one agree on a document with one id and one offset.\<close>

lemma section_values_single:
  "id_values c doc = [i] \<Longrightarrow> offset_values c doc = [off] \<Longrightarrow>
     section_values c doc = [section_id i off] \<and> section_first c doc = Some (section_id i off)"
  by (simp add: section_values_def section_first_def first_value_def Let_def)

end
