(* ===== verification/SectionScope.thy ===== *)
theory SectionScope
  imports IdLookup DerivedColumns "HOL-Library.AList"
begin

section \<open>Words under one heading\<close>

text \<open>
  \<^verbatim>\<open>section_scope.rs\<close> and the two passes of the engine that use it
  (\<^verbatim>\<open>api/search_engine.rs\<close>). Pass one collects the sections each word's documents cover and
  keeps the sections that carry enough of the words; pass two scans the documents carrying any
  of the words and admits those in such a section.

  A word's documents in every segment are what the library's search hands the collector; a hash
  set that is iterated is a list without repeats.
\<close>

subsection \<open>Pass one: the sections\<close>

definition collect_section :: "section_column \<Rightarrow> u64 set \<Rightarrow> nat \<Rightarrow> u64 set" where
  "collect_section column sections doc =
     (case section_first column doc of None \<Rightarrow> sections | Some sec \<Rightarrow> insert sec sections)"

definition merge_fruits :: "u64 set list \<Rightarrow> u64 set" where
  "merge_fruits per_segment = foldl (\<lambda>merged sections. merged \<union> sections) {} per_segment"

text \<open>One word: for each segment, its column and the word's documents in it.\<close>

type_synonym word_hits = "(section_column \<times> nat list) list"

definition word_sections :: "word_hits \<Rightarrow> u64 set" where
  "word_sections hits = merge_fruits (map (\<lambda>(column, docs). foldl (collect_section column) {} docs) hits)"

datatype word_match = Match_all | Match_at_least nat | Match_most

definition min_words :: "word_match \<Rightarrow> nat \<Rightarrow> nat" where
  "min_words mode word_count =
     min (case mode of Match_all \<Rightarrow> word_count | Match_at_least n \<Rightarrow> n
          | Match_most \<Rightarrow> word_count div 2 + 1) word_count"

definition SECTION_COUNT_BUDGET :: nat where
  "SECTION_COUNT_BUDGET = 500000"

type_synonym section_counts = "(u64 \<times> nat) list"

definition count_of_section :: "section_counts \<Rightarrow> u64 \<Rightarrow> nat" where
  "count_of_section counts sec = (case map_of counts sec of None \<Rightarrow> 0 | Some n \<Rightarrow> n)"

fun accumulate_section_counts :: "section_counts \<Rightarrow> u64 list \<Rightarrow> nat \<Rightarrow> section_counts \<times> bool" where
  "accumulate_section_counts counts [] budget = (counts, False)"
| "accumulate_section_counts counts (sec # sections) budget =
     (if map_of counts sec \<noteq> None
      then accumulate_section_counts (AList.update sec (count_of_section counts sec + 1) counts) sections budget
      else if length counts < budget
      then accumulate_section_counts ((sec, 1) # counts) sections budget
      else (fst (accumulate_section_counts counts sections budget), True))"

fun count_words :: "section_counts \<Rightarrow> bool \<Rightarrow> u64 list list \<Rightarrow> section_counts \<times> bool" where
  "count_words counts truncated [] = (counts, truncated)"
| "count_words counts truncated (sections # words) =
     (let (counts', cut) = accumulate_section_counts counts sections SECTION_COUNT_BUDGET
      in count_words counts' (truncated \<or> cut) words)"

text \<open>The intersection; \<open>None\<close> is the early return of an empty query.\<close>

fun intersect_words :: "u64 set option \<Rightarrow> u64 set list \<Rightarrow> u64 set option option" where
  "intersect_words allowed [] = Some allowed"
| "intersect_words allowed (sections # words) =
     (let a = (case allowed of None \<Rightarrow> sections | Some prev \<Rightarrow> prev \<inter> sections)
      in if a = {} then None else intersect_words (Some a) words)"

text \<open>The plan: \<open>None\<close> is the empty query, \<open>Some allowed\<close> the filtered union. \<open>orders\<close> are
  the section sets of the words, in the order they are iterated.\<close>

definition section_plan :: "bool \<Rightarrow> nat \<Rightarrow> u64 list list \<Rightarrow> u64 set option \<times> bool" where
  "section_plan all_required min_required orders =
     (if all_required
      then (case intersect_words None (map set orders) of
              None \<Rightarrow> (None, False)
            | Some allowed \<Rightarrow> (Some (case allowed of None \<Rightarrow> {} | Some a \<Rightarrow> a), False))
      else (let (counts, truncated) = count_words [] False orders;
                reaching = {sec \<in> fst ` set counts. min_required \<le> count_of_section counts sec}
            in (if reaching = {} then None else Some reaching, truncated)))"

subsection \<open>Pass two: the filter\<close>

definition admitted :: "section_column \<Rightarrow> u64 set \<Rightarrow> nat \<Rightarrow> bool" where
  "admitted column allowed doc =
     (case section_first column doc of None \<Rightarrow> False | Some sec \<Rightarrow> sec \<in> allowed)"

definition section_check :: "section_column \<Rightarrow> u64 set \<Rightarrow> nat \<Rightarrow> unit \<Rightarrow> (unit \<times> bool) option" where
  "section_check column allowed d c = Some (c, admitted column allowed d)"

text \<open>\<^verbatim>\<open>SectionFilteredWeight::scorer\<close> with the collector that reads it: an empty set of
  sections gives the library's empty scorer.\<close>

definition section_filtered_scan :: "'s docset \<Rightarrow> 's \<Rightarrow> section_column \<Rightarrow> u64 set \<Rightarrow> nat list option" where
  "section_filtered_scan ops inner column allowed =
     (if allowed = {} then Some []
      else Option.bind (checked_new ops (section_check column allowed) inner ())
             (\<lambda>scorer. scan (checked_set ops (section_check column allowed)) scorer))"

subsection \<open>The filter is a doc set\<close>

lemma section_checked:
  assumes "doc_set ops I docs"
  shows "checked ops I docs (section_check column allowed) (\<lambda>_ _. True) (admitted column allowed)"
  by (intro checked.intro assms checked_axioms.intro) (simp_all add: section_check_def)

interpretation section_ids: checked "docs_set walk_to" cursor_inv cursor_rest
    "section_check column allowed" "\<lambda>_ _. True" "admitted column allowed"
  for column allowed
  by (rule section_checked [OF docs_set_doc_set [OF walk_to_ok]])

lemma section_filtered_scan_spec:
  assumes "doc_set ops I docs" "I s"
  shows "section_filtered_scan ops s column allowed = Some (filter (admitted column allowed) (docs s))"
proof (cases "allowed = {}")
  case True
  then show ?thesis by (simp add: section_filtered_scan_def admitted_def filter_False split: option.splits)
next
  case False
  with checked.scan_new [OF section_checked [OF assms(1)] assms(2)] show ?thesis
    by (simp add: section_filtered_scan_def)
qed

subsection \<open>The sections of a word and of all words\<close>

lemma collect_sections:
  "foldl (collect_section c) S ds = S \<union> {sec. \<exists>d\<in>set ds. section_first c d = Some sec}"
  by (induction ds arbitrary: S) (auto simp: collect_section_def split: option.splits)

lemma merge_fruits_union: "merge_fruits Ss = \<Union> (set Ss)"
proof -
  have "foldl (\<union>) A Ss = A \<union> \<Union> (set Ss)" for A by (induction Ss arbitrary: A) auto
  from this [of "{}"] show ?thesis unfolding merge_fruits_def by simp
qed

lemma word_sections_spec:
  "word_sections hits = {sec. \<exists>(c, ds)\<in>set hits. \<exists>d\<in>set ds. section_first c d = Some sec}"
  by (auto simp: word_sections_def merge_fruits_union collect_sections)

lemma intersect_words_spec:
  "intersect_words (Some A) ws = (if \<exists>n\<le>length ws. n > 0 \<and> A \<inter> \<Inter> (set (take n ws)) = {} then None
     else Some (Some (A \<inter> \<Inter> (set ws))))"
proof (induction ws arbitrary: A)
  case (Cons w ws)
  have eq: "A \<inter> \<Inter> (set (take (Suc n) (w # ws))) = (A \<inter> w) \<inter> \<Inter> (set (take n ws))" for n by auto
  show ?case
  proof (cases "A \<inter> w = {}")
    case True
    then have "\<exists>n\<le>length (w # ws). n > 0 \<and> A \<inter> \<Inter> (set (take n (w # ws))) = {}"
      by (intro exI [of _ 1]) simp
    with True show ?thesis by simp
  next
    case False
    have "(\<exists>n\<le>length (w # ws). n > 0 \<and> A \<inter> \<Inter> (set (take n (w # ws))) = {})
        \<longleftrightarrow> (\<exists>n\<le>length ws. n > 0 \<and> (A \<inter> w) \<inter> \<Inter> (set (take n ws)) = {})" (is "?l \<longleftrightarrow> ?r")
    proof
      assume ?l
      then obtain n where n: "n \<le> length (w # ws)" "n > 0" "A \<inter> \<Inter> (set (take n (w # ws))) = {}" by blast
      then obtain k where "n = Suc k" by (cases n) auto
      with n eq [of k] False have "k \<le> length ws" "k > 0" "(A \<inter> w) \<inter> \<Inter> (set (take k ws)) = {}"
        by (auto intro: gr0I)
      then show ?r by blast
    next
      assume ?r
      then obtain k where "k \<le> length ws" "(A \<inter> w) \<inter> \<Inter> (set (take k ws)) = {}" by blast
      with eq [of k] show ?l by (intro exI [of _ "Suc k"]) auto
    qed
    with False Cons [of "A \<inter> w"] show ?thesis by (simp add: Int_assoc)
  qed
qed auto

text \<open>Whether it stops early or not, the sections admitted are the common ones.\<close>

lemma intersect_words_common:
  "ws \<noteq> [] \<Longrightarrow> (case intersect_words None ws of None \<Rightarrow> {} | Some None \<Rightarrow> {} | Some (Some A) \<Rightarrow> A) = \<Inter> (set ws)"
proof (cases ws)
  case (Cons w us)
  show ?thesis
  proof (cases "w = {}")
    case False
    show ?thesis
    proof (cases "\<exists>n\<le>length us. n > 0 \<and> w \<inter> \<Inter> (set (take n us)) = {}")
      case True
      then obtain n where "w \<inter> \<Inter> (set (take n us)) = {}" by blast
      moreover have "\<Inter> (set us) \<subseteq> \<Inter> (set (take n us))" by (auto dest: in_set_takeD)
      ultimately have "w \<inter> \<Inter> (set us) = {}" by blast
      with True False Cons show ?thesis by (simp add: intersect_words_spec Let_def)
    next
      case F: False
      then have "intersect_words (Some w) us = Some (Some (w \<inter> \<Inter> (set us)))"
        by (simp only: intersect_words_spec if_False)
      with False Cons show ?thesis by (simp add: Let_def)
    qed
  qed (use Cons in \<open>simp add: Let_def\<close>)
qed simp

lemma accumulate_spec:
  assumes "distinct sections" "distinct (map fst counts)"
  shows "\<not> snd (accumulate_section_counts counts sections budget) \<Longrightarrow>
     count_of_section (fst (accumulate_section_counts counts sections budget)) sec =
       count_of_section counts sec + (if sec \<in> set sections then 1 else 0)
     \<and> fst ` set (fst (accumulate_section_counts counts sections budget)) = fst ` set counts \<union> set sections
     \<and> distinct (map fst (fst (accumulate_section_counts counts sections budget)))"
  using assms
proof (induction counts sections budget rule: accumulate_section_counts.induct)
  case (2 counts sec1 sections budget)
  show ?case
  proof (cases "map_of counts sec1 = None")
    case False
    then have mem: "sec1 \<in> fst ` set counts" by (simp add: map_of_eq_None_iff)
    let ?c = "AList.update sec1 (count_of_section counts sec1 + 1) counts"
    have "distinct (map fst ?c)" using "2.prems"(3) by (rule distinct_update)
    moreover have "fst ` set ?c = fst ` set counts"
      unfolding dom_update using mem by blast
    moreover have "count_of_section ?c sec = count_of_section counts sec + (if sec = sec1 then 1 else 0)"
      by (simp add: count_of_section_def update_conv)
    ultimately show ?thesis using 2 False mem by auto
  next
    case None: True
    then have nm: "sec1 \<notin> fst ` set counts" by (simp add: map_of_eq_None_iff)
    show ?thesis
    proof (cases "length counts < budget")
      case True
      have "count_of_section ((sec1, 1) # counts) sec = count_of_section counts sec + (if sec = sec1 then 1 else 0)"
        using None by (simp add: count_of_section_def)
      with 2 None nm True show ?thesis by auto
    next
      case False
      with 2 None show ?thesis by simp
    qed
  qed
qed simp

lemma count_words_truncated: "snd (count_words counts True ws)"
  by (induction ws arbitrary: counts) (auto split: prod.split)

lemma count_words_spec:
  assumes "\<forall>w\<in>set ws. distinct w" "distinct (map fst counts)" "\<not> snd (count_words counts False ws)"
  shows "count_of_section (fst (count_words counts False ws)) sec =
       count_of_section counts sec + length (filter (\<lambda>w. sec \<in> set w) ws)
     \<and> fst ` set (fst (count_words counts False ws)) = fst ` set counts \<union> \<Union> (set ` set ws)"
  using assms
proof (induction ws arbitrary: counts)
  case (Cons w ws)
  obtain c cut where acc: "accumulate_section_counts counts w SECTION_COUNT_BUDGET = (c, cut)" by fastforce
  have "\<not> cut"
  proof
    assume "cut"
    then show False using Cons.prems(3) acc count_words_truncated [of c ws] by simp
  qed
  with accumulate_spec [of w counts SECTION_COUNT_BUDGET sec] acc Cons.prems
  have "count_of_section c sec = count_of_section counts sec + (if sec \<in> set w then 1 else 0)"
    "fst ` set c = fst ` set counts \<union> set w" "distinct (map fst c)" by auto
  moreover have "\<not> snd (count_words c False ws)" using Cons.prems(3) acc \<open>\<not> cut\<close> by simp
  ultimately show ?case using Cons.IH [of c] Cons.prems(1) acc \<open>\<not> cut\<close> by auto
qed simp

definition plan_sections :: "u64 set option \<Rightarrow> u64 set" where
  "plan_sections plan = (case plan of None \<Rightarrow> {} | Some A \<Rightarrow> A)"

lemma section_plan_spec:
  assumes "orders \<noteq> []" "\<forall>w\<in>set orders. distinct w" "0 < m"
    "\<not> snd (section_plan (length orders \<le> m) m orders)" "m \<le> length orders"
  shows "plan_sections (fst (section_plan (length orders \<le> m) m orders))
    = {sec. m \<le> length (filter (\<lambda>w. sec \<in> set w) orders)}"
proof (cases "length orders \<le> m")
  case True
  then have m: "m = length orders" using assms(5) by simp
  have "plan_sections (fst (section_plan True m orders)) = \<Inter> (set (map set orders))"
    using intersect_words_common [of "map set orders"] assms(1)
    by (auto simp: section_plan_def plan_sections_def split: option.splits)
  also have "\<dots> = {sec. \<forall>w\<in>set orders. sec \<in> set w}" by auto
  also have "\<dots> = {sec. m \<le> length (filter (\<lambda>w. sec \<in> set w) orders)}"
  proof -
    have "length orders \<le> length (filter P orders) \<longleftrightarrow> (\<forall>w\<in>set orders. P w)" for P
      using length_filter_le [of P orders] length_filter_less [of _ orders P]
      by (metis filter_True le_antisym linorder_not_le order_refl)
    then show ?thesis using m by simp
  qed
  finally show ?thesis using True by simp
next
  case False
  then have cut: "\<not> snd (count_words [] False orders)"
    using assms(4) by (simp add: section_plan_def Let_def split: prod.splits)
  have spec: "count_of_section (fst (count_words [] False orders)) sec = length (filter (\<lambda>w. sec \<in> set w) orders)
      \<and> fst ` set (fst (count_words [] False orders)) = \<Union> (set ` set orders)" for sec
    using count_words_spec [OF assms(2) _ cut, of sec] by (simp add: count_of_section_def)
  have "plan_sections (fst (section_plan False m orders))
      = {sec \<in> fst ` set (fst (count_words [] False orders)). m \<le> count_of_section (fst (count_words [] False orders)) sec}"
    by (auto simp: section_plan_def plan_sections_def Let_def split: prod.splits)
  also have "\<dots> = {sec. m \<le> length (filter (\<lambda>w. sec \<in> set w) orders)}"
  proof -
    have "\<exists>w\<in>set orders. sec \<in> set w" if "m \<le> length (filter (\<lambda>w. sec \<in> set w) orders)" for sec
    proof -
      have "filter (\<lambda>w. sec \<in> set w) orders \<noteq> []" using that assms(3) by auto
      then show ?thesis by (auto simp: filter_empty_conv)
    qed
    then show ?thesis using spec by auto
  qed
  finally show ?thesis using False by simp
qed

subsection \<open>Properties\<close>

text \<open>C12: Searching words under one heading is exact: pass one with pass two returns, of the
  documents carrying any of the words in a segment, exactly those whose section carries at least the
  required number of the words somewhere in the index, as long as no section was cut by the
  budget of the counts. For all words the early stop on an empty intersection loses nothing.\<close>

theorem section_scope_exact:
  assumes "doc_set ops I docs" "I s"
    "length words = length orders" "words \<noteq> []"
    "\<forall>i<length words. set (orders ! i) = word_sections (words ! i) \<and> distinct (orders ! i)"
    "m = min_words mode (length words)" "0 < m"
    "\<not> snd (section_plan (length orders \<le> m) m orders)"
  shows "section_filtered_scan ops s column (plan_sections (fst (section_plan (length orders \<le> m) m orders)))
    = Some (filter (\<lambda>d. case section_first column d of None \<Rightarrow> False
        | Some sec \<Rightarrow> m \<le> length (filter (\<lambda>hits. sec \<in> word_sections hits) words)) (docs s))"
proof -
  have eq: "length (filter (\<lambda>w. sec \<in> set w) orders) = length (filter (\<lambda>hits. sec \<in> word_sections hits) words)" for sec
  proof -
    have "{i. i < length orders \<and> sec \<in> set (orders ! i)} = {i. i < length words \<and> sec \<in> word_sections (words ! i)}"
      using assms(3,5) by auto
    then show ?thesis unfolding length_filter_conv_card by simp
  qed
  have "distinct w" if "w \<in> set orders" for w
    using that assms(3,5) by (auto simp: in_set_conv_nth)
  moreover have "m \<le> length orders" using assms(3,6) by (simp add: min_words_def)
  ultimately have "plan_sections (fst (section_plan (length orders \<le> m) m orders))
      = {sec. m \<le> length (filter (\<lambda>hits. sec \<in> word_sections hits) words)}"
    using section_plan_spec [of orders m, OF _ _ assms(7,8)] assms(3,4) eq by force
  then show ?thesis
    unfolding section_filtered_scan_spec [OF assms(1,2)]
    by (simp add: admitted_def [abs_def] cong: option.case_cong)
qed

definition demo_column :: section_column where
  "demo_column = \<lparr>id_values = \<lambda>d. [0x500000000 + word_of_nat d], offset_values = \<lambda>d. [if d < 2 then 1 else 3]\<rparr>"

lemma demo_first: "section_first demo_column d = Some (section_id (0x500000000 + word_of_nat d) (if d < 2 then 1 else 3))"
  by (simp add: section_first_def demo_column_def first_value_def)

lemma section_scope_exact_witness:
  "\<exists>column orders. section_filtered_scan (docs_set walk_to) \<lparr>cursor_docs = [0, 1, 2], cursor = 0\<rparr> column
       (plan_sections (fst (section_plan True 2 orders)))
    = Some (filter (\<lambda>d. case section_first column d of None \<Rightarrow> False
        | Some sec \<Rightarrow> 2 \<le> length (filter (\<lambda>hits. sec \<in> word_sections hits) [[(column, [0, 2])], [(column, [1])]])) [0, 1, 2])"
proof -
  let ?c = demo_column and ?words = "[[(demo_column, [0, 2])], [(demo_column, [1])]]"
  define s0 s2 where "s0 = section_id 0x500000000 1" and "s2 = section_id (0x500000000 + 2) 3"
  have "section_id (0x500000000 + 1) 1 = s0" and ne: "s0 \<noteq> s2"
    by (simp_all add: s0_def s2_def section_id_def BOOK_MASK_def)
  then have w: "word_sections [(demo_column, [0, 2])] = {s0, s2}" "word_sections [(demo_column, [1])] = {s0}"
    by (auto simp: word_sections_spec demo_first s0_def s2_def)
  let ?orders = "[[s0, s2], [s0]]"
  have "section_filtered_scan (docs_set walk_to) \<lparr>cursor_docs = [0, 1, 2], cursor = 0\<rparr> ?c
       (plan_sections (fst (section_plan (length ?orders \<le> 2) 2 ?orders)))
    = Some (filter (\<lambda>d. case section_first ?c d of None \<Rightarrow> False
        | Some sec \<Rightarrow> 2 \<le> length (filter (\<lambda>hits. sec \<in> word_sections hits) ?words))
        (cursor_rest \<lparr>cursor_docs = [0, 1, 2], cursor = 0\<rparr>))"
  proof (rule section_scope_exact [OF docs_set_doc_set [OF walk_to_ok], where mode = Match_all])
    show "cursor_inv \<lparr>cursor_docs = [0, 1, 2], cursor = 0\<rparr>"
      by (simp add: cursor_inv_def TERMINATED_def)
    show "\<forall>i<length ?words. set (?orders ! i) = word_sections (?words ! i) \<and> distinct (?orders ! i)"
      using w ne by (auto simp: less_Suc_eq)
    show "\<not> snd (section_plan (length ?orders \<le> 2) 2 ?orders)"
      by (simp add: section_plan_def split: option.splits)
  qed (simp_all add: min_words_def)
  then show ?thesis by (intro exI [of _ ?c] exI [of _ ?orders]) (simp add: cursor_rest_def)
qed

end
