(* ===== verification/DocStore.thy ===== *)
theory DocStore
  imports DerivedColumns
begin

section \<open>A document as the engine reads it\<close>

text \<open>
  \<^verbatim>\<open>doc_store.rs\<close>: a stored document is completed from the columns of its segment and from
  its id. A document is the list of its field values in order; the searcher (stored documents,
  schema, columns) is a parameter, a record of lookups where \<open>None\<close> is an error of the library.
  The theory proves that the line ordinal survives the store, and that a loader returns the same
  document however many it has loaded before: the fields and columns it keeps, and the
  strings it has memoized, change nothing.
\<close>

subsection \<open>The line ordinal\<close>

definition LINE_MASK :: u64 where
  "LINE_MASK = 0xFFFFFFFF"

definition derived_segment :: "u64 \<Rightarrow> u64" where
  "derived_segment doc_id = (let line = doc_id AND LINE_MASK in if line = 0 then 0 else line - 1)"

definition segment_to_store :: "u64 \<Rightarrow> u64 \<Rightarrow> u64 option" where
  "segment_to_store doc_id seg = (if seg \<noteq> derived_segment doc_id then Some seg else None)"

subsection \<open>Documents and columns\<close>

datatype field_value = Text_value ustr | Bool_value bool | U64_value u64

type_synonym document = "(nat \<times> field_value) list"

definition get_first :: "document \<Rightarrow> nat \<Rightarrow> field_value option" where
  "get_first document f = map_of document f"

definition as_u64 :: "field_value \<Rightarrow> u64 option" where
  "as_u64 v = (case v of U64_value n \<Rightarrow> Some n | _ \<Rightarrow> None)"

record completed_fields =
  title_field :: nat
  file_path_field :: nat
  is_pdf_field :: nat
  segment_field :: nat
  id_field :: nat

text \<open>A string column of the library: the term ordinals of a document, and an ordinal's text
  (\<open>Some None\<close> where it has none).\<close>

record str_column =
  term_ords :: "nat \<Rightarrow> nat list"
  ord_to_str :: "nat \<Rightarrow> ustr option option"

type_synonym memo = "(nat \<times> ustr) list"

record memo_column =
  memo_col :: str_column
  memo_values :: memo

record segment_columns =
  seg_title :: "memo_column option"
  seg_file_path :: "memo_column option"
  seg_is_pdf :: "(nat \<Rightarrow> bool list) option"

text \<open>\<^verbatim>\<open>MemoColumn::values\<close>: the texts it hands on, and the memo after.\<close>

fun values_loop :: "str_column \<Rightarrow> memo \<Rightarrow> nat list \<Rightarrow> (memo \<times> ustr list) option" where
  "values_loop col m [] = Some (m, [])"
| "values_loop col m (ord1 # ords) =
     (case map_of m ord1 of
        Some v \<Rightarrow> map_option (\<lambda>(m', vs). (m', v # vs)) (values_loop col m ords)
      | None \<Rightarrow>
          (case ord_to_str col ord1 of
             None \<Rightarrow> None
           | Some None \<Rightarrow> values_loop col m ords
           | Some (Some v) \<Rightarrow>
               map_option (\<lambda>(m', vs). (m', v # vs)) (values_loop col ((ord1, v) # m) ords)))"

definition column_values :: "memo_column \<Rightarrow> nat \<Rightarrow> (memo_column \<times> ustr list) option" where
  "column_values c doc =
     map_option (\<lambda>(m, vs). (c\<lparr>memo_values := m\<rparr>, vs))
       (values_loop (memo_col c) (memo_values c) (term_ords (memo_col c) doc))"

definition missing :: "nat \<Rightarrow> document \<Rightarrow> bool" where
  "missing f document \<longleftrightarrow> get_first document f = None"

definition complete_text ::
  "nat \<Rightarrow> memo_column option \<Rightarrow> nat \<Rightarrow> document \<Rightarrow> (memo_column option \<times> document) option" where
  "complete_text f column doc document =
     (case column of
        None \<Rightarrow> Some (None, document)
      | Some c \<Rightarrow>
          if missing f document
          then map_option (\<lambda>(c', vs). (Some c', document @ map (\<lambda>v. (f, Text_value v)) vs))
                 (column_values c doc)
          else Some (Some c, document))"

definition complete_pdf :: "completed_fields \<Rightarrow> (nat \<Rightarrow> bool list) option \<Rightarrow> nat \<Rightarrow> document \<Rightarrow> document" where
  "complete_pdf flds column doc document =
     (case column of
        None \<Rightarrow> document
      | Some col \<Rightarrow>
          if missing (is_pdf_field flds) document
          then document @ map (\<lambda>b. (is_pdf_field flds, Bool_value b)) (col doc)
          else document)"

definition complete_segment :: "completed_fields \<Rightarrow> document \<Rightarrow> document" where
  "complete_segment flds document =
     (if missing (segment_field flds) document
      then (case Option.bind (get_first document (id_field flds)) as_u64 of
              None \<Rightarrow> document
            | Some n \<Rightarrow> document @ [(segment_field flds, U64_value (derived_segment n))])
      else document)"

definition complete_document ::
  "completed_fields \<Rightarrow> segment_columns \<Rightarrow> nat \<Rightarrow> document \<Rightarrow> (segment_columns \<times> document) option" where
  "complete_document flds columns doc document = do {
     (title, d1) \<leftarrow> complete_text (title_field flds) (seg_title columns) doc document;
     (path, d2) \<leftarrow> complete_text (file_path_field flds) (seg_file_path columns) doc d1;
     Some (columns\<lparr>seg_title := title, seg_file_path := path\<rparr>,
           complete_segment flds (complete_pdf flds (seg_is_pdf columns) doc d2)) }"

subsection \<open>The loader\<close>

record searcher =
  stored_doc :: "nat \<times> nat \<Rightarrow> document option"
  schema_field :: "ustr \<Rightarrow> nat option"
  is_fast_field :: "nat \<Rightarrow> bool"
  str_fast_field :: "nat \<Rightarrow> ustr \<Rightarrow> str_column option option"
  bool_fast_field :: "nat \<Rightarrow> ustr \<Rightarrow> (nat \<Rightarrow> bool list) option option"

text \<open>\<^verbatim>\<open>"title"\<close>, \<^verbatim>\<open>"filePath"\<close>, \<^verbatim>\<open>"isPdf"\<close>, \<^verbatim>\<open>"segment"\<close> and \<^verbatim>\<open>"id"\<close>.\<close>

definition name_title :: ustr where "name_title = [0x74, 0x69, 0x74, 0x6C, 0x65]"
definition name_file_path :: ustr where
  "name_file_path = [0x66, 0x69, 0x6C, 0x65, 0x50, 0x61, 0x74, 0x68]"
definition name_is_pdf :: ustr where "name_is_pdf = [0x69, 0x73, 0x50, 0x64, 0x66]"
definition name_segment :: ustr where
  "name_segment = [0x73, 0x65, 0x67, 0x6D, 0x65, 0x6E, 0x74]"
definition name_id :: ustr where "name_id = [0x69, 0x64]"

record loader =
  loader_fields :: "completed_fields option"
  loader_segments :: "segment_columns option list"

definition loader_new :: loader where
  "loader_new = \<lparr>loader_fields = None, loader_segments = []\<rparr>"

definition read_fields :: "searcher \<Rightarrow> completed_fields option" where
  "read_fields env = do {
     t \<leftarrow> schema_field env name_title;
     p \<leftarrow> schema_field env name_file_path;
     b \<leftarrow> schema_field env name_is_pdf;
     s \<leftarrow> schema_field env name_segment;
     i \<leftarrow> schema_field env name_id;
     Some \<lparr>title_field = t, file_path_field = p, is_pdf_field = b, segment_field = s, id_field = i\<rparr> }"

definition open_str_column :: "searcher \<Rightarrow> nat \<Rightarrow> nat \<Rightarrow> ustr \<Rightarrow> memo_column option option" where
  "open_str_column env seg f name =
     (if \<not> is_fast_field env f then Some None
      else map_option (map_option (\<lambda>col. \<lparr>memo_col = col, memo_values = []\<rparr>)) (str_fast_field env seg name))"

definition open_columns :: "searcher \<Rightarrow> completed_fields \<Rightarrow> nat \<Rightarrow> segment_columns option" where
  "open_columns env flds seg = do {
     t \<leftarrow> open_str_column env seg (title_field flds) name_title;
     p \<leftarrow> open_str_column env seg (file_path_field flds) name_file_path;
     b \<leftarrow> (if is_fast_field env (is_pdf_field flds) then bool_fast_field env seg name_is_pdf else Some None);
     Some \<lparr>seg_title = t, seg_file_path = p, seg_is_pdf = b\<rparr> }"

definition load :: "searcher \<Rightarrow> loader \<Rightarrow> nat \<times> nat \<Rightarrow> (loader \<times> document) option" where
  "load env l address = do {
     document \<leftarrow> stored_doc env address;
     flds \<leftarrow> (case loader_fields l of Some f \<Rightarrow> Some f | None \<Rightarrow> read_fields env);
     let ordinal = fst address;
     let segs = (if length (loader_segments l) \<le> ordinal
             then loader_segments l @ replicate (ordinal + 1 - length (loader_segments l)) None
             else loader_segments l);
     columns \<leftarrow> (case segs ! ordinal of Some c \<Rightarrow> Some c | None \<Rightarrow> open_columns env flds ordinal);
     (columns', document') \<leftarrow> complete_document flds columns (snd address) document;
     Some (\<lparr>loader_fields = Some flds, loader_segments = segs[ordinal := Some columns']\<rparr>, document') }"

definition load_document :: "searcher \<Rightarrow> nat \<times> nat \<Rightarrow> document option" where
  "load_document env address = map_option snd (load env loader_new address)"

subsection \<open>Memoized strings change nothing\<close>

definition memo_ok :: "str_column \<Rightarrow> memo \<Rightarrow> bool" where
  "memo_ok col m \<longleftrightarrow> (\<forall>(ord1, v)\<in>set m. ord_to_str col ord1 = Some (Some v))"

lemma memo_ok_lookup: "memo_ok col m \<Longrightarrow> map_of m ord1 = Some v \<Longrightarrow> ord_to_str col ord1 = Some (Some v)"
  by (auto simp: memo_ok_def dest!: map_of_SomeD)

lemma values_loop_memo:
  "memo_ok col m \<Longrightarrow> memo_ok col n \<Longrightarrow>
     map_option snd (values_loop col m ords) = map_option snd (values_loop col n ords)
     \<and> (\<forall>m' vs. values_loop col m ords = Some (m', vs) \<longrightarrow> memo_ok col m')"
proof (induction ords arbitrary: m n)
  case (Cons a ords)
  have ext: "memo_ok col ((a, v) # k)" if "memo_ok col k" "ord_to_str col a = Some (Some v)" for k v
    using that by (simp add: memo_ok_def)
  have step: "map_option snd (values_loop col k (a # ords)) =
      (case ord_to_str col a of
         None \<Rightarrow> None
       | Some None \<Rightarrow> map_option snd (values_loop col k ords)
       | Some (Some v) \<Rightarrow> map_option (\<lambda>r. v # snd r) (values_loop col k ords))"
    if k: "memo_ok col k" for k
  proof (cases "map_of k a")
    case (Some v)
    then show ?thesis using memo_ok_lookup [OF k Some]
      by (simp add: option.map_comp comp_def case_prod_unfold)
  next
    case None
    have "map_option (\<lambda>r. v # snd r) (values_loop col ((a, v) # k) ords)
        = map_option (\<lambda>r. v # snd r) (values_loop col k ords)" if "ord_to_str col a = Some (Some v)" for v
    proof -
      have "map_option snd (values_loop col ((a, v) # k) ords) = map_option snd (values_loop col k ords)"
        using Cons.IH [OF ext [OF k that] k] by blast
      then have "map_option ((#) v) (map_option snd (values_loop col ((a, v) # k) ords))
          = map_option ((#) v) (map_option snd (values_loop col k ords))" by simp
      then show ?thesis by (simp add: option.map_comp comp_def)
    qed
    with None show ?thesis
      by (auto simp: option.map_comp comp_def case_prod_unfold split: option.splits)
  qed
  have tails: "map_option snd (values_loop col m ords) = map_option snd (values_loop col n ords)"
    using Cons.IH [OF Cons.prems] by blast
  have tails_v: "map_option (\<lambda>r. v # snd r) (values_loop col m ords)
      = map_option (\<lambda>r. v # snd r) (values_loop col n ords)" for v
    using arg_cong [OF tails, of "map_option ((#) v)"] by (simp add: option.map_comp comp_def)
  have eq: "map_option snd (values_loop col m (a # ords)) = map_option snd (values_loop col n (a # ords))"
    unfolding step [OF Cons.prems(1)] step [OF Cons.prems(2)] using tails tails_v
    by (simp split: option.split)
  have "memo_ok col m'" if "values_loop col m (a # ords) = Some (m', vs)" for m' vs
    using that Cons.IH [OF Cons.prems] Cons.IH [OF ext [OF Cons.prems(1)] Cons.prems(2)] Cons.prems(1)
    by (auto split: option.splits)
  with eq show ?case by blast
qed auto

definition same_column :: "memo_column option \<Rightarrow> memo_column option \<Rightarrow> bool" where
  "same_column c c0 \<longleftrightarrow> rel_option (\<lambda>x y. memo_col x = memo_col y \<and> memo_ok (memo_col x) (memo_values x)
     \<and> memo_ok (memo_col y) (memo_values y)) c c0"

definition same_columns :: "segment_columns \<Rightarrow> segment_columns \<Rightarrow> bool" where
  "same_columns c c0 \<longleftrightarrow> same_column (seg_title c) (seg_title c0)
     \<and> same_column (seg_file_path c) (seg_file_path c0) \<and> seg_is_pdf c = seg_is_pdf c0"

lemma column_values_same:
  assumes "same_column (Some c) (Some d)"
  shows "map_option snd (column_values c doc) = map_option snd (column_values d doc)
     \<and> (\<forall>c' vs. column_values c doc = Some (c', vs) \<longrightarrow> same_column (Some c') (Some d))"
proof -
  have m: "memo_col c = memo_col d" "memo_ok (memo_col d) (memo_values c)" "memo_ok (memo_col d) (memo_values d)"
    using assms by (auto simp: same_column_def)
  note v = values_loop_memo [OF m(2,3), of "term_ords (memo_col d) doc"]
  have cv: "map_option snd (column_values x doc)
      = map_option snd (values_loop (memo_col x) (memo_values x) (term_ords (memo_col x) doc))" for x
    by (simp add: column_values_def option.map_comp comp_def case_prod_unfold)
  have "map_option snd (column_values c doc) = map_option snd (column_values d doc)"
    unfolding cv m(1) using v by blast
  moreover have "same_column (Some c') (Some d)" if "column_values c doc = Some (c', vs)" for c' vs
    using that v m by (auto simp: column_values_def same_column_def)
  ultimately show ?thesis by blast
qed

lemma complete_text_same:
  assumes "same_column c d"
  shows "map_option snd (complete_text f c doc document) = map_option snd (complete_text f d doc document)
     \<and> (\<forall>c' x. complete_text f c doc document = Some (c', x) \<longrightarrow> same_column c' d)"
proof (cases c)
  case None
  with assms show ?thesis by (auto simp: same_column_def complete_text_def option_rel_Some2 split: option.splits)
next
  case (Some y)
  then obtain z where z: "d = Some z" using assms by (auto simp: same_column_def option_rel_Some1)
  note v = column_values_same [of y z doc] assms [unfolded Some z]
  then have "map_option (\<lambda>vs. document @ map (\<lambda>v. (f, Text_value v)) vs) (map_option snd (column_values y doc))
      = map_option (\<lambda>vs. document @ map (\<lambda>v. (f, Text_value v)) vs) (map_option snd (column_values z doc))"
    by simp
  then have "map_option (\<lambda>r. document @ map (\<lambda>v. (f, Text_value v)) (snd r)) (column_values y doc)
      = map_option (\<lambda>r. document @ map (\<lambda>v. (f, Text_value v)) (snd r)) (column_values z doc)"
    by (simp add: option.map_comp comp_def)
  with v Some z show ?thesis
    by (auto simp: complete_text_def option.map_comp comp_def case_prod_unfold)
qed

lemma map_option_snd_Some:
  "map_option snd x = map_option snd y \<Longrightarrow> x = Some (a, b) \<Longrightarrow> \<exists>e. y = Some (e, b)"
  by (cases y) auto

lemma complete_document_same:
  assumes "same_columns c d"
  shows "map_option snd (complete_document flds c doc document) = map_option snd (complete_document flds d doc document)
     \<and> (\<forall>c' x. complete_document flds c doc document = Some (c', x) \<longrightarrow> same_columns c' d)"
proof -
  have t: "same_column (seg_title c) (seg_title d)" and p: "same_column (seg_file_path c) (seg_file_path d)"
    and b: "seg_is_pdf c = seg_is_pdf d" using assms by (auto simp: same_columns_def)
  note t' = complete_text_same [OF t, of "title_field flds" doc document]
  show ?thesis
  proof (cases "complete_text (title_field flds) (seg_title c) doc document")
    case None
    with t' have "complete_text (title_field flds) (seg_title d) doc document = None" by auto
    with None show ?thesis by (simp add: complete_document_def)
  next
    case (Some r)
    obtain c1 d1 where r: "r = (c1, d1)" by fastforce
    obtain e1 where e: "complete_text (title_field flds) (seg_title d) doc document = Some (e1, d1)"
      using map_option_snd_Some [OF conjunct1 [OF t']] Some r by blast
    note p' = complete_text_same [OF p, of "file_path_field flds" doc d1]
    show ?thesis
    proof (cases "complete_text (file_path_field flds) (seg_file_path c) doc d1")
      case None
      with p' have "complete_text (file_path_field flds) (seg_file_path d) doc d1 = None" by auto
      with None Some r e show ?thesis by (simp add: complete_document_def)
    next
      case S: (Some r2)
      obtain c2 d2 where r2: "r2 = (c2, d2)" by fastforce
      obtain e2 where "complete_text (file_path_field flds) (seg_file_path d) doc d1 = Some (e2, d2)"
        using map_option_snd_Some [OF conjunct1 [OF p']] S r2 by blast
      with S r2 Some r e t' p' b show ?thesis
        by (simp add: complete_document_def Let_def same_columns_def)
    qed
  qed
qed

subsection \<open>The loader keeps only what it would read again\<close>

definition loader_ok :: "searcher \<Rightarrow> loader \<Rightarrow> bool" where
  "loader_ok env l \<longleftrightarrow>
     (case loader_fields l of
        None \<Rightarrow> \<forall>c\<in>set (loader_segments l). c = None
      | Some f \<Rightarrow> read_fields env = Some f
          \<and> (\<forall>i<length (loader_segments l). \<forall>c. loader_segments l ! i = Some c \<longrightarrow>
               (\<exists>c0. open_columns env f i = Some c0 \<and> same_columns c c0)))"

lemma open_str_column_same: "open_str_column env s f n = Some c \<Longrightarrow> same_column c c"
  by (auto simp: open_str_column_def same_column_def memo_ok_def option.rel_map rel_option_reflI
      split: if_splits)

lemma open_columns_same: "open_columns env f i = Some c \<Longrightarrow> same_columns c c"
  using open_str_column_same by (fastforce simp: open_columns_def same_columns_def bind_eq_Some_conv)

lemma load_step:
  assumes "loader_ok env l"
  shows "map_option snd (load env l address) = load_document env address
     \<and> (\<forall>l' d. load env l address = Some (l', d) \<longrightarrow> loader_ok env l')"
proof -
  obtain i doc where a: "address = (i, doc)" by fastforce
  show ?thesis
  proof (cases "stored_doc env address")
    case None
    then show ?thesis by (simp add: load_def load_document_def)
  next
    case (Some document)
    note raw = Some
    have fld: "(case loader_fields l of Some f \<Rightarrow> Some f | None \<Rightarrow> read_fields env) = read_fields env"
      using assms by (auto simp: loader_ok_def split: option.splits)
    show ?thesis
    proof (cases "read_fields env")
      case None
      then show ?thesis using raw fld by (simp add: load_def load_document_def loader_new_def)
    next
      case (Some f)
      let ?segs = "if length (loader_segments l) \<le> i
          then loader_segments l @ replicate (i + 1 - length (loader_segments l)) None
          else loader_segments l"
      let ?cols = "case ?segs ! i of Some c \<Rightarrow> Some c | None \<Rightarrow> open_columns env f i"
      have seg_at: "\<exists>c0. open_columns env f j = Some c0 \<and> same_columns c c0"
        if "j < length ?segs" "?segs ! j = Some c" for j c
      proof (cases "j < length (loader_segments l)")
        case True
        then have "loader_segments l ! j = Some c" using that by (auto simp: nth_append split: if_splits)
        moreover from this True have "loader_fields l \<noteq> None"
          using assms nth_mem by (fastforce simp: loader_ok_def split: option.splits)
        ultimately show ?thesis using assms True Some by (auto simp: loader_ok_def split: option.splits)
      next
        case False
        with that show ?thesis by (auto simp: nth_append split: if_splits)
      qed
      have len: "i < length ?segs" by auto
      have fresh: "load_document env address
          = Option.bind (open_columns env f i) (\<lambda>c0. map_option snd (complete_document f c0 doc document))"
      proof -
        have "replicate (Suc i) (None :: segment_columns option) ! i = None" by (rule nth_replicate) simp
        then have n: "(None # replicate i (None :: segment_columns option)) ! i = None" by simp
        show ?thesis
        proof (cases "open_columns env f i")
          case (Some c0)
          then show ?thesis using raw \<open>read_fields env = Some f\<close> a n
            by (cases "complete_document f c0 doc document")
              (simp_all add: load_document_def load_def loader_new_def Let_def case_prod_unfold)
        qed (use raw \<open>read_fields env = Some f\<close> a n in
            \<open>simp add: load_document_def load_def loader_new_def Let_def\<close>)
      qed
      have mine: "load env l address = Option.bind ?cols (\<lambda>c. Option.bind (complete_document f c doc document)
          (\<lambda>r. Some (\<lparr>loader_fields = Some f, loader_segments = ?segs[i := Some (fst r)]\<rparr>, snd r)))"
        unfolding load_def using raw Some fld a by (simp add: Let_def case_prod_unfold)
      show ?thesis
      proof (cases ?cols)
        case None
        then have "open_columns env f i = None" by (simp split: option.splits)
        then show ?thesis using None mine fresh by simp
      next
        case C: (Some c)
        obtain c0 where c0: "open_columns env f i = Some c0" "same_columns c c0"
          using C seg_at [OF len] open_columns_same by (cases "?segs ! i") auto
        note cd = complete_document_same [OF c0(2), of f doc document]
        have mine_c: "load env l address = Option.bind (complete_document f c doc document)
          (\<lambda>r. Some (\<lparr>loader_fields = Some f, loader_segments = ?segs[i := Some (fst r)]\<rparr>, snd r))"
          unfolding mine C by simp
        have fresh_c: "load_document env address = map_option snd (complete_document f c0 doc document)"
          unfolding fresh c0(1) by simp
        have eq: "map_option snd (load env l address) = load_document env address"
          unfolding mine_c fresh_c using cd by (cases "complete_document f c doc document") simp_all
        have "loader_ok env l'" if "load env l address = Some (l', d)" for l' d
        proof -
          from that obtain r where r: "complete_document f c doc document = Some r"
            "l' = \<lparr>loader_fields = Some f, loader_segments = ?segs[i := Some (fst r)]\<rparr>"
            unfolding mine_c by (auto simp: bind_eq_Some_conv)
          have "same_columns (fst r) c0" using cd r(1) by (metis prod.collapse)
          then have "\<exists>c0. open_columns env f j = Some c0 \<and> same_columns e c0"
            if "j < length ?segs" "(?segs[i := Some (fst r)]) ! j = Some e" for j e
            using that seg_at [of j e] c0(1) by (cases "j = i") auto
          then show ?thesis using Some r(2) by (simp add: loader_ok_def)
        qed
        with eq show ?thesis by blast
      qed
    qed
  qed
qed

subsection \<open>Properties\<close>

fun load_all :: "searcher \<Rightarrow> loader \<Rightarrow> (nat \<times> nat) list \<Rightarrow> (loader \<times> document list) option" where
  "load_all env l [] = Some (l, [])"
| "load_all env l (x # xs) =
     Option.bind (load env l x) (\<lambda>r. map_option (\<lambda>q. (fst q, snd r # snd q)) (load_all env (fst r) xs))"

text \<open>A loader that has loaded any number of documents, from any segments, returns for the
  next ones what a fresh loader would: loading a list of documents with one loader is loading each by
  itself with \<^verbatim>\<open>load_document\<close>, errors included.\<close>

theorem loader_is_load_document:
  "map_option snd (load_all env loader_new xs) = those (map (load_document env) xs)"
proof -
  have "map_option snd (load_all env l xs) = those (map (load_document env) xs)" if "loader_ok env l" for l
    using that
  proof (induction xs arbitrary: l)
    case (Cons x xs)
    note step = load_step [OF Cons.prems, of x]
    show ?case
    proof (cases "load env l x")
      case None
      then have "load_document env x = None" using step by simp
      with None show ?thesis by simp
    next
      case (Some r)
      then have "load_document env x = Some (snd r)" "loader_ok env (fst r)"
        using step by (metis option.simps(9), metis prod.collapse)
      with Some Cons.IH [of "fst r", symmetric] show ?thesis
        by (cases "load_all env (fst r) xs") auto
    qed
  qed simp
  moreover have "loader_ok env loader_new" by (simp add: loader_ok_def loader_new_def)
  ultimately show ?thesis by blast
qed

lemma map_of_values: "map_of (map (\<lambda>v. (f, g v)) vs) k = (if k = f \<and> vs \<noteq> [] then Some (g (hd vs)) else None)"
  by (cases vs) (auto simp: map_of_eq_None_iff)

lemma complete_text_get:
  assumes "complete_text f c doc document = Some (c', document')"
  shows "k \<noteq> f \<or> get_first document k \<noteq> None \<Longrightarrow> get_first document' k = get_first document k"
  using assms
  by (auto simp: complete_text_def get_first_def missing_def map_add_def map_of_values
      split: option.splits if_splits)

text \<open>Completing a stored document gives back the line ordinal it was written with, whether
  it was stored or left out as derived from the id, and changes no field the document already
  holds.\<close>

theorem segment_round_trip:
  assumes "get_first document (id_field flds) = Some (U64_value n)"
    "get_first document (segment_field flds) = map_option U64_value (segment_to_store n seg)"
    "segment_field flds \<notin> {title_field flds, file_path_field flds, is_pdf_field flds, id_field flds}"
    "complete_document flds columns doc document = Some (columns', document')"
  shows "get_first document' (segment_field flds) = Some (U64_value seg)
    \<and> (\<forall>k v. get_first document k = Some v \<longrightarrow> get_first document' k = Some v)"
proof -
  from assms(4) obtain t d1 p d2 where
    t: "complete_text (title_field flds) (seg_title columns) doc document = Some (t, d1)" and
    p: "complete_text (file_path_field flds) (seg_file_path columns) doc d1 = Some (p, d2)"
    by (auto simp: complete_document_def bind_eq_Some_conv)
  define d3 where "d3 = complete_pdf flds (seg_is_pdf columns) doc d2"
  have d': "document' = complete_segment flds d3"
    using assms(4) t p by (simp add: complete_document_def d3_def)
  have g3: "get_first d3 k = get_first d2 k" if "k \<noteq> is_pdf_field flds \<or> get_first d2 k \<noteq> None" for k
    using that by (auto simp: d3_def complete_pdf_def get_first_def missing_def map_add_def map_of_values
        split: option.splits if_splits)
  have keep: "get_first d3 k = Some v" if "get_first document k = Some v" for k v
    using that complete_text_get [OF t, of k] complete_text_get [OF p, of k] g3 [of k] by simp
  have sg: "get_first d3 (segment_field flds) = get_first document (segment_field flds)"
    using assms(3) complete_text_get [OF t] complete_text_get [OF p] g3 by simp
  have nid: "get_first d3 (id_field flds) = Some (U64_value n)" using keep assms(1) by blast
  have "get_first document' (segment_field flds) = Some (U64_value seg)"
  proof (cases "segment_to_store n seg")
    case None
    then have "seg = derived_segment n" by (simp add: segment_to_store_def split: if_splits)
    with None assms(2) sg nid d' show ?thesis
      by (simp add: complete_segment_def missing_def as_u64_def get_first_def map_add_def)
  next
    case (Some x)
    then have "x = seg" by (simp add: segment_to_store_def split: if_splits)
    with Some assms(2) sg d' show ?thesis by (simp add: complete_segment_def missing_def)
  qed
  moreover have "get_first document' k = Some v" if "get_first document k = Some v" for k v
    using keep [OF that] nid d'
    by (auto simp: complete_segment_def missing_def as_u64_def get_first_def map_add_def split: if_splits)
  ultimately show ?thesis by blast
qed

definition demo_fields :: completed_fields where
  "demo_fields = \<lparr>title_field = 0, file_path_field = 1, is_pdf_field = 2, segment_field = 3, id_field = 4\<rparr>"

definition demo_columns :: segment_columns where
  "demo_columns = \<lparr>seg_title = Some \<lparr>memo_col = \<lparr>term_ords = \<lambda>_. [5], ord_to_str = \<lambda>_. Some (Some [0x5D0])\<rparr>, memo_values = []\<rparr>,
                   seg_file_path = None, seg_is_pdf = Some (\<lambda>_. [True])\<rparr>"

lemma segment_round_trip_witness:
  "\<exists>c d. complete_document demo_fields demo_columns 0 [(4, U64_value 0x500000007)] = Some (c, d)
     \<and> get_first d 3 = Some (U64_value 6)"
proof -
  obtain c d where cd: "complete_document demo_fields demo_columns 0 [(4, U64_value 0x500000007)] = Some (c, d)"
    by (simp add: complete_document_def complete_text_def column_values_def demo_fields_def
        demo_columns_def missing_def get_first_def Let_def bind_eq_Some_conv)
  have "segment_to_store 0x500000007 6 = None"
    by (simp add: segment_to_store_def derived_segment_def LINE_MASK_def Let_def)
  then have "get_first d (segment_field demo_fields) = Some (U64_value 6)"
    using segment_round_trip [OF _ _ _ cd, of "0x500000007" 6] by (simp add: demo_fields_def get_first_def)
  with cd show ?thesis by (auto simp: demo_fields_def)
qed

end
