(* ===== verification/LexicalCancellation.thy ===== *)
theory LexicalCancellation
  imports IdLookup "HOL-Library.AList"
begin

section \<open>Cancelling a lexical search\<close>

text \<open>
  \<^verbatim>\<open>lexical_cancellation.rs\<close>. A flag is an \<^verbatim>\<open>Arc<AtomicBool>\<close> shared by the registry and
  the running calls: an address into a store of booleans. The registry maps request ids to a
  flag and the number of running calls, and remembers the ids cancelled with no call running. The
  operations of several threads interleave under the registry's lock: a step relation over the
  registry and the open calls. The scorer that looks at its flag every \<open>CHECK_EVERY\<close> documents
  reads a flag that other threads may raise: its value at the n-th look is a parameter.
\<close>

subsection \<open>The registry\<close>

record entry =
  entry_flag :: nat
  running :: nat

record registry =
  entries :: "(nat \<times> entry) list"
  remembered :: "nat list"
  flags :: "bool list"

definition REMEMBERED :: nat where
  "REMEMBERED = 1024"

definition registry_new :: registry where
  "registry_new = \<lparr>entries = [], remembered = [], flags = []\<rparr>"

definition entry_of :: "registry \<Rightarrow> nat \<Rightarrow> entry option" where
  "entry_of r i = map_of (entries r) i"

definition flag_at :: "registry \<Rightarrow> nat \<Rightarrow> bool" where
  "flag_at r a = (a < length (flags r) \<and> flags r ! a)"

definition idle :: "registry \<Rightarrow> nat \<Rightarrow> bool" where
  "idle r i \<longleftrightarrow> (case entry_of r i of None \<Rightarrow> False | Some e \<Rightarrow> running e = 0)"

definition remove_entry :: "nat \<Rightarrow> registry \<Rightarrow> registry" where
  "remove_entry i r = r\<lparr>entries := AList.delete i (entries r)\<rparr>"

definition put_entry :: "nat \<Rightarrow> entry \<Rightarrow> registry \<Rightarrow> registry" where
  "put_entry i e r = r\<lparr>entries := AList.update i e (entries r)\<rparr>"

text \<open>The loop of \<^verbatim>\<open>Registry::remember\<close>: forget the oldest while there are too many.\<close>

function forget :: "registry \<Rightarrow> registry" where
  "forget r =
     (case remembered r of
        [] \<Rightarrow> r
      | old # rest \<Rightarrow>
          if length (remembered r) \<le> REMEMBERED then r
          else forget (let r' = r\<lparr>remembered := rest\<rparr> in if idle r' old then remove_entry old r' else r'))"
  by pat_completeness auto

termination forget
  by (relation "measure (\<lambda>r. length (remembered r))") (auto simp: Let_def remove_entry_def)

declare forget.simps [simp del]

definition remember :: "nat \<Rightarrow> registry \<Rightarrow> registry" where
  "remember i r = forget (r\<lparr>remembered := remembered r @ [i]\<rparr>)"

text \<open>\<^verbatim>\<open>entry(id).or_insert_with\<close>: a new entry has a fresh flag.\<close>

definition or_new_entry :: "nat \<Rightarrow> registry \<Rightarrow> registry \<times> entry" where
  "or_new_entry i r =
     (case entry_of r i of
        Some e \<Rightarrow> (r, e)
      | None \<Rightarrow>
          (let e = \<lparr>entry_flag = length (flags r), running = 0\<rparr>
           in ((put_entry i e r)\<lparr>flags := flags r @ [False]\<rparr>, e)))"

text \<open>A call in progress: the flag and the id it holds, or neither.\<close>

type_synonym request = "(nat \<times> nat) option"

definition begin_request :: "nat option \<Rightarrow> registry \<Rightarrow> registry \<times> request" where
  "begin_request rid r =
     (case rid of
        None \<Rightarrow> (r, None)
      | Some i \<Rightarrow>
          (let (r', e) = or_new_entry i r
           in (put_entry i (e\<lparr>running := running e + 1\<rparr>) r', Some (entry_flag e, i))))"

definition cancel :: "nat \<Rightarrow> registry \<Rightarrow> registry" where
  "cancel i r =
     (let (r', e) = or_new_entry i r;
          first = \<not> flag_at r' (entry_flag e);
          r'' = r'\<lparr>flags := (flags r')[entry_flag e := True]\<rparr>
      in if first \<and> running e = 0 then remember i r'' else r'')"

text \<open>\<^verbatim>\<open>end\<close>: \<open>None\<close> is the panic of \<^verbatim>\<open>running -= 1\<close> below zero.\<close>

definition end_request :: "nat \<Rightarrow> registry \<Rightarrow> registry option" where
  "end_request i r =
     (case entry_of r i of
        None \<Rightarrow> Some r
      | Some e \<Rightarrow> do {
          n \<leftarrow> checked_sub (running e) 1;
          let r' = put_entry i (e\<lparr>running := n\<rparr>) r;
          Some (if 0 < n then r'
                else if flag_at r' (entry_flag e) then remember i r'
                else remove_entry i r') })"

definition drop_request :: "request \<Rightarrow> registry \<Rightarrow> registry option" where
  "drop_request q r = (case q of None \<Rightarrow> Some r | Some (_, i) \<Rightarrow> end_request i r)"

definition is_cancelled :: "registry \<Rightarrow> request \<Rightarrow> bool" where
  "is_cancelled r q = (case q of None \<Rightarrow> False | Some (a, _) \<Rightarrow> flag_at r a)"

text \<open>\<^verbatim>\<open>check\<close> and \<^verbatim>\<open>finish\<close>: \<open>Inl ()\<close> is the error of a cancelled search.\<close>

definition request_check :: "registry \<Rightarrow> request \<Rightarrow> (unit + unit)" where
  "request_check r q = (if is_cancelled r q then Inl () else Inr ())"

definition finish :: "registry \<Rightarrow> request \<Rightarrow> (unit + 'a) \<Rightarrow> unit + 'a" where
  "finish r q result = (case request_check r q of Inl e \<Rightarrow> Inl e | Inr _ \<Rightarrow> result)"

text \<open>The thread's current flag (\<^verbatim>\<open>CURRENT\<close>) and its check. A scope replaces it by the request's
  while it runs, and its guard puts the saved one back; \<open>run\<close> is the closure, which other
  threads may interleave with: it returns the registry as it is when the closure ends.\<close>

definition check_flag :: "registry \<Rightarrow> nat option \<Rightarrow> (unit + unit)" where
  "check_flag r f = (case f of None \<Rightarrow> Inr () | Some a \<Rightarrow> if flag_at r a then Inl () else Inr ())"

definition scope ::
  "request \<Rightarrow> (registry \<times> nat option \<Rightarrow> (registry \<times> nat option) \<times> (unit + 'a))
    \<Rightarrow> registry \<times> nat option \<Rightarrow> (registry \<times> nat option) \<times> (unit + 'a)" where
  "scope q run st =
     (case request_check (fst st) q of
        Inl e \<Rightarrow> (st, Inl e)
      | Inr _ \<Rightarrow>
          (let saved = snd st;
               ((r', _), result) = run (fst st, map_option fst q)
           in ((r', saved), finish r' q result)))"

subsection \<open>The calls of several threads\<close>

record system =
  reg :: registry
  open_calls :: "(nat \<times> nat) list"
  ever_cancelled :: "nat set"

inductive step :: "system \<Rightarrow> system \<Rightarrow> bool" where
  step_begin: "begin_request (Some i) (reg s) = (r, Some q)
    \<Longrightarrow> step s (s\<lparr>reg := r, open_calls := q # open_calls s\<rparr>)"
| step_cancel: "step s (s\<lparr>reg := cancel i (reg s), ever_cancelled := insert i (ever_cancelled s)\<rparr>)"
| step_end: "q \<in> set (open_calls s) \<Longrightarrow> drop_request (Some q) (reg s) = Some r
    \<Longrightarrow> step s (s\<lparr>reg := r, open_calls := remove1 q (open_calls s)\<rparr>)"

inductive_cases step_cases: "step s t"

definition system_new :: system where
  "system_new = \<lparr>reg = registry_new, open_calls = [], ever_cancelled = {}\<rparr>"

inductive reachable :: "system \<Rightarrow> bool" where
  reachable_new: "reachable system_new"
| reachable_step: "reachable s \<Longrightarrow> step s t \<Longrightarrow> reachable t"

text \<open>The invariant: entries count their open calls and share one flag with them, distinct ids
  have distinct flags, an entry without a call is cancelled and remembered, a flag is raised
  only for an id that was cancelled, and at most \<open>REMEMBERED\<close> ids are remembered.\<close>

definition calls_with :: "nat \<Rightarrow> (nat \<times> nat) list \<Rightarrow> nat" where
  "calls_with i calls = length (filter (\<lambda>q. snd q = i) calls)"

definition entry_ok :: "registry \<Rightarrow> (nat \<times> nat) list \<Rightarrow> nat set \<Rightarrow> nat \<Rightarrow> entry \<Rightarrow> bool" where
  "entry_ok r calls can i e \<longleftrightarrow> entry_flag e < length (flags r) \<and> running e = calls_with i calls
     \<and> (running e = 0 \<longrightarrow> flag_at r (entry_flag e) \<and> i \<in> set (remembered r))
     \<and> (flag_at r (entry_flag e) \<longrightarrow> i \<in> can)"

definition registry_core :: "registry \<Rightarrow> (nat \<times> nat) list \<Rightarrow> nat set \<Rightarrow> bool" where
  "registry_core r calls can \<longleftrightarrow>
     (\<forall>i e. entry_of r i = Some e \<longrightarrow> entry_ok r calls can i e)
     \<and> (\<forall>i j e f. entry_of r i = Some e \<longrightarrow> entry_of r j = Some f \<longrightarrow> entry_flag e = entry_flag f \<longrightarrow> i = j)
     \<and> (\<forall>a i. (a, i) \<in> set calls \<longrightarrow> (\<exists>e. entry_of r i = Some e \<and> entry_flag e = a))"

definition system_inv :: "system \<Rightarrow> bool" where
  "system_inv s \<longleftrightarrow> registry_core (reg s) (open_calls s) (ever_cancelled s)
     \<and> length (remembered (reg s)) \<le> REMEMBERED"

subsection \<open>The operations keep the invariant\<close>

lemma entry_of_put [simp]: "entry_of (put_entry i e r) j = (if j = i then Some e else entry_of r j)"
  by (simp add: entry_of_def put_entry_def update_conv)

lemma entry_of_remove [simp]: "entry_of (remove_entry i r) j = (if j = i then None else entry_of r j)"
  by (simp add: entry_of_def remove_entry_def delete_conv)

lemma fields_put [simp]: "flags (put_entry i e r) = flags r" "remembered (put_entry i e r) = remembered r"
  by (simp_all add: put_entry_def)

lemma put_remembered [simp]: "put_entry i e r\<lparr>remembered := remembered r\<rparr> = put_entry i e r"
  by (simp add: put_entry_def)

lemma fields_remove [simp]:
  "flags (remove_entry i r) = flags r" "remembered (remove_entry i r) = remembered r"
  by (simp_all add: remove_entry_def)

lemma entry_of_fields [simp]: "entry_of (r\<lparr>remembered := xs\<rparr>) i = entry_of r i"
  "entry_of (r\<lparr>flags := fs\<rparr>) i = entry_of r i"
  by (simp_all add: entry_of_def)

lemma flag_at_fields [simp]: "flag_at (r\<lparr>remembered := xs\<rparr>) a = flag_at r a"
  "flag_at (put_entry i e r) a = flag_at r a" "flag_at (remove_entry i r) a = flag_at r a"
  by (simp_all add: flag_at_def)

lemma no_calls: "calls_with i calls = 0 \<longleftrightarrow> (\<forall>a. (a, i) \<notin> set calls)"
  by (auto simp: calls_with_def filter_empty_conv)

lemma forget_keeps:
  "registry_core r calls can \<Longrightarrow>
     registry_core (forget r) calls can \<and> length (remembered (forget r)) \<le> REMEMBERED
     \<and> flags (forget r) = flags r
     \<and> (\<forall>i e. entry_of (forget r) i = Some e \<longrightarrow> entry_of r i = Some e)"
proof (induction r rule: forget.induct)
  case (1 r)
  show ?case
  proof (cases "remembered r")
    case Nil
    then show ?thesis using 1 by (subst (1 2 3 4) forget.simps) simp
  next
    case (Cons old rest)
    show ?thesis
    proof (cases "length (remembered r) \<le> REMEMBERED")
      case True
      with Cons 1 show ?thesis by (subst (1 2 3 4) forget.simps) simp
    next
      case False
      let ?r = "let r' = r\<lparr>remembered := rest\<rparr> in if idle r' old then remove_entry old r' else r'"
      have fr: "forget r = forget ?r" using Cons False by (subst forget.simps) simp
      have idle: "idle (r\<lparr>remembered := rest\<rparr>) old = idle r old" by (simp add: idle_def)
      have ent: "entry_of ?r i = (if i = old \<and> idle r old then None else entry_of r i)" for i
        unfolding Let_def idle by simp
      have fl: "flags ?r = flags r" "remembered ?r = rest" unfolding Let_def by simp_all
      have fa: "flag_at ?r x = flag_at r x" for x using fl by (simp add: flag_at_def)
      have "registry_core ?r calls can"
        unfolding registry_core_def
      proof (intro conjI allI impI)
        fix i e
        assume e: "entry_of ?r i = Some e"
        then have r: "entry_of r i = Some e" and ni: "\<not> (i = old \<and> idle r old)"
          unfolding ent by (auto split: if_splits)
        then have ok: "entry_ok r calls can i e" using "1.prems" by (simp add: registry_core_def)
        have "i \<in> set rest" if "running e = 0"
        proof -
          have "i \<noteq> old" using ni r that by (auto simp: idle_def)
          moreover have "i \<in> set (remembered r)" using ok that by (simp add: entry_ok_def)
          ultimately show ?thesis using Cons by simp
        qed
        then show "entry_ok ?r calls can i e" using ok unfolding entry_ok_def fl fa by blast
      next
        fix i j e f
        assume "entry_of ?r i = Some e" "entry_of ?r j = Some f" "entry_flag e = entry_flag f"
        then show "i = j" using "1.prems" unfolding ent registry_core_def by (metis option.distinct(1))
      next
        fix x i
        assume q: "(x, i) \<in> set calls"
        then obtain e where e: "entry_of r i = Some e" "entry_flag e = x"
          using "1.prems" unfolding registry_core_def by blast
        then have "running e \<noteq> 0"
          using "1.prems" q no_calls by (fastforce simp: registry_core_def entry_ok_def)
        with e show "\<exists>e. entry_of ?r i = Some e \<and> entry_flag e = x"
          unfolding ent by (auto simp: idle_def)
      qed
      from "1.IH" [OF Cons False this] show ?thesis
        unfolding fr ent fl(1) by (metis option.distinct(1))
    qed
  qed
qed

lemma remember_keeps:
  "registry_core (r\<lparr>remembered := remembered r @ [i]\<rparr>) calls can \<Longrightarrow>
     registry_core (remember i r) calls can \<and> length (remembered (remember i r)) \<le> REMEMBERED
     \<and> flags (remember i r) = flags r"
  using forget_keeps [of "r\<lparr>remembered := remembered r @ [i]\<rparr>"] by (simp add: remember_def)

lemma calls_with_Cons: "calls_with i ((x, j) # calls) = calls_with i calls + (if i = j then 1 else 0)"
  by (simp add: calls_with_def)

lemma calls_with_remove1:
  "(x, j) \<in> set calls \<Longrightarrow> calls_with i (remove1 (x, j) calls) = calls_with i calls - (if i = j then 1 else 0)"
  by (auto simp: calls_with_def filter_remove1 length_remove1)

text \<open>The entry a call or a cancel starts from: old, or new with a fresh lowered flag.\<close>

lemma or_new_entry_spec:
  assumes "registry_core r calls can" "or_new_entry i r = (r', e)"
  shows "(\<forall>j. j \<noteq> i \<longrightarrow> entry_of r' j = entry_of r j) \<and> entry_of r' i = Some e
    \<and> remembered r' = remembered r \<and> entry_flag e < length (flags r')
    \<and> (\<forall>x < length (flags r). flag_at r' x = flag_at r x) \<and> length (flags r) \<le> length (flags r')
    \<and> running e = calls_with i calls
    \<and> (flag_at r' (entry_flag e) \<longrightarrow> entry_of r i = Some e)
    \<and> (entry_of r i = None \<longrightarrow> entry_flag e = length (flags r))
    \<and> (entry_of r i \<noteq> None \<longrightarrow> r' = r)"
proof (cases "entry_of r i")
  case (Some f)
  then have "r' = r" "e = f" using assms(2) by (simp_all add: or_new_entry_def)
  with Some assms(1) show ?thesis by (simp add: registry_core_def entry_ok_def)
next
  case None
  then have r': "r' = (put_entry i e r)\<lparr>flags := flags r @ [False]\<rparr>"
    and e: "e = \<lparr>entry_flag = length (flags r), running = 0\<rparr>"
    using assms(2) by (auto simp: or_new_entry_def Let_def)
  have "calls_with i calls = 0"
    using None assms(1) unfolding no_calls registry_core_def by (metis option.distinct(1))
  with None show ?thesis by (simp add: r' e flag_at_def nth_append)
qed

lemma core_entry: "registry_core r calls can \<Longrightarrow> entry_of r i = Some e \<Longrightarrow> entry_ok r calls can i e"
  by (simp add: registry_core_def)

lemma core_inj: "registry_core r calls can \<Longrightarrow> entry_of r i = Some e \<Longrightarrow> entry_of r j = Some f \<Longrightarrow>
    entry_flag e = entry_flag f \<Longrightarrow> i = j"
  unfolding registry_core_def by blast

lemma core_call: "registry_core r calls can \<Longrightarrow> (a, i) \<in> set calls \<Longrightarrow>
    \<exists>e. entry_of r i = Some e \<and> entry_flag e = a"
  unfolding registry_core_def by blast

lemma begin_keeps:
  assumes "registry_core r calls can" "begin_request (Some i) r = (r', Some q)"
  shows "registry_core r' (q # calls) can \<and> remembered r' = remembered r
    \<and> (\<forall>x < length (flags r). flag_at r' x = flag_at r x)"
proof -
  obtain r1 e where o: "or_new_entry i r = (r1, e)" by fastforce
  note n = or_new_entry_spec [OF assms(1) o]
  have other: "\<And>j. j \<noteq> i \<Longrightarrow> entry_of r1 j = entry_of r j" and flag_lt: "entry_flag e < length (flags r1)"
    and old_flag: "\<And>x. x < length (flags r) \<Longrightarrow> flag_at r1 x = flag_at r x"
    and len: "length (flags r) \<le> length (flags r1)" and at_i1: "entry_of r1 i = Some e"
    and rem1: "remembered r1 = remembered r" and run1: "running e = calls_with i calls"
    and was: "flag_at r1 (entry_flag e) \<Longrightarrow> entry_of r i = Some e"
    using n by blast+
  let ?e = "e\<lparr>running := running e + 1\<rparr>"
  have r': "r' = put_entry i ?e r1" and q: "q = (entry_flag e, i)"
    using assms(2) o by (auto simp: begin_request_def)
  have "registry_core r' (q # calls) can"
    unfolding registry_core_def
  proof (intro conjI allI impI)
    fix j f
    assume f: "entry_of r' j = Some f"
    show "entry_ok r' (q # calls) can j f"
    proof (cases "j = i")
      case True
      then have "f = ?e" using f r' by simp
      moreover have "i \<in> can" if "flag_at r1 (entry_flag e)"
        using core_entry [OF assms(1) was [OF that]] that old_flag by (simp add: entry_ok_def)
      ultimately show ?thesis using True run1 flag_lt
        by (simp add: entry_ok_def r' q calls_with_Cons)
    next
      case False
      then have "entry_of r j = Some f" using f r' other by simp
      note ok = core_entry [OF assms(1) this]
      then have "flag_at r1 (entry_flag f) = flag_at r (entry_flag f)"
        using old_flag by (simp add: entry_ok_def)
      with ok len False rem1 show ?thesis by (simp add: entry_ok_def r' q calls_with_Cons)
    qed
  next
    fix j k f g
    assume fg: "entry_of r' j = Some f" "entry_of r' k = Some g" "entry_flag f = entry_flag g"
    have old: "\<exists>h. entry_of r j = Some h \<and> entry_flag h = entry_flag f"
      if "entry_of r' j = Some f" "entry_of r i \<noteq> None \<or> j \<noteq> i" for j f
    proof (cases "j = i")
      case True
      then have "r1 = r" using that(2) n by blast
      then have "entry_of r i = Some e" using at_i1 by simp
      then show ?thesis using that(1) True r' by auto
    next
      case False
      then show ?thesis using that(1) other r' by simp
    qed
    show "j = k"
    proof (cases "entry_of r i = None")
      case False
      then show ?thesis using old fg core_inj [OF assms(1)] by metis
    next
      case True
      then have fresh: "entry_flag e = length (flags r)" using n by blast
      have lt: "entry_flag f < length (flags r)" if "entry_of r' j = Some f" "j \<noteq> i" for j f
        using old [of j f] that core_entry [OF assms(1)] by (fastforce simp: entry_ok_def)
      have at_i: "entry_flag f = entry_flag e" if "entry_of r' i = Some f" for f
        using that r' by auto
      show ?thesis
      proof (cases "j = i"; cases "k = i")
        assume "j = i" "k \<noteq> i"
        then show ?thesis using fg at_i [of f] fresh lt [of k g] by simp
      next
        assume "j \<noteq> i" "k = i"
        then show ?thesis using fg at_i [of g] fresh lt [of j f] by simp
      next
        assume "j \<noteq> i" "k \<noteq> i"
        then show ?thesis using fg old core_inj [OF assms(1)] by metis
      qed simp
    qed
  next
    fix x j
    assume "(x, j) \<in> set (q # calls)"
    then consider "x = entry_flag e" "j = i" | "(x, j) \<in> set calls" using q by auto
    then show "\<exists>f. entry_of r' j = Some f \<and> entry_flag f = x"
    proof cases
      case 2
      then obtain f where f: "entry_of r j = Some f" "entry_flag f = x"
        using core_call [OF assms(1)] by blast
      show ?thesis
      proof (cases "j = i")
        case True
        then have "r1 = r" using f n by blast
        then show ?thesis using True f at_i1 r' by simp
      next
        case False
        then show ?thesis using f other r' by simp
      qed
    qed (simp add: r')
  qed
  then show ?thesis using rem1 old_flag r' by simp
qed

text \<open>Raising a flag: what changes, and what stays.\<close>

lemma raise_flag:
  assumes "x < length (flags r)"
  shows "flag_at (r\<lparr>flags := (flags r)[x := True]\<rparr>) y \<longleftrightarrow> y = x \<or> flag_at r y"
  using assms by (auto simp: flag_at_def nth_list_update)

lemma cancel_keeps:
  assumes "registry_core r calls can" "length (remembered r) \<le> REMEMBERED"
  shows "registry_core (cancel i r) calls (insert i can) \<and> length (remembered (cancel i r)) \<le> REMEMBERED
    \<and> (\<forall>x. flag_at r x \<longrightarrow> flag_at (cancel i r) x)
    \<and> (\<forall>x. (x, i) \<in> set calls \<longrightarrow> flag_at (cancel i r) x)"
proof -
  obtain r1 e where o: "or_new_entry i r = (r1, e)" by fastforce
  note n = or_new_entry_spec [OF assms(1) o]
  have other: "\<And>j. j \<noteq> i \<Longrightarrow> entry_of r1 j = entry_of r j" and flag_lt: "entry_flag e < length (flags r1)"
    and old_flag: "\<And>x. x < length (flags r) \<Longrightarrow> flag_at r1 x = flag_at r x"
    and len: "length (flags r) \<le> length (flags r1)" and at_i1: "entry_of r1 i = Some e"
    and rem1: "remembered r1 = remembered r" and run1: "running e = calls_with i calls"
    and was: "flag_at r1 (entry_flag e) \<Longrightarrow> entry_of r i = Some e"
    using n by blast+
  let ?r = "r1\<lparr>flags := (flags r1)[entry_flag e := True]\<rparr>"
  have fl: "flag_at ?r y \<longleftrightarrow> y = entry_flag e \<or> flag_at r1 y" for y
    using raise_flag n by blast
  have up: "flag_at ?r x" if "flag_at r x" for x
  proof -
    have "x < length (flags r)" using that by (simp add: flag_at_def)
    then show ?thesis using that fl old_flag by simp
  qed
  have mine: "flag_at ?r x" if mem: "(x, i) \<in> set calls" for x
  proof -
    obtain f where "entry_of r i = Some f" "entry_flag f = x" using core_call [OF assms(1) mem] by blast
    moreover from this have "r1 = r" using n by blast
    ultimately have "x = entry_flag e" using at_i1 by simp
    then show ?thesis using fl by blast
  qed
  have inj: "j = i" if "entry_of ?r j = Some f" "entry_flag f = entry_flag e" for j f
  proof (rule ccontr)
    assume ne: "j \<noteq> i"
    then have f: "entry_of r j = Some f" using that other by simp
    show False
    proof (cases "entry_of r i")
      case None
      then have "entry_flag e = length (flags r)" using n by blast
      then show False using that(2) core_entry [OF assms(1) f] by (simp add: entry_ok_def)
    next
      case (Some g)
      then have "r1 = r" using n by blast
      then have "g = e" using Some at_i1 by simp
      then show False using core_inj [OF assms(1) f Some] that(2) ne by simp
    qed
  qed
  have core: "registry_core (?r\<lparr>remembered := rem\<rparr>) calls (insert i can)"
    if "set (remembered r) \<subseteq> set rem" "running e = 0 \<longrightarrow> i \<in> set rem" for rem
    unfolding registry_core_def
  proof (intro conjI allI impI)
    fix j f
    assume "entry_of (?r\<lparr>remembered := rem\<rparr>) j = Some f"
    then have f: "entry_of ?r j = Some f" by simp
    show "entry_ok (?r\<lparr>remembered := rem\<rparr>) calls (insert i can) j f"
    proof (cases "j = i")
      case True
      then have "f = e" using f at_i1 by simp
      moreover have "flag_at (?r\<lparr>remembered := rem\<rparr>) (entry_flag e)" using fl by (simp add: flag_at_def)
      ultimately show ?thesis using True flag_lt run1 that(2) by (simp add: entry_ok_def)
    next
      case False
      then have "entry_of r j = Some f" using f other by simp
      note ok = core_entry [OF assms(1) this]
      have "entry_flag f \<noteq> entry_flag e" using inj [OF f] False by blast
      then have "flag_at ?r (entry_flag f) = flag_at r (entry_flag f)"
        using fl old_flag ok by (simp add: entry_ok_def)
      with ok that(1) len show ?thesis by (auto simp: entry_ok_def)
    qed
  next
    fix j k f g
    assume "entry_of (?r\<lparr>remembered := rem\<rparr>) j = Some f" "entry_of (?r\<lparr>remembered := rem\<rparr>) k = Some g"
      and eq: "entry_flag f = entry_flag g"
    then have fg: "entry_of ?r j = Some f" "entry_of ?r k = Some g" by simp_all
    show "j = k"
    proof (cases "j = i \<or> k = i")
      case True
      have at_e: "entry_of ?r i = Some e" using at_i1 by simp
      show ?thesis
      proof (cases "j = i")
        case True
        then have "f = e" using fg(1) at_e by simp
        then show ?thesis using inj [OF fg(2)] eq True by simp
      next
        case False
        with \<open>j = i \<or> k = i\<close> have "k = i" by simp
        then have "g = e" using fg(2) at_e by simp
        then show ?thesis using inj [OF fg(1)] eq \<open>k = i\<close> by simp
      qed
    next
      case False
      then have "entry_of r j = Some f" "entry_of r k = Some g" using fg other by simp_all
      then show ?thesis using core_inj [OF assms(1) _ _ eq] by blast
    qed
  next
    fix x j
    assume "(x, j) \<in> set calls"
    then obtain f where f: "entry_of r j = Some f" "entry_flag f = x" using core_call [OF assms(1)] by blast
    moreover have "entry_of r1 j = entry_of r j"
    proof (cases "j = i")
      case True
      then have "entry_of r i \<noteq> None" using f(1) by simp
      then have "r1 = r" using n by blast
      then show ?thesis by simp
    qed (rule other)
    ultimately show "\<exists>f. entry_of (?r\<lparr>remembered := rem\<rparr>) j = Some f \<and> entry_flag f = x" by simp
  qed
  show ?thesis
  proof (cases "\<not> flag_at r1 (entry_flag e) \<and> running e = 0")
    case True
    then have c: "cancel i r = remember i ?r" using o by (simp add: cancel_def Let_def)
    have "registry_core (?r\<lparr>remembered := remembered ?r @ [i]\<rparr>) calls (insert i can)"
      using core [of "remembered r @ [i]"] rem1 by auto
    note rk = remember_keeps [OF this]
    then have "flag_at (remember i ?r) y = flag_at ?r y" for y by (simp add: flag_at_def)
    with rk show ?thesis unfolding c using up mine by blast
  next
    case False
    then have c: "cancel i r = ?r" using o by (auto simp: cancel_def Let_def)
    have "running e = 0 \<longrightarrow> i \<in> set (remembered r)"
    proof
      assume "running e = 0"
      with False have "flag_at r1 (entry_flag e)" by blast
      from core_entry [OF assms(1) was [OF this]] \<open>running e = 0\<close>
      show "i \<in> set (remembered r)" by (simp add: entry_ok_def)
    qed
    from core [OF order_refl this] have "registry_core (?r\<lparr>remembered := remembered ?r\<rparr>) calls (insert i can)"
      using rem1 by simp
    then have "registry_core ?r calls (insert i can)" by simp
    moreover have "length (remembered ?r) \<le> REMEMBERED" using rem1 assms(2) by simp
    ultimately show ?thesis unfolding c using up mine by blast
  qed
qed

lemma end_keeps:
  assumes "registry_core r calls can" "length (remembered r) \<le> REMEMBERED" "(x, i) \<in> set calls"
  shows "\<exists>r'. end_request i r = Some r' \<and> registry_core r' (remove1 (x, i) calls) can
    \<and> length (remembered r') \<le> REMEMBERED \<and> flags r' = flags r"
proof -
  let ?calls = "remove1 (x, i) calls"
  obtain e where e: "entry_of r i = Some e" "entry_flag e = x"
    using core_call [OF assms(1,3)] by blast
  note ok = core_entry [OF assms(1) e(1)]
  have pos: "calls_with i calls \<noteq> 0" using no_calls assms(3) by blast
  then have run: "1 \<le> running e" using ok by (simp add: entry_ok_def)
  let ?e = "e\<lparr>running := running e - 1\<rparr>"
  let ?r = "put_entry i ?e r"
  have other: "entry_ok (?r\<lparr>remembered := rem\<rparr>) ?calls can j f"
    if "j \<noteq> i" "entry_of r j = Some f" "set (remembered r) \<subseteq> set rem" for j f rem
    using that core_entry [OF assms(1) that(2)] assms(3)
    by (auto simp: entry_ok_def calls_with_remove1)
  have mine: "entry_ok (?r\<lparr>remembered := rem\<rparr>) ?calls can i ?e"
    if "running e = 1 \<Longrightarrow> flag_at r x \<and> i \<in> set rem" for rem
    using ok that run e(2) assms(3) by (auto simp: entry_ok_def calls_with_remove1)
  have inj: "j = k" if "entry_of ?r j = Some f" "entry_of ?r k = Some g" "entry_flag f = entry_flag g" for j k f g
  proof -
    have "\<exists>h. entry_of r j = Some h \<and> entry_flag h = entry_flag f" if "entry_of ?r j = Some f" for j f
      using that e by (auto split: if_splits)
    with that show ?thesis using core_inj [OF assms(1)] by metis
  qed
  have held: "\<exists>f. entry_of ?r j = Some f \<and> entry_flag f = y" if "(y, j) \<in> set ?calls" for y j
  proof -
    have "(y, j) \<in> set calls" using that by (meson notin_set_remove1)
    then obtain f where "entry_of r j = Some f" "entry_flag f = y" using core_call [OF assms(1)] by blast
    then show ?thesis using e by (cases "j = i") auto
  qed
  have core: "registry_core (?r\<lparr>remembered := rem\<rparr>) ?calls can"
    if "set (remembered r) \<subseteq> set rem" "running e = 1 \<Longrightarrow> flag_at r x \<and> i \<in> set rem" for rem
    unfolding registry_core_def
  proof (intro conjI allI impI)
    fix j f
    assume "entry_of (?r\<lparr>remembered := rem\<rparr>) j = Some f"
    then show "entry_ok (?r\<lparr>remembered := rem\<rparr>) ?calls can j f"
      using other [OF _ _ that(1)] mine [OF that(2)] by (cases "j = i") auto
  next
    fix j k f g
    assume "entry_of (?r\<lparr>remembered := rem\<rparr>) j = Some f" "entry_of (?r\<lparr>remembered := rem\<rparr>) k = Some g"
      "entry_flag f = entry_flag g"
    then show "j = k" using inj [of j f k g] by simp
  next
    fix y j
    assume "(y, j) \<in> set ?calls"
    from held [OF this] show "\<exists>f. entry_of (?r\<lparr>remembered := rem\<rparr>) j = Some f \<and> entry_flag f = y"
      by simp
  qed
  have step: "end_request i r = Some (if 0 < running e - 1 then ?r
      else if flag_at r x then remember i ?r else remove_entry i ?r)"
    using e run by (simp add: end_request_def checked_sub_def Let_def)
  consider (more) "1 < running e" | (last_flag) "running e = 1" "flag_at r x"
    | (last) "running e = 1" "\<not> flag_at r x" using run by linarith
  then show ?thesis
  proof cases
    case more
    then have "registry_core (?r\<lparr>remembered := remembered ?r\<rparr>) ?calls can" by (intro core) simp_all
    with more step assms(2) show ?thesis by simp
  next
    case last_flag
    then have "registry_core (?r\<lparr>remembered := remembered ?r @ [i]\<rparr>) ?calls can" by (intro core) auto
    from remember_keeps [OF this] last_flag step show ?thesis by simp
  next
    case last
    then have gone: "calls_with i ?calls = 0"
      using ok assms(3) by (simp add: entry_ok_def calls_with_remove1)
    have "registry_core (remove_entry i ?r) ?calls can"
      unfolding registry_core_def
    proof (intro conjI allI impI)
      fix j f
      assume "entry_of (remove_entry i ?r) j = Some f"
      then have "j \<noteq> i" "entry_of r j = Some f" by (auto split: if_splits)
      from other [OF this, of "remembered r"] show "entry_ok (remove_entry i ?r) ?calls can j f"
        by (simp add: entry_ok_def)
    next
      fix j k f g
      assume "entry_of (remove_entry i ?r) j = Some f" "entry_of (remove_entry i ?r) k = Some g"
        "entry_flag f = entry_flag g"
      then show "j = k" using inj [of j f k g] by (simp split: if_splits)
    next
      fix y j
      assume q: "(y, j) \<in> set ?calls"
      then have "j \<noteq> i" using gone no_calls by blast
      then show "\<exists>f. entry_of (remove_entry i ?r) j = Some f \<and> entry_flag f = y" using held [OF q] by simp
    qed
    with last step assms(2) show ?thesis by simp
  qed
qed

subsection \<open>Reachable states\<close>

lemma step_inv: "step s t \<Longrightarrow> system_inv s \<Longrightarrow> system_inv t"
proof (induction rule: step.induct)
  case (step_begin i s r q)
  have core: "registry_core (reg s) (open_calls s) (ever_cancelled s)"
    using step_begin.prems by (simp add: system_inv_def)
  from begin_keeps [OF core step_begin.hyps] step_begin.prems show ?case by (simp add: system_inv_def)
next
  case (step_cancel s i)
  from cancel_keeps [of "reg s" "open_calls s" "ever_cancelled s" i] step_cancel show ?case
    by (simp add: system_inv_def)
next
  case (step_end q s r)
  obtain x i where q: "q = (x, i)" by fastforce
  with step_end end_keeps [of "reg s" "open_calls s" "ever_cancelled s" x i] show ?case
    by (auto simp: system_inv_def drop_request_def)
qed

lemma reachable_inv: "reachable s \<Longrightarrow> system_inv s"
proof (induction rule: reachable.induct)
  case reachable_new
  show ?case
    by (simp add: system_inv_def system_new_def registry_new_def registry_core_def entry_of_def)
qed (rule step_inv)

lemma step_flags:
  assumes "step s t" "system_inv s" "flag_at (reg s) x"
  shows "flag_at (reg t) x"
  using assms
proof (induction rule: step.induct)
  case (step_begin i s r q)
  then have "registry_core (reg s) (open_calls s) (ever_cancelled s)" "x < length (flags (reg s))"
    by (simp_all add: system_inv_def flag_at_def)
  with begin_keeps [OF _ step_begin.hyps] step_begin.prems show ?case by simp
next
  case (step_cancel s i)
  with cancel_keeps [of "reg s" "open_calls s" "ever_cancelled s" i] show ?case
    by (simp add: system_inv_def)
next
  case (step_end q s r)
  obtain y i where q: "q = (y, i)" by fastforce
  with step_end end_keeps [of "reg s" "open_calls s" "ever_cancelled s" y i] show ?case
    by (auto simp: system_inv_def drop_request_def flag_at_def)
qed

lemma steps_flags:
  "step\<^sup>*\<^sup>* s t \<Longrightarrow> system_inv s \<Longrightarrow> flag_at (reg s) x \<Longrightarrow> flag_at (reg t) x \<and> system_inv t"
  by (induction rule: rtranclp_induct) (auto intro: step_flags step_inv)

lemma reachable_steps: "step\<^sup>*\<^sup>* s t \<Longrightarrow> reachable s \<Longrightarrow> reachable t"
  by (induction rule: rtranclp_induct) (auto intro: reachable_step)

lemma forget_flags: "flags (forget r) = flags r"
proof (induction r rule: forget.induct)
  case (1 r)
  then show ?case by (subst forget.simps) (simp add: Let_def split: list.split)
qed

lemma remember_flags: "flags (remember i r) = flags r"
  by (simp add: remember_def forget_flags)

lemma forget_within: "length (remembered r) \<le> REMEMBERED \<Longrightarrow> forget r = r"
  by (subst forget.simps) (cases "remembered r"; simp)

lemma forget_one:
  "remembered r = old # rest \<Longrightarrow> length rest = REMEMBERED \<Longrightarrow>
     forget r = (let r' = r\<lparr>remembered := rest\<rparr> in if idle r' old then remove_entry old r' else r')"
  by (subst forget.simps) (simp add: Let_def forget_within)

lemma remember_entry:
  assumes "length (remembered r) \<le> REMEMBERED"
    "length (remembered r) < REMEMBERED \<or> i \<notin> set (remembered r)"
  shows "entry_of (remember i r) i = entry_of r i"
proof (cases "length (remembered r) < REMEMBERED")
  case True
  then show ?thesis by (simp add: remember_def forget_within)
next
  case False
  with assms have len: "length (remembered r) = REMEMBERED" and new: "i \<notin> set (remembered r)" by auto
  then obtain old rest where "remembered r = old # rest" by (cases "remembered r") (auto simp: REMEMBERED_def)
  then have old: "remembered (r\<lparr>remembered := remembered r @ [i]\<rparr>) = old # (rest @ [i])"
    and "length (rest @ [i]) = REMEMBERED" and "i \<noteq> old" using len new by auto
  from forget_one [OF old this(2)] \<open>i \<noteq> old\<close> show ?thesis
    unfolding remember_def Let_def by simp
qed

lemma cancel_entry:
  assumes "registry_core r calls can" "length (remembered r) \<le> REMEMBERED"
    "length (remembered r) < REMEMBERED \<or> i \<notin> set (remembered r)"
  shows "\<exists>e. entry_of (cancel i r) i = Some e \<and> flag_at (cancel i r) (entry_flag e)"
proof -
  obtain r1 e where o: "or_new_entry i r = (r1, e)" by fastforce
  note n = or_new_entry_spec [OF assms(1) o]
  let ?r = "r1\<lparr>flags := (flags r1)[entry_flag e := True]\<rparr>"
  have e1: "entry_of r1 i = Some e" and r1: "remembered r1 = remembered r" and lt: "entry_flag e < length (flags r1)"
    using n by blast+
  then have f: "flag_at ?r (entry_flag e)" and e: "entry_of ?r i = Some e" and r: "remembered ?r = remembered r"
    by (simp_all add: flag_at_def)
  have kept: "entry_of (remember i ?r) i = Some e" using remember_entry [of ?r i] assms(2,3) e r by simp
  have "flag_at (remember i ?r) (entry_flag e)" using f by (simp add: flag_at_def remember_flags)
  moreover have "cancel i r = ?r \<or> cancel i r = remember i ?r" using o by (simp add: cancel_def Let_def)
  ultimately show ?thesis using kept e f by metis
qed

text \<open>In every state the calls and cancels of any number of threads can reach, dropping an
  open call never underflows the running count, no more than \<open>REMEMBERED\<close> ids are remembered,
  and the registry keeps no entry beyond the open calls' and the remembered ids'.\<close>

theorem registry_bounded:
  assumes "reachable s"
  shows "(\<forall>q \<in> set (open_calls s). drop_request (Some q) (reg s) \<noteq> None)
    \<and> length (remembered (reg s)) \<le> REMEMBERED
    \<and> card {i. entry_of (reg s) i \<noteq> None} \<le> length (open_calls s) + REMEMBERED"
proof (intro conjI ballI)
  have sys: "registry_core (reg s) (open_calls s) (ever_cancelled s)" "length (remembered (reg s)) \<le> REMEMBERED"
    using reachable_inv [OF assms] by (simp_all add: system_inv_def)
  then show "length (remembered (reg s)) \<le> REMEMBERED" by simp
  fix q assume "q \<in> set (open_calls s)"
  then show "drop_request (Some q) (reg s) \<noteq> None"
    using end_keeps [OF sys, of "fst q" "snd q"] by (auto simp: drop_request_def split: prod.split)
next
  have sys: "registry_core (reg s) (open_calls s) (ever_cancelled s)" "length (remembered (reg s)) \<le> REMEMBERED"
    using reachable_inv [OF assms] by (simp_all add: system_inv_def)
  have "{i. entry_of (reg s) i \<noteq> None} \<subseteq> set (map snd (open_calls s) @ remembered (reg s))"
  proof
    fix i assume "i \<in> {i. entry_of (reg s) i \<noteq> None}"
    then obtain e where "entry_of (reg s) i = Some e" by blast
    then have "entry_ok (reg s) (open_calls s) (ever_cancelled s) i e" by (rule core_entry [OF sys(1)])
    then have "calls_with i (open_calls s) \<noteq> 0 \<or> i \<in> set (remembered (reg s))" by (auto simp: entry_ok_def)
    then show "i \<in> set (map snd (open_calls s) @ remembered (reg s))"
      using no_calls by (force simp: image_iff)
  qed
  then have "card {i. entry_of (reg s) i \<noteq> None} \<le> card (set (map snd (open_calls s) @ remembered (reg s)))"
    by (intro card_mono) simp_all
  also have "\<dots> \<le> length (open_calls s) + length (remembered (reg s))"
    using card_length [of "map snd (open_calls s) @ remembered (reg s)"] by simp
  finally show "card {i. entry_of (reg s) i \<noteq> None} \<le> length (open_calls s) + REMEMBERED"
    using sys(2) by simp
qed

text \<open>C24: Once an id is cancelled, every call of it that is open stays cancelled as long as the
  other threads go on: its check fails, a scope of it does not run its closure, and no result it
  computed is handed out.\<close>

theorem cancel_stops_open_calls:
  assumes "reachable s" "(x, i) \<in> set (open_calls s)"
    "step\<^sup>*\<^sup>* (s\<lparr>reg := cancel i (reg s), ever_cancelled := insert i (ever_cancelled s)\<rparr>) t"
  shows "request_check (reg t) (Some (x, i)) = Inl () \<and> finish (reg t) (Some (x, i)) result = Inl ()
    \<and> scope (Some (x, i)) run (reg t, cur) = ((reg t, cur), Inl ())"
proof -
  have sys: "system_inv s" by (rule reachable_inv [OF assms(1)])
  then have core: "registry_core (reg s) (open_calls s) (ever_cancelled s)"
    "length (remembered (reg s)) \<le> REMEMBERED" by (simp_all add: system_inv_def)
  have "flag_at (cancel i (reg s)) x" using cancel_keeps [OF core] assms(2) by blast
  moreover have "system_inv (s\<lparr>reg := cancel i (reg s), ever_cancelled := insert i (ever_cancelled s)\<rparr>)"
    by (rule step_inv [OF step_cancel sys])
  ultimately have "flag_at (reg t) x" using steps_flags [OF assms(3)] by simp
  then show ?thesis by (simp add: request_check_def is_cancelled_def finish_def scope_def)
qed

definition one_call :: system where
  "one_call = \<lparr>reg = fst (begin_request (Some 7) registry_new), open_calls = [(0, 7)], ever_cancelled = {}\<rparr>"

lemma one_call_reachable: "reachable one_call"
proof -
  have "begin_request (Some 7) (reg system_new) = (fst (begin_request (Some 7) registry_new), Some (0, 7))"
    by (simp add: system_new_def begin_request_def or_new_entry_def entry_of_def registry_new_def Let_def)
  from step_begin [OF this] have "step system_new one_call"
    by (simp add: one_call_def system_new_def)
  with reachable_new show ?thesis by (rule reachable_step)
qed

lemma one_call_open: "(0, 7) \<in> set (open_calls one_call)"
  by (simp add: one_call_def)

theorem cancel_stops_open_calls_witness:
  "request_check (cancel 7 (reg one_call)) (Some (0, 7)) = Inl ()"
  using cancel_stops_open_calls [OF one_call_reachable one_call_open rtranclp.rtrancl_refl,
    of "Inr ()" "\<lambda>st. (st, Inr ())" None] by simp

theorem registry_bounded_witness: "drop_request (Some (0, 7)) (reg one_call) \<noteq> None"
  using registry_bounded [OF one_call_reachable] one_call_open by blast

text \<open>Only the calls of an id that was cancelled are stopped: a call of another id passes its
  check, and its scope hands out what its closure returns and restores the thread's flag.\<close>

theorem other_calls_run:
  assumes "reachable s" "q \<in> set (open_calls s)" "snd q \<notin> ever_cancelled s"
    "\<And>st. fst (fst (run st)) = fst st"
  shows "request_check (reg s) (Some q) = Inr ()
    \<and> scope (Some q) run (reg s, cur) = ((reg s, cur), snd (run (reg s, Some (fst q))))"
proof -
  have core: "registry_core (reg s) (open_calls s) (ever_cancelled s)"
    using reachable_inv [OF assms(1)] by (simp add: system_inv_def)
  obtain e where e: "entry_of (reg s) (snd q) = Some e" "entry_flag e = fst q"
    using core_call [OF core, of "fst q" "snd q"] assms(2) by auto
  then have "\<not> flag_at (reg s) (fst q)"
    using core_entry [OF core e(1)] assms(3) by (auto simp: entry_ok_def)
  then have ok: "request_check (reg s) (Some q) = Inr ()"
    by (cases q) (simp add: request_check_def is_cancelled_def)
  moreover obtain r' c' res where run: "run (reg s, Some (fst q)) = ((r', c'), res)" by (metis surj_pair)
  moreover have "r' = reg s" using assms(4) [of "(reg s, Some (fst q))"] run by simp
  ultimately show ?thesis by (simp add: finish_def scope_def)
qed

theorem other_calls_run_witness:
  "scope (Some (0, 7)) (\<lambda>st. (st, Inr (5 :: nat))) (reg one_call, None) = ((reg one_call, None), Inr 5)"
  using other_calls_run [OF one_call_reachable one_call_open, of "\<lambda>st. (st, Inr (5 :: nat))" None]
  by (simp add: one_call_def)

text \<open>A cancel that comes before the call it cancels is remembered: a call begun after it is
  cancelled, while there is room for the id or it is not already among the remembered ones.\<close>

theorem cancel_before_begin:
  assumes "reachable s"
    "length (remembered (reg s)) < REMEMBERED \<or> i \<notin> set (remembered (reg s))"
  shows "case begin_request (Some i) (cancel i (reg s)) of (r, q) \<Rightarrow> request_check r q = Inl ()"
proof -
  have core: "registry_core (reg s) (open_calls s) (ever_cancelled s)"
    "length (remembered (reg s)) \<le> REMEMBERED"
    using reachable_inv [OF assms(1)] by (simp_all add: system_inv_def)
  obtain e where "entry_of (cancel i (reg s)) i = Some e" "flag_at (cancel i (reg s)) (entry_flag e)"
    using cancel_entry [OF core assms(2)] by blast
  then show ?thesis
    by (simp add: begin_request_def or_new_entry_def request_check_def is_cancelled_def)
qed

theorem cancel_before_begin_witness:
  "case begin_request (Some 7) (cancel 7 (reg one_call)) of (r, q) \<Rightarrow> request_check r q = Inl ()"
  by (rule cancel_before_begin [OF one_call_reachable])
    (simp add: one_call_def begin_request_def or_new_entry_def entry_of_def registry_new_def put_entry_def
      REMEMBERED_def Let_def)

subsection \<open>The scorer of a cancellable query\<close>

text \<open>A scorer counts down to its next look. \<open>looks\<close> counts the looks at the flag; the n-th sees
  \<open>raised n\<close>.\<close>

definition CHECK_EVERY :: nat where
  "CHECK_EVERY = 4096"

record 's cancellable =
  cs_inner :: 's
  until_check :: nat
  stopped :: bool
  looks :: nat

definition stop_if_cancelled :: "(nat \<Rightarrow> bool) \<Rightarrow> 's cancellable \<Rightarrow> 's cancellable" where
  "stop_if_cancelled raised c =
     (if stopped c then c else c\<lparr>stopped := raised (looks c), looks := looks c + 1\<rparr>)"

definition cs_doc :: "'s docset \<Rightarrow> 's cancellable \<Rightarrow> nat" where
  "cs_doc ops c = (if stopped c then TERMINATED else ds_doc ops (cs_inner c))"

text \<open>\<open>None\<close> is also the underflow of \<^verbatim>\<open>until_check -= 1\<close>.\<close>

definition cs_advance ::
  "'s docset \<Rightarrow> (nat \<Rightarrow> bool) \<Rightarrow> 's cancellable \<Rightarrow> ('s cancellable \<times> nat) option" where
  "cs_advance ops raised c = do {
     n \<leftarrow> checked_sub (until_check c) 1;
     let c1 = (if n = 0 then stop_if_cancelled raised (c\<lparr>until_check := CHECK_EVERY\<rparr>)
               else c\<lparr>until_check := n\<rparr>);
     if stopped c1 then Some (c1, TERMINATED)
     else map_option (\<lambda>(s, d). (c1\<lparr>cs_inner := s\<rparr>, d)) (ds_advance ops (cs_inner c1)) }"

definition cs_seek ::
  "'s docset \<Rightarrow> (nat \<Rightarrow> bool) \<Rightarrow> nat \<Rightarrow> 's cancellable \<Rightarrow> ('s cancellable \<times> nat) option" where
  "cs_seek ops raised target c =
     (let c1 = stop_if_cancelled raised c
      in if stopped c1 then Some (c1, TERMINATED)
         else map_option (\<lambda>(s, d). (c1\<lparr>cs_inner := s\<rparr>, d)) (ds_seek ops target (cs_inner c1)))"

definition cancellable_set :: "'s docset \<Rightarrow> (nat \<Rightarrow> bool) \<Rightarrow> 's cancellable docset" where
  "cancellable_set ops raised =
     \<lparr>ds_doc = cs_doc ops, ds_advance = cs_advance ops raised, ds_seek = cs_seek ops raised,
      ds_size_hint = \<lambda>c. ds_size_hint ops (cs_inner c)\<rparr>"

text \<open>\<^verbatim>\<open>CancellableWeight::scorer\<close>, after \<open>n\<close> looks: one look, then the scorer.\<close>

definition cancellable_scorer :: "(nat \<Rightarrow> bool) \<Rightarrow> nat \<Rightarrow> 's \<Rightarrow> unit + 's cancellable" where
  "cancellable_scorer raised n s =
     (if raised n then Inl ()
      else Inr \<lparr>cs_inner = s, until_check = CHECK_EVERY, stopped = False, looks = n + 1\<rparr>)"

text \<open>The loop of \<^verbatim>\<open>for_each\<close>, with the documents handed to the callback, and \<^verbatim>\<open>for_each\<close> and
  \<^verbatim>\<open>count\<close>, which look again before they answer. The outer \<open>None\<close> is a panic or a loop that does
  not end.\<close>

partial_function (option) pass_docs ::
  "'s docset \<Rightarrow> (nat \<Rightarrow> bool) \<Rightarrow> 's cancellable \<Rightarrow> nat \<Rightarrow> ('s cancellable \<times> nat list) option" where
  "pass_docs ops raised c d =
     (if d = TERMINATED then Some (c, [])
      else Option.bind (cs_advance ops raised c) (\<lambda>r.
           Option.bind (pass_docs ops raised (fst r) (snd r)) (\<lambda>q. Some (fst q, d # snd q))))"

definition for_each :: "'s docset \<Rightarrow> (nat \<Rightarrow> bool) \<Rightarrow> nat \<Rightarrow> 's \<Rightarrow> (nat list \<times> (unit + unit)) option" where
  "for_each ops raised n s =
     (case cancellable_scorer raised n s of
        Inl e \<Rightarrow> Some ([], Inl e)
      | Inr c \<Rightarrow> do {
          (c', passed) \<leftarrow> pass_docs ops raised c (cs_doc ops c);
          Some (passed, if raised (looks c') then Inl () else Inr ()) })"

definition weight_count :: "(nat \<Rightarrow> bool) \<Rightarrow> nat \<Rightarrow> (unit + nat) \<Rightarrow> unit + nat" where
  "weight_count raised n counted =
     (if raised n then Inl ()
      else case counted of Inl e \<Rightarrow> Inl e | Inr k \<Rightarrow> if raised (n + 1) then Inl () else Inr k)"

context doc_set
begin

text \<open>While the flag stays lowered, the scorer is its inner scorer.\<close>

definition quiet_inv :: "'s cancellable \<Rightarrow> bool" where
  "quiet_inv c \<longleftrightarrow> inv (cs_inner c) \<and> 0 < until_check c \<and> \<not> stopped c"

lemma quiet_doc_set: "doc_set (cancellable_set ops (\<lambda>_. False)) quiet_inv (\<lambda>c. docs (cs_inner c))"
proof
  fix c assume q: "quiet_inv c"
  then have i: "inv (cs_inner c)" by (simp add: quiet_inv_def)
  show "docs_ok (docs (cs_inner c))" by (rule ok [OF i])
  show "ds_doc (cancellable_set ops (\<lambda>_. False)) c = first_doc (docs (cs_inner c))"
    using q doc [OF i] by (simp add: cancellable_set_def cs_doc_def quiet_inv_def)
  obtain s' where "ds_advance ops (cs_inner c) = Some (s', first_doc (tl (docs (cs_inner c))))" "inv s'"
    "docs s' = tl (docs (cs_inner c))" using advance [OF i] by blast
  with q show "\<exists>c'. ds_advance (cancellable_set ops (\<lambda>_. False)) c
      = Some (c', first_doc (tl (docs (cs_inner c)))) \<and> quiet_inv c' \<and> docs (cs_inner c') = tl (docs (cs_inner c))"
    by (auto simp: cancellable_set_def cs_advance_def quiet_inv_def checked_sub_def stop_if_cancelled_def
        CHECK_EVERY_def Let_def)
  fix t assume "first_doc (docs (cs_inner c)) \<le> t" "t \<le> TERMINATED"
  then obtain s2 where "ds_seek ops t (cs_inner c) = Some (s2, first_doc (docs_from t (docs (cs_inner c))))"
    "inv s2" "docs s2 = docs_from t (docs (cs_inner c))" using seek [OF i] by blast
  with q show "\<exists>c'. ds_seek (cancellable_set ops (\<lambda>_. False)) t c
      = Some (c', first_doc (docs_from t (docs (cs_inner c)))) \<and> quiet_inv c'
        \<and> docs (cs_inner c') = docs_from t (docs (cs_inner c))"
    by (auto simp: cancellable_set_def cs_seek_def quiet_inv_def stop_if_cancelled_def Let_def)
qed

text \<open>A scan under a flag that once raised stays raised: the documents passed are the first of the
  inner set, all of them unless a look saw the flag, and the looks come every \<open>CHECK_EVERY\<close>
  documents.\<close>

lemma pass_docs_spec:
  assumes "mono raised" "inv (cs_inner c)" "0 < until_check c" "until_check c \<le> CHECK_EVERY"
    "\<not> stopped c"
  shows "\<exists>c' passed. pass_docs ops raised c (first_doc (docs (cs_inner c))) = Some (c', passed)
    \<and> looks c \<le> looks c' \<and> (\<exists>rest. docs (cs_inner c) = passed @ rest)
    \<and> (passed = docs (cs_inner c) \<or> raised (looks c'))
    \<and> (looks c \<le> n \<longrightarrow> raised n \<longrightarrow> length passed \<le> until_check c + CHECK_EVERY * (n - looks c))"
  using assms(2-)
proof (induction "length (docs (cs_inner c))" arbitrary: c rule: less_induct)
  case less
  show ?case
  proof (cases "docs (cs_inner c)")
    case Nil
    then show ?thesis by (subst pass_docs.simps) simp
  next
    case (Cons d ds)
    then have lt: "d \<noteq> TERMINATED" using ok [OF less.prems(1)] by simp
    define c1 where "c1 = (if until_check c = 1 then stop_if_cancelled raised (c\<lparr>until_check := CHECK_EVERY\<rparr>)
      else c\<lparr>until_check := until_check c - 1\<rparr>)"
    have inner: "cs_inner c1 = cs_inner c" by (simp add: c1_def stop_if_cancelled_def)
    have adv: "cs_advance ops raised c = (if stopped c1 then Some (c1, TERMINATED)
        else map_option (\<lambda>(s, d). (c1\<lparr>cs_inner := s\<rparr>, d)) (ds_advance ops (cs_inner c)))"
      using less.prems(2) inner by (auto simp: cs_advance_def checked_sub_def c1_def Let_def)
    show ?thesis
    proof (cases "stopped c1")
      case True
      then have u: "until_check c = 1" and r: "raised (looks c)" and l: "looks c1 = looks c + 1"
        using less.prems(4) by (auto simp: c1_def stop_if_cancelled_def split: if_splits)
      have "pass_docs ops raised c d = Some (c1, [d])"
        using lt True adv by (subst pass_docs.simps) (simp add: pass_docs.simps [of _ _ c1])
      moreover have "raised (looks c1)" using assms(1) r l by (metis le_add1 mono_onD monotoneD le_boolE)
      ultimately show ?thesis using Cons u l by auto
    next
      case False
      obtain s' where s': "ds_advance ops (cs_inner c) = Some (s', first_doc (docs s'))" "inv s'" "docs s' = ds"
        using advance [OF less.prems(1)] Cons by auto
      let ?c = "c1\<lparr>cs_inner := s'\<rparr>"
      have u: "0 < until_check ?c" "until_check ?c \<le> CHECK_EVERY" "looks c \<le> looks ?c"
        using less.prems by (auto simp: c1_def stop_if_cancelled_def CHECK_EVERY_def)
      have "length (docs (cs_inner ?c)) < length (docs (cs_inner c))" using s'(3) Cons by simp
      from less.hyps [OF this] s'(2) u False obtain c' passed where
        IH: "pass_docs ops raised ?c (first_doc (docs s')) = Some (c', passed)" "looks ?c \<le> looks c'"
          "\<exists>rest. docs s' = passed @ rest" "passed = docs s' \<or> raised (looks c')"
          "looks ?c \<le> n \<longrightarrow> raised n \<longrightarrow> length passed \<le> until_check ?c + CHECK_EVERY * (n - looks ?c)"
        by auto
      have "pass_docs ops raised c d = Some (c', d # passed)"
        using lt adv False s'(1) IH(1) by (subst pass_docs.simps) simp
      moreover have "length (d # passed) \<le> until_check c + CHECK_EVERY * (n - looks c)"
        if "looks c \<le> n" "raised n"
      proof (cases "until_check c = 1")
        case True
        then have l: "looks ?c = looks c + 1" "until_check ?c = CHECK_EVERY" and nr: "\<not> raised (looks c)"
          using False less.prems(4) by (auto simp: c1_def stop_if_cancelled_def)
        have "looks ?c \<le> n" using that nr l(1) by (metis Suc_eq_plus1 Suc_leI le_neq_implies_less)
        with IH(5) that(2) have "length passed \<le> CHECK_EVERY + CHECK_EVERY * (n - looks ?c)" using l(2) by simp
        also have "n - looks c = Suc (n - looks ?c)" using \<open>looks ?c \<le> n\<close> l(1) by simp
        then have "CHECK_EVERY + CHECK_EVERY * (n - looks ?c) = CHECK_EVERY * (n - looks c)" by simp
        finally show ?thesis using True by simp
      next
        case u1: False
        then have "looks ?c = looks c" "until_check ?c = until_check c - 1"
          by (simp_all add: c1_def)
        with IH(5) that less.prems(2) show ?thesis by simp
      qed
      ultimately show ?thesis using Cons IH(2-4) u(3) s'(3) by auto
    qed
  qed
qed

lemma for_each_spec:
  assumes "inv s" "mono raised"
  shows "\<exists>passed res. for_each ops raised n s = Some (passed, res)
    \<and> (\<exists>rest. docs s = passed @ rest) \<and> (res = Inr () \<longrightarrow> passed = docs s)
    \<and> ((\<forall>m. \<not> raised m) \<longrightarrow> res = Inr ())
    \<and> (\<forall>m \<ge> n. raised m \<longrightarrow> length passed \<le> CHECK_EVERY * (m - n))"
proof (cases "raised n")
  case True
  then show ?thesis by (auto simp: for_each_def cancellable_scorer_def)
next
  case False
  let ?c = "\<lparr>cs_inner = s, until_check = CHECK_EVERY, stopped = False, looks = n + 1\<rparr>"
  have doc: "cs_doc ops ?c = first_doc (docs s)" using doc [OF assms(1)] by (simp add: cs_doc_def)
  have pre: "inv (cs_inner ?c)" "0 < until_check ?c" "until_check ?c \<le> CHECK_EVERY" "\<not> stopped ?c"
    using assms(1) by (simp_all add: CHECK_EVERY_def)
  obtain c' passed where p: "pass_docs ops raised ?c (first_doc (docs s)) = Some (c', passed)"
    "\<exists>rest. docs s = passed @ rest" "passed = docs s \<or> raised (looks c')"
    using pass_docs_spec [OF assms(2) pre, of 0] unfolding cancellable.select_convs by blast
  have "length passed \<le> CHECK_EVERY * (m - n)" if m: "n \<le> m" "raised m" for m
  proof -
    have "n < m" using m False by (metis le_neq_implies_less)
    then have "length passed \<le> CHECK_EVERY + CHECK_EVERY * (m - (n + 1))"
      using pass_docs_spec [OF assms(2) pre, of m] p(1) m(2) by auto
    moreover have "m - n = Suc (m - (n + 1))" using \<open>n < m\<close> by simp
    ultimately show ?thesis by simp
  qed
  with p doc False show ?thesis by (auto simp: for_each_def cancellable_scorer_def)
qed

end

text \<open>C25: A scan of a cancellable query always ends. It hands the callback the documents of its
  inner scorer in order, succeeds only if it handed out all of them, succeeds if the flag is never
  raised, and hands out at most \<open>CHECK_EVERY\<close> documents for each look that came before the flag
  was seen raised. (A raised flag is never lowered.)\<close>

theorem cancellable_scan:
  assumes "doc_set ops ok_state docs" "ok_state s" "mono raised"
  shows "\<exists>passed res. for_each ops raised n s = Some (passed, res)
    \<and> (\<exists>rest. docs s = passed @ rest) \<and> (res = Inr () \<longrightarrow> passed = docs s)
    \<and> ((\<forall>m. \<not> raised m) \<longrightarrow> res = Inr ())
    \<and> (\<forall>m \<ge> n. raised m \<longrightarrow> length passed \<le> CHECK_EVERY * (m - n))"
  by (rule doc_set.for_each_spec [OF assms])

definition three_docs :: docs_cursor where
  "three_docs = \<lparr>cursor_docs = [2, 5, 9], cursor = 0\<rparr>"

lemma three_docs_inv: "cursor_inv three_docs"
  by (simp add: three_docs_def cursor_inv_def TERMINATED_def)

theorem cancellable_scan_witness:
  "for_each (docs_set walk_to) (\<lambda>_. False) 0 three_docs = Some ([2, 5, 9], Inr ())"
proof -
  have "mono (\<lambda>_ :: nat. False)" by (simp add: mono_def)
  from cancellable_scan [OF docs_set_doc_set [OF walk_to_ok] three_docs_inv this, of 0]
  show ?thesis by (auto simp: three_docs_def cursor_rest_def)
qed

end
