(* ===== verification/NegativeQuery.thy ===== *)
theory NegativeQuery
  imports IdLookup
begin

section \<open>Excluding a phrase\<close>

text \<open>
  \<^verbatim>\<open>negative_query.rs\<close>. An exclusion probes the excluded phrase's scorer only at the
  candidates of the positive query, with the library's \<^verbatim>\<open>seek_danger\<close>: it tells whether the
  target is a document of the set, and after a failed probe only further probes are legal.
  \<open>NegativeScorer\<close> caches the bound of the last probe: it answers a target below it itself,
  and never reads the inner scorer's document again. The locale \<open>danger_set\<close> is the library's
  contract for \<^verbatim>\<open>seek_danger\<close>; it is interpreted on the id cursors with the default
  method of the trait, a \<^verbatim>\<open>seek\<close> and a comparison.
\<close>

datatype seek_danger_result = Found | SeekLowerBound nat

text \<open>\<open>loose s ds b\<close>: after a failed probe with bound \<open>b\<close>, \<open>ds\<close> are the documents to come.\<close>

locale danger_set = doc_set ops inv docs
  for ops :: "'s docset" and inv docs +
  fixes danger :: "nat \<Rightarrow> 's \<Rightarrow> ('s \<times> seek_danger_result) option"
    and loose :: "'s \<Rightarrow> nat list \<Rightarrow> nat \<Rightarrow> bool"
  assumes loose_inv: "inv s \<Longrightarrow> loose s (docs s) (first_doc (docs s))"
    and loose_bound: "loose s ds b \<Longrightarrow> docs_ok ds \<and> b \<le> first_doc ds"
    and danger: "loose s ds b \<Longrightarrow> b \<le> t \<Longrightarrow> t < TERMINATED \<Longrightarrow>
      \<exists>s' res. danger t s = Some (s', res)
        \<and> (if t \<in> set ds then res = Found \<and> inv s' \<and> docs s' = docs_from t ds
           else \<exists>b'. res = SeekLowerBound b' \<and> t \<le> b' \<and> loose s' (docs_from t ds) b')"

record 's negative_scorer =
  inner :: 's
  lower_bound :: nat
  size_hint :: nat

definition negative_new :: "'s docset \<Rightarrow> 's \<Rightarrow> 's negative_scorer" where
  "negative_new ops s = \<lparr>inner = s, lower_bound = ds_doc ops s, size_hint = ds_size_hint ops s\<rparr>"

definition negative_advance :: "'s docset \<Rightarrow> 's negative_scorer \<Rightarrow> ('s negative_scorer \<times> nat) option" where
  "negative_advance ops n =
     map_option (\<lambda>(s, d). (n\<lparr>inner := s, lower_bound := d\<rparr>, d)) (ds_advance ops (inner n))"

definition negative_seek ::
  "'s docset \<Rightarrow> nat \<Rightarrow> 's negative_scorer \<Rightarrow> ('s negative_scorer \<times> nat) option" where
  "negative_seek ops target n =
     map_option (\<lambda>(s, d). (n\<lparr>inner := s, lower_bound := d\<rparr>, d)) (ds_seek ops target (inner n))"

definition negative_danger ::
  "(nat \<Rightarrow> 's \<Rightarrow> ('s \<times> seek_danger_result) option) \<Rightarrow> nat \<Rightarrow> 's negative_scorer
    \<Rightarrow> ('s negative_scorer \<times> seek_danger_result) option" where
  "negative_danger danger target n =
     (if TERMINATED \<le> target \<or> target < lower_bound n
      then Some (n, SeekLowerBound (max (lower_bound n) target))
      else map_option (\<lambda>(s, res).
             (n\<lparr>inner := s, lower_bound := (case res of Found \<Rightarrow> target | SeekLowerBound bound \<Rightarrow> bound)\<rparr>, res))
             (danger target (inner n)))"

definition negative_set :: "'s docset \<Rightarrow> 's negative_scorer docset" where
  "negative_set ops =
     \<lparr>ds_doc = lower_bound, ds_advance = negative_advance ops, ds_seek = negative_seek ops,
      ds_size_hint = size_hint\<rparr>"

text \<open>\<^verbatim>\<open>NegativeWeight::explain\<close>: \<open>Inr ()\<close> if the document is one of the set's. The disjunction
  is evaluated in its order: the scorer is not moved for a document that is out of range or
  behind it.\<close>

definition negative_explain :: "'s docset \<Rightarrow> nat \<Rightarrow> 's \<Rightarrow> nat \<Rightarrow> (unit + unit) option" where
  "negative_explain ops docs_in_segment s d =
     (let n = negative_new ops s in
      if docs_in_segment \<le> d \<or> d < lower_bound n then Some (Inl ())
      else map_option (\<lambda>(_, e). if e \<noteq> d then Inl () else Inr ()) (negative_seek ops d n))"

text \<open>An exclusion: the candidates that no probe finds.\<close>

fun exclude ::
  "(nat \<Rightarrow> 's \<Rightarrow> ('s \<times> seek_danger_result) option) \<Rightarrow> 's negative_scorer \<Rightarrow> nat list
    \<Rightarrow> (nat list) option" where
  "exclude danger n [] = Some []"
| "exclude danger n (c # cs) = do {
     (n', res) \<leftarrow> negative_danger danger c n;
     rest \<leftarrow> exclude danger n' cs;
     Some (if res = Found then rest else c # rest) }"

lemma below_first: "docs_ok ds \<Longrightarrow> t < first_doc ds \<Longrightarrow> t \<notin> set ds"
  by (cases ds) auto

lemma docs_from_0: "docs_from (0 :: nat) ds = ds"
  by (cases ds) auto

lemma first_doc_from: "docs_ok ds \<Longrightarrow> t < TERMINATED \<Longrightarrow> first_doc (docs_from t ds) = t \<longleftrightarrow> t \<in> set ds"
  by (induction ds) auto

lemma first_doc_from_ge: "docs_ok ds \<Longrightarrow> t < TERMINATED \<Longrightarrow> t \<le> first_doc (docs_from t ds)"
  by (induction ds) auto

context danger_set
begin

definition negative_inv :: "'s negative_scorer \<Rightarrow> bool" where
  "negative_inv n \<longleftrightarrow> inv (inner n) \<and> lower_bound n = first_doc (docs (inner n))"

lemma negative_doc_set: "doc_set (negative_set ops) negative_inv (\<lambda>n. docs (inner n))"
proof
  fix n assume q: "negative_inv n"
  then have i: "inv (inner n)" by (simp add: negative_inv_def)
  show "docs_ok (docs (inner n))" by (rule ok [OF i])
  show "ds_doc (negative_set ops) n = first_doc (docs (inner n))"
    using q by (simp add: negative_set_def negative_inv_def)
  show "\<exists>n'. ds_advance (negative_set ops) n = Some (n', first_doc (tl (docs (inner n)))) \<and> negative_inv n'
      \<and> docs (inner n') = tl (docs (inner n))"
    using advance [OF i] by (auto simp: negative_set_def negative_advance_def negative_inv_def)
  fix t assume "first_doc (docs (inner n)) \<le> t" "t \<le> TERMINATED"
  from seek [OF i this] show "\<exists>n'. ds_seek (negative_set ops) t n = Some (n', first_doc (docs_from t (docs (inner n))))
      \<and> negative_inv n' \<and> docs (inner n') = docs_from t (docs (inner n))"
    by (auto simp: negative_set_def negative_seek_def negative_inv_def)
qed

lemma negative_danger_spec:
  assumes "loose (inner n) ds (lower_bound n)"
  shows "\<exists>n' res. negative_danger danger t n = Some (n', res) \<and> (res = Found \<longleftrightarrow> t \<in> set ds)
    \<and> (\<exists>k \<le> t. loose (inner n') (docs_from k ds) (lower_bound n'))"
proof (cases "TERMINATED \<le> t \<or> t < lower_bound n")
  case True
  have b: "docs_ok ds" "lower_bound n \<le> first_doc ds" using loose_bound [OF assms] by simp_all
  have "t \<notin> set ds"
  proof (cases "t < lower_bound n")
    case True
    with b below_first show ?thesis by simp
  next
    case False
    with True b(1) show ?thesis by (auto simp: docs_ok_def)
  qed
  moreover have "loose (inner n) (docs_from 0 ds) (lower_bound n)" using assms unfolding docs_from_0 .
  ultimately show ?thesis using True unfolding negative_danger_def by auto
next
  case False
  then have t: "lower_bound n \<le> t" "t < TERMINATED" by auto
  show ?thesis
  proof (cases "t \<in> set ds")
    case True
    then obtain s' where s': "danger t (inner n) = Some (s', Found)" "inv s'" "docs s' = docs_from t ds"
      using danger [OF assms t] by auto
    have "first_doc (docs_from t ds) = t"
      using True loose_bound [OF assms] t(2) by (simp add: first_doc_from)
    then show ?thesis using loose_inv [OF s'(2)] s' True False by (auto simp: negative_danger_def intro!: exI [of _ t])
  next
    case nt: False
    then show ?thesis using danger [OF assms t] False
      by (auto simp: negative_danger_def intro!: exI [of _ t])
  qed
qed

lemma exclude_loose:
  "loose (inner n) ds (lower_bound n) \<Longrightarrow> sorted_wrt (<) cs \<Longrightarrow>
     exclude danger n cs = Some (filter (\<lambda>c. c \<notin> set ds) cs)"
proof (induction cs arbitrary: n ds)
  case (Cons c cs)
  obtain n' res k where n': "negative_danger danger c n = Some (n', res)" "res = Found \<longleftrightarrow> c \<in> set ds" "k \<le> c"
    "loose (inner n') (docs_from k ds) (lower_bound n')"
    using negative_danger_spec [OF Cons.prems(1)] by blast
  have "docs_ok ds" using loose_bound [OF Cons.prems(1)] by simp
  then have "filter (\<lambda>c. c \<notin> set (docs_from k ds)) cs = filter (\<lambda>c. c \<notin> set ds) cs"
    using Cons.prems(2) n'(3) by (intro filter_cong) (auto simp: docs_from_eq_filter)
  with Cons.IH [OF n'(4)] Cons.prems(2) n'(1,2) show ?case by simp
qed simp

lemma exclude_new: "inv s \<Longrightarrow> sorted_wrt (<) cs \<Longrightarrow>
    exclude danger (negative_new ops s) cs = Some (filter (\<lambda>c. c \<notin> set (docs s)) cs)"
  using exclude_loose [of "negative_new ops s" "docs s" cs] loose_inv [of s] doc [of s]
  by (simp add: negative_new_def)

lemma explain_new: "inv s \<Longrightarrow> \<forall>d \<in> set (docs s). d < m \<Longrightarrow> m \<le> TERMINATED \<Longrightarrow>
    negative_explain ops m s d = Some (if d \<in> set (docs s) then Inr () else Inl ())"
proof -
  assume i: "inv s" and m: "\<forall>d \<in> set (docs s). d < m" "m \<le> TERMINATED"
  have ok: "docs_ok (docs s)" by (rule doc_set.ok [OF doc_set_axioms i])
  show ?thesis
  proof (cases "m \<le> d \<or> d < first_doc (docs s)")
    case True
    then have "d \<notin> set (docs s)" using m(1) below_first [OF ok] by force
    with True doc [OF i] show ?thesis by (auto simp: negative_explain_def negative_new_def Let_def)
  next
    case False
    then have "first_doc (docs s) \<le> d" "d \<le> TERMINATED" using m(2) by auto
    from seek [OF i this] obtain s' where "ds_seek ops d s = Some (s', first_doc (docs_from d (docs s)))" by blast
    moreover have "first_doc (docs_from d (docs s)) = d \<longleftrightarrow> d \<in> set (docs s)"
      using first_doc_from [OF ok, of d] False m(2) by simp
    ultimately show ?thesis using False doc [OF i]
      by (auto simp: negative_explain_def negative_new_def negative_seek_def Let_def)
  qed
qed

end

subsection \<open>The trait's default probe\<close>

definition default_danger :: "'s docset \<Rightarrow> nat \<Rightarrow> 's \<Rightarrow> ('s \<times> seek_danger_result) option" where
  "default_danger ops t s =
     map_option (\<lambda>(s', d). (s', if d = t then Found else SeekLowerBound d)) (ds_seek ops t s)"

lemma default_danger_set:
  assumes "doc_set ops ok_state docs"
  shows "danger_set ops ok_state docs (default_danger ops)
    (\<lambda>s ds b. ok_state s \<and> docs s = ds \<and> b = first_doc ds)"
proof (intro danger_set.intro danger_set_axioms.intro)
  show "doc_set ops ok_state docs" by (rule assms)
next
  fix s ds b
  assume l: "ok_state s \<and> docs s = ds \<and> b = first_doc ds"
  then show "docs_ok ds \<and> b \<le> first_doc ds" using doc_set.ok [OF assms] by auto
next
  fix s ds b t
  assume l: "ok_state s \<and> docs s = ds \<and> b = first_doc ds" and t: "b \<le> t" "t < TERMINATED"
  then have d: "docs_ok ds" using doc_set.ok [OF assms] by auto
  obtain s' where s': "ds_seek ops t s = Some (s', first_doc (docs_from t ds))" "ok_state s'" "docs s' = docs_from t ds"
    using doc_set.seek [OF assms, of s t] l t by auto
  show "\<exists>s' res. default_danger ops t s = Some (s', res)
      \<and> (if t \<in> set ds then res = Found \<and> ok_state s' \<and> docs s' = docs_from t ds
         else \<exists>b'. res = SeekLowerBound b' \<and> t \<le> b' \<and> ok_state s' \<and> docs s' = docs_from t ds
           \<and> b' = first_doc (docs_from t ds))"
    using s' first_doc_from [OF d t(2)] first_doc_from_ge [OF d t(2)] by (auto simp: default_danger_def)
qed simp

interpretation id_danger: danger_set "docs_set walk_to" cursor_inv cursor_rest "default_danger (docs_set walk_to)"
  "\<lambda>s ds b. cursor_inv s \<and> cursor_rest s = ds \<and> b = first_doc ds"
  by (rule default_danger_set [OF docs_set_doc_set [OF walk_to_ok]])

text \<open>C13: Excluding a phrase with the guarded scorer keeps, of any ascending candidates, exactly
  those outside the documents of the excluded scorer, whatever bounds its failed probes return; and
  its explanation succeeds for exactly those documents.\<close>

theorem negative_query_excludes:
  assumes "danger_set ops ok_state docs danger loose" "ok_state s" "sorted_wrt (<) cs"
    "\<forall>d \<in> set (docs s). d < m" "m \<le> TERMINATED"
  shows "exclude danger (negative_new ops s) cs = Some (filter (\<lambda>c. c \<notin> set (docs s)) cs)
    \<and> negative_explain ops m s d = Some (if d \<in> set (docs s) then Inr () else Inl ())"
  using danger_set.exclude_new [OF assms(1-3)] danger_set.explain_new [OF assms(1,2,4,5)] by simp

theorem negative_query_excludes_witness:
  "exclude (default_danger (docs_set walk_to)) (negative_new (docs_set walk_to) \<lparr>cursor_docs = [2, 5], cursor = 0\<rparr>)
     [1, 2, 4, 6] = Some [1, 4, 6]"
proof -
  have "cursor_inv \<lparr>cursor_docs = [2, 5], cursor = 0\<rparr>" by (simp add: cursor_inv_def TERMINATED_def)
  from negative_query_excludes [OF id_danger.danger_set_axioms this, of "[1, 2, 4, 6]" 10 2]
  show ?thesis by (simp add: cursor_rest_def TERMINATED_def)
qed

end
