(* ===== verification/ChainSweep.thy ===== *)
theory ChainSweep
  imports Prelude
begin

section \<open>Chains of word occurrences\<close>

text \<open>
  \<^verbatim>\<open>ChainSweep\<close> and the two anchored checks of \<^verbatim>\<open>gap_phrase.rs\<close>. A sweep keeps the
  positions at which a chain over the words so far can end; one two-pointer merge extends it by
  the next word. \<open>occurs\<close> is the reference: positions, one of each word, each after the last
  with at most the allowed words between them. The sweep is shown to hold exactly the ends of the
  occurrences, so it has neither false positives nor false negatives.
\<close>

subsection \<open>The sweep\<close>

text \<open>One step of \<^verbatim>\<open>extend\<close>: \<open>fs\<close> is the suffix \<^verbatim>\<open>feasible[j..]\<close> the pointer \<^verbatim>\<open>j\<close> has come to;
  the window is a 64-bit number, so \<^verbatim>\<open>gap + 1\<close> does not wrap.\<close>

fun extend_from :: "nat \<Rightarrow> nat list \<Rightarrow> nat list \<Rightarrow> nat list" where
  "extend_from window fs [] = []"
| "extend_from window fs (q # qs) =
     (let lo = q - window;
          fs' = dropWhile (\<lambda>p. p < lo) fs;
          rest = extend_from window fs' qs
      in case fs' of [] \<Rightarrow> rest | p # _ \<Rightarrow> if p < q then q # rest else rest)"

definition extend :: "nat list \<Rightarrow> nat list \<Rightarrow> nat \<Rightarrow> nat list \<times> bool" where
  "extend feasible positions gap =
     (let next = extend_from (gap + 1) feasible positions in (next, next \<noteq> []))"

text \<open>\<^verbatim>\<open>rest.iter().zip(gaps).all(..)\<close>: stop at the first word that cannot be reached.\<close>

fun extend_all :: "nat list \<Rightarrow> (nat list \<times> nat) list \<Rightarrow> nat list \<times> bool" where
  "extend_all feasible [] = (feasible, True)"
| "extend_all feasible ((positions, gap) # more) =
     (case extend feasible positions gap of
        (next, True) \<Rightarrow> extend_all next more
      | (next, False) \<Rightarrow> (next, False))"

definition chain :: "nat list list \<Rightarrow> nat list \<Rightarrow> nat list \<times> bool" where
  "chain words gaps =
     (case words of
        [] \<Rightarrow> ([], False)
      | first # rest \<Rightarrow> if first = [] then ([], False) else extend_all first (zip rest gaps))"

definition end_anchored_slack :: "nat list list \<Rightarrow> nat list \<Rightarrow> nat \<Rightarrow> nat \<Rightarrow> nat option" where
  "end_anchored_slack words gaps last_pos max_slack =
     (case chain words gaps of
        (_, False) \<Rightarrow> None
      | (ends, True) \<Rightarrow> do {
          e \<leftarrow> List.find (\<lambda>e. e \<le> last_pos) (rev ends);
          let slack = last_pos - e;
          if slack \<le> max_slack then Some slack else None })"

definition start_anchored_slack :: "nat list list \<Rightarrow> nat list \<Rightarrow> nat \<Rightarrow> nat \<Rightarrow> nat option" where
  "start_anchored_slack words gaps first max_slack =
     (case words of
        [] \<Rightarrow> None
      | head # rest \<Rightarrow>
          (let window_end = saturating_add u32_max first max_slack
           in map_option (\<lambda>start. start - first)
                (List.find (\<lambda>start. snd (extend_all [start] (zip rest gaps)))
                  (filter (\<lambda>start. first \<le> start \<and> start \<le> window_end) head))))"

subsection \<open>Occurrences\<close>

fun follows :: "nat \<Rightarrow> nat list list \<Rightarrow> nat list \<Rightarrow> nat list \<Rightarrow> bool" where
  "follows p [] [] [] \<longleftrightarrow> True"
| "follows p (positions # words) (gap # gaps) (q # qs) \<longleftrightarrow>
     q \<in> set positions \<and> p < q \<and> q - p - 1 \<le> gap \<and> follows q words gaps qs"
| "follows _ _ _ _ \<longleftrightarrow> False"

definition occurs :: "nat list list \<Rightarrow> nat list \<Rightarrow> nat list \<Rightarrow> bool" where
  "occurs words gaps ps \<longleftrightarrow>
     (case (words, ps) of (first # rest, p # qs) \<Rightarrow> p \<in> set first \<and> follows p rest gaps qs | _ \<Rightarrow> False)"

lemma extend_from_filter:
  "sorted fs \<Longrightarrow> sorted qs \<Longrightarrow>
     extend_from w fs qs = filter (\<lambda>q. \<exists>p\<in>set fs. q - w \<le> p \<and> p < q) qs"
proof (induction w fs qs rule: extend_from.induct)
  case (2 w fs q qs)
  let ?fs = "dropWhile (\<lambda>p. p < q - w) fs"
  have s: "sorted ?fs" using "2.prems"(1) by (rule sorted_dropWhile)
  have split: "set fs = set (takeWhile (\<lambda>p. p < q - w) fs) \<union> set ?fs"
    by (metis set_append takeWhile_dropWhile_id)
  have gone: "p < q - w" if "p \<in> set fs" "p \<notin> set ?fs" for p
    using that split set_takeWhileD by fastforce
  have "extend_from w ?fs qs = filter (\<lambda>q. \<exists>p\<in>set ?fs. q - w \<le> p \<and> p < q) qs"
    using "2.IH" [OF refl refl s] "2.prems"(2) by simp
  also have "\<dots> = filter (\<lambda>q. \<exists>p\<in>set fs. q - w \<le> p \<and> p < q) qs"
  proof (rule filter_cong [OF refl])
    fix r assume "r \<in> set qs"
    then have "q \<le> r" using "2.prems"(2) by simp
    have "p \<in> set ?fs" if "p \<in> set fs" "r - w \<le> p" for p
      using gone [OF that(1)] that(2) \<open>q \<le> r\<close> by linarith
    then show "(\<exists>p\<in>set ?fs. r - w \<le> p \<and> p < r) \<longleftrightarrow> (\<exists>p\<in>set fs. r - w \<le> p \<and> p < r)"
      using set_dropWhileD by metis
  qed
  finally have rest: "extend_from w ?fs qs = filter (\<lambda>q. \<exists>p\<in>set fs. q - w \<le> p \<and> p < q) qs" .
  have reach: "(\<exists>p\<in>set fs. q - w \<le> p \<and> p < q) \<longleftrightarrow> (case ?fs of [] \<Rightarrow> False | p # _ \<Rightarrow> p < q)"
  proof (cases ?fs)
    case Nil
    have "p < q - w" if "p \<in> set fs" for p using gone [OF that] Nil by simp
    then show ?thesis unfolding Nil list.case by fastforce
  next
    case (Cons p ps)
    then have p: "\<not> p < q - w" "p \<in> set fs" "\<forall>r\<in>set ps. p \<le> r"
      using s dropWhile_head [OF Cons] split by auto
    have "p \<le> r" if "r \<in> set fs" "q - w \<le> r" for r
      using gone [OF that(1)] that(2) Cons p(3) by (cases "r \<in> set ?fs") auto
    then show ?thesis using Cons p by (auto intro: bexI [of _ p] order.strict_trans1)
  qed
  show ?case using rest reach by (cases ?fs) (simp_all add: Let_def del: dropWhile_eq_Nil_conv)
qed simp

text \<open>Extending word by word: what is feasible at the end are the ends of the chains.\<close>

lemma extend_all_spec:
  "sorted fs \<Longrightarrow> (\<forall>pos\<in>set words. sorted pos) \<Longrightarrow> length words = length gaps \<Longrightarrow> fs \<noteq> [] \<Longrightarrow>
     case extend_all fs (zip words gaps) of (ends, ok) \<Rightarrow>
       (ok \<longleftrightarrow> ends \<noteq> []) \<and> sorted ends \<and>
       set ends = {last (p # qs) | p qs. p \<in> set fs \<and> follows p words gaps qs}"
proof (induction words gaps arbitrary: fs rule: list_induct2')
  case 1
  have "{last (p # qs) | p qs. p \<in> set fs \<and> follows p [] [] qs} = set fs"
  proof -
    have "follows p [] [] qs \<longleftrightarrow> qs = []" for p qs by (cases qs) simp_all
    then show ?thesis by simp
  qed
  with 1 show ?case by simp
next
  case (4 pos words gap gaps)
  define nx where "nx = filter (\<lambda>q. \<exists>p\<in>set fs. q - (gap + 1) \<le> p \<and> p < q) pos"
  have ext: "extend fs pos gap = (nx, nx \<noteq> [])"
    using "4.prems"(1,2) by (simp add: extend_def extend_from_filter nx_def Let_def)
  have nx: "set nx = {q \<in> set pos. \<exists>p\<in>set fs. p < q \<and> q - p - 1 \<le> gap}"
  proof -
    have "(q - (gap + 1) \<le> p \<and> p < q) = (p < q \<and> q - p - 1 \<le> gap)" for p q :: nat by auto
    then show ?thesis unfolding nx_def by simp
  qed
  have step: "{last (p # qs) | p qs. p \<in> set fs \<and> follows p (pos # words) (gap # gaps) qs}
      = {last (q # qs) | q qs. q \<in> set nx \<and> follows q words gaps qs}" (is "?l = ?r")
  proof (intro equalityI subsetI)
    fix x assume "x \<in> ?l"
    then obtain p qs where p: "x = last (p # qs)" "p \<in> set fs" "follows p (pos # words) (gap # gaps) qs" by blast
    then obtain q qs' where qs: "qs = q # qs'" by (cases qs) auto
    then have "q \<in> set nx" "follows q words gaps qs'" "x = last (q # qs')" using p unfolding nx by auto
    then show "x \<in> ?r" by blast
  next
    fix x assume "x \<in> ?r"
    then obtain q qs p where "x = last (q # qs)" "follows q words gaps qs" "q \<in> set pos" "p \<in> set fs" "p < q"
      "q - p - 1 \<le> gap" unfolding nx by blast
    then have "x = last (p # q # qs)" "follows p (pos # words) (gap # gaps) (q # qs)" by simp_all
    with \<open>p \<in> set fs\<close> show "x \<in> ?l" by blast
  qed
  show ?case
  proof (cases "nx = []")
    case True
    then show ?thesis unfolding step by (simp add: ext)
  next
    case False
    have "sorted nx" using "4.prems"(2) by (simp add: nx_def sorted_wrt_filter)
    have IH: "case extend_all nx (zip words gaps) of (ends, ok) \<Rightarrow> (ok \<longleftrightarrow> ends \<noteq> []) \<and> sorted ends
        \<and> set ends = {last (q # qs) | q qs. q \<in> set nx \<and> follows q words gaps qs}"
      using "4.IH" [OF \<open>sorted nx\<close> _ _ False] "4.prems"(2,3) by simp
    have "extend_all fs (zip (pos # words) (gap # gaps)) = extend_all nx (zip words gaps)"
      using ext False by simp
    with IH show ?thesis unfolding step by argo
  qed
qed simp_all

lemma chain_spec:
  assumes "\<forall>pos\<in>set words. sorted pos" "length words = length gaps + 1"
  shows "\<exists>ends ok. chain words gaps = (ends, ok) \<and> (ok \<longleftrightarrow> ends \<noteq> []) \<and> sorted ends
    \<and> set ends = {last ps | ps. occurs words gaps ps}"
proof (cases words)
  case (Cons first rest)
  have occ: "{last ps | ps. occurs words gaps ps} = {last (p # qs) | p qs. p \<in> set first \<and> follows p rest gaps qs}"
    (is "?l = ?r")
  proof (intro equalityI subsetI)
    fix x assume "x \<in> ?l"
    then obtain ps where ps: "x = last ps" "occurs words gaps ps" by blast
    then obtain p qs where "ps = p # qs" by (cases ps) (auto simp: occurs_def split: list.splits)
    with ps Cons show "x \<in> ?r" by (auto simp: occurs_def)
  next
    fix x assume "x \<in> ?r"
    then obtain p qs where "x = last (p # qs)" "occurs words gaps (p # qs)" using Cons by (auto simp: occurs_def)
    then show "x \<in> ?l" by blast
  qed
  show ?thesis
  proof (cases "first = []")
    case True
    then show ?thesis unfolding occ by (simp add: Cons chain_def)
  next
    case False
    then show ?thesis
      using extend_all_spec [of first rest gaps] assms Cons unfolding occ by (auto simp: chain_def)
  qed
qed (use assms in simp)

lemma find_first: "sorted xs \<Longrightarrow>
    List.find P xs = Some x \<longleftrightarrow> x \<in> set xs \<and> P x \<and> (\<forall>y\<in>set xs. P y \<longrightarrow> x \<le> y)"
  by (induction xs) (auto intro: order_antisym)

lemma find_last: "sorted xs \<Longrightarrow>
    List.find P (rev xs) = Some x \<longleftrightarrow> x \<in> set xs \<and> P x \<and> (\<forall>y\<in>set xs. P y \<longrightarrow> y \<le> x)"
proof (induction xs rule: rev_induct)
  case (snoc y xs)
  then have le: "\<forall>z\<in>set xs. z \<le> y" and s: "sorted xs" by (simp_all add: sorted_append)
  show ?case
  proof (cases "P y")
    case True
    then have "List.find P (rev (xs @ [y])) = Some y" by simp
    moreover have "x \<in> set (xs @ [y]) \<and> P x \<and> (\<forall>z\<in>set (xs @ [y]). P z \<longrightarrow> z \<le> x) \<longleftrightarrow> x = y"
      using True le by (auto intro: order_antisym)
    ultimately show ?thesis by auto
  next
    case False
    then show ?thesis using snoc.IH [OF s] by auto
  qed
qed simp

lemma least_slack:
  fixes first k m :: nat
  shows "(\<exists>st\<in>A. first \<le> st \<and> st \<le> first + m \<and> k = st - first \<and> F st
      \<and> (\<forall>y\<in>A. first \<le> y \<and> y \<le> first + m \<and> F y \<longrightarrow> st \<le> y))
    \<longleftrightarrow> k \<le> m \<and> (\<exists>st\<in>A. st = first + k \<and> F st) \<and> \<not> (\<exists>st\<in>A. (first \<le> st \<and> st < first + k) \<and> F st)"
    (is "?l \<longleftrightarrow> ?r")
proof
  assume ?l
  then obtain st where st: "st \<in> A" "first \<le> st" "st \<le> first + m" "k = st - first" "F st"
    "\<forall>y\<in>A. first \<le> y \<and> y \<le> first + m \<and> F y \<longrightarrow> st \<le> y" by blast
  have "st \<le> y" if "y \<in> A" "first \<le> y" "y < first + k" "F y" for y
    using st(3,4,6) that by auto
  moreover have "st = first + k" using st(2,4) by simp
  ultimately show ?r using st by fastforce
next
  assume r: ?r
  then have st: "first + k \<in> A" "F (first + k)" "k \<le> m" by auto
  have "first + k \<le> y" if "y \<in> A" "first \<le> y" "F y" for y
    using r that by (meson not_less)
  with st show ?l by (intro bexI [of _ "first + k"]) auto
qed

subsection \<open>Properties\<close>

text \<open>C14: The sweep over sorted positions succeeds exactly when the words occur in order with at
  most the allowed words between neighbours, and what it then holds are exactly the positions at
  which such an occurrence ends, in order.\<close>

theorem chain_sweep_exact:
  assumes "\<forall>pos\<in>set words. sorted pos" "length words = length gaps + 1"
  shows "(snd (chain words gaps) \<longleftrightarrow> (\<exists>ps. occurs words gaps ps))
    \<and> sorted (fst (chain words gaps)) \<and> set (fst (chain words gaps)) = {last ps | ps. occurs words gaps ps}"
proof -
  obtain ends ok where c: "chain words gaps = (ends, ok)" "ok \<longleftrightarrow> ends \<noteq> []" "sorted ends"
    and e: "set ends = {last ps | ps. occurs words gaps ps}" using chain_spec [OF assms] by blast
  have "ends \<noteq> [] \<longleftrightarrow> (\<exists>ps. occurs words gaps ps)" unfolding set_empty [symmetric] e by blast
  with c e show ?thesis by simp
qed

theorem chain_sweep_exact_witness:
  "snd (chain [[1, 5], [3, 9], [4, 6]] [1, 0]) \<and> fst (chain [[1, 5], [3, 9], [4, 6]] [1, 0]) = [4]"
  using chain_sweep_exact [of "[[1, 5], [3, 9], [4, 6]]" "[1, 0]"]
  by (simp add: chain_def extend_def Let_def)

text \<open>A phrase that has to end a line is accepted with the fewest words between an occurrence's
  end and the line's last word, if those are not too many.\<close>

theorem end_anchored_slack_minimal:
  assumes "\<forall>pos\<in>set words. sorted pos" "length words = length gaps + 1"
  shows "end_anchored_slack words gaps last_pos max_slack = Some k \<longleftrightarrow>
     k \<le> max_slack \<and> (\<exists>ps. occurs words gaps ps \<and> last ps + k = last_pos)
     \<and> (\<forall>ps. occurs words gaps ps \<longrightarrow> last ps \<le> last_pos \<longrightarrow> k \<le> last_pos - last ps)"
proof -
  obtain ends ok where c: "chain words gaps = (ends, ok)" "ok \<longleftrightarrow> ends \<noteq> []" "sorted ends"
    and e: "set ends = {last ps | ps. occurs words gaps ps}" using chain_spec [OF assms] by blast
  have "end_anchored_slack words gaps last_pos max_slack = Some k \<longleftrightarrow>
     (\<exists>x. List.find (\<lambda>e. e \<le> last_pos) (rev ends) = Some x \<and> k = last_pos - x \<and> k \<le> max_slack)"
    using c by (cases ok) (auto simp: end_anchored_slack_def Let_def bind_eq_Some_conv)
  also have "\<dots> \<longleftrightarrow> (\<exists>x\<in>set ends. x \<le> last_pos \<and> (\<forall>y\<in>set ends. y \<le> last_pos \<longrightarrow> y \<le> x)
      \<and> k = last_pos - x \<and> k \<le> max_slack)"
    unfolding find_last [OF c(3)] by blast
  also have "\<dots> \<longleftrightarrow> k \<le> max_slack \<and> (\<exists>x\<in>set ends. x + k = last_pos)
      \<and> (\<forall>y\<in>set ends. y \<le> last_pos \<longrightarrow> k \<le> last_pos - y)"
  proof
    assume "\<exists>x\<in>set ends. x \<le> last_pos \<and> (\<forall>y\<in>set ends. y \<le> last_pos \<longrightarrow> y \<le> x)
      \<and> k = last_pos - x \<and> k \<le> max_slack"
    then obtain x where "x \<in> set ends" "x \<le> last_pos" "\<forall>y\<in>set ends. y \<le> last_pos \<longrightarrow> y \<le> x"
      "k = last_pos - x" "k \<le> max_slack" by blast
    then show "k \<le> max_slack \<and> (\<exists>x\<in>set ends. x + k = last_pos)
      \<and> (\<forall>y\<in>set ends. y \<le> last_pos \<longrightarrow> k \<le> last_pos - y)" by (auto intro!: bexI [of _ x])
  next
    assume a: "k \<le> max_slack \<and> (\<exists>x\<in>set ends. x + k = last_pos)
      \<and> (\<forall>y\<in>set ends. y \<le> last_pos \<longrightarrow> k \<le> last_pos - y)"
    then obtain x where x: "x \<in> set ends" "x + k = last_pos" by blast
    have "y \<le> x" if "y \<in> set ends" "y \<le> last_pos" for y
    proof -
      have "k \<le> last_pos - y" using a that by blast
      with x(2) that(2) show ?thesis by linarith
    qed
    with a x show "\<exists>x\<in>set ends. x \<le> last_pos \<and> (\<forall>y\<in>set ends. y \<le> last_pos \<longrightarrow> y \<le> x)
      \<and> k = last_pos - x \<and> k \<le> max_slack" by (intro bexI [of _ x]) auto
  qed
  finally show ?thesis unfolding e by (simp add: conj_commute ex_disj_distrib) blast
qed

theorem end_anchored_slack_minimal_witness: "end_anchored_slack [[1, 5], [3, 9]] [1] 5 4 = Some 2"
proof (rule end_anchored_slack_minimal [THEN iffD2], simp, simp, intro conjI allI impI)
  show "\<exists>ps. occurs [[1, 5], [3, 9]] [1] ps \<and> last ps + 2 = 5"
    by (rule exI [of _ "[1, 3]"]) (simp add: occurs_def)
  fix ps assume "occurs [[1, 5], [3, 9]] [1] ps" "last ps \<le> 5"
  then show "2 \<le> 5 - last ps"
    by (cases ps; cases "tl ps"; cases "tl (tl ps)") (auto simp: occurs_def split: if_splits)
qed simp

text \<open>A phrase that has to start a line is accepted with the fewest words between the line's
  first word and an occurrence's start, if those are not too many; the saturating addition loses
  no position.\<close>

theorem start_anchored_slack_minimal:
  assumes "\<forall>pos\<in>set words. sorted pos \<and> (\<forall>p\<in>set pos. p \<le> u32_max)" "length words = length gaps + 1"
  shows "start_anchored_slack words gaps first max_slack = Some k \<longleftrightarrow>
     k \<le> max_slack \<and> (\<exists>ps. occurs words gaps ps \<and> hd ps = first + k)
     \<and> (\<forall>ps. occurs words gaps ps \<longrightarrow> first \<le> hd ps \<longrightarrow> first + k \<le> hd ps)"
proof (cases words)
  case (Cons head rest)
  have reach: "snd (extend_all [st] (zip rest gaps)) \<longleftrightarrow> (\<exists>qs. follows st rest gaps qs)" for st
  proof -
    obtain ends ok where e: "extend_all [st] (zip rest gaps) = (ends, ok)" by fastforce
    have ok: "ok \<longleftrightarrow> set ends \<noteq> {}" and ends: "set ends = {last (st # qs) | qs. follows st rest gaps qs}"
      using extend_all_spec [of "[st]" rest gaps] assms Cons unfolding e set_empty by (simp_all del: last.simps)
    have "ok \<longleftrightarrow> (\<exists>qs. follows st rest gaps qs)" unfolding ok ends by blast
    then show ?thesis using e by simp
  qed
  have occ: "(\<exists>ps. occurs words gaps ps \<and> Q (hd ps)) \<longleftrightarrow> (\<exists>st\<in>set head. Q st \<and> (\<exists>qs. follows st rest gaps qs))" for Q
  proof
    assume "\<exists>ps. occurs words gaps ps \<and> Q (hd ps)"
    then obtain ps where "occurs words gaps ps" "Q (hd ps)" by blast
    then show "\<exists>st\<in>set head. Q st \<and> (\<exists>qs. follows st rest gaps qs)"
      using Cons by (cases ps) (auto simp: occurs_def)
  next
    assume "\<exists>st\<in>set head. Q st \<and> (\<exists>qs. follows st rest gaps qs)"
    then obtain st qs where "st \<in> set head" "Q st" "follows st rest gaps qs" by blast
    then show "\<exists>ps. occurs words gaps ps \<and> Q (hd ps)"
      using Cons by (intro exI [of _ "st # qs"]) (simp add: occurs_def)
  qed
  let ?cand = "filter (\<lambda>st. first \<le> st \<and> st \<le> saturating_add u32_max first max_slack) head"
  have cand: "set ?cand = {st \<in> set head. first \<le> st \<and> st \<le> first + max_slack}"
    using assms(1) Cons by (auto simp: saturating_add_def)
  have sc: "sorted ?cand" using assms(1) Cons by (simp add: sorted_wrt_filter)
  have "start_anchored_slack words gaps first max_slack = Some k \<longleftrightarrow>
     (\<exists>st. List.find (\<lambda>st. snd (extend_all [st] (zip rest gaps))) ?cand = Some st \<and> k = st - first)"
    by (auto simp: start_anchored_slack_def Cons Let_def)
  also have "\<dots> \<longleftrightarrow> (\<exists>st\<in>set head. first \<le> st \<and> st \<le> first + max_slack \<and> k = st - first
      \<and> (\<exists>qs. follows st rest gaps qs)
      \<and> (\<forall>y\<in>set head. first \<le> y \<and> y \<le> first + max_slack \<and> (\<exists>qs. follows y rest gaps qs) \<longrightarrow> st \<le> y))"
    unfolding find_first [OF sc] reach cand by blast
  also have "\<dots> \<longleftrightarrow> k \<le> max_slack \<and> (\<exists>st\<in>set head. st = first + k \<and> (\<exists>qs. follows st rest gaps qs))
     \<and> \<not> (\<exists>st\<in>set head. (first \<le> st \<and> st < first + k) \<and> (\<exists>qs. follows st rest gaps qs))"
    by (rule least_slack)
  also have "\<dots> \<longleftrightarrow> k \<le> max_slack \<and> (\<exists>ps. occurs words gaps ps \<and> hd ps = first + k)
     \<and> \<not> (\<exists>ps. occurs words gaps ps \<and> first \<le> hd ps \<and> hd ps < first + k)"
    unfolding occ [of "\<lambda>st. st = first + k"] occ [of "\<lambda>st. first \<le> st \<and> st < first + k"] by blast
  finally show ?thesis by (auto simp: not_less)
qed (use assms in simp)

theorem start_anchored_slack_minimal_witness: "start_anchored_slack [[1, 5], [3, 6]] [1] 2 4 = Some 3"
proof (rule start_anchored_slack_minimal [THEN iffD2], simp, simp, intro conjI allI impI)
  show "\<exists>ps. occurs [[1, 5], [3, 6]] [1] ps \<and> hd ps = 2 + 3"
    by (rule exI [of _ "[5, 6]"]) (simp add: occurs_def)
  fix ps assume "occurs [[1, 5], [3, 6]] [1] ps" "2 \<le> hd ps"
  then show "2 + 3 \<le> hd ps"
    by (cases ps; cases "tl ps"; cases "tl (tl ps)") (auto simp: occurs_def split: if_splits)
qed simp

end
