(* ===== verification/WordPositions.thy ===== *)
theory WordPositions
  imports IdLookup "HOL-Library.Multiset" "HOL-Library.Product_Lexorder"
begin

section \<open>The positions of a query word\<close>

text \<open>
  \<^verbatim>\<open>WordPositions\<close> of \<^verbatim>\<open>gap_phrase.rs\<close>: the positions, document by document, of all the
  index terms a query word matched, read from forward-only cursors of the search library. The
  cursors are a parameter: doc sets with the positions of the document they stand on. Three
  paths read a document: a sweep over few cursors; a heap of the cursors that lag behind
  with the cursors of the last document apart; and, when those are many, a sweep that rebuilds
  the heap. All three return the sorted positions of the cursors that have the document.

  A \<^verbatim>\<open>BinaryHeap\<close> of reversed pairs is the ascending list of its elements; \<open>None\<close> is a panic.
\<close>

definition LINEAR_POSTINGS_LIMIT :: nat where
  "LINEAR_POSTINGS_LIMIT = 8"

record 'p word_positions =
  postings :: "'p list"
  heap :: "(nat \<times> nat) list"
  on_doc :: "nat list"

definition word_positions_new :: "'p docset \<Rightarrow> 'p list \<Rightarrow> 'p word_positions" where
  "word_positions_new ops ps =
     \<lparr>postings = ps,
      heap = (if length ps \<le> LINEAR_POSTINGS_LIMIT then []
              else sort (map (\<lambda>i. (ds_doc ops (ps ! i), i))
                     (filter (\<lambda>i. ds_doc ops (ps ! i) \<noteq> TERMINATED) [0..<length ps]))),
      on_doc = []\<rparr>"

subsection \<open>The three paths\<close>

fun read_linear :: "'p docset \<Rightarrow> ('p \<Rightarrow> nat list) \<Rightarrow> nat \<Rightarrow> 'p list \<Rightarrow> ('p list \<times> nat list) option" where
  "read_linear ops positions d [] = Some ([], [])"
| "read_linear ops positions d (p # ps) = do {
     p' \<leftarrow> (if ds_doc ops p < d then map_option fst (ds_seek ops d p) else Some p);
     (ps', out) \<leftarrow> read_linear ops positions d ps;
     Some (p' # ps', (if ds_doc ops p' = d then positions p' else []) @ out) }"

text \<open>The dense sweep from cursor \<open>i\<close>: the cursors, the positions, the cursors on the document
  and the entries of the new heap.\<close>

fun read_dense ::
  "'p docset \<Rightarrow> ('p \<Rightarrow> nat list) \<Rightarrow> nat \<Rightarrow> nat \<Rightarrow> 'p list
    \<Rightarrow> ('p list \<times> nat list \<times> nat list \<times> (nat \<times> nat) list) option" where
  "read_dense ops positions d i [] = Some ([], [], [], [])"
| "read_dense ops positions d i (p # ps) = do {
     (p', at) \<leftarrow> (if ds_doc ops p < d then ds_seek ops d p else Some (p, ds_doc ops p));
     (ps', out, pending, future) \<leftarrow> read_dense ops positions d (i + 1) ps;
     Some (p' # ps',
           if at = d then (positions p' @ out, i # pending, future)
           else if at \<noteq> TERMINATED then (out, pending, (at, i) # future)
           else (out, pending, future)) }"

text \<open>\<^verbatim>\<open>retain\<close> over the cursors of the last document, which all advance.\<close>

fun retain_pending ::
  "'p docset \<Rightarrow> ('p \<Rightarrow> nat list) \<Rightarrow> nat \<Rightarrow> nat list \<Rightarrow> 'p list \<Rightarrow> (nat \<times> nat) list
    \<Rightarrow> ('p list \<times> (nat \<times> nat) list \<times> nat list \<times> nat list) option" where
  "retain_pending ops positions d [] ps hp = Some (ps, hp, [], [])"
| "retain_pending ops positions d (i # is) ps hp =
     (if i < length ps then do {
        (p', at) \<leftarrow> ds_seek ops d (ps ! i);
        let ps1 = ps[i := p'];
        (ps', hp', kept, out) \<leftarrow> retain_pending ops positions d is ps1
          (if at = d \<or> at = TERMINATED then hp else insort (at, i) hp);
        Some (ps', hp', if at = d then (i # kept, positions p' @ out) else (kept, out)) }
      else None)"

text \<open>Cursors are popped while they are at or behind the document.\<close>

partial_function (option) pop_lagging ::
  "'p docset \<Rightarrow> ('p \<Rightarrow> nat list) \<Rightarrow> nat \<Rightarrow> 'p list \<Rightarrow> (nat \<times> nat) list
    \<Rightarrow> ('p list \<times> (nat \<times> nat) list \<times> nat list \<times> nat list) option" where
  "pop_lagging ops positions d ps hp =
     (case hp of
        [] \<Rightarrow> Some (ps, hp, [], [])
      | e # rest \<Rightarrow>
          if d < fst e then Some (ps, hp, [], [])
          else if length ps \<le> snd e then None
          else Option.bind (if fst e < d then ds_seek ops d (ps ! snd e) else Some (ps ! snd e, fst e)) (\<lambda>r.
               Option.bind (pop_lagging ops positions d (ps[snd e := fst r])
                   (if snd r = d \<or> snd r = TERMINATED then rest else insort (snd r, snd e) rest)) (\<lambda>q.
               Some (fst q, fst (snd q),
                     if snd r = d
                     then (snd e # fst (snd (snd q)), positions (fst r) @ snd (snd (snd q)))
                     else snd (snd q)))))"

definition positions_in ::
  "'p docset \<Rightarrow> ('p \<Rightarrow> nat list) \<Rightarrow> nat \<Rightarrow> 'p word_positions \<Rightarrow> ('p word_positions \<times> nat list) option" where
  "positions_in ops positions d w =
     (if length (postings w) \<le> LINEAR_POSTINGS_LIMIT then do {
        (ps, out) \<leftarrow> read_linear ops positions d (postings w);
        Some (w\<lparr>postings := ps\<rparr>, sort out) }
      else if length (postings w) \<le> length (on_doc w) * 2 then do {
        (ps, out, pending, future) \<leftarrow> read_dense ops positions d 0 (postings w);
        Some (\<lparr>postings = ps, heap = sort future, on_doc = pending\<rparr>, sort out) }
      else do {
        (ps, hp, kept, out) \<leftarrow> retain_pending ops positions d (on_doc w) (postings w) (heap w);
        (ps', hp', popped, out') \<leftarrow> pop_lagging ops positions d ps hp;
        Some (\<lparr>postings = ps', heap = hp', on_doc = kept @ popped\<rparr>, sort (out @ out')) })"

subsection \<open>Cursors\<close>

text \<open>A cursor's \<open>table\<close> gives the positions of its term in each document.\<close>

locale postings_set = doc_set ops inv docs
  for ops :: "'p docset" and inv docs +
  fixes positions :: "'p \<Rightarrow> nat list" and table :: "'p \<Rightarrow> nat \<Rightarrow> nat list"
  assumes positions: "inv p \<Longrightarrow> docs p \<noteq> [] \<Longrightarrow> positions p = table p (hd (docs p))"
    and seek_table: "inv p \<Longrightarrow> ds_seek ops t p = Some (p', d) \<Longrightarrow> table p' = table p"
begin

definition reads :: "nat \<Rightarrow> 'p \<Rightarrow> nat list" where
  "reads d p = (if d \<in> set (docs p) then table p d else [])"

definition caught :: "nat \<Rightarrow> 'p \<Rightarrow> 'p \<Rightarrow> bool" where
  "caught d p p' \<longleftrightarrow> inv p' \<and> table p' = table p \<and> docs p' = docs_from d (docs p)"

lemma caught_self: "inv p \<Longrightarrow> d \<le> first_doc (docs p) \<Longrightarrow> caught d p p"
  using docs_from_first [OF ok] by (simp add: caught_def)

lemma seek_caught:
  assumes "inv p" "first_doc (docs p) \<le> d" "d \<le> TERMINATED"
  shows "\<exists>p'. ds_seek ops d p = Some (p', first_doc (docs p')) \<and> caught d p p'"
  using seek [OF assms] seek_table [OF assms(1)] by (fastforce simp: caught_def)

lemma catch_up:
  assumes "inv p" "d < TERMINATED"
  shows "\<exists>p'. (if ds_doc ops p < d then ds_seek ops d p else Some (p, ds_doc ops p))
      = Some (p', first_doc (docs p')) \<and> caught d p p'"
proof (cases "ds_doc ops p < d")
  case True
  then show ?thesis using seek_caught [OF assms(1)] doc [OF assms(1)] assms(2) by simp
next
  case False
  then show ?thesis using caught_self [OF assms(1)] doc [OF assms(1)] by simp
qed

lemma caught_reads:
  assumes "inv p" "caught d p p'" "d \<le> e"
  shows "reads e p' = reads e p"
  using assms ok [OF assms(1)] by (auto simp: caught_def reads_def docs_from_eq_filter)

lemma caught_on:
  assumes "inv p" "caught d p p'" "d < TERMINATED"
  shows "reads d p = (if first_doc (docs p') = d then positions p' else [])"
    "d \<le> first_doc (docs p')"
proof -
  have p': "inv p'" "docs_ok (docs p')" "docs p' = docs_from d (docs p)"
    using assms(2) ok [of p'] by (auto simp: caught_def)
  then have "\<forall>e\<in>set (docs p'). d \<le> e" using ok [OF assms(1)] by (auto simp: docs_from_eq_filter)
  then show "d \<le> first_doc (docs p')" using assms(3) by (cases "docs p'") auto
  have "reads d p = reads d p'" using caught_reads [OF assms(1,2)] by simp
  also have "\<dots> = (if first_doc (docs p') = d then positions p' else [])"
    using p'(2) positions [OF p'(1)] \<open>\<forall>e\<in>set (docs p'). d \<le> e\<close> assms(3)
    by (cases "docs p'") (auto simp: reads_def)
  finally show "reads d p = (if first_doc (docs p') = d then positions p' else [])" .
qed

lemma read_linear_spec:
  assumes "\<forall>p\<in>set ps. inv p" "d < TERMINATED"
  shows "\<exists>ps'. read_linear ops positions d ps = Some (ps', concat (map (reads d) ps))
    \<and> list_all2 (caught d) ps ps'"
  using assms(1)
proof (induction ps)
  case (Cons p ps)
  then obtain ps' where IH: "read_linear ops positions d ps = Some (ps', concat (map (reads d) ps))"
    "list_all2 (caught d) ps ps'" by auto
  have i: "inv p" using Cons.prems by simp
  obtain p' where p': "(if ds_doc ops p < d then ds_seek ops d p else Some (p, ds_doc ops p))
      = Some (p', first_doc (docs p'))" "caught d p p'" using catch_up [OF i assms(2)] by blast
  then have "(if ds_doc ops p < d then map_option fst (ds_seek ops d p) else Some p) = Some p'"
    by (auto split: if_splits)
  moreover have "ds_doc ops p' = first_doc (docs p')" using p'(2) doc by (simp add: caught_def)
  ultimately show ?case using p'(2) IH caught_on(1) [OF i p'(2) assms(2)]
    by (simp add: list_all2_Cons1)
qed simp

lemma read_dense_spec:
  assumes "\<forall>p\<in>set ps. inv p" "d < TERMINATED"
  shows "\<exists>ps'. read_dense ops positions d k ps
      = Some (ps', concat (map (reads d) ps),
          filter (\<lambda>i. first_doc (docs (ps' ! (i - k))) = d) [k..<k + length ps],
          map (\<lambda>i. (first_doc (docs (ps' ! (i - k))), i))
            (filter (\<lambda>i. first_doc (docs (ps' ! (i - k))) \<noteq> d \<and> first_doc (docs (ps' ! (i - k))) \<noteq> TERMINATED)
              [k..<k + length ps]))
    \<and> list_all2 (caught d) ps ps'"
  using assms(1)
proof (induction ps arbitrary: k)
  case (Cons p ps)
  let ?at = "\<lambda>ps' k i. first_doc (docs (ps' ! (i - k)))"
  obtain ps' where IH: "read_dense ops positions d (k + 1) ps
      = Some (ps', concat (map (reads d) ps), filter (\<lambda>i. ?at ps' (k + 1) i = d) [k + 1..<k + 1 + length ps],
          map (\<lambda>i. (?at ps' (k + 1) i, i))
            (filter (\<lambda>i. ?at ps' (k + 1) i \<noteq> d \<and> ?at ps' (k + 1) i \<noteq> TERMINATED) [k + 1..<k + 1 + length ps]))"
    "list_all2 (caught d) ps ps'" using Cons.IH [of "k + 1"] Cons.prems by auto
  have i: "inv p" using Cons.prems by simp
  obtain p' where p': "(if ds_doc ops p < d then ds_seek ops d p else Some (p, ds_doc ops p))
      = Some (p', first_doc (docs p'))" "caught d p p'" using catch_up [OF i assms(2)] by blast
  have shift: "filter (\<lambda>i. Q (?at (p' # ps') k i)) [k + 1..<k + 1 + n] = filter (\<lambda>i. Q (?at ps' (k + 1) i)) [k + 1..<k + 1 + n]"
    for Q n by (rule filter_cong) (auto simp: nth_Cons')
  have shift2: "map (\<lambda>i. (?at (p' # ps') k i, i)) (filter Q [k + 1..<k + 1 + n])
      = map (\<lambda>i. (?at ps' (k + 1) i, i)) (filter Q [k + 1..<k + 1 + n])" for Q n
    by (rule map_cong) (auto simp: nth_Cons')
  have upt: "[k..<k + length (p # ps)] = k # [k + 1..<k + 1 + length ps]"
    by (simp add: upt_conv_Cons del: upt_Suc)
  show ?case unfolding upt
    using p' IH caught_on(1) [OF i p'(2) assms(2)] assms(2) shift [of "\<lambda>x. x = d"]
      shift [of "\<lambda>x. x \<noteq> d \<and> x \<noteq> TERMINATED"] shift2
    by (auto simp: list_all2_Cons1 simp del: upt_Suc)
qed simp

text \<open>The heap holds the documents of the cursors that are neither exhausted nor in \<open>X\<close>.\<close>

definition heap_ok :: "'p list \<Rightarrow> (nat \<times> nat) list \<Rightarrow> nat set \<Rightarrow> bool" where
  "heap_ok ps hp X \<longleftrightarrow> sorted hp \<and> distinct hp
     \<and> set hp = {(first_doc (docs (ps ! i)), i) | i. i < length ps \<and> docs (ps ! i) \<noteq> [] \<and> i \<notin> X}"

lemma inv_nth: "\<forall>p\<in>set ps. inv p \<Longrightarrow> i < length ps \<Longrightarrow> inv (ps ! i)"
  by simp

lemma not_exhausted: "inv p \<Longrightarrow> first_doc (docs p) \<noteq> TERMINATED \<longleftrightarrow> docs p \<noteq> []"
  using first_doc_TERMINATED [OF ok] by blast

text \<open>A cursor outside the heap goes back with its new document, stays out as one of \<open>X\<close>, or
  is exhausted.\<close>

lemma heap_put:
  assumes "heap_ok ps hp (insert i X)" "i \<notin> X" "i < length ps" "inv p'"
  shows "heap_ok (ps[i := p']) hp (insert i X)"
    "docs p' = [] \<Longrightarrow> heap_ok (ps[i := p']) hp X"
    "docs p' \<noteq> [] \<Longrightarrow> heap_ok (ps[i := p']) (insort (first_doc (docs p'), i) hp) X"
proof -
  have ent: "{(first_doc (docs (ps ! j)), j) | j. j < length ps \<and> docs (ps ! j) \<noteq> [] \<and> j \<notin> insert i X}
    = {(first_doc (docs (ps[i := p'] ! j)), j) | j. j < length (ps[i := p']) \<and> docs (ps[i := p'] ! j) \<noteq> [] \<and> j \<notin> insert i X}"
    by (rule Collect_cong) (metis insertCI length_list_update nth_list_update_neq)
  show "heap_ok (ps[i := p']) hp (insert i X)" using assms(1) ent by (simp add: heap_ok_def)
  show "heap_ok (ps[i := p']) hp X" if "docs p' = []"
  proof -
    have "{(first_doc (docs (ps[i := p'] ! j)), j) | j. j < length (ps[i := p']) \<and> docs (ps[i := p'] ! j) \<noteq> [] \<and> j \<notin> insert i X}
      = {(first_doc (docs (ps[i := p'] ! j)), j) | j. j < length (ps[i := p']) \<and> docs (ps[i := p'] ! j) \<noteq> [] \<and> j \<notin> X}"
      using that assms(3) by (intro Collect_cong) (metis insert_iff nth_list_update_eq)
    with assms(1) ent show ?thesis by (simp add: heap_ok_def)
  qed
  show "heap_ok (ps[i := p']) (insort (first_doc (docs p'), i) hp) X" if "docs p' \<noteq> []"
  proof -
    have "{(at j, j) | j. j < n \<and> live j \<and> j \<notin> X} = insert (at i, i) {(at j, j) | j. j < n \<and> live j \<and> j \<notin> insert i X}"
      if "i < n" "live i" for at :: "nat \<Rightarrow> nat" and live n
      using that assms(2) by blast
    from this [of "length (ps[i := p'])" "\<lambda>j. docs (ps[i := p'] ! j) \<noteq> []" "\<lambda>j. first_doc (docs (ps[i := p'] ! j))"]
    have "{(first_doc (docs (ps[i := p'] ! j)), j) | j. j < length (ps[i := p']) \<and> docs (ps[i := p'] ! j) \<noteq> [] \<and> j \<notin> X}
      = insert (first_doc (docs p'), i)
        {(first_doc (docs (ps[i := p'] ! j)), j) | j. j < length (ps[i := p']) \<and> docs (ps[i := p'] ! j) \<noteq> [] \<and> j \<notin> insert i X}"
      using that assms(3) by simp
    moreover have "(first_doc (docs p'), i) \<notin> set hp" using assms(1) by (auto simp: heap_ok_def)
    ultimately show ?thesis using assms(1) ent
      by (simp add: heap_ok_def sorted_insort distinct_insort set_insort_key)
  qed
qed

lemma retain_pending_spec:
  assumes "d < TERMINATED" "\<forall>p\<in>set ps. inv p" "heap_ok ps hp (set is \<union> K)" "distinct is" "set is \<inter> K = {}"
    "\<forall>i\<in>set is. i < length ps \<and> first_doc (docs (ps ! i)) \<le> d"
  shows "\<exists>ps' hp' kept. retain_pending ops positions d is ps hp
      = Some (ps', hp', kept, concat (map (\<lambda>i. reads d (ps ! i)) is))
    \<and> heap_ok ps' hp' (set kept \<union> K) \<and> set kept \<subseteq> set is \<and> distinct kept
    \<and> (\<forall>i\<in>set is. i \<in> set kept \<longleftrightarrow> first_doc (docs (ps' ! i)) = d) \<and> length ps' = length ps
    \<and> (\<forall>i < length ps. if i \<in> set is then caught d (ps ! i) (ps' ! i) else ps' ! i = ps ! i)"
  using assms(2-)
proof (induction "is" arbitrary: ps hp K)
  case Nil
  then show ?case by simp
next
  case (Cons i "is")
  have i: "i < length ps" "inv (ps ! i)" "first_doc (docs (ps ! i)) \<le> d" "i \<notin> set is" "i \<notin> K"
    using Cons.prems by auto
  obtain p' where p': "ds_seek ops d (ps ! i) = Some (p', first_doc (docs p'))" "caught d (ps ! i) p'"
    using seek_caught [OF i(2,3)] assms(1) by auto
  let ?at = "first_doc (docs p')" and ?ps = "ps[i := p']"
  have ip: "inv p'" using p'(2) by (simp add: caught_def)
  have h: "heap_ok ps hp (insert i (set is \<union> K))" using Cons.prems(2) by simp
  note put = heap_put [OF h _ i(1) ip]
  let ?hp = "if ?at = d \<or> ?at = TERMINATED then hp else insort (?at, i) hp"
  let ?K = "if ?at = d then insert i K else K"
  have "heap_ok ?ps ?hp (set is \<union> ?K)"
  proof (cases "?at = d")
    case True
    then show ?thesis using put(1) i(4,5) by simp
  next
    case away: False
    show ?thesis
    proof (cases "docs p' = []")
      case True
      then have "heap_ok ?ps hp (set is \<union> K)" using put(2) i(4,5) by blast
      with True away show ?thesis by simp
    next
      case False
      then have "heap_ok ?ps (insort (?at, i) hp) (set is \<union> K)" using put(3) i(4,5) by blast
      with False away not_exhausted [OF ip] show ?thesis by simp
    qed
  qed
  moreover have "\<forall>p\<in>set ?ps. inv p" 
    using Cons.prems(1) ip set_update_subset_insert [of ps i p'] by blast
  moreover have "set is \<inter> ?K = {}" "distinct is" using Cons.prems i(4) by auto
  moreover have "\<forall>j\<in>set is. j < length ?ps \<and> first_doc (docs (?ps ! j)) \<le> d"

  proof
    fix j assume j: "j \<in> set is"
    then have "j \<noteq> i" using i(4) by blast
    with j Cons.prems(5) show "j < length ?ps \<and> first_doc (docs (?ps ! j)) \<le> d" by simp
  qed
  moreover have "concat (map (\<lambda>j. reads d (?ps ! j)) is) = concat (map (\<lambda>j. reads d (ps ! j)) is)"
  proof (intro arg_cong [of _ _ concat] map_cong refl)
    fix j assume "j \<in> set is"
    then have "i \<noteq> j" using i(4) by blast
    then show "reads d (?ps ! j) = reads d (ps ! j)" by simp
  qed
  ultimately obtain ps' hp' kept where IH: "retain_pending ops positions d is ?ps ?hp
      = Some (ps', hp', kept, concat (map (\<lambda>j. reads d (ps ! j)) is))"
    "heap_ok ps' hp' (set kept \<union> ?K)" "set kept \<subseteq> set is" "distinct kept"
    "\<forall>j\<in>set is. j \<in> set kept \<longleftrightarrow> first_doc (docs (ps' ! j)) = d" "length ps' = length ?ps"
    "\<forall>j < length ?ps. if j \<in> set is then caught d (?ps ! j) (ps' ! j) else ps' ! j = ?ps ! j"
    using Cons.IH [of ?ps ?hp ?K] by auto
  let ?kept = "if ?at = d then i # kept else kept"
  have at_i: "ps' ! i = p'" using IH(7) i(1,4) by simp
  have "retain_pending ops positions d (i # is) ps hp
      = Some (ps', hp', ?kept, concat (map (\<lambda>j. reads d (ps ! j)) (i # is)))"
    using i(1) p'(1) IH(1) caught_on(1) [OF i(2) p'(2) assms(1)] by (simp add: Let_def)
  moreover have "heap_ok ps' hp' (set ?kept \<union> K)"
  proof -
    have "set ?kept \<union> K = set kept \<union> ?K" by auto
    with IH(2) show ?thesis by simp
  qed
  moreover have "set ?kept \<subseteq> set (i # is)" using IH(3) by auto
  moreover have "distinct ?kept" using IH(3,4) i(4) by auto
  moreover have "\<forall>j\<in>set (i # is). j \<in> set ?kept \<longleftrightarrow> first_doc (docs (ps' ! j)) = d"
    using IH(3,5) at_i i(4) by auto
  moreover have "length ps' = length ps" using IH(6) by simp
  moreover have "\<forall>j < length ps. if j \<in> set (i # is) then caught d (ps ! j) (ps' ! j) else ps' ! j = ps ! j"
  proof (intro allI impI)
    fix j assume j: "j < length ps"
    show "if j \<in> set (i # is) then caught d (ps ! j) (ps' ! j) else ps' ! j = ps ! j"
    proof (cases "j = i")
      case True
      with at_i p'(2) show ?thesis by simp
    next
      case False
      then have "?ps ! j = ps ! j" by simp
      moreover have "if j \<in> set is then caught d (?ps ! j) (ps' ! j) else ps' ! j = ?ps ! j" using IH(7) j by simp
      ultimately show ?thesis using False by (cases "j \<in> set is") simp_all
    qed
  qed
  ultimately show ?case by blast
qed

text \<open>Popping: the set \<open>K\<close> grows by the cursors found on the document.\<close>

lemma pop_lagging_spec:
  assumes "d < TERMINATED" "\<forall>p\<in>set ps. inv p" "heap_ok ps hp K" "\<forall>i\<in>K. i < length ps \<and> first_doc (docs (ps ! i)) = d"
  shows "\<exists>ps' hp' popped out. pop_lagging ops positions d ps hp = Some (ps', hp', popped, out)
    \<and> heap_ok ps' hp' (K \<union> set popped) \<and> K \<inter> set popped = {} \<and> distinct popped
    \<and> (\<forall>i\<in>K \<union> set popped. i < length ps \<and> first_doc (docs (ps' ! i)) = d) \<and> length ps' = length ps
    \<and> (\<forall>i < length ps. caught d (ps ! i) (ps' ! i))
    \<and> mset out = (\<Sum>i | i < length ps \<and> i \<notin> K. mset (reads d (ps ! i)))"
  using assms(2-)
proof (induction "length (filter (\<lambda>e. fst e \<le> d) hp) + length (filter (\<lambda>e. fst e < d) hp)" arbitrary: ps hp K rule: less_induct)
  case less
  show ?case
  proof (cases "hp = [] \<or> d < fst (hd hp)")
    case True
    then have "pop_lagging ops positions d ps hp = Some (ps, hp, [], [])"
      by (subst pop_lagging.simps) (auto split: list.split)
    moreover have above: "d < fst e" if "e \<in> set hp" for e
    proof (cases hp)
      case (Cons e' h)
      have "e' \<le> e" using that less.prems(2) Cons by (auto simp: heap_ok_def)
      with True Cons show ?thesis by (cases e'; cases e) (auto simp: less_eq_prod_def)
    qed (use that in simp)
    have rest: "d < first_doc (docs (ps ! i))" if "i < length ps" "i \<notin> K" for i
    proof (cases "docs (ps ! i) = []")
      case False
      then have "(first_doc (docs (ps ! i)), i) \<in> set hp" using that less.prems(2) by (auto simp: heap_ok_def)
      then show ?thesis using above by fastforce
    qed (use assms(1) in simp)
    have "caught d (ps ! i) (ps ! i)" if "i < length ps" for i
      using caught_self [of "ps ! i" d] rest [OF that] less.prems(1,3) that by (cases "i \<in> K") auto
    moreover have "reads d (ps ! i) = []" if "i < length ps" "i \<notin> K" for i
      using rest [OF that] ok [of "ps ! i"] less.prems(1) that(1)
      by (cases "docs (ps ! i)") (auto simp: reads_def)
    then have "(\<Sum>i | i < length ps \<and> i \<notin> K. mset (reads d (ps ! i))) = {#}" by simp
    ultimately show ?thesis using less.prems by auto
  next
    case False
    then obtain a i rest where hp: "hp = (a, i) # rest" and a: "a \<le> d" by (cases hp) auto
    have i: "i < length ps" "docs (ps ! i) \<noteq> []" "i \<notin> K" "a = first_doc (docs (ps ! i))"
      using less.prems(2) hp by (auto simp: heap_ok_def)
    have ii: "inv (ps ! i)" using less.prems(1) i(1) by simp
    obtain p' where p': "(if a < d then ds_seek ops d (ps ! i) else Some (ps ! i, a))
        = Some (p', first_doc (docs p'))" "caught d (ps ! i) p'"
      using catch_up [OF ii assms(1)] unfolding doc [OF ii] i(4) by blast
    let ?at = "first_doc (docs p')" and ?ps = "ps[i := p']"
    have ip: "inv p'" using p'(2) by (simp add: caught_def)
    have "heap_ok ps rest (insert i K)"
    proof -
      have "set rest = set hp - {(a, i)}" using less.prems(2) hp by (auto simp: heap_ok_def)
      also have "\<dots> = {(first_doc (docs (ps ! j)), j) | j. j < length ps \<and> docs (ps ! j) \<noteq> [] \<and> j \<notin> insert i K}"
        using less.prems(2) i by (auto simp: heap_ok_def)
      finally show ?thesis using less.prems(2) hp by (auto simp: heap_ok_def)
    qed
    note put = heap_put [OF this i(3,1) ip]
    let ?hp = "if ?at = d \<or> ?at = TERMINATED then rest else insort (?at, i) rest"
    let ?K = "if ?at = d then insert i K else K"
    have ge: "d \<le> ?at" by (rule caught_on(2) [OF ii p'(2) assms(1)])
    have h: "heap_ok ?ps ?hp ?K"
    proof (cases "?at = d")
      case False
      with put(2,3) not_exhausted [OF ip] show ?thesis by (cases "docs p' = []") simp_all
    qed (use put(1) in simp)
    have iall: "\<forall>p\<in>set ?ps. inv p" using less.prems(1) ip set_update_subset_insert [of ps i p'] by blast
    have Kall: "\<forall>j\<in>?K. j < length ?ps \<and> first_doc (docs (?ps ! j)) = d"
      using less.prems(3) i(1,3) by (auto simp: nth_list_update)
    have "length (filter (\<lambda>e. fst e \<le> d) ?hp) + length (filter (\<lambda>e. fst e < d) ?hp)
        < length (filter (\<lambda>e. fst e \<le> d) hp) + length (filter (\<lambda>e. fst e < d) hp)"
      using ge a unfolding hp by (auto simp: filter_insort_triv)
    from less.hyps [OF this iall h Kall] obtain ps' hp' popped out where
      IH: "pop_lagging ops positions d ?ps ?hp = Some (ps', hp', popped, out)"
      "heap_ok ps' hp' (?K \<union> set popped)" "?K \<inter> set popped = {}" "distinct popped"
      "\<forall>j\<in>?K \<union> set popped. j < length ?ps \<and> first_doc (docs (ps' ! j)) = d" "length ps' = length ?ps"
      "\<forall>j < length ?ps. caught d (?ps ! j) (ps' ! j)"
      "mset out = (\<Sum>j | j < length ?ps \<and> j \<notin> ?K. mset (reads d (?ps ! j)))" by blast
    let ?popped = "if ?at = d then i # popped else popped" and ?out = "if ?at = d then positions p' @ out else out"
    have "pop_lagging ops positions d ps hp
        = Some (ps', hp', if ?at = d then (i # popped, positions p' @ out) else (popped, out))"
    proof -
      have go: "\<not> d < a" "\<not> length ps \<le> i" using a i(1) by simp_all
      show ?thesis
        by (subst pop_lagging.simps)
          (simp only: hp list.case fst_conv snd_conv p'(1) IH(1) go if_False Option.bind.simps)
    qed
    then have "pop_lagging ops positions d ps hp = Some (ps', hp', ?popped, ?out)" by (simp split: if_splits)
    moreover have "heap_ok ps' hp' (K \<union> set ?popped)" using IH(2) by (simp split: if_splits)
    moreover have "K \<inter> set ?popped = {}" "distinct ?popped" using IH(3,4) i(3) by (auto split: if_splits)
    moreover have "\<forall>j\<in>K \<union> set ?popped. j < length ps \<and> first_doc (docs (ps' ! j)) = d" using IH(5) by (auto split: if_splits)
    moreover have "length ps' = length ps" using IH(6) by simp
    moreover have "\<forall>j < length ps. caught d (ps ! j) (ps' ! j)"
    proof (intro allI impI)
      fix j assume j: "j < length ps"
      show "caught d (ps ! j) (ps' ! j)"
      proof (cases "j = i")
        case True
        have "caught d p' (ps' ! i)" using IH(7) [rule_format, of i] i(1) by simp
        then have "inv (ps' ! i)" "table (ps' ! i) = table (ps ! i)" "docs (ps' ! i) = docs_from d (docs_from d (docs (ps ! i)))"
          using p'(2) by (simp_all add: caught_def)
        then show ?thesis using True by (simp add: caught_def)
      next
        case False
        then have "?ps ! j = ps ! j" by simp
        then show ?thesis using IH(7) [rule_format, of j] j by simp
      qed
    qed
    moreover have "mset ?out = (\<Sum>j | j < length ps \<and> j \<notin> K. mset (reads d (ps ! j)))"
    proof -
      have away: "(\<Sum>j | j < length ?ps \<and> j \<notin> insert i K. mset (reads d (?ps ! j)))
          = (\<Sum>j | j < length ps \<and> j \<notin> insert i K. mset (reads d (ps ! j)))"
        by (rule sum.cong) (auto simp: nth_list_update)
      have split: "(\<Sum>j | j < length ps \<and> j \<notin> K. mset (reads d (f ! j)))
          = mset (reads d (f ! i)) + (\<Sum>j | j < length ps \<and> j \<notin> insert i K. mset (reads d (f ! j)))" for f
      proof -
        have "{j. j < length ps \<and> j \<notin> K} = insert i {j. j < length ps \<and> j \<notin> insert i K}" using i by auto
        then show ?thesis by simp
      qed
      show ?thesis
      proof (cases "?at = d")
        case True
        then have "mset out = (\<Sum>j | j < length ps \<and> j \<notin> insert i K. mset (reads d (ps ! j)))"
          using IH(8) away by simp
        moreover have "reads d (ps ! i) = positions p'" using caught_on(1) [OF ii p'(2) assms(1)] True by simp
        ultimately show ?thesis using split [of ps] True by simp
      next
        case no: False
        then have "reads d (ps ! i) = []" using caught_on(1) [OF ii p'(2) assms(1)] by simp
        moreover have "reads d p' = []" using caught_reads [OF ii p'(2) order_refl] calculation by simp
        ultimately show ?thesis using split [of ps] split [of ?ps] away IH(8) no i(1) by simp
      qed
    qed
    ultimately show ?thesis by blast
  qed
qed

text \<open>What a state of the reader after document \<open>lo\<close> satisfies.\<close>

definition reader_inv :: "nat \<Rightarrow> 'p word_positions \<Rightarrow> bool" where
  "reader_inv lo w \<longleftrightarrow> (\<forall>p\<in>set (postings w). inv p)
     \<and> (LINEAR_POSTINGS_LIMIT < length (postings w) \<longrightarrow>
          heap_ok (postings w) (heap w) (set (on_doc w)) \<and> distinct (on_doc w)
          \<and> (\<forall>i\<in>set (on_doc w). i < length (postings w) \<and> first_doc (docs (postings w ! i)) \<le> lo))"

lemma reader_inv_mono: "reader_inv lo w \<Longrightarrow> lo \<le> hi \<Longrightarrow> reader_inv hi w"
  by (auto simp: reader_inv_def intro: order_trans)

lemma reader_inv_new: "\<forall>p\<in>set ps. inv p \<Longrightarrow> reader_inv lo (word_positions_new ops ps)"
proof -
  assume i: "\<forall>p\<in>set ps. inv p"
  have at: "ds_doc ops (ps ! j) = first_doc (docs (ps ! j))"
    "ds_doc ops (ps ! j) \<noteq> TERMINATED \<longleftrightarrow> docs (ps ! j) \<noteq> []" if "j < length ps" for j
    using i that doc not_exhausted by simp_all
  have "distinct (map (\<lambda>j. (ds_doc ops (ps ! j), j)) (filter (\<lambda>j. ds_doc ops (ps ! j) \<noteq> TERMINATED) [0..<length ps]))"
    by (simp add: distinct_map inj_on_def)
  with i at show ?thesis
    by (auto simp: reader_inv_def word_positions_new_def heap_ok_def)
qed

lemma caught_all_reads:
  assumes "\<forall>p\<in>set ps. inv p" "length ps' = length ps" "\<forall>i < length ps. caught d (ps ! i) (ps' ! i)" "d \<le> e"
  shows "map (reads e) ps' = map (reads e) ps"
proof (rule nth_equalityI)
  fix j assume "j < length (map (reads e) ps')"
  with assms show "map (reads e) ps' ! j = map (reads e) ps ! j"
    using caught_reads [of "ps ! j" d "ps' ! j" e] by simp
qed (use assms in simp)

lemma caught_all_inv:
  "length ps' = length ps \<Longrightarrow> \<forall>i < length ps. caught d (ps ! i) (ps' ! i) \<Longrightarrow> \<forall>p\<in>set ps'. inv p"
  by (auto simp: in_set_conv_nth caught_def)

lemma mset_reads: "mset (concat (map (reads d) ps)) = (\<Sum>i < length ps. mset (reads d (ps ! i)))"
  by (simp add: mset_concat sum_list_sum_nth atLeast0LessThan)

lemma positions_in_spec:
  assumes "reader_inv lo w" "lo \<le> d" "d < TERMINATED"
  shows "\<exists>w'. positions_in ops positions d w = Some (w', sort (concat (map (reads d) (postings w))))
    \<and> reader_inv d w' \<and> (\<forall>e\<ge>d. map (reads e) (postings w') = map (reads e) (postings w))"
proof -
  have i: "\<forall>p\<in>set (postings w). inv p" using assms(1) by (simp add: reader_inv_def)
  show ?thesis
  proof (cases "length (postings w) \<le> LINEAR_POSTINGS_LIMIT")
    case True
    obtain ps' where ps': "read_linear ops positions d (postings w) = Some (ps', concat (map (reads d) (postings w)))"
      "list_all2 (caught d) (postings w) ps'" using read_linear_spec [OF i assms(3)] by blast
    then have l: "length ps' = length (postings w)" "\<forall>i < length (postings w). caught d (postings w ! i) (ps' ! i)"
      by (simp_all add: list_all2_conv_all_nth)
    have "reader_inv d (w\<lparr>postings := ps'\<rparr>)" using caught_all_inv [OF l] True l(1) by (simp add: reader_inv_def)
    then show ?thesis using ps'(1) True caught_all_reads [OF i l] by (simp add: positions_in_def)
  next
    case many: False
    then have hp: "heap_ok (postings w) (heap w) (set (on_doc w))" "distinct (on_doc w)"
      "\<forall>i\<in>set (on_doc w). i < length (postings w) \<and> first_doc (docs (postings w ! i)) \<le> d"
      using assms(1,2) by (auto simp: reader_inv_def)
    show ?thesis
    proof (cases "length (postings w) \<le> length (on_doc w) * 2")
      case True
      let ?at = "\<lambda>ps i. first_doc (docs (ps ! i))"
      obtain ps' where ps': "read_dense ops positions d 0 (postings w) = Some (ps', concat (map (reads d) (postings w)),
          filter (\<lambda>i. ?at ps' i = d) [0..<length (postings w)],
          map (\<lambda>i. (?at ps' i, i)) (filter (\<lambda>i. ?at ps' i \<noteq> d \<and> ?at ps' i \<noteq> TERMINATED) [0..<length (postings w)]))"
        "list_all2 (caught d) (postings w) ps'" using read_dense_spec [OF i assms(3), of 0] by auto
      then have l: "length ps' = length (postings w)" "\<forall>i < length (postings w). caught d (postings w ! i) (ps' ! i)"
        by (simp_all add: list_all2_conv_all_nth)
      let ?w = "\<lparr>postings = ps', heap = sort (map (\<lambda>i. (?at ps' i, i))
            (filter (\<lambda>i. ?at ps' i \<noteq> d \<and> ?at ps' i \<noteq> TERMINATED) [0..<length (postings w)])),
          on_doc = filter (\<lambda>i. ?at ps' i = d) [0..<length (postings w)]\<rparr>"
      have iv: "\<forall>p\<in>set ps'. inv p" by (rule caught_all_inv [OF l])
      have "heap_ok ps' (heap ?w) (set (on_doc ?w))"
        using l(1) iv not_exhausted by (auto simp: heap_ok_def distinct_map inj_on_def)
      then have "reader_inv d ?w" using iv l(1) by (simp add: reader_inv_def)
      then show ?thesis using ps'(1) many True caught_all_reads [OF i l] by (simp add: positions_in_def)
    next
      case sparse: False
      obtain ps1 hp1 kept where r: "retain_pending ops positions d (on_doc w) (postings w) (heap w)
          = Some (ps1, hp1, kept, concat (map (\<lambda>i. reads d (postings w ! i)) (on_doc w)))"
        "heap_ok ps1 hp1 (set kept)" "set kept \<subseteq> set (on_doc w)" "distinct kept"
        "\<forall>i\<in>set (on_doc w). i \<in> set kept \<longleftrightarrow> first_doc (docs (ps1 ! i)) = d" "length ps1 = length (postings w)"
        "\<forall>i < length (postings w). if i \<in> set (on_doc w) then caught d (postings w ! i) (ps1 ! i)
            else ps1 ! i = postings w ! i"
        using retain_pending_spec [OF assms(3) i, of "heap w" "on_doc w" "{}"] hp by auto
      have i1: "\<forall>p\<in>set ps1. inv p"
      proof
        fix p assume "p \<in> set ps1"
        then obtain j where j: "j < length (postings w)" "p = ps1 ! j" using r(6) by (metis in_set_conv_nth)
        then show "inv p" using r(7) i by (cases "j \<in> set (on_doc w)") (auto simp: caught_def)
      qed
      have k1: "\<forall>i\<in>set kept. i < length ps1 \<and> first_doc (docs (ps1 ! i)) = d" using r(3,5,6) hp(3) by auto
      obtain ps2 hp2 popped out where p: "pop_lagging ops positions d ps1 hp1 = Some (ps2, hp2, popped, out)"
        "heap_ok ps2 hp2 (set kept \<union> set popped)" "set kept \<inter> set popped = {}" "distinct popped"
        "\<forall>i\<in>set kept \<union> set popped. i < length ps1 \<and> first_doc (docs (ps2 ! i)) = d" "length ps2 = length ps1"
        "\<forall>i < length ps1. caught d (ps1 ! i) (ps2 ! i)"
        "mset out = (\<Sum>i | i < length ps1 \<and> i \<notin> set kept. mset (reads d (ps1 ! i)))"
        using pop_lagging_spec [OF assms(3) i1 r(2) k1] by blast
      have all: "caught d (postings w ! j) (ps2 ! j)" if j: "j < length (postings w)" for j
      proof -
        have c: "caught d (ps1 ! j) (ps2 ! j)" using p(7) j r(6) by simp
        show ?thesis
        proof (cases "j \<in> set (on_doc w)")
          case True
          then have "caught d (postings w ! j) (ps1 ! j)" using r(7) j by simp
          with c show ?thesis by (simp add: caught_def)
        next
          case False
          then have "ps1 ! j = postings w ! j" using r(7) j by simp
          with c show ?thesis by simp
        qed
      qed
      have l2: "length ps2 = length (postings w)" using p(6) r(6) by simp
      have rest: "mset (reads d (ps1 ! j)) = (if j \<in> set (on_doc w) then {#} else mset (reads d (postings w ! j)))"
        if j: "j < length ps1" "j \<notin> set kept" for j
      proof (cases "j \<in> set (on_doc w)")
        case True
        then have c: "caught d (postings w ! j) (ps1 ! j)" "first_doc (docs (ps1 ! j)) \<noteq> d"
          using r(5,6,7) j by simp_all
        have ij: "inv (postings w ! j)" using i r(6) j by simp
        have "reads d (ps1 ! j) = []"
          using caught_reads [OF ij c(1) order_refl] caught_on(1) [OF ij c(1) assms(3)] c(2) by simp
        with True show ?thesis by simp
      next
        case False
        then show ?thesis using r(6,7) j by simp
      qed
      let ?n = "length (postings w)" and ?m = "\<lambda>j. mset (reads d (postings w ! j))"
      have "mset out = (\<Sum>j | j < ?n \<and> j \<notin> set kept. if j \<in> set (on_doc w) then {#} else ?m j)"
        unfolding p(8) r(6) [symmetric] by (intro sum.cong) (simp_all add: rest)
      also have "\<dots> = (\<Sum>j | j < ?n \<and> j \<notin> set (on_doc w). ?m j)"
      proof (rule sum.mono_neutral_cong_right)
        show "\<forall>j\<in>{j. j < ?n \<and> j \<notin> set kept} - {j. j < ?n \<and> j \<notin> set (on_doc w)}.
            (if j \<in> set (on_doc w) then {#} else ?m j) = {#}" by auto
        show "{j. j < ?n \<and> j \<notin> set (on_doc w)} \<subseteq> {j. j < ?n \<and> j \<notin> set kept}" using r(3) by auto
      qed simp_all
      finally have o: "mset out = (\<Sum>j | j < ?n \<and> j \<notin> set (on_doc w). ?m j)" .
      have "mset (concat (map (\<lambda>j. reads d (postings w ! j)) (on_doc w))) = (\<Sum>j\<in>set (on_doc w). ?m j)"
        using hp(2) by (simp add: mset_concat sum_list_distinct_conv_sum_set comp_def)
      then have "mset (concat (map (\<lambda>j. reads d (postings w ! j)) (on_doc w)) @ out)
          = (\<Sum>j\<in>set (on_doc w). ?m j) + (\<Sum>j | j < ?n \<and> j \<notin> set (on_doc w). ?m j)" using o by simp
      also have "\<dots> = (\<Sum>j\<in>set (on_doc w) \<union> {j. j < ?n \<and> j \<notin> set (on_doc w)}. ?m j)"
        by (rule sum.union_disjoint [symmetric]) auto
      also have "set (on_doc w) \<union> {j. j < ?n \<and> j \<notin> set (on_doc w)} = {..<?n}" using hp(3) by auto
      finally have m: "sort (concat (map (\<lambda>j. reads d (postings w ! j)) (on_doc w)) @ out)
          = sort (concat (map (reads d) (postings w)))"
        unfolding mset_reads [symmetric] by (intro properties_for_sort) (simp_all add: mset_sort)
      let ?w = "\<lparr>postings = ps2, heap = hp2, on_doc = kept @ popped\<rparr>"
      have iv: "\<forall>p\<in>set ps2. inv p" using caught_all_inv [OF l2] all by blast
      have "reader_inv d ?w"
        using iv p(2-6) r(4) by (auto simp: reader_inv_def)
      moreover have "\<forall>e\<ge>d. map (reads e) ps2 = map (reads e) (postings w)"
        using caught_all_reads [OF i l2] all by blast
      moreover have "positions_in ops positions d w = Some (?w, sort (concat (map (reads d) (postings w))))"
        using many sparse r(1) p(1) m by (simp add: positions_in_def)
      ultimately show ?thesis by simp
    qed
  qed
qed

end

subsection \<open>Reading documents\<close>

text \<open>The calls of a scan: one word read in one document after the other.\<close>

fun read_docs ::
  "'p docset \<Rightarrow> ('p \<Rightarrow> nat list) \<Rightarrow> 'p word_positions \<Rightarrow> nat list \<Rightarrow> nat list list option" where
  "read_docs ops positions w [] = Some []"
| "read_docs ops positions w (d # ds) = do {
     (w', out) \<leftarrow> positions_in ops positions d w;
     rest \<leftarrow> read_docs ops positions w' ds;
     Some (out # rest) }"

context postings_set
begin

lemma read_docs_spec:
  "reader_inv lo w \<Longrightarrow> sorted (lo # ds) \<Longrightarrow> \<forall>d\<in>set ds. d < TERMINATED \<Longrightarrow>
     read_docs ops positions w ds = Some (map (\<lambda>d. sort (concat (map (reads d) (postings w)))) ds)"
proof (induction ds arbitrary: lo w)
  case (Cons d ds)
  have d: "lo \<le> d" "d < TERMINATED" using Cons.prems(2,3) by simp_all
  obtain w' where w': "positions_in ops positions d w = Some (w', sort (concat (map (reads d) (postings w))))"
    "reader_inv d w'" "\<forall>e\<ge>d. map (reads e) (postings w') = map (reads e) (postings w)"
    using positions_in_spec [OF Cons.prems(1) d] by blast
  have "sorted (d # ds)" "\<forall>e\<in>set ds. e < TERMINATED" using Cons.prems(2,3) by simp_all
  from Cons.IH [OF w'(2) this]
  have "read_docs ops positions w' ds = Some (map (\<lambda>e. sort (concat (map (reads e) (postings w')))) ds)" .
  moreover have "map (\<lambda>e. sort (concat (map (reads e) (postings w')))) ds
      = map (\<lambda>e. sort (concat (map (reads e) (postings w)))) ds"
    using w'(3) Cons.prems(2) by (intro map_cong refl) simp
  ultimately show ?case using w'(1) by simp
qed simp

lemma read_docs_new:
  assumes "\<forall>p\<in>set ps. inv p" "sorted ds" "\<forall>d\<in>set ds. d < TERMINATED"
  shows "read_docs ops positions (word_positions_new ops ps) ds
    = Some (map (\<lambda>d. sort (concat (map (\<lambda>p. if d \<in> set (docs p) then table p d else []) ps))) ds)"
  using read_docs_spec [OF reader_inv_new [OF assms(1)], of 0 ds] assms(2,3)
  by (simp add: word_positions_new_def reads_def [abs_def])

end

text \<open>The id cursor, carrying the positions of a term, as a positional cursor.\<close>

definition with_table :: "docs_cursor docset \<Rightarrow> (docs_cursor \<times> (nat \<Rightarrow> nat list)) docset" where
  "with_table ops =
     \<lparr>ds_doc = \<lambda>p. ds_doc ops (fst p),
      ds_advance = \<lambda>p. map_option (\<lambda>(s, d). ((s, snd p), d)) (ds_advance ops (fst p)),
      ds_seek = \<lambda>t p. map_option (\<lambda>(s, d). ((s, snd p), d)) (ds_seek ops t (fst p)),
      ds_size_hint = \<lambda>p. ds_size_hint ops (fst p)\<rparr>"

lemma with_table_postings:
  assumes "doc_set ops ok_state docs"
  shows "postings_set (with_table ops) (\<lambda>p. ok_state (fst p)) (\<lambda>p. docs (fst p)) (\<lambda>p. snd p (ds_doc ops (fst p))) snd"
proof (intro postings_set.intro postings_set_axioms.intro doc_set.intro)
  fix p :: "docs_cursor \<times> (nat \<Rightarrow> nat list)" assume i: "ok_state (fst p)"
  show "docs_ok (docs (fst p))" by (rule doc_set.ok [OF assms i])
  show "ds_doc (with_table ops) p = first_doc (docs (fst p))"
    using doc_set.doc [OF assms i] by (simp add: with_table_def)
  show "\<exists>p'. ds_advance (with_table ops) p = Some (p', first_doc (tl (docs (fst p)))) \<and> ok_state (fst p')
      \<and> docs (fst p') = tl (docs (fst p))"
    using doc_set.advance [OF assms i] by (auto simp: with_table_def)
next
  fix p :: "docs_cursor \<times> (nat \<Rightarrow> nat list)" and t assume i: "ok_state (fst p)" and t: "first_doc (docs (fst p)) \<le> t" "t \<le> TERMINATED"
  from doc_set.seek [OF assms i t] show "\<exists>p'. ds_seek (with_table ops) t p
      = Some (p', first_doc (docs_from t (docs (fst p)))) \<and> ok_state (fst p') \<and> docs (fst p') = docs_from t (docs (fst p))"
    by (auto simp: with_table_def)
next
  fix p :: "docs_cursor \<times> (nat \<Rightarrow> nat list)" assume i: "ok_state (fst p)" and "docs (fst p) \<noteq> []"
  then show "snd p (ds_doc ops (fst p)) = snd p (hd (docs (fst p)))"
    using doc_set.doc [OF assms i] by (cases "docs (fst p)") simp_all
next
  fix p :: "docs_cursor \<times> (nat \<Rightarrow> nat list)" and t p' d assume "ds_seek (with_table ops) t p = Some (p', d)"
  then show "snd p' = snd p" by (auto simp: with_table_def)
qed

interpretation id_postings: postings_set "with_table (docs_set walk_to)" "\<lambda>p. cursor_inv (fst p)"
  "\<lambda>p. cursor_rest (fst p)" "\<lambda>p. snd p (ds_doc (docs_set walk_to) (fst p))" snd
  by (rule with_table_postings [OF docs_set_doc_set [OF walk_to_ok]])

text \<open>C15: Whatever the number of cursors, reading a word in ascending documents never fails and
  yields in each the sorted positions of exactly the terms that have the document: the linear
  sweep, the heap and the dense sweep agree with one another and with the plain definition.\<close>

theorem word_positions_exact:
  assumes "postings_set ops ok_state docs positions table" "\<forall>p\<in>set ps. ok_state p"
    "sorted ds" "\<forall>d\<in>set ds. d < TERMINATED"
  shows "read_docs ops positions (word_positions_new ops ps) ds
    = Some (map (\<lambda>d. sort (concat (map (\<lambda>p. if d \<in> set (docs p) then table p d else []) ps))) ds)"
  by (rule postings_set.read_docs_new [OF assms])

definition nine_terms :: "(docs_cursor \<times> (nat \<Rightarrow> nat list)) list" where
  "nine_terms = (let p = (\<lparr>cursor_docs = [1, 7], cursor = 0\<rparr>, \<lambda>d. [d div 2])
     in [p, p, p, p, p, p, p, p, p])"

theorem word_positions_exact_witness:
  "read_docs (with_table (docs_set walk_to)) (\<lambda>p. snd p (ds_doc (docs_set walk_to) (fst p)))
     (word_positions_new (with_table (docs_set walk_to)) nine_terms) [1, 4, 4, 7]
   = Some [[0, 0, 0, 0, 0, 0, 0, 0, 0], [], [], [3, 3, 3, 3, 3, 3, 3, 3, 3]]"
proof -
  have "\<forall>p\<in>set nine_terms. cursor_inv (fst p)" by (simp add: nine_terms_def cursor_inv_def TERMINATED_def Let_def)
  from word_positions_exact [OF id_postings.postings_set_axioms this, of "[1, 4, 4, 7]"]
  show ?thesis by (simp add: TERMINATED_def cursor_rest_def nine_terms_def Let_def)
qed

end
