(* ===== verification/WordWindows.thy ===== *)
theory WordWindows
  imports Prelude
begin

section \<open>Windows of word occurrences\<close>

text \<open>
  \<^verbatim>\<open>WordWindows\<close> of \<^verbatim>\<open>gap_phrase.rs\<close>: the positions of a document with the query words
  each can fill, and the search for a window in which every word gets a position of its own:
  a sliding window with the number of entries per word, and a bipartite matching where
  several words compete for one position. \<open>None\<close> is a panic; \<^verbatim>\<open>UNMATCHED\<close>
  (\<^verbatim>\<open>usize::MAX\<close>) is \<open>None\<close> in an owner or an assignment.

  The matching is shown to be sound and complete (an exhausted search has found a set of words
  with fewer entries than words), and with it the window search.
\<close>

record windows =
  word_count :: nat
  win_positions :: "nat list"
  starts :: "nat list"
  win_words :: "nat list"

definition windows_reset :: "nat \<Rightarrow> windows" where
  "windows_reset k = \<lparr>word_count = k, win_positions = [], starts = [0], win_words = []\<rparr>"

definition push :: "nat \<Rightarrow> nat \<Rightarrow> windows \<Rightarrow> windows \<times> nat option" where
  "push position word w =
     (let w1 = (if win_positions w \<noteq> [] \<and> last (win_positions w) = position then w
                else w\<lparr>win_positions := win_positions w @ [position],
                       starts := starts w @ [length (win_words w)]\<rparr>);
          first = starts w1 ! (length (starts w1) - 2)
      in if word \<in> set (drop first (win_words w1)) then (w1, None)
         else (let w2 = w1\<lparr>win_words := win_words w1 @ [word],
                           starts := (starts w1)[length (starts w1) - 1 := length (win_words w1) + 1]\<rparr>
               in (w2, Some (length (win_words w2) - 1))))"

text \<open>The words of entry \<open>e\<close>: the slice \<^verbatim>\<open>words[starts[e]..starts[e + 1]]\<close>.\<close>

definition entry_words :: "windows \<Rightarrow> nat \<Rightarrow> nat list" where
  "entry_words w e = take (starts w ! (e + 1) - starts w ! e) (drop (starts w ! e) (win_words w))"

text \<open>\<^verbatim>\<open>slot\<close>: the index of a word in an entry, counted over all entries.\<close>

definition slot :: "windows \<Rightarrow> nat \<Rightarrow> nat \<Rightarrow> nat option" where
  "slot w e word =
     map_option (\<lambda>(i, _). starts w ! e + i)
       (List.find (\<lambda>(_, v). v = word) (List.enumerate 0 (entry_words w e)))"

definition assigned_span :: "windows \<Rightarrow> nat list \<Rightarrow> nat" where
  "assigned_span w assignment =
     (case assignment of
        [] \<Rightarrow> win_positions w ! 0 - win_positions w ! 0
      | a # as \<Rightarrow> win_positions w ! fold max as a - win_positions w ! fold min as a)"

subsection \<open>The matching\<close>

text \<open>\<^verbatim>\<open>augment\<close>: the stack, its last frame first, holds a word and the index of the next entry
  to try. On success each frame takes the entry it tried last.\<close>

definition take_tried :: "nat list list \<Rightarrow> (nat \<times> nat) list \<Rightarrow> nat option list \<Rightarrow> nat option list" where
  "take_tried adj stack owner =
     fold (\<lambda>(word, nxt) owner. owner[adj ! word ! (nxt - 1) := Some word]) (rev stack) owner"

function augment ::
  "nat list list \<Rightarrow> nat option list \<Rightarrow> bool list \<Rightarrow> (nat \<times> nat) list \<Rightarrow> (nat option list \<times> bool) option" where
  "augment adj owner visited stack =
     (case stack of
        [] \<Rightarrow> Some (owner, False)
      | (w, i) # below \<Rightarrow>
          if length (adj ! w) \<le> i then augment adj owner visited below
          else (let e = adj ! w ! i; tried = (w, i + 1) # below in
                if length visited \<le> e then None
                else if visited ! e then augment adj owner visited tried
                else case owner ! e of
                       None \<Rightarrow> Some (take_tried adj tried owner, True)
                     | Some holder \<Rightarrow> augment adj owner (visited[e := True]) ((holder, 0) # tried)))"
  by pat_completeness auto

lemma unvisited_less:
  "e < length visited \<Longrightarrow> \<not> visited ! e \<Longrightarrow>
     length (filter Not (visited[e := True])) < length (filter Not visited)"
proof (induction visited arbitrary: e)
  case (Cons v vs)
  then show ?case by (cases e) auto
qed simp

termination augment
  by (relation "measures [\<lambda>(adj, owner, visited, stack). length (filter Not visited),
      \<lambda>(adj, owner, visited, stack). (\<Sum>(w, i)\<leftarrow>stack. length (adj ! w) - i) + length stack]")
    (auto simp: unvisited_less)

declare augment.simps [simp del]

fun augment_words ::
  "nat list list \<Rightarrow> nat \<Rightarrow> nat option list \<Rightarrow> nat list \<Rightarrow> (nat option list \<times> bool) option" where
  "augment_words adj n owner [] = Some (owner, True)"
| "augment_words adj n owner (w # ws) =
     (case augment adj owner (replicate n False) [(w, 0)] of
        None \<Rightarrow> None
      | Some (owner', False) \<Rightarrow> Some (owner', False)
      | Some (owner', True) \<Rightarrow> augment_words adj n owner' ws)"

definition adjacency :: "windows \<Rightarrow> nat \<Rightarrow> nat \<Rightarrow> nat list list" where
  "adjacency w left right =
     map (\<lambda>v. concat (map (\<lambda>e. map (\<lambda>_. e - left) (filter (\<lambda>u. u = v) (entry_words w e)))
            (rev [left..<right + 1])))
       [0..<word_count w]"

text \<open>\<^verbatim>\<open>assignment[w] = left + i\<close> for each owned entry.\<close>

definition owner_assignment :: "nat \<Rightarrow> nat \<Rightarrow> nat option list \<Rightarrow> nat option list" where
  "owner_assignment k left owner =
     fold (\<lambda>(i, o_w) a. case o_w of None \<Rightarrow> a | Some w \<Rightarrow> a[w := Some (left + i)])
       (List.enumerate 0 owner) (replicate k None)"

definition match_window :: "windows \<Rightarrow> nat \<Rightarrow> nat \<Rightarrow> nat option list option option" where
  "match_window w left right =
     (let k = word_count w; n = right + 1 - left in
      map_option (\<lambda>(owner, found). if found then Some (owner_assignment k left owner) else None)
        (augment_words (adjacency w left right) n (replicate n None) [0..<k]))"

subsection \<open>The sliding window\<close>

text \<open>The counters of a window: entries per word, words covered and shared entries.\<close>

type_synonym counters = "nat list \<times> nat \<times> nat"

definition enter :: "nat list \<Rightarrow> counters \<Rightarrow> counters" where
  "enter entry cs =
     (case cs of (coverage, covered, shared) \<Rightarrow>
        (let (coverage', covered') =
               fold (\<lambda>v (cov, n). (cov[v := cov ! v + 1], n + (if cov ! v = 0 then 1 else 0)))
                 entry (coverage, covered)
         in (coverage', covered', shared + (if 1 < length entry then 1 else 0))))"

definition leave :: "nat list \<Rightarrow> counters \<Rightarrow> counters" where
  "leave entry cs =
     (case cs of (coverage, covered, shared) \<Rightarrow>
        (let (coverage', covered') =
               fold (\<lambda>v (cov, n). (cov[v := cov ! v - 1], n - (if cov ! v - 1 = 0 then 1 else 0)))
                 entry (coverage, covered)
         in (coverage', covered', shared - (if 1 < length entry then 1 else 0))))"

function shrink :: "windows \<Rightarrow> nat \<Rightarrow> nat \<Rightarrow> nat \<Rightarrow> counters \<Rightarrow> (nat \<times> counters) option" where
  "shrink w max_span right left cs =
     (if length (win_positions w) \<le> left then None
      else if max_span < win_positions w ! right - win_positions w ! left
      then shrink w max_span right (left + 1) (leave (entry_words w left) cs)
      else Some (left, cs))"
  by pat_completeness auto

termination shrink
  by (relation "measure (\<lambda>(w, _, _, left, _). length (win_positions w) - left)") auto

declare shrink.simps [simp del]

text \<open>Without shared entries: each word takes its latest entry.\<close>

definition latest_entries :: "windows \<Rightarrow> nat \<Rightarrow> nat \<Rightarrow> nat option list" where
  "latest_entries w left right =
     fold (\<lambda>e a. let v = win_words w ! (starts w ! e) in if a ! v = None then a[v := Some e] else a)
       (rev [left..<right + 1]) (replicate (word_count w) None)"

text \<open>The loop over \<^verbatim>\<open>right\<close>; \<open>Some None\<close>: no window, \<open>Some (Some (right, assignment))\<close>: the
  first.\<close>

fun window_loop ::
  "windows \<Rightarrow> nat \<Rightarrow> nat list \<Rightarrow> nat \<Rightarrow> counters \<Rightarrow> (nat \<times> nat option list) option option" where
  "window_loop w max_span [] left cs = Some None"
| "window_loop w max_span (right # rights) left cs =
     (case shrink w max_span right left (enter (entry_words w right) cs) of
        None \<Rightarrow> None
      | Some (left', cs') \<Rightarrow>
          (let k = word_count w in
           if fst (snd cs') < k \<or> right + 1 - left' < k then window_loop w max_span rights left' cs'
           else if snd (snd cs') = 0 then Some (Some (right, latest_entries w left' right))
           else case match_window w left' right of
                  None \<Rightarrow> None
                | Some (Some a) \<Rightarrow> Some (Some (right, a))
                | Some None \<Rightarrow> window_loop w max_span rights left' cs'))"

definition next_window :: "windows \<Rightarrow> nat \<Rightarrow> nat \<Rightarrow> (nat \<times> nat option list) option option" where
  "next_window w from_entry max_span =
     (if word_count w = 0 then Some None
      else window_loop w max_span [from_entry..<length (win_positions w)] from_entry
             (replicate (word_count w) 0, 0, 0))"

subsection \<open>The matching is correct\<close>

text \<open>\<open>matching adj n W owner\<close>: each word of \<open>W\<close>, and no other, owns one entry, one it can fill.\<close>

definition matching :: "nat list list \<Rightarrow> nat \<Rightarrow> nat set \<Rightarrow> nat option list \<Rightarrow> bool" where
  "matching adj n W owner \<longleftrightarrow> length owner = n
     \<and> (\<forall>e w. e < n \<longrightarrow> owner ! e = Some w \<longrightarrow> w \<in> W \<and> e \<in> set (adj ! w))
     \<and> (\<forall>w\<in>W. \<exists>e<n. owner ! e = Some w)
     \<and> (\<forall>e e' w. e < n \<longrightarrow> e' < n \<longrightarrow> owner ! e = Some w \<longrightarrow> owner ! e' = Some w \<longrightarrow> e = e')"

text \<open>The stack is an alternating path: a frame's last tried entry is owned by the frame above.\<close>

fun alternating :: "nat list list \<Rightarrow> nat option list \<Rightarrow> nat \<Rightarrow> (nat \<times> nat) list \<Rightarrow> bool" where
  "alternating adj owner start [] \<longleftrightarrow> True"
| "alternating adj owner start [(w, i)] \<longleftrightarrow> w = start"
| "alternating adj owner start ((h, j) # (w, i) # below) \<longleftrightarrow>
     0 < i \<and> i \<le> length (adj ! w) \<and> owner ! (adj ! w ! (i - 1)) = Some h
     \<and> alternating adj owner start ((w, i) # below)"

abbreviation last_tried :: "nat list list \<Rightarrow> nat \<times> nat \<Rightarrow> nat" where
  "last_tried adj f \<equiv> adj ! fst f ! (snd f - 1)"

lemma alternating_owners:
  "alternating adj owner start stack \<Longrightarrow>
     map (\<lambda>f. owner ! last_tried adj f) (tl stack) = map (\<lambda>f. Some (fst f)) (butlast stack)"
proof (induction adj owner start stack rule: alternating.induct)
  case (3 adj owner start h j w i below)
  then show ?case by (cases below) auto
qed simp_all

lemma alternating_start: "alternating adj owner start stack \<Longrightarrow> stack \<noteq> [] \<Longrightarrow> fst (last stack) = start"
  by (induction adj owner start stack rule: alternating.induct) auto

lemma alternating_below:
  "alternating adj owner start stack \<Longrightarrow> \<forall>f\<in>set (tl stack). 0 < snd f \<and> snd f \<le> length (adj ! fst f)"
  by (induction adj owner start stack rule: alternating.induct) auto

lemma take_tried_matching:
  assumes m: "matching adj n W owner" and s: "start \<notin> W" and alt: "alternating adj owner start stack"
    and d: "distinct (map fst stack)" and ne: "stack \<noteq> []"
    and hd: "0 < snd (hd stack)" "snd (hd stack) \<le> length (adj ! fst (hd stack))"
    and free: "owner ! last_tried adj (hd stack) = None"
    and sub: "\<forall>f\<in>set stack. fst f \<in> insert start W" and n: "\<forall>f\<in>set stack. last_tried adj f < n"
  shows "matching adj n (insert start W) (take_tried adj stack owner)"
proof -
  let ?e = "last_tried adj" and ?o = "take_tried adj stack owner"
  obtain f0 below where st: "stack = f0 # below" using ne by (cases stack) auto
  note owners = alternating_owners [OF alt]
  have "distinct (map fst (butlast stack))" using d by (simp add: map_butlast distinct_butlast)
  then have "distinct (map (\<lambda>f. owner ! ?e f) (tl stack))"
    unfolding owners by (simp add: distinct_map inj_on_def)
  then have "distinct (map ?e (tl stack))" by (auto simp: distinct_map inj_on_def)
  moreover have "?e f0 \<notin> ?e ` set below"
  proof
    assume "?e f0 \<in> ?e ` set below"
    then obtain f where f: "f \<in> set below" "?e f = ?e f0" by auto
    have "owner ! ?e f \<in> set (map (\<lambda>f. owner ! ?e f) (tl stack))" using f(1) st by simp
    then have "owner ! ?e f \<noteq> None" unfolding owners by auto
    then show False using free f(2) st by simp
  qed
  ultimately have de: "distinct (map ?e stack)" using st by simp
  have tt: "?o = fold (\<lambda>f xs. xs[?e f := Some (fst f)]) (rev stack) owner"
    by (simp add: take_tried_def case_prod_unfold)
  have len: "length owner = n" using m by (simp add: matching_def)
  have "distinct (map ?e (rev stack))" "\<forall>f\<in>set (rev stack). ?e f < length owner"
    using de n len by (simp_all add: rev_map [symmetric])
  from fold_update_nth [OF this, of "\<lambda>f. Some (fst f)"]
  have o: "length ?o = n" "\<And>f. f \<in> set stack \<Longrightarrow> ?o ! ?e f = Some (fst f)"
    "\<And>i. i \<notin> ?e ` set stack \<Longrightarrow> ?o ! i = owner ! i" unfolding tt using len by simp_all
  have fill: "0 < snd f \<and> snd f \<le> length (adj ! fst f)" if "f \<in> set stack" for f
    using alternating_below [OF alt] hd that st by auto
  have held: "\<exists>g\<in>set stack. ?e g = x" if w: "x < n" "owner ! x = Some (fst f)" "f \<in> set stack" for x f
  proof -
    have "fst f \<noteq> start" using m w s by (auto simp: matching_def)
    then have "f \<noteq> last stack" using alternating_start [OF alt ne] by auto
    then have "f \<in> set (butlast stack)" using w(3) ne by (metis append_butlast_last_id in_set_conv_decomp rotate1.simps(2) set_ConsD set_rotate1)
    then have "Some (fst f) \<in> set (map (\<lambda>f. owner ! ?e f) (tl stack))" unfolding owners by auto
    then obtain g where g: "g \<in> set (tl stack)" "owner ! ?e g = Some (fst f)" by auto
    then have "g \<in> set stack" by (meson list.set_sel(2) ne)
    moreover have "?e g = x" using m w(1,2) g(2) n \<open>g \<in> set stack\<close> unfolding matching_def by blast
    ultimately show ?thesis by blast
  qed
  have top: "\<exists>g\<in>set stack. fst g = u" if "f \<in> set stack" "owner ! ?e f = Some u" for f u
  proof -
    have "f \<in> set (tl stack)" using that free st by auto
    then have "Some u \<in> set (map (\<lambda>f. owner ! ?e f) (tl stack))" using that(2) by force
    then have "Some u \<in> set (map (\<lambda>f. Some (fst f)) (butlast stack))" unfolding owners .
    then show ?thesis by (auto dest: in_set_butlastD)
  qed
  show ?thesis
    unfolding matching_def
  proof (intro conjI allI impI ballI)
    show "length ?o = n" by (rule o(1))
  next
    fix e u assume e: "e < n" "?o ! e = Some u"
    show "u \<in> insert start W"
      using e o(2,3) sub m by (cases "e \<in> ?e ` set stack") (auto simp: matching_def)
    show "e \<in> set (adj ! u)"
    proof (cases "e \<in> ?e ` set stack")
      case True
      then obtain f where f: "f \<in> set stack" "e = ?e f" by auto
      then have "u = fst f" using e o(2) by simp
      with f fill [OF f(1)] show ?thesis by (auto intro!: nth_mem)
    next
      case False
      with e o(3) m show ?thesis by (auto simp: matching_def)
    qed
  next
    fix u assume u: "u \<in> insert start W"
    show "\<exists>e<n. ?o ! e = Some u"
    proof (cases "u = start")
      case True
      then have "last stack \<in> set stack" "fst (last stack) = u" using alternating_start [OF alt ne] ne by simp_all
      with o(2) n show ?thesis by blast
    next
      case False
      then obtain e where e: "e < n" "owner ! e = Some u" using u m by (auto simp: matching_def)
      show ?thesis
      proof (cases "e \<in> ?e ` set stack")
        case True
        then obtain g where "g \<in> set stack" "fst g = u" using top e(2) by blast
        with o(2) n show ?thesis by blast
      qed (use e o(3) in auto)
    qed
  next
    fix e e' u assume e: "e < n" "e' < n" "?o ! e = Some u" "?o ! e' = Some u"
    have one: "x = ?e f" if f: "f \<in> set stack" "fst f = u" and x: "x < n" "?o ! x = Some u" for x f
    proof (cases "x \<in> ?e ` set stack")
      case True
      then obtain g where g: "g \<in> set stack" "x = ?e g" by auto
      then have "fst g = u" using o(2) x(2) by simp
      then have "g = f" using d f g(1) by (metis (no_types, lifting) distinct_map inj_onD)
      with g show ?thesis by simp
    next
      case False
      then have "owner ! x = Some (fst f)" using o(3) x(2) f(2) by simp
      with held [OF x(1) this f(1)] False show ?thesis by auto
    qed
    show "e = e'"
    proof (cases "e \<in> ?e ` set stack \<or> e' \<in> ?e ` set stack")
      case True
      then obtain f where "f \<in> set stack" "fst f = u" using o(2) e(3,4) by force
      with one e show ?thesis by blast
    next
      case False
      with o(3) e m show ?thesis unfolding matching_def by metis
    qed
  qed
qed

text \<open>The invariant of the search from \<open>start\<close>: what the search has reached (\<open>start\<close> and the
  owners of visited entries) is on the stack or has all its entries visited.\<close>

definition reached :: "nat option list \<Rightarrow> bool list \<Rightarrow> nat \<Rightarrow> nat set" where
  "reached owner visited start = insert start {w. \<exists>e < length visited. visited ! e \<and> owner ! e = Some w}"

definition search_inv ::
  "nat list list \<Rightarrow> nat option list \<Rightarrow> nat \<Rightarrow> bool list \<Rightarrow> (nat \<times> nat) list \<Rightarrow> bool" where
  "search_inv adj owner start visited stack \<longleftrightarrow>
     alternating adj owner start stack \<and> distinct (map fst stack)
     \<and> (\<forall>f\<in>set stack. fst f \<in> reached owner visited start \<and> snd f \<le> length (adj ! fst f)
          \<and> (\<forall>j < snd f. visited ! (adj ! fst f ! j)))
     \<and> (\<forall>w\<in>reached owner visited start. w \<in> fst ` set stack \<or> (\<forall>e\<in>set (adj ! w). visited ! e))
     \<and> (\<forall>e < length visited. visited ! e \<longrightarrow> owner ! e \<noteq> None)"

text \<open>An exhausted search has reached more words than the entries they can fill.\<close>

definition stuck :: "nat list list \<Rightarrow> nat \<Rightarrow> nat set \<Rightarrow> bool" where
  "stuck adj n W \<longleftrightarrow> (\<exists>R V. R \<subseteq> W \<and> finite R \<and> V \<subseteq> {..<n} \<and> card V < card R \<and> (\<forall>w\<in>R. set (adj ! w) \<subseteq> V))"

lemma stuck_no_assignment:
  assumes "stuck adj n W" "inj_on f W" "\<forall>w\<in>W. f w \<in> set (adj ! w)"
  shows False
proof -
  obtain R V where rv: "R \<subseteq> W" "finite R" "V \<subseteq> {..<n}" "card V < card R" "\<forall>w\<in>R. set (adj ! w) \<subseteq> V"
    using assms(1) by (auto simp: stuck_def)
  have "f ` R \<subseteq> V" using rv(1,5) assms(3) by blast
  moreover have "finite V" using rv(3) finite_subset by blast
  ultimately have "card R \<le> card V" using card_inj_on_le inj_on_subset [OF assms(2) rv(1)] by blast
  with rv(4) show False by simp
qed

lemma exhausted_stuck:
  assumes inv: "search_inv adj owner start visited []" and m: "matching adj n W owner" and s: "start \<notin> W"
    and n: "length visited = n" and adj: "\<forall>w\<in>insert start W. \<forall>e\<in>set (adj ! w). e < n" and fin: "finite W"
  shows "stuck adj n (insert start W)"
  unfolding stuck_def
proof (intro exI conjI)
  let ?V = "{e. e < n \<and> visited ! e}" and ?R = "reached owner visited start"
  have R: "?R = insert start {w. \<exists>e < n. visited ! e \<and> owner ! e = Some w}" using n by (simp add: reached_def)
  show sub: "?R \<subseteq> insert start W" using m unfolding R matching_def by blast
  then show "finite ?R" using fin finite_subset by blast
  show "?V \<subseteq> {..<n}" by auto
  show "\<forall>w\<in>?R. set (adj ! w) \<subseteq> ?V" using inv adj sub by (fastforce simp: search_inv_def)
  have own: "owner ! e \<noteq> None" if "e \<in> ?V" for e using inv that n by (simp add: search_inv_def)
  have "bij_betw (\<lambda>e. the (owner ! e)) ?V {w. \<exists>e < n. visited ! e \<and> owner ! e = Some w}"
    unfolding bij_betw_def
  proof
    show "inj_on (\<lambda>e. the (owner ! e)) ?V"
    proof (rule inj_onI)
      fix e e' assume "e \<in> ?V" "e' \<in> ?V" "the (owner ! e) = the (owner ! e')"
      then show "e = e'" using own [of e] own [of e'] m unfolding matching_def by fastforce
    qed
    show "(\<lambda>e. the (owner ! e)) ` ?V = {w. \<exists>e < n. visited ! e \<and> owner ! e = Some w}"
      using own by force
  qed
  then have "card ?V = card {w. \<exists>e < n. visited ! e \<and> owner ! e = Some w}" by (rule bij_betw_same_card)
  moreover have "start \<notin> {w. \<exists>e < n. visited ! e \<and> owner ! e = Some w}" using m s by (auto simp: matching_def)
  moreover have "finite {w. \<exists>e < n. visited ! e \<and> owner ! e = Some w}" using \<open>finite ?R\<close> unfolding R by simp
  ultimately show "card ?V < card ?R" unfolding R by simp
qed

lemma augment_spec:
  assumes "matching adj n W owner" "start \<notin> W" "finite W" "\<forall>w\<in>insert start W. \<forall>e\<in>set (adj ! w). e < n"
    "length visited = n" "search_inv adj owner start visited stack"
  shows "\<exists>owner' ok. augment adj owner visited stack = Some (owner', ok)
    \<and> (if ok then matching adj n (insert start W) owner' else stuck adj n (insert start W))"
  using assms
proof (induction adj owner visited stack rule: augment.induct)
  case (1 adj owner visited stack)
  note m = "1.prems"(1) and s = "1.prems"(2) and fin = "1.prems"(3) and adj = "1.prems"(4) and n = "1.prems"(5)
    and inv = "1.prems"(6)
  have sub: "reached owner visited start \<subseteq> insert start W"
  proof
    fix u assume "u \<in> reached owner visited start"
    then consider "u = start" | e where "e < n" "owner ! e = Some u" using n by (auto simp: reached_def)
    then show "u \<in> insert start W" using m by cases (auto simp: matching_def)
  qed
  show ?case
  proof (cases stack)
    case Nil
    then have "search_inv adj owner start visited []" using inv by simp
    from exhausted_stuck [OF this m s n adj fin] Nil show ?thesis
      by (subst augment.simps) (auto intro: exI [of _ False])
  next
    case (Cons f below)
    obtain w i where f: "f = (w, i)" by fastforce
    have w: "w \<in> insert start W" and ile: "i \<le> length (adj ! w)"
      and old: "\<forall>j < i. visited ! (adj ! w ! j)" using inv sub Cons f by (auto simp: search_inv_def)
    have alt_below: "alternating adj owner start below"
      using inv Cons f by (cases below) (auto simp: search_inv_def)
    show ?thesis
    proof (cases "length (adj ! w) \<le> i")
      case True
      have "\<forall>e\<in>set (adj ! w). visited ! e" using old True by (auto simp: in_set_conv_nth)
      then have "search_inv adj owner start visited below"
        using inv Cons f alt_below by (fastforce simp: search_inv_def)
      from "1.IH"(1) [OF Cons f [symmetric] True m s fin adj n this] Cons f True show ?thesis
        by (subst augment.simps) simp
    next
      case False
      let ?e = "adj ! w ! i" and ?tried = "(w, i + 1) # below"
      have "?e \<in> set (adj ! w)" using False by simp
      then have e: "?e < n" using adj w by blast
      have alt: "alternating adj owner start ?tried"
        using inv Cons f alt_below by (cases below) (auto simp: search_inv_def)
      show ?thesis
      proof (cases "visited ! ?e")
        case True
        have "search_inv adj owner start visited ?tried"
          using inv Cons f True alt False by (fastforce simp: search_inv_def less_Suc_eq)
        from "1.IH"(2) [OF Cons f [symmetric] False refl refl _ True m s fin adj n this] Cons f False True e n
        show ?thesis by (subst augment.simps) (simp add: Let_def)
      next
        case nv: False
        show ?thesis
        proof (cases "owner ! ?e")
          case None
          have "matching adj n (insert start W) (take_tried adj ?tried owner)"
          proof (rule take_tried_matching [OF m s alt])
            show "distinct (map fst ?tried)" using inv Cons f by (simp add: search_inv_def)
            show "0 < snd (hd ?tried)" "snd (hd ?tried) \<le> length (adj ! fst (hd ?tried))" using False by simp_all
            show "owner ! last_tried adj (hd ?tried) = None" using None by simp
            show members: "\<forall>f\<in>set ?tried. fst f \<in> insert start W"
              using inv Cons f sub by (auto simp: search_inv_def)
            have "last_tried adj g < n" if "g \<in> set below" for g
            proof -
              have "0 < snd g" "snd g \<le> length (adj ! fst g)" using alternating_below [OF alt] that by simp_all
              then have "last_tried adj g \<in> set (adj ! fst g)" by (auto intro!: nth_mem)
              moreover have "fst g \<in> insert start W" using members that by simp
              ultimately show ?thesis using adj by blast
            qed
            then show "\<forall>f\<in>set ?tried. last_tried adj f < n" using e by simp
          qed simp
          with None nv False Cons f e n show ?thesis
            by (subst augment.simps) (auto simp: Let_def intro: exI [of _ True])
        next
          case (Some h)
          let ?v = "visited[?e := True]"
          have vis: "?v ! x \<longleftrightarrow> visited ! x \<or> x = ?e" if "x < n" for x using that n e by (auto simp: nth_list_update)
          have keep: "visited ! x \<Longrightarrow> ?v ! x" for x by (cases "x = ?e") (use e n in auto)
          have reach: "reached owner ?v start = insert h (reached owner visited start)"
            using Some e n vis by (auto simp: reached_def)
          have hW: "h \<in> W" using m e Some by (auto simp: matching_def)
          have new: "h \<notin> reached owner visited start"
          proof
            assume "h \<in> reached owner visited start"
            then obtain x where "x < n" "visited ! x" "owner ! x = Some h" using hW s n by (auto simp: reached_def)
            then show False using m e Some nv unfolding matching_def by blast
          qed
          have "search_inv adj owner start ?v ((h, 0) # ?tried)"
            unfolding search_inv_def reach
          proof (intro conjI ballI allI impI)
            show "alternating adj owner start ((h, 0) # ?tried)" using alt Some False by simp
            show "distinct (map fst ((h, 0) # ?tried))"
              using inv Cons f new by (auto simp: search_inv_def)
          next
            fix g assume g: "g \<in> set ((h, 0) # ?tried)"
            show "fst g \<in> insert h (reached owner visited start)" using g inv Cons f by (auto simp: search_inv_def)
            show "snd g \<le> length (adj ! fst g)" using g inv Cons f False by (auto simp: search_inv_def)
            fix j assume j: "j < snd g"
            show "?v ! (adj ! fst g ! j)"
            proof (cases "g = (w, i + 1) \<and> j = i")
              case True
              then show ?thesis using e n by simp
            next
              case nt: False
              then have "visited ! (adj ! fst g ! j)" using g j inv Cons f by (auto simp: search_inv_def less_Suc_eq)
              then show ?thesis by (rule keep)
            qed
          next
            fix u assume u: "u \<in> insert h (reached owner visited start)"
            then have "u = h \<or> u \<in> fst ` set stack \<or> (\<forall>x\<in>set (adj ! u). visited ! x)"
              using inv by (auto simp: search_inv_def)
            then show "u \<in> fst ` set ((h, 0) # ?tried) \<or> (\<forall>x\<in>set (adj ! u). ?v ! x)"
              using Cons f keep by auto
          next
            fix x assume x: "x < length ?v" "?v ! x"
            then show "owner ! x \<noteq> None" using inv Some n vis [of x] by (auto simp: search_inv_def)
          qed
          moreover have "length ?v = n" using n by simp
          ultimately show ?thesis
            using "1.IH"(3) [OF Cons f [symmetric] False refl refl _ nv Some m s fin adj] Cons f False nv Some e n
            by (subst augment.simps) (simp add: Let_def)
        qed
      qed
    qed
  qed
qed

lemma search_inv_start: "search_inv adj owner start (replicate n False) [(start, 0)]"
  by (auto simp: search_inv_def reached_def)

lemma stuck_mono: "stuck adj n W \<Longrightarrow> W \<subseteq> W' \<Longrightarrow> stuck adj n W'"
proof -
  assume "stuck adj n W" "W \<subseteq> W'"
  then obtain R V where "R \<subseteq> W'" "finite R" "V \<subseteq> {..<n}" "card V < card R" "\<forall>w\<in>R. set (adj ! w) \<subseteq> V"
    by (auto simp: stuck_def)
  then show "stuck adj n W'" unfolding stuck_def by (intro exI conjI)
qed

lemma augment_words_spec:
  "matching adj n {..<j} owner \<Longrightarrow> j \<le> k \<Longrightarrow> \<forall>w<k. \<forall>e\<in>set (adj ! w). e < n \<Longrightarrow>
     \<exists>owner' ok. augment_words adj n owner [j..<k] = Some (owner', ok)
       \<and> (if ok then matching adj n {..<k} owner' else stuck adj n {..<k})"
proof (induction "k - j" arbitrary: j owner)
  case 0
  then show ?case by (auto intro: exI [of _ True])
next
  case (Suc m)
  then have j: "j < k" by simp
  have "\<forall>w\<in>insert j {..<j}. \<forall>e\<in>set (adj ! w). e < n" using Suc.prems(3) j by (metis insertE lessThan_iff less_trans)
  from augment_spec [OF Suc.prems(1) _ _ this _ search_inv_start]
  obtain owner1 ok where o: "augment adj owner (replicate n False) [(j, 0)] = Some (owner1, ok)"
    "if ok then matching adj n (insert j {..<j}) owner1 else stuck adj n (insert j {..<j})" by auto
  have upt: "[j..<k] = j # [Suc j..<k]" using j by (simp add: upt_conv_Cons)
  show ?case
  proof (cases ok)
    case True
    then have "matching adj n {..<Suc j} owner1" using o(2) by (simp add: lessThan_Suc)
    from Suc.hyps(1) [OF _ this _ Suc.prems(3)] Suc.hyps(2) j True o(1) show ?thesis by (simp add: upt)
  next
    case False
    then have "stuck adj n {..<k}" using o(2) j stuck_mono by (metis insert_subset lessThan_iff lessThan_subset_iff less_imp_le)
    with False o(1) show ?thesis by (auto simp: upt intro: exI [of _ False])
  qed
qed

lemma matching_owns: "matching adj n W owner \<Longrightarrow> w \<in> W \<Longrightarrow> \<exists>e<n. owner ! e = Some w"
  by (simp add: matching_def)

lemma matching_empty: "matching adj n {} (replicate n None)"
  by (simp add: matching_def)

text \<open>Assigning the words of a window to distinct entries they can fill.\<close>

definition assignment_in :: "windows \<Rightarrow> nat \<Rightarrow> nat \<Rightarrow> (nat \<Rightarrow> nat) \<Rightarrow> bool" where
  "assignment_in w left right f \<longleftrightarrow> inj_on f {..<word_count w}
     \<and> (\<forall>v < word_count w. left \<le> f v \<and> f v \<le> right \<and> v \<in> set (entry_words w (f v)))"

definition is_assignment :: "windows \<Rightarrow> nat \<Rightarrow> nat \<Rightarrow> nat option list \<Rightarrow> bool" where
  "is_assignment w left right a \<longleftrightarrow> length a = word_count w \<and> (\<forall>v < word_count w. a ! v \<noteq> None)
     \<and> assignment_in w left right (\<lambda>v. the (a ! v))"

lemma adjacency_nth:
  "v < word_count w \<Longrightarrow> set (adjacency w left right ! v)
     = (\<lambda>e. e - left) ` {e. left \<le> e \<and> e \<le> right \<and> v \<in> set (entry_words w e)}"
  by (auto simp: adjacency_def)

lemma owner_assignment_nth:
  assumes "\<forall>i < length os. \<forall>j < length os. \<forall>v. os ! i = Some v \<longrightarrow> os ! j = Some v \<longrightarrow> i = j"
  shows "length (fold (\<lambda>(i, o_w) a. case o_w of None \<Rightarrow> a | Some w \<Rightarrow> a[w := Some (left + i)]) (List.enumerate m os) a)
      = length a
    \<and> (\<forall>i < length os. \<forall>v < length a. os ! i = Some v \<longrightarrow>
        fold (\<lambda>(i, o_w) a. case o_w of None \<Rightarrow> a | Some w \<Rightarrow> a[w := Some (left + i)]) (List.enumerate m os) a ! v
        = Some (left + (m + i)))
    \<and> (\<forall>v. Some v \<notin> set os \<longrightarrow>
        fold (\<lambda>(i, o_w) a. case o_w of None \<Rightarrow> a | Some w \<Rightarrow> a[w := Some (left + i)]) (List.enumerate m os) a ! v = a ! v)"
  using assms
proof (induction os arbitrary: m a)
  case (Cons x xs)
  have inj: "\<forall>i < length xs. \<forall>j < length xs. \<forall>v. xs ! i = Some v \<longrightarrow> xs ! j = Some v \<longrightarrow> i = j"
    using Cons.prems by (metis Suc_less_eq length_Cons nat.inject nth_Cons_Suc)
  have other: "x = Some v \<Longrightarrow> Some v \<notin> set xs" for v
  proof
    assume "x = Some v" "Some v \<in> set xs"
    then obtain j where "j < length xs" "xs ! j = Some v" by (auto simp: in_set_conv_nth)
    then show False using Cons.prems \<open>x = Some v\<close> by (metis Suc_less_eq length_Cons nat.distinct(1) nth_Cons_0 nth_Cons_Suc zero_less_Suc)
  qed
  let ?a = "case x of None \<Rightarrow> a | Some w \<Rightarrow> a[w := Some (left + m)]"
  note IH = Cons.IH [OF inj, of "Suc m" ?a]
  show ?case
  proof (intro conjI allI impI)
    fix i v assume i: "i < length (x # xs)" "v < length a" "(x # xs) ! i = Some v"
    show "fold (\<lambda>(i, o_w) a. case o_w of None \<Rightarrow> a | Some w \<Rightarrow> a[w := Some (left + i)]) (List.enumerate m (x # xs)) a ! v
        = Some (left + (m + i))"
    proof (cases i)
      case 0
      then have "x = Some v" using i by simp
      with IH other [OF this] i 0 show ?thesis by simp
    next
      case (Suc j)
      with IH i show ?thesis by (auto split: option.splits)
    qed
  next
    fix v assume "Some v \<notin> set (x # xs)"
    with IH show "fold (\<lambda>(i, o_w) a. case o_w of None \<Rightarrow> a | Some w \<Rightarrow> a[w := Some (left + i)]) (List.enumerate m (x # xs)) a ! v = a ! v"
      by (auto split: option.splits)
  qed (use IH in \<open>simp split: option.splits\<close>)
qed simp

lemma match_window_spec:
  assumes "left \<le> right"
  shows "\<exists>res. match_window w left right = Some res
    \<and> (case res of None \<Rightarrow> \<nexists>f. assignment_in w left right f | Some a \<Rightarrow> is_assignment w left right a)"
proof -
  let ?adj = "adjacency w left right" and ?n = "right + 1 - left" and ?k = "word_count w"
  have adj: "\<forall>v<?k. \<forall>e\<in>set (?adj ! v). e < ?n" using assms by (auto simp: adjacency_nth)
  have "matching ?adj ?n {..<0} (replicate ?n None)" using matching_empty by simp
  from augment_words_spec [OF this _ adj] obtain owner ok where
    o: "augment_words ?adj ?n (replicate ?n None) [0..<?k] = Some (owner, ok)"
    "if ok then matching ?adj ?n {..<?k} owner else stuck ?adj ?n {..<?k}" by auto
  show ?thesis
  proof (cases ok)
    case False
    have "\<nexists>f. assignment_in w left right f"
    proof
      assume "\<exists>f. assignment_in w left right f"
      then obtain f where f: "inj_on f {..<?k}" "\<forall>v<?k. left \<le> f v \<and> f v \<le> right \<and> v \<in> set (entry_words w (f v))"
        by (auto simp: assignment_in_def)
      have "inj_on (\<lambda>v. f v - left) {..<?k}"
      proof (rule inj_onI)
        fix u v assume uv: "u \<in> {..<?k}" "v \<in> {..<?k}" "f u - left = f v - left"
        then have "left \<le> f u" "left \<le> f v" using f(2) by auto
        with uv(3) have "f u = f v" by simp
        then show "u = v" using f(1) uv by (simp add: inj_on_def)
      qed
      moreover have "\<forall>v\<in>{..<?k}. f v - left \<in> set (?adj ! v)" using f(2) by (auto simp: adjacency_nth)
      ultimately show False using stuck_no_assignment o(2) False by auto
    qed
    with o(1) False show ?thesis by (simp add: match_window_def Let_def)
  next
    case True
    then have m: "matching ?adj ?n {..<?k} owner" using o(2) by simp
    then have len: "length owner = ?n" by (simp add: matching_def)
    have inj: "\<forall>i < length owner. \<forall>j < length owner. \<forall>v. owner ! i = Some v \<longrightarrow> owner ! j = Some v \<longrightarrow> i = j"
      using m len unfolding matching_def by metis
    let ?a = "owner_assignment ?k left owner"
    note oa = owner_assignment_nth [OF inj, of left 0 "replicate ?k None", folded owner_assignment_def]
    have at: "\<exists>i < ?n. owner ! i = Some v \<and> ?a ! v = Some (left + i)" if vk: "v < ?k" for v
    proof -
      obtain i where i: "i < ?n" "owner ! i = Some v" using matching_owns [OF m, of v] vk by auto
      then have "?a ! v = Some (left + i)" using oa vk len by simp
      with i show ?thesis by blast
    qed
    have "assignment_in w left right (\<lambda>v. the (?a ! v))"
      unfolding assignment_in_def
    proof (intro conjI allI impI)
      show "inj_on (\<lambda>v. the (?a ! v)) {..<?k}"
      proof (rule inj_onI)
        fix u v assume uv: "u \<in> {..<?k}" "v \<in> {..<?k}" "the (?a ! u) = the (?a ! v)"
        obtain i j where "owner ! i = Some u" "?a ! u = Some (left + i)" "owner ! j = Some v" "?a ! v = Some (left + j)"
          using at [of u] at [of v] uv by auto
        with uv(3) show "u = v" by simp
      qed
      fix v assume v: "v < ?k"
      obtain i where i: "i < ?n" "owner ! i = Some v" "?a ! v = Some (left + i)" using at [OF v] by blast
      then have "i \<in> set (?adj ! v)" using m by (simp add: matching_def)
      then obtain e where "i = e - left" "left \<le> e" "e \<le> right" "v \<in> set (entry_words w e)"
        using v by (auto simp: adjacency_nth)
      with i show "left \<le> the (?a ! v)" "the (?a ! v) \<le> right" "v \<in> set (entry_words w (the (?a ! v)))"
        by simp_all
    qed
    moreover have "\<forall>v<?k. ?a ! v \<noteq> None" using at by fastforce
    moreover have "length ?a = ?k" using oa by simp
    ultimately show ?thesis using o(1) True by (simp add: match_window_def Let_def is_assignment_def)
  qed
qed

subsection \<open>The window search is correct\<close>

text \<open>Entries are not empty, hold distinct words of the query, at ascending positions.\<close>

definition windows_ok :: "windows \<Rightarrow> bool" where
  "windows_ok w \<longleftrightarrow> length (starts w) = length (win_positions w) + 1 \<and> starts w ! 0 = 0
     \<and> last (starts w) = length (win_words w) \<and> sorted_wrt (<) (starts w) \<and> sorted_wrt (<) (win_positions w)
     \<and> (\<forall>e < length (win_positions w). distinct (entry_words w e))
     \<and> (\<forall>v\<in>set (win_words w). v < word_count w)"

lemma windows_ok_entry:
  assumes "windows_ok w" "e < length (win_positions w)"
  shows "distinct (entry_words w e)" "entry_words w e \<noteq> []" "\<forall>v\<in>set (entry_words w e). v < word_count w"
    "win_words w ! (starts w ! e) = hd (entry_words w e)"
proof -
  let ?s = "starts w"
  have lt: "?s ! e < ?s ! (e + 1)" using assms by (simp add: windows_ok_def sorted_wrt_nth_less)
  have "?s ! (e + 1) \<le> last ?s"
  proof (cases "e + 1 = length (win_positions w)")
    case True
    then show ?thesis using assms(1) by (simp add: windows_ok_def last_conv_nth [of ?s]) (metis Suc_eq_plus1 diff_Suc_1 last_conv_nth length_0_conv nat.distinct(1) order_refl)
  next
    case False
    then have "?s ! (e + 1) < ?s ! length (win_positions w)" using assms by (simp add: windows_ok_def sorted_wrt_nth_less)
    moreover have "last ?s = ?s ! length (win_positions w)"
      using assms(1) by (subst last_conv_nth) (auto simp: windows_ok_def)
    ultimately show ?thesis by simp
  qed
  then have le: "?s ! (e + 1) \<le> length (win_words w)" using assms(1) by (simp add: windows_ok_def)
  then have l: "length (entry_words w e) = ?s ! (e + 1) - ?s ! e" using lt by (simp add: entry_words_def)
  then show ne: "entry_words w e \<noteq> []" using lt by auto
  show "distinct (entry_words w e)" using assms by (simp add: windows_ok_def)
  show "\<forall>v\<in>set (entry_words w e). v < word_count w"
    using assms(1) by (auto simp: windows_ok_def entry_words_def dest!: in_set_takeD in_set_dropD)
  show "win_words w ! (?s ! e) = hd (entry_words w e)"
    using lt le by (simp add: entry_words_def hd_drop_conv_nth)
qed

lemma positions_less:
  "windows_ok w \<Longrightarrow> e < e' \<Longrightarrow> e' < length (win_positions w) \<Longrightarrow> win_positions w ! e < win_positions w ! e'"
  by (simp add: windows_ok_def sorted_wrt_nth_less)

lemma positions_le:
  "windows_ok w \<Longrightarrow> e \<le> e' \<Longrightarrow> e' < length (win_positions w) \<Longrightarrow> win_positions w ! e \<le> win_positions w ! e'"
  using positions_less by (metis le_neq_implies_less less_imp_le order_refl)

text \<open>The counters of the entries \<open>left..<bound\<close>.\<close>

definition counters_ok :: "windows \<Rightarrow> nat \<Rightarrow> nat \<Rightarrow> counters \<Rightarrow> bool" where
  "counters_ok w left bound cs \<longleftrightarrow>
     (case cs of (coverage, covered, shared) \<Rightarrow> length coverage = word_count w
        \<and> (\<forall>v < word_count w. coverage ! v = card {e. left \<le> e \<and> e < bound \<and> v \<in> set (entry_words w e)})
        \<and> covered = card {v. v < word_count w \<and> 0 < coverage ! v}
        \<and> shared = card {e. left \<le> e \<and> e < bound \<and> 1 < length (entry_words w e)})"

lemma count_up:
  fixes cov :: "nat list"
  shows "distinct vs \<Longrightarrow> \<forall>v\<in>set vs. v < k \<Longrightarrow> length cov = k \<Longrightarrow> n = card {v. v < k \<and> 0 < cov ! v} \<Longrightarrow>
     case fold (\<lambda>v (cov, n). (cov[v := cov ! v + 1], n + (if cov ! v = 0 then 1 else 0))) vs (cov, n) of (cov', n') \<Rightarrow>
       length cov' = k \<and> n' = card {v. v < k \<and> 0 < cov' ! v}
       \<and> (\<forall>v < k. cov' ! v = cov ! v + (if v \<in> set vs then 1 else 0))"
proof (induction vs arbitrary: cov n)
  case (Cons v vs)
  let ?cov = "cov[v := cov ! v + 1]"
  have v: "v < k" using Cons.prems by simp
  have "{u. u < k \<and> 0 < ?cov ! u} = insert v {u. u < k \<and> 0 < cov ! u}"
    using v Cons.prems(3) by (auto simp: nth_list_update split: if_splits)
  then have "n + (if cov ! v = 0 then 1 else 0) = card {u. u < k \<and> 0 < ?cov ! u}"
    using Cons.prems(4) v by (simp add: card_insert_if)
  from Cons.IH [OF _ _ _ this] Cons.prems v show ?case
    by (auto simp: nth_list_update split: prod.splits)
qed simp

lemma count_down:
  fixes cov :: "nat list"
  shows "distinct vs \<Longrightarrow> \<forall>v\<in>set vs. v < k \<and> 0 < cov ! v \<Longrightarrow> length cov = k \<Longrightarrow> n = card {v. v < k \<and> 0 < cov ! v} \<Longrightarrow>
     case fold (\<lambda>v (cov, n). (cov[v := cov ! v - 1], n - (if cov ! v - 1 = 0 then 1 else 0))) vs (cov, n) of (cov', n') \<Rightarrow>
       length cov' = k \<and> n' = card {v. v < k \<and> 0 < cov' ! v}
       \<and> (\<forall>v < k. cov' ! v = cov ! v - (if v \<in> set vs then 1 else 0))"
proof (induction vs arbitrary: cov n)
  case (Cons v vs)
  let ?cov = "cov[v := cov ! v - 1]"
  have v: "v < k" "0 < cov ! v" using Cons.prems by simp_all
  have "{u. u < k \<and> 0 < ?cov ! u} = (if cov ! v - 1 = 0 then {u. u < k \<and> 0 < cov ! u} - {v} else {u. u < k \<and> 0 < cov ! u})"
    using v Cons.prems(3) by (auto simp: nth_list_update split: if_splits)
  then have "n - (if cov ! v - 1 = 0 then 1 else 0) = card {u. u < k \<and> 0 < ?cov ! u}"
    using Cons.prems(4) v by simp
  moreover have "\<forall>u\<in>set vs. u < k \<and> 0 < ?cov ! u"
  proof
    fix u assume u: "u \<in> set vs"
    then have "v \<noteq> u" using Cons.prems(1) by auto
    then show "u < k \<and> 0 < ?cov ! u" using u Cons.prems(2) by simp
  qed
  moreover obtain cov' n' where f: "fold (\<lambda>v (cov, n). (cov[v := cov ! v - 1], n - (if cov ! v - 1 = 0 then 1 else 0))) vs
      (?cov, n - (if cov ! v - 1 = 0 then 1 else 0)) = (cov', n')" by fastforce
  ultimately have r: "length cov' = k" "n' = card {v. v < k \<and> 0 < cov' ! v}"
    "\<forall>u < k. cov' ! u = ?cov ! u - (if u \<in> set vs then 1 else 0)"
    using Cons.IH [of ?cov "n - (if cov ! v - 1 = 0 then 1 else 0)"] Cons.prems(1,3) by simp_all
  have "fold (\<lambda>v (cov, n). (cov[v := cov ! v - 1], n - (if cov ! v - 1 = 0 then 1 else 0))) (v # vs) (cov, n) = (cov', n')"
    using f by (simp del: One_nat_def)
  moreover have "cov' ! u = cov ! u - (if u \<in> set (v # vs) then 1 else 0)" if "u < k" for u
    using r(3) that v Cons.prems(1,3) by (cases "u = v") auto
  ultimately show ?case using r(1,2) by simp
qed simp

lemma enter_ok:
  assumes "windows_ok w" "right < length (win_positions w)" "left \<le> right" "counters_ok w left right cs"
  shows "counters_ok w left (right + 1) (enter (entry_words w right) cs)"
proof -
  obtain cov n m where cs: "cs = (cov, n, m)" by (metis prod_cases3)
  note en = windows_ok_entry [OF assms(1,2)]
  obtain cov' n' where f: "fold (\<lambda>v (cov, n). (cov[v := cov ! v + 1], n + (if cov ! v = 0 then 1 else 0)))
      (entry_words w right) (cov, n) = (cov', n')" by fastforce
  have grow: "{e. left \<le> e \<and> e < right + 1 \<and> Q e} = (if Q right then insert right else id) {e. left \<le> e \<and> e < right \<and> Q e}" for Q
    using assms(3) by (auto simp: less_Suc_eq)
  have one: "card {e. left \<le> e \<and> e < right + 1 \<and> Q e} = card {e. left \<le> e \<and> e < right \<and> Q e} + (if Q right then 1 else 0)" for Q
    unfolding grow by simp
  have c: "length cov = word_count w" "n = card {v. v < word_count w \<and> 0 < cov ! v}"
    "\<forall>v < word_count w. cov ! v = card {e. left \<le> e \<and> e < right \<and> v \<in> set (entry_words w e)}"
    "m = card {e. left \<le> e \<and> e < right \<and> 1 < length (entry_words w e)}"
    using assms(4) unfolding cs counters_ok_def prod.case by simp_all
  have r: "length cov' = word_count w" "n' = card {v. v < word_count w \<and> 0 < cov' ! v}"
    "\<forall>v < word_count w. cov' ! v = cov ! v + (if v \<in> set (entry_words w right) then 1 else 0)"
    using count_up [OF en(1,3) c(1,2)] f by simp_all
  have "enter (entry_words w right) cs = (cov', n', m + (if 1 < length (entry_words w right) then 1 else 0))"
    unfolding cs enter_def prod.case f Let_def ..
  then show ?thesis using r c(3,4) unfolding counters_ok_def prod.case one by simp
qed

lemma leave_ok:
  assumes "windows_ok w" "left < bound" "bound \<le> length (win_positions w)" "counters_ok w left bound cs"
  shows "counters_ok w (left + 1) bound (leave (entry_words w left) cs)"
proof -
  obtain cov n m where cs: "cs = (cov, n, m)" by (metis prod_cases3)
  have "left < length (win_positions w)" using assms(2,3) by simp
  note en = windows_ok_entry [OF assms(1) this]
  have shrink: "{e. left \<le> e \<and> e < bound \<and> Q e} = (if Q left then insert left else id) {e. left + 1 \<le> e \<and> e < bound \<and> Q e}" for Q
    using assms(2) by (auto simp: Suc_le_eq order.order_iff_strict)
  have one: "card {e. left \<le> e \<and> e < bound \<and> Q e} = card {e. left + 1 \<le> e \<and> e < bound \<and> Q e} + (if Q left then 1 else 0)" for Q
    unfolding shrink by simp
  have c: "length cov = word_count w" "n = card {v. v < word_count w \<and> 0 < cov ! v}"
    "\<forall>v < word_count w. cov ! v = card {e. left + 1 \<le> e \<and> e < bound \<and> v \<in> set (entry_words w e)}
        + (if v \<in> set (entry_words w left) then 1 else 0)"
    "m = card {e. left + 1 \<le> e \<and> e < bound \<and> 1 < length (entry_words w e)} + (if 1 < length (entry_words w left) then 1 else 0)"
    using assms(4) unfolding cs counters_ok_def prod.case one by simp_all
  have pos: "\<forall>v\<in>set (entry_words w left). v < word_count w \<and> 0 < cov ! v" using c(3) en(3) by simp
  obtain cov' n' where f: "fold (\<lambda>v (cov, n). (cov[v := cov ! v - 1], n - (if cov ! v - 1 = 0 then 1 else 0)))
      (entry_words w left) (cov, n) = (cov', n')" by fastforce
  have r: "length cov' = word_count w" "n' = card {v. v < word_count w \<and> 0 < cov' ! v}"
    "\<forall>v < word_count w. cov' ! v = cov ! v - (if v \<in> set (entry_words w left) then 1 else 0)"
    using count_down [OF en(1) pos c(1,2)] f by simp_all
  then have "\<forall>v < word_count w. cov' ! v = card {e. left + 1 \<le> e \<and> e < bound \<and> v \<in> set (entry_words w e)}"
    using c(3) by simp
  moreover have "leave (entry_words w left) cs = (cov', n', m - (if 1 < length (entry_words w left) then 1 else 0))"
    unfolding cs leave_def prod.case f Let_def ..
  ultimately show ?thesis using r(1,2) c(4) unfolding counters_ok_def prod.case by simp
qed

lemma shrink_spec:
  assumes "windows_ok w" "right < length (win_positions w)"
  shows "left \<le> right \<Longrightarrow> counters_ok w left (right + 1) cs \<Longrightarrow>
    \<exists>left' cs'. shrink w max_span right left cs = Some (left', cs') \<and> left \<le> left' \<and> left' \<le> right
      \<and> counters_ok w left' (right + 1) cs' \<and> win_positions w ! right - win_positions w ! left' \<le> max_span
      \<and> (\<forall>e. left \<le> e \<longrightarrow> e < left' \<longrightarrow> max_span < win_positions w ! right - win_positions w ! e)"
proof (induction "right - left" arbitrary: left cs rule: less_induct)
  case less
  show ?case
  proof (cases "max_span < win_positions w ! right - win_positions w ! left")
    case False
    then show ?thesis using less.prems assms(2) by (subst shrink.simps) simp
  next
    case True
    then have "left \<noteq> right" by auto
    then have l: "left < right" using less.prems(1) by simp
    have "counters_ok w (left + 1) (right + 1) (leave (entry_words w left) cs)"
      using leave_ok [OF assms(1) _ _ less.prems(2)] l assms(2) by simp
    moreover have "right - (left + 1) < right - left" "left + 1 \<le> right" using l by simp_all
    ultimately obtain left' cs' where
      r: "shrink w max_span right (left + 1) (leave (entry_words w left) cs) = Some (left', cs')" "left + 1 \<le> left'"
        "left' \<le> right" "counters_ok w left' (right + 1) cs'"
        "win_positions w ! right - win_positions w ! left' \<le> max_span"
        "\<forall>e. left + 1 \<le> e \<longrightarrow> e < left' \<longrightarrow> max_span < win_positions w ! right - win_positions w ! e"
      using less.hyps by blast
    have "shrink w max_span right left cs = Some (left', cs')"
      using r(1) True l assms(2) by (subst shrink.simps) simp
    moreover have "\<forall>e. left \<le> e \<longrightarrow> e < left' \<longrightarrow> max_span < win_positions w ! right - win_positions w ! e"
      using r(6) True by (metis Suc_eq_plus1 Suc_leI le_neq_implies_less)
    ultimately show ?thesis using r by auto
  qed
qed

text \<open>Windows of bounded span, and the first one.\<close>

definition window_in :: "windows \<Rightarrow> nat \<Rightarrow> nat \<Rightarrow> nat \<Rightarrow> (nat \<Rightarrow> nat) \<Rightarrow> bool" where
  "window_in w from_entry max_span right f \<longleftrightarrow> assignment_in w from_entry right f
     \<and> (\<forall>u < word_count w. \<forall>v < word_count w. win_positions w ! f v - win_positions w ! f u \<le> max_span)"

definition window_left :: "windows \<Rightarrow> nat \<Rightarrow> nat \<Rightarrow> nat \<Rightarrow> nat \<Rightarrow> bool" where
  "window_left w from_entry max_span right left \<longleftrightarrow> from_entry \<le> left \<and> left \<le> right
     \<and> win_positions w ! right - win_positions w ! left \<le> max_span
     \<and> (\<forall>e. from_entry \<le> e \<longrightarrow> e < left \<longrightarrow> max_span < win_positions w ! right - win_positions w ! e)"

lemma window_in_left:
  assumes ok: "windows_ok w" and r: "right < length (win_positions w)" and l: "window_left w from_entry max_span right left"
    and a: "assignment_in w left right f"
  shows "window_in w from_entry max_span right f"
  unfolding window_in_def
proof (intro conjI allI impI)
  show "assignment_in w from_entry right f" using a l by (auto simp: assignment_in_def window_left_def)
  fix u v assume "u < word_count w" "v < word_count w"
  then have f: "left \<le> f u" "f u \<le> right" "f v \<le> right" using a by (auto simp: assignment_in_def)
  then have "win_positions w ! f v \<le> win_positions w ! right" "win_positions w ! left \<le> win_positions w ! f u"
    using positions_le [OF ok] r by auto
  then show "win_positions w ! f v - win_positions w ! f u \<le> max_span" using l unfolding window_left_def by linarith
qed

lemma window_in_ends:
  assumes ok: "windows_ok w" and r: "right < length (win_positions w)" and l: "window_left w from_entry max_span right left"
    and f: "window_in w from_entry max_span right f" and last: "v < word_count w" "f v = right"
  shows "assignment_in w left right f"
  unfolding assignment_in_def
proof (intro conjI allI impI)
  show "inj_on f {..<word_count w}" using f by (simp add: window_in_def assignment_in_def)
  fix u assume u: "u < word_count w"
  then have fu: "from_entry \<le> f u" "f u \<le> right" "u \<in> set (entry_words w (f u))"
    using f by (auto simp: window_in_def assignment_in_def)
  have "win_positions w ! right - win_positions w ! f u \<le> max_span" using f u last by (auto simp: window_in_def)
  then have "left \<le> f u" using l fu(1) unfolding window_left_def by (meson not_le)
  with fu show "left \<le> f u" "f u \<le> right" "u \<in> set (entry_words w (f u))" by simp_all
qed

text \<open>No window ends by \<open>right\<close> if none ended before and none fits the entries \<open>left..right\<close>.\<close>

lemma no_window_step:
  assumes "windows_ok w" "right < length (win_positions w)" "window_left w from_entry max_span right left"
    "from_entry \<le> right" "0 < word_count w"
    "\<forall>r f. r < right \<longrightarrow> \<not> window_in w from_entry max_span r f" "\<nexists>f. assignment_in w left right f"
  shows "\<forall>f. \<not> window_in w from_entry max_span right f"
proof (intro allI notI)
  fix f assume f: "window_in w from_entry max_span right f"
  show False
  proof (cases "\<exists>v < word_count w. f v = right")
    case True
    with window_in_ends [OF assms(1-3) f] assms(7) show False by blast
  next
    case False
    have lt: "f v < right" if "v < word_count w" for v
      using f that False by (metis assignment_in_def le_neq_implies_less window_in_def)
    then have "f v \<le> right - 1" if "v < word_count w" for v using that by fastforce
    then have "window_in w from_entry max_span (right - 1) f" using f by (auto simp: window_in_def assignment_in_def)
    moreover have "right - 1 < right" using lt [OF assms(5)] by simp
    ultimately show False using assms(6) by blast
  qed
qed

lemma latest_fold:
  assumes "\<forall>e\<in>set es. h e < length a"
  shows "length (fold (\<lambda>e a. let v = h e in if a ! v = None then a[v := Some e] else a) es a) = length a
    \<and> (\<forall>v < length a. case fold (\<lambda>e a. let v = h e in if a ! v = None then a[v := Some e] else a) es a ! v of
          None \<Rightarrow> a ! v = None \<and> (\<forall>e\<in>set es. h e \<noteq> v)
        | Some e \<Rightarrow> a ! v = Some e \<or> (e \<in> set es \<and> h e = v))"
  using assms
proof (induction es arbitrary: a)
  case Nil
  then show ?case by (simp split: option.split)
next
  case (Cons e es)
  let ?a = "if a ! h e = None then a[h e := Some e] else a"
  have "\<forall>e\<in>set es. h e < length ?a" using Cons.prems by simp
  note IH = Cons.IH [OF this]
  have st: "fold (\<lambda>e a. let v = h e in if a ! v = None then a[v := Some e] else a) (e # es) a
      = fold (\<lambda>e a. let v = h e in if a ! v = None then a[v := Some e] else a) es ?a" by (simp add: Let_def)
  have at: "?a ! v = (if v = h e \<and> a ! v = None then Some e else a ! v)" if "v < length a" for v
    using that by (auto simp: nth_list_update)
  show ?case unfolding st
  proof (intro conjI allI impI)
    fix v assume v: "v < length a"
    then have "v < length ?a" by simp
    with IH have "case fold (\<lambda>e a. let v = h e in if a ! v = None then a[v := Some e] else a) es ?a ! v of
          None \<Rightarrow> ?a ! v = None \<and> (\<forall>e\<in>set es. h e \<noteq> v)
        | Some e \<Rightarrow> ?a ! v = Some e \<or> (e \<in> set es \<and> h e = v)" by blast
    then show "case fold (\<lambda>e a. let v = h e in if a ! v = None then a[v := Some e] else a) es ?a ! v of
          None \<Rightarrow> a ! v = None \<and> (\<forall>x\<in>set (e # es). h x \<noteq> v)
        | Some x \<Rightarrow> a ! v = Some x \<or> (x \<in> set (e # es) \<and> h x = v)"
      unfolding at [OF v] by (auto split: option.splits if_splits)
  qed (use IH in simp)
qed

lemma latest_entries_ok:
  assumes ok: "windows_ok w" and r: "right < length (win_positions w)"
    and single: "\<forall>e. left \<le> e \<longrightarrow> e \<le> right \<longrightarrow> length (entry_words w e) \<le> 1"
    and cov: "\<forall>v < word_count w. \<exists>e. left \<le> e \<and> e \<le> right \<and> v \<in> set (entry_words w e)"
  shows "is_assignment w left right (latest_entries w left right)"
proof -
  let ?h = "\<lambda>e. win_words w ! (starts w ! e)" and ?a = "latest_entries w left right"
  have h: "entry_words w e = [?h e]" "?h e < word_count w" if e: "left \<le> e" "e \<le> right" for e
  proof -
    have "e < length (win_positions w)" using e r by simp
    note en = windows_ok_entry [OF ok this]
    have "length (entry_words w e) \<le> 1" using single e by blast
    then show "entry_words w e = [?h e]" using en(2,4) by (cases "entry_words w e") auto
    then show "?h e < word_count w" using en(3) by simp
  qed
  have "\<forall>e\<in>set (rev [left..<right + 1]). ?h e < length (replicate (word_count w) (None :: nat option))" using h(2) by auto
  note lf = latest_fold [OF this, folded latest_entries_def]
  have at: "\<exists>e. ?a ! v = Some e \<and> left \<le> e \<and> e \<le> right \<and> ?h e = v" if v: "v < word_count w" for v
  proof (cases "?a ! v")
    case None
    then have "\<forall>e\<in>set (rev [left..<right + 1]). ?h e \<noteq> v" using lf v by (auto split: option.splits)
    moreover obtain e where "left \<le> e" "e \<le> right" "v \<in> set (entry_words w e)" using cov v by blast
    ultimately show ?thesis using h(1) [of e] by auto
  next
    case (Some e)
    then have "e \<in> set (rev [left..<right + 1]) \<and> ?h e = v" using lf v by (auto split: option.splits)
    with Some show ?thesis by auto
  qed
  have "assignment_in w left right (\<lambda>v. the (?a ! v))"
    unfolding assignment_in_def
  proof (intro conjI allI impI)
    show "inj_on (\<lambda>v. the (?a ! v)) {..<word_count w}"
    proof (rule inj_onI)
      fix u v assume uv: "u \<in> {..<word_count w}" "v \<in> {..<word_count w}" "the (?a ! u) = the (?a ! v)"
      obtain e e' where "?a ! u = Some e" "?h e = u" "?a ! v = Some e'" "?h e' = v"
        using at [of u] at [of v] uv by auto
      with uv(3) show "u = v" by simp
    qed
    fix v assume v: "v < word_count w"
    obtain e where e: "?a ! v = Some e" "left \<le> e" "e \<le> right" "?h e = v" using at [OF v] by blast
    with h(1) [OF e(2,3)] show "left \<le> the (?a ! v)" "the (?a ! v) \<le> right" "v \<in> set (entry_words w (the (?a ! v)))"
      by simp_all
  qed
  moreover have "\<forall>v<word_count w. ?a ! v \<noteq> None" using at by fastforce
  moreover have "length ?a = word_count w" using lf by simp
  ultimately show ?thesis by (simp add: is_assignment_def)
qed

lemma counters_shared:
  assumes "counters_ok w left (right + 1) (cov, n, m)"
  shows "n < word_count w \<Longrightarrow> \<nexists>f. assignment_in w left right f"
    "\<not> n < word_count w \<Longrightarrow> \<forall>v < word_count w. \<exists>e. left \<le> e \<and> e \<le> right \<and> v \<in> set (entry_words w e)"
    "m = 0 \<Longrightarrow> \<forall>e. left \<le> e \<longrightarrow> e \<le> right \<longrightarrow> length (entry_words w e) \<le> 1"
proof -
  have n: "n = card {v. v < word_count w \<and> 0 < cov ! v}"
    and cov: "\<forall>v < word_count w. cov ! v = card {e. left \<le> e \<and> e < right + 1 \<and> v \<in> set (entry_words w e)}"
    and m: "m = card {e. left \<le> e \<and> e < right + 1 \<and> 1 < length (entry_words w e)}"
    using assms by (simp_all add: counters_ok_def)
  have fin: "finite {e. left \<le> e \<and> e < right + 1 \<and> Q e}" for Q
    by (rule finite_subset [of _ "{..<right + 1}"]) auto
  have pos: "0 < cov ! v \<longleftrightarrow> (\<exists>e. left \<le> e \<and> e \<le> right \<and> v \<in> set (entry_words w e))" if "v < word_count w" for v
    using cov that fin [of "\<lambda>e. v \<in> set (entry_words w e)"] by (auto simp: card_gt_0_iff less_Suc_eq_le)
  have all: "(\<forall>v < word_count w. 0 < cov ! v)" if "\<not> n < word_count w"
  proof -
    have "{v. v < word_count w \<and> 0 < cov ! v} = {..<word_count w}"
    proof (rule card_subset_eq)
      have "n \<le> card {..<word_count w}" unfolding n by (rule card_mono) auto
      with that n show "card {v. v < word_count w \<and> 0 < cov ! v} = card {..<word_count w}" by simp
    qed auto
    then show ?thesis by blast
  qed
  show "\<forall>v < word_count w. \<exists>e. left \<le> e \<and> e \<le> right \<and> v \<in> set (entry_words w e)" if "\<not> n < word_count w"
    using all [OF that] pos by blast
  show "\<forall>e. left \<le> e \<longrightarrow> e \<le> right \<longrightarrow> length (entry_words w e) \<le> 1" if "m = 0"
  proof (intro allI impI)
    fix e assume e: "left \<le> e" "e \<le> right"
    have "{e. left \<le> e \<and> e < right + 1 \<and> 1 < length (entry_words w e)} = {}"
      using that m fin [of "\<lambda>e. 1 < length (entry_words w e)"] by simp
    with e show "length (entry_words w e) \<le> 1" by (auto simp: not_le [symmetric])
  qed
  show "\<nexists>f. assignment_in w left right f" if "n < word_count w"
  proof
    assume "\<exists>f. assignment_in w left right f"
    then have "\<forall>v < word_count w. 0 < cov ! v" using pos by (auto simp: assignment_in_def)
    then have "{v. v < word_count w \<and> 0 < cov ! v} = {..<word_count w}" by auto
    with n that show False by simp
  qed
qed

definition first_window :: "windows \<Rightarrow> nat \<Rightarrow> nat \<Rightarrow> (nat \<times> nat option list) option \<Rightarrow> bool" where
  "first_window w from_entry max_span res \<longleftrightarrow>
     (case res of
        None \<Rightarrow> (\<forall>r < length (win_positions w). \<forall>f. \<not> window_in w from_entry max_span r f)
      | Some (r, a) \<Rightarrow> r < length (win_positions w) \<and> length a = word_count w \<and> (\<forall>v < word_count w. a ! v \<noteq> None)
          \<and> window_in w from_entry max_span r (\<lambda>v. the (a ! v))
          \<and> (\<forall>r' < r. \<forall>f. \<not> window_in w from_entry max_span r' f))"

lemma window_loop_spec:
  assumes ok: "windows_ok w" and k: "0 < word_count w"
  shows "r0 \<le> length (win_positions w) \<Longrightarrow> from_entry \<le> left \<Longrightarrow> left \<le> r0 \<Longrightarrow> counters_ok w left r0 cs \<Longrightarrow>
    \<forall>e r. from_entry \<le> e \<longrightarrow> e < left \<longrightarrow> r0 \<le> r \<longrightarrow> r < length (win_positions w) \<longrightarrow>
       max_span < win_positions w ! r - win_positions w ! e \<Longrightarrow>
    \<forall>r f. r < r0 \<longrightarrow> \<not> window_in w from_entry max_span r f \<Longrightarrow>
    \<exists>res. window_loop w max_span [r0..<length (win_positions w)] left cs = Some res
      \<and> first_window w from_entry max_span res"
proof (induction "length (win_positions w) - r0" arbitrary: r0 left cs)
  case 0
  then show ?case by (auto simp: first_window_def)
next
  case (Suc m)
  let ?L = "length (win_positions w)"
  have r: "r0 < ?L" using Suc.hyps(2) by simp
  have upt: "[r0..<?L] = r0 # [r0 + 1..<?L]" using r by (simp add: upt_conv_Cons)
  obtain left' cov n sh where sh: "shrink w max_span r0 left (enter (entry_words w r0) cs) = Some (left', cov, n, sh)"
    "left \<le> left'" "left' \<le> r0" "counters_ok w left' (r0 + 1) (cov, n, sh)"
    "win_positions w ! r0 - win_positions w ! left' \<le> max_span"
    "\<forall>e. left \<le> e \<longrightarrow> e < left' \<longrightarrow> max_span < win_positions w ! r0 - win_positions w ! e"
    using shrink_spec [OF ok r Suc.prems(3) enter_ok [OF ok r Suc.prems(3,4)], of max_span] by (metis prod_cases3)
  have gone: "max_span < win_positions w ! r0 - win_positions w ! e" if "from_entry \<le> e" "e < left'" for e
    using that sh(6) Suc.prems(5) r by (meson not_le order_refl)
  have wl: "window_left w from_entry max_span r0 left'"
    using sh(2,3,5) Suc.prems(2) gone by (simp add: window_left_def)
  have more: "max_span < win_positions w ! r - win_positions w ! e"
    if "from_entry \<le> e" "e < left'" "r0 + 1 \<le> r" "r < ?L" for e r
    using gone [OF that(1,2)] positions_le [OF ok, of r0 r] that(3,4) by linarith
  have next_step: "\<exists>res. window_loop w max_span [r0 + 1..<?L] left' (cov, n, sh) = Some res
      \<and> first_window w from_entry max_span res" if none: "\<nexists>f. assignment_in w left' r0 f"
  proof -
    have "\<forall>f. \<not> window_in w from_entry max_span r0 f"
      using no_window_step [OF ok r wl _ k Suc.prems(6) none] Suc.prems(2,3) by simp
    then have "\<forall>r f. r < r0 + 1 \<longrightarrow> \<not> window_in w from_entry max_span r f"
      using Suc.prems(6) by (metis Suc_eq_plus1 less_Suc_eq)
    then show ?thesis
      using Suc.hyps(1) [of "r0 + 1" left' "(cov, n, sh)"] Suc.hyps(2) r sh(2,3,4) Suc.prems(2) more by simp
  qed
  have found: "first_window w from_entry max_span (Some (r0, a))" if a: "is_assignment w left' r0 a" for a
    using a r Suc.prems(6) window_in_left [OF ok r wl] by (simp add: first_window_def is_assignment_def)
  let ?k = "word_count w"
  show ?case
  proof (cases "n < ?k \<or> r0 + 1 - left' < ?k")
    case True
    have "\<nexists>f. assignment_in w left' r0 f"
    proof (cases "n < ?k")
      case True
      then show ?thesis by (rule counters_shared(1) [OF sh(4)])
    next
      case False
      then have small: "r0 + 1 - left' < ?k" using True by simp
      show ?thesis
      proof
        assume "\<exists>f. assignment_in w left' r0 f"
        then obtain f where "assignment_in w left' r0 f" by blast
        then have f: "inj_on f {..<?k}" "f ` {..<?k} \<subseteq> {left'..r0}" by (auto simp: assignment_in_def)
        then have "card {..<?k} \<le> card {left'..r0}" by (intro card_inj_on_le [OF f]) simp
        with small show False by simp
      qed
    qed
    from next_step [OF this] True sh(1) show ?thesis by (simp add: upt del: upt_Suc)
  next
    case False
    then have cov: "\<forall>v < ?k. \<exists>e. left' \<le> e \<and> e \<le> r0 \<and> v \<in> set (entry_words w e)"
      using counters_shared(2) [OF sh(4)] by simp
    show ?thesis
    proof (cases "sh = 0")
      case True
      have "is_assignment w left' r0 (latest_entries w left' r0)"
        by (rule latest_entries_ok [OF ok r counters_shared(3) [OF sh(4) True] cov])
      from found [OF this] True False sh(1) show ?thesis by (simp add: upt del: upt_Suc)
    next
      case shared: False
      obtain res where m: "match_window w left' r0 = Some res"
        "case res of None \<Rightarrow> \<nexists>f. assignment_in w left' r0 f | Some a \<Rightarrow> is_assignment w left' r0 a"
        using match_window_spec [OF sh(3)] by blast
      show ?thesis
      proof (cases res)
        case None
        then have "\<nexists>f. assignment_in w left' r0 f" using m(2) by simp
        from next_step [OF this] None m(1) shared False sh(1) show ?thesis by (simp add: upt del: upt_Suc)
      next
        case (Some a)
        then have "is_assignment w left' r0 a" using m(2) by simp
        from found [OF this] Some m(1) shared False sh(1) show ?thesis by (simp add: upt del: upt_Suc)
      qed
    qed
  qed
qed

lemma next_window_spec:
  assumes "windows_ok w" "0 < word_count w" "from_entry \<le> length (win_positions w)"
  shows "\<exists>res. next_window w from_entry max_span = Some res \<and> first_window w from_entry max_span res"
proof -
  have "counters_ok w from_entry from_entry (replicate (word_count w) 0, 0, 0)"
    by (simp add: counters_ok_def)
  moreover have "\<forall>r f. r < from_entry \<longrightarrow> \<not> window_in w from_entry max_span r f"
  proof (intro allI impI notI)
    fix r f assume "r < from_entry" "window_in w from_entry max_span r f"
    then show False using assms(2) by (auto simp: window_in_def assignment_in_def)
  qed
  ultimately show ?thesis
    using window_loop_spec [OF assms(1,2,3) order_refl order_refl, of "(replicate (word_count w) 0, 0, 0)" max_span] assms(2)
    by (simp add: next_window_def)
qed

subsection \<open>Filling the windows\<close>

text \<open>The flat arrays stand for a list of cells: a position with its words.\<close>

definition starts_of :: "(nat \<times> nat list) list \<Rightarrow> nat list" where
  "starts_of cells = map (\<lambda>i. length (concat (map snd (take i cells)))) [0..<length cells + 1]"

definition of_cells :: "nat \<Rightarrow> (nat \<times> nat list) list \<Rightarrow> windows" where
  "of_cells k cells =
     \<lparr>word_count = k, win_positions = map fst cells, starts = starts_of cells, win_words = concat (map snd cells)\<rparr>"

definition add_cell :: "nat \<Rightarrow> nat \<Rightarrow> (nat \<times> nat list) list \<Rightarrow> (nat \<times> nat list) list" where
  "add_cell p v cells =
     (if cells \<noteq> [] \<and> fst (last cells) = p
      then if v \<in> set (snd (last cells)) then cells else butlast cells @ [(p, snd (last cells) @ [v])]
      else cells @ [(p, [v])])"

lemma starts_of_simps: "starts_of [] = [0]"
  "starts_of (cs @ [c]) = starts_of cs @ [length (concat (map snd cs)) + length (snd c)]"
  by (simp_all add: starts_of_def)

lemma starts_of_last: "length (starts_of cs) = length cs + 1" "starts_of cs ! length cs = length (concat (map snd cs))"
  by (simp_all add: starts_of_def nth_append)

lemma starts_of_update: "(starts_of cs @ [x])[Suc (length cs) := y] = starts_of cs @ [y]"
  by (simp add: list_update_append starts_of_last)

lemma reset_cells: "windows_reset k = of_cells k []"
  by (simp add: windows_reset_def of_cells_def starts_of_simps)

lemma push_cells: "fst (push p v (of_cells k cells)) = of_cells k (add_cell p v cells)"
proof (cases cells rule: rev_cases)
  case Nil
  then show ?thesis by (simp add: push_def of_cells_def add_cell_def starts_of_def Let_def)
next
  case (snoc cs c)
  obtain q ws where c: "c = (q, ws)" by fastforce
  show ?thesis
  proof (cases "q = p")
    case True
    then show ?thesis
      by (simp add: snoc c push_def of_cells_def add_cell_def starts_of_simps starts_of_last starts_of_update
          Let_def nth_append)
  next
    case False
    have "starts_of (cells @ [(p, [v])]) = starts_of cells @ [length (concat (map snd cells)) + 1]"
      unfolding starts_of_simps by simp
    moreover have "cells \<noteq> []" "fst (last cells) \<noteq> p" using False by (simp_all add: snoc c)
    ultimately show ?thesis
      by (simp add: push_def of_cells_def add_cell_def starts_of_last starts_of_update Let_def nth_append last_map)
  qed
qed

lemma entry_of_cells:
  assumes "e < length cells"
  shows "entry_words (of_cells k cells) e = snd (cells ! e)"
proof -
  have st: "starts_of cells ! i = length (concat (map snd (take i cells)))" if "i \<le> length cells" for i
    using that by (simp add: starts_of_def nth_append less_Suc_eq_le)
  have "cells = take e cells @ cells ! e # drop (e + 1) cells" using assms id_take_nth_drop by fastforce
  then have "concat (map snd cells) = concat (map snd (take e cells)) @ snd (cells ! e) @ concat (map snd (drop (e + 1) cells))"
    by (metis concat.simps(2) concat_append list.simps(9) map_append)
  moreover have "concat (map snd (take (e + 1) cells)) = concat (map snd (take e cells)) @ snd (cells ! e)"
    using assms by (simp add: take_Suc_conv_app_nth)
  ultimately show ?thesis using st [of e] st [of "e + 1"] assms by (simp add: entry_words_def of_cells_def)
qed

definition cells_ok :: "nat \<Rightarrow> (nat \<times> nat list) list \<Rightarrow> bool" where
  "cells_ok k cells \<longleftrightarrow> sorted_wrt (<) (map fst cells)
     \<and> (\<forall>c\<in>set cells. snd c \<noteq> [] \<and> distinct (snd c) \<and> (\<forall>v\<in>set (snd c). v < k))"

lemma sorted_starts_of: "\<forall>c\<in>set cells. snd c \<noteq> [] \<Longrightarrow> sorted_wrt (<) (starts_of cells)"
proof (induction cells rule: rev_induct)
  case (snoc c cs)
  have le: "s \<le> length (concat (map snd cs))" if s: "s \<in> set (starts_of cs)" for s
  proof -
    obtain i where "s = length (concat (map snd (take i cs)))" using s unfolding starts_of_def set_map by blast
    moreover have "concat (map snd cs) = concat (map snd (take i cs)) @ concat (map snd (drop i cs))"
      by (metis append_take_drop_id concat_append map_append)
    ultimately show ?thesis by simp
  qed
  have pos: "0 < length (snd c)" using snoc.prems by simp
  have "\<forall>s\<in>set (starts_of cs). s < length (concat (map snd cs)) + length (snd c)"
  proof
    fix s assume "s \<in> set (starts_of cs)"
    from le [OF this] pos show "s < length (concat (map snd cs)) + length (snd c)" by linarith
  qed
  with snoc show ?case by (simp add: starts_of_simps sorted_wrt_append)
qed (simp add: starts_of_simps)

lemma windows_ok_cells:
  assumes "cells_ok k cells"
  shows "windows_ok (of_cells k cells)"
proof -
  have "last (starts_of cells) = length (concat (map snd cells))"
    using starts_of_last [of cells] by (metis Suc_eq_plus1 diff_Suc_1 last_conv_nth length_0_conv nat.distinct(1))
  moreover have "starts_of cells ! 0 = 0" by (simp add: starts_of_def nth_append)
  moreover have "\<forall>e < length cells. distinct (entry_words (of_cells k cells) e)"
    using assms by (simp add: entry_of_cells cells_ok_def)
  ultimately show ?thesis
    using assms sorted_starts_of [of cells] by (auto simp: windows_ok_def of_cells_def cells_ok_def starts_of_last)
qed

text \<open>What the windows record: which word is at which position.\<close>

definition cell_pairs :: "(nat \<times> nat list) list \<Rightarrow> (nat \<times> nat) set" where
  "cell_pairs cells = {(p, v) | p v ws. (p, ws) \<in> set cells \<and> v \<in> set ws}"

lemma add_cell_ok:
  assumes "cells_ok k cells" "v < k" "cells = [] \<or> fst (last cells) \<le> p"
  shows "cells_ok k (add_cell p v cells)" "cell_pairs (add_cell p v cells) = insert (p, v) (cell_pairs cells)"
    "add_cell p v cells \<noteq> []" "fst (last (add_cell p v cells)) = p"
proof -
  have "cells_ok k (add_cell p v cells) \<and> cell_pairs (add_cell p v cells) = insert (p, v) (cell_pairs cells)
    \<and> add_cell p v cells \<noteq> [] \<and> fst (last (add_cell p v cells)) = p"
  proof (cases cells rule: rev_cases)
    case Nil
    then show ?thesis using assms(2) by (auto simp: add_cell_def cells_ok_def cell_pairs_def)
  next
    case (snoc cs c)
    obtain q ws where c: "c = (q, ws)" by fastforce
    show ?thesis
    proof (cases "q = p")
      case True
      have "cell_pairs (cs @ [(p, ws @ [v])]) = insert (p, v) (cell_pairs cells)"
        using True by (auto simp: cell_pairs_def snoc c)
      moreover have "v \<in> set ws \<Longrightarrow> insert (p, v) (cell_pairs cells) = cell_pairs cells"
        using True by (auto simp: cell_pairs_def snoc c)
      ultimately show ?thesis using True assms by (auto simp: add_cell_def cells_ok_def snoc c sorted_wrt_append)
    next
      case False
      have "cell_pairs (cells @ [(p, [v])]) = insert (p, v) (cell_pairs cells)" by (auto simp: cell_pairs_def)
      moreover have "q < p" using False assms(3) by (simp add: snoc c)
      then have "\<forall>x\<in>set cells. fst x < p"
        using assms(1) by (auto simp: cells_ok_def snoc c sorted_wrt_append)
      ultimately show ?thesis using False assms by (auto simp: add_cell_def cells_ok_def snoc c sorted_wrt_append)
    qed
  qed
  then show "cells_ok k (add_cell p v cells)" "cell_pairs (add_cell p v cells) = insert (p, v) (cell_pairs cells)"
    "add_cell p v cells \<noteq> []" "fst (last (add_cell p v cells)) = p" by simp_all
qed

subsection \<open>Windows of positions\<close>

text \<open>The reference: a position of its own for each word, all within \<open>max_span\<close>.\<close>

definition spans_within :: "nat \<Rightarrow> (nat \<Rightarrow> nat set) \<Rightarrow> nat \<Rightarrow> (nat \<Rightarrow> nat) \<Rightarrow> bool" where
  "spans_within k fills max_span f \<longleftrightarrow> inj_on f {..<k} \<and> (\<forall>v<k. f v \<in> fills v)
     \<and> (\<forall>u<k. \<forall>v<k. f v - f u \<le> max_span)"

definition fills :: "(nat \<times> nat list) list \<Rightarrow> nat \<Rightarrow> nat set" where
  "fills cells v = {p. (p, v) \<in> cell_pairs cells}"

lemma window_in_positions:
  assumes ok: "cells_ok k cells" and g: "window_in (of_cells k cells) 0 max_span r g" and r: "r < length cells"
  shows "spans_within k (fills cells) max_span (\<lambda>v. fst (cells ! g v))"
proof -
  have gv: "g v < length cells" "v \<in> set (snd (cells ! g v))" if v: "v < k" for v
  proof -
    have "g v \<le> r" "v \<in> set (entry_words (of_cells k cells) (g v))"
      using g v by (auto simp: window_in_def assignment_in_def of_cells_def)
    with r entry_of_cells [of "g v" cells k] show "g v < length cells" "v \<in> set (snd (cells ! g v))" by auto
  qed
  have "inj_on (\<lambda>v. fst (cells ! g v)) {..<k}"
  proof (rule inj_onI)
    fix u v assume uv: "u \<in> {..<k}" "v \<in> {..<k}" "fst (cells ! g u) = fst (cells ! g v)"
    then have lt: "g u < length cells" "g v < length cells" using gv by auto
    have "distinct (map fst cells)" using ok by (simp add: cells_ok_def strict_sorted_iff)
    then have "g u = g v" using uv(3) lt by (metis distinct_conv_nth length_map nth_map)
    then show "u = v" using g uv by (auto simp: window_in_def assignment_in_def of_cells_def inj_on_def)
  qed
  moreover have "fst (cells ! g v) \<in> fills cells v" if "v < k" for v
    using gv [OF that] by (auto simp: fills_def cell_pairs_def) (metis nth_mem prod.collapse)
  moreover have "fst (cells ! g v) - fst (cells ! g u) \<le> max_span" if "u < k" "v < k" for u v
    using g that gv by (auto simp: window_in_def of_cells_def)
  ultimately show ?thesis by (simp add: spans_within_def)
qed

lemma positions_window_in:
  assumes ok: "cells_ok k cells" and f: "spans_within k (fills cells) max_span f" and k: "0 < k"
  shows "\<exists>g. window_in (of_cells k cells) 0 max_span (length cells - 1) g \<and> cells \<noteq> []"
proof -
  have "\<exists>e < length cells. fst (cells ! e) = f v \<and> v \<in> set (snd (cells ! e))" if v: "v < k" for v
  proof -
    have "(f v, v) \<in> cell_pairs cells" using f v by (simp add: spans_within_def fills_def)
    then obtain ws where "(f v, ws) \<in> set cells" "v \<in> set ws" by (auto simp: cell_pairs_def)
    then show ?thesis by (metis fst_conv in_set_conv_nth snd_conv)
  qed
  then obtain g where g: "\<And>v. v < k \<Longrightarrow> g v < length cells \<and> fst (cells ! g v) = f v \<and> v \<in> set (snd (cells ! g v))"
    by metis
  have "inj_on g {..<k}" using f g unfolding spans_within_def inj_on_def by (metis lessThan_iff)
  moreover have "g v \<le> length cells - 1" if "v < k" for v using g [OF that] by linarith
  moreover have "cells \<noteq> []" using g [OF k] by auto
  moreover have "v \<in> set (entry_words (of_cells k cells) (g v))" if "v < k" for v
    using g [OF that] by (simp add: entry_of_cells)
  ultimately have "assignment_in (of_cells k cells) 0 (length cells - 1) g"
    by (simp add: assignment_in_def of_cells_def)
  moreover have "win_positions (of_cells k cells) ! g v - win_positions (of_cells k cells) ! g u \<le> max_span"
    if "u < k" "v < k" for u v
    using f g [OF that(1)] g [OF that(2)] that by (simp add: of_cells_def spans_within_def)
  ultimately show ?thesis using \<open>cells \<noteq> []\<close> by (auto simp: window_in_def of_cells_def)
qed

text \<open>The span of an assignment is the distance of its outer positions.\<close>

lemma fold_max_Max: "fold max as (a :: nat) = Max (set (a # as))"
  by (simp add: Max.set_eq_fold [symmetric])

lemma fold_min_Min: "fold min as (a :: nat) = Min (set (a # as))"
  by (simp add: Min.set_eq_fold [symmetric])

lemma next_window_cells:
  assumes ok: "cells_ok k cells" and k: "0 < k"
  shows "\<exists>res. next_window (of_cells k cells) 0 max_span = Some res \<and>
    (case res of
       None \<Rightarrow> \<nexists>f. spans_within k (fills cells) max_span f
     | Some (r, a) \<Rightarrow> \<exists>f. spans_within k (fills cells) (assigned_span (of_cells k cells) (map the a)) f
         \<and> assigned_span (of_cells k cells) (map the a) \<le> max_span)"
proof -
  let ?w = "of_cells k cells"
  have wok: "windows_ok ?w" by (rule windows_ok_cells [OF ok])
  have kw: "word_count ?w = k" "win_positions ?w = map fst cells" by (simp_all add: of_cells_def)
  obtain res where res: "next_window ?w 0 max_span = Some res" "first_window ?w 0 max_span res"
    using next_window_spec [OF wok, of 0 max_span] k kw by auto
  show ?thesis
  proof (cases res)
    case None
    have "\<nexists>f. spans_within k (fills cells) max_span f"
    proof
      assume "\<exists>f. spans_within k (fills cells) max_span f"
      then obtain g where g: "window_in ?w 0 max_span (length cells - 1) g" "cells \<noteq> []"
        using positions_window_in [OF ok _ k] by blast
      then show False using res(2) None kw by (auto simp: first_window_def)
    qed
    with res(1) None show ?thesis by simp
  next
    case (Some ra)
    obtain r a where ra: "ra = (r, a)" by fastforce
    have fw: "r < length cells" "length a = k" "window_in ?w 0 max_span r (\<lambda>v. the (a ! v))"
      using res(2) Some ra kw by (simp_all add: first_window_def)
    obtain b bs where b: "map the a = b # bs" using fw(2) k by (cases a) auto
    define lo hi where "lo = Min (set (b # bs))" and "hi = Max (set (b # bs))"
    have mem: "lo \<in> set (map the a)" "hi \<in> set (map the a)"
      unfolding lo_def hi_def b by (rule Min_in Max_in; simp)+
    have bounds: "lo \<le> x" "x \<le> hi" if "x \<in> set (map the a)" for x
      using that unfolding lo_def hi_def b by simp_all
    have span: "assigned_span ?w (map the a) = win_positions ?w ! hi - win_positions ?w ! lo"
      unfolding b assigned_span_def list.case fold_max_Max fold_min_Min lo_def hi_def ..
    have at: "the (a ! v) \<in> set (map the a)" if "v < k" for v using that fw(2) by simp
    have lt: "x < length cells" if x: "x \<in> set (map the a)" for x
    proof -
      obtain v where "v < k" "x = the (a ! v)" using x fw(2) by (auto simp: in_set_conv_nth)
      then show ?thesis using fw(1,3) kw by (auto simp: window_in_def assignment_in_def)
    qed
    have "window_in ?w 0 (assigned_span ?w (map the a)) r (\<lambda>v. the (a ! v))"
      unfolding window_in_def
    proof (intro conjI allI impI)
      show "assignment_in ?w 0 r (\<lambda>v. the (a ! v))" using fw(3) by (simp add: window_in_def)
      fix u v assume uv: "u < word_count ?w" "v < word_count ?w"
      then have "win_positions ?w ! the (a ! v) \<le> win_positions ?w ! hi" "win_positions ?w ! lo \<le> win_positions ?w ! the (a ! u)"
        using positions_le [OF wok] bounds at lt mem kw by simp_all
      then show "win_positions ?w ! the (a ! v) - win_positions ?w ! the (a ! u) \<le> assigned_span ?w (map the a)"
        unfolding span by linarith
    qed
    from window_in_positions [OF ok this fw(1)]
    have "\<exists>f. spans_within k (fills cells) (assigned_span ?w (map the a)) f" by blast
    moreover have "assigned_span ?w (map the a) \<le> max_span"
    proof -
      obtain u v where "u < k" "lo = the (a ! u)" "v < k" "hi = the (a ! v)"
        using mem fw(2) by (auto simp: in_set_conv_nth)
      then show ?thesis unfolding span using fw(3) kw by (auto simp: window_in_def)
    qed
    ultimately show ?thesis using res(1) Some ra by auto
  qed
qed

end
