(* ===== verification/GapPhrase.thy ===== *)
theory GapPhrase
  imports ChainSweep WordPositions WordWindows
begin

section \<open>Phrases with gaps\<close>

text \<open>
  \<^verbatim>\<open>Proximity\<close> and \<^verbatim>\<open>GapVerifiedScorer\<close> of \<^verbatim>\<open>gap_phrase.rs\<close>: the scorer of a
  query of several words keeps, of the documents its driver yields, those in which the words lie
  close enough: in query order with bounded gaps (the chain sweep), or in any order within
  a bounded span (the windows). It reads the words' positions with forward-only cursors and is a
  filtered doc set; the scan of it is shown to yield exactly the documents with an occurrence.
\<close>

subsection \<open>Proximity\<close>

datatype proximity = Ordered "nat list" | AnyOrder nat

definition any_order :: "nat \<Rightarrow> nat \<Rightarrow> proximity" where
  "any_order words distance =
     (let pairs = (if words - 1 \<le> u32_max then words - 1 else u32_max)
      in AnyOrder (saturating_mul u32_max pairs (saturating_add u32_max distance 1)))"

definition adjacent :: "nat \<Rightarrow> proximity" where
  "adjacent words = Ordered (replicate (words - 1) 0)"

definition is_any_order :: "proximity \<Rightarrow> bool" where
  "is_any_order p = (case p of AnyOrder _ \<Rightarrow> True | Ordered _ \<Rightarrow> False)"

subsection \<open>Verifying a document\<close>

record 'p gap_verifier =
  gap_words :: "'p word_positions list"
  gap_proximity :: proximity
  rank_span :: bool
  best_span :: "nat option"

text \<open>\<^verbatim>\<open>verify_ordered\<close>: the words are read one by one, and no further than the first that
  cannot extend the chain. \<open>None\<close> is a panic (\<^verbatim>\<open>gaps[w - 1]\<close> out of range).\<close>

fun ordered_loop ::
  "'p docset \<Rightarrow> ('p \<Rightarrow> nat list) \<Rightarrow> nat \<Rightarrow> nat list \<Rightarrow> nat list option \<Rightarrow> 'p word_positions list
    \<Rightarrow> ('p word_positions list \<times> bool) option" where
  "ordered_loop ops positions d gaps feasible [] = Some ([], True)"
| "ordered_loop ops positions d gaps feasible (w # ws) = do {
     (w', found) \<leftarrow> positions_in ops positions d w;
     if found = [] then Some (w' # ws, False)
     else case feasible of
            None \<Rightarrow> map_option (\<lambda>(ws', ok). (w' # ws', ok)) (ordered_loop ops positions d gaps (Some found) ws)
          | Some fs \<Rightarrow>
              (case gaps of
                 [] \<Rightarrow> None
               | gap # gaps1 \<Rightarrow>
                   (case ChainSweep.extend fs found gap of
                      (nx, True) \<Rightarrow>
                        map_option (\<lambda>(ws', ok). (w' # ws', ok)) (ordered_loop ops positions d gaps1 (Some nx) ws)
                    | (nx, False) \<Rightarrow> Some (w' # ws, False))) }"

text \<open>\<^verbatim>\<open>verify_any_order\<close> first reads every word, as long as none is missing.\<close>

fun read_all ::
  "'p docset \<Rightarrow> ('p \<Rightarrow> nat list) \<Rightarrow> nat \<Rightarrow> 'p word_positions list
    \<Rightarrow> ('p word_positions list \<times> nat list list option) option" where
  "read_all ops positions d [] = Some ([], Some [])"
| "read_all ops positions d (w # ws) = do {
     (w', found) \<leftarrow> positions_in ops positions d w;
     if found = [] then Some (w' # ws, None)
     else do {
       (ws', rest) \<leftarrow> read_all ops positions d ws;
       Some (w' # ws', map_option (\<lambda>fs. found # fs) rest) } }"

text \<open>The k-way merge: the heap of (position, word, index), an ascending list.\<close>

function merge_loop :: "nat list list \<Rightarrow> (nat \<times> nat \<times> nat) list \<Rightarrow> windows \<Rightarrow> windows" where
  "merge_loop found hp win =
     (case hp of
        [] \<Rightarrow> win
      | (p, w, i) # rest \<Rightarrow>
          merge_loop found
            (if i + 1 < length (found ! w) then insort (found ! w ! (i + 1), w, i + 1) rest else rest)
            (fst (push p w win)))"
  by pat_completeness auto

lemma sum_list_insort: "(\<Sum>x\<leftarrow>insort a xs. f x) = f a + (\<Sum>x\<leftarrow>xs. f x)" for f :: "'a :: linorder \<Rightarrow> nat"
  by (induction xs) auto

termination merge_loop
  by (relation "measure (\<lambda>(found, hp, win). (\<Sum>(p, w, i)\<leftarrow>hp. length (found ! w) - i) + length hp)")
    (auto simp: sum_list_insort)

declare merge_loop.simps [simp del]

definition merge_windows :: "nat list list \<Rightarrow> windows" where
  "merge_windows found =
     merge_loop found (sort (map (\<lambda>w. (found ! w ! 0, w, 0)) [0..<length found])) (windows_reset (length found))"

text \<open>The binary search for the tightest span.\<close>

partial_function (option) tighten :: "windows \<Rightarrow> nat \<Rightarrow> nat \<Rightarrow> nat option" where
  "tighten win lower span =
     (if lower < span then
        Option.bind (next_window win 0 (lower + (span - lower) div 2)) (\<lambda>r.
          case r of
            Some a \<Rightarrow> tighten win lower (assigned_span win (map the (snd a)))
          | None \<Rightarrow> tighten win (lower + (span - lower) div 2 + 1) span)
      else Some span)"

definition verify_windows :: "bool \<Rightarrow> nat \<Rightarrow> nat list list \<Rightarrow> (bool \<times> nat option) option" where
  "verify_windows ranked max_span found =
     (let win = merge_windows found in
      Option.bind (next_window win 0 max_span) (\<lambda>r.
        case r of
          None \<Rightarrow> Some (False, None)
        | Some a \<Rightarrow>
            if ranked
            then map_option (\<lambda>span. (True, Some span))
                   (tighten win (length found - 1) (assigned_span win (map the (snd a))))
            else Some (True, None)))"

definition verify :: "'p docset \<Rightarrow> ('p \<Rightarrow> nat list) \<Rightarrow> nat \<Rightarrow> 'p gap_verifier \<Rightarrow> ('p gap_verifier \<times> bool) option" where
  "verify ops positions d v =
     (case gap_proximity v of
        Ordered gaps \<Rightarrow>
          map_option (\<lambda>(ws, ok). (v\<lparr>gap_words := ws\<rparr>, ok)) (ordered_loop ops positions d gaps None (gap_words v))
      | AnyOrder max_span \<Rightarrow>
          Option.bind (read_all ops positions d (gap_words v)) (\<lambda>(ws, found).
            case found of
              None \<Rightarrow> Some (v\<lparr>gap_words := ws\<rparr>, False)
            | Some fs \<Rightarrow>
                map_option (\<lambda>(ok, span).
                    (v\<lparr>gap_words := ws, best_span := (if span = None then best_span v else span)\<rparr>, ok))
                  (verify_windows (rank_span v) max_span fs)))"

definition verifier_new :: "'p docset \<Rightarrow> 'p list list \<Rightarrow> proximity \<Rightarrow> bool \<Rightarrow> 'p gap_verifier" where
  "verifier_new ops word_postings prox ranked =
     \<lparr>gap_words = map (word_positions_new ops) word_postings, gap_proximity = prox,
      rank_span = (ranked \<and> is_any_order prox), best_span = None\<rparr>"

text \<open>The scorer: its constructor, \<^verbatim>\<open>advance\<close> and \<^verbatim>\<open>seek\<close> are those of a filtered doc set
  with \<open>verify\<close> as the check. A panic of \<open>verify\<close> is a panic of the call that made it.\<close>

definition gap_scan ::
  "'s docset \<Rightarrow> 's \<Rightarrow> 'p docset \<Rightarrow> ('p \<Rightarrow> nat list) \<Rightarrow> 'p list list \<Rightarrow> proximity \<Rightarrow> bool \<Rightarrow> nat list option" where
  "gap_scan driver s ops positions word_postings prox ranked =
     Option.bind (checked_new driver (verify ops positions) s (verifier_new ops word_postings prox ranked))
       (scan (checked_set driver (verify ops positions)))"

subsection \<open>The merge\<close>

lemma merge_loop_cells:
  "cells_ok k cells \<Longrightarrow> sorted hp \<Longrightarrow>
    \<forall>p w i. (p, w, i) \<in> set hp \<longrightarrow> w < k \<and> i < length (found ! w) \<and> p = found ! w ! i
      \<and> (cells = [] \<or> fst (last cells) \<le> p) \<Longrightarrow>
    \<forall>w<k. sorted (found ! w) \<Longrightarrow>
    \<exists>cells'. merge_loop found hp (of_cells k cells) = of_cells k cells' \<and> cells_ok k cells'
      \<and> cell_pairs cells' = cell_pairs cells
          \<union> {(found ! w ! j, w) | w j. \<exists>p i. (p, w, i) \<in> set hp \<and> i \<le> j \<and> j < length (found ! w)}"
proof (induction found hp "of_cells k cells" arbitrary: cells rule: merge_loop.induct)
  case (1 found hp)
  show ?case
  proof (cases hp)
    case Nil
    then show ?thesis using "1.prems"(1) by (subst merge_loop.simps) auto
  next
    case (Cons h rest)
    obtain p w i where h: "h = (p, w, i)" by (metis prod_cases3)
    have pwi: "w < k" "i < length (found ! w)" "p = found ! w ! i" "cells = [] \<or> fst (last cells) \<le> p"
      using "1.prems"(3) Cons h by auto
    let ?cells = "add_cell p w cells"
    let ?hp = "if i + 1 < length (found ! w) then insort (found ! w ! (i + 1), w, i + 1) rest else rest"
    note add = add_cell_ok [OF "1.prems"(1) pwi(1,4)]
    have push: "fst (push p w (of_cells k cells)) = of_cells k ?cells" by (rule push_cells)
    have least: "p \<le> q" if q: "(q, u, j) \<in> set rest" for q u j
    proof -
      have "(p, w, i) \<le> (q, u, j)" using "1.prems"(2) Cons h q by auto
      then show ?thesis by (auto simp: less_eq_prod_def)
    qed
    have "sorted ?hp" using "1.prems"(2) Cons by (simp add: sorted_insort)
    moreover have "\<forall>q u j. (q, u, j) \<in> set ?hp \<longrightarrow> u < k \<and> j < length (found ! u) \<and> q = found ! u ! j
        \<and> (?cells = [] \<or> fst (last ?cells) \<le> q)"
    proof (intro allI impI)
      fix q u j assume "(q, u, j) \<in> set ?hp"
      then consider (new) "q = found ! w ! (i + 1)" "u = w" "j = i + 1" "i + 1 < length (found ! w)"
        | (old) "(q, u, j) \<in> set rest" by (auto simp: set_insort_key split: if_splits)
      then show "u < k \<and> j < length (found ! u) \<and> q = found ! u ! j \<and> (?cells = [] \<or> fst (last ?cells) \<le> q)"
      proof cases
        case new
        have "sorted (found ! w)" using "1.prems"(4) pwi(1) by blast
        then have "found ! w ! i \<le> found ! w ! (i + 1)" using new(4) by (simp add: sorted_nth_mono)
        with new pwi add(4) show ?thesis by simp
      next
        case old
        with "1.prems"(3) Cons least [OF old] add(4) show ?thesis by auto
      qed
    qed
    ultimately obtain cells' where IH: "merge_loop found ?hp (of_cells k ?cells) = of_cells k cells'" "cells_ok k cells'"
      "cell_pairs cells' = cell_pairs ?cells
          \<union> {(found ! u ! j, u) | u j. \<exists>q l. (q, u, l) \<in> set ?hp \<and> l \<le> j \<and> j < length (found ! u)}"
      using "1.hyps" [OF Cons h [symmetric] refl push [symmetric, THEN sym] add(1) _ _ "1.prems"(4)] by blast
    have rem: "{(found ! u ! j, u) | u j. \<exists>q l. (q, u, l) \<in> set hp \<and> l \<le> j \<and> j < length (found ! u)}
        = insert (p, w) {(found ! u ! j, u) | u j. \<exists>q l. (q, u, l) \<in> set ?hp \<and> l \<le> j \<and> j < length (found ! u)}"
      (is "?l = insert _ ?r")
    proof (intro equalityI subsetI)
      fix x assume "x \<in> ?l"
      then obtain u j q l where x: "x = (found ! u ! j, u)" "(q, u, l) \<in> set hp" "l \<le> j" "j < length (found ! u)" by blast
      show "x \<in> insert (p, w) ?r"
      proof (cases "(q, u, l) \<in> set rest")
        case True
        then have "(q, u, l) \<in> set ?hp" by (simp add: set_insort_key)
        with x show ?thesis by blast
      next
        case False
        then have ul: "u = w" "l = i" using x(2) Cons h by auto
        show ?thesis
        proof (cases "j = i")
          case True
          with x(1) ul pwi(3) show ?thesis by simp
        next
          case no: False
          then have j: "i + 1 \<le> j" "i + 1 < length (found ! w)" using x(3,4) ul by auto
          then have "(found ! w ! (i + 1), w, i + 1) \<in> set ?hp" by (simp add: set_insort_key)
          with x ul j(1) show ?thesis by blast
        qed
      qed
    next
      fix x assume "x \<in> insert (p, w) ?r"
      then consider "x = (p, w)" | u j q l where "x = (found ! u ! j, u)" "(q, u, l) \<in> set ?hp" "l \<le> j" "j < length (found ! u)"
        by blast
      then show "x \<in> ?l"
      proof cases
        case 1
        have "(p, w, i) \<in> set hp" using Cons h by simp
        with 1 pwi(2,3) show ?thesis by blast
      next
        case (2 u j q l)
        then consider "(q, u, l) \<in> set rest" | "u = w" "l = i + 1" by (auto simp: set_insort_key split: if_splits)
        then show ?thesis
        proof cases
          case 1
          then have "(q, u, l) \<in> set hp" using Cons by simp
          with 2 show ?thesis by blast
        next
          case 2
          have "(p, w, i) \<in> set hp" using Cons h by simp
          moreover have "i \<le> j" using 2 \<open>l \<le> j\<close> by simp
          ultimately show ?thesis using \<open>x = _\<close> \<open>j < _\<close> 2(1) by blast
        qed
      qed
    qed
    have "merge_loop found hp (of_cells k cells) = of_cells k cells'"
      using IH(1) push by (subst merge_loop.simps) (simp add: Cons h)
    moreover have "cell_pairs cells' = cell_pairs cells
        \<union> {(found ! u ! j, u) | u j. \<exists>q l. (q, u, l) \<in> set hp \<and> l \<le> j \<and> j < length (found ! u)}"
      unfolding rem IH(3) add(2) by blast
    ultimately show ?thesis using IH(2) by blast
  qed
qed

lemma merge_windows_cells:
  assumes "\<forall>ps\<in>set found. sorted ps \<and> ps \<noteq> []"
  shows "\<exists>cells. merge_windows found = of_cells (length found) cells \<and> cells_ok (length found) cells
    \<and> (\<forall>v < length found. fills cells v = set (found ! v))"
proof -
  let ?hp = "sort (map (\<lambda>w. (found ! w ! 0, w, 0 :: nat)) [0..<length found])"
  have a: "cells_ok (length found) []" by (simp add: cells_ok_def)
  have b: "\<forall>p w i. (p, w, i) \<in> set ?hp \<longrightarrow> w < length found \<and> i < length (found ! w) \<and> p = found ! w ! i
      \<and> (([] :: (nat \<times> nat list) list) = [] \<or> fst (last ([] :: (nat \<times> nat list) list)) \<le> p)"
    using assms by auto
  have d: "\<forall>w < length found. sorted (found ! w)" using assms by simp
  from merge_loop_cells [OF a sorted_sort b d] obtain cells where c: "merge_loop found ?hp (of_cells (length found) []) = of_cells (length found) cells"
    "cells_ok (length found) cells"
    "cell_pairs cells = cell_pairs [] \<union> {(found ! w ! j, w) | w j. \<exists>p i. (p, w, i) \<in> set ?hp \<and> i \<le> j \<and> j < length (found ! w)}"
    by blast
  have "fills cells v = set (found ! v)" if v: "v < length found" for v
  proof -
    have "(found ! v ! 0, v, 0) \<in> set ?hp" using v by auto
    then have "(p, v) \<in> cell_pairs cells \<longleftrightarrow> (\<exists>j < length (found ! v). p = found ! v ! j)" for p
      unfolding c(3) by (auto simp: cell_pairs_def)
    then show ?thesis by (auto simp: fills_def in_set_conv_nth)
  qed
  with c(1,2) show ?thesis by (auto simp: merge_windows_def reset_cells)
qed

subsection \<open>The tightest span\<close>

lemma spans_within_mono: "spans_within k F m f \<Longrightarrow> m \<le> n \<Longrightarrow> spans_within k F n f"
  by (auto simp: spans_within_def intro: order_trans)

lemma spans_within_ge:
  assumes "spans_within k F m f" "0 < k"
  shows "k - 1 \<le> m"
proof -
  let ?lo = "Min (f ` {..<k})"
  have "?lo \<in> f ` {..<k}" using assms(2) by (intro Min_in) auto
  then obtain u where u: "u < k" "?lo = f u" by auto
  have "f ` {..<k} \<subseteq> {?lo..?lo + m}"
  proof
    fix x assume x: "x \<in> f ` {..<k}"
    then have "?lo \<le> x" by (simp add: Min_le)
    moreover have "x - f u \<le> m" using x u(1) assms(1) by (auto simp: spans_within_def)
    ultimately show "x \<in> {?lo..?lo + m}" using u(2) by auto
  qed
  then have "card (f ` {..<k}) \<le> card {?lo..?lo + m}" by (intro card_mono) auto
  moreover have "card (f ` {..<k}) = k" using assms(1) by (simp add: spans_within_def card_image)
  ultimately show ?thesis by simp
qed

lemma tighten_spec:
  assumes ok: "cells_ok k cells" and k: "0 < k"
  shows "\<exists>f. spans_within k (fills cells) span f \<Longrightarrow> \<forall>m < lower. \<nexists>f. spans_within k (fills cells) m f \<Longrightarrow>
    \<exists>s. tighten (of_cells k cells) lower span = Some s \<and> (\<exists>f. spans_within k (fills cells) s f)
      \<and> (\<forall>m < s. \<nexists>f. spans_within k (fills cells) m f)"
proof (induction "span - lower" arbitrary: lower span rule: less_induct)
  case less
  show ?case
  proof (cases "lower < span")
    case False
    then have "\<forall>m < span. \<nexists>f. spans_within k (fills cells) m f" using less.prems(2) by auto
    with less.prems(1) False show ?thesis by (subst tighten.simps) auto
  next
    case True
    let ?mid = "lower + (span - lower) div 2"
    have mid: "lower \<le> ?mid" "?mid < span" using True by simp_all
    obtain res where r: "next_window (of_cells k cells) 0 ?mid = Some res"
      "case res of None \<Rightarrow> \<nexists>f. spans_within k (fills cells) ?mid f
        | Some (r, a) \<Rightarrow> \<exists>f. spans_within k (fills cells) (assigned_span (of_cells k cells) (map the a)) f
            \<and> assigned_span (of_cells k cells) (map the a) \<le> ?mid"
      using next_window_cells [OF ok k] by blast
    show ?thesis
    proof (cases res)
      case None
      then have none: "\<nexists>f. spans_within k (fills cells) ?mid f" using r(2) by simp
      have above: "\<forall>m < ?mid + 1. \<nexists>f. spans_within k (fills cells) m f"
        using none spans_within_mono by (metis Suc_eq_plus1 less_Suc_eq_le)
      have "span - (?mid + 1) < span - lower" using mid by simp
      from less.hyps [OF this less.prems(1) above] show ?thesis
        using True r(1) None by (subst tighten.simps) simp
    next
      case (Some ra)
      obtain x a where ra: "ra = (x, a)" by fastforce
      let ?s = "assigned_span (of_cells k cells) (map the a)"
      have s: "\<exists>f. spans_within k (fills cells) ?s f" "?s \<le> ?mid" using r(2) Some ra by auto
      then have "lower \<le> ?s" using less.prems(2) by (meson not_le)
      then have "?s - lower < span - lower" using s(2) mid by linarith
      from less.hyps [OF this s(1) less.prems(2)] show ?thesis
        using True r(1) Some ra by (subst tighten.simps) simp
    qed
  qed
qed

lemma verify_windows_spec:
  assumes "\<forall>ps\<in>set found. sorted ps \<and> ps \<noteq> []" "found \<noteq> []"
  shows "\<exists>ok span. verify_windows ranked max_span found = Some (ok, span)
    \<and> (ok \<longleftrightarrow> (\<exists>f. spans_within (length found) (\<lambda>v. set (found ! v)) max_span f))
    \<and> (if ok \<and> ranked then \<exists>s. span = Some s \<and> (\<exists>f. spans_within (length found) (\<lambda>v. set (found ! v)) s f)
          \<and> (\<forall>m < s. \<nexists>f. spans_within (length found) (\<lambda>v. set (found ! v)) m f)
       else span = None)"
proof -
  let ?k = "length found"
  obtain cells where c: "merge_windows found = of_cells ?k cells" "cells_ok ?k cells"
    "\<forall>v < ?k. fills cells v = set (found ! v)" using merge_windows_cells [OF assms(1)] by blast
  have k: "0 < ?k" using assms(2) by simp
  have F: "spans_within ?k (\<lambda>v. set (found ! v)) m f \<longleftrightarrow> spans_within ?k (fills cells) m f" for m f
    using c(3) by (auto simp: spans_within_def)
  obtain res where r: "next_window (of_cells ?k cells) 0 max_span = Some res"
    "case res of None \<Rightarrow> \<nexists>f. spans_within ?k (fills cells) max_span f
      | Some (r, a) \<Rightarrow> \<exists>f. spans_within ?k (fills cells) (assigned_span (of_cells ?k cells) (map the a)) f
          \<and> assigned_span (of_cells ?k cells) (map the a) \<le> max_span"
    using next_window_cells [OF c(2) k] by blast
  show ?thesis
  proof (cases res)
    case None
    then show ?thesis using r unfolding F
      by (auto simp: verify_windows_def c(1) Let_def intro: exI [of _ False])
  next
    case (Some ra)
    obtain x a where ra: "ra = (x, a)" by fastforce
    let ?s = "assigned_span (of_cells ?k cells) (map the a)"
    have s: "\<exists>f. spans_within ?k (fills cells) ?s f" "?s \<le> max_span" using r(2) Some ra by auto
    then have ok: "\<exists>f. spans_within ?k (fills cells) max_span f" using spans_within_mono by blast
    have "\<forall>m < ?k - 1. \<nexists>f. spans_within ?k (fills cells) m f"
      using spans_within_ge [OF _ k] by (meson not_le)
    from tighten_spec [OF c(2) k s(1) this] ok show ?thesis
      unfolding F using r(1) Some ra by (auto simp: verify_windows_def c(1) Let_def)
  qed
qed

subsection \<open>The verification of a document\<close>

text \<open>The reference: the words have an occurrence of the given proximity.\<close>

definition near :: "proximity \<Rightarrow> nat list list \<Rightarrow> bool" where
  "near prox found =
     (case prox of
        Ordered gaps \<Rightarrow> \<exists>ps. occurs found gaps ps
      | AnyOrder max_span \<Rightarrow> \<exists>f. spans_within (length found) (\<lambda>v. set (found ! v)) max_span f)"

definition proximity_ok :: "nat \<Rightarrow> proximity \<Rightarrow> bool" where
  "proximity_ok words prox =
     (case prox of Ordered gaps \<Rightarrow> length gaps + 1 = words | AnyOrder _ \<Rightarrow> 0 < words)"

lemma extend_ok: "ChainSweep.extend fs found gap = (nx, ok) \<Longrightarrow> ok = (nx \<noteq> [])"
  by (auto simp: ChainSweep.extend_def Let_def)

lemma extend_empty: "ChainSweep.extend fs [] gap = ([], False)"
  by (simp add: ChainSweep.extend_def)

context postings_set
begin

definition word_found :: "nat \<Rightarrow> 'p word_positions \<Rightarrow> nat list" where
  "word_found d w = sort (concat (map (reads d) (postings w)))"

text \<open>After reading document \<open>d\<close>, the words say the same of the documents from \<open>d\<close> on.\<close>

definition advanced :: "nat \<Rightarrow> nat \<Rightarrow> 'p word_positions list \<Rightarrow> 'p word_positions list \<Rightarrow> bool" where
  "advanced lo d ws ws' \<longleftrightarrow> list_all2 (\<lambda>w w'. reader_inv d w' \<and> (\<forall>e\<ge>d. word_found e w' = word_found e w)) ws ws'"

lemma advanced_self: "\<forall>w\<in>set ws. reader_inv lo w \<Longrightarrow> lo \<le> d \<Longrightarrow> advanced lo d ws ws"
  unfolding advanced_def list_all2_conv_all_nth by (auto intro: reader_inv_mono)

lemma positions_in_advanced:
  assumes "reader_inv lo w" "lo \<le> d" "d < TERMINATED"
  obtains w' where "positions_in ops positions d w = Some (w', word_found d w)" "reader_inv d w'"
    "\<forall>e\<ge>d. word_found e w' = word_found e w"
  using positions_in_spec [OF assms] by (auto simp: word_found_def)

lemma ordered_loop_spec:
  assumes "lo \<le> d" "d < TERMINATED"
  shows "\<forall>w\<in>set ws. reader_inv lo w \<Longrightarrow>
    (case feasible of None \<Rightarrow> ws \<noteq> [] \<and> length gaps + 1 = length ws | Some fs \<Rightarrow> length gaps = length ws) \<Longrightarrow>
    \<exists>ws' ok. ordered_loop ops positions d gaps feasible ws = Some (ws', ok) \<and> advanced lo d ws ws'
      \<and> (ok \<longleftrightarrow> (case feasible of
           None \<Rightarrow> snd (chain (map (word_found d) ws) gaps)
         | Some fs \<Rightarrow> snd (extend_all fs (zip (map (word_found d) ws) gaps))))"
proof (induction ws arbitrary: feasible gaps)
  case Nil
  then show ?case by (cases feasible) (auto simp: advanced_def intro: exI [of _ True])
next
  case (Cons w ws)
  obtain w' where w': "positions_in ops positions d w = Some (w', word_found d w)" "reader_inv d w'"
    "\<forall>e\<ge>d. word_found e w' = word_found e w"
    using positions_in_advanced [OF _ assms] Cons.prems(1) by auto
  have rest: "advanced lo d ws ws" using advanced_self [OF _ assms(1)] Cons.prems(1) by simp
  have head: "advanced lo d (w # ws) (w' # ws')" if "advanced lo d ws ws'" for ws'
    using that w'(2,3) by (simp add: advanced_def)
  have wsi: "\<forall>w\<in>set ws. reader_inv lo w" using Cons.prems(1) by simp
  show ?case
  proof (cases "word_found d w = []")
    case True
    have "\<not> (case feasible of
           None \<Rightarrow> snd (chain (map (word_found d) (w # ws)) gaps)
         | Some fs \<Rightarrow> snd (extend_all fs (zip (map (word_found d) (w # ws)) gaps)))"
    proof (cases feasible)
      case None
      then show ?thesis using True by (simp add: chain_def)
    next
      case (Some fs)
      then obtain gap gaps' where "gaps = gap # gaps'" using Cons.prems(2) by (cases gaps) auto
      then show ?thesis using True Some by (simp add: extend_empty)
    qed
    with w'(1) True head [OF rest] show ?thesis by auto
  next
    case found: False
    show ?thesis
    proof (cases feasible)
      case None
      then have "length gaps = length ws" using Cons.prems(2) by simp
      then obtain ws' ok where "ordered_loop ops positions d gaps (Some (word_found d w)) ws = Some (ws', ok)"
        "advanced lo d ws ws'" "ok \<longleftrightarrow> snd (extend_all (word_found d w) (zip (map (word_found d) ws) gaps))"
        using Cons.IH [OF wsi, where feasible = "Some (word_found d w)" and gaps = gaps] by auto
      with w'(1) found None head show ?thesis by (simp add: chain_def)
    next
      case (Some fs)
      then obtain gap gaps' where g: "gaps = gap # gaps'" "length gaps' = length ws"
        using Cons.prems(2) by (cases gaps) auto
      obtain nx ok where e: "ChainSweep.extend fs (word_found d w) gap = (nx, ok)" by fastforce
      show ?thesis
      proof (cases ok)
        case True
        obtain ws' ok' where "ordered_loop ops positions d gaps' (Some nx) ws = Some (ws', ok')"
          "advanced lo d ws ws'" "ok' \<longleftrightarrow> snd (extend_all nx (zip (map (word_found d) ws) gaps'))"
          using Cons.IH [OF wsi, where feasible = "Some nx" and gaps = gaps'] g(2) by auto
        with w'(1) found Some g(1) e True head show ?thesis by simp
      next
        case False
        with w'(1) found Some g(1) e head [OF rest] show ?thesis by (auto intro: exI [of _ False])
      qed
    qed
  qed
qed

lemma read_all_spec:
  assumes "lo \<le> d" "d < TERMINATED"
  shows "\<forall>w\<in>set ws. reader_inv lo w \<Longrightarrow>
    \<exists>ws'. read_all ops positions d ws
      = Some (ws', if [] \<in> set (map (word_found d) ws) then None else Some (map (word_found d) ws))
      \<and> advanced lo d ws ws'"
proof (induction ws)
  case Nil
  then show ?case by (simp add: advanced_def)
next
  case (Cons w ws)
  obtain w' where w': "positions_in ops positions d w = Some (w', word_found d w)" "reader_inv d w'"
    "\<forall>e\<ge>d. word_found e w' = word_found e w"
    using positions_in_advanced [OF _ assms] Cons.prems by auto
  have head: "advanced lo d (w # ws) (w' # ws')" if "advanced lo d ws ws'" for ws'
    using that w'(2,3) by (simp add: advanced_def)
  show ?case
  proof (cases "word_found d w = []")
    case True
    have "advanced lo d ws ws" using advanced_self [OF _ assms(1)] Cons.prems by simp
    from head [OF this] w'(1) True show ?thesis by auto
  next
    case False
    with Cons w'(1) head show ?thesis by auto
  qed
qed

text \<open>What a verifier has to say of the documents from \<open>lo\<close> on.\<close>

definition verifier_inv :: "proximity \<Rightarrow> bool \<Rightarrow> (nat \<Rightarrow> nat list list) \<Rightarrow> nat \<Rightarrow> 'p gap_verifier \<Rightarrow> bool" where
  "verifier_inv prox ranked found lo v \<longleftrightarrow> gap_proximity v = prox \<and> rank_span v = ranked
     \<and> proximity_ok (length (gap_words v)) prox
     \<and> (\<forall>w\<in>set (gap_words v). reader_inv lo w) \<and> (\<forall>e\<ge>lo. map (word_found e) (gap_words v) = found e)"

lemma advanced_found:
  assumes "advanced lo d ws ws'" "d \<le> e"
  shows "map (word_found e) ws' = map (word_found e) ws"
  using assms by (auto simp: advanced_def list_all2_conv_all_nth intro!: nth_equalityI)

lemma advanced_inv:
  assumes "verifier_inv prox ranked found lo v" "lo \<le> d" "advanced lo d (gap_words v) ws"
    "gap_words v' = ws" "gap_proximity v' = prox" "rank_span v' = ranked"
  shows "verifier_inv prox ranked found (d + 1) v'"
proof -
  have l: "length ws = length (gap_words v)" "\<forall>w\<in>set ws. reader_inv d w"
    using assms(3) by (auto simp: advanced_def list_all2_conv_all_nth in_set_conv_nth)
  then have "\<forall>w\<in>set ws. reader_inv (d + 1) w" using reader_inv_mono by fastforce
  moreover have "\<forall>e\<ge>d + 1. map (word_found e) ws = found e"
    using advanced_found [OF assms(3)] assms(1,2) by (simp add: verifier_inv_def)
  ultimately show ?thesis using assms l(1) by (simp add: verifier_inv_def)
qed

lemma verify_spec:
  assumes v: "verifier_inv prox ranked found lo v" and d: "lo \<le> d" "d < TERMINATED"
  shows "\<exists>v'. verify ops positions d v = Some (v', near prox (found d)) \<and> verifier_inv prox ranked found (d + 1) v'"
proof -
  have ws: "\<forall>w\<in>set (gap_words v). reader_inv lo w" and f: "map (word_found d) (gap_words v) = found d"
    and p: "gap_proximity v = prox" "rank_span v = ranked" "proximity_ok (length (gap_words v)) prox"
    using v d(1) by (simp_all add: verifier_inv_def)
  have sorted: "\<forall>pos\<in>set (found d). sorted pos" unfolding f [symmetric] by (auto simp: word_found_def)
  have len: "length (found d) = length (gap_words v)" unfolding f [symmetric] by simp
  show ?thesis
  proof (cases prox)
    case (Ordered gaps)
    then have g: "gap_words v \<noteq> []" "length gaps + 1 = length (gap_words v)" using p(3) by (auto simp: proximity_ok_def)
    obtain ws' ok where o: "ordered_loop ops positions d gaps None (gap_words v) = Some (ws', ok)"
      "advanced lo d (gap_words v) ws'" "ok \<longleftrightarrow> snd (chain (found d) gaps)"
      using ordered_loop_spec [OF d ws, where feasible = None and gaps = gaps] g f by auto
    have "snd (chain (found d) gaps) \<longleftrightarrow> (\<exists>ps. occurs (found d) gaps ps)"
    proof -
      obtain ends b where c: "chain (found d) gaps = (ends, b)" "b \<longleftrightarrow> ends \<noteq> []"
        "set ends = {last ps | ps. occurs (found d) gaps ps}"
        using chain_spec [OF sorted, of gaps] unfolding len g(2) by blast
      have "ends \<noteq> [] \<longleftrightarrow> set ends \<noteq> {}" by simp
      then show ?thesis using c by auto
    qed
    then have "ok = near prox (found d)" using o(3) Ordered by (simp add: near_def)
    moreover have "verify ops positions d v = Some (v\<lparr>gap_words := ws'\<rparr>, ok)"
      using o(1) p(1) Ordered by (simp add: verify_def)
    moreover have "verifier_inv prox ranked found (d + 1) (v\<lparr>gap_words := ws'\<rparr>)"
      using advanced_inv [OF v d(1) o(2)] p by simp
    ultimately show ?thesis by blast
  next
    case (AnyOrder max_span)
    obtain ws' where r: "read_all ops positions d (gap_words v)
        = Some (ws', if [] \<in> set (found d) then None else Some (found d))" "advanced lo d (gap_words v) ws'"
      using read_all_spec [OF d ws] f by auto
    have ne: "found d \<noteq> []" using len p(3) AnyOrder by (auto simp: proximity_ok_def)
    show ?thesis
    proof (cases "[] \<in> set (found d)")
      case True
      then obtain i where "i < length (found d)" "found d ! i = []" by (auto simp: in_set_conv_nth)
      then have "\<not> near prox (found d)" using AnyOrder by (auto simp: near_def spans_within_def)
      moreover have "verify ops positions d v = Some (v\<lparr>gap_words := ws'\<rparr>, False)"
        using r(1) True p(1) AnyOrder by (simp add: verify_def)
      moreover have "verifier_inv prox ranked found (d + 1) (v\<lparr>gap_words := ws'\<rparr>)"
        using advanced_inv [OF v d(1) r(2)] p by simp
      ultimately show ?thesis by auto
    next
      case False
      then have all: "\<forall>ps\<in>set (found d). sorted ps \<and> ps \<noteq> []" using sorted by auto
      have nr: "near prox (found d) \<longleftrightarrow> (\<exists>f. spans_within (length (found d)) (\<lambda>v. set (found d ! v)) max_span f)"
        using AnyOrder by (simp add: near_def)
      obtain ok span where
        w: "verify_windows ranked max_span (found d) = Some (ok, span)" "ok = near prox (found d)"
        using verify_windows_spec [OF all ne, of ranked max_span] unfolding nr by blast
      let ?v = "v\<lparr>gap_words := ws', best_span := (if span = None then best_span v else span)\<rparr>"
      have "verify ops positions d v = Some (?v, ok)"
        using r(1) False w(1) p AnyOrder by (simp add: verify_def)
      moreover have "verifier_inv prox ranked found (d + 1) ?v"
        using advanced_inv [OF v d(1) r(2)] p by simp
      ultimately show ?thesis using w(2) by blast
    qed
  qed
qed

lemma verifier_new_inv:
  assumes "\<forall>ps\<in>set word_postings. \<forall>p\<in>set ps. inv p" "proximity_ok (length word_postings) prox"
  shows "verifier_inv prox (ranked \<and> is_any_order prox)
    (\<lambda>d. map (\<lambda>ps. sort (concat (map (reads d) ps))) word_postings) 0 (verifier_new ops word_postings prox ranked)"
  using assms reader_inv_new
  by (auto simp: verifier_inv_def verifier_new_def word_found_def word_positions_new_def)

end

lemma gap_checked:
  assumes "doc_set driver driver_ok docs" "postings_set ops ok_state pdocs positions table"
  shows "checked driver driver_ok docs (verify ops positions)
    (postings_set.verifier_inv ok_state pdocs table prox ranked found) (\<lambda>d. near prox (found d))"
proof (intro checked.intro checked_axioms.intro)
  show "doc_set driver driver_ok docs" by (rule assms(1))
  fix lo d v assume v: "postings_set.verifier_inv ok_state pdocs table prox ranked found lo v" "lo \<le> d" "d < TERMINATED"
  show "\<exists>v'. verify ops positions d v = Some (v', near prox (found d))
      \<and> postings_set.verifier_inv ok_state pdocs table prox ranked found (d + 1) v'"
    by (rule postings_set.verify_spec [OF assms(2) v])
next
  fix lo hi v assume "postings_set.verifier_inv ok_state pdocs table prox ranked found lo v" "lo \<le> hi"
  then show "postings_set.verifier_inv ok_state pdocs table prox ranked found hi v"
    unfolding postings_set.verifier_inv_def [OF assms(2)] using postings_set.reader_inv_mono [OF assms(2)] by auto
qed

subsection \<open>Properties\<close>

text \<open>C3: The scorer of a phrase yields, of the documents of its driver, exactly those in which the
  words have an occurrence of the required proximity, in order. The result is a
  value, so no verification on the way panics (an index of the gaps out of range, a word's
  cursor asked to move backwards) and every window search and binary search in it returns.\<close>

theorem gap_scan_exact:
  assumes "doc_set driver driver_ok docs" "driver_ok s" "postings_set ops ok_state pdocs positions table"
    "\<forall>ps\<in>set word_postings. \<forall>p\<in>set ps. ok_state p" "proximity_ok (length word_postings) prox"
  shows "gap_scan driver s ops positions word_postings prox ranked
    = Some (filter (\<lambda>d. near prox
        (map (\<lambda>ps. sort (concat (map (\<lambda>p. if d \<in> set (pdocs p) then table p d else []) ps))) word_postings))
      (docs s))"
proof -
  let ?found = "\<lambda>d. map (\<lambda>ps. sort (concat (map (postings_set.reads pdocs table d) ps))) word_postings"
  have reads: "postings_set.reads pdocs table d p = (if d \<in> set (pdocs p) then table p d else [])" for d p
    by (rule postings_set.reads_def [OF assms(3)])
  have new: "postings_set.verifier_inv ok_state pdocs table prox (ranked \<and> is_any_order prox) ?found 0
      (verifier_new ops word_postings prox ranked)"
    by (rule postings_set.verifier_new_inv [OF assms(3,4,5)])
  show ?thesis
    unfolding gap_scan_def
    using checked.scan_new [OF gap_checked [OF assms(1,3)] assms(2) new] by (simp add: reads)
qed

text \<open>C29: For words in any order the verification succeeds exactly when the words can be given
  distinct positions within the allowed span, competing words included, and under scoring the
  binary search returns the smallest span of any such choice.\<close>

theorem any_order_tightest:
  assumes "\<forall>ps\<in>set found. sorted ps \<and> ps \<noteq> []" "found \<noteq> []"
  shows "\<exists>ok span. verify_windows ranked max_span found = Some (ok, span)
    \<and> (ok \<longleftrightarrow> (\<exists>f. spans_within (length found) (\<lambda>v. set (found ! v)) max_span f))
    \<and> (if ok \<and> ranked then \<exists>s. span = Some s \<and> (\<exists>f. spans_within (length found) (\<lambda>v. set (found ! v)) s f)
          \<and> (\<forall>m < s. \<nexists>f. spans_within (length found) (\<lambda>v. set (found ! v)) m f)
       else span = None)"
  by (rule verify_windows_spec [OF assms])

lemma follows_bounds:
  "follows p words gaps qs \<Longrightarrow> \<forall>g\<in>set gaps. g \<le> distance \<Longrightarrow>
     sorted_wrt (<) (p # qs) \<and> length qs = length words \<and> (\<forall>i < length qs. qs ! i \<in> set (words ! i))
     \<and> last (p # qs) \<le> p + length qs * (distance + 1)"
proof (induction p words gaps qs rule: follows.induct)
  case (2 p pos words gap gaps q qs)
  have q: "q \<in> set pos" "p < q" "q - p - 1 \<le> gap" "gap \<le> distance" using "2.prems" by simp_all
  have IH: "sorted_wrt (<) (q # qs)" "length qs = length words" "\<forall>i < length qs. qs ! i \<in> set (words ! i)"
    "last (q # qs) \<le> q + length qs * (distance + 1)" using "2.IH" "2.prems" by (auto simp del: last.simps)
  have "q \<le> p + (distance + 1)" using q(2-4) by linarith
  with IH(4) have "last (q # qs) \<le> p + (distance + 1) + length qs * (distance + 1)" by linarith
  then have "last (p # q # qs) \<le> p + length (q # qs) * (distance + 1)" by simp
  moreover have "\<forall>i < length (q # qs). (q # qs) ! i \<in> set ((pos # words) ! i)"
    using IH(3) q(1) by (auto simp: nth_Cons split: nat.splits)
  moreover have "sorted_wrt (<) (p # q # qs)" using IH(1) q(2) by auto
  ultimately show ?case using IH(2) by (simp del: last.simps)
qed simp_all

text \<open>The span allowed for any order never loses a hit of the ordered search with the same
  distance, whatever the number of words and the saturation.\<close>

theorem any_order_keeps_ordered:
  assumes "near (Ordered (replicate (length found - 1) distance)) found" "\<forall>ps\<in>set found. \<forall>p\<in>set ps. p \<le> u32_max"
  shows "near (any_order (length found) distance) found"
proof -
  let ?k = "length found"
  obtain ps where ps: "occurs found (replicate (?k - 1) distance) ps" using assms(1) by (auto simp: near_def)
  then obtain first rest p qs where st: "found = first # rest" "ps = p # qs" "p \<in> set first"
    "follows p rest (replicate (?k - 1) distance) qs" by (auto simp: occurs_def split: list.splits)
  have fb: "sorted_wrt (<) ps" "length qs = length rest" "\<forall>i < length qs. qs ! i \<in> set (rest ! i)"
    "last ps \<le> p + length qs * (distance + 1)"
    using follows_bounds [OF st(4), of distance] st(2) by auto
  have fill: "ps ! i \<in> set (found ! i)" if "i < ?k" for i
    using that st fb(2,3) by (cases i) auto
  have len: "length ps = ?k" using st fb(2) by simp
  have "ps \<noteq> []" using st(2) by simp
  then have last_ps: "last ps = ps ! (?k - 1)" using last_conv_nth [of ps] len by simp
  have mono: "ps ! i \<le> ps ! j" if "i \<le> j" "j < ?k" for i j
    using fb(1) that len by (metis le_neq_implies_less less_imp_le order_refl sorted_wrt_nth_less)
  obtain m where m: "any_order ?k distance = AnyOrder m" by (simp add: any_order_def Let_def)
  have "last ps - p \<le> m"
  proof -
    have "ps ! (?k - 1) \<in> set (found ! (?k - 1))" using fill st(1) by simp
    moreover have "found ! (?k - 1) \<in> set found" using st(1) by (intro nth_mem) simp
    ultimately have le: "last ps \<le> u32_max" using assms(2) last_ps by metis
    have span: "last ps - p \<le> (?k - 1) * (distance + 1)" using fb(2,4) st(1) by simp
    have m_eq: "m = saturating_mul u32_max (if ?k - 1 \<le> u32_max then ?k - 1 else u32_max) (saturating_add u32_max distance 1)"
      using m by (simp add: any_order_def Let_def)
    show ?thesis
    proof (cases "?k - 1 \<le> u32_max \<and> distance + 1 \<le> u32_max")
      case True
      then have "m = min ((?k - 1) * (distance + 1)) u32_max"
        unfolding m_eq by (simp add: saturating_mul_def saturating_add_def)
      with span le show ?thesis by simp
    next
      case False
      show ?thesis
      proof (cases "?k = 1")
        case True
        then show ?thesis using span by simp
      next
        case more: False
        have "u32_max \<le> (if ?k - 1 \<le> u32_max then ?k - 1 else u32_max) * saturating_add u32_max distance 1"
        proof (cases "?k - 1 \<le> u32_max")
          case True
          then have "saturating_add u32_max distance 1 = u32_max" using False by (simp add: saturating_add_def)
          moreover have "1 \<le> ?k - 1" using more st(1) by (cases rest) auto
          ultimately show ?thesis using True by simp
        next
          case False
          have "1 \<le> saturating_add u32_max distance 1" by (simp add: saturating_add_def)
          with False show ?thesis by simp
        qed
        then have "m = u32_max" unfolding m_eq by (simp add: saturating_mul_def)
        with le show ?thesis by simp
      qed
    qed
  qed
  moreover have "ps ! v - ps ! u \<le> last ps - p" if "u < ?k" "v < ?k" for u v
  proof -
    have "ps ! v \<le> ps ! (?k - 1)" "ps ! 0 \<le> ps ! u" using mono that by auto
    moreover have "p = ps ! 0" using st(2) by simp
    ultimately show ?thesis using last_ps by linarith
  qed
  moreover have "inj_on (\<lambda>i. ps ! i) {..<?k}"
    using fb(1) len by (auto simp: inj_on_def strict_sorted_iff nth_eq_iff_index_eq)
  ultimately have "spans_within ?k (\<lambda>v. set (found ! v)) m (\<lambda>i. ps ! i)"
    using fill by (fastforce simp: spans_within_def)
  then show ?thesis unfolding m near_def by auto
qed

theorem any_order_keeps_ordered_witness: "near (any_order 2 1) [[4], [6]]"
proof -
  have "near (Ordered (replicate (length [[4], [6 :: nat]] - 1) 1)) [[4], [6]]"
  proof -
    have "occurs [[4], [6]] [1] [4, 6]" by (simp add: occurs_def)
    then show ?thesis by (auto simp: near_def)
  qed
  from any_order_keeps_ordered [OF this] show ?thesis by (simp add: numeral_2_eq_2)
qed

theorem any_order_tightest_witness:
  "\<exists>span. verify_windows True 5 [[1, 8], [1, 4]] = Some (True, Some span) \<and> span \<le> 3"
proof -
  let ?F = "\<lambda>v. set ([[1, 8], [1, 4 :: nat]] ! v)"
  let ?f = "\<lambda>v :: nat. if v = 0 then 1 else 4 :: nat"
  have f: "spans_within 2 ?F m ?f" if "3 \<le> m" for m
    using that by (auto simp: spans_within_def inj_on_def less_2_cases_iff)
  have two: "length [[1, 8], [1, 4 :: nat]] = 2" by simp
  have pre: "\<forall>ps\<in>set [[1, 8], [1, 4 :: nat]]. sorted ps \<and> ps \<noteq> []" "[[1, 8], [1, 4 :: nat]] \<noteq> []" by simp_all
  obtain ok span where v: "verify_windows True 5 [[1, 8], [1, 4]] = Some (ok, span)"
    "ok \<longleftrightarrow> (\<exists>f. spans_within 2 ?F 5 f)"
    "if ok \<and> True then \<exists>s. span = Some s \<and> (\<exists>f. spans_within 2 ?F s f) \<and> (\<forall>m < s. \<nexists>f. spans_within 2 ?F m f)
     else span = None"
    using any_order_tightest [OF pre, of True 5] unfolding two by blast
  have ok: ok using v(2) f [of 5] by auto
  then obtain s where s: "span = Some s" "\<forall>m < s. \<nexists>f. spans_within 2 ?F m f" using v(3) by auto
  have "s \<le> 3" using s(2) f [of 3] by (meson not_le order_refl)
  with v(1) ok s(1) show ?thesis by auto
qed

definition two_words :: "(docs_cursor \<times> (nat \<Rightarrow> nat list)) list list" where
  "two_words = [[(\<lparr>cursor_docs = [1, 7], cursor = 0\<rparr>, \<lambda>d. [d])], [(\<lparr>cursor_docs = [1, 7], cursor = 0\<rparr>, \<lambda>d. [3])]]"

theorem gap_scan_exact_witness:
  "gap_scan (docs_set walk_to) \<lparr>cursor_docs = [1, 4, 7], cursor = 0\<rparr> (with_table (docs_set walk_to))
     (\<lambda>p. snd p (ds_doc (docs_set walk_to) (fst p))) two_words (Ordered [1]) False = Some [1]"
proof -
  have c: "cursor_inv \<lparr>cursor_docs = [1, 4, 7], cursor = 0\<rparr>" "\<forall>ps\<in>set two_words. \<forall>p\<in>set ps. cursor_inv (fst p)"
    "proximity_ok (length two_words) (Ordered [1])"
    by (simp_all add: cursor_inv_def TERMINATED_def two_words_def proximity_ok_def)
  have near1: "near (Ordered [1]) [[1], [3]]"
  proof -
    have "occurs [[1], [3]] [1] [1, 3]" by (simp add: occurs_def)
    then show ?thesis unfolding near_def by auto
  qed
  have far: "\<not> near (Ordered [1]) [[7], [3]]" "\<not> near (Ordered [1]) [[], []]"
  proof -
    have "\<not> occurs [[7], [3]] [1] ps" for ps
      by (cases ps; cases "tl ps") (auto simp: occurs_def elim: follows.elims)
    then show "\<not> near (Ordered [1]) [[7], [3]]" by (simp add: near_def)
    show "\<not> near (Ordered [1]) [[], []]" by (auto simp: near_def occurs_def split: list.splits)
  qed
  from gap_scan_exact [OF docs_set_doc_set [OF walk_to_ok] c(1) id_postings.postings_set_axioms c(2,3), of False]
  show ?thesis using near1 far by (simp add: cursor_rest_def two_words_def)
qed

end
