(* ===== verification/BookNumbers.thy ===== *)
theory BookNumbers
  imports DocSets
begin

section \<open>Book numbers\<close>

text \<open>
  \<^verbatim>\<open>BookNumbers\<close> of \<^verbatim>\<open>book_order.rs\<close>: the number of a book, the high half of its
  document ids, is handed out by the engine that holds the index writer, and reserved on disk
  before it is used. Several engines (processes) share one index directory: each has its own
  \<open>book_numbers\<close>, learns books from the snapshots it searches, and catches up with the
  last commit when it takes the writer. The steps of the engines interleave in a step relation;
  an engine may also go away and be opened again. The file is the number it holds, 0 when
  there is none; reading it may fail, which \<^verbatim>\<open>read_reservation\<close> takes for 0, its atomic replacement
  may fail, and what a snapshot holds is arbitrary. The only read that must succeed for the numbers
  to stay unique is the one an engine makes when it takes the writer: with a failed read there
  the same number is handed out again, which is shown on a run.
\<close>

type_synonym path = string

definition NUMBER_RESERVATION :: nat where
  "NUMBER_RESERVATION = 64"

text \<open>\<^verbatim>\<open>read_reservation\<close>: a file that cannot be read or parsed counts as no reservation.\<close>

definition read_reservation :: "bool \<Rightarrow> nat \<Rightarrow> nat" where
  "read_reservation read_ok disk = (if read_ok then disk else 0)"

lemma read_reservation_le: "read_reservation read_ok d \<le> d"
  by (simp add: read_reservation_def)

subsection \<open>The books of a segment\<close>

text \<open>A segment's index of \<^verbatim>\<open>filePath\<close>: each path with its documents, the deleted documents and
  the first id of each document.\<close>

record path_segment =
  segment_id :: nat
  path_terms :: "(path \<times> nat list) list"
  deleted_docs :: "nat set"
  first_id :: "nat \<Rightarrow> nat option"

definition book_number_of :: "nat \<Rightarrow> nat" where
  "book_number_of ident = ident div 2 ^ 32"

text \<open>The book number of a path in a segment: that of its first live document, if it is one.\<close>

definition term_number :: "path_segment \<Rightarrow> nat list \<Rightarrow> nat option" where
  "term_number sg docs =
     (case dropWhile (\<lambda>d. d \<in> deleted_docs sg) docs of
        [] \<Rightarrow> None
      | d # _ \<Rightarrow>
          (case first_id sg d of
             None \<Rightarrow> None
           | Some ident \<Rightarrow>
               (let number = book_number_of ident
                in if number = 0 \<or> u32_max - 1 < number then None else Some number)))"

definition note_number :: "path \<times> nat \<Rightarrow> (path \<Rightarrow> nat option) \<Rightarrow> path \<Rightarrow> nat option" where
  "note_number pn found =
     (case pn of (p, number) \<Rightarrow>
        found(p \<mapsto> (case found p of None \<Rightarrow> number | Some seen \<Rightarrow> min seen number)))"

definition numbers_in_segments :: "path_segment list \<Rightarrow> path \<Rightarrow> nat option" where
  "numbers_in_segments sgs =
     fold note_number
       (concat (map (\<lambda>sg. List.map_filter (\<lambda>(p, docs). map_option (Pair p) (term_number sg docs)) (path_terms sg)) sgs))
       (\<lambda>_. None)"

subsection \<open>The numbers of an engine\<close>

text \<open>\<open>paths\<close> is the \<^verbatim>\<open>BTreeMap\<close>: an ascending association list.\<close>

record book_numbers =
  by_path :: "path \<Rightarrow> nat option"
  paths :: "(nat \<times> path) list"
  segments :: "nat set"
  next_number :: nat
  reserved :: nat
  version :: nat

definition book_numbers_new :: "bool \<Rightarrow> nat \<Rightarrow> book_numbers" where
  "book_numbers_new read_ok disk =
     (let r = max (read_reservation read_ok disk) 1
      in \<lparr>by_path = (\<lambda>_. None), paths = [], segments = {}, next_number = r, reserved = r, version = 0\<rparr>)"

definition unread_segments :: "book_numbers \<Rightarrow> path_segment list \<Rightarrow> nat list" where
  "unread_segments b sgs = filter (\<lambda>i. segment_id (sgs ! i) \<notin> segments b) [0..<length sgs]"

definition record_book :: "path \<Rightarrow> nat \<Rightarrow> book_numbers \<Rightarrow> book_numbers" where
  "record_book p number b =
     (let vacant = (map_of (paths b) number = None) in
      b\<lparr>paths := (if vacant then insort_key fst (number, p) (paths b) else paths b),
        by_path := (case by_path b p of None \<Rightarrow> (by_path b)(p \<mapsto> number) | Some _ \<Rightarrow> by_path b),
        next_number := max (next_number b) (saturating_add u32_max number 1),
        version := (if vacant then version b + 1 else version b)\<rparr>)"

definition absorb :: "path_segment list \<Rightarrow> nat list \<Rightarrow> (path \<times> nat) list \<Rightarrow> book_numbers \<Rightarrow> book_numbers" where
  "absorb sgs read found b =
     fold (\<lambda>(p, number). record_book p number) found
       (b\<lparr>segments := segments b \<union> (\<lambda>i. segment_id (sgs ! i)) ` set read\<rparr>)"

text \<open>\<^verbatim>\<open>number_for\<close>: the numbers, what the file holds afterwards, and the number or an error.
  \<open>read_ok\<close> and \<open>write_ok\<close> tell whether reading and replacing the file succeed.\<close>

datatype number_error = NumbersExhausted | WriteFailed

definition number_for ::
  "bool \<Rightarrow> bool \<Rightarrow> nat \<Rightarrow> path \<Rightarrow> book_numbers \<Rightarrow> book_numbers \<times> nat \<times> (number_error + nat)" where
  "number_for read_ok write_ok disk p b =
     (case by_path b p of
        Some number \<Rightarrow> (b, disk, Inr number)
      | None \<Rightarrow>
          (let b1 = (if reserved b \<le> next_number b
                     then b\<lparr>next_number := max (next_number b) (read_reservation read_ok disk)\<rparr> else b);
               number = next_number b1
           in if number = u32_max then (b1, disk, Inl NumbersExhausted)
              else if reserved b1 \<le> number
              then if write_ok
                   then (let r = saturating_add u32_max number NUMBER_RESERVATION
                         in (record_book p number (b1\<lparr>reserved := r\<rparr>), r, Inr number))
                   else (b1, disk, Inl WriteFailed)
              else (record_book p number b1, disk, Inr number)))"

text \<open>\<^verbatim>\<open>catch_up\<close>, with the books \<^verbatim>\<open>numbers_in_segments\<close> found in all segments.\<close>

definition catch_up :: "path_segment list \<Rightarrow> (path \<times> nat) list \<Rightarrow> bool \<Rightarrow> nat \<Rightarrow> book_numbers \<Rightarrow> book_numbers" where
  "catch_up sgs found read_ok disk b =
     (let b1 = b\<lparr>by_path := fold (\<lambda>(p, number) m. m(p \<mapsto> number)) found (by_path b)\<rparr>;
          b2 = absorb sgs [0..<length sgs] found b1;
          r = read_reservation read_ok disk
      in b2\<lparr>next_number := max (next_number b2) r, reserved := max (reserved b2) r\<rparr>)"

subsection \<open>Several engines\<close>

record number_system =
  engines :: "nat \<Rightarrow> book_numbers option"
  writer :: "nat option"
  disk :: nat
  handed :: "(nat \<times> path) list"

text \<open>The pairs an engine can find: a hash map, so each path once, with numbers of books.\<close>

definition found_ok :: "(path \<times> nat) list \<Rightarrow> bool" where
  "found_ok found \<longleftrightarrow> distinct (map fst found) \<and> (\<forall>(p, n) \<in> set found. 0 < n \<and> n < u32_max)"

text \<open>\<open>sound\<close> runs are those in which an engine that takes the writer can read the file.\<close>

inductive number_step :: "bool \<Rightarrow> number_system \<Rightarrow> number_system \<Rightarrow> bool" for sound where
  step_open: "engines s e = None \<Longrightarrow>
    number_step sound s (s\<lparr>engines := (engines s)(e \<mapsto> book_numbers_new read_ok (disk s))\<rparr>)"
| step_close: "engines s e = Some b \<Longrightarrow>
    number_step sound s (s\<lparr>engines := (engines s)(e := None), writer := (if writer s = Some e then None else writer s)\<rparr>)"
| step_search: "engines s e = Some b \<Longrightarrow> found_ok found \<Longrightarrow>
    number_step sound s (s\<lparr>engines := (engines s)(e \<mapsto> absorb sgs (unread_segments b sgs) found b)\<rparr>)"
| step_acquire: "engines s e = Some b \<Longrightarrow> writer s = None \<Longrightarrow> found_ok found \<Longrightarrow> (sound \<Longrightarrow> read_ok) \<Longrightarrow>
    number_step sound s (s\<lparr>engines := (engines s)(e \<mapsto> catch_up sgs found read_ok (disk s) b), writer := Some e\<rparr>)"
| step_release: "writer s = Some e \<Longrightarrow> number_step sound s (s\<lparr>writer := None\<rparr>)"
| step_number: "engines s e = Some b \<Longrightarrow> writer s = Some e \<Longrightarrow>
    number_for read_ok write_ok (disk s) p b = (b', d', r) \<Longrightarrow>
    number_step sound s (s\<lparr>engines := (engines s)(e \<mapsto> b'), disk := d',
      handed := (case (by_path b p, r) of (None, Inr n) \<Rightarrow> (n, p) # handed s | _ \<Rightarrow> handed s)\<rparr>)"

inductive_cases number_step_cases: "number_step sound s t"

definition number_system_new :: number_system where
  "number_system_new = \<lparr>engines = (\<lambda>_. None), writer = None, disk = 0, handed = []\<rparr>"

inductive number_reachable :: "bool \<Rightarrow> number_system \<Rightarrow> bool" for sound where
  number_start: "number_reachable sound number_system_new"
| number_more: "number_reachable sound s \<Longrightarrow> number_step sound s t \<Longrightarrow> number_reachable sound t"

text \<open>The invariant. Of any engine: its recorded numbers are below its next one, ascending, and
  its reservation is within the file's. Of the system: what was handed out is below the
  file's reservation, without repetition, and below the next number of the engine that holds
  the writer, which knows the file's reservation.\<close>

definition numbers_ok :: "nat \<Rightarrow> book_numbers \<Rightarrow> bool" where
  "numbers_ok d b \<longleftrightarrow> sorted_wrt (<) (map fst (paths b)) \<and> (\<forall>n\<in>set (map fst (paths b)). 0 < n \<and> n < next_number b)
     \<and> 0 < next_number b \<and> next_number b \<le> u32_max \<and> (reserved b \<le> d \<or> reserved b = 1)"

definition system_ok :: "number_system \<Rightarrow> bool" where
  "system_ok s \<longleftrightarrow> disk s \<le> u32_max \<and> distinct (map fst (handed s))
     \<and> (\<forall>n\<in>set (map fst (handed s)). 0 < n \<and> n < disk s)
     \<and> (\<forall>e b. engines s e = Some b \<longrightarrow> numbers_ok (disk s) b)
     \<and> (\<forall>e. writer s = Some e \<longrightarrow> (\<exists>b. engines s e = Some b \<and> disk s \<le> reserved b \<and> (\<forall>n\<in>set (map fst (handed s)). n < next_number b)))"

subsection \<open>The operations keep the invariant\<close>

lemma insort_fst:
  fixes x :: "nat \<times> 'b"
  shows "fst x \<notin> set (map fst xs) \<Longrightarrow> sorted_wrt (<) (map fst xs) \<Longrightarrow> sorted_wrt (<) (map fst (insort_key fst x xs))"
  by (induction xs) (auto simp: set_insort_key)

lemma vacant_iff: "map_of xs n = None \<longleftrightarrow> n \<notin> set (map fst xs)"
  by (simp add: map_of_eq_None_iff)

lemma record_keeps:
  assumes "numbers_ok d b" "0 < n" "n < u32_max"
  shows "numbers_ok d (record_book p n b)" "next_number b \<le> next_number (record_book p n b)"
    "reserved (record_book p n b) = reserved b" "n \<in> set (map fst (paths (record_book p n b)))"
proof -
  let ?b = "record_book p n b"
  have paths: "set (map fst (paths ?b)) = insert n (set (map fst (paths b)))"
    by (cases "n \<in> set (map fst (paths b))") (auto simp: record_book_def Let_def vacant_iff set_insort_key)
  have sorted: "sorted_wrt (<) (map fst (paths ?b))"
    using assms(1) insort_fst [of "(n, p)" "paths b"] by (auto simp: record_book_def Let_def numbers_ok_def vacant_iff)
  have nx: "next_number ?b = max (next_number b) (n + 1)" using assms(3)
    by (simp add: record_book_def Let_def saturating_add_exact)
  show "next_number b \<le> next_number ?b" using nx by simp
  show rs: "reserved ?b = reserved b" by (simp add: record_book_def Let_def)
  show "n \<in> set (map fst (paths ?b))" unfolding paths by simp
  show "numbers_ok d ?b"
    unfolding numbers_ok_def paths nx rs
  proof (intro conjI ballI allI impI)
    fix m assume "m \<in> insert n (set (map fst (paths b)))"
    then show "0 < m" "m < max (next_number b) (n + 1)" using assms(1,2) by (auto simp: numbers_ok_def)
  qed (use assms sorted in \<open>auto simp: numbers_ok_def\<close>)
qed

lemma records_keep:
  "numbers_ok d b \<Longrightarrow> \<forall>(p, n)\<in>set found. 0 < n \<and> n < u32_max \<Longrightarrow>
     numbers_ok d (fold (\<lambda>(p, n). record_book p n) found b)
     \<and> next_number b \<le> next_number (fold (\<lambda>(p, n). record_book p n) found b)
     \<and> reserved (fold (\<lambda>(p, n). record_book p n) found b) = reserved b"
proof (induction found arbitrary: b)
  case (Cons x found)
  obtain p n where x: "x = (p, n)" by fastforce
  then have n: "0 < n" "n < u32_max" using Cons.prems(2) by simp_all
  note r = record_keeps [OF Cons.prems(1) n, of p]
  from Cons.IH [OF r(1)] Cons.prems(2) r(2,3) show ?case by (force simp: x)
qed simp

lemma numbers_ok_segments: "numbers_ok d (b\<lparr>segments := sg\<rparr>) = numbers_ok d b"
  by (simp add: numbers_ok_def)

lemma absorb_keeps:
  assumes "numbers_ok d b" "found_ok found"
  shows "numbers_ok d (absorb sgs read found b) \<and> next_number b \<le> next_number (absorb sgs read found b)
    \<and> reserved (absorb sgs read found b) = reserved b"
proof -
  let ?b = "b\<lparr>segments := segments b \<union> (\<lambda>i. segment_id (sgs ! i)) ` set read\<rparr>"
  have "numbers_ok d ?b" using assms(1) by (simp add: numbers_ok_segments)
  moreover have "\<forall>(p, n)\<in>set found. 0 < n \<and> n < u32_max" using assms(2) by (auto simp: found_ok_def)
  ultimately show ?thesis using records_keep [of d ?b found] by (simp add: absorb_def)
qed

lemma numbers_ok_disk: "numbers_ok d b \<Longrightarrow> d \<le> d' \<Longrightarrow> numbers_ok d' b"
  by (auto simp: numbers_ok_def)

lemma catch_up_keeps:
  assumes "numbers_ok d b" "found_ok found" "d \<le> u32_max"
  shows "numbers_ok d (catch_up sgs found read_ok d b)
    \<and> (read_ok \<longrightarrow> d \<le> next_number (catch_up sgs found read_ok d b) \<and> d \<le> reserved (catch_up sgs found read_ok d b))"
proof -
  let ?b = "b\<lparr>by_path := fold (\<lambda>(p, number) m. m(p \<mapsto> number)) found (by_path b)\<rparr>"
  have "numbers_ok d ?b" using assms(1) by (simp add: numbers_ok_def)
  from absorb_keeps [OF this assms(2), of sgs "[0..<length sgs]"] show ?thesis
    using assms(3) by (auto simp: catch_up_def Let_def numbers_ok_def less_max_iff_disj read_reservation_def)
qed

text \<open>Handing out a number: a new one is fresh for the engine and within the file's reservation.\<close>

lemma number_for_spec:
  assumes "numbers_ok d b" "d \<le> u32_max" "number_for read_ok ok d p b = (b', d', r)"
  shows "numbers_ok d' b' \<and> (d \<le> reserved b \<longrightarrow> d \<le> d' \<and> d' \<le> reserved b') \<and> d' \<le> u32_max \<and> next_number b \<le> next_number b'
    \<and> (case by_path b p of
         Some n \<Rightarrow> r = Inr n \<and> b' = b \<and> d' = d
       | None \<Rightarrow> (case r of
           Inr n \<Rightarrow> next_number b \<le> n \<and> n < d' \<and> n < next_number b' \<and> n \<notin> set (map fst (paths b))
             \<and> by_path b' p = Some n \<and> map_of (paths b') n = Some p
         | Inl _ \<Rightarrow> d' = d \<and> by_path b' = by_path b \<and> paths b' = paths b))"
proof (cases "by_path b p")
  case (Some n)
  then show ?thesis using assms by (simp add: number_for_def)
next
  case None
  define b1 where "b1 = (if reserved b \<le> next_number b then b\<lparr>next_number := max (next_number b) (read_reservation read_ok d)\<rparr> else b)"
  let ?n = "next_number b1"
  have b1: "numbers_ok d b1" "next_number b \<le> ?n" "by_path b1 = by_path b" "paths b1 = paths b" "reserved b1 = reserved b"
    using assms(1,2) by (auto simp: b1_def numbers_ok_def less_max_iff_disj read_reservation_def)
  have n: "0 < ?n" "?n \<le> u32_max" "?n \<notin> set (map fst (paths b))"
    using b1(1,4) by (auto simp: numbers_ok_def)
  have nf: "number_for read_ok ok d p b =
      (if ?n = u32_max then (b1, d, Inl NumbersExhausted)
       else if reserved b1 \<le> ?n
       then if ok then (let r = saturating_add u32_max ?n NUMBER_RESERVATION
                        in (record_book p ?n (b1\<lparr>reserved := r\<rparr>), r, Inr ?n))
            else (b1, d, Inl WriteFailed)
       else (record_book p ?n b1, d, Inr ?n))"
    using None by (simp add: number_for_def b1_def Let_def)
  have rec: "by_path (record_book p ?n c) p = Some ?n" "map_of (paths (record_book p ?n c)) ?n = Some p"
    if c: "by_path c = by_path b" "paths c = paths b" for c
  proof -
    have v: "map_of (paths c) ?n = None" using n(3) c(2) by (simp add: vacant_iff)
    show "by_path (record_book p ?n c) p = Some ?n" using None c by (simp add: record_book_def Let_def)
    have "map_of (insort_key fst (m, q) xs) m = Some q" if "map_of xs m = None" for m :: nat and q :: path and xs
      using that by (induction xs) (auto split: if_splits)
    with v show "map_of (paths (record_book p ?n c)) ?n = Some p" by (simp add: record_book_def Let_def)
  qed
  consider (full) "?n = u32_max" | (saves) "?n < u32_max" "reserved b1 \<le> ?n" ok
    | (fail) "?n < u32_max" "reserved b1 \<le> ?n" "\<not> ok" | (held) "?n < u32_max" "?n < reserved b1"
    using n(2) by linarith
  then show ?thesis
  proof cases
    case full
    then have "b' = b1" "d' = d" "r = Inl NumbersExhausted" using nf assms(3) by simp_all
    then show ?thesis using assms(2) None b1 by simp
  next
    case fail
    then have "b' = b1" "d' = d" "r = Inl WriteFailed" using nf assms(3) by simp_all
    then show ?thesis using assms(2) None b1 by simp
  next
    case saves
    let ?r = "saturating_add u32_max ?n NUMBER_RESERVATION" and ?c = "b1\<lparr>reserved := saturating_add u32_max ?n NUMBER_RESERVATION\<rparr>"
    have r: "?n < ?r" "?r \<le> u32_max" using saves(1) by (auto simp: saturating_add_def NUMBER_RESERVATION_def)
    have "(b', d', r) = (record_book p ?n ?c, ?r, Inr ?n)"
      using nf saves unfolding assms(3) Let_def by simp
    then have res: "b' = record_book p ?n ?c" "d' = ?r" "r = Inr ?n" unfolding prod.inject by blast+
    have dr: "d \<le> reserved b \<longrightarrow> d \<le> ?r" using saves(2) b1(5) r(1) by simp
    have c: "numbers_ok ?r ?c" using b1(1) by (simp add: numbers_ok_def)
    note k = record_keeps [OF c n(1) saves(1), of p]
    have "?n < next_number b'" using k(4) k(1) unfolding res(1) by (auto simp: numbers_ok_def)
    with k rec [of ?c] b1 res r dr n(3) None show ?thesis by simp
  next
    case held
    have res: "b' = record_book p ?n b1" "d' = d" "r = Inr ?n" using nf assms(3) held by simp_all
    have "?n < d" using held(2) b1(1) n(1) by (auto simp: numbers_ok_def)
    note k = record_keeps [OF b1(1) n(1) held(1), of p]
    have "?n < next_number b'" using k(4) k(1) unfolding res(1) by (auto simp: numbers_ok_def)
    with k rec [of b1] b1 res \<open>?n < d\<close> n(3) None assms(2) show ?thesis by simp
  qed
qed

lemma number_step_ok: "number_step True s t \<Longrightarrow> system_ok s \<Longrightarrow> system_ok t"
proof (induction rule: number_step.induct)
  case (step_open s e read_ok)
  have "numbers_ok (disk s) (book_numbers_new read_ok (disk s))"
    using step_open.prems by (auto simp: numbers_ok_def book_numbers_new_def Let_def system_ok_def read_reservation_def)
  with step_open show ?case by (auto simp: system_ok_def)
next
  case (step_close s e b)
  then show ?case by (auto simp: system_ok_def)
next
  case (step_search s e b found sgs)
  then have "numbers_ok (disk s) b" by (simp add: system_ok_def)
  note k = absorb_keeps [OF this step_search.hyps(2), of sgs "unread_segments b sgs"]
  have "\<forall>n\<in>set (map fst (handed s)). n < next_number (absorb sgs (unread_segments b sgs) found b)"
    if "writer s = Some e"
  proof -
    have "\<forall>n\<in>set (map fst (handed s)). n < next_number b" using step_search that by (auto simp: system_ok_def)
    with k show ?thesis by (meson order.strict_trans2)
  qed
  with k step_search show ?case by (auto simp: system_ok_def)
next
  case (step_acquire s e b found read_ok sgs)
  then have "numbers_ok (disk s) b" "disk s \<le> u32_max" by (simp_all add: system_ok_def)
  note k = catch_up_keeps [OF this(1) step_acquire.hyps(3) this(2), of sgs read_ok]
  have "\<forall>n\<in>set (map fst (handed s)). n < next_number (catch_up sgs found read_ok (disk s) b)"
    using k step_acquire.prems step_acquire.hyps(4) unfolding system_ok_def by (meson order.strict_trans2)
  with k step_acquire show ?case by (auto simp: system_ok_def)
next
  case (step_release s e)
  then show ?case by (simp add: system_ok_def)
next
  case (step_number s e b read_ok ok p b' d' r)
  have b: "numbers_ok (disk s) b" "disk s \<le> u32_max" and below: "\<forall>n\<in>set (map fst (handed s)). n < next_number b"
    and known: "disk s \<le> reserved b"
    using step_number by (auto simp: system_ok_def)
  note sp = number_for_spec [OF b step_number.hyps(3)]
  have b': "numbers_ok d' b'" "disk s \<le> d'" "d' \<le> reserved b'" "d' \<le> u32_max" "next_number b \<le> next_number b'"
    using sp known by blast+
  let ?handed = "case (by_path b p, r) of (None, Inr n) \<Rightarrow> (n, p) # handed s | _ \<Rightarrow> handed s"
  have old: "distinct (map fst (handed s))" "\<forall>m\<in>set (map fst (handed s)). 0 < m \<and> m < disk s"
    using step_number.prems by (simp_all add: system_ok_def)
  have new: "distinct (map fst ?handed) \<and> (\<forall>m\<in>set (map fst ?handed). 0 < m \<and> m < d' \<and> m < next_number b')"
  proof (cases "by_path b p = None \<and> (\<exists>n. r = Inr n)")
    case True
    then obtain n where n: "by_path b p = None" "r = Inr n" by blast
    then have fresh: "next_number b \<le> n" "n < d'" "n < next_number b'" using sp by simp_all
    have "0 < n" using fresh(1) b(1) by (simp add: numbers_ok_def)
    moreover have "\<forall>m\<in>set (map fst (handed s)). m < n" using below fresh(1) by force
    ultimately show ?thesis using n fresh old b'(2,5) by fastforce
  next
    case False
    then have "?handed = handed s" by (auto split: option.splits sum.splits)
    moreover have "\<forall>m\<in>set (map fst (handed s)). m < next_number b'" using below b'(5) by (meson order.strict_trans2)
    ultimately show ?thesis using old b'(2) by (metis order.strict_trans2)
  qed
  have others: "numbers_ok d' c" if "engines s f = Some c" for f c
    using numbers_ok_disk [OF _ b'(2)] that step_number.prems by (simp add: system_ok_def)
  show ?case
    unfolding system_ok_def
  proof (intro conjI allI impI)
    fix f c
    assume "engines (s\<lparr>engines := (engines s)(e \<mapsto> b'), disk := d', handed := ?handed\<rparr>) f = Some c"
    then show "numbers_ok (disk (s\<lparr>engines := (engines s)(e \<mapsto> b'), disk := d', handed := ?handed\<rparr>)) c"
      using others b'(1) by (simp split: if_splits)
  next
    fix f
    assume "writer (s\<lparr>engines := (engines s)(e \<mapsto> b'), disk := d', handed := ?handed\<rparr>) = Some f"
    then have "f = e" using step_number.hyps(2) by simp
    then show "\<exists>c. engines (s\<lparr>engines := (engines s)(e \<mapsto> b'), disk := d', handed := ?handed\<rparr>) f = Some c
        \<and> disk (s\<lparr>engines := (engines s)(e \<mapsto> b'), disk := d', handed := ?handed\<rparr>) \<le> reserved c
        \<and> (\<forall>n\<in>set (map fst (handed (s\<lparr>engines := (engines s)(e \<mapsto> b'), disk := d', handed := ?handed\<rparr>))). n < next_number c)"
      using b'(3) new by simp
  qed (use new b'(4) in simp_all)
qed

lemma number_reachable_ok: "number_reachable True s \<Longrightarrow> system_ok s"
proof (induction rule: number_reachable.induct)
  case number_start
  show ?case by (simp add: system_ok_def number_system_new_def)
qed (rule number_step_ok)

subsection \<open>Properties\<close>

text \<open>C6: Whatever the interleaving of engines that open, search, take and release the writer, fail
  to write or to read the reservation or go away, no book number is ever handed out twice, and
  every number handed out is a valid one that was reserved on disk, as long as an engine that takes
  the writer can read the reservation at that moment.\<close>

theorem book_numbers_unique:
  assumes "number_reachable True s"
  shows "distinct (map fst (handed s)) \<and> (\<forall>n\<in>set (map fst (handed s)). 0 < n \<and> n < disk s) \<and> disk s \<le> u32_max"
  using number_reachable_ok [OF assms] by (simp add: system_ok_def)

text \<open>A run: an engine hands out the first number. Then it goes away before it committed anything, and
  is opened again with a file that cannot be read: it hands out the same number to another book.\<close>

definition first_engine :: "bool \<Rightarrow> book_numbers" where
  "first_engine read_ok = catch_up [] [] read_ok 65 (book_numbers_new read_ok 65)"

definition new_engine :: book_numbers where
  "new_engine = catch_up [] [] True 0 (book_numbers_new True 0)"

definition one_book :: number_system where
  "one_book = \<lparr>engines = [7 \<mapsto> fst (number_for True True 0 ''a'' new_engine)],
     writer = Some 7, disk = 65, handed = [(1, ''a'')]\<rparr>"

lemmas number_run = number_for_def catch_up_def absorb_def book_numbers_new_def Let_def saturating_add_def
  NUMBER_RESERVATION_def read_reservation_def new_engine_def first_engine_def

lemma one_book_reachable: "number_reachable sound one_book"
proof -
  let ?b = "book_numbers_new True 0"
  let ?s1 = "\<lparr>engines = [7 \<mapsto> ?b], writer = None, disk = 0, handed = []\<rparr>"
  let ?s2 = "\<lparr>engines = [7 \<mapsto> new_engine], writer = Some 7, disk = 0, handed = []\<rparr>"
  have "number_step sound number_system_new ?s1"
    using step_open [of number_system_new 7 sound True] by (simp add: number_system_new_def)
  moreover have "number_step sound ?s1 ?s2"
    using step_acquire [of ?s1 7 ?b "[]" sound True "[]"] by (simp add: found_ok_def new_engine_def)
  moreover have "number_step sound ?s2 one_book"
  proof -
    obtain b' d' r where nf: "number_for True True 0 ''a'' new_engine = (b', d', r)" by (metis prod_cases3)
    then have "d' = 65" "r = Inr 1" "by_path new_engine ''a'' = None" by (auto simp: number_run)
    with step_number [of ?s2 7 new_engine True True "''a''" b' d' r] nf show ?thesis by (simp add: one_book_def)
  qed
  ultimately show ?thesis using number_start number_more by metis
qed

theorem book_numbers_unique_witness: "distinct (map fst (handed one_book)) \<and> 1 < disk one_book"
  using book_numbers_unique [OF one_book_reachable] by (simp add: one_book_def)

text \<open>Without the read the numbers repeat.\<close>

lemma failed_read_repeats_number:
  "\<exists>s. number_reachable False s \<and> handed s = [(1, ''b''), (1, ''a'')]"
proof -
  let ?o = "\<lparr>engines = (\<lambda>_. None), writer = None, disk = 65, handed = [(1, ''a'')]\<rparr> :: number_system"
  let ?b = "book_numbers_new False 65" and ?c = "first_engine False"
  let ?s1 = "?o\<lparr>engines := [7 \<mapsto> ?b]\<rparr>" and ?s2 = "?o\<lparr>engines := [7 \<mapsto> ?c], writer := Some 7\<rparr>"
  have "number_step False one_book ?o"
  proof -
    have "one_book\<lparr>engines := (engines one_book)(7 := None), writer := (if writer one_book = Some 7 then None else writer one_book)\<rparr> = ?o"
      by (simp add: one_book_def)
    moreover obtain b where "engines one_book 7 = Some b" by (simp add: one_book_def)
    ultimately show ?thesis using step_close [of one_book 7 b False] by metis
  qed
  moreover have "number_step False ?o ?s1" using step_open [of ?o 7 False False] by simp
  moreover have "number_step False ?s1 ?s2"
    using step_acquire [of ?s1 7 ?b "[]" False False "[]"] by (simp add: found_ok_def first_engine_def)
  moreover have "\<exists>s. number_step False ?s2 s \<and> handed s = [(1, ''b''), (1, ''a'')]"
  proof -
    obtain b' d' r where nf: "number_for False True 65 ''b'' ?c = (b', d', r)" by (metis prod_cases3)
    then have "r = Inr 1" "by_path ?c ''b'' = None" by (auto simp: number_run)
    with step_number [of ?s2 7 ?c False True "''b''" b' d' r] nf show ?thesis by fastforce
  qed
  ultimately show ?thesis using one_book_reachable number_more by metis
qed

text \<open>C30: Asking for the number of a book either returns the one it has, with nothing changed, or
  hands out one that no book known to the engine holds and records it, so that asking again
  returns it whatever the disk does; reading the file may fail. An error hands out and records nothing.\<close>

theorem number_for_correct:
  assumes "numbers_ok d b" "d \<le> u32_max" "number_for read_ok ok d p b = (b', d', r)"
  shows "(case by_path b p of
         Some n \<Rightarrow> r = Inr n \<and> b' = b \<and> d' = d
       | None \<Rightarrow> (case r of
           Inr n \<Rightarrow> n \<notin> set (map fst (paths b)) \<and> n < d' \<and> map_of (paths b') n = Some p
             \<and> (\<forall>read_ok' ok' d''. number_for read_ok' ok' d'' p b' = (b', d'', Inr n))
         | Inl _ \<Rightarrow> d' = d \<and> by_path b' = by_path b \<and> paths b' = paths b))"
  using number_for_spec [OF assms] by (auto simp: number_for_def split: option.splits sum.splits)

theorem number_for_correct_witness:
  "\<exists>b' n. number_for True True 0 ''a'' (book_numbers_new True 0) = (b', 65, Inr n) \<and> map_of (paths b') n = Some ''a''"
proof -
  obtain b' d' r where nf: "number_for True True 0 ''a'' (book_numbers_new True 0) = (b', d', r)" by (metis prod_cases3)
  have "numbers_ok 0 (book_numbers_new True 0)" by (simp add: numbers_ok_def book_numbers_new_def read_reservation_def)
  from number_for_correct [OF this _ nf] have "case r of Inr n \<Rightarrow> map_of (paths b') n = Some ''a'' | Inl _ \<Rightarrow> True"
    by (auto simp: book_numbers_new_def Let_def split: sum.splits)
  moreover have "d' = 65" "r = Inr 1"
    using nf by (auto simp: number_run)
  ultimately show ?thesis using nf by auto
qed

end
