(* ===== verification/BookOrder.thy ===== *)
theory BookOrder
  imports BookNumbers DerivedColumns "HOL-Library.Product_Lexorder" "HOL-Library.Option_ord" "HOL-Library.List_Lexorder" "HOL-Library.Char_ord"
begin

unbundle bit_operations_syntax

section \<open>The order of books\<close>

text \<open>
  \<^verbatim>\<open>OrderTables\<close>, the order file and the stamps of \<^verbatim>\<open>book_order.rs\<close>. The tables rank the
  book numbers in the catalogue and among the generations; the sort key of a document is its
  book's rank and its line in one 64-bit word. A table is an array, or a map when the
  numbers are large. The stamps collector sums up, per book and over all segments,
  the live documents, the number and four fingerprint columns.
\<close>

record book_place =
  catalogue_order :: nat
  generation_order :: nat

subsection \<open>The order file\<close>

record order_mapping =
  revision :: nat
  places :: "(path \<times> book_place) list"

record order_file_entry =
  file_path :: path
  entry_catalogue :: nat
  entry_generation :: nat

record order_file =
  file_revision :: nat
  books :: "order_file_entry list"

text \<open>The JSON encoding is a parameter; a hash map is an association list in any order.\<close>

definition mapping_load :: "('b \<Rightarrow> order_file option) \<Rightarrow> 'b option \<Rightarrow> order_mapping" where
  "mapping_load decode bytes =
     (case bytes of
        None \<Rightarrow> \<lparr>revision = 0, places = []\<rparr>
      | Some bs \<Rightarrow>
          (case decode bs of
             None \<Rightarrow> \<lparr>revision = 0, places = []\<rparr>
           | Some f \<Rightarrow>
               \<lparr>revision = file_revision f,
                places = map (\<lambda>e. (file_path e,
                  \<lparr>catalogue_order = entry_catalogue e, generation_order = entry_generation e\<rparr>)) (books f)\<rparr>))"

definition mapping_save :: "(order_file \<Rightarrow> 'b) \<Rightarrow> order_mapping \<Rightarrow> 'b" where
  "mapping_save encode m =
     encode \<lparr>file_revision = revision m,
             books = sort_key (\<lambda>e. (entry_catalogue e, file_path e))
               (map (\<lambda>(p, pl). \<lparr>file_path = p, entry_catalogue = catalogue_order pl,
                  entry_generation = generation_order pl\<rparr>) (places m))\<rparr>"

subsection \<open>Rank tables\<close>

datatype order_kind = Catalogue | Generation

datatype rank_table = Dense "nat list" | Sparse "nat \<Rightarrow> nat option"

definition DENSE_NUMBERS :: nat where
  "DENSE_NUMBERS = 2 ^ 20"

text \<open>\<^verbatim>\<open>as u32\<close> truncates.\<close>

definition rank_table_of :: "nat list \<Rightarrow> bool \<Rightarrow> nat \<Rightarrow> rank_table \<times> nat" where
  "rank_table_of ranked dense mx =
     (if dense
      then Dense (fold (\<lambda>(i, number) ranks. ranks[number := i mod 2 ^ 32]) (List.enumerate 0 ranked)
                    (replicate (mx + 1) u32_max))
      else Sparse (map_of (rev (map (\<lambda>(i, number). (number, i mod 2 ^ 32)) (List.enumerate 0 ranked)))),
      length ranked mod 2 ^ 32)"

definition rank :: "rank_table \<Rightarrow> nat \<Rightarrow> nat \<Rightarrow> nat" where
  "rank table known number =
     (case (case table of
              Dense ranks \<Rightarrow>
                if number < length ranks \<and> ranks ! number \<noteq> u32_max then Some (ranks ! number) else None
            | Sparse m \<Rightarrow> m number) of
        Some r \<Rightarrow> r
      | None \<Rightarrow> min (known + number) u32_max)"

record order_tables =
  catalogue :: rank_table
  generation :: rank_table
  known :: nat

type_synonym numbered = "book_place option \<times> nat"

definition catalogue_key :: "numbered \<Rightarrow> bool \<times> bool \<times> nat \<times> nat" where
  "catalogue_key = (\<lambda>(pl, number).
     (number \<noteq> 0, pl = None, (case pl of None \<Rightarrow> 0 | Some p \<Rightarrow> catalogue_order p), number))"

definition generation_key :: "numbered \<Rightarrow> bool \<times> bool \<times> nat \<times> nat \<times> nat" where
  "generation_key = (\<lambda>(pl, number).
     (number \<noteq> 0, pl = None, (case pl of None \<Rightarrow> 0 | Some p \<Rightarrow> generation_order p),
      (case pl of None \<Rightarrow> 0 | Some p \<Rightarrow> catalogue_order p), number))"

definition numbered_books :: "(nat \<times> path) list \<Rightarrow> (path \<Rightarrow> book_place option) \<Rightarrow> numbered list" where
  "numbered_books ps pls = (None, 0) # map (\<lambda>(n, p). (pls p, n)) (filter (\<lambda>(n, _). n \<noteq> 0) ps)"

definition build_tables :: "(nat \<times> path) list \<Rightarrow> (path \<Rightarrow> book_place option) \<Rightarrow> order_tables" where
  "build_tables ps pls =
     (let numbers = numbered_books ps pls;
          mx = fold max (map snd numbers) 0;
          dense = mx < DENSE_NUMBERS;
          by_catalogue = sort_key catalogue_key numbers;
          (cat, kn) = rank_table_of (map snd by_catalogue) dense mx;
          by_generation = sort_key generation_key by_catalogue;
          (gen, _) = rank_table_of (map snd by_generation) dense mx
      in \<lparr>catalogue = cat, generation = gen, known = kn\<rparr>)"

definition order_table :: "order_tables \<Rightarrow> order_kind \<Rightarrow> rank_table" where
  "order_table t kind = (case kind of Catalogue \<Rightarrow> catalogue t | Generation \<Rightarrow> generation t)"

text \<open>The key of a document: \<^verbatim>\<open>(rank << 32) | (id & ORDINAL_MASK)\<close>.\<close>

definition key_in :: "rank_table \<Rightarrow> nat \<Rightarrow> u64 \<Rightarrow> u64" where
  "key_in table kn ident =
     push_bit 32 (word_of_nat (rank table kn (unat (drop_bit 32 ident)))) OR (ident AND 0xFFFFFFFF)"

definition order_key :: "order_tables \<Rightarrow> order_kind \<Rightarrow> u64 \<Rightarrow> u64" where
  "order_key t kind ident = key_in (order_table t kind) (known t) ident"

definition catalogue_rank :: "order_tables \<Rightarrow> nat \<Rightarrow> nat" where
  "catalogue_rank t number = rank (catalogue t) (known t) number"

text \<open>\<^verbatim>\<open>BookOrderColumn::first\<close>, over the id column of a segment.\<close>

definition column_first :: "(nat \<Rightarrow> u64 option) \<Rightarrow> order_tables \<Rightarrow> order_kind \<Rightarrow> nat \<Rightarrow> u64 option" where
  "column_first ids t kind doc = map_option (key_in (order_table t kind) (known t)) (ids doc)"

subsection \<open>Stamps\<close>

record partial_stamps =
  documents :: nat
  stamp_number :: "nat option"
  stamps :: "nat option list"

definition combine_fingerprint :: "nat option \<Rightarrow> nat option \<Rightarrow> nat option" where
  "combine_fingerprint seen val =
     (case (seen, val) of
        (seen, None) \<Rightarrow> seen
      | (None, val) \<Rightarrow> val
      | (Some a, Some b) \<Rightarrow> if a = b then Some a else Some 0)"

definition stamps_default :: partial_stamps where
  "stamps_default = \<lparr>documents = 0, stamp_number = None, stamps = [None, None, None, None]\<rparr>"

definition stamps_merge :: "partial_stamps \<Rightarrow> partial_stamps \<Rightarrow> partial_stamps" where
  "stamps_merge a b =
     \<lparr>documents = documents a + documents b,
      stamp_number = (case (stamp_number a, stamp_number b) of
          (Some m, Some n) \<Rightarrow> Some (min m n)
        | (Some m, None) \<Rightarrow> Some m
        | (None, n) \<Rightarrow> n),
      stamps = map (\<lambda>(seen, val). combine_fingerprint seen val) (zip (stamps a) (stamps b))\<rparr>"

text \<open>A segment's columns: the path term of each document, its id, its four stamps; and the
  string of a term. The column of paths may be absent, and reading a term may fail.\<close>

record stamp_segment =
  path_column :: "(nat \<Rightarrow> nat option) option"
  ids :: "nat \<Rightarrow> nat option"
  stamp_columns :: "(nat \<Rightarrow> nat option) option list"
  term_string :: "nat \<Rightarrow> path option"
  readable :: bool

type_synonym collected = "nat \<Rightarrow> partial_stamps option"

definition collect_stamps :: "stamp_segment \<Rightarrow> nat \<Rightarrow> collected \<Rightarrow> collected" where
  "collect_stamps sg doc found =
     (case path_column sg of
        None \<Rightarrow> found
      | Some col \<Rightarrow>
          (case col doc of
             None \<Rightarrow> found
           | Some t \<Rightarrow>
               (let book = (case found t of None \<Rightarrow> stamps_default | Some b \<Rightarrow> b) in
                found(t \<mapsto> \<lparr>documents = documents book + 1,
                  stamp_number = (case stamp_number book of
                      None \<Rightarrow> map_option book_number_of (ids sg doc) | Some n \<Rightarrow> Some n),
                  stamps = map (\<lambda>(seen, c). combine_fingerprint seen (Option.bind c (\<lambda>c. c doc)))
                    (zip (stamps book) (stamp_columns sg))\<rparr>))))"

text \<open>\<^verbatim>\<open>harvest\<close>, over the terms in any order: \<open>None\<close> is its error.\<close>

definition harvest :: "stamp_segment \<Rightarrow> nat list \<Rightarrow> collected \<Rightarrow> (path \<Rightarrow> partial_stamps option) option" where
  "harvest sg terms found =
     (if path_column sg = None then Some (\<lambda>_. None)
      else if \<not> readable sg \<and> terms \<noteq> [] then None
      else Some (fold (\<lambda>t m. case (term_string sg t, found t) of
                     (Some p, Some b) \<Rightarrow> m(p \<mapsto> b) | _ \<Rightarrow> m) terms (\<lambda>_. None)))"

definition merge_books ::
  "(path \<Rightarrow> partial_stamps option) \<Rightarrow> (path \<Rightarrow> partial_stamps option) \<Rightarrow> path \<Rightarrow> partial_stamps option" where
  "merge_books merged segment p =
     (case segment p of
        None \<Rightarrow> merged p
      | Some b \<Rightarrow> Some (stamps_merge (case merged p of None \<Rightarrow> stamps_default | Some a \<Rightarrow> a) b))"

fun merge_segments ::
  "(path \<Rightarrow> partial_stamps option) \<Rightarrow> (path \<Rightarrow> partial_stamps option) option list
    \<Rightarrow> (path \<Rightarrow> partial_stamps option) option" where
  "merge_segments merged [] = Some merged"
| "merge_segments merged (None # sgs) = None"
| "merge_segments merged (Some sg # sgs) = merge_segments (merge_books merged sg) sgs"

record collected_stamps =
  cs_number :: nat
  cs_documents :: nat
  cs_stamps :: "nat list"

definition finish_stamps :: "partial_stamps \<Rightarrow> collected_stamps" where
  "finish_stamps b =
     \<lparr>cs_number = (case stamp_number b of Some n \<Rightarrow> if n \<le> u32_max then n else 0 | None \<Rightarrow> 0),
      cs_documents = documents b,
      cs_stamps = map (\<lambda>s. case s of None \<Rightarrow> 0 | Some v \<Rightarrow> v) (stamps b)\<rparr>"

definition merge_stamp_fruits ::
  "(path \<Rightarrow> partial_stamps option) option list \<Rightarrow> (path \<Rightarrow> collected_stamps option) option" where
  "merge_stamp_fruits per_segment =
     map_option (\<lambda>m p. map_option finish_stamps (m p)) (merge_segments (\<lambda>_. None) per_segment)"

subsection \<open>Ranks are positions\<close>

definition ranks_of :: "nat list \<Rightarrow> nat \<Rightarrow> nat option" where
  "ranks_of ranked n = map_of (map (\<lambda>i. (ranked ! i, i)) [0..<length ranked]) n"

lemma ranks_of_iff: "distinct ranked \<Longrightarrow> ranks_of ranked n = Some i \<longleftrightarrow> i < length ranked \<and> ranked ! i = n"
  unfolding ranks_of_def by (subst map_of_eq_Some_iff) (auto simp: o_def map_nth)

lemma ranks_of_None: "ranks_of ranked n = None \<longleftrightarrow> n \<notin> set ranked"
  by (simp add: ranks_of_def map_of_eq_None_iff image_image in_set_conv_nth) (auto simp: image_iff)

lemma ranks_of_nth: "distinct ranked \<Longrightarrow> i < length ranked \<Longrightarrow> ranks_of ranked (ranked ! i) = Some i"
  by (simp add: ranks_of_iff)

lemma map_of_same_set:
  "distinct (map fst xs) \<Longrightarrow> distinct (map fst ys) \<Longrightarrow> set xs = set ys \<Longrightarrow> map_of xs = map_of ys"
  by (metis (no_types, lifting) ext map_of_eq_Some_iff not_None_eq)

lemma enumerate_conv: "List.enumerate 0 xs = map (\<lambda>i. (i, xs ! i)) [0..<length xs]"
  by (rule nth_equalityI) (simp_all add: nth_enumerate_eq)

lemma dense_found:
  assumes "distinct ranked" "length ranked \<le> u32_max" "\<forall>n\<in>set ranked. n \<le> mx"
    and "fst (rank_table_of ranked True mx) = Dense ranks"
  shows "(if n < length ranks \<and> ranks ! n \<noteq> u32_max then Some (ranks ! n) else None) = ranks_of ranked n"
proof -
  let ?fs = "List.enumerate 0 ranked"
  let ?ranks = "fold (\<lambda>f xs. xs[snd f := fst f mod 2 ^ 32]) ?fs (replicate (mx + 1) u32_max)"
  have "ranks = ?ranks" using assms(4) by (simp add: rank_table_of_def case_prod_beta')
  moreover have "distinct (map snd ?fs)" using assms(1) by simp
  moreover have "\<forall>f\<in>set ?fs. snd f < length (replicate (mx + 1) u32_max)"
    using assms(3) by (auto simp: in_set_enumerate_eq less_Suc_eq_le)
  ultimately have r: "length ranks = mx + 1" "\<forall>f\<in>set ?fs. ranks ! snd f = fst f mod 2 ^ 32"
    "\<forall>n. n \<notin> snd ` set ?fs \<longrightarrow> ranks ! n = replicate (mx + 1) u32_max ! n"
    using fold_update_nth [where e = snd and v = "\<lambda>f. fst f mod 2 ^ 32" and fs = ?fs and xs = "replicate (mx + 1) u32_max"]
    by simp_all
  show ?thesis
  proof (cases "n \<in> set ranked")
    case True
    then obtain i where i: "i < length ranked" "ranked ! i = n" by (auto simp: in_set_conv_nth)
    then have "(i, n) \<in> set ?fs" by (auto simp: in_set_enumerate_eq)
    then have "ranks ! n = i" using r(2) i assms(2) by auto
    moreover have "ranks_of ranked n = Some i" using i assms(1) by (simp add: ranks_of_iff)
    ultimately show ?thesis using i assms(2,3) r(1) True by auto
  next
    case False
    then have "ranks_of ranked n = None" by (simp add: ranks_of_None)
    moreover have "n \<notin> snd ` set ?fs" using False by (metis list.set_map map_snd_enumerate)
    ultimately show ?thesis using r(1,3) by (auto simp del: replicate_Suc)
  qed
qed

lemma sparse_found:
  assumes "distinct ranked" "length ranked \<le> u32_max" "fst (rank_table_of ranked False mx) = Sparse m"
  shows "m n = ranks_of ranked n"
proof -
  have m: "m = map_of (rev (map (\<lambda>(i, number). (number, i mod 2 ^ 32)) (List.enumerate 0 ranked)))"
    using assms(3) by (simp add: rank_table_of_def)
  have "map (\<lambda>(i, number). (number, i mod 2 ^ 32)) (List.enumerate 0 ranked) = map (\<lambda>i. (ranked ! i, i)) [0..<length ranked]"
    using assms(2) by (simp add: enumerate_conv)
  moreover have "distinct (map fst (map (\<lambda>i. (ranked ! i, i)) [0..<length ranked]))"
    using assms(1) by (simp add: o_def map_nth)
  ultimately show ?thesis unfolding m ranks_of_def by (intro fun_cong [OF map_of_same_set]) (simp_all only: rev_map [symmetric] distinct_rev set_rev)
qed

lemma rank_table:
  assumes "distinct ranked" "length ranked \<le> u32_max" "\<forall>n\<in>set ranked. n \<le> mx"
  shows "rank (fst (rank_table_of ranked dense mx)) kn n =
    (case ranks_of ranked n of Some r \<Rightarrow> r | None \<Rightarrow> min (kn + n) u32_max)"
proof (cases dense)
  case True
  then obtain ranks where "fst (rank_table_of ranked True mx) = Dense ranks" by (simp add: rank_table_of_def)
  from dense_found [OF assms this, of n] this True show ?thesis by (simp add: rank_def)
next
  case False
  then obtain m where "fst (rank_table_of ranked False mx) = Sparse m" by (simp add: rank_table_of_def)
  from sparse_found [OF assms(1,2) this, of n] this False show ?thesis by (simp add: rank_def)
qed

subsection \<open>Sorted by distinct keys\<close>

lemma sort_key_less_iff:
  fixes k :: "'a \<Rightarrow> 'b::linorder"
  assumes "distinct xs" "inj_on k (set xs)" "i < length xs" "j < length xs"
  shows "i < j \<longleftrightarrow> k (sort_key k xs ! i) < k (sort_key k xs ! j)"
proof -
  have s: "sorted (map k (sort_key k xs))" by simp
  have "distinct (map k (sort_key k xs))" using assms(1,2) by (simp add: distinct_map)
  with s have "sorted_wrt (<) (map k (sort_key k xs))" by (simp add: strict_sorted_iff)
  then have lt: "k (sort_key k xs ! i) < k (sort_key k xs ! j)" if "i < j" "j < length xs" for i j
    using that sorted_wrt_nth_less [of "(<)" "map k (sort_key k xs)" i j] by simp
  show ?thesis using lt [of i j] lt [of j i] assms(3,4) by (metis less_asym' linorder_neqE_nat order_less_irrefl)
qed

subsection \<open>The tables of an index\<close>

definition book_key :: "(nat \<times> path) list \<Rightarrow> (path \<Rightarrow> book_place option) \<Rightarrow> order_kind \<Rightarrow> nat \<Rightarrow> bool \<times> bool \<times> nat \<times> nat \<times> nat" where
  "book_key ps pls kind n =
     (let pl = Option.bind (map_of ps n) pls;
          c = (case pl of None \<Rightarrow> 0 | Some p \<Rightarrow> catalogue_order p);
          g = (case pl of None \<Rightarrow> 0 | Some p \<Rightarrow> generation_order p)
      in (n \<noteq> 0, n = 0 \<or> pl = None,
          if n = 0 then (0, 0, 0) else case kind of Catalogue \<Rightarrow> (c, n, 0) | Generation \<Rightarrow> (g, c, n)))"

definition paths_ok :: "(nat \<times> path) list \<Rightarrow> bool" where
  "paths_ok ps \<longleftrightarrow> distinct (map fst ps) \<and> (\<forall>n\<in>set (map fst ps). n < u32_max)"

lemma numbered_numbers: "set (map snd (numbered_books ps pls)) = insert 0 (set (map fst ps))"
  by (auto simp: numbered_books_def image_iff) fastforce

lemma numbered_distinct:
  assumes "paths_ok ps"
  shows "distinct (map snd (numbered_books ps pls))"
proof -
  have "map snd (map (\<lambda>(n, p). (pls p, n)) (filter (\<lambda>(n, _). n \<noteq> 0) ps)) = filter (\<lambda>n. n \<noteq> 0) (map fst ps)"
    by (induction ps) auto
  then show ?thesis using assms by (auto simp: numbered_books_def paths_ok_def)
qed

lemma numbered_length: "paths_ok ps \<Longrightarrow> length (numbered_books ps pls) \<le> u32_max"
proof -
  assume p: "paths_ok ps"
  have "set (map snd (numbered_books ps pls)) \<subseteq> {0..<u32_max}"
    using p unfolding numbered_numbers by (auto simp: paths_ok_def)
  then have "card (set (map snd (numbered_books ps pls))) \<le> card {0..<u32_max}" by (intro card_mono) auto
  then show ?thesis using distinct_card [OF numbered_distinct [OF p], of pls] by simp
qed

lemma numbered_place:
  assumes "paths_ok ps" "(pl, n) \<in> set (numbered_books ps pls)"
  shows "pl = (if n = 0 then None else Option.bind (map_of ps n) pls)"
proof (cases "n = 0")
  case False
  with assms obtain p where "(n, p) \<in> set ps" "pl = pls p" by (auto simp: numbered_books_def)
  moreover have "distinct (map fst ps)" using assms(1) by (simp add: paths_ok_def)
  ultimately show ?thesis using False by simp
qed (use assms in \<open>auto simp: numbered_books_def\<close>)

text \<open>The code's two keys order as \<open>book_key\<close> does.\<close>

definition kind_key :: "order_kind \<Rightarrow> numbered \<Rightarrow> bool \<times> bool \<times> nat \<times> nat \<times> nat" where
  "kind_key kind x = (case kind of
      Catalogue \<Rightarrow> (case catalogue_key x of (a, b, c, d) \<Rightarrow> (a, b, c, d, 0)) | Generation \<Rightarrow> generation_key x)"

lemma kind_key_book_key:
  assumes "paths_ok ps" "x \<in> set (numbered_books ps pls)"
  shows "kind_key kind x = book_key ps pls kind (snd x)"
proof -
  obtain pl n where x: "x = (pl, n)" by fastforce
  then have pl: "pl = (if n = 0 then None else Option.bind (map_of ps n) pls)" using numbered_place assms by blast
  show ?thesis unfolding x pl
    by (cases kind; cases "n = 0") (simp_all add: kind_key_def book_key_def catalogue_key_def generation_key_def Let_def)
qed

lemma book_key_inj: "inj (book_key ps pls kind)"
  by (rule injI) (cases kind; auto simp: book_key_def Let_def split: if_splits option.splits)

lemma kind_key_inj: "inj_on (kind_key kind) (set (numbered_books ps pls))" if "paths_ok ps"
proof (rule inj_onI)
  fix x y assume xy: "x \<in> set (numbered_books ps pls)" "y \<in> set (numbered_books ps pls)" "kind_key kind x = kind_key kind y"
  then have "snd x = snd y" using kind_key_book_key [OF that] injD [OF book_key_inj] by metis
  moreover have "fst x = fst y" using numbered_place [OF that] xy(1,2) calculation by (metis prod.collapse)
  ultimately show "x = y" by (simp add: prod_eq_iff)
qed

lemma sort_key_catalogue: "sort_key catalogue_key xs = sort_key (kind_key Catalogue) xs"
proof -
  have "insort_key catalogue_key x xs = insort_key (kind_key Catalogue) x xs" for x xs
    by (induction xs) (auto simp: kind_key_def split: prod.splits)
  then show ?thesis by (induction xs) auto
qed

lemma sort_key_generation: "sort_key generation_key xs = sort_key (kind_key Generation) xs"
  by (simp add: kind_key_def [abs_def])

lemma build_tables_tables:
  "order_table (build_tables ps pls) kind =
     fst (rank_table_of
       (map snd (case kind of Catalogue \<Rightarrow> sort_key catalogue_key (numbered_books ps pls)
          | Generation \<Rightarrow> sort_key generation_key (sort_key catalogue_key (numbered_books ps pls))))
       (fold max (map snd (numbered_books ps pls)) 0 < DENSE_NUMBERS)
       (fold max (map snd (numbered_books ps pls)) 0))"
  by (cases kind) (simp_all add: build_tables_def order_table_def Let_def rank_table_of_def)

lemma build_tables_known: "paths_ok ps \<Longrightarrow> known (build_tables ps pls) = length (numbered_books ps pls)"
  using numbered_length [of ps pls] by (simp add: build_tables_def Let_def rank_table_of_def)

definition ranked_books :: "(nat \<times> path) list \<Rightarrow> (path \<Rightarrow> book_place option) \<Rightarrow> order_kind \<Rightarrow> numbered list" where
  "ranked_books ps pls kind = (case kind of Catalogue \<Rightarrow> sort_key (kind_key Catalogue) (numbered_books ps pls)
     | Generation \<Rightarrow> sort_key (kind_key Generation) (sort_key (kind_key Catalogue) (numbered_books ps pls)))"

lemma ranked_books_sort:
  "\<exists>xs. ranked_books ps pls kind = sort_key (kind_key kind) xs \<and> mset xs = mset (numbered_books ps pls)"
proof (cases kind)
  case Catalogue
  then show ?thesis by (intro exI [of _ "numbered_books ps pls"]) (simp add: ranked_books_def)
next
  case Generation
  then show ?thesis by (intro exI [of _ "sort_key (kind_key Catalogue) (numbered_books ps pls)"]) (simp add: ranked_books_def)
qed

lemma fold_max_le: "\<forall>n\<in>insert a (set ns). n \<le> fold max ns (a::nat)"
proof (induction ns arbitrary: a)
  case (Cons n ns)
  then show ?case by (metis (no_types, lifting) fold_simps(2) insertE insert_iff list.simps(15) max.bounded_iff)
qed simp

text \<open>The rank of a number, over the books in the order of the kind.\<close>

lemma rank_in_tables:
  assumes "paths_ok ps"
  shows "rank (order_table (build_tables ps pls) kind) (known (build_tables ps pls)) n =
    (case ranks_of (map snd (ranked_books ps pls kind)) n of
       Some r \<Rightarrow> r | None \<Rightarrow> min (length (numbered_books ps pls) + n) u32_max)"
proof -
  obtain xs where xs: "ranked_books ps pls kind = sort_key (kind_key kind) xs" "mset xs = mset (numbered_books ps pls)"
    using ranked_books_sort by blast
  have m: "mset (map snd (ranked_books ps pls kind)) = mset (map snd (numbered_books ps pls))" by (simp add: xs)
  have "distinct (map snd (ranked_books ps pls kind))" using m numbered_distinct [OF assms] mset_eq_imp_distinct_iff by metis
  moreover have "length (map snd (ranked_books ps pls kind)) \<le> u32_max"
    using m numbered_length [OF assms] mset_eq_length by (metis length_map)
  moreover have "\<forall>n\<in>set (map snd (ranked_books ps pls kind)). n \<le> fold max (map snd (numbered_books ps pls)) 0"
    using fold_max_le [of 0 "map snd (numbered_books ps pls)"] mset_eq_setD [OF m] by auto
  ultimately show ?thesis
    unfolding build_tables_tables build_tables_known [OF assms]
    using rank_table [of "map snd (ranked_books ps pls kind)"]
    by (cases kind) (simp_all add: ranked_books_def sort_key_catalogue sort_key_generation)
qed

lemma ranked_books_less:
  assumes "paths_ok ps" "i < length (ranked_books ps pls kind)" "j < length (ranked_books ps pls kind)"
  shows "i < j \<longleftrightarrow> book_key ps pls kind (snd (ranked_books ps pls kind ! i)) < book_key ps pls kind (snd (ranked_books ps pls kind ! j))"
proof -
  obtain xs where xs: "ranked_books ps pls kind = sort_key (kind_key kind) xs" "mset xs = mset (numbered_books ps pls)"
    using ranked_books_sort by blast
  have st: "set xs = set (numbered_books ps pls)" using xs(2) mset_eq_setD by blast
  have "distinct (numbered_books ps pls)" using numbered_distinct [OF assms(1)] by (simp add: distinct_map)
  then have "distinct xs" using xs(2) mset_eq_imp_distinct_iff by metis
  then have "i < j \<longleftrightarrow> kind_key kind (sort_key (kind_key kind) xs ! i) < kind_key kind (sort_key (kind_key kind) xs ! j)"
    using assms(2,3) kind_key_inj [OF assms(1)] by (intro sort_key_less_iff) (simp_all add: xs(1) st)
  moreover have "sort_key (kind_key kind) xs ! i \<in> set (numbered_books ps pls)" "sort_key (kind_key kind) xs ! j \<in> set (numbered_books ps pls)"
    using assms(2,3) st by (metis nth_mem set_sort xs(1))+
  ultimately show ?thesis using kind_key_book_key [OF assms(1)] by (simp add: xs(1))
qed

text \<open>The word: a rank and a line that do not overlap.\<close>

definition line_part :: "u64 \<Rightarrow> nat" where
  "line_part ident = unat ident mod 2 ^ 32"

lemma unat_key_in:
  assumes "rank table kn (unat (drop_bit 32 ident)) \<le> u32_max"
  shows "unat (key_in table kn ident) = rank table kn (unat (drop_bit 32 ident)) * 2 ^ 32 + line_part ident"
proof -
  let ?r = "rank table kn (unat (drop_bit 32 ident))"
  have mask: "(0xFFFFFFFF :: u64) = mask 32" by (simp add: mask_eq_exp_minus_1)
  have hi: "unat (push_bit 32 (word_of_nat ?r :: u64)) = ?r * 2 ^ 32"
  proof -
    have "unat (word_of_nat ?r :: u64) = ?r" using assms by (simp add: unat_of_nat take_bit_eq_mod)
    then have "unat (push_bit 32 (word_of_nat ?r :: u64)) = take_bit 64 (push_bit 32 ?r)"
      by (simp only: unsigned_push_bit_eq len_bit0 len_num1) simp
    then show ?thesis using assms by (simp add: take_bit_eq_mod push_bit_eq_mult)
  qed
  have lo: "unat (ident AND 0xFFFFFFFF) = line_part ident"
    unfolding mask take_bit_eq_mask [symmetric] unsigned_take_bit_eq by (simp add: take_bit_eq_mod line_part_def)
  have "unat (key_in table kn ident) = unat (push_bit 32 (word_of_nat ?r :: u64)) OR unat (ident AND 0xFFFFFFFF)"
    by (simp add: key_in_def unsigned_or_eq)
  also have "\<dots> = push_bit 32 ?r OR take_bit 32 (unat ident)"
    unfolding hi lo by (simp add: push_bit_eq_mult line_part_def take_bit_eq_mod)
  also have "\<dots> = push_bit 32 ?r + take_bit 32 (unat ident)"
    by (rule disjunctive_add_eq_or [symmetric]) (auto simp: bit_eq_iff bit_and_iff bit_push_bit_iff bit_take_bit_iff)
  finally show ?thesis by (simp add: push_bit_eq_mult line_part_def take_bit_eq_mod)
qed

lemma rank_bound:
  assumes "paths_ok ps"
  shows "rank (order_table (build_tables ps pls) kind) (known (build_tables ps pls)) n \<le> u32_max"
proof -
  obtain xs where xs: "ranked_books ps pls kind = sort_key (kind_key kind) xs" "mset xs = mset (numbered_books ps pls)"
    using ranked_books_sort by blast
  then have "length (ranked_books ps pls kind) = length (numbered_books ps pls)" by (metis length_sort mset_eq_length)
  then have "r \<le> u32_max" if "ranks_of (map snd (ranked_books ps pls kind)) n = Some r" for r
    using that numbered_length [OF assms, of pls] by (auto simp: ranks_of_def dest!: map_of_SomeD)
  then show ?thesis unfolding rank_in_tables [OF assms] by (auto split: option.splits)
qed

lemma key_parts_less:
  "a * 2 ^ 32 + x < b * 2 ^ 32 + y \<longleftrightarrow> a < b \<or> a = b \<and> x < (y::nat)" if "x < 2 ^ 32" "y < 2 ^ 32"
  using that by auto

definition number_part :: "u64 \<Rightarrow> nat" where
  "number_part ident = unat (drop_bit 32 ident)"

lemma unat_order_key:
  assumes "paths_ok ps"
  shows "unat (order_key (build_tables ps pls) kind ident) =
    (case ranks_of (map snd (ranked_books ps pls kind)) (number_part ident) of
       Some r \<Rightarrow> r | None \<Rightarrow> min (length (numbered_books ps pls) + number_part ident) u32_max) * 2 ^ 32 + line_part ident"
  unfolding order_key_def unat_key_in [OF rank_bound [OF assms]] number_part_def [symmetric] rank_in_tables [OF assms] ..

lemma ranks_known:
  assumes "paths_ok ps" "n \<in> insert 0 (set (map fst ps))"
  obtains r where "ranks_of (map snd (ranked_books ps pls kind)) n = Some r" "r < length (ranked_books ps pls kind)"
    "snd (ranked_books ps pls kind ! r) = n" "length (ranked_books ps pls kind) = length (numbered_books ps pls)"
proof -
  obtain xs where xs: "ranked_books ps pls kind = sort_key (kind_key kind) xs" "mset xs = mset (numbered_books ps pls)"
    using ranked_books_sort by blast
  have m: "mset (map snd (ranked_books ps pls kind)) = mset (map snd (numbered_books ps pls))" by (simp add: xs)
  have d: "distinct (map snd (ranked_books ps pls kind))" using m numbered_distinct [OF assms(1)] mset_eq_imp_distinct_iff by metis
  have "n \<in> set (map snd (ranked_books ps pls kind))" using assms(2) mset_eq_setD [OF m] numbered_numbers by metis
  then obtain r where r: "ranks_of (map snd (ranked_books ps pls kind)) n = Some r"
    using ranks_of_None by (metis not_Some_eq)
  then have "r < length (ranked_books ps pls kind)" "snd (ranked_books ps pls kind ! r) = n" using ranks_of_iff [OF d] by auto
  moreover have "length (ranked_books ps pls kind) = length (numbered_books ps pls)" using m by (metis length_map mset_eq_length)
  ultimately show thesis using that r by blast
qed

lemma ranks_unknown:
  assumes "n \<notin> insert 0 (set (map fst ps))"
  shows "ranks_of (map snd (ranked_books ps pls kind)) n = None"
proof -
  obtain xs where xs: "ranked_books ps pls kind = sort_key (kind_key kind) xs" "mset xs = mset (numbered_books ps pls)"
    using ranked_books_sort by blast
  have m: "mset (map snd (ranked_books ps pls kind)) = mset (map snd (numbered_books ps pls))" by (simp add: xs)
  from mset_eq_setD [OF m] assms show ?thesis unfolding ranks_of_None numbered_numbers by simp
qed

subsection \<open>What the sort keys promise\<close>

text \<open>C10: The sort keys of two documents of known books order them as promised: documents of no book
  first, then the books of the mapping by catalogue order (or by generation, then catalogue),
  then the books outside the mapping, ties by book number and within a book by line; whatever
  the representation of the tables.\<close>

theorem order_key_correct:
  assumes "paths_ok ps" "number_part a \<in> insert 0 (set (map fst ps))" "number_part b \<in> insert 0 (set (map fst ps))"
  shows "order_key (build_tables ps pls) kind a < order_key (build_tables ps pls) kind b \<longleftrightarrow>
    (book_key ps pls kind (number_part a), line_part a) < (book_key ps pls kind (number_part b), line_part b)"
proof -
  obtain i where i: "ranks_of (map snd (ranked_books ps pls kind)) (number_part a) = Some i" "i < length (ranked_books ps pls kind)"
    "snd (ranked_books ps pls kind ! i) = number_part a" using ranks_known [OF assms(1,2)] by metis
  obtain j where j: "ranks_of (map snd (ranked_books ps pls kind)) (number_part b) = Some j" "j < length (ranked_books ps pls kind)"
    "snd (ranked_books ps pls kind ! j) = number_part b" using ranks_known [OF assms(1,3)] by metis
  note less = ranked_books_less [OF assms(1) i(2) j(2), unfolded i(3) j(3)]
    ranked_books_less [OF assms(1) j(2) i(2), unfolded i(3) j(3)]
  have "order_key (build_tables ps pls) kind a < order_key (build_tables ps pls) kind b \<longleftrightarrow> i < j \<or> i = j \<and> line_part a < line_part b"
    unfolding word_less_nat_alt unat_order_key [OF assms(1)] i(1) j(1) option.case
    by (rule key_parts_less) (simp_all add: line_part_def)
  also have "i = j \<longleftrightarrow> book_key ps pls kind (number_part a) = book_key ps pls kind (number_part b)"
    using less i(3) j(3) by (metis less_irrefl linorder_neqE_nat)
  finally show ?thesis using less(1) by (auto simp: less_prod_def')
qed

text \<open>A book that the tables do not know, one written since they were built, comes after every
  book they know, and two such books by their numbers, as long as the ranks fit in 32 bits.\<close>

theorem unknown_books_last:
  assumes "paths_ok ps" "number_part b \<notin> insert 0 (set (map fst ps))"
  shows "(number_part a \<in> insert 0 (set (map fst ps)) \<longrightarrow>
      order_key (build_tables ps pls) kind a < order_key (build_tables ps pls) kind b)
    \<and> (number_part a \<notin> insert 0 (set (map fst ps)) \<and> number_part a < number_part b
        \<and> length (numbered_books ps pls) + number_part b \<le> u32_max \<longrightarrow>
      order_key (build_tables ps pls) kind a < order_key (build_tables ps pls) kind b)"
proof (intro conjI impI)
  assume "number_part a \<in> insert 0 (set (map fst ps))"
  then obtain i where i: "ranks_of (map snd (ranked_books ps pls kind)) (number_part a) = Some i" "i < length (ranked_books ps pls kind)"
    "length (ranked_books ps pls kind) = length (numbered_books ps pls)" using ranks_known [OF assms(1)] by metis
  show "order_key (build_tables ps pls) kind a < order_key (build_tables ps pls) kind b"
    unfolding word_less_nat_alt unat_order_key [OF assms(1)] i(1) ranks_unknown [OF assms(2)] option.case
    using i(2,3) numbered_length [OF assms(1), of pls] by (subst key_parts_less) (auto simp: line_part_def)
next
  assume a: "number_part a \<notin> insert 0 (set (map fst ps)) \<and> number_part a < number_part b
    \<and> length (numbered_books ps pls) + number_part b \<le> u32_max"
  show "order_key (build_tables ps pls) kind a < order_key (build_tables ps pls) kind b"
    unfolding word_less_nat_alt unat_order_key [OF assms(1)] ranks_unknown [OF assms(2)] ranks_unknown [OF conjunct1 [OF a]] option.case
    using a by (subst key_parts_less) (auto simp: line_part_def)
qed

theorem order_key_correct_witness:
  "order_key (build_tables [(1, ''x''), (2, ''y'')] [''x'' \<mapsto> \<lparr>catalogue_order = 5, generation_order = 2\<rparr>,
       ''y'' \<mapsto> \<lparr>catalogue_order = 3, generation_order = 2\<rparr>]) Generation 0x200000009
     < order_key (build_tables [(1, ''x''), (2, ''y'')] [''x'' \<mapsto> \<lparr>catalogue_order = 5, generation_order = 2\<rparr>,
       ''y'' \<mapsto> \<lparr>catalogue_order = 3, generation_order = 2\<rparr>]) Generation 0x100000000"
proof (subst order_key_correct)
  show "paths_ok [(1, ''x''), (2, ''y'')]" by (simp add: paths_ok_def)
qed (simp_all add: number_part_def line_part_def book_key_def)

theorem unknown_books_last_witness:
  "order_key (build_tables [(1, ''x'')] (\<lambda>_. None)) Catalogue 0x100000009
     < order_key (build_tables [(1, ''x'')] (\<lambda>_. None)) Catalogue 0x6300000000"
  using unknown_books_last [of "[(1, ''x'')]" "0x6300000000" "0x100000009" "\<lambda>_. None" Catalogue]
  by (simp add: paths_ok_def number_part_def)

text \<open>A saved mapping reads back as it was, its revision and every book's place, whatever the
  order of the hash map, as long as decoding inverts encoding; and the file does not depend on
  that order.\<close>

theorem mapping_round_trip:
  assumes "\<forall>f. decode (encode f) = Some f" "distinct (map fst (places m))"
  shows "revision (mapping_load decode (Some (mapping_save encode m))) = revision m
    \<and> map_of (places (mapping_load decode (Some (mapping_save encode m)))) = map_of (places m)
    \<and> (\<forall>m'. revision m' = revision m \<and> mset (places m') = mset (places m) \<longrightarrow> mapping_save encode m' = mapping_save encode m)"
proof -
  let ?entry = "\<lambda>(p, pl). \<lparr>file_path = p, entry_catalogue = catalogue_order pl, entry_generation = generation_order pl\<rparr>"
  let ?place = "\<lambda>e. (file_path e, \<lparr>catalogue_order = entry_catalogue e, generation_order = entry_generation e\<rparr>)"
  let ?key = "\<lambda>e. (entry_catalogue e, file_path e)"
  have inv: "?place (?entry x) = x" for x by (cases x) simp
  have st: "map ?place (map ?entry (places m)) = places m" by (simp add: inv o_def)
  have perm: "mset (map ?place (sort_key ?key (map ?entry (places m)))) = mset (places m)" (is "mset ?back = _")
    using arg_cong [OF st, of mset] by (simp only: mset_map mset_sort)
  have "mset (map fst ?back) = mset (map fst (places m))" using arg_cong [OF perm, of "image_mset fst"] by (simp only: mset_map)
  then have "distinct (map fst ?back)" using assms(2) mset_eq_imp_distinct_iff by blast
  then have read_back: "map_of ?back = map_of (places m)" using assms(2) mset_eq_setD [OF perm] by (intro map_of_same_set)
  have same: "mapping_save encode m' = mapping_save encode m"
    if "revision m' = revision m" "mset (places m') = mset (places m)" for m'
  proof -
    have inj: "inj_on ?key (set (map ?entry (places m)))"
      using assms(2) by (auto simp: inj_on_def distinct_map split: prod.splits) (metis Pair_inject fst_conv)+
    have ms: "mset (map ?entry (places m)) = mset (sort_key ?key (map ?entry (places m')))"
      using that(2) by (simp only: mset_map mset_sort)
    have "sort_key ?key (map ?entry (places m)) = sort_key ?key (map ?entry (places m'))"
      by (rule sort_key_inj_key_eq [OF ms inj sorted_sort_key])
    then show ?thesis unfolding mapping_save_def that(1) by (simp only:)
  qed
  have load: "revision (mapping_load decode (Some (mapping_save encode m))) = revision m"
    "places (mapping_load decode (Some (mapping_save encode m))) = ?back"
    unfolding mapping_load_def mapping_save_def option.case assms(1) [rule_format]
    by (simp_all only: order_file.select_convs order_mapping.select_convs)
  show ?thesis unfolding load read_back by (intro conjI allI impI refl) (elim conjE, rule same)
qed

definition two_places :: order_mapping where
  "two_places = \<lparr>revision = 3, places = [(''y'', \<lparr>catalogue_order = 2, generation_order = 0\<rparr>),
     (''x'', \<lparr>catalogue_order = 1, generation_order = 4\<rparr>)]\<rparr>"

theorem mapping_round_trip_witness:
  "map_of (places (mapping_load Some (Some (mapping_save (\<lambda>f. f) two_places)))) ''x''
   = Some \<lparr>catalogue_order = 1, generation_order = 4\<rparr>"
proof -
  have "map_of (places (mapping_load Some (Some (mapping_save (\<lambda>f. f) two_places)))) = map_of (places two_places)"
    by (rule conjunct1 [OF conjunct2 [OF mapping_round_trip]]) (simp_all add: two_places_def)
  then show ?thesis by (simp only:) (simp add: two_places_def)
qed

subsection \<open>Stamps of the books\<close>

text \<open>The common value of what was seen: nothing, one value, or 0 for a disagreement.\<close>

definition agreed :: "nat list \<Rightarrow> nat option" where
  "agreed vs = (case vs of [] \<Rightarrow> None | v # ws \<Rightarrow> Some (if \<forall>w\<in>set ws. w = v then v else 0))"

lemma agreed_cases: "agreed vs = (if vs = [] then None else Some (if \<forall>v\<in>set vs. v = hd vs then hd vs else 0))"
  by (cases vs) (auto simp: agreed_def)

lemma combine_agreed: "combine_fingerprint (agreed vs) (agreed ws) = agreed (vs @ ws)"
proof (cases "vs = [] \<or> ws = []")
  case True
  then show ?thesis by (auto simp: agreed_def combine_fingerprint_def split: list.splits option.splits)
next
  case False
  then obtain v vs' w ws' where c: "vs = v # vs'" "ws = w # ws'" by (meson neq_Nil_conv)
  show ?thesis
    by (cases "\<forall>x\<in>set vs'. x = v"; cases "\<forall>x\<in>set ws'. x = w"; cases "v = w")
      (auto simp: agreed_def c combine_fingerprint_def)
qed

lemma combine_agreed_one: "combine_fingerprint (agreed vs) val = agreed (vs @ (case val of None \<Rightarrow> [] | Some v \<Rightarrow> [v]))"
  using combine_agreed [of vs "case val of None \<Rightarrow> [] | Some v \<Rightarrow> [v]"]
  by (cases val) (simp_all add: agreed_def)

text \<open>The documents of a book in a segment, and the values of a column over documents.\<close>

definition book_docs :: "stamp_segment \<Rightarrow> nat list \<Rightarrow> path \<Rightarrow> nat list" where
  "book_docs sg docs p = filter (\<lambda>d. \<exists>col t. path_column sg = Some col \<and> col d = Some t \<and> term_string sg t = Some p) docs"

definition stamp_values :: "(nat \<Rightarrow> nat option) option \<Rightarrow> nat list \<Rightarrow> nat list" where
  "stamp_values c docs = List.map_filter (\<lambda>d. Option.bind c (\<lambda>c. c d)) docs"

definition docs_stamps :: "stamp_segment \<Rightarrow> nat list \<Rightarrow> partial_stamps" where
  "docs_stamps sg docs =
     \<lparr>documents = length docs,
      stamp_number = map_option book_number_of (List.find (\<lambda>_. True) (List.map_filter (ids sg) docs)),
      stamps = map (\<lambda>c. agreed (stamp_values c docs)) (stamp_columns sg)\<rparr>"

lemma stamp_values_snoc:
  "stamp_values c (docs @ [d]) = stamp_values c docs @ (case Option.bind c (\<lambda>c. c d) of None \<Rightarrow> [] | Some v \<Rightarrow> [v])"
  by (auto simp: stamp_values_def map_filter_def split: option.splits)

lemma map_filter_snoc: "List.map_filter f (xs @ [x]) = List.map_filter f xs @ (case f x of None \<Rightarrow> [] | Some v \<Rightarrow> [v])"
  by (auto simp: map_filter_def split: option.splits)

lemma find_True_append: "List.find (\<lambda>_. True) (xs @ ys) = (case List.find (\<lambda>_. True) xs of None \<Rightarrow> List.find (\<lambda>_. True) ys | Some x \<Rightarrow> Some x)"
  by (cases xs) auto

lemma docs_stamps_Nil: "length (stamp_columns sg) = 4 \<Longrightarrow> docs_stamps sg [] = stamps_default"
  by (simp add: docs_stamps_def stamps_default_def stamp_values_def map_filter_simps agreed_def map_replicate_const
      numeral_eq_Suc)

lemma docs_stamps_snoc:
  "docs_stamps sg (docs @ [d]) =
     \<lparr>documents = documents (docs_stamps sg docs) + 1,
      stamp_number = (case stamp_number (docs_stamps sg docs) of
          None \<Rightarrow> map_option book_number_of (ids sg d) | Some n \<Rightarrow> Some n),
      stamps = map (\<lambda>(seen, c). combine_fingerprint seen (Option.bind c (\<lambda>c. c d)))
        (zip (stamps (docs_stamps sg docs)) (stamp_columns sg))\<rparr>"
  by (auto simp: docs_stamps_def map_filter_snoc find_True_append stamp_values_snoc combine_agreed_one zip_map1 zip_same_conv_map
      split: option.splits)

definition some_docs :: "stamp_segment \<Rightarrow> nat list \<Rightarrow> partial_stamps option" where
  "some_docs sg ds = (if ds = [] then None else Some (docs_stamps sg ds))"

lemma collected_docs:
  assumes "length (stamp_columns sg) = 4" "path_column sg = Some col"
  shows "fold (collect_stamps sg) docs (\<lambda>_. None) t = some_docs sg (filter (\<lambda>d. col d = Some t) docs)"
proof (induction docs arbitrary: t rule: rev_induct)
  case (snoc d docs)
  show ?case
  proof (cases "col d")
    case None
    then have "collect_stamps sg d m = m" for m by (simp add: collect_stamps_def assms(2))
    with None snoc show ?thesis by simp
  next
    case (Some u)
    show ?thesis
    proof (cases "u = t")
      case True
      let ?ds = "filter (\<lambda>d. col d = Some t) docs"
      have start: "(case some_docs sg ?ds of None \<Rightarrow> stamps_default | Some b \<Rightarrow> b) = docs_stamps sg ?ds"
        using docs_stamps_Nil [OF assms(1)] by (simp add: some_docs_def)
      have "collect_stamps sg d (fold (collect_stamps sg) docs (\<lambda>_. None)) t = Some (docs_stamps sg (?ds @ [d]))"
        unfolding collect_stamps_def assms(2) option.case Some Let_def True snoc start docs_stamps_snoc by simp
      then show ?thesis by (simp add: Some True some_docs_def)
    next
      case False
      then have "collect_stamps sg d m t = m t" for m by (simp add: collect_stamps_def assms(2) Some Let_def)
      with False Some snoc show ?thesis by simp
    qed
  qed
qed (simp add: some_docs_def)

text \<open>A segment the collector reads without an error: four columns, and a dictionary without
  repetitions.\<close>

definition segment_ok :: "stamp_segment \<Rightarrow> bool" where
  "segment_ok sg \<longleftrightarrow> length (stamp_columns sg) = 4 \<and> readable sg
     \<and> (\<forall>t u p. term_string sg t = Some p \<longrightarrow> term_string sg u = Some p \<longrightarrow> t = u)"

definition segment_fruit :: "stamp_segment \<Rightarrow> nat list \<Rightarrow> nat list \<Rightarrow> (path \<Rightarrow> partial_stamps option) option" where
  "segment_fruit sg docs terms = harvest sg terms (fold (collect_stamps sg) docs (\<lambda>_. None))"

lemma harvest_fold:
  assumes "\<forall>t u p. term_string sg t = Some p \<longrightarrow> term_string sg u = Some p \<longrightarrow> t = u"
  shows "fold (\<lambda>t m. case (term_string sg t, found t) of (Some p, Some b) \<Rightarrow> m(p \<mapsto> b) | _ \<Rightarrow> m) terms (\<lambda>_. None) p
    = (if \<exists>t\<in>set terms. term_string sg t = Some p then found (THE t. term_string sg t = Some p) else None)"
proof (induction terms rule: rev_induct)
  case (snoc u terms)
  show ?case
  proof (cases "term_string sg u = Some p")
    case True
    then have the: "(THE t. term_string sg t = Some p) = u" using assms by blast
    show ?thesis using True snoc by (auto simp: the split: option.splits)
  next
    case False
    with snoc show ?thesis by (auto split: option.splits)
  qed
qed simp

lemma segment_fruit_exact:
  assumes "segment_ok sg" "set terms = dom (fold (collect_stamps sg) docs (\<lambda>_. None))"
  shows "segment_fruit sg docs terms = Some (\<lambda>p. some_docs sg (book_docs sg docs p))"
proof (cases "path_column sg")
  case None
  then show ?thesis by (simp add: segment_fruit_def harvest_def some_docs_def book_docs_def fun_eq_iff)
next
  case (Some col)
  let ?found = "fold (collect_stamps sg) docs (\<lambda>_. None)"
  have len: "length (stamp_columns sg) = 4" and inj: "\<forall>t u p. term_string sg t = Some p \<longrightarrow> term_string sg u = Some p \<longrightarrow> t = u"
    using assms(1) by (simp_all add: segment_ok_def)
  have "(if \<exists>t\<in>set terms. term_string sg t = Some p then ?found (THE t. term_string sg t = Some p) else None)
      = some_docs sg (book_docs sg docs p)" for p
  proof (cases "\<exists>t. term_string sg t = Some p")
    case True
    then obtain t where t: "term_string sg t = Some p" by blast
    then have the: "(THE t. term_string sg t = Some p) = t" using inj by blast
    have "filter (\<lambda>d. col d = Some t) docs = book_docs sg docs p"
      unfolding book_docs_def using t inj Some by (intro filter_cong) auto
    then have f: "?found t = some_docs sg (book_docs sg docs p)" using collected_docs [OF len Some] by simp
    show ?thesis
    proof (cases "t \<in> set terms")
      case False
      then have "?found t = None" using assms(2) by (simp add: domIff)
      with f show ?thesis by (auto simp: the)
    qed (use t f in \<open>auto simp: the\<close>)
  next
    case False
    then show ?thesis by (simp add: book_docs_def some_docs_def)
  qed
  moreover have "segment_fruit sg docs terms = Some (fold (\<lambda>t m. case (term_string sg t, ?found t) of
      (Some p, Some b) \<Rightarrow> m(p \<mapsto> b) | _ \<Rightarrow> m) terms (\<lambda>_. None))"
    unfolding segment_fruit_def harvest_def using assms(1) Some by (simp only: segment_ok_def) simp
  ultimately show ?thesis by (simp only: harvest_fold [OF inj, abs_def])
qed

text \<open>The sums over segments, each with its live documents.\<close>

definition min_of :: "nat list \<Rightarrow> nat option" where
  "min_of ns = (if ns = [] then None else Some (Min (set ns)))"

definition seg_numbers :: "(stamp_segment \<times> nat list) list \<Rightarrow> path \<Rightarrow> nat list" where
  "seg_numbers segs p = List.map_filter (\<lambda>(sg, docs). stamp_number (docs_stamps sg (book_docs sg docs p))) segs"

definition seg_values :: "(stamp_segment \<times> nat list) list \<Rightarrow> path \<Rightarrow> nat \<Rightarrow> nat list" where
  "seg_values segs p k = concat (map (\<lambda>(sg, docs). stamp_values (stamp_columns sg ! k) (book_docs sg docs p)) segs)"

definition total_stamps :: "(stamp_segment \<times> nat list) list \<Rightarrow> path \<Rightarrow> partial_stamps" where
  "total_stamps segs p =
     \<lparr>documents = sum_list (map (\<lambda>(sg, docs). length (book_docs sg docs p)) segs),
      stamp_number = min_of (seg_numbers segs p),
      stamps = map (\<lambda>k. agreed (seg_values segs p k)) [0..<4]\<rparr>"

lemma min_of_snoc: "min_of (ns @ [n]) = Some (case min_of ns of None \<Rightarrow> n | Some m \<Rightarrow> min m n)"
  by (simp add: min_of_def min.commute)

lemma total_snoc:
  assumes "length (stamp_columns sg) = 4"
  shows "stamps_merge (total_stamps segs p) (docs_stamps sg (book_docs sg docs p)) = total_stamps (segs @ [(sg, docs)]) p"
proof -
  let ?ds = "book_docs sg docs p"
  have "stamps (stamps_merge (total_stamps segs p) (docs_stamps sg ?ds)) = stamps (total_stamps (segs @ [(sg, docs)]) p)"
    by (rule nth_equalityI)
      (simp_all add: stamps_merge_def total_stamps_def docs_stamps_def assms combine_agreed seg_values_def)
  moreover have "stamp_number (stamps_merge (total_stamps segs p) (docs_stamps sg ?ds)) = stamp_number (total_stamps (segs @ [(sg, docs)]) p)"
    by (cases "stamp_number (docs_stamps sg ?ds)"; cases "min_of (seg_numbers segs p)")
      (simp_all add: stamps_merge_def total_stamps_def seg_numbers_def map_filter_snoc min_of_snoc)
  moreover have "documents (stamps_merge (total_stamps segs p) (docs_stamps sg ?ds)) = documents (total_stamps (segs @ [(sg, docs)]) p)"
    by (simp add: stamps_merge_def total_stamps_def docs_stamps_def)
  ultimately show ?thesis by (intro partial_stamps.equality) simp_all
qed

lemma total_empty:
  assumes "book_docs sg docs p = []"
  shows "total_stamps (segs @ [(sg, docs)]) p = total_stamps segs p"
proof -
  have "docs_stamps sg [] = \<lparr>documents = 0, stamp_number = None, stamps = map (\<lambda>_. None) (stamp_columns sg)\<rparr>"
    by (simp add: docs_stamps_def map_filter_simps stamp_values_def agreed_def)
  then show ?thesis
    by (simp add: total_stamps_def seg_numbers_def map_filter_snoc seg_values_def assms stamp_values_def map_filter_simps)
qed

lemma total_default: "\<forall>(sg, docs)\<in>set segs. book_docs sg docs p = [] \<Longrightarrow> total_stamps segs p = stamps_default"
proof (induction segs rule: rev_induct)
  case Nil
  then show ?case
    by (simp add: total_stamps_def stamps_default_def seg_numbers_def seg_values_def map_filter_simps min_of_def agreed_def upt_rec)
next
  case (snoc x segs)
  obtain sg docs where x: "x = (sg, docs)" by fastforce
  from snoc show ?case by (simp add: x total_empty)
qed

lemma merge_segments_snoc:
  "merge_segments m (fs @ [f]) =
     (case merge_segments m fs of None \<Rightarrow> None | Some m' \<Rightarrow> (case f of None \<Rightarrow> None | Some sg \<Rightarrow> Some (merge_books m' sg)))"
proof (induction fs arbitrary: m)
  case Nil
  then show ?case by (cases f) simp_all
next
  case (Cons g fs)
  then show ?case by (cases g) simp_all
qed

lemma merge_segments_total:
  assumes "\<forall>(sg, docs)\<in>set segs. length (stamp_columns sg) = 4"
  shows "merge_segments (\<lambda>_. None) (map (\<lambda>(sg, docs). Some (\<lambda>p. some_docs sg (book_docs sg docs p))) segs)
    = Some (\<lambda>p. if \<forall>(sg, docs)\<in>set segs. book_docs sg docs p = [] then None else Some (total_stamps segs p))"
  using assms
proof (induction segs rule: rev_induct)
  case (snoc x segs)
  obtain sg docs where x: "x = (sg, docs)" by fastforce
  have len: "length (stamp_columns sg) = 4" using snoc.prems by (simp add: x)
  have merged: "merge_books (\<lambda>p. if \<forall>(sg, docs)\<in>set segs. book_docs sg docs p = [] then None else Some (total_stamps segs p))
      (\<lambda>p. some_docs sg (book_docs sg docs p)) p
    = (if \<forall>(sg, docs)\<in>set (segs @ [x]). book_docs sg docs p = [] then None else Some (total_stamps (segs @ [x]) p))" for p
  proof (cases "book_docs sg docs p = []")
    case True
    then show ?thesis by (simp add: merge_books_def some_docs_def x total_empty)
  next
    case False
    then show ?thesis
      using total_snoc [OF len, of segs p docs] total_default [of segs p]
      by (cases "\<forall>(sg, docs)\<in>set segs. book_docs sg docs p = []") (auto simp: merge_books_def some_docs_def x)
  qed
  have ih: "merge_segments (\<lambda>_. None) (map (\<lambda>(sg, docs). Some (\<lambda>p. some_docs sg (book_docs sg docs p))) segs)
    = Some (\<lambda>p. if \<forall>(sg, docs)\<in>set segs. book_docs sg docs p = [] then None else Some (total_stamps segs p))"
    using snoc by simp
  show ?case
    unfolding map_append list.map merge_segments_snoc ih x prod.case option.case
    by (rule arg_cong [of _ _ Some], rule ext, rule merged [unfolded x])
qed simp

lemma merge_fruits_total:
  assumes "\<forall>(sg, docs, terms)\<in>set segs. segment_ok sg \<and> set terms = dom (fold (collect_stamps sg) docs (\<lambda>_. None))"
  defines "ds \<equiv> map (\<lambda>(sg, docs, terms). (sg, docs)) segs"
  shows "merge_stamp_fruits (map (\<lambda>(sg, docs, terms). segment_fruit sg docs terms) segs) = Some (\<lambda>p.
     if \<forall>(sg, docs)\<in>set ds. book_docs sg docs p = [] then None else Some (finish_stamps (total_stamps ds p)))"
proof -
  have "map (\<lambda>(sg, docs, terms). segment_fruit sg docs terms) segs
      = map (\<lambda>(sg, docs). Some (\<lambda>p. some_docs sg (book_docs sg docs p))) ds"
    unfolding ds_def map_map by (rule map_cong) (use assms(1) in \<open>auto simp: segment_fruit_exact\<close>)
  moreover have "\<forall>(sg, docs)\<in>set ds. length (stamp_columns sg) = 4"
    using assms(1) by (auto simp: ds_def segment_ok_def)
  ultimately show ?thesis
    by (simp add: merge_stamp_fruits_def merge_segments_total fun_eq_iff if_distrib [of "map_option _"])
qed

text \<open>C11: The stamps collector counts, per book and over all segments, its live documents, takes the
  lowest number any segment gives it, and of each stamp column the value all its documents
  share, 0 when there is none or they disagree, however the documents are divided into
  segments and whatever order the hash maps are read in.\<close>

theorem stamps_exact:
  assumes "\<forall>(sg, docs, terms)\<in>set segs. segment_ok sg \<and> set terms = dom (fold (collect_stamps sg) docs (\<lambda>_. None))"
  defines "ds \<equiv> map (\<lambda>(sg, docs, terms). (sg, docs)) segs"
  shows "merge_stamp_fruits (map (\<lambda>(sg, docs, terms). segment_fruit sg docs terms) segs) = Some (\<lambda>p.
     if \<forall>(sg, docs)\<in>set ds. book_docs sg docs p = [] then None
     else Some \<lparr>cs_number = (case min_of (seg_numbers ds p) of Some n \<Rightarrow> if n \<le> u32_max then n else 0 | None \<Rightarrow> 0),
                cs_documents = sum_list (map (\<lambda>(sg, docs). length (book_docs sg docs p)) ds),
                cs_stamps = map (\<lambda>k. case agreed (seg_values ds p k) of None \<Rightarrow> 0 | Some v \<Rightarrow> v) [0..<4]\<rparr>)"
  unfolding ds_def merge_fruits_total [OF assms(1)] by (simp add: finish_stamps_def total_stamps_def o_def fun_eq_iff)

definition one_segment :: stamp_segment where
  "one_segment = \<lparr>path_column = Some (\<lambda>_. Some 0), ids = (\<lambda>d. Some (2 ^ 32 * 7 + d)),
     stamp_columns = [Some (\<lambda>_. Some 5), Some Some, None, Some (\<lambda>_. None)],
     term_string = [0 \<mapsto> ''a''], readable = True\<rparr>"

theorem stamps_exact_witness:
  "map_option (\<lambda>r. r ''a'') (merge_stamp_fruits [segment_fruit one_segment [2, 3] [0]])
     = Some (Some \<lparr>cs_number = 7, cs_documents = 2, cs_stamps = [5, 0, 0, 0]\<rparr>)"
proof -
  let ?segs = "[(one_segment, [2, 3], [0])]"
  have "segment_ok one_segment" by (auto simp: segment_ok_def one_segment_def split: if_splits)
  moreover have "set [0] = dom (fold (collect_stamps one_segment) [2, 3] (\<lambda>_. None))"
    by (simp add: collect_stamps_def one_segment_def dom_def Let_def)
  ultimately have ok: "\<forall>(sg, docs, terms)\<in>set ?segs.
      segment_ok sg \<and> set terms = dom (fold (collect_stamps sg) docs (\<lambda>_. None))" by simp
  have docs: "book_docs one_segment [2, 3] ''a'' = [2, 3]" by (simp add: book_docs_def one_segment_def)
  have numbers: "seg_numbers [(one_segment, [2, 3])] ''a'' = [7]"
    unfolding seg_numbers_def docs_stamps_def
    by (simp add: docs map_filter_simps) (simp add: one_segment_def book_number_of_def)
  have "map (\<lambda>k. agreed (seg_values [(one_segment, [2, 3])] ''a'' k)) [0..<4] = [Some 5, Some 0, None, None]"
    by (simp add: seg_values_def docs stamp_values_def map_filter_simps upt_rec) (simp add: one_segment_def agreed_def)
  moreover have list: "[segment_fruit one_segment [2, 3] [0]] = map (\<lambda>(sg, docs, terms). segment_fruit sg docs terms) ?segs" by simp
  ultimately show ?thesis unfolding list stamps_exact [OF ok] by (simp add: docs numbers min_of_def upt_rec)
qed

end
