(* ===== verification/Grouping.thy ===== *)
theory Grouping
  imports BookOrder "HOL-Library.AList"
begin

section \<open>Grouped results\<close>

text \<open>
  \<^verbatim>\<open>GroupCollector\<close> of \<^verbatim>\<open>api/search_engine.rs\<close>: all matching documents fall into groups (the
  documents of one section, or of one text); of each group the collector keeps the number of
  its documents, the best one and the next best, up to a cap. The groups live in one map
  for the whole search, bounded in size: when it is full, the worst group gives way to a
  better one. The segments are scanned by several threads; each fills a buffer and flushes
  it into the shared map under a lock, so the documents arrive in any interleaving.

  Proved: the map always holds the best groups, each with its true best document, in whatever
  order the documents come; and when the cap is not exceeded, the page of groups is
  exactly the sorted one. A \<^verbatim>\<open>HashMap\<close> is an association list in any order, a \<^verbatim>\<open>BTreeSet\<close> its
  ascending list. The counter of a group is below 2^32, as document numbers are.
\<close>

type_synonym address = "nat \<times> nat"
type_synonym group_key = "nat \<times> u64"

text \<open>\<^verbatim>\<open>GroupEntry\<close>: \<open>(sort_val, tie, address, id)\<close>.\<close>

type_synonym group_entry = "u64 \<times> u64 \<times> address \<times> u64"

definition entry_rank :: "group_entry \<Rightarrow> u64 \<times> u64" where
  "entry_rank e = (fst e, fst (snd e))"

definition MERGED_SIBLINGS_CAP :: nat where
  "MERGED_SIBLINGS_CAP = 10"

definition GROUP_COLLECTOR_MAX_GROUPS :: nat where
  "GROUP_COLLECTOR_MAX_GROUPS = 50000"

subsection \<open>One group\<close>

record group_acc =
  acc_count :: nat
  acc_best :: group_entry
  acc_siblings :: "group_entry list"

definition acc_new :: "group_entry \<Rightarrow> group_acc" where
  "acc_new e = \<lparr>acc_count = 1, acc_best = e, acc_siblings = []\<rparr>"

definition insert_capped :: "group_entry list \<Rightarrow> group_entry \<Rightarrow> group_entry list" where
  "insert_capped sibs e =
     (let pos = partition_point (\<lambda>s. entry_rank s \<le> entry_rank e) sibs
      in if pos < MERGED_SIBLINGS_CAP
         then take MERGED_SIBLINGS_CAP (take pos sibs @ e # drop pos sibs)
         else sibs)"

definition acc_push :: "group_entry \<Rightarrow> group_acc \<Rightarrow> group_acc" where
  "acc_push e acc =
     (let (b, other) = (if entry_rank e < entry_rank (acc_best acc) then (e, acc_best acc) else (acc_best acc, e))
      in \<lparr>acc_count = acc_count acc + 1, acc_best = b, acc_siblings = insert_capped (acc_siblings acc) other\<rparr>)"

subsection \<open>The bounded map\<close>

type_synonym best_key = "u64 \<times> u64 \<times> group_key"

record bounded_groups =
  groups :: "(group_key \<times> group_acc) list"
  by_best :: "best_key list"
  truncated :: bool

definition groups_new :: bounded_groups where
  "groups_new = \<lparr>groups = [], by_best = [], truncated = False\<rparr>"

definition best_of :: "group_key \<Rightarrow> group_acc \<Rightarrow> best_key" where
  "best_of k acc = (fst (acc_best acc), fst (snd (acc_best acc)), k)"

definition insert_group :: "group_key \<Rightarrow> group_acc \<Rightarrow> bounded_groups \<Rightarrow> bounded_groups" where
  "insert_group k acc b =
     (let best = best_of k acc
      in if GROUP_COLLECTOR_MAX_GROUPS \<le> length (groups b)
         then (let worst = last (by_best b)
               in if worst \<le> best then b\<lparr>truncated := True\<rparr>
                  else \<lparr>groups = AList.update k acc (AList.delete (snd (snd worst)) (groups b)),
                        by_best = insort_insert best (remove1 worst (by_best b)), truncated = True\<rparr>)
         else b\<lparr>groups := AList.update k acc (groups b), by_best := insort_insert best (by_best b)\<rparr>)"

definition add_entry :: "group_key \<Rightarrow> group_entry \<Rightarrow> bounded_groups \<Rightarrow> bounded_groups" where
  "add_entry k e b =
     (case map_of (groups b) k of
        Some acc \<Rightarrow>
          (let old_best = best_of k acc; acc' = acc_push e acc; new_best = best_of k acc'
           in b\<lparr>groups := AList.update k acc' (groups b),
                by_best := (if new_best \<noteq> old_best then insort_insert new_best (remove1 old_best (by_best b))
                            else by_best b)\<rparr>)
      | None \<Rightarrow> insert_group k (acc_new e) b)"

subsection \<open>The collector\<close>

datatype result_grouping = SameSection | IdenticalText

datatype group_sort = Book order_tables order_kind | ScoreDesc order_tables

text \<open>A segment: its number and its columns. \<open>key_column\<close> is \<^verbatim>\<open>GroupKeyColumn::first\<close> for the
  mode.\<close>

record group_segment =
  seg_ord :: nat
  id_col :: "nat \<Rightarrow> u64 option"
  key_col :: "nat \<Rightarrow> u64 option"

definition group_of_doc ::
  "result_grouping \<Rightarrow> group_sort \<Rightarrow> group_segment \<Rightarrow> nat \<times> 32 word \<Rightarrow> group_key \<times> group_entry" where
  "group_of_doc mode srt sg = (\<lambda>(doc, score_bits).
     (let ident = (case id_col sg doc of None \<Rightarrow> 0 | Some i \<Rightarrow> i);
          (sort_val, tie) = (case srt of
             Book tables kind \<Rightarrow> (case column_first (id_col sg) tables kind doc of None \<Rightarrow> - 1 | Some k \<Rightarrow> k, ident)
           | ScoreDesc tables \<Rightarrow> (ucast (NOT score_bits), order_key tables Catalogue ident));
          k = (case mode of
             SameSection \<Rightarrow> (0, case key_col sg doc of None \<Rightarrow> ident | Some s \<Rightarrow> s)
           | IdenticalText \<Rightarrow>
               (let hash = (case key_col sg doc of None \<Rightarrow> 0 | Some h \<Rightarrow> h)
                in if hash = 0 then (2, ident) else (1, hash)))
      in (k, (sort_val, tie, (seg_ord sg, doc), ident))))"

definition GROUP_FLUSH_BUFFER :: nat where
  "GROUP_FLUSH_BUFFER = 4096"

text \<open>The shared accumulation, and the buffers of the segments being scanned.\<close>

record grouping =
  raw_total :: nat
  shared :: bounded_groups
  buffers :: "nat \<Rightarrow> (group_key \<times> group_entry) list"

definition grouping_new :: grouping where
  "grouping_new = \<lparr>raw_total = 0, shared = groups_new, buffers = (\<lambda>_. [])\<rparr>"

definition flush :: "nat \<Rightarrow> grouping \<Rightarrow> grouping" where
  "flush seg g =
     (let buf = buffers g seg
      in if buf = [] then g
         else \<lparr>raw_total = saturating_add u32_max (raw_total g) (length buf),
               shared = fold (\<lambda>(k, e). add_entry k e) buf (shared g),
               buffers = (buffers g)(seg := [])\<rparr>)"

datatype group_event = Collect group_segment "nat \<times> 32 word" | Harvest nat

definition group_event_step :: "result_grouping \<Rightarrow> group_sort \<Rightarrow> group_event \<Rightarrow> grouping \<Rightarrow> grouping" where
  "group_event_step mode srt ev g =
     (case ev of
        Collect sg hit \<Rightarrow>
          (let g1 = g\<lparr>buffers := (buffers g)(seg_ord sg := buffers g (seg_ord sg) @ [group_of_doc mode srt sg hit])\<rparr>
           in if GROUP_FLUSH_BUFFER \<le> length (buffers g1 (seg_ord sg)) then flush (seg_ord sg) g1 else g1)
      | Harvest seg \<Rightarrow> flush seg g)"

subsection \<open>The page\<close>

record grouped_rep =
  rep_id :: u64
  rep_address :: address
  rep_count :: nat
  rep_siblings :: "address list"

record grouped_page =
  reps :: "grouped_rep list"
  group_count :: nat
  page_raw_total :: nat
  page_truncated :: bool

definition rep_of :: "group_acc \<Rightarrow> grouped_rep" where
  "rep_of acc = \<lparr>rep_id = snd (snd (snd (acc_best acc))), rep_address = fst (snd (snd (acc_best acc))),
     rep_count = acc_count acc, rep_siblings = map (\<lambda>s. fst (snd (snd s))) (acc_siblings acc)\<rparr>"

definition finalize_grouped :: "grouping \<Rightarrow> nat \<Rightarrow> nat \<Rightarrow> grouped_page" where
  "finalize_grouped g limit offset =
     \<lparr>reps = map rep_of (take limit (drop offset (sort_key (\<lambda>acc. entry_rank (acc_best acc)) (map snd (groups (shared g)))))),
      group_count = length (groups (shared g)) mod 2 ^ 32,
      page_raw_total = raw_total g, page_truncated = truncated (shared g)\<rparr>"

definition page_slice :: "grouped_page \<Rightarrow> nat \<Rightarrow> nat \<Rightarrow> grouped_page" where
  "page_slice page limit offset = page\<lparr>reps := take limit (drop offset (reps page))\<rparr>"

text \<open>\<^verbatim>\<open>collect_grouped\<close> past the cache: all groups in a page, of which the asked ones are cut.\<close>

definition collect_grouped ::
  "result_grouping \<Rightarrow> group_sort \<Rightarrow> group_event list \<Rightarrow> nat \<Rightarrow> nat \<Rightarrow> grouped_page" where
  "collect_grouped mode srt evs limit offset =
     page_slice (finalize_grouped (fold (group_event_step mode srt) evs grouping_new) u32_max 0) limit offset"

subsection \<open>The best n of a set\<close>

definition top_of :: "nat \<Rightarrow> 'a::linorder set \<Rightarrow> 'a set \<Rightarrow> bool" where
  "top_of n T S \<longleftrightarrow> T \<subseteq> S \<and> finite S \<and> card T = min n (card S) \<and> (\<forall>t\<in>T. \<forall>s\<in>S - T. t < s)"

lemma top_of_all: "finite S \<Longrightarrow> card S \<le> n \<Longrightarrow> top_of n T S \<Longrightarrow> T = S"
  by (rule card_subset_eq) (simp_all add: top_of_def)

lemma card_swap: "finite A \<Longrightarrow> y \<in> A \<Longrightarrow> x \<notin> A - {y} \<Longrightarrow> card (insert x (A - {y})) = card A"
  by (subst card_insert_disjoint) (auto simp only: finite_Diff card_Suc_Diff1)

lemma top_of_finite: "top_of n T S \<Longrightarrow> finite T"
  by (auto simp: top_of_def intro: finite_subset)

lemma top_insert_room:
  assumes "top_of n T S" "x \<notin> S" "card T < n"
  shows "top_of n (insert x T) (insert x S)"
proof -
  have "card S < n" "finite S" using assms(1,3) by (auto simp: top_of_def)
  moreover have "T = S" using assms(1) calculation top_of_all [of S n T] by simp
  ultimately show ?thesis using assms(2) by (simp add: top_of_def)
qed

lemma top_insert_worse:
  assumes "top_of n T S" "x \<notin> S" "card T = n" "\<forall>t\<in>T. t < x"
  shows "top_of n T (insert x S)"
  using assms by (auto simp: top_of_def)

lemma top_insert_better:
  assumes "top_of n T S" "x \<notin> S" "card T = n" "w \<in> T" "\<forall>t\<in>T. t \<le> w" "x < w"
  shows "top_of n (insert x (T - {w})) (insert x S)"
proof -
  have f: "finite T" using top_of_finite assms(1) .
  have "x \<notin> T" using assms(1,2) by (auto simp: top_of_def)
  then have "card (insert x (T - {w})) = n" using assms(3,4) f card_swap [of T w x] by simp
  moreover have "n \<le> card S" "finite S" using assms(1,3) by (auto simp: top_of_def)
  then have "n \<le> card (insert x S)" by (simp add: card_insert_if)
  moreover have "t < s" if "t \<in> insert x (T - {w})" "s \<in> insert x S - insert x (T - {w})" for t s
  proof (cases "s = w")
    case True
    then show ?thesis using that assms(5,6) by (auto simp: order_less_le)
  next
    case False
    then have "s \<in> S - T" using that by auto
    then have "w < s" using assms(1,4) by (simp add: top_of_def)
    then show ?thesis using that(1) assms(5,6) by (auto intro: le_less_trans less_trans)
  qed
  ultimately show ?thesis using assms(1) by (auto simp: top_of_def)
qed

lemma top_decrease:
  assumes "top_of n T S" "y \<in> T" "x \<le> y" "x \<notin> S - {y}"
  shows "top_of n (insert x (T - {y})) (insert x (S - {y}))"
proof -
  have f: "finite T" "finite S" "y \<in> S" using top_of_finite assms(1,2) by (auto simp: top_of_def)
  have "x \<notin> T - {y}" using assms(1,4) by (auto simp: top_of_def)
  then have "card (insert x (T - {y})) = card T" using assms(2) f(1) by (intro card_swap)
  moreover have "card (insert x (S - {y})) = card S" using assms(4) f by (intro card_swap)
  moreover have "t < s" if "t \<in> insert x (T - {y})" "s \<in> insert x (S - {y}) - insert x (T - {y})" for t s
  proof -
    have s: "s \<in> S - T" using that by auto
    then have "y < s" using assms(1,2) by (simp add: top_of_def)
    then show ?thesis using that(1) assms(1,3) s by (auto simp: top_of_def)
  qed
  ultimately show ?thesis using assms(1) f by (auto simp: top_of_def)
qed

lemma top_remove_rest:
  assumes "top_of n T S" "y \<in> S - T"
  shows "top_of n T (S - {y})" "card T = n"
proof -
  have f: "finite S" "T \<subseteq> S - {y}" using assms by (auto simp: top_of_def)
  then have "card T < card S" using assms(2) by (metis DiffD1 card_Diff1_less card_mono finite_Diff le_less_trans)
  then show n: "card T = n" using assms(1) by (auto simp: top_of_def)
  have "card T \<le> card (S - {y})" using f by (simp add: card_mono)
  then show "top_of n T (S - {y})" using assms n f by (auto simp: top_of_def)
qed

subsection \<open>The groups of a sequence of documents\<close>

type_synonym grouped_docs = "(group_key \<times> group_entry) list"

definition entries_of :: "group_key \<Rightarrow> grouped_docs \<Rightarrow> group_entry list" where
  "entries_of k es = map snd (filter (\<lambda>x. fst x = k) es)"

definition keys_of :: "grouped_docs \<Rightarrow> group_key set" where
  "keys_of es = fst ` set es"

lemma keys_of_simps [simp]: "keys_of [] = {}" "keys_of (es @ [x]) = insert (fst x) (keys_of es)" "finite (keys_of es)"
  by (simp_all add: keys_of_def)

definition group_best :: "grouped_docs \<Rightarrow> group_key \<Rightarrow> u64 \<times> u64" where
  "group_best es k = Min (entry_rank ` set (entries_of k es))"

definition best_key_of :: "u64 \<times> u64 \<Rightarrow> group_key \<Rightarrow> best_key" where
  "best_key_of r k = (fst r, snd r, k)"

definition all_best :: "grouped_docs \<Rightarrow> best_key set" where
  "all_best es = (\<lambda>k. best_key_of (group_best es k) k) ` keys_of es"

lemma best_of_key: "best_of k acc = best_key_of (entry_rank (acc_best acc)) k"
  by (simp add: best_of_def best_key_of_def entry_rank_def)

lemma best_key_of_eq [simp]: "best_key_of r k = best_key_of r' k' \<longleftrightarrow> r = r' \<and> k = k'"
  by (auto simp: best_key_of_def prod_eq_iff)

lemma best_key_of_key [simp]: "snd (snd (best_key_of r k)) = k"
  by (simp add: best_key_of_def)

lemma best_key_of_le: "best_key_of r k \<le> best_key_of r' k \<longleftrightarrow> r \<le> r'"
  by (cases r; cases r') (auto simp: best_key_of_def less_eq_prod_def)

lemma entries_of_snoc: "entries_of k' (es @ [(k, e)]) = entries_of k' es @ (if k' = k then [e] else [])"
  by (simp add: entries_of_def)

lemma entries_of_empty: "entries_of k es = [] \<longleftrightarrow> k \<notin> keys_of es"
  by (force simp: entries_of_def filter_empty_conv keys_of_def)

lemma group_best_snoc:
  "group_best (es @ [(k, e)]) k' =
     (if k' = k then if k \<in> keys_of es then min (group_best es k) (entry_rank e) else entry_rank e
      else group_best es k')"
proof (cases "entries_of k es = []")
  case True
  then have "k \<notin> keys_of es" using entries_of_empty by blast
  with True show ?thesis by (simp add: group_best_def entries_of_snoc)
next
  case False
  then have "k \<in> keys_of es" using entries_of_empty by blast
  with False show ?thesis by (simp add: group_best_def entries_of_snoc min.commute)
qed

lemma all_best_snoc:
  "all_best (es @ [(k, e)]) =
     insert (best_key_of (group_best (es @ [(k, e)]) k) k) (all_best es - {best_key_of (group_best es k) k})"
  if "k \<in> keys_of es"
  using that by (auto simp: all_best_def group_best_snoc)

lemma all_best_snoc_new:
  "all_best (es @ [(k, e)]) = insert (best_key_of (entry_rank e) k) (all_best es)" if "k \<notin> keys_of es"
proof -
  have gb: "group_best (es @ [(k, e)]) k' = group_best es k'" if "k' \<in> keys_of es" for k'
    using that \<open>k \<notin> keys_of es\<close> by (auto simp: group_best_snoc)
  have "(\<lambda>k'. best_key_of (group_best (es @ [(k, e)]) k') k') ` keys_of es = all_best es"
    unfolding all_best_def by (rule image_cong) (simp_all add: gb)
  then show ?thesis using that by (simp add: all_best_def group_best_snoc)
qed

lemma card_all_best: "card (all_best es) = card (keys_of es)"
  unfolding all_best_def by (rule card_image) (auto simp: inj_on_def)

lemma all_best_key: "x \<in> all_best es \<Longrightarrow> snd (snd x) = k \<Longrightarrow> x = best_key_of (group_best es k) k \<and> k \<in> keys_of es"
  by (auto simp: all_best_def best_key_of_def)

subsection \<open>The map is an index\<close>

definition index_key :: "group_key \<times> group_acc \<Rightarrow> best_key" where
  "index_key x = best_of (fst x) (snd x)"

definition groups_ok :: "bounded_groups \<Rightarrow> bool" where
  "groups_ok b \<longleftrightarrow> distinct (map fst (groups b)) \<and> sorted (by_best b) \<and> distinct (by_best b)
     \<and> set (by_best b) = index_key ` set (groups b)"

lemma index_key_inj: "distinct (map fst gs) \<Longrightarrow> inj_on index_key (set gs)"
proof (rule inj_onI)
  fix x y assume xy: "distinct (map fst gs)" "x \<in> set gs" "y \<in> set gs" "index_key x = index_key y"
  then have "fst x = fst y" by (simp add: index_key_def best_of_key)
  moreover have "inj_on fst (set gs)" using xy(1) by (simp add: distinct_map)
  ultimately show "x = y" using xy(2,3) by (meson inj_onD)
qed

lemma index_key_diff: "distinct (map fst gs) \<Longrightarrow> x \<in> set gs \<Longrightarrow> index_key ` (set gs - {x}) = index_key ` set gs - {index_key x}"
  using inj_on_image_set_diff [OF index_key_inj, of gs "set gs" "{x}"] by simp

lemma same_key_entry: "distinct (map fst gs) \<Longrightarrow> x \<in> set gs \<Longrightarrow> {y \<in> set gs. fst y = fst x} = {x}"
  by (auto simp: distinct_map dest: inj_onD)

lemma groups_ok_length: "groups_ok b \<Longrightarrow> length (by_best b) = length (groups b)"
proof -
  assume ok: "groups_ok b"
  have "card (set (by_best b)) = card (set (groups b))" using ok by (simp add: groups_ok_def card_image index_key_inj)
  moreover have "distinct (groups b)" using ok by (simp add: groups_ok_def distinct_map)
  ultimately show ?thesis using ok distinct_card [of "by_best b"] distinct_card [of "groups b"] by (simp add: groups_ok_def)
qed

lemma groups_ok_card: "groups_ok b \<Longrightarrow> card (set (by_best b)) = length (groups b)"
  using groups_ok_length [of b] distinct_card [of "by_best b"] by (simp add: groups_ok_def)

lemma set_update: "distinct (map fst xs) \<Longrightarrow> set (AList.update k v xs) = insert (k, v) (set xs - {x. fst x = k})"
proof (induction xs)
  case (Cons x xs)
  then show ?case by (cases x) (auto simp: image_iff)
qed simp

lemma set_delete: "set (AList.delete k xs) = set xs - {x. fst x = k}"
  by (auto simp: AList.delete_eq)

lemma groups_ok_update:
  assumes "groups_ok b" "map_of (groups b) k = Some acc"
  shows "groups_ok (b\<lparr>groups := AList.update k acc' (groups b),
      by_best := insort_insert (best_of k acc') (remove1 (best_of k acc) (by_best b))\<rparr>)"
proof -
  have d: "distinct (map fst (groups b))" using assms(1) by (simp add: groups_ok_def)
  have m: "(k, acc) \<in> set (groups b)" using assms(2) by (rule map_of_SomeD)
  then have st: "set (AList.update k acc' (groups b)) = insert (k, acc') (set (groups b) - {(k, acc)})"
    unfolding set_update [OF d] using same_key_entry [OF d m] by auto
  then have "index_key ` set (AList.update k acc' (groups b)) = insert (best_of k acc') (index_key ` set (groups b) - {best_of k acc})"
    using index_key_diff [OF d m] by (simp add: index_key_def)
  then show ?thesis using assms(1) d unfolding groups_ok_def
    by (simp add: distinct_update set_insort_insert sorted_insort_insert distinct_insort_insert sorted_remove1)
qed

lemma groups_ok_insert:
  assumes "groups_ok b" "map_of (groups b) k = None"
  shows "groups_ok (b\<lparr>groups := AList.update k acc (groups b), by_best := insort_insert (best_of k acc) (by_best b)\<rparr>)"
proof -
  have d: "distinct (map fst (groups b))" using assms(1) by (simp add: groups_ok_def)
  have "set (groups b) - {x. fst x = k} = set (groups b)" using assms(2) by (force simp: map_of_eq_None_iff)
  then have "index_key ` set (AList.update k acc (groups b)) = insert (best_of k acc) (index_key ` set (groups b))"
    unfolding set_update [OF d] by (simp add: index_key_def)
  then show ?thesis using assms(1) d unfolding groups_ok_def
    by (simp add: distinct_update set_insort_insert sorted_insort_insert distinct_insort_insert)
qed

lemma groups_ok_delete:
  assumes "groups_ok b" "(k, acc) \<in> set (groups b)"
  shows "groups_ok (b\<lparr>groups := AList.delete k (groups b), by_best := remove1 (best_of k acc) (by_best b)\<rparr>)"
proof -
  have d: "distinct (map fst (groups b))" using assms(1) by (simp add: groups_ok_def)
  have "set (AList.delete k (groups b)) = set (groups b) - {(k, acc)}"
    unfolding set_delete using same_key_entry [OF d assms(2)] by auto
  then have "index_key ` set (AList.delete k (groups b)) = index_key ` set (groups b) - {best_of k acc}"
    using index_key_diff [OF d assms(2)] by (simp add: index_key_def)
  then show ?thesis using assms(1) d unfolding groups_ok_def
    by (simp add: distinct_delete sorted_remove1)
qed

lemma by_best_mem:
  "groups_ok b \<Longrightarrow> x \<in> set (by_best b) \<Longrightarrow> \<exists>acc. (snd (snd x), acc) \<in> set (groups b) \<and> x = best_of (snd (snd x)) acc"
  by (auto simp: groups_ok_def index_key_def best_of_def)

lemma sorted_le_last: "sorted xs \<Longrightarrow> x \<in> set xs \<Longrightarrow> x \<le> last xs"
  by (induction xs) auto

text \<open>The group at the end of the index is the worst, and it is in the map.\<close>

lemma worst_group:
  assumes "groups_ok b" "by_best b \<noteq> []"
  shows "last (by_best b) \<in> set (by_best b) \<and> (\<forall>x\<in>set (by_best b). x \<le> last (by_best b))
    \<and> (\<exists>acc. (snd (snd (last (by_best b))), acc) \<in> set (groups b) \<and> last (by_best b) = best_of (snd (snd (last (by_best b)))) acc)"
proof -
  have l: "last (by_best b) \<in> set (by_best b)" using assms(2) by simp
  have "\<forall>x\<in>set (by_best b). x \<le> last (by_best b)"
    using assms(1) sorted_le_last by (auto simp only: groups_ok_def)
  then show ?thesis using l by_best_mem [OF assms(1) l] by blast
qed

text \<open>The invariant: the index holds the best groups, each with its true best document.\<close>

definition best_groups_kept :: "grouped_docs \<Rightarrow> bounded_groups \<Rightarrow> bool" where
  "best_groups_kept es b \<longleftrightarrow> groups_ok b \<and> top_of GROUP_COLLECTOR_MAX_GROUPS (set (by_best b)) (all_best es)
     \<and> (truncated b \<longleftrightarrow> GROUP_COLLECTOR_MAX_GROUPS < card (keys_of es))"

lemma acc_push_best: "entry_rank (acc_best (acc_push e acc)) = min (entry_rank (acc_best acc)) (entry_rank e)"
  by (auto simp: acc_push_def Let_def min_def not_le split: prod.splits if_splits)

lemma kept_update:
  assumes "best_groups_kept es b" "map_of (groups b) k = Some acc"
  shows "best_groups_kept (es @ [(k, e)]) (add_entry k e b)"
proof -
  let ?n = GROUP_COLLECTOR_MAX_GROUPS and ?y = "best_of k acc" and ?x = "best_of k (acc_push e acc)"
  have ok: "groups_ok b" and top: "top_of ?n (set (by_best b)) (all_best es)"
    and tr: "truncated b \<longleftrightarrow> ?n < card (keys_of es)" using assms(1) by (simp_all only: best_groups_kept_def)
  have y: "?y \<in> set (by_best b)" using ok map_of_SomeD [OF assms(2)] by (force simp: groups_ok_def index_key_def)
  then have "?y \<in> all_best es" using top by (auto simp: top_of_def)
  then have best: "?y = best_key_of (group_best es k) k" and k: "k \<in> keys_of es"
    using all_best_key [of ?y es k] by (simp_all add: best_of_def)
  then have r: "entry_rank (acc_best acc) = group_best es k" by (simp add: best_of_key)
  have x: "?x = best_key_of (group_best (es @ [(k, e)]) k) k" by (simp add: best_of_key acc_push_best group_best_snoc k r)
  have all: "all_best (es @ [(k, e)]) = insert ?x (all_best es - {?y})" unfolding all_best_snoc [OF k] x best ..
  have le: "?x \<le> ?y" by (simp add: best_of_key best_key_of_le acc_push_best)
  have "z \<noteq> ?x" if "z \<in> all_best es - {?y}" for z
  proof
    assume "z = ?x"
    then have "snd (snd z) = k" by (simp add: best_of_def)
    then have "z = ?y" using all_best_key [of z es k] that best by simp
    then show False using that by simp
  qed
  then have "top_of ?n (insert ?x (set (by_best b) - {?y})) (all_best (es @ [(k, e)]))"
    unfolding all by (intro top_decrease [OF top y le]) blast
  moreover have "card (keys_of (es @ [(k, e)])) = card (keys_of es)" using k by (simp add: insert_absorb)
  moreover have "set (by_best (add_entry k e b)) = insert ?x (set (by_best b) - {?y})"
    using y ok assms(2) by (auto simp: add_entry_def Let_def set_insort_insert groups_ok_def)
  moreover have "groups_ok (add_entry k e b)"
  proof (cases "?x = ?y")
    case True
    have "insort_insert ?y (remove1 ?y (by_best b)) = by_best b"
      using ok y by (intro sorted_distinct_set_unique)
        (auto simp: groups_ok_def sorted_insort_insert distinct_insort_insert set_insort_insert sorted_remove1)
    then show ?thesis using groups_ok_update [OF ok assms(2), of "acc_push e acc"] True assms(2)
      by (simp add: add_entry_def Let_def)
  next
    case False
    then show ?thesis using groups_ok_update [OF ok assms(2), of "acc_push e acc"] assms(2) by (simp add: add_entry_def Let_def)
  qed
  moreover have "truncated (add_entry k e b) = truncated b" using assms(2) by (simp add: add_entry_def Let_def)
  ultimately show ?thesis using tr by (simp add: best_groups_kept_def)
qed

lemma insert_kept_top:
  assumes ok: "groups_ok b" and top: "top_of GROUP_COLLECTOR_MAX_GROUPS (set (by_best b)) S"
    and new: "map_of (groups b) k = None" "best_of k acc \<notin> S" "v \<notin> S" "best_of k acc \<noteq> v \<Longrightarrow> \<forall>t\<in>set (by_best b). t < v"
    and room: "length (groups b) < GROUP_COLLECTOR_MAX_GROUPS \<Longrightarrow> v = best_of k acc"
    and least: "v \<le> best_of k acc"
  shows "groups_ok (insert_group k acc b) \<and> top_of GROUP_COLLECTOR_MAX_GROUPS (set (by_best (insert_group k acc b))) (insert v S)"
proof (cases "length (groups b) < GROUP_COLLECTOR_MAX_GROUPS")
  case True
  have v: "v = best_of k acc" using room True .
  have "card (set (by_best b)) < GROUP_COLLECTOR_MAX_GROUPS"
    using True groups_ok_card [OF ok] by simp
  then have "top_of GROUP_COLLECTOR_MAX_GROUPS (insert v (set (by_best b))) (insert v S)"
    by (intro top_insert_room [OF top new(3)])
  then show ?thesis using True groups_ok_insert [OF ok new(1), of acc] by (simp add: insert_group_def set_insort_insert v)
next
  case False
  let ?w = "last (by_best b)" and ?best = "best_of k acc"
  have len: "card (set (by_best b)) = length (groups b)"
    using groups_ok_card [OF ok] .
  then have full: "card (set (by_best b)) = GROUP_COLLECTOR_MAX_GROUPS" using False top by (simp add: top_of_def)
  then have "by_best b \<noteq> []" by (auto simp: GROUP_COLLECTOR_MAX_GROUPS_def)
  from worst_group [OF ok this] obtain a where w: "?w \<in> set (by_best b)" "\<forall>x\<in>set (by_best b). x \<le> ?w"
    "(snd (snd ?w), a) \<in> set (groups b)" "?w = best_of (snd (snd ?w)) a" by blast
  have wk: "snd (snd ?w) \<noteq> k" using w(3) new(1) by (force simp: map_of_eq_None_iff)
  then have neq: "?w \<noteq> ?best" by (auto simp: best_of_def)
  show ?thesis
  proof (cases "?w \<le> ?best")
    case True
    then have "\<forall>t\<in>set (by_best b). t < v"
      using new(4) w(2) neq by (cases "?best = v") (auto intro: le_less_trans)
    then show ?thesis using False True top_insert_worse [OF top new(3) full] ok
      by (simp add: insert_group_def groups_ok_def)
  next
    case less: False
    have v: "v = ?best"
    proof (rule ccontr)
      assume "v \<noteq> ?best"
      then have "?w < v" using new(4) w(1) by blast
      then show False using less least by simp
    qed
    let ?b = "b\<lparr>groups := AList.delete (snd (snd ?w)) (groups b), by_best := remove1 ?w (by_best b)\<rparr>"
    have "groups_ok ?b" using groups_ok_delete [OF ok w(3)] w(4) by simp
    moreover have "map_of (groups ?b) k = None" using new(1) by (simp add: AList.delete_conv')
    ultimately have "groups_ok (?b\<lparr>groups := AList.update k acc (groups ?b), by_best := insort_insert ?best (by_best ?b)\<rparr>)"
      by (rule groups_ok_insert)
    then have "groups_ok (insert_group k acc b)" using False less by (simp add: insert_group_def Let_def groups_ok_def)
    moreover have "set (by_best (insert_group k acc b)) = insert v (set (by_best b) - {?w})"
      using False less ok by (simp add: insert_group_def Let_def set_insort_insert groups_ok_def v)
    ultimately show ?thesis
      using top_insert_better [OF top new(3) full w(1,2)] less v by simp
  qed
qed

lemma kept_insert:
  assumes "best_groups_kept es b" "map_of (groups b) k = None"
  shows "best_groups_kept (es @ [(k, e)]) (add_entry k e b)"
proof -
  let ?n = GROUP_COLLECTOR_MAX_GROUPS and ?new = "best_of k (acc_new e)"
  have ok: "groups_ok b" and top: "top_of ?n (set (by_best b)) (all_best es)"
    and tr: "truncated b \<longleftrightarrow> ?n < card (keys_of es)" using assms(1) by (simp_all only: best_groups_kept_def)
  have new: "?new = best_key_of (entry_rank e) k" by (simp add: best_of_key acc_new_def)
  have len: "length (groups b) = min ?n (card (keys_of es))"
    using top groups_ok_card [OF ok] by (simp add: top_of_def card_all_best)
  have absent: "x \<notin> set (by_best b)" if "snd (snd x) = k" for x
    using by_best_mem [OF ok, of x] assms(2) that by (force simp: map_of_eq_None_iff)
  have add: "add_entry k e b = insert_group k (acc_new e) b" using assms(2) by (simp add: add_entry_def)
  have trunc: "truncated (insert_group k (acc_new e) b) \<longleftrightarrow> truncated b \<or> ?n \<le> length (groups b)"
    by (simp add: insert_group_def Let_def)
  show ?thesis
  proof (cases "k \<in> keys_of es")
    case False
    have "?new \<notin> all_best es" using all_best_key [of ?new es k] False by (auto simp: best_of_def)
    then have "groups_ok (insert_group k (acc_new e) b) \<and> top_of ?n (set (by_best (insert_group k (acc_new e) b))) (insert ?new (all_best es))"
      by (intro insert_kept_top [OF ok top assms(2)]) simp_all
    then show ?thesis using False tr trunc len
      by (auto simp: best_groups_kept_def add all_best_snoc_new new)
  next
    case True
    let ?y = "best_key_of (group_best es k) k" and ?v = "best_key_of (group_best (es @ [(k, e)]) k) k"
    have y: "?y \<in> all_best es - set (by_best b)" using True absent [of ?y] by (auto simp: all_best_def best_key_of_def)
    note rest = top_remove_rest [OF top y]
    have out: "x \<notin> all_best es - {?y}" if "snd (snd x) = k" for x using all_best_key [of x es k] that by blast
    have v: "?v = ?y \<or> ?v = ?new" "?v \<le> ?new" using True by (auto simp: group_best_snoc new best_key_of_le min_def)
    have "groups_ok (insert_group k (acc_new e) b) \<and> top_of ?n (set (by_best (insert_group k (acc_new e) b))) (insert ?v (all_best es - {?y}))"
    proof (rule insert_kept_top [OF ok rest(1) assms(2)])
      show "?new \<notin> all_best es - {?y}" "?v \<notin> all_best es - {?y}" by (rule out; simp add: best_of_def best_key_of_def)+
      show "\<forall>t\<in>set (by_best b). t < ?v" if "?new \<noteq> ?v" using that v(1) top y by (auto simp: top_of_def)
      show "?v = ?new" if "length (groups b) < ?n"
        using that rest(2) groups_ok_card [OF ok] by simp
    qed (fact v(2))
    moreover have "length (groups b) = ?n" using rest(2) groups_ok_card [OF ok] by simp
    moreover have "?n < card (keys_of es)"
    proof -
      have "set (by_best b) \<subset> all_best es" using top y by (auto simp: top_of_def)
      then have "card (set (by_best b)) < card (all_best es)" using top by (intro psubset_card_mono) (auto simp: top_of_def)
      then show ?thesis using rest(2) by (simp add: card_all_best)
    qed
    ultimately show ?thesis using True by (simp add: best_groups_kept_def add all_best_snoc trunc insert_absorb)
  qed
qed

lemma kept_fold: "best_groups_kept es (fold (\<lambda>(k, e). add_entry k e) es groups_new)"
proof (induction es rule: rev_induct)
  case Nil
  show ?case by (simp add: best_groups_kept_def groups_ok_def groups_new_def top_of_def all_best_def)
next
  case (snoc x es)
  obtain k e where x: "x = (k, e)" by (cases x)
  show ?case using kept_update [OF snoc] kept_insert [OF snoc]
    by (cases "map_of (groups (fold (\<lambda>(k, e). add_entry k e) es groups_new)) k") (simp_all add: x)
qed

subsection \<open>A group is sorted and cut\<close>

definition acc_of :: "group_entry list \<Rightarrow> group_acc" where
  "acc_of es = fold acc_push (tl es) (acc_new (hd es))"

definition sorted_acc :: "group_entry list \<Rightarrow> group_acc" where
  "sorted_acc es =
     (let sorted_es = sort_key entry_rank es
      in \<lparr>acc_count = length es, acc_best = hd sorted_es, acc_siblings = take MERGED_SIBLINGS_CAP (tl sorted_es)\<rparr>)"

lemma acc_of_snoc: "es \<noteq> [] \<Longrightarrow> acc_of (es @ [e]) = acc_push e (acc_of es)"
  by (simp add: acc_of_def)

lemma takeWhile_take: "takeWhile P (take n xs) = take n (takeWhile P xs)"
  by (induction xs arbitrary: n) (auto simp: take_Cons' split: if_splits)

lemma insort_key_split:
  fixes f :: "'a \<Rightarrow> 'b::linorder"
  assumes "f e \<notin> f ` set xs"
  shows "insort_key f e xs = takeWhile (\<lambda>s. f s \<le> f e) xs @ e # dropWhile (\<lambda>s. f s \<le> f e) xs"
  using assms by (induction xs) auto

lemma insert_capped_take:
  assumes "entry_rank e \<notin> entry_rank ` set xs"
  shows "insert_capped (take MERGED_SIBLINGS_CAP xs) e = take MERGED_SIBLINGS_CAP (insort_key entry_rank e xs)"
proof -
  let ?P = "\<lambda>s. entry_rank s \<le> entry_rank e" and ?C = MERGED_SIBLINGS_CAP
  let ?A = "takeWhile ?P xs"
  have xs: "xs = ?A @ dropWhile ?P xs" by simp
  have pos: "partition_point ?P (take ?C xs) = min ?C (length ?A)"
    by (simp add: partition_point_def takeWhile_take min.commute)
  show ?thesis
  proof (cases "length ?A < ?C")
    case True
    have "take (length ?A) (take ?C xs) = ?A" using True
      by (metis min.strict_order_iff take_take takeWhile_eq_take)
    moreover have "drop (length ?A) (take ?C xs) = take (?C - length ?A) (dropWhile ?P xs)"
      by (simp add: drop_take dropWhile_eq_drop)
    ultimately show ?thesis
      using True by (simp add: insert_capped_def pos insort_key_split [OF assms] take_Cons' min_absorb2)
  next
    case False
    have "take ?C (A @ D) = take ?C A" if "?C \<le> length A" for A D :: "group_entry list" using that by simp
    from this [of ?A "dropWhile ?P xs"] False have "take ?C xs = take ?C ?A" by simp
    moreover have "insert_capped (take ?C xs) e = take ?C xs"
      unfolding insert_capped_def pos Let_def using False by simp
    ultimately show ?thesis using False by (simp add: insort_key_split [OF assms])
  qed
qed

lemma sort_key_snoc:
  fixes f :: "'a \<Rightarrow> 'b::linorder"
  assumes "distinct (map f (xs @ [x]))"
  shows "sort_key f (xs @ [x]) = insort_key f x (sort_key f xs)"
proof (rule sort_key_inj_key_eq)
  show "inj_on f (set (xs @ [x]))" using assms unfolding distinct_map by blast
qed (simp_all add: sorted_insort_key)

lemma sorted_acc_snoc:
  assumes "es \<noteq> []" "distinct (map entry_rank (es @ [e]))"
  shows "sorted_acc (es @ [e]) = acc_push e (sorted_acc es)"
proof -
  have "sort_key entry_rank es \<noteq> []" using assms(1) by simp
  then obtain b r where br: "sort_key entry_rank es = b # r" by (meson neq_Nil_conv)
  have st: "set (b # r) = set es" using br by (metis set_sort)
  have "mset (map entry_rank (b # r)) = mset (map entry_rank es)" unfolding br [symmetric] by simp
  moreover have "distinct (map entry_rank es)" using assms(2) by simp
  ultimately have "distinct (map entry_rank (b # r))" using mset_eq_imp_distinct_iff by blast
  moreover have "sorted (map entry_rank (b # r))" unfolding br [symmetric] by simp
  ultimately have b: "\<forall>s\<in>set r. entry_rank b < entry_rank s" by (auto simp: order_less_le)
  have e: "entry_rank e \<notin> entry_rank ` set (b # r)" unfolding st using assms(2) by auto
  have sort: "sort_key entry_rank (es @ [e]) = insort_key entry_rank e (b # r)"
    unfolding br [symmetric] using assms(2) by (rule sort_key_snoc)
  show ?thesis
  proof (cases "entry_rank e < entry_rank b")
    case True
    have "entry_rank b \<notin> entry_rank ` set r" using b by auto
    then have "insert_capped (take MERGED_SIBLINGS_CAP r) b = take MERGED_SIBLINGS_CAP (insort_key entry_rank b r)"
      by (rule insert_capped_take)
    also have "insort_key entry_rank b r = b # r" using b by (intro insort_is_Cons) auto
    finally show ?thesis using True less_imp_le [OF True] by (simp add: sorted_acc_def sort br acc_push_def)
  next
    case False
    then have "insort_key entry_rank e (b # r) = b # insort_key entry_rank e r" using e by auto
    then show ?thesis using False e insert_capped_take [of e r] by (simp add: sorted_acc_def sort br acc_push_def)
  qed
qed

lemma acc_of_sorted: "es \<noteq> [] \<Longrightarrow> distinct (map entry_rank es) \<Longrightarrow> acc_of es = sorted_acc es"
proof (induction es rule: rev_induct)
  case (snoc e es)
  show ?case
  proof (cases "es = []")
    case True
    then show ?thesis by (simp add: acc_of_def sorted_acc_def acc_new_def)
  next
    case False
    with snoc show ?thesis by (simp add: acc_of_snoc sorted_acc_snoc)
  qed
qed simp

subsection \<open>What the map holds\<close>

abbreviation add_entries :: "grouped_docs \<Rightarrow> bounded_groups" where
  "add_entries es \<equiv> fold (\<lambda>(k, e). add_entry k e) es groups_new"

lemma insert_group_mem:
  "(k', acc') \<in> set (groups (insert_group k acc b)) \<Longrightarrow> distinct (map fst (groups b)) \<Longrightarrow>
     (k', acc') = (k, acc) \<or> (k', acc') \<in> set (groups b)"
  by (auto simp: insert_group_def Let_def set_update distinct_delete set_delete split: if_splits)

lemma add_entry_mem:
  assumes "(k', acc') \<in> set (groups (add_entry k e b))" "distinct (map fst (groups b))"
  shows "(k', acc') \<in> set (groups b) \<or> (k' = k \<and> (acc' = acc_new e \<or> (\<exists>acc. (k, acc) \<in> set (groups b) \<and> acc' = acc_push e acc)))"
proof (cases "map_of (groups b) k")
  case None
  then have "(k', acc') \<in> set (groups (insert_group k (acc_new e) b))" using assms(1) by (simp add: add_entry_def)
  from insert_group_mem [OF this assms(2)] show ?thesis by blast
next
  case (Some acc)
  have "(k', acc') \<in> set (groups b) \<or> (k', acc') = (k, acc_push e acc)"
    using assms Some by (auto simp: add_entry_def Let_def set_update)
  then show ?thesis using map_of_SomeD [OF Some] by blast
qed

lemma acc_best_push: "acc_best (acc_push e acc) = e \<or> acc_best (acc_push e acc) = acc_best acc"
  by (simp add: acc_push_def)

lemma kept_best_entry: "(k, acc) \<in> set (groups (add_entries es)) \<Longrightarrow> acc_best acc \<in> set (entries_of k es)"
proof (induction es arbitrary: k acc rule: rev_induct)
  case Nil
  then show ?case by (simp add: groups_new_def)
next
  case (snoc x es)
  obtain k0 e where x: "x = (k0, e)" by (cases x)
  have d: "distinct (map fst (groups (add_entries es)))" using kept_fold [of es] by (simp add: best_groups_kept_def groups_ok_def)
  have m: "(k, acc) \<in> set (groups (add_entry k0 e (add_entries es)))" using snoc.prems by (simp add: x)
  from add_entry_mem [OF m d]
  consider "(k, acc) \<in> set (groups (add_entries es))" | "k = k0" "acc = acc_new e"
    | a where "k = k0" "(k, a) \<in> set (groups (add_entries es))" "acc = acc_push e a" by blast
  then show ?case
  proof cases
    case 1
    then show ?thesis using snoc.IH by (simp add: x entries_of_snoc)
  next
    case 2
    then show ?thesis by (simp add: x entries_of_snoc acc_new_def)
  next
    case 3
    then show ?thesis using snoc.IH [OF 3(2)] acc_best_push [of e a] by (auto simp: x entries_of_snoc)
  qed
qed

lemma kept_length: "length (groups (add_entries es)) = min GROUP_COLLECTOR_MAX_GROUPS (card (keys_of es))"
  using kept_fold [of es] groups_ok_card [of "add_entries es"]
  by (simp add: best_groups_kept_def top_of_def card_all_best)

lemma add_entry_room:
  "map_of (groups b) k = None \<Longrightarrow> length (groups b) < GROUP_COLLECTOR_MAX_GROUPS \<Longrightarrow>
     groups (add_entry k e b) = AList.update k (acc_new e) (groups b)"
  by (simp add: add_entry_def insert_group_def)

lemma add_entry_push:
  "map_of (groups b) k = Some acc \<Longrightarrow> groups (add_entry k e b) = AList.update k (acc_push e acc) (groups b)"
  by (simp add: add_entry_def Let_def)

text \<open>Below the cap, the map holds every group, complete.\<close>

lemma complete_groups:
  "card (keys_of es) \<le> GROUP_COLLECTOR_MAX_GROUPS \<Longrightarrow>
     map_of (groups (add_entries es)) k = (if k \<in> keys_of es then Some (acc_of (entries_of k es)) else None)"
proof (induction es arbitrary: k rule: rev_induct)
  case Nil
  then show ?case by (simp add: groups_new_def)
next
  case (snoc x es)
  obtain k0 e where x: "x = (k0, e)" by (cases x)
  let ?b = "add_entries es"
  have le: "card (keys_of es) \<le> GROUP_COLLECTOR_MAX_GROUPS"
    using snoc.prems card_mono [of "keys_of (es @ [x])" "keys_of es"] by (simp add: subset_insertI)
  note ih = snoc.IH [OF le]
  have nonempty: "entries_of k0 es \<noteq> []" if "k0 \<in> keys_of es" using that entries_of_empty by blast
  have empty: "entries_of k0 es = []" if "k0 \<notin> keys_of es" using that entries_of_empty by blast
  show ?case
  proof (cases "k0 \<in> keys_of es")
    case True
    have "groups (add_entries (es @ [x])) = AList.update k0 (acc_push e (acc_of (entries_of k0 es))) (groups ?b)"
      using add_entry_push [of ?b k0 "acc_of (entries_of k0 es)" e] ih [of k0] True by (simp add: x)
    then show ?thesis using ih [of k] True nonempty by (simp add: x entries_of_snoc acc_of_snoc update_conv')
  next
    case False
    have "card (keys_of (es @ [x])) = Suc (card (keys_of es))" using False by (simp add: x)
    then have "length (groups ?b) < GROUP_COLLECTOR_MAX_GROUPS" using snoc.prems kept_length [of es] by simp
    then have "groups (add_entries (es @ [x])) = AList.update k0 (acc_new e) (groups ?b)"
      using add_entry_room [of ?b k0 e] ih [of k0] False by (simp add: x)
    then show ?thesis using ih [of k] False empty by (simp add: x entries_of_snoc acc_of_def update_conv')
  qed
qed

subsection \<open>The sorted groups\<close>

definition grouped_spec :: "grouped_docs \<Rightarrow> group_acc list" where
  "grouped_spec es = sort_key (\<lambda>acc. entry_rank (acc_best acc)) (map (\<lambda>k. sorted_acc (entries_of k es)) (remdups (map fst es)))"

definition ranks_distinct :: "grouped_docs \<Rightarrow> bool" where
  "ranks_distinct es \<longleftrightarrow> distinct (map (entry_rank \<circ> snd) es)"

lemma entries_of_distinct: "ranks_distinct es \<Longrightarrow> distinct (map entry_rank (entries_of k es))"
  unfolding ranks_distinct_def entries_of_def map_map
  by (metis distinct_map_filter)

lemma sorted_acc_best:
  assumes "k \<in> keys_of es"
  shows "acc_best (sorted_acc (entries_of k es)) \<in> set (entries_of k es)
    \<and> entry_rank (acc_best (sorted_acc (entries_of k es))) = group_best es k"
proof -
  let ?s = "sort_key entry_rank (entries_of k es)"
  have "?s \<noteq> []" using assms entries_of_empty [of k es] by simp
  then obtain b r where br: "?s = b # r" by (meson neq_Nil_conv)
  then have st: "set (entries_of k es) = set (b # r)" by (metis set_sort)
  have "sorted (map entry_rank (b # r))" unfolding br [symmetric] by simp
  then have "Min (entry_rank ` set (b # r)) = entry_rank b" by (intro Min_eqI) auto
  then show ?thesis unfolding group_best_def st by (simp add: sorted_acc_def br)
qed

lemma entries_same_key:
  assumes "ranks_distinct es" "e \<in> set (entries_of k es)" "e' \<in> set (entries_of k' es)" "entry_rank e = entry_rank e'"
  shows "k = k' \<and> e = e'"
proof -
  have "(k, e) \<in> set es" "(k', e') \<in> set es" using assms(2,3) by (auto simp: entries_of_def)
  moreover have "inj_on (entry_rank \<circ> snd) (set es)" using assms(1) by (simp add: ranks_distinct_def distinct_map)
  ultimately have "(k, e) = (k', e')" using assms(4) inj_onD [of "entry_rank \<circ> snd" "set es" "(k, e)" "(k', e')"] by simp
  then show ?thesis by simp
qed

lemma inj_group_best: "ranks_distinct es \<Longrightarrow> inj_on (group_best es) (keys_of es)"
  by (rule inj_onI) (metis entries_same_key sorted_acc_best)

lemma entries_of_perm: "mset es = mset es' \<Longrightarrow> mset (entries_of k es) = mset (entries_of k es')"
  by (simp add: entries_of_def mset_filter)

lemma keys_of_perm: "mset es = mset es' \<Longrightarrow> keys_of es = keys_of es'"
  unfolding keys_of_def by (metis mset_eq_setD)

lemma sorted_acc_perm:
  assumes "mset es = mset es'" "distinct (map entry_rank es)"
  shows "sorted_acc es = sorted_acc es'"
proof -
  have "inj_on entry_rank (set es)" using assms(2) unfolding distinct_map by blast
  then have "sort_key entry_rank es = sort_key entry_rank es'"
    using assms(1) by (intro sort_key_inj_key_eq) simp_all
  then show ?thesis using mset_eq_length [OF assms(1)] by (simp add: sorted_acc_def)
qed

lemma spec_accs_inj:
  assumes "ranks_distinct es"
  shows "inj_on (\<lambda>acc. entry_rank (acc_best acc)) ((\<lambda>k. sorted_acc (entries_of k es)) ` keys_of es)"
  using inj_group_best [OF assms] sorted_acc_best by (auto simp: inj_on_def)

lemma set_remdups_keys: "set (remdups (map fst es)) = keys_of es"
  by (simp add: keys_of_def)

lemma grouped_spec_perm:
  assumes "mset es = mset es'" "ranks_distinct es"
  shows "grouped_spec es = grouped_spec es'"
  unfolding grouped_spec_def
proof (rule sort_key_inj_key_eq)
  have ks: "mset (remdups (map fst es)) = mset (remdups (map fst es'))"
    using keys_of_perm [OF assms(1)] set_remdups_keys by (intro set_eq_iff_mset_eq_distinct [THEN iffD1]) simp_all
  have "sorted_acc (entries_of k es) = sorted_acc (entries_of k es')" for k
    by (rule sorted_acc_perm [OF entries_of_perm [OF assms(1)] entries_of_distinct [OF assms(2)]])
  then show "mset (map (\<lambda>k. sorted_acc (entries_of k es)) (remdups (map fst es)))
      = mset (sort_key (\<lambda>acc. entry_rank (acc_best acc)) (map (\<lambda>k. sorted_acc (entries_of k es')) (remdups (map fst es'))))"
    using ks by simp
  show "inj_on (\<lambda>acc. entry_rank (acc_best acc)) (set (map (\<lambda>k. sorted_acc (entries_of k es)) (remdups (map fst es))))"
    using spec_accs_inj [OF assms(2)] by (simp only: set_map set_remdups_keys)
qed simp

lemma top_of_image:
  assumes "top_of n T S" "inj_on g S" "\<And>x y. x \<in> S \<Longrightarrow> y \<in> S \<Longrightarrow> x < y \<Longrightarrow> g x < g y"
  shows "top_of n (g ` T) (g ` S)"
proof -
  have sub: "T \<subseteq> S" "finite S" "card T = min n (card S)" and less: "\<forall>t\<in>T. \<forall>s\<in>S - T. t < s"
    using assms(1) unfolding top_of_def by blast+
  have "inj_on g T" using assms(2) sub(1) by (rule inj_on_subset)
  then have "card (g ` T) = min n (card (g ` S))" using sub(3) by (simp add: card_image assms(2))
  moreover have "\<forall>t\<in>g ` T. \<forall>s\<in>g ` S - g ` T. t < s" using less sub(1) assms(3) by blast
  ultimately show ?thesis using sub by (simp add: top_of_def image_mono)
qed

lemma top_of_unique:
  assumes "top_of n T S" "top_of n T' S"
  shows "T = T'"
proof -
  have a: "T \<subseteq> S" "T' \<subseteq> S" "finite S" "card T = card T'" and l: "\<forall>t\<in>T. \<forall>s\<in>S - T. t < s" "\<forall>t\<in>T'. \<forall>s\<in>S - T'. t < s"
    using assms unfolding top_of_def by auto
  have f: "finite T" "finite T'" using a(1-3) finite_subset by blast+
  have "T \<subseteq> T' \<or> T' \<subseteq> T"
  proof (rule ccontr)
    assume "\<not> ?thesis"
    then obtain t t' where t: "t \<in> T" "t \<notin> T'" "t' \<in> T'" "t' \<notin> T" by blast
    then have "t < t'" "t' < t" using l a(1,2) by blast+
    then show False by simp
  qed
  then show ?thesis using card_subset_eq [OF f(2), of T] card_subset_eq [OF f(1), of T'] a(4) by auto
qed

lemma top_of_take: "sorted_wrt (<) xs \<Longrightarrow> top_of n (set (take n xs)) (set xs)"
proof -
  assume s: "sorted_wrt (<) xs"
  have d: "distinct xs" using s by (simp add: strict_sorted_iff)
  have "t < u" if "t \<in> set (take n xs)" "u \<in> set xs - set (take n xs)" for t u
  proof -
    have "u \<in> set (drop n xs)" using that(2) by (metis DiffD1 DiffD2 Un_iff append_take_drop_id set_append)
    moreover have "sorted_wrt (<) (take n xs @ drop n xs)" using s by simp
    ultimately show ?thesis using that(1) unfolding sorted_wrt_append by blast
  qed
  moreover have "card (set (take n xs)) = min n (card (set xs))"
    using d by (simp add: distinct_card min.commute)
  ultimately show ?thesis by (simp add: top_of_def set_take_subset)
qed

abbreviation acc_rank :: "group_acc \<Rightarrow> u64 \<times> u64" where
  "acc_rank acc \<equiv> entry_rank (acc_best acc)"

definition sorted_groups :: "bounded_groups \<Rightarrow> group_acc list" where
  "sorted_groups b = sort_key (\<lambda>acc. acc_rank acc) (map snd (groups b))"

lemma strict_sorted_ranks:
  "distinct (map acc_rank xs) \<Longrightarrow> sorted_wrt (<) (map acc_rank (sort_key (\<lambda>acc. acc_rank acc) xs))"
proof -
  assume "distinct (map acc_rank xs)"
  moreover have "mset (map acc_rank (sort_key (\<lambda>acc. acc_rank acc) xs)) = mset (map acc_rank xs)" by simp
  ultimately have "distinct (map acc_rank (sort_key (\<lambda>acc. acc_rank acc) xs))" using mset_eq_imp_distinct_iff by blast
  then show ?thesis unfolding strict_sorted_iff by simp
qed

lemma group_ranks:
  assumes "(k, acc) \<in> set (groups (add_entries es))"
  shows "acc_rank acc = group_best es k" "k \<in> keys_of es"
proof -
  have kept: "groups_ok (add_entries es)" "set (by_best (add_entries es)) \<subseteq> all_best es"
    using kept_fold [of es] by (simp_all add: best_groups_kept_def top_of_def)
  have "index_key (k, acc) \<in> all_best es" using kept assms by (auto simp: groups_ok_def)
  then show "acc_rank acc = group_best es k" "k \<in> keys_of es"
    using all_best_key [of "index_key (k, acc)" es k] by (simp_all add: index_key_def best_of_key)
qed

lemma triple_prefix_mono:
  fixes x :: "'a::linorder \<times> 'b::linorder \<times> 'c::linorder"
  shows "x < y \<Longrightarrow> (fst x, fst (snd x)) \<le> (fst y, fst (snd y))"
  by (cases x; cases y) (auto simp: less_prod_def less_eq_prod_def)

lemma kept_ranks_top:
  assumes "ranks_distinct es"
  shows "top_of GROUP_COLLECTOR_MAX_GROUPS (acc_rank ` snd ` set (groups (add_entries es))) (group_best es ` keys_of es)"
proof -
  let ?g = "\<lambda>x::best_key. (fst x, fst (snd x))" and ?b = "add_entries es"
  have ok: "groups_ok ?b" and top: "top_of GROUP_COLLECTOR_MAX_GROUPS (set (by_best ?b)) (all_best es)"
    using kept_fold [of es] by (simp_all only: best_groups_kept_def)
  have S: "?g ` all_best es = group_best es ` keys_of es" by (simp add: all_best_def image_image best_key_of_def)
  have T: "?g ` set (by_best ?b) = acc_rank ` snd ` set (groups ?b)"
    using ok by (simp add: groups_ok_def image_image index_key_def best_of_def entry_rank_def)
  have inj: "inj_on ?g (all_best es)"
  proof (rule inj_onI)
    fix x y assume xy: "x \<in> all_best es" "y \<in> all_best es" "?g x = ?g y"
    then obtain k k' where k: "k \<in> keys_of es" "k' \<in> keys_of es" "x = best_key_of (group_best es k) k" "y = best_key_of (group_best es k') k'"
      by (auto simp only: all_best_def image_iff)
    then have "group_best es k = group_best es k'" using xy(3) by (simp add: best_key_of_def prod_eq_iff)
    then show "x = y" using inj_onD [OF inj_group_best [OF assms]] k by blast
  qed
  have mono: "?g x < ?g y" if "x \<in> all_best es" "y \<in> all_best es" "x < y" for x y
  proof -
    have "?g x \<le> ?g y" using that(3) by (rule triple_prefix_mono)
    moreover have "?g x \<noteq> ?g y" using inj_onD [OF inj, of x y] that by blast
    ultimately show ?thesis by (rule order_le_neq_trans)
  qed
  from top_of_image [OF top inj mono] show ?thesis unfolding S T .
qed

lemma kept_ranks_distinct:
  assumes "ranks_distinct es"
  shows "distinct (map acc_rank (map snd (groups (add_entries es))))"
proof -
  have d: "distinct (map fst (groups (add_entries es)))"
    using kept_fold [of es] by (simp add: best_groups_kept_def groups_ok_def)
  have inj: "inj_on (\<lambda>x. acc_rank (snd x)) (set (groups (add_entries es)))"
  proof (rule inj_onI)
    fix x y assume xy: "x \<in> set (groups (add_entries es))" "y \<in> set (groups (add_entries es))" "acc_rank (snd x) = acc_rank (snd y)"
    then have "group_best es (fst x) = group_best es (fst y)" "fst x \<in> keys_of es" "fst y \<in> keys_of es"
      using group_ranks [of "fst x" "snd x" es] group_ranks [of "fst y" "snd y" es] by simp_all
    then have "fst x = fst y" using inj_onD [OF inj_group_best [OF assms]] by blast
    then show "x = y" using d xy(1,2) by (metis distinct_map inj_onD)
  qed
  have "distinct (groups (add_entries es))" using d by (simp add: distinct_map)
  with inj show ?thesis by (simp add: distinct_map o_def)
qed

lemma spec_ranks:
  assumes "ranks_distinct es"
  shows "set (map acc_rank (grouped_spec es)) = group_best es ` keys_of es" "sorted_wrt (<) (map acc_rank (grouped_spec es))"
proof -
  have eq: "map acc_rank (map (\<lambda>k. sorted_acc (entries_of k es)) (remdups (map fst es))) = map (group_best es) (remdups (map fst es))"
    using sorted_acc_best [of _ es] set_remdups_keys [of es] by auto
  have "mset (map acc_rank (grouped_spec es)) = mset (map acc_rank (map (\<lambda>k. sorted_acc (entries_of k es)) (remdups (map fst es))))"
    unfolding grouped_spec_def by (simp only: mset_map mset_sort)
  then have m: "mset (map acc_rank (grouped_spec es)) = mset (map (group_best es) (remdups (map fst es)))" by (simp only: eq)
  show "set (map acc_rank (grouped_spec es)) = group_best es ` keys_of es"
    using mset_eq_setD [OF m] set_remdups_keys [of es] by simp
  have "distinct (map (group_best es) (remdups (map fst es)))"
    using inj_group_best [OF assms] set_remdups_keys [of es] by (simp add: distinct_map)
  then have "distinct (map acc_rank (grouped_spec es))" using m mset_eq_imp_distinct_iff by blast
  then show "sorted_wrt (<) (map acc_rank (grouped_spec es))" unfolding strict_sorted_iff by (simp add: grouped_spec_def)
qed

lemma strict_sorted_same_set: "sorted_wrt (<) xs \<Longrightarrow> sorted_wrt (<) ys \<Longrightarrow> set xs = set ys \<Longrightarrow> xs = (ys :: 'a::linorder list)"
  by (simp add: strict_sorted_equal)

lemma sorted_groups_ranks:
  assumes "ranks_distinct es"
  shows "map acc_rank (sorted_groups (add_entries es)) = take GROUP_COLLECTOR_MAX_GROUPS (map acc_rank (grouped_spec es))"
proof (rule strict_sorted_same_set)
  show "sorted_wrt (<) (map acc_rank (sorted_groups (add_entries es)))"
    unfolding sorted_groups_def by (rule strict_sorted_ranks [OF kept_ranks_distinct [OF assms]])
  show "sorted_wrt (<) (take GROUP_COLLECTOR_MAX_GROUPS (map acc_rank (grouped_spec es)))"
    using spec_ranks(2) [OF assms] by (rule sorted_wrt_take)
  have "top_of GROUP_COLLECTOR_MAX_GROUPS (set (take GROUP_COLLECTOR_MAX_GROUPS (map acc_rank (grouped_spec es)))) (group_best es ` keys_of es)"
    using top_of_take [OF spec_ranks(2) [OF assms]] unfolding spec_ranks(1) [OF assms] .
  moreover have "set (map acc_rank (sorted_groups (add_entries es))) = acc_rank ` snd ` set (groups (add_entries es))"
    by (simp add: sorted_groups_def)
  ultimately show "set (map acc_rank (sorted_groups (add_entries es))) = set (take GROUP_COLLECTOR_MAX_GROUPS (map acc_rank (grouped_spec es)))"
    using top_of_unique kept_ranks_top [OF assms] by metis
qed

text \<open>The representatives of the sorted groups are the best of all.\<close>

lemma sorted_groups_best:
  assumes "ranks_distinct es"
  shows "map acc_best (sorted_groups (add_entries es)) = take GROUP_COLLECTOR_MAX_GROUPS (map acc_best (grouped_spec es))"
proof -
  have kept: "set (map acc_best (sorted_groups (add_entries es))) \<subseteq> snd ` set es"
  proof
    fix e assume "e \<in> set (map acc_best (sorted_groups (add_entries es)))"
    then obtain x where "x \<in> set (groups (add_entries es))" "e = acc_best (snd x)" by (auto simp: sorted_groups_def)
    then have "e \<in> set (entries_of (fst x) es)" using kept_best_entry [of "fst x" "snd x" es] by simp
    then show "e \<in> snd ` set es" by (force simp: entries_of_def)
  qed
  have spec: "set (map acc_best (grouped_spec es)) \<subseteq> snd ` set es"
  proof
    fix e assume "e \<in> set (map acc_best (grouped_spec es))"
    then obtain k where "k \<in> keys_of es" "e = acc_best (sorted_acc (entries_of k es))"
      by (auto simp: grouped_spec_def keys_of_def)
    then have "e \<in> set (entries_of k es)" using sorted_acc_best by blast
    then show "e \<in> snd ` set es" by (force simp: entries_of_def)
  qed
  have inj: "inj_on entry_rank (snd ` set es)"
    using assms unfolding ranks_distinct_def distinct_map by (blast intro: inj_on_imageI)
  have "map entry_rank (map acc_best (sorted_groups (add_entries es)))
      = map entry_rank (take GROUP_COLLECTOR_MAX_GROUPS (map acc_best (grouped_spec es)))"
    using sorted_groups_ranks [OF assms] by (simp add: take_map o_def)
  moreover have "inj_on entry_rank (set (map acc_best (sorted_groups (add_entries es)))
      \<union> set (take GROUP_COLLECTOR_MAX_GROUPS (map acc_best (grouped_spec es))))"
    by (rule inj_on_subset [OF inj]) (use kept spec set_take_subset in fast)
  ultimately show ?thesis by (rule map_inj_on)
qed

text \<open>Below the cap the sorted groups are complete.\<close>

lemma sorted_groups_complete:
  assumes "ranks_distinct es" "card (keys_of es) \<le> GROUP_COLLECTOR_MAX_GROUPS"
  shows "sorted_groups (add_entries es) = grouped_spec es"
proof -
  let ?gs = "groups (add_entries es)"
  have d: "distinct (map fst ?gs)" using kept_fold [of es] by (simp add: best_groups_kept_def groups_ok_def)
  have acc: "snd x = sorted_acc (entries_of (fst x) es)" "fst x \<in> keys_of es" if "x \<in> set ?gs" for x
  proof -
    have m: "map_of ?gs (fst x) = Some (snd x)" using d that by simp
    then show k: "fst x \<in> keys_of es" using complete_groups [OF assms(2), of "fst x"] by (auto split: if_splits)
    have "entries_of (fst x) es \<noteq> []" using k entries_of_empty by blast
    then show "snd x = sorted_acc (entries_of (fst x) es)"
      using m k complete_groups [OF assms(2), of "fst x"] acc_of_sorted [OF _ entries_of_distinct [OF assms(1)]] by simp
  qed
  have keys: "set (map fst ?gs) = keys_of es"
  proof
    show "keys_of es \<subseteq> set (map fst ?gs)"
    proof
      fix k assume "k \<in> keys_of es"
      then have "map_of ?gs k \<noteq> None" using complete_groups [OF assms(2), of k] by simp
      then show "k \<in> set (map fst ?gs)" by (simp add: map_of_eq_None_iff)
    qed
  qed (use acc(2) in auto)
  have "map snd ?gs = map (\<lambda>k. sorted_acc (entries_of k es)) (map fst ?gs)" using acc(1) by simp
  moreover have "mset (map fst ?gs) = mset (remdups (map fst es))"
    using keys set_remdups_keys d by (intro set_eq_iff_mset_eq_distinct [THEN iffD1]) simp_all
  ultimately have m: "mset (map snd ?gs) = mset (map (\<lambda>k. sorted_acc (entries_of k es)) (remdups (map fst es)))"
    by (simp only: mset_map)
  show ?thesis unfolding sorted_groups_def grouped_spec_def
  proof (rule sort_key_inj_key_eq)
    show "inj_on (\<lambda>acc. acc_rank acc) (set (map snd ?gs))"
      using kept_ranks_distinct [OF assms(1)] by (simp only: distinct_map [of acc_rank "map snd ?gs"])
  qed (simp_all only: m mset_sort sorted_sort_key)
qed

subsection \<open>Threads and buffers\<close>

definition collected :: "result_grouping \<Rightarrow> group_sort \<Rightarrow> group_event list \<Rightarrow> grouped_docs" where
  "collected mode srt evs =
     List.map_filter (\<lambda>ev. case ev of Collect sg hit \<Rightarrow> Some (group_of_doc mode srt sg hit) | Harvest _ \<Rightarrow> None) evs"

definition entry_seg :: "group_key \<times> group_entry \<Rightarrow> nat" where
  "entry_seg x = fst (fst (snd (snd (snd x))))"

text \<open>The segments not yet harvested; a search ends when there are none.\<close>

definition unharvested :: "group_event list \<Rightarrow> nat set" where
  "unharvested evs = fold (\<lambda>ev P. case ev of Collect sg _ \<Rightarrow> insert (seg_ord sg) P | Harvest seg \<Rightarrow> P - {seg}) evs {}"

definition flushed_ok :: "grouped_docs \<Rightarrow> nat set \<Rightarrow> grouped_docs \<Rightarrow> grouping \<Rightarrow> bool" where
  "flushed_ok docs P fl g \<longleftrightarrow> shared g = add_entries fl \<and> raw_total g = min u32_max (length fl)
     \<and> (\<forall>seg. filter (\<lambda>x. entry_seg x = seg) fl @ buffers g seg = filter (\<lambda>x. entry_seg x = seg) docs)
     \<and> (\<forall>seg. buffers g seg \<noteq> [] \<longrightarrow> seg \<in> P)"

lemma flushed_ok_buffer: "flushed_ok docs P fl g \<Longrightarrow> \<forall>x\<in>set (buffers g seg). entry_seg x = seg"
proof -
  assume "flushed_ok docs P fl g"
  then have "set (buffers g seg) \<subseteq> set (filter (\<lambda>x. entry_seg x = seg) docs)"
    unfolding flushed_ok_def by (metis Un_upper2 set_append)
  then show ?thesis by auto
qed

lemma flush_ok:
  assumes "flushed_ok docs P fl g"
  shows "flushed_ok docs (P - {seg}) (fl @ buffers g seg) (flush seg g)"
proof (cases "buffers g seg = []")
  case True
  then show ?thesis using assms by (auto simp: flush_def flushed_ok_def)
next
  case False
  have same: "filter (\<lambda>x. entry_seg x = seg) (buffers g seg) = buffers g seg"
    using flushed_ok_buffer [OF assms, of seg] by simp
  have other: "filter (\<lambda>x. entry_seg x = seg') (buffers g seg) = []" if "seg' \<noteq> seg" for seg'
    using flushed_ok_buffer [OF assms, of seg] that by (auto simp: filter_empty_conv)
  have total: "saturating_add u32_max (raw_total g) (length (buffers g seg)) = min u32_max (length (fl @ buffers g seg))"
    using assms by (simp add: flushed_ok_def saturating_add_def)
  have shared: "fold (\<lambda>(k, e). add_entry k e) (buffers g seg) (shared g) = add_entries (fl @ buffers g seg)"
    using assms by (simp add: flushed_ok_def)
  show ?thesis unfolding flushed_ok_def flush_def Let_def
    using assms False same other total shared by (simp add: flushed_ok_def)
qed

lemma event_ok:
  assumes "flushed_ok (collected mode srt evs) (unharvested evs) fl g"
  shows "\<exists>fl'. flushed_ok (collected mode srt (evs @ [ev])) (unharvested (evs @ [ev])) fl' (group_event_step mode srt ev g)"
proof (cases ev)
  case (Harvest seg)
  have docs: "collected mode srt (evs @ [ev]) = collected mode srt evs" "unharvested (evs @ [ev]) = unharvested evs - {seg}"
    by (simp_all add: collected_def unharvested_def Harvest map_filter_snoc)
  from flush_ok [OF assms, of seg] show ?thesis unfolding docs by (auto simp: group_event_step_def Harvest)
next
  case (Collect sg hit)
  let ?x = "group_of_doc mode srt sg hit" and ?seg = "seg_ord sg"
  let ?g1 = "g\<lparr>buffers := (buffers g)(?seg := buffers g ?seg @ [?x])\<rparr>"
  have docs: "collected mode srt (evs @ [ev]) = collected mode srt evs @ [?x]" "unharvested (evs @ [ev]) = insert ?seg (unharvested evs)"
    by (simp_all add: collected_def unharvested_def Collect map_filter_snoc)
  have seg: "entry_seg ?x = ?seg"
    by (simp add: entry_seg_def group_of_doc_def Let_def split: prod.splits)
  have "flushed_ok (collected mode srt evs @ [?x]) (insert ?seg (unharvested evs)) fl ?g1"
    using assms seg by (auto simp: flushed_ok_def)
  then have g1: "flushed_ok (collected mode srt (evs @ [ev])) (unharvested (evs @ [ev])) fl ?g1" unfolding docs .
  have "flushed_ok d P f h" if "flushed_ok d (P - {?seg}) f h" for d P f h
    using that by (auto simp: flushed_ok_def)
  from this [OF flush_ok [OF g1, of ?seg]] g1 show ?thesis
    unfolding group_event_step_def Collect group_event.case Let_def by (cases "GROUP_FLUSH_BUFFER \<le> length (buffers ?g1 ?seg)") auto
qed

lemma run_ok: "\<exists>fl. flushed_ok (collected mode srt evs) (unharvested evs) fl (fold (group_event_step mode srt) evs grouping_new)"
proof (induction evs rule: rev_induct)
  case Nil
  show ?case by (intro exI [of _ "[]"]) (simp add: flushed_ok_def grouping_new_def collected_def map_filter_simps)
next
  case (snoc ev evs)
  then obtain fl where "flushed_ok (collected mode srt evs) (unharvested evs) fl (fold (group_event_step mode srt) evs grouping_new)" by blast
  from event_ok [OF this, of ev] show ?case by simp
qed

lemma mset_by_segment:
  assumes "\<And>seg. filter (\<lambda>x. f x = seg) xs = filter (\<lambda>x. f x = seg) ys"
  shows "mset xs = mset ys"
proof (rule multiset_eqI)
  fix a
  have "count (mset (filter (\<lambda>x. f x = f a) zs)) a = count (mset zs) a" for zs by simp
  then show "count (mset xs) a = count (mset ys) a" using assms by metis
qed

lemma harvested_run:
  assumes "unharvested evs = {}"
  shows "\<exists>fl. mset fl = mset (collected mode srt evs)
    \<and> shared (fold (group_event_step mode srt) evs grouping_new) = add_entries fl
    \<and> raw_total (fold (group_event_step mode srt) evs grouping_new) = min u32_max (length (collected mode srt evs))"
proof -
  obtain fl where fl: "flushed_ok (collected mode srt evs) {} fl (fold (group_event_step mode srt) evs grouping_new)"
    using run_ok [of mode srt evs] assms by auto
  then have "filter (\<lambda>x. entry_seg x = seg) fl = filter (\<lambda>x. entry_seg x = seg) (collected mode srt evs)" for seg
    by (auto simp: flushed_ok_def)
  then have m: "mset fl = mset (collected mode srt evs)" by (rule mset_by_segment)
  then have "length fl = length (collected mode srt evs)" by (rule mset_eq_length)
  with m fl show ?thesis by (auto simp: flushed_ok_def)
qed

subsection \<open>Correctness of grouped search\<close>

lemma ranks_distinct_perm: "mset es = mset es' \<Longrightarrow> ranks_distinct es = ranks_distinct es'"
  unfolding ranks_distinct_def by (rule mset_eq_imp_distinct_iff) (simp only: mset_map)

text \<open>C4: However the threads interleave and whatever the buffers, the page of a grouped search
  shows the best groups of all, in order, each represented by its best document, even when there
  are more groups than the map may hold; \<open>truncated\<close> tells exactly that, and the number of
  groups is then the cap.\<close>

theorem grouped_best_exact:
  assumes "unharvested evs = {}" "ranks_distinct (collected mode srt evs)"
  shows "map (\<lambda>r. (rep_id r, rep_address r)) (reps (collect_grouped mode srt evs limit offset))
      = map (\<lambda>acc. (rep_id (rep_of acc), rep_address (rep_of acc)))
          (take limit (drop offset (take GROUP_COLLECTOR_MAX_GROUPS (grouped_spec (collected mode srt evs)))))
    \<and> page_truncated (collect_grouped mode srt evs limit offset) = (GROUP_COLLECTOR_MAX_GROUPS < card (keys_of (collected mode srt evs)))
    \<and> group_count (collect_grouped mode srt evs limit offset) = min GROUP_COLLECTOR_MAX_GROUPS (card (keys_of (collected mode srt evs)))"
proof -
  let ?docs = "collected mode srt evs"
  obtain fl where fl: "mset fl = mset ?docs" "shared (fold (group_event_step mode srt) evs grouping_new) = add_entries fl"
    using harvested_run [OF assms(1)] by blast
  have r: "ranks_distinct fl" using assms(2) ranks_distinct_perm [OF fl(1)] by simp
  have spec: "grouped_spec fl = grouped_spec ?docs" by (rule grouped_spec_perm [OF fl(1) r])
  have keys: "keys_of fl = keys_of ?docs" by (rule keys_of_perm [OF fl(1)])
  have len: "length (sorted_groups (add_entries fl)) \<le> u32_max"
    using kept_length [of fl] by (simp add: sorted_groups_def GROUP_COLLECTOR_MAX_GROUPS_def)
  have rep: "(\<lambda>r. (rep_id r, rep_address r)) \<circ> rep_of = (\<lambda>e. (snd (snd (snd e)), fst (snd (snd e)))) \<circ> acc_best"
    by (auto simp: rep_of_def)
  have "reps (collect_grouped mode srt evs limit offset) = map rep_of (take limit (drop offset (sorted_groups (add_entries fl))))"
    using len by (simp add: collect_grouped_def page_slice_def finalize_grouped_def fl(2) sorted_groups_def take_map drop_map)
  then have "map (\<lambda>r. (rep_id r, rep_address r)) (reps (collect_grouped mode srt evs limit offset))
      = map (\<lambda>e. (snd (snd (snd e)), fst (snd (snd e)))) (take limit (drop offset (map acc_best (sorted_groups (add_entries fl)))))"
    by (simp only: map_map rep) (simp only: take_map drop_map map_map)
  also have "\<dots> = map (\<lambda>acc. (rep_id (rep_of acc), rep_address (rep_of acc)))
          (take limit (drop offset (take GROUP_COLLECTOR_MAX_GROUPS (grouped_spec ?docs))))"
    unfolding sorted_groups_best [OF r] spec by (simp add: take_map drop_map rep_of_def)
  finally have best: "map (\<lambda>r. (rep_id r, rep_address r)) (reps (collect_grouped mode srt evs limit offset)) = \<dots>" .
  have "group_count (collect_grouped mode srt evs limit offset) = min GROUP_COLLECTOR_MAX_GROUPS (card (keys_of ?docs))"
    using kept_length [of fl] keys by (simp add: collect_grouped_def page_slice_def finalize_grouped_def fl(2) GROUP_COLLECTOR_MAX_GROUPS_def)
  moreover have "truncated (add_entries fl) \<longleftrightarrow> GROUP_COLLECTOR_MAX_GROUPS < card (keys_of ?docs)"
    using kept_fold [of fl] keys by (simp only: best_groups_kept_def)
  ultimately show ?thesis using best by (simp add: collect_grouped_def page_slice_def finalize_grouped_def fl(2))
qed

text \<open>When there are no more groups than the map may hold, the page is exact: the groups sorted by
  their best document, each with the number of its documents and its next best documents
  up to the cap, for any interleaving of the threads; the totals are those of all documents.\<close>

theorem grouped_page_exact:
  assumes "unharvested evs = {}" "ranks_distinct (collected mode srt evs)"
    and "card (keys_of (collected mode srt evs)) \<le> GROUP_COLLECTOR_MAX_GROUPS"
  shows "collect_grouped mode srt evs limit offset =
    \<lparr>reps = map rep_of (take limit (drop offset (grouped_spec (collected mode srt evs)))),
     group_count = card (keys_of (collected mode srt evs)),
     page_raw_total = min u32_max (length (collected mode srt evs)), page_truncated = False\<rparr>"
proof -
  let ?docs = "collected mode srt evs"
  obtain fl where fl: "mset fl = mset ?docs" "shared (fold (group_event_step mode srt) evs grouping_new) = add_entries fl"
    "raw_total (fold (group_event_step mode srt) evs grouping_new) = min u32_max (length ?docs)"
    using harvested_run [OF assms(1)] by blast
  have r: "ranks_distinct fl" using assms(2) ranks_distinct_perm [OF fl(1)] by simp
  have keys: "keys_of fl = keys_of ?docs" by (rule keys_of_perm [OF fl(1)])
  have sorted: "sorted_groups (add_entries fl) = grouped_spec ?docs"
    using sorted_groups_complete [OF r] grouped_spec_perm [OF fl(1) r] assms(3) keys by simp
  have len: "length (sorted_groups (add_entries fl)) \<le> u32_max"
    using kept_length [of fl] by (simp add: sorted_groups_def GROUP_COLLECTOR_MAX_GROUPS_def)
  have "truncated (add_entries fl) \<longleftrightarrow> GROUP_COLLECTOR_MAX_GROUPS < card (keys_of ?docs)"
    using kept_fold [of fl] keys by (simp only: best_groups_kept_def)
  moreover have "length (groups (add_entries fl)) = card (keys_of ?docs)" using kept_length [of fl] keys assms(3) by simp
  moreover have "card (keys_of ?docs) < 2 ^ 32" using assms(3) by (simp add: GROUP_COLLECTOR_MAX_GROUPS_def)
  ultimately show ?thesis
    using len sorted [unfolded sorted_groups_def] assms(3)
    by (simp add: collect_grouped_def page_slice_def finalize_grouped_def fl(2,3) sorted_groups_def take_map drop_map)
qed

definition demo_segment :: group_segment where
  "demo_segment = \<lparr>seg_ord = 0, id_col = (\<lambda>d. Some (word_of_nat d)), key_col = (\<lambda>_. Some 9)\<rparr>"

definition demo_tables :: order_tables where
  "demo_tables = \<lparr>catalogue = Dense [0], generation = Dense [0], known = 1\<rparr>"

definition demo_events :: "group_event list" where
  "demo_events = [Collect demo_segment (3, 5), Collect demo_segment (4, 8), Harvest 0]"

lemma demo_collected:
  "collected SameSection (ScoreDesc demo_tables) demo_events =
     [((0, 9), (0xFFFFFFFA, order_key demo_tables Catalogue 3, (0, 3), 3)),
      ((0, 9), (0xFFFFFFF7, order_key demo_tables Catalogue 4, (0, 4), 4))]"
  by (simp add: collected_def demo_events_def map_filter_simps group_of_doc_def demo_segment_def)

lemma demo_facts:
  "unharvested demo_events = {}"
  "ranks_distinct (collected SameSection (ScoreDesc demo_tables) demo_events)"
  "keys_of (collected SameSection (ScoreDesc demo_tables) demo_events) = {(0, 9)}"
  by (simp_all add: unharvested_def demo_events_def demo_segment_def)
    (simp_all add: demo_collected [unfolded demo_events_def demo_segment_def] ranks_distinct_def entry_rank_def keys_of_def)

theorem grouped_best_exact_witness:
  "map (\<lambda>r. (rep_id r, rep_address r)) (reps (collect_grouped SameSection (ScoreDesc demo_tables) demo_events 10 0)) = [(4, (0, 4))]"
  using conjunct1 [OF grouped_best_exact [OF demo_facts(1,2), of 10 0]]
  by (simp add: demo_collected grouped_spec_def sorted_acc_def entries_of_def entry_rank_def rep_of_def GROUP_COLLECTOR_MAX_GROUPS_def)

theorem grouped_page_exact_witness:
  "collect_grouped SameSection (ScoreDesc demo_tables) demo_events 10 0 =
     \<lparr>reps = [\<lparr>rep_id = 4, rep_address = (0, 4), rep_count = 2, rep_siblings = [(0, 3)]\<rparr>],
      group_count = 1, page_raw_total = 2, page_truncated = False\<rparr>"
  by (subst grouped_page_exact [OF demo_facts(1,2)])
    (simp_all add: keys_of_def GROUP_COLLECTOR_MAX_GROUPS_def demo_collected grouped_spec_def sorted_acc_def
      entries_of_def entry_rank_def rep_of_def MERGED_SIBLINGS_CAP_def)

end
