(* ===== verification/PageCache.thy ===== *)
theory PageCache
  imports DerivedColumns
begin

section \<open>The page cache\<close>

text \<open>
  \<^verbatim>\<open>page_cache.rs\<close> and its clients \<^verbatim>\<open>ranked_page\<close>, \<^verbatim>\<open>count_on\<close> and \<^verbatim>\<open>run_count_by_book\<close> of
  \<^verbatim>\<open>api/search_engine.rs\<close>. A search is known by its key: the index snapshot, the order of
  books, the fingerprint of the query and the epoch of the cache. Per key the cache keeps the
  total, the counts per book and, per order, a prefix of the ranking. Clearing the cache
  starts a new epoch, and what a search begun before stores after is dropped.

  The LRU map of the library \<^verbatim>\<open>lru\<close> is a parameter, its contract the locale \<open>lru_cache\<close>: it may
  forget entries, never change them. Every access happens under a lock; between the accesses
  of one search other threads may do anything, a step relation. Searching the index is a
  parameter too: what it finds is the \<open>truth\<close>, a function of the key. The epoch counter is a
  natural number: it would wrap after 2^64 clears.
\<close>

subsection \<open>Keys\<close>

record page_key =
  snapshot :: u64
  cache_epoch :: nat
  order_epoch :: u64
  query_print :: "128 word"

text \<open>The hasher of the standard library: a state, bytes written to it, and its value.\<close>

record 'h hasher =
  hash_new :: 'h
  hash_write :: "nat list \<Rightarrow> 'h \<Rightarrow> 'h"
  hash_u64 :: "u64 \<Rightarrow> 'h \<Rightarrow> 'h"
  hash_u8 :: "nat \<Rightarrow> 'h \<Rightarrow> 'h"
  hash_finish :: "'h \<Rightarrow> u64"

definition ENTRIES :: nat where
  "ENTRIES = 16"

definition PREFETCH_PAGES :: nat where
  "PREFETCH_PAGES = 3"

definition MAX_RANKED :: nat where
  "MAX_RANKED = 20000"

definition MAX_FINGERPRINT_BYTES :: nat where
  "MAX_FINGERPRINT_BYTES = 4 * 2 ^ 20"

text \<open>A snapshot is its segments, by id and delete opstamp.\<close>

definition snapshot_of :: "'h hasher \<Rightarrow> (nat list \<times> u64 option) list \<Rightarrow> u64" where
  "snapshot_of hs segs =
     hash_finish hs (fold (\<lambda>(uuid, opstamp) h.
         hash_u64 hs (case opstamp of None \<Rightarrow> - 1 | Some o' \<Rightarrow> o') (hash_write hs uuid h)) segs (hash_new hs))"

record 'h fingerprint_writer =
  low :: 'h
  high :: 'h
  written :: nat

definition write_piece :: "'h hasher \<Rightarrow> nat list \<Rightarrow> 'h fingerprint_writer \<Rightarrow> 'h fingerprint_writer option" where
  "write_piece hs piece w =
     (let n = written w + length piece
      in if MAX_FINGERPRINT_BYTES < n then None
         else Some \<lparr>low = hash_write hs piece (low w), high = hash_write hs piece (high w), written = n\<rparr>)"

fun write_pieces :: "'h hasher \<Rightarrow> nat list list \<Rightarrow> 'h fingerprint_writer \<Rightarrow> 'h fingerprint_writer option" where
  "write_pieces hs [] w = Some w"
| "write_pieces hs (p # ps) w = Option.bind (write_piece hs p w) (write_pieces hs ps)"

text \<open>\<^verbatim>\<open>PageKey::new\<close>, given the pieces the query's \<^verbatim>\<open>Debug\<close> writes.\<close>

definition page_key_new :: "'h hasher \<Rightarrow> u64 \<Rightarrow> u64 \<Rightarrow> nat list list \<Rightarrow> page_key option" where
  "page_key_new hs snap ordr pieces =
     map_option (\<lambda>w. \<lparr>snapshot = snap, cache_epoch = 0, order_epoch = ordr,
        query_print = push_bit 64 (ucast (hash_finish hs (high w))) OR ucast (hash_finish hs (low w))\<rparr>)
       (write_pieces hs pieces \<lparr>low = hash_new hs, high = hash_u8 hs 0xA5 (hash_new hs), written = 0\<rparr>)"

definition with_epoch :: "nat \<Rightarrow> page_key \<Rightarrow> page_key" where
  "with_epoch epoch key = key\<lparr>cache_epoch := epoch\<rparr>"

definition ranked_window :: "nat \<Rightarrow> nat \<Rightarrow> nat option" where
  "ranked_window offset limit =
     (if 0 < limit \<and> offset + limit \<le> MAX_RANKED
      then Some (min (offset + limit + PREFETCH_PAGES * limit) MAX_RANKED) else None)"

subsection \<open>The cache\<close>

type_synonym doc_address = "nat \<times> nat"
type_synonym count_map = "string \<Rightarrow> nat option"

record ranked =
  addresses :: "doc_address list"
  complete :: bool

record cache_entry =
  total :: "nat option"
  book_counts :: "count_map option"
  rankings :: "ranked option list"

definition entry_default :: cache_entry where
  "entry_default = \<lparr>total = None, book_counts = None, rankings = [None, None, None]\<rparr>"

record cached_page =
  page_addresses :: "doc_address list"
  page_total :: "nat option"
  page_book_counts :: "count_map option"

text \<open>The operations of the LRU map: \<^verbatim>\<open>get\<close>, and \<^verbatim>\<open>get_or_insert_mut\<close> with the change made
  through the reference it returns.\<close>

record ('c, 'k, 'v) lru =
  lru_new :: "nat \<Rightarrow> 'c"
  lru_get :: "'k \<Rightarrow> 'c \<Rightarrow> 'c \<times> 'v option"
  lru_modify :: "'k \<Rightarrow> 'v \<Rightarrow> ('v \<Rightarrow> 'v) \<Rightarrow> 'c \<Rightarrow> 'c"
  lru_clear :: "'c \<Rightarrow> 'c"

record 'c page_cache =
  entries :: 'c
  epoch :: nat

type_synonym 'c page_lru = "('c, page_key, cache_entry) lru"

definition page_cache_new :: "'c page_lru \<Rightarrow> 'c page_cache" where
  "page_cache_new ops = \<lparr>entries = lru_new ops ENTRIES, epoch = 0\<rparr>"

text \<open>\<^verbatim>\<open>page\<close>: \<open>None\<close> is the panic of a slot that is no order.\<close>

definition cached_slice :: "cache_entry \<Rightarrow> ranked \<Rightarrow> nat \<Rightarrow> nat \<Rightarrow> cached_page option" where
  "cached_slice e r offset limit =
     (let len = length (addresses r)
      in if len < offset + limit \<and> \<not> complete r then None
         else Some \<lparr>page_addresses = drop (min offset len) (take (min (offset + limit) len) (addresses r)),
                    page_total = total e, page_book_counts = book_counts e\<rparr>)"

definition cache_page ::
  "'c page_lru \<Rightarrow> page_key \<Rightarrow> nat \<Rightarrow> nat \<Rightarrow> nat \<Rightarrow> 'c page_cache \<Rightarrow> ('c page_cache \<times> cached_page option) option" where
  "cache_page ops key slot offset limit c =
     (case lru_get ops key (entries c) of
        (c', None) \<Rightarrow> Some (c\<lparr>entries := c'\<rparr>, None)
      | (c', Some e) \<Rightarrow>
          (if length (rankings e) \<le> slot then None
           else Some (c\<lparr>entries := c'\<rparr>, Option.bind (rankings e ! slot) (\<lambda>r. cached_slice e r offset limit))))"

definition cache_total :: "'c page_lru \<Rightarrow> page_key \<Rightarrow> 'c page_cache \<Rightarrow> 'c page_cache \<times> nat option" where
  "cache_total ops key c =
     (case lru_get ops key (entries c) of (c', e) \<Rightarrow> (c\<lparr>entries := c'\<rparr>, Option.bind e total))"

definition cache_book_counts :: "'c page_lru \<Rightarrow> page_key \<Rightarrow> 'c page_cache \<Rightarrow> 'c page_cache \<times> count_map option" where
  "cache_book_counts ops key c =
     (case lru_get ops key (entries c) of (c', e) \<Rightarrow> (c\<lparr>entries := c'\<rparr>, Option.bind e book_counts))"

text \<open>The change \<^verbatim>\<open>store_ranked\<close> makes to an entry.\<close>

definition put_ranked :: "nat \<Rightarrow> doc_address list \<Rightarrow> nat \<Rightarrow> cache_entry \<Rightarrow> cache_entry" where
  "put_ranked slot addrs window e =
     (let complete' = length addrs < window;
          e1 = (if complete'
                then e\<lparr>total := (case total e of None \<Rightarrow> Some (length addrs mod 2 ^ 32) | Some t \<Rightarrow> Some t)\<rparr> else e);
          longer = (case rankings e1 ! slot of
                      None \<Rightarrow> True
                    | Some old \<Rightarrow> \<not> complete old \<and> length (addresses old) < length addrs)
      in if longer
         then e1\<lparr>rankings := (rankings e1)[slot := Some \<lparr>addresses = addrs, complete = complete'\<rparr>]\<rparr> else e1)"

definition store_ranked ::
  "'c page_lru \<Rightarrow> page_key \<Rightarrow> nat \<Rightarrow> doc_address list \<Rightarrow> nat \<Rightarrow> 'c page_cache \<Rightarrow> 'c page_cache option" where
  "store_ranked ops key slot addrs window c =
     (if cache_epoch key \<noteq> epoch c then Some c
      else if 3 \<le> slot then None
      else Some (c\<lparr>entries := lru_modify ops key entry_default (put_ranked slot addrs window) (entries c)\<rparr>))"

definition store_total :: "'c page_lru \<Rightarrow> page_key \<Rightarrow> nat \<Rightarrow> 'c page_cache \<Rightarrow> 'c page_cache" where
  "store_total ops key t c =
     (if cache_epoch key \<noteq> epoch c then c
      else c\<lparr>entries := lru_modify ops key entry_default (\<lambda>e. e\<lparr>total := Some t\<rparr>) (entries c)\<rparr>)"

definition store_book_counts :: "'c page_lru \<Rightarrow> page_key \<Rightarrow> count_map \<Rightarrow> 'c page_cache \<Rightarrow> 'c page_cache" where
  "store_book_counts ops key counts c =
     (if cache_epoch key \<noteq> epoch c then c
      else c\<lparr>entries := lru_modify ops key entry_default (\<lambda>e. e\<lparr>book_counts := Some counts\<rparr>) (entries c)\<rparr>)"

definition cache_clear :: "'c page_lru \<Rightarrow> 'c page_cache \<Rightarrow> 'c page_cache" where
  "cache_clear ops c = \<lparr>entries = lru_clear ops (entries c), epoch = epoch c + 1\<rparr>"

subsection \<open>Its clients\<close>

datatype page_counts = NoCounts | TotalCount | TotalAndBooks

text \<open>What a search finds: its whole ranking, its total and its counts per book.\<close>

record search_result =
  hits :: "doc_address list"
  hit_total :: nat
  hit_books :: count_map

text \<open>\<^verbatim>\<open>TopDocs::with_limit(take).and_offset(from)\<close>: \<open>None\<close> is the library's documented panic on a limit
  of zero.\<close>

definition top_docs :: "nat \<Rightarrow> nat \<Rightarrow> (nat \<times> nat) option" where
  "top_docs from' take' = (if take' = 0 then None else Some (from', take'))"

text \<open>The index pass of \<^verbatim>\<open>collect_ranked\<close> with these top documents; it may fail.\<close>

definition collect_ranked ::
  "search_result option \<Rightarrow> nat \<times> nat \<Rightarrow> page_counts \<Rightarrow> (doc_address list \<times> nat option \<times> count_map option) option" where
  "collect_ranked run window counts =
     map_option (\<lambda>r. (take (snd window) (drop (fst window) (hits r)),
        (if counts = NoCounts then None else Some (hit_total r mod 2 ^ 32)),
        (if counts = TotalAndBooks then Some (hit_books r) else None))) run"

record page_result =
  rp_addresses :: "doc_address list"
  rp_total :: nat
  rp_books :: "count_map option"

text \<open>A page from the cache is used when it has the counts asked for.\<close>

definition served :: "page_counts \<Rightarrow> cached_page option \<Rightarrow> page_result option" where
  "served counts p =
     (case p of
        None \<Rightarrow> None
      | Some page \<Rightarrow>
          if (counts = NoCounts \<or> page_total page \<noteq> None) \<and> (counts \<noteq> TotalAndBooks \<or> page_book_counts page \<noteq> None)
          then Some \<lparr>rp_addresses = page_addresses page,
                     rp_total = (case page_total page of None \<Rightarrow> 0 | Some t \<Rightarrow> t),
                     rp_books = page_book_counts page\<rparr>
          else None)"

text \<open>\<^verbatim>\<open>ranked_page\<close>, for a key that already has its epoch; \<open>others i\<close> is what other threads do
  to the cache before the i-th access that stores. \<open>None\<close> is a panic, an inner \<open>None\<close> the
  error of the index.\<close>

definition ranked_page ::
  "'c page_lru \<Rightarrow> (nat \<Rightarrow> 'c page_cache \<Rightarrow> 'c page_cache) \<Rightarrow> page_key option \<Rightarrow> search_result option
    \<Rightarrow> nat \<Rightarrow> nat \<Rightarrow> nat \<Rightarrow> page_counts \<Rightarrow> 'c page_cache \<Rightarrow> ('c page_cache \<times> page_result option) option" where
  "ranked_page ops others key run slot offset limit counts c = do {
     (c1, page) \<leftarrow> (case key of None \<Rightarrow> Some (c, None) | Some k \<Rightarrow> cache_page ops k slot offset limit c);
     case served counts page of
       Some p \<Rightarrow> Some (c1, Some p)
     | None \<Rightarrow>
         (let window = Option.bind key (\<lambda>_. ranked_window offset limit);
              (from', take') = (case window of Some w \<Rightarrow> (0, w) | None \<Rightarrow> (offset, limit))
          in Option.bind (top_docs from' take') (\<lambda>span.
             case collect_ranked run span counts of
               None \<Rightarrow> Some (c1, None)
             | Some (addrs, tot, books) \<Rightarrow>
                 (case (key, window) of
                    (Some k, Some w) \<Rightarrow> do {
                      let c2 = (case tot of None \<Rightarrow> c1 | Some t \<Rightarrow> store_total ops k t (others 0 c1));
                      let c3 = (case books of None \<Rightarrow> c2 | Some b \<Rightarrow> store_book_counts ops k b (others 1 c2));
                      c4 \<leftarrow> store_ranked ops k slot addrs w (others 2 c3);
                      Some (c4, Some \<lparr>rp_addresses = drop (min offset (length addrs)) (take (min (offset + limit) (length addrs)) addrs),
                                      rp_total = (case tot of None \<Rightarrow> 0 | Some t \<Rightarrow> t), rp_books = books\<rparr>) }
                  | _ \<Rightarrow> Some (c1, Some \<lparr>rp_addresses = addrs,
                                      rp_total = (case tot of None \<Rightarrow> 0 | Some t \<Rightarrow> t), rp_books = books\<rparr>)))) }"

definition count_on ::
  "'c page_lru \<Rightarrow> ('c page_cache \<Rightarrow> 'c page_cache) \<Rightarrow> page_key option \<Rightarrow> search_result option
    \<Rightarrow> 'c page_cache \<Rightarrow> 'c page_cache \<times> nat option" where
  "count_on ops others key run c =
     (let (c1, cached) = (case key of None \<Rightarrow> (c, None) | Some k \<Rightarrow> cache_total ops k c)
      in case cached of
           Some t \<Rightarrow> (c1, Some t)
         | None \<Rightarrow>
             (case run of
                None \<Rightarrow> (c1, None)
              | Some r \<Rightarrow>
                  (let t = hit_total r mod 2 ^ 32
                   in (case key of None \<Rightarrow> c1 | Some k \<Rightarrow> store_total ops k t (others c1), Some t))))"

definition run_count_by_book ::
  "'c page_lru \<Rightarrow> ('c page_cache \<Rightarrow> 'c page_cache) \<Rightarrow> page_key option \<Rightarrow> search_result option
    \<Rightarrow> 'c page_cache \<Rightarrow> 'c page_cache \<times> count_map option" where
  "run_count_by_book ops others key run c =
     (let (c1, cached) = (case key of None \<Rightarrow> (c, None) | Some k \<Rightarrow> cache_book_counts ops k c)
      in case cached of
           Some counts \<Rightarrow> (c1, Some counts)
         | None \<Rightarrow>
             (case run of
                None \<Rightarrow> (c1, None)
              | Some r \<Rightarrow> (case key of None \<Rightarrow> c1 | Some k \<Rightarrow> store_book_counts ops k (hit_books r) (others c1), Some (hit_books r))))"

subsection \<open>The contract of the LRU map\<close>

locale lru_cache =
  fixes ops :: "('c, 'k, 'v) lru" and inv :: "'c \<Rightarrow> bool" and contents :: "'c \<Rightarrow> 'k \<Rightarrow> 'v option"
  assumes new: "0 < n \<Longrightarrow> inv (lru_new ops n) \<and> contents (lru_new ops n) k = None"
    and get: "inv c \<Longrightarrow> lru_get ops k c = (c', v) \<Longrightarrow> inv c' \<and> contents c' = contents c \<and> v = contents c k"
    and modify: "inv c \<Longrightarrow> inv (lru_modify ops k d f c)
      \<and> contents (lru_modify ops k d f c) k = Some (f (case contents c k of None \<Rightarrow> d | Some v \<Rightarrow> v))"
    and modify_other: "inv c \<Longrightarrow> k' \<noteq> k \<Longrightarrow>
      contents (lru_modify ops k d f c) k' = None \<or> contents (lru_modify ops k d f c) k' = contents c k'"
    and clear: "inv c \<Longrightarrow> inv (lru_clear ops c) \<and> contents (lru_clear ops c) k = None"

subsection \<open>The truth\<close>

type_synonym truth = "page_key \<Rightarrow> nat \<Rightarrow> search_result"

text \<open>Of one search the total and the counts are the same in every order, and the total is the
  length of each ranking.\<close>

definition truth_ok :: "truth \<Rightarrow> bool" where
  "truth_ok truth \<longleftrightarrow> (\<forall>k s. hit_total (truth k s) = length (hits (truth k s)) \<and> hit_total (truth k s) \<le> u32_max
     \<and> hit_total (truth k s) = hit_total (truth k 0) \<and> hit_books (truth k s) = hit_books (truth k 0))"

definition ranked_ok :: "search_result \<Rightarrow> ranked \<Rightarrow> bool" where
  "ranked_ok t r \<longleftrightarrow> addresses r = take (length (addresses r)) (hits t) \<and> (complete r \<longrightarrow> addresses r = hits t)"

definition entry_ok :: "(nat \<Rightarrow> search_result) \<Rightarrow> cache_entry \<Rightarrow> bool" where
  "entry_ok t e \<longleftrightarrow> (\<forall>n. total e = Some n \<longrightarrow> n = hit_total (t 0)) \<and> (\<forall>b. book_counts e = Some b \<longrightarrow> b = hit_books (t 0))
     \<and> length (rankings e) = 3 \<and> (\<forall>s r. s < 3 \<longrightarrow> rankings e ! s = Some r \<longrightarrow> ranked_ok (t s) r)"

lemma entry_default_ok: "entry_ok t entry_default"
  by (auto simp: entry_ok_def entry_default_def less_Suc_eq numeral_eq_Suc)

lemma slice_eq: "drop (min a (length xs)) (take (min (a + n) (length xs)) xs) = take n (drop a xs)"
  by (cases "a \<le> length xs") (simp_all add: drop_take min_def)

lemma cached_slice_exact:
  assumes "ranked_ok t r" "cached_slice e r offset limit = Some p"
  shows "page_addresses p = take limit (drop offset (hits t)) \<and> page_total p = total e \<and> page_book_counts p = book_counts e"
proof -
  let ?a = "addresses r"
  have p: "p = \<lparr>page_addresses = drop (min offset (length ?a)) (take (min (offset + limit) (length ?a)) ?a),
      page_total = total e, page_book_counts = book_counts e\<rparr>" and enough: "offset + limit \<le> length ?a \<or> complete r"
    using assms(2) by (auto simp: cached_slice_def Let_def split: if_splits)
  have "drop (min offset (length ?a)) (take (min (offset + limit) (length ?a)) ?a) = take limit (drop offset ?a)"
    by (rule slice_eq)
  also have "\<dots> = take limit (drop offset (hits t))"
  proof (cases "complete r")
    case True
    then show ?thesis using assms(1) by (simp add: ranked_ok_def)
  next
    case False
    then have "offset + limit \<le> length ?a" using enough by simp
    moreover have "?a = take (length ?a) (hits t)" using assms(1) by (simp add: ranked_ok_def)
    moreover have "take limit (drop offset (take n h)) = take limit (drop offset h)" if "offset + limit \<le> n" for n and h :: "doc_address list"
      using that by (simp add: take_drop min_def add.commute)
    ultimately show ?thesis by metis
  qed
  finally show ?thesis by (simp add: p)
qed

lemma put_ranked_ok:
  assumes "entry_ok t e" "slot < 3" "hit_total (t slot) = length (hits (t slot))" "hit_total (t slot) \<le> u32_max" "hit_total (t slot) = hit_total (t 0)"
  shows "entry_ok t (put_ranked slot (take window (hits (t slot))) window e)"
proof -
  let ?addrs = "take window (hits (t slot))"
  have complete: "length ?addrs < window \<Longrightarrow> ?addrs = hits (t slot)" by (simp add: min_def split: if_splits)
  have "take (min (length h) n) h = take n h" for n and h :: "doc_address list" by (simp add: min_def)
  then have "ranked_ok (t slot) \<lparr>addresses = ?addrs, complete = length ?addrs < window\<rparr>" using complete by (simp add: ranked_ok_def)
  moreover have "length ?addrs mod 2 ^ 32 = hit_total (t 0)" if "length ?addrs < window"
    using complete [OF that] assms(3-5) by simp
  ultimately show ?thesis using assms(1,2)
    by (auto simp: entry_ok_def put_ranked_def Let_def nth_list_update split: option.splits if_splits)
qed

lemma put_ranked_keeps:
  assumes "slot < length (rankings e)" "n \<le> length addrs"
  shows "\<exists>r. rankings (put_ranked slot addrs window e) ! slot = Some r \<and> (complete r \<or> n \<le> length (addresses r))"
proof -
  have put: "rankings (put_ranked slot addrs window e) =
      (if (case rankings e ! slot of None \<Rightarrow> True | Some old \<Rightarrow> \<not> complete old \<and> length (addresses old) < length addrs)
       then (rankings e)[slot := Some \<lparr>addresses = addrs, complete = length addrs < window\<rparr>] else rankings e)"
    by (simp add: put_ranked_def Let_def)
  show ?thesis
    using assms by (cases "rankings e ! slot") (auto simp: put)
qed

subsection \<open>Steps of the threads\<close>

text \<open>Every access stores what its search found under its key; keys of any epoch are around.\<close>

inductive cache_step :: "'c page_lru \<Rightarrow> truth \<Rightarrow> 'c page_cache \<Rightarrow> 'c page_cache \<Rightarrow> bool" for ops truth where
  step_page: "cache_page ops key slot offset limit c = Some (c', p) \<Longrightarrow> cache_step ops truth c c'"
| step_total: "cache_total ops key c = (c', t) \<Longrightarrow> cache_step ops truth c c'"
| step_books: "cache_book_counts ops key c = (c', b) \<Longrightarrow> cache_step ops truth c c'"
| step_store_ranked: "store_ranked ops key slot (take window (hits (truth key slot))) window c = Some c' \<Longrightarrow> cache_step ops truth c c'"
| step_store_total: "cache_step ops truth c (store_total ops key (hit_total (truth key slot)) c)"
| step_store_books: "cache_step ops truth c (store_book_counts ops key (hit_books (truth key slot)) c)"
| step_clear: "cache_step ops truth c (cache_clear ops c)"

inductive cache_reachable :: "'c page_lru \<Rightarrow> truth \<Rightarrow> 'c page_cache \<Rightarrow> bool" for ops truth where
  reach_new: "cache_reachable ops truth (page_cache_new ops)"
| reach_step: "cache_reachable ops truth c \<Longrightarrow> cache_step ops truth c c' \<Longrightarrow> cache_reachable ops truth c'"

context lru_cache
begin

definition cache_ok :: "('k \<Rightarrow> 'v \<Rightarrow> bool) \<Rightarrow> 'c \<Rightarrow> bool" where
  "cache_ok P c \<longleftrightarrow> inv c \<and> (\<forall>k v. contents c k = Some v \<longrightarrow> P k v)"

lemma cache_ok_new: "0 < n \<Longrightarrow> cache_ok P (lru_new ops n)"
  using new by (simp add: cache_ok_def)

lemma cache_ok_get: "cache_ok P c \<Longrightarrow> lru_get ops k c = (c', v) \<Longrightarrow> cache_ok P c' \<and> (\<forall>x. v = Some x \<longrightarrow> P k x)"
  using get unfolding cache_ok_def by metis

lemma cache_ok_modify:
  assumes "cache_ok P c" "P k d" "\<And>v. P k v \<Longrightarrow> P k (f v)"
  shows "cache_ok P (lru_modify ops k d f c)"
  unfolding cache_ok_def
proof (intro conjI allI impI)
  have i: "inv c" using assms(1) by (simp add: cache_ok_def)
  show "inv (lru_modify ops k d f c)" using modify [OF i] by blast
  fix k' v assume v: "contents (lru_modify ops k d f c) k' = Some v"
  show "P k' v"
  proof (cases "k' = k")
    case True
    let ?old = "case contents c k of None \<Rightarrow> d | Some v \<Rightarrow> v"
    have old: "P k ?old" using assms(1,2) by (auto simp: cache_ok_def split: option.splits)
    have "v = f ?old" using modify [OF i, of k d f] v True by simp
    then show ?thesis using assms(3) [OF old] True by simp
  next
    case False
    then show ?thesis using modify_other [OF i False, of d f] v assms(1) by (auto simp: cache_ok_def)
  qed
qed

lemma cache_ok_clear: "cache_ok P c \<Longrightarrow> cache_ok Q (lru_clear ops c)"
  using clear by (simp add: cache_ok_def)

end

text \<open>What the cache always satisfies: every entry is of the current epoch and true.\<close>

definition entry_true :: "truth \<Rightarrow> nat \<Rightarrow> page_key \<Rightarrow> cache_entry \<Rightarrow> bool" where
  "entry_true truth ep k e \<longleftrightarrow> cache_epoch k = ep \<and> entry_ok (truth k) e"

definition page_cache_ok ::
  "('c \<Rightarrow> bool) \<Rightarrow> ('c \<Rightarrow> page_key \<Rightarrow> cache_entry option) \<Rightarrow> truth \<Rightarrow> 'c page_cache \<Rightarrow> bool" where
  "page_cache_ok I cont truth c \<longleftrightarrow> I (entries c)
     \<and> (\<forall>k e. cont (entries c) k = Some e \<longrightarrow> entry_true truth (epoch c) k e)"

lemma page_cache_ok_iff:
  "lru_cache ops I cont \<Longrightarrow> page_cache_ok I cont truth c \<longleftrightarrow>
     lru_cache.cache_ok I cont (entry_true truth (epoch c)) (entries c)"
  by (simp add: page_cache_ok_def lru_cache.cache_ok_def)

definition page_right :: "search_result \<Rightarrow> nat \<Rightarrow> nat \<Rightarrow> page_counts \<Rightarrow> page_result \<Rightarrow> bool" where
  "page_right t offset limit counts p \<longleftrightarrow> rp_addresses p = take limit (drop offset (hits t))
     \<and> (counts \<noteq> NoCounts \<longrightarrow> rp_total p = hit_total t) \<and> (counts = TotalAndBooks \<longrightarrow> rp_books p = Some (hit_books t))"

locale true_cache = lru_cache ops inv contents
  for ops :: "'c page_lru" and inv :: "'c \<Rightarrow> bool" and contents :: "'c \<Rightarrow> page_key \<Rightarrow> cache_entry option" +
  fixes truth :: truth
  assumes truth: "truth_ok truth"
begin

lemmas ok_iff = page_cache_ok_iff [OF lru_cache_axioms]

lemma truth_facts:
  "hit_total (truth k s) = length (hits (truth k s))" "hit_total (truth k s) \<le> u32_max"
  "hit_total (truth k s) = hit_total (truth k 0)" "hit_books (truth k s) = hit_books (truth k 0)"
  using truth unfolding truth_ok_def by blast+

lemma get_ok:
  assumes "page_cache_ok inv contents truth c" "lru_get ops k (entries c) = (es, v)"
  shows "page_cache_ok inv contents truth (c\<lparr>entries := es\<rparr>) \<and> (\<forall>e. v = Some e \<longrightarrow> cache_epoch k = epoch c \<and> entry_ok (truth k) e)"
  using cache_ok_get [OF assms(1) [unfolded ok_iff] assms(2)] by (simp add: ok_iff entry_true_def)

lemma modify_ok:
  assumes "page_cache_ok inv contents truth c" "cache_epoch k = epoch c" "\<And>e. entry_ok (truth k) e \<Longrightarrow> entry_ok (truth k) (f e)"
  shows "page_cache_ok inv contents truth (c\<lparr>entries := lru_modify ops k entry_default f (entries c)\<rparr>)"
  using cache_ok_modify [of "entry_true truth (epoch c)" "entries c" k entry_default f] assms
  by (simp add: ok_iff entry_true_def entry_default_ok)

lemma page_ok:
  assumes "page_cache_ok inv contents truth c" "cache_page ops k slot offset limit c = Some (c', p)"
  shows "page_cache_ok inv contents truth c'
    \<and> (\<forall>q. p = Some q \<longrightarrow> slot < 3 \<and> cache_epoch k = epoch c
         \<and> page_addresses q = take limit (drop offset (hits (truth k slot)))
         \<and> (\<forall>t. page_total q = Some t \<longrightarrow> t = hit_total (truth k slot))
         \<and> (\<forall>b. page_book_counts q = Some b \<longrightarrow> b = hit_books (truth k slot)))"
proof -
  obtain es v where g: "lru_get ops k (entries c) = (es, v)" by fastforce
  note ok = get_ok [OF assms(1) g]
  show ?thesis
  proof (cases v)
    case None
    then show ?thesis using assms(2) ok by (auto simp: cache_page_def g)
  next
    case (Some e)
    have e: "entry_ok (truth k) e" "cache_epoch k = epoch c" using ok Some by blast+
    have c': "c' = c\<lparr>entries := es\<rparr>" "slot < length (rankings e)" "p = Option.bind (rankings e ! slot) (\<lambda>r. cached_slice e r offset limit)"
      using assms(2) Some by (auto simp: cache_page_def g split: if_splits)
    have slot: "slot < 3" using c'(2) e(1) by (simp add: entry_ok_def)
    have "page_addresses q = take limit (drop offset (hits (truth k slot)))
        \<and> (\<forall>t. page_total q = Some t \<longrightarrow> t = hit_total (truth k slot)) \<and> (\<forall>b. page_book_counts q = Some b \<longrightarrow> b = hit_books (truth k slot))"
      if pq: "p = Some q" for q
    proof -
      obtain r where r: "rankings e ! slot = Some r" "cached_slice e r offset limit = Some q"
        using pq [unfolded c'(3)] by (auto simp: bind_eq_Some_conv)
      have "ranked_ok (truth k slot) r" using e(1) slot r(1) by (simp add: entry_ok_def)
      from cached_slice_exact [OF this r(2)] show ?thesis
        using e(1) truth_facts(3,4) [of k slot] by (simp add: entry_ok_def)
    qed
    then show ?thesis using ok c'(1) e(2) slot by simp
  qed
qed

lemma store_total_ok:
  "page_cache_ok inv contents truth c \<Longrightarrow> page_cache_ok inv contents truth (store_total ops k (hit_total (truth k s)) c)"
  using modify_ok [of c k "\<lambda>e. e\<lparr>total := Some (hit_total (truth k s))\<rparr>"] truth_facts(3) [of k s]
  by (simp add: store_total_def entry_ok_def)

lemma store_books_ok:
  "page_cache_ok inv contents truth c \<Longrightarrow> page_cache_ok inv contents truth (store_book_counts ops k (hit_books (truth k s)) c)"
  using modify_ok [of c k "\<lambda>e. e\<lparr>book_counts := Some (hit_books (truth k s))\<rparr>"] truth_facts(4) [of k s]
  by (simp add: store_book_counts_def entry_ok_def)

lemma store_ranked_ok:
  assumes "page_cache_ok inv contents truth c" "store_ranked ops k slot (take window (hits (truth k slot))) window c = Some c'"
  shows "page_cache_ok inv contents truth c'"
proof (cases "cache_epoch k = epoch c")
  case True
  then have slot: "slot < 3" and c': "c' = c\<lparr>entries := lru_modify ops k entry_default
      (put_ranked slot (take window (hits (truth k slot))) window) (entries c)\<rparr>"
    using assms(2) by (auto simp: store_ranked_def split: if_splits)
  show ?thesis unfolding c'
    by (rule modify_ok [OF assms(1) True]) (rule put_ranked_ok [OF _ slot truth_facts(1) [of k slot] truth_facts(2) [of k slot] truth_facts(3) [of k slot]])
next
  case False
  then show ?thesis using assms by (simp add: store_ranked_def)
qed

lemma clear_ok: "page_cache_ok inv contents truth c \<Longrightarrow> page_cache_ok inv contents truth (cache_clear ops c)"
  using clear by (simp add: page_cache_ok_def cache_clear_def)

lemma step_ok: "cache_step ops truth c c' \<Longrightarrow> page_cache_ok inv contents truth c \<Longrightarrow> page_cache_ok inv contents truth c'"
proof (induction rule: cache_step.induct)
  case (step_page key slot offset limit c c' p)
  then show ?case using page_ok by blast
next
  case (step_total key c c' t)
  obtain es v where g: "lru_get ops key (entries c) = (es, v)" by fastforce
  with step_total get_ok [OF _ g] show ?case by (auto simp: cache_total_def)
next
  case (step_books key c c' b)
  obtain es v where g: "lru_get ops key (entries c) = (es, v)" by fastforce
  with step_books get_ok [OF _ g] show ?case by (auto simp: cache_book_counts_def)
qed (blast intro: store_ranked_ok store_total_ok store_books_ok clear_ok)+

lemma page_answers:
  assumes "page_cache_ok inv contents truth c" "slot < 3"
  shows "\<exists>c' p. cache_page ops k slot offset limit c = Some (c', p)"
proof -
  obtain es v where g: "lru_get ops k (entries c) = (es, v)" by fastforce
  then show ?thesis using get_ok [OF assms(1) g] assms(2) by (cases v) (auto simp: cache_page_def g entry_ok_def)
qed

lemma window_slice:
  assumes "ranked_window offset limit = Some w"
  shows "take limit (drop offset (take w xs)) = take limit (drop offset xs)"
proof -
  have "offset + limit \<le> w" using assms by (auto simp: ranked_window_def split: if_splits)
  then show ?thesis by (simp add: take_drop min_def add.commute)
qed

lemma ranked_page_ok:
  assumes "page_cache_ok inv contents truth c" "slot < 3" and pos: "0 < limit"
    and others: "\<And>i c. page_cache_ok inv contents truth c \<Longrightarrow> page_cache_ok inv contents truth (others i c)"
  shows "\<exists>c' p. ranked_page ops others (Some k) (Some (truth k slot)) slot offset limit counts c = Some (c', Some p)
    \<and> page_cache_ok inv contents truth c' \<and> page_right (truth k slot) offset limit counts p"
proof -
  let ?t = "truth k slot"
  obtain c1 page where look: "cache_page ops k slot offset limit c = Some (c1, page)" using page_answers [OF assms(1,2)] by blast
  note page_true = page_ok [OF assms(1) look]
  then have c1: "page_cache_ok inv contents truth c1" by blast
  have small: "hit_total ?t mod 4294967296 = hit_total ?t" using truth_facts(2) [of k slot] by simp
  show ?thesis
  proof (cases "served counts page")
    case (Some p)
    then have "page_right ?t offset limit counts p"
      using page_true by (auto simp: served_def page_right_def split: option.splits if_splits)
    then show ?thesis using Some c1 by (simp add: ranked_page_def look)
  next
    case None
    have st: "page_cache_ok inv contents truth (store_total ops k (hit_total ?t) (others 0 c))"
      "page_cache_ok inv contents truth (store_book_counts ops k (hit_books ?t) (others 1 c))"
      if "page_cache_ok inv contents truth c" for c
      using store_total_ok store_books_ok others that by blast+
    let ?tot = "if counts = NoCounts then None else Some (hit_total ?t)"
      and ?books = "if counts = TotalAndBooks then Some (hit_books ?t) else None"
    define c2 where "c2 = (case ?tot of None \<Rightarrow> c1 | Some t \<Rightarrow> store_total ops k t (others 0 c1))"
    define c3 where "c3 = (case ?books of None \<Rightarrow> c2 | Some b \<Rightarrow> store_book_counts ops k b (others 1 c2))"
    have c3: "page_cache_ok inv contents truth (others 2 c3)"
      unfolding c3_def c2_def by (rule others) (auto intro!: st c1 simp del: One_nat_def)
    show ?thesis
    proof (cases "ranked_window offset limit")
      case None': None
      have "ranked_page ops others (Some k) (Some ?t) slot offset limit counts c
          = Some (c1, Some \<lparr>rp_addresses = take limit (drop offset (hits ?t)), rp_total = (case ?tot of None \<Rightarrow> 0 | Some t \<Rightarrow> t), rp_books = ?books\<rparr>)"
        using None small pos by (simp add: ranked_page_def look None' collect_ranked_def top_docs_def)
      then show ?thesis using c1 by (auto simp: page_right_def)
    next
      case (Some w)
      have "\<exists>c4. store_ranked ops k slot (take w (hits ?t)) w (others 2 c3) = Some c4"
        using assms(2) by (cases "cache_epoch k = epoch (others 2 c3)") (simp_all add: store_ranked_def)
      then obtain c4 where c4: "store_ranked ops k slot (take w (hits ?t)) w (others 2 c3) = Some c4" by blast
      have "0 < w" using Some pos by (auto simp: ranked_window_def split: if_splits)
      then have "ranked_page ops others (Some k) (Some ?t) slot offset limit counts c
          = Some (c4, Some \<lparr>rp_addresses = take limit (drop offset (take w (hits ?t))), rp_total = (case ?tot of None \<Rightarrow> 0 | Some t \<Rightarrow> t), rp_books = ?books\<rparr>)"
        using None small c4 [unfolded c3_def c2_def] slice_eq [of offset "take w (hits ?t)" limit]
        by (cases counts) (simp_all add: ranked_page_def look Some collect_ranked_def top_docs_def Let_def)
      then show ?thesis using store_ranked_ok [OF c3 c4] window_slice [OF Some] by (auto simp: page_right_def)
    qed
  qed
qed

lemma count_ok:
  assumes "page_cache_ok inv contents truth c"
    and others: "\<And>c. page_cache_ok inv contents truth c \<Longrightarrow> page_cache_ok inv contents truth (others c)"
  shows "\<exists>c'. count_on ops others (Some k) (Some (truth k s)) c = (c', Some (hit_total (truth k s))) \<and> page_cache_ok inv contents truth c'"
    and "\<exists>c'. run_count_by_book ops others (Some k) (Some (truth k s)) c = (c', Some (hit_books (truth k s))) \<and> page_cache_ok inv contents truth c'"
proof -
  obtain es v where g: "lru_get ops k (entries c) = (es, v)" by fastforce
  note ok = get_ok [OF assms(1) g]
  have small: "hit_total (truth k s) mod 4294967296 = hit_total (truth k s)" using truth_facts(2) [of k s] by simp
  have known: "t = hit_total (truth k s)" if "Option.bind v total = Some t" for t
    using that ok truth_facts(3) [of k s] by (auto simp: bind_eq_Some_conv entry_ok_def)
  show "\<exists>c'. count_on ops others (Some k) (Some (truth k s)) c = (c', Some (hit_total (truth k s))) \<and> page_cache_ok inv contents truth c'"
    using ok known store_total_ok [OF others]
    by (cases "Option.bind v total") (auto simp: count_on_def cache_total_def g small Let_def)
  have known_books: "b = hit_books (truth k s)" if "Option.bind v book_counts = Some b" for b
    using that ok truth_facts(4) [of k s] by (auto simp: bind_eq_Some_conv entry_ok_def)
  show "\<exists>c'. run_count_by_book ops others (Some k) (Some (truth k s)) c = (c', Some (hit_books (truth k s))) \<and> page_cache_ok inv contents truth c'"
    using ok known_books store_books_ok [OF others]
    by (cases "Option.bind v book_counts") (auto simp: run_count_by_book_def cache_book_counts_def g Let_def)
qed

lemma ranking_kept:
  assumes "page_cache_ok inv contents truth c" "cache_epoch k = epoch c" "slot < 3"
    and "store_ranked ops k slot (take w (hits (truth k slot))) w c = Some c'"
    and enough: "offset + limit \<le> w" "offset + limit \<le> length (hits (truth k slot))"
  shows "\<exists>c'' p. cache_page ops k slot offset limit c' = Some (c'', Some p)"
proof -
  let ?f = "put_ranked slot (take w (hits (truth k slot))) w"
    and ?old = "case contents (entries c) k of None \<Rightarrow> entry_default | Some e \<Rightarrow> e"
  have c': "c' = c\<lparr>entries := lru_modify ops k entry_default ?f (entries c)\<rparr>"
    using assms(2-4) by (auto simp: store_ranked_def)
  have i: "inv (entries c)" using assms(1) by (simp add: page_cache_ok_def)
  have "entry_ok (truth k) ?old"
    using assms(1) entry_default_ok by (auto simp: page_cache_ok_def entry_true_def split: option.splits)
  then have len: "length (rankings ?old) = 3" by (simp add: entry_ok_def)
  obtain r where r: "rankings (?f ?old) ! slot = Some r" "complete r \<or> offset + limit \<le> length (addresses r)"
    using put_ranked_keeps [of slot ?old "offset + limit" "take w (hits (truth k slot))" w] len assms(3) enough by auto
  have rl: "length (rankings (?f ?old)) = 3" using len by (simp add: put_ranked_def Let_def)
  obtain es v where g: "lru_get ops k (entries c') = (es, v)" by fastforce
  have "v = contents (entries c') k" using get [of "entries c'" k es v] modify [OF i, of k entry_default ?f] g by (simp add: c')
  then have "v = Some (?f ?old)" using modify [OF i, of k entry_default ?f] by (simp add: c')
  then show ?thesis using r rl assms(3) by (auto simp: cache_page_def g cached_slice_def Let_def)
qed

lemma reachable_ok: "cache_reachable ops truth c \<Longrightarrow> page_cache_ok inv contents truth c"
proof (induction rule: cache_reachable.induct)
  case reach_new
  then show ?case using new [of ENTRIES] by (simp add: page_cache_ok_def page_cache_new_def ENTRIES_def)
qed (blast intro: step_ok)

end

subsection \<open>The library's map, as documented\<close>

text \<open>Entries from the most to the least recently used; a full map drops the last.\<close>

definition assoc_lru :: "(nat \<times> ('k \<times> 'v) list, 'k, 'v) lru" where
  "assoc_lru =
     \<lparr>lru_new = (\<lambda>n. (n, [])),
      lru_get = (\<lambda>k (n, kvs). case map_of kvs k of
          None \<Rightarrow> ((n, kvs), None)
        | Some v \<Rightarrow> ((n, (k, v) # filter (\<lambda>x. fst x \<noteq> k) kvs), Some v)),
      lru_modify = (\<lambda>k d f (n, kvs).
          (n, take n ((k, f (case map_of kvs k of None \<Rightarrow> d | Some v \<Rightarrow> v)) # filter (\<lambda>x. fst x \<noteq> k) kvs))),
      lru_clear = (\<lambda>(n, kvs). (n, []))\<rparr>"

definition assoc_inv :: "nat \<times> ('k \<times> 'v) list \<Rightarrow> bool" where
  "assoc_inv c \<longleftrightarrow> 0 < fst c"

definition assoc_contents :: "nat \<times> ('k \<times> 'v) list \<Rightarrow> 'k \<Rightarrow> 'v option" where
  "assoc_contents c = map_of (snd c)"

lemma map_of_without: "map_of (filter (\<lambda>x. fst x \<noteq> k) kvs) k' = (if k' = k then None else map_of kvs k')"
  by (induction kvs) auto

lemma map_of_front: "map_of ((k, v) # filter (\<lambda>x. fst x \<noteq> k) kvs) = (map_of kvs)(k \<mapsto> v)"
  by (auto simp: map_of_without fun_eq_iff)

lemma map_of_take: "map_of (take n kvs) k = None \<or> map_of (take n kvs) k = map_of kvs k"
proof (induction kvs arbitrary: n)
  case (Cons x kvs)
  show ?case by (cases n) (use Cons in auto)
qed simp

interpretation lib_lru: lru_cache assoc_lru assoc_inv assoc_contents
proof
  fix c c' :: "nat \<times> ('k \<times> 'v) list" and k v
  assume "assoc_inv c" "lru_get assoc_lru k c = (c', v)"
  then show "assoc_inv c' \<and> assoc_contents c' = assoc_contents c \<and> v = assoc_contents c k"
    by (cases c) (auto simp: assoc_lru_def assoc_inv_def assoc_contents_def map_of_without fun_eq_iff split: option.splits)
next
  fix c :: "nat \<times> ('k \<times> 'v) list" and k d f
  assume "assoc_inv c"
  moreover obtain n kvs where "c = (n, kvs)" by (cases c)
  moreover have "take n (x # xs) = x # take (n - 1) xs" if "0 < n" for n x and xs :: "('k \<times> 'v) list"
    using that by (cases n) simp_all
  ultimately show "assoc_inv (lru_modify assoc_lru k d f c) \<and> assoc_contents (lru_modify assoc_lru k d f c) k
      = Some (f (case assoc_contents c k of None \<Rightarrow> d | Some v \<Rightarrow> v))"
    by (simp add: assoc_lru_def assoc_inv_def assoc_contents_def)
next
  fix c :: "nat \<times> ('k \<times> 'v) list" and k k' :: 'k and d f
  assume "assoc_inv c" "k' \<noteq> k"
  then show "assoc_contents (lru_modify assoc_lru k d f c) k' = None
      \<or> assoc_contents (lru_modify assoc_lru k d f c) k' = assoc_contents c k'"
    using map_of_take [of "fst c" "(k, f (case map_of (snd c) k of None \<Rightarrow> d | Some v \<Rightarrow> v)) # filter (\<lambda>x. fst x \<noteq> k) (snd c)" k']
    by (cases c) (auto simp: assoc_lru_def assoc_contents_def map_of_without)
qed (auto simp: assoc_lru_def assoc_inv_def assoc_contents_def)

subsection \<open>What a page from the cache promises\<close>

text \<open>C23: Whatever threads did to the cache before, a page it serves is the page of the full search,
  with the total and the counts of that search if it has any, and its key is of the current
  epoch: after a clear, nothing found before is ever served.\<close>

theorem cached_pages_exact:
  assumes "lru_cache ops I cont" "truth_ok truth" "cache_reachable ops truth c"
    and "cache_page ops k slot offset limit c = Some (c', Some p)"
  shows "page_addresses p = take limit (drop offset (hits (truth k slot))) \<and> cache_epoch k = epoch c
    \<and> page_total p \<in> {None, Some (hit_total (truth k slot))} \<and> page_book_counts p \<in> {None, Some (hit_books (truth k slot))}"
proof -
  have tc: "true_cache ops I cont truth" using assms(1,2) by (simp add: true_cache_def true_cache_axioms_def)
  note page = true_cache.page_ok [OF tc true_cache.reachable_ok [OF tc assms(3)] assms(4)]
  have "page_total p \<in> {None, Some (hit_total (truth k slot))}" using page by (cases "page_total p") simp_all
  moreover have "page_book_counts p \<in> {None, Some (hit_books (truth k slot))}" using page by (cases "page_book_counts p") simp_all
  ultimately show ?thesis using page by blast
qed

lemma others_ok:
  assumes "true_cache ops I cont truth" "(cache_step ops truth)\<^sup>*\<^sup>* c c'" "page_cache_ok I cont truth c"
  shows "page_cache_ok I cont truth c'"
  using assms(2,3) by (induction rule: rtranclp_induct) (blast intro: true_cache.step_ok [OF assms(1)])+

text \<open>C5: A page of at least one hit of a search through the cache is the page of the full search, and
  so are the counts it was asked for, whether the cache served it or the index, and whatever steps other threads
  take between its accesses; likewise the total and the counts per book asked for alone.\<close>

theorem ranked_page_exact:
  assumes "lru_cache ops I cont" "truth_ok truth" "cache_reachable ops truth c" "slot < 3" "0 < limit"
    and others: "\<And>i c. (cache_step ops truth)\<^sup>*\<^sup>* c (others i c)"
  shows "(\<exists>c' p. ranked_page ops others (Some k) (Some (truth k slot)) slot offset limit counts c = Some (c', Some p)
      \<and> page_right (truth k slot) offset limit counts p)
    \<and> snd (count_on ops (others 0) (Some k) (Some (truth k slot)) c) = Some (hit_total (truth k slot))
    \<and> snd (run_count_by_book ops (others 0) (Some k) (Some (truth k slot)) c) = Some (hit_books (truth k slot))"
proof -
  have tc: "true_cache ops I cont truth" using assms(1,2) by (simp add: true_cache_def true_cache_axioms_def)
  note ok = true_cache.reachable_ok [OF tc assms(3)]
  have keep: "page_cache_ok I cont truth (others i c)" if "page_cache_ok I cont truth c" for i c
    using others_ok [OF tc others that] .
  from true_cache.ranked_page_ok [OF tc ok assms(4,5), of others k offset counts, OF keep]
  have "\<exists>c' p. ranked_page ops others (Some k) (Some (truth k slot)) slot offset limit counts c = Some (c', Some p)
      \<and> page_right (truth k slot) offset limit counts p" by blast
  moreover have "snd (count_on ops (others 0) (Some k) (Some (truth k slot)) c) = Some (hit_total (truth k slot))"
    using true_cache.count_ok(1) [OF tc ok, of "others 0" k slot, OF keep] by force
  moreover have "snd (run_count_by_book ops (others 0) (Some k) (Some (truth k slot)) c) = Some (hit_books (truth k slot))"
    using true_cache.count_ok(2) [OF tc ok, of "others 0" k slot, OF keep] by force
  ultimately show ?thesis by blast
qed

text \<open>A page of no hits is the library's panic when the cache does not serve it, as a fresh one does
  not: \<^verbatim>\<open>ranked_page\<close> passes the limit on as it is.\<close>

lemma ranked_page_limit_zero:
  assumes "lru_cache ops I cont"
  shows "ranked_page ops others key run slot offset 0 counts (page_cache_new ops) = None"
proof (cases key)
  case (Some k)
  obtain es v where g: "lru_get ops k (lru_new ops ENTRIES) = (es, v)" by fastforce
  have "v = None"
    using lru_cache.get [OF assms _ g] lru_cache.new [OF assms, of ENTRIES k] by (simp add: ENTRIES_def)
  then show ?thesis using Some g
    by (simp add: ranked_page_def cache_page_def page_cache_new_def served_def ranked_window_def top_docs_def)
qed (simp add: ranked_page_def served_def top_docs_def)

text \<open>Once a search has stored a ranking, every page inside its window and its hits is served from the
  cache, as long as the cache has not been cleared in between.\<close>

theorem next_pages_cached:
  assumes "lru_cache ops I cont" "truth_ok truth" "cache_reachable ops truth c" "cache_epoch k = epoch c" "slot < 3"
    and "store_ranked ops k slot (take w (hits (truth k slot))) w c = Some c'"
    and "offset + limit \<le> w" "offset + limit \<le> length (hits (truth k slot))"
  shows "\<exists>c'' p. cache_page ops k slot offset limit c' = Some (c'', Some p)"
proof -
  have tc: "true_cache ops I cont truth" using assms(1,2) by (simp add: true_cache_def true_cache_axioms_def)
  show ?thesis by (rule true_cache.ranking_kept [OF tc true_cache.reachable_ok [OF tc assms(3)] assms(4-8)])
qed

text \<open>A ranking of the same length is not replaced, even when only the new one is known to be
  complete: a page past the last hit is then never served.\<close>

lemma complete_ranking_dropped:
  "rankings (put_ranked 0 (replicate 40 (0, 0)) 80 (put_ranked 0 (replicate 40 (0, 0)) 40 entry_default)) ! 0
     = Some \<lparr>addresses = replicate 40 (0, 0), complete = False\<rparr>
   \<and> cached_slice e \<lparr>addresses = replicate 40 (0, 0), complete = False\<rparr> 40 10 = None"
  by (simp add: put_ranked_def entry_default_def cached_slice_def)

definition demo_truth :: truth where
  "demo_truth = (\<lambda>k s. \<lparr>hits = [(0, 3), (1, 5), (2, 7)], hit_total = 3, hit_books = (\<lambda>_. None)\<rparr>)"

definition demo_key :: page_key where
  "demo_key = \<lparr>snapshot = 1, cache_epoch = 0, order_epoch = 1, query_print = 7\<rparr>"

interpretation demo_cache: true_cache assoc_lru assoc_inv assoc_contents demo_truth
  by unfold_locales (simp add: truth_ok_def demo_truth_def)

definition demo_cache :: "(nat \<times> (page_key \<times> cache_entry) list) page_cache" where
  "demo_cache = the (store_ranked assoc_lru demo_key 2 (take 8 (hits (demo_truth demo_key 2))) 8 (page_cache_new assoc_lru))"

lemma demo_reachable: "cache_reachable assoc_lru demo_truth demo_cache"
proof (rule reach_step [OF reach_new])
  show "cache_step assoc_lru demo_truth (page_cache_new assoc_lru) demo_cache"
    by (rule step_store_ranked [where key = demo_key and slot = 2 and window = 8])
      (simp add: demo_cache_def store_ranked_def page_cache_new_def demo_key_def)
qed

theorem cached_pages_exact_witness:
  "\<exists>c' p. cache_page assoc_lru demo_key 2 1 5 demo_cache = Some (c', Some p) \<and> page_addresses p = [(1, 5), (2, 7)]"
proof -
  obtain c' p where p: "cache_page assoc_lru demo_key 2 1 5 demo_cache = Some (c', Some p)"
    by (simp add: cache_page_def demo_cache_def store_ranked_def page_cache_new_def demo_key_def assoc_lru_def put_ranked_def
        entry_default_def cached_slice_def demo_truth_def ENTRIES_def)
  from cached_pages_exact [OF lib_lru.lru_cache_axioms demo_cache.truth demo_reachable this] p
  show ?thesis by (simp add: demo_truth_def)
qed

theorem ranked_page_exact_witness:
  "\<exists>c' p. ranked_page assoc_lru (\<lambda>_ c. c) (Some demo_key) (Some (demo_truth demo_key 2)) 2 1 1 TotalCount demo_cache
     = Some (c', Some p) \<and> rp_addresses p = [(1, 5)] \<and> rp_total p = 3"
  using ranked_page_exact [OF lib_lru.lru_cache_axioms demo_cache.truth demo_reachable, of 2 1 "\<lambda>_ c. c" demo_key 1 TotalCount]
  by (auto simp: page_right_def demo_truth_def)

theorem next_pages_cached_witness:
  "\<exists>c'' p. cache_page assoc_lru demo_key 2 1 2 demo_cache = Some (c'', Some p)"
  by (rule next_pages_cached [OF lib_lru.lru_cache_axioms demo_cache.truth reach_new, of demo_key 2 8])
    (simp_all add: demo_cache_def store_ranked_def page_cache_new_def demo_key_def demo_truth_def)

end
