(* ===== verification/LibraryIndexing.thy ===== *)
theory LibraryIndexing
  imports Prelude
begin

section \<open>Indexing books of a library\<close>

text \<open>
  \<^verbatim>\<open>library_indexing.rs\<close>: books are read from their database and prepared by several worker
  threads, and enqueued in input order by the calling thread. A worker takes the next
  index, waits until the budget admits it (in input order, while the buffers in flight stay
  within the limit), prepares the book and sends the outcome over a bounded channel. The
  receiver keeps outcomes that come too early and enqueues each book when its turn comes,
  which releases its buffers. Cancelling, or an error of the writer, stops the workers.

  The threads are a step relation; the caller's \<^verbatim>\<open>cancel\<close> is not one of its steps, it may come
  between any two of them. Reading the database, preparing the text and the writer are
  parameters: \<open>answers i\<close> is what they answer for book \<open>i\<close>, arbitrary but its own. Proved: the
  buffers in flight never exceed the limit and are never released twice, books are
  enqueued in input order, the threads alone never get stuck, and a batch that is not cancelled
  gives every book the result \<open>own_result\<close> of its own answers. Error messages are values of
  \<open>library_error\<close>.
\<close>

subsection \<open>Where a book comes from\<close>

datatype library_book_source = Library | UserBooks | Attached

datatype line_source = SourceLibrary | SourceUserBooks | SourceAttached string

datatype text_storage = InIndex | LibraryDb

datatype source_unavailable = Unconfigured | Suspended | Busy | NoFile | ReadFailed

datatype library_error =
    InvalidSlug string
  | SlugMismatch
  | WrongFilePath
  | RowsUnreadable
  | SourceError source_unavailable
  | PrepareFailed
  | PreparePanicked

record library_book_input =
  source :: library_book_source
  attached_slug :: "string option"
  book_id :: int
  file_path :: string
  source_hash_in :: "nat option"
  storage :: text_storage

text \<open>\<^verbatim>\<open>Source::attached\<close>: the pattern a slug must match is the parameter \<open>slug_ok\<close>.\<close>

definition source_attached :: "(string \<Rightarrow> bool) \<Rightarrow> string \<Rightarrow> line_source option" where
  "source_attached slug_ok slug = (if slug_ok slug then Some (SourceAttached slug) else None)"

definition line_source_of :: "(string \<Rightarrow> bool) \<Rightarrow> library_book_source \<Rightarrow> string option \<Rightarrow> library_error + line_source" where
  "line_source_of slug_ok src slug =
     (case (src, slug) of
        (Library, None) \<Rightarrow> Inr SourceLibrary
      | (UserBooks, None) \<Rightarrow> Inr SourceUserBooks
      | (Attached, Some sl) \<Rightarrow>
          (case source_attached slug_ok sl of Some s \<Rightarrow> Inr s | None \<Rightarrow> Inl (InvalidSlug sl))
      | _ \<Rightarrow> Inl SlugMismatch)"

text \<open>\<^verbatim>\<open>line_source_book\<close>: the book a file path names, \<open>id:7\<close>, \<open>uid:7\<close> or \<open>db:slug:7\<close>, the
  number written canonically and at most \<^verbatim>\<open>i64::MAX\<close>.\<close>

definition digit_char :: "nat \<Rightarrow> char" where
  "digit_char d = char_of (48 + d)"

fun nat_to_string :: "nat \<Rightarrow> string" where
  "nat_to_string n = (if n < 10 then [digit_char n] else nat_to_string (n div 10) @ [digit_char (n mod 10)])"

declare nat_to_string.simps [simp del]

definition digits_value :: "string \<Rightarrow> nat" where
  "digits_value s = foldl (\<lambda>n c. 10 * n + (of_char c - 48)) 0 s"

definition is_digit :: "char \<Rightarrow> bool" where
  "is_digit c \<longleftrightarrow> 48 \<le> (of_char c :: nat) \<and> (of_char c :: nat) \<le> 57"

definition parse_book_id :: "string \<Rightarrow> nat option" where
  "parse_book_id s =
     (if s \<noteq> [] \<and> list_all is_digit s \<and> digits_value s \<le> 9223372036854775807 \<and> nat_to_string (digits_value s) = s
      then Some (digits_value s) else None)"

definition strip_prefix :: "string \<Rightarrow> string \<Rightarrow> string option" where
  "strip_prefix p s = (if take (length p) s = p then Some (drop (length p) s) else None)"

definition rsplit_colon :: "string \<Rightarrow> (string \<times> string) option" where
  "rsplit_colon s =
     (if CHR '':'' \<in> set s
      then Some (rev (tl (dropWhile (\<lambda>c. c \<noteq> CHR '':'') (rev s))), rev (takeWhile (\<lambda>c. c \<noteq> CHR '':'') (rev s)))
      else None)"

definition line_source_book :: "(string \<Rightarrow> bool) \<Rightarrow> string \<Rightarrow> (line_source \<times> int) option" where
  "line_source_book slug_ok path = do {
     (src, digits) \<leftarrow>
       (case strip_prefix ''id:'' path of
          Some digits \<Rightarrow> Some (SourceLibrary, digits)
        | None \<Rightarrow>
            (case strip_prefix ''uid:'' path of
               Some digits \<Rightarrow> Some (SourceUserBooks, digits)
             | None \<Rightarrow> do {
                 rest \<leftarrow> strip_prefix ''db:'' path;
                 (slug, digits) \<leftarrow> rsplit_colon rest;
                 s \<leftarrow> source_attached slug_ok slug;
                 Some (s, digits) }));
     ident \<leftarrow> parse_book_id digits;
     Some (src, int ident) }"

text \<open>The path of a book, and that \<open>line_source_book\<close> inverts it.\<close>

definition library_path :: "line_source \<Rightarrow> int \<Rightarrow> string" where
  "library_path src i =
     (case src of SourceLibrary \<Rightarrow> ''id:'' | SourceUserBooks \<Rightarrow> ''uid:'' | SourceAttached slug \<Rightarrow> ''db:'' @ slug @ '':'')
       @ nat_to_string (nat i)"

definition valid_source :: "(string \<Rightarrow> bool) \<Rightarrow> line_source \<Rightarrow> bool" where
  "valid_source slug_ok src \<longleftrightarrow> (case src of SourceAttached slug \<Rightarrow> slug_ok slug | _ \<Rightarrow> True)"

lemma digit_char_value: "d < 10 \<Longrightarrow> of_char (digit_char d) = (48 + d :: nat)"
  by (simp add: digit_char_def)

lemma nat_to_string_digits: "list_all is_digit (nat_to_string n) \<and> nat_to_string n \<noteq> []"
proof (induction n rule: nat_to_string.induct)
  case (1 n)
  have "is_digit (digit_char (n mod 10))" by (simp add: is_digit_def digit_char_value)
  then show ?case using 1 by (subst (1 2) nat_to_string.simps) auto
qed

lemma digits_value_append: "digits_value (s @ [c]) = 10 * digits_value s + (of_char c - 48)"
  by (simp add: digits_value_def)

lemma digits_value_nat_to_string: "digits_value (nat_to_string n) = n"
proof (induction n rule: nat_to_string.induct)
  case (1 n)
  show ?case
  proof (cases "n < 10")
    case True
    then show ?thesis by (subst nat_to_string.simps) (simp add: digits_value_def digit_char_value)
  next
    case False
    then show ?thesis using 1 by (subst nat_to_string.simps) (simp add: digits_value_append digit_char_value)
  qed
qed

lemma parse_book_id_Some:
  "parse_book_id s = Some n \<longleftrightarrow> s = nat_to_string n \<and> n \<le> 9223372036854775807"
  using nat_to_string_digits[of n] by (auto simp: parse_book_id_def digits_value_nat_to_string)

lemma strip_prefix_Some: "strip_prefix p s = Some r \<longleftrightarrow> s = p @ r"
  by (auto simp: strip_prefix_def) (metis append_take_drop_id)

lemma rsplit_colon_Some:
  assumes "CHR '':'' \<notin> set b"
  shows "rsplit_colon (a @ CHR '':'' # b) = Some (a, b)"
proof -
  have "takeWhile (\<lambda>c. c \<noteq> CHR '':'') (rev b @ CHR '':'' # rev a) = rev b"
    "dropWhile (\<lambda>c. c \<noteq> CHR '':'') (rev b @ CHR '':'' # rev a) = CHR '':'' # rev a"
    using assms by (subst takeWhile_append2 dropWhile_append2; auto)+
  then show ?thesis by (simp add: rsplit_colon_def)
qed

lemma rsplit_colon_inv: "rsplit_colon s = Some (a, b) \<Longrightarrow> s = a @ CHR '':'' # b \<and> CHR '':'' \<notin> set b"
proof -
  let ?P = "\<lambda>c. c \<noteq> CHR '':''"
  assume "rsplit_colon s = Some (a, b)"
  then have mem: "CHR '':'' \<in> set (rev s)" and a: "a = rev (tl (dropWhile ?P (rev s)))" and b: "b = rev (takeWhile ?P (rev s))"
    by (auto simp: rsplit_colon_def split: if_splits)
  then obtain x xs where d: "dropWhile ?P (rev s) = x # xs" by (cases "dropWhile ?P (rev s)") auto
  then have "x = CHR '':''" using hd_dropWhile[of ?P "rev s"] by (metis list.sel(1) list.distinct(1))
  then have "rev s = takeWhile ?P (rev s) @ CHR '':'' # xs" using d takeWhile_dropWhile_id[of ?P "rev s"] by metis
  then have "s = a @ CHR '':'' # b" unfolding a b d by (metis append.assoc append_Cons append_Nil list.sel(3) rev.simps(2) rev_append rev_rev_ident)
  then show ?thesis using b by (auto dest: set_takeWhileD)
qed

lemma no_colon: "CHR '':'' \<notin> set (nat_to_string n)"
  using nat_to_string_digits[of n] by (auto simp: list_all_iff is_digit_def)

lemma strip_prefix_evals:
  "strip_prefix ''id:'' (''id:'' @ r) = Some r" "strip_prefix ''id:'' (''uid:'' @ r) = None"
  "strip_prefix ''uid:'' (''uid:'' @ r) = Some r" "strip_prefix ''id:'' (''db:'' @ r) = None"
  "strip_prefix ''uid:'' (''db:'' @ r) = None" "strip_prefix ''db:'' (''db:'' @ r) = Some r"
  by (simp_all add: strip_prefix_def)

lemma line_source_book_path:
  assumes "valid_source slug_ok src" "0 \<le> i" "i \<le> 9223372036854775807"
  shows "line_source_book slug_ok (library_path src i) = Some (src, i)"
proof -
  have "parse_book_id (nat_to_string (nat i)) = Some (nat i)" using assms(3) by (simp add: parse_book_id_Some)
  moreover have "rsplit_colon (slug @ '':'' @ nat_to_string n) = Some (slug, nat_to_string n)" for slug n
    using rsplit_colon_Some[OF no_colon] by simp
  ultimately show ?thesis using assms(1,2)
    by (cases src) (simp_all add: line_source_book_def library_path_def strip_prefix_evals valid_source_def
        source_attached_def del: append.simps append_Cons)
qed

lemma line_source_book_inv:
  assumes "line_source_book slug_ok path = Some (src, i)"
  shows "path = library_path src i \<and> valid_source slug_ok src \<and> 0 \<le> i \<and> i \<le> 9223372036854775807"
proof -
  obtain digits ident where d: "parse_book_id digits = Some ident" "i = int ident"
    and src: "(src = SourceLibrary \<and> path = ''id:'' @ digits) \<or> (src = SourceUserBooks \<and> path = ''uid:'' @ digits) \<or>
      (\<exists>slug. src = SourceAttached slug \<and> slug_ok slug \<and> path = ''db:'' @ slug @ '':'' @ digits)"
    using assms unfolding line_source_book_def
    by (fastforce simp: strip_prefix_Some source_attached_def bind_eq_Some_conv dest!: rsplit_colon_inv
        split: option.splits if_splits)
  have "digits = nat_to_string ident" "ident \<le> 9223372036854775807" using d(1) by (simp_all add: parse_book_id_Some)
  then show ?thesis using d(2) src by (auto simp: library_path_def valid_source_def)
qed

text \<open>\<^verbatim>\<open>line_source_book\<close> names a book of a path exactly when the path is the canonical one of that
  book: no two books share a path, and no two paths name a book.\<close>

theorem line_source_book_round_trip:
  "line_source_book slug_ok path = Some (src, i) \<longleftrightarrow>
     path = library_path src i \<and> valid_source slug_ok src \<and> 0 \<le> i \<and> i \<le> 9223372036854775807"
  using line_source_book_path line_source_book_inv by metis

subsection \<open>Results\<close>

datatype library_book_status = Indexed | Missing | Unavailable | Failed | Cancelled

record library_book_result =
  res_book :: int
  res_status :: library_book_status
  res_docs :: nat
  res_storage :: text_storage
  res_number :: nat
  res_content_hash :: nat
  res_text_hash :: nat
  res_metadata_hash :: nat
  res_source_hash :: nat
  res_error :: "library_error option"

definition book_result :: "library_book_input \<Rightarrow> library_book_status \<Rightarrow> library_book_result" where
  "book_result book st =
     \<lparr>res_book = book_id book, res_status = st, res_docs = 0, res_storage = storage book, res_number = 0,
      res_content_hash = 0, res_text_hash = 0, res_metadata_hash = 0, res_source_hash = 0, res_error = None\<rparr>"

definition book_failed :: "library_book_input \<Rightarrow> library_error \<Rightarrow> library_book_result" where
  "book_failed book e = (book_result book Failed)\<lparr>res_error := Some e\<rparr>"

record prepared_book =
  p_number :: nat
  p_content_hash :: nat
  p_text_hash :: nat
  p_metadata_hash :: nat
  p_source_hash :: nat
  p_storage :: text_storage
  p_source_generation :: "(line_source \<times> nat) option"

datatype outcome = Prepared prepared_book | Done library_book_result

subsection \<open>Preparing one book\<close>

record indexing_text =
  text_empty :: bool
  row_has_newline :: bool
  has_notes :: bool

text \<open>What the outside answers for one book: opening its source (the generation), reading its rows,
  preparing the text with a given storage, whether the source has changed when its turn
  comes, and how many documents the writer takes, \<open>None\<close> its error. Reading and preparing may
  panic, an outer \<open>None\<close>.\<close>

record book_answers =
  begin_scan :: "line_source \<Rightarrow> source_unavailable + nat"
  read_book :: "(source_unavailable + indexing_text option) option"
  prepare_text :: "text_storage \<Rightarrow> nat \<Rightarrow> prepared_book option option"
  source_changed :: "line_source \<Rightarrow> nat \<Rightarrow> bool"
  enqueued :: "nat option"

text \<open>What the looks at \<^verbatim>\<open>stop\<close> find: the one after the read, those inside the preparation, which
  ends it with an error, and the one after its error. A look finds only what is so, and
  \<^verbatim>\<open>stop\<close> never turns back.\<close>

record stop_looks =
  stop_after_read :: bool
  interrupted :: bool
  stop_after_prepare :: bool

definition looks_ok :: "bool \<Rightarrow> stop_looks \<Rightarrow> bool" where
  "looks_ok stop look \<longleftrightarrow> (stop_after_read look \<or> stop_after_prepare look \<longrightarrow> stop)
     \<and> (interrupted look \<longrightarrow> stop_after_prepare look)"

text \<open>\<^verbatim>\<open>prepare_checked\<close>; \<open>None\<close> is a panic.\<close>

definition prepare_checked :: "(string \<Rightarrow> bool) \<Rightarrow> stop_looks \<Rightarrow> book_answers \<Rightarrow> library_book_input \<Rightarrow> outcome option" where
  "prepare_checked slug_ok look ans book =
     (case line_source_of slug_ok (source book) (attached_slug book) of
        Inl e \<Rightarrow> Some (Done (book_failed book e))
      | Inr src \<Rightarrow>
          if storage book = LibraryDb \<and> line_source_book slug_ok (file_path book) \<noteq> Some (src, book_id book)
          then Some (Done (book_failed book WrongFilePath))
          else
            (case begin_scan ans src of
               Inl u \<Rightarrow> Some (Done ((book_result book Unavailable)\<lparr>res_error := Some (SourceError u)\<rparr>))
             | Inr generation \<Rightarrow>
                 if stop_after_read look then Some (Done (book_result book Cancelled))
                 else
                   (case read_book ans of
                      None \<Rightarrow> None
                    | Some (Inl ReadFailed) \<Rightarrow> Some (Done (book_failed book RowsUnreadable))
                    | Some (Inl u) \<Rightarrow> Some (Done ((book_result book Unavailable)\<lparr>res_error := Some (SourceError u)\<rparr>))
                    | Some (Inr None) \<Rightarrow> Some (Done (book_result book Missing))
                    | Some (Inr (Some t)) \<Rightarrow>
                        if text_empty t then Some (Done (book_result book Missing))
                        else
                          (let st = (if row_has_newline t \<or> has_notes t then InIndex else storage book);
                               prepared = (if interrupted look then Some None
                                 else prepare_text ans st (case source_hash_in book of None \<Rightarrow> 0 | Some h \<Rightarrow> h))
                           in case prepared of
                                None \<Rightarrow> None
                              | Some (Some p) \<Rightarrow> Some (Prepared (p\<lparr>p_source_generation := Some (src, generation)\<rparr>))
                              | Some None \<Rightarrow>
                                  if stop_after_prepare look then Some (Done (book_result book Cancelled))
                                  else Some (Done (book_failed book PrepareFailed))))))"

text \<open>The worker catches a panic of the preparation.\<close>

definition prepare_caught :: "(string \<Rightarrow> bool) \<Rightarrow> stop_looks \<Rightarrow> book_answers \<Rightarrow> library_book_input \<Rightarrow> outcome" where
  "prepare_caught slug_ok look ans book =
     (case prepare_checked slug_ok look ans book of
        None \<Rightarrow> Done (book_failed book PreparePanicked)
      | Some out \<Rightarrow> out)"

text \<open>One book at its turn: \<open>changed\<close> tells whether its source has changed since it was read, \<open>enq\<close> how
  many documents the writer took, \<open>None\<close> its error. The result, or the error that ends the
  batch.\<close>

definition enqueue_book :: "bool \<Rightarrow> (line_source \<Rightarrow> nat \<Rightarrow> bool) \<Rightarrow> nat option \<Rightarrow> library_book_input \<Rightarrow> outcome \<Rightarrow> library_book_result option" where
  "enqueue_book cancelled changed enq book out =
     (case out of
        Done r \<Rightarrow> Some r
      | Prepared p \<Rightarrow>
          if cancelled then Some (book_result book Cancelled)
          else if (case p_source_generation p of None \<Rightarrow> False | Some (src, generation) \<Rightarrow> changed src generation)
          then Some (book_result book Unavailable)
          else map_option (\<lambda>docs.
             \<lparr>res_book = book_id book, res_status = Indexed, res_docs = docs, res_storage = p_storage p,
              res_number = p_number p, res_content_hash = p_content_hash p, res_text_hash = p_text_hash p,
              res_metadata_hash = p_metadata_hash p, res_source_hash = p_source_hash p, res_error = None\<rparr>) enq)"

subsection \<open>The result of a book on its own\<close>

text \<open>The source a book names, and whether the book can be read from it: a book whose text stays in
  the library's database must have the path of that book.\<close>

definition names_source :: "(string \<Rightarrow> bool) \<Rightarrow> library_book_input \<Rightarrow> line_source \<Rightarrow> bool" where
  "names_source slug_ok book src \<longleftrightarrow>
     (case src of
        SourceLibrary \<Rightarrow> source book = Library \<and> attached_slug book = None
      | SourceUserBooks \<Rightarrow> source book = UserBooks \<and> attached_slug book = None
      | SourceAttached slug \<Rightarrow> source book = Attached \<and> attached_slug book = Some slug \<and> slug_ok slug)"

definition own_path :: "library_book_input \<Rightarrow> line_source \<Rightarrow> bool" where
  "own_path book src \<longleftrightarrow> (storage book = LibraryDb \<longrightarrow>
     file_path book = library_path src (book_id book) \<and> 0 \<le> book_id book \<and> book_id book \<le> 9223372036854775807)"

text \<open>The text of a book: its generation and its rows, when its source could be read.\<close>

definition has_text :: "(string \<Rightarrow> bool) \<Rightarrow> book_answers \<Rightarrow> library_book_input \<Rightarrow> line_source \<Rightarrow> nat \<Rightarrow> indexing_text \<Rightarrow> bool" where
  "has_text slug_ok ans book src generation t \<longleftrightarrow> names_source slug_ok book src \<and> own_path book src
     \<and> begin_scan ans src = Inr generation \<and> read_book ans = Some (Inr (Some t)) \<and> \<not> text_empty t"

text \<open>The storage a text gets, and what preparing it answers.\<close>

definition preparation :: "book_answers \<Rightarrow> library_book_input \<Rightarrow> indexing_text \<Rightarrow> prepared_book option option" where
  "preparation ans book t =
     prepare_text ans (if \<not> row_has_newline t \<and> \<not> has_notes t then storage book else InIndex)
       (if source_hash_in book = None then 0 else the (source_hash_in book))"

text \<open>The result of a book that no cancel touches, from its own answers: one rule for each way it can
  end.\<close>

inductive own_result :: "(string \<Rightarrow> bool) \<Rightarrow> book_answers \<Rightarrow> library_book_input \<Rightarrow> library_book_result \<Rightarrow> bool"
  for slug_ok ans book where
  own_bad_slug: "\<lbrakk>source book = Attached; attached_slug book = Some slug; \<not> slug_ok slug\<rbrakk>
    \<Longrightarrow> own_result slug_ok ans book (book_failed book (InvalidSlug slug))"
| own_no_source: "source book = Attached \<longleftrightarrow> attached_slug book = None
    \<Longrightarrow> own_result slug_ok ans book (book_failed book SlugMismatch)"
| own_wrong_path: "\<lbrakk>names_source slug_ok book src; \<not> own_path book src\<rbrakk>
    \<Longrightarrow> own_result slug_ok ans book (book_failed book WrongFilePath)"
| own_closed: "\<lbrakk>names_source slug_ok book src; own_path book src; begin_scan ans src = Inl u\<rbrakk>
    \<Longrightarrow> own_result slug_ok ans book ((book_result book Unavailable)\<lparr>res_error := Some (SourceError u)\<rparr>)"
| own_read_panic: "\<lbrakk>names_source slug_ok book src; own_path book src; begin_scan ans src = Inr g; read_book ans = None\<rbrakk>
    \<Longrightarrow> own_result slug_ok ans book (book_failed book PreparePanicked)"
| own_unreadable: "\<lbrakk>names_source slug_ok book src; own_path book src; begin_scan ans src = Inr g;
      read_book ans = Some (Inl ReadFailed)\<rbrakk>
    \<Longrightarrow> own_result slug_ok ans book (book_failed book RowsUnreadable)"
| own_unavailable: "\<lbrakk>names_source slug_ok book src; own_path book src; begin_scan ans src = Inr g;
      read_book ans = Some (Inl u); u \<noteq> ReadFailed\<rbrakk>
    \<Longrightarrow> own_result slug_ok ans book ((book_result book Unavailable)\<lparr>res_error := Some (SourceError u)\<rparr>)"
| own_missing: "\<lbrakk>names_source slug_ok book src; own_path book src; begin_scan ans src = Inr g;
      read_book ans = Some (Inr t); \<forall>x. t = Some x \<longrightarrow> text_empty x\<rbrakk>
    \<Longrightarrow> own_result slug_ok ans book (book_result book Missing)"
| own_prepare_panic: "\<lbrakk>has_text slug_ok ans book src g t; preparation ans book t = None\<rbrakk>
    \<Longrightarrow> own_result slug_ok ans book (book_failed book PreparePanicked)"
| own_prepare_failed: "\<lbrakk>has_text slug_ok ans book src g t; preparation ans book t = Some None\<rbrakk>
    \<Longrightarrow> own_result slug_ok ans book (book_failed book PrepareFailed)"
| own_changed: "\<lbrakk>has_text slug_ok ans book src g t; preparation ans book t = Some (Some p); source_changed ans src g\<rbrakk>
    \<Longrightarrow> own_result slug_ok ans book (book_result book Unavailable)"
| own_indexed: "\<lbrakk>has_text slug_ok ans book src g t; preparation ans book t = Some (Some p); \<not> source_changed ans src g;
      enqueued ans = Some docs\<rbrakk>
    \<Longrightarrow> own_result slug_ok ans book
         \<lparr>res_book = book_id book, res_status = Indexed, res_docs = docs, res_storage = p_storage p,
          res_number = p_number p, res_content_hash = p_content_hash p, res_text_hash = p_text_hash p,
          res_metadata_hash = p_metadata_hash p, res_source_hash = p_source_hash p, res_error = None\<rparr>"

lemma names_source_unique: "names_source slug_ok book src \<Longrightarrow> names_source slug_ok book src' \<Longrightarrow> src = src'"
  by (auto simp: names_source_def split: line_source.splits)

lemma line_source_of_names: "line_source_of slug_ok (source book) (attached_slug book) = Inr src \<longleftrightarrow> names_source slug_ok book src"
  by (cases "source book"; cases "attached_slug book"; cases src)
    (auto simp: line_source_of_def source_attached_def names_source_def split: if_splits)

lemma line_source_of_error:
  "line_source_of slug_ok (source book) (attached_slug book) = Inl e \<Longrightarrow>
     (\<exists>slug. e = InvalidSlug slug \<and> source book = Attached \<and> attached_slug book = Some slug \<and> \<not> slug_ok slug)
     \<or> e = SlugMismatch \<and> (source book = Attached \<longleftrightarrow> attached_slug book = None)"
  by (cases "source book"; cases "attached_slug book")
    (auto simp: line_source_of_def source_attached_def split: if_splits)

lemma own_path_iff:
  assumes "names_source slug_ok book src"
  shows "own_path book src \<longleftrightarrow>
    \<not> (storage book = LibraryDb \<and> line_source_book slug_ok (file_path book) \<noteq> Some (src, book_id book))"
proof -
  have "valid_source slug_ok src" using assms by (auto simp: names_source_def valid_source_def split: line_source.splits)
  then have "line_source_book slug_ok (file_path book) = Some (src, book_id book) \<longleftrightarrow>
      file_path book = library_path src (book_id book) \<and> 0 \<le> book_id book \<and> book_id book \<le> 9223372036854775807"
    using line_source_book_path line_source_book_inv by metis
  then show ?thesis by (auto simp: own_path_def)
qed

lemma line_source_of_mismatch:
  "source book = Attached \<longleftrightarrow> attached_slug book = None
    \<Longrightarrow> line_source_of slug_ok (source book) (attached_slug book) = Inl SlugMismatch"
  by (cases "source book"; cases "attached_slug book") (simp_all add: line_source_of_def)

definition no_stop :: stop_looks where
  "no_stop = \<lparr>stop_after_read = False, interrupted = False, stop_after_prepare = False\<rparr>"

lemma preparation_alt:
  "prepare_text ans (if row_has_newline t \<or> has_notes t then InIndex else storage book)
     (case source_hash_in book of None \<Rightarrow> 0 | Some h \<Rightarrow> h) = preparation ans book t"
  by (auto simp: preparation_def split: option.splits)

lemma prepare_checked_source:
  assumes "names_source slug_ok book src" "own_path book src"
  shows "prepare_checked slug_ok look ans book =
    (case begin_scan ans src of
       Inl u \<Rightarrow> Some (Done ((book_result book Unavailable)\<lparr>res_error := Some (SourceError u)\<rparr>))
     | Inr g \<Rightarrow>
         if stop_after_read look then Some (Done (book_result book Cancelled))
         else case read_book ans of
           None \<Rightarrow> None
         | Some (Inl u) \<Rightarrow> Some (Done (if u = ReadFailed then book_failed book RowsUnreadable
             else (book_result book Unavailable)\<lparr>res_error := Some (SourceError u)\<rparr>))
         | Some (Inr None) \<Rightarrow> Some (Done (book_result book Missing))
         | Some (Inr (Some t)) \<Rightarrow>
             if text_empty t then Some (Done (book_result book Missing))
             else case (if interrupted look then Some None else preparation ans book t) of
               None \<Rightarrow> None
             | Some None \<Rightarrow> Some (Done (if stop_after_prepare look then book_result book Cancelled
                 else book_failed book PrepareFailed))
             | Some (Some p) \<Rightarrow> Some (Prepared (p\<lparr>p_source_generation := Some (src, g)\<rparr>)))"
proof -
  have path: "\<not> (storage book = LibraryDb \<and> line_source_book slug_ok (file_path book) \<noteq> Some (src, book_id book))"
    using assms own_path_iff by blast
  have src: "line_source_of slug_ok (source book) (attached_slug book) = Inr src"
    using assms(1) line_source_of_names by blast
  show ?thesis
    unfolding prepare_checked_def Let_def preparation_alt src sum.case if_not_P [OF path]
    by (simp split: sum.splits option.splits source_unavailable.splits)
qed

lemma own_result_gets:
  "own_result slug_ok ans book r \<Longrightarrow>
    enqueue_book False (source_changed ans) (enqueued ans) book (prepare_caught slug_ok no_stop ans book) = Some r"
proof (induction rule: own_result.induct)
  case (own_bad_slug slug)
  then show ?case
    by (simp add: prepare_caught_def prepare_checked_def line_source_of_def source_attached_def enqueue_book_def)
next
  case own_no_source
  then show ?case
    using line_source_of_mismatch [of book slug_ok]
    by (simp add: prepare_caught_def prepare_checked_def enqueue_book_def)
next
  case (own_wrong_path src)
  then show ?case
    using own_path_iff [of slug_ok book src] line_source_of_names [of slug_ok book src]
    by (simp add: prepare_caught_def prepare_checked_def enqueue_book_def)
next
  case (own_missing src g t)
  then show ?case
    by (cases t) (simp_all add: prepare_caught_def prepare_checked_source no_stop_def enqueue_book_def)
qed (auto simp: prepare_caught_def prepare_checked_source no_stop_def enqueue_book_def has_text_def)

text \<open>It is one result.\<close>

lemma own_result_unique: "own_result slug_ok ans book r \<Longrightarrow> own_result slug_ok ans book r' \<Longrightarrow> r = r'"
  using own_result_gets [of slug_ok ans book r] own_result_gets [of slug_ok ans book r'] by simp

subsection \<open>The batch\<close>

record preparation_policy =
  book_workers :: nat
  cpu_threads :: nat
  text_bytes :: nat
  document_bytes :: nat
  window_lines :: nat
  window_bytes :: nat

definition preparation_threads :: "nat \<Rightarrow> nat" where
  "preparation_threads cores =
     (let h = cores div 2 in if h \<le> 1 then 1 else if h \<le> 3 then 2 else if h \<le> 7 then 4 else 8)"

definition for_platform :: "bool \<Rightarrow> nat \<Rightarrow> bool \<Rightarrow> preparation_policy" where
  "for_platform economy cores mobile =
     (if economy
      then \<lparr>book_workers = 1, cpu_threads = 1, text_bytes = 2 ^ 20, document_bytes = 2 * 2 ^ 20,
            window_lines = 256, window_bytes = 2 ^ 20\<rparr>
      else (let threads = (if mobile then 1 else preparation_threads cores)
            in \<lparr>book_workers = min (max (threads div 2) 1) 4, cpu_threads = threads,
                text_bytes = (if mobile then 8 * 2 ^ 20 else 32 * 2 ^ 20),
                document_bytes = (if mobile then 16 * 2 ^ 20 else 64 * 2 ^ 20),
                window_lines = (if mobile then 2048 else 16384),
                window_bytes = (if mobile then 2 * 2 ^ 20 else 16 * 2 ^ 20)\<rparr>))"

definition reservation :: "preparation_policy \<Rightarrow> nat" where
  "reservation p = text_bytes p + document_bytes p"


text \<open>What a worker is doing: about to take an index, waiting in \<^verbatim>\<open>Budget::admit\<close>, preparing,
  sending the outcome, or gone. The receiver waits for an outcome, enqueues what has become
  next, has returned, or has failed on the writer's error (\<^verbatim>\<open>rx\<close> dropped).\<close>

datatype worker = Idle | Waiting nat | Preparing nat | Sending nat outcome | Exited

datatype receiver = Receiving | Draining | Finished | WriterFailed

text \<open>The counter \<^verbatim>\<open>next_book\<close>, the budget's two fields, the threads, the channel, what the receiver
  keeps in \<^verbatim>\<open>waiting\<close>, its \<^verbatim>\<open>next\<close> and \<^verbatim>\<open>results\<close>, the token and \<^verbatim>\<open>abort\<close>; \<open>written\<close> records the
  books whose documents went to the writer.\<close>

record batch =
  next_book :: nat
  in_flight :: nat
  next_admit :: nat
  workers :: "worker list"
  channel :: "(nat \<times> outcome) list"
  waiting :: "(nat \<times> outcome) list"
  next_enq :: nat
  results :: "library_book_result option list"
  cancelled :: bool
  abort :: bool
  receiver :: receiver
  written :: "nat list"

definition batch_start :: "preparation_policy \<Rightarrow> library_book_input list \<Rightarrow> batch" where
  "batch_start pol books =
     \<lparr>next_book = 0, in_flight = 0, next_admit = 0,
      workers = replicate (min (book_workers pol) (length books)) Idle,
      channel = [], waiting = [], next_enq = 0, results = replicate (length books) None,
      cancelled = False, abort = False, receiver = Receiving, written = []\<rparr>"

definition stopped :: "batch \<Rightarrow> bool" where
  "stopped s \<longleftrightarrow> cancelled s \<or> abort s"

definition budget_limit :: "preparation_policy \<Rightarrow> nat" where
  "budget_limit pol = reservation pol * book_workers pol"

text \<open>\<^verbatim>\<open>Budget::admit\<close> on its turn of the lock.\<close>

definition admits :: "preparation_policy \<Rightarrow> nat \<Rightarrow> batch \<Rightarrow> bool" where
  "admits pol i s \<longleftrightarrow> i = next_admit s \<and> in_flight s + reservation pol \<le> budget_limit pol"

definition set_worker :: "nat \<Rightarrow> worker \<Rightarrow> batch \<Rightarrow> batch" where
  "set_worker w x s = s\<lparr>workers := (workers s)[w := x]\<rparr>"

text \<open>What the preparation of a book may yield from its answers; it sees the batch stopped only when
  it is.\<close>

definition may_prepare :: "(string \<Rightarrow> bool) \<Rightarrow> book_answers \<Rightarrow> bool \<Rightarrow> library_book_input \<Rightarrow> outcome \<Rightarrow> bool" where
  "may_prepare slug_ok ans stop book out \<longleftrightarrow> (\<exists>look. looks_ok stop look \<and> out = prepare_caught slug_ok look ans book)"

text \<open>One turn of \<^verbatim>\<open>enqueue_in_order\<close> for the outcome of the next book.\<close>

definition put_result :: "preparation_policy \<Rightarrow> outcome \<Rightarrow> library_book_result \<Rightarrow> batch \<Rightarrow> batch" where
  "put_result pol out r s =
     s\<lparr>waiting := filter (\<lambda>e. fst e \<noteq> next_enq s) (waiting s),
       results := (results s)[next_enq s := Some r],
       next_enq := next_enq s + 1,
       in_flight := in_flight s - reservation pol,
       written := written s @ (if (\<exists>p. out = Prepared p) \<and> res_status r = Indexed then [next_enq s] else [])\<rparr>"

text \<open>The steps of the threads: those of worker \<open>w\<close>, and those of the receiver.\<close>

inductive batch_step :: "(string \<Rightarrow> bool) \<Rightarrow> (nat \<Rightarrow> book_answers) \<Rightarrow> preparation_policy \<Rightarrow> library_book_input list \<Rightarrow> batch \<Rightarrow> batch \<Rightarrow> bool"
  for slug_ok answers pol books where
  fetch: "\<lbrakk>w < length (workers s); workers s ! w = Idle; next_book s < length books\<rbrakk>
    \<Longrightarrow> batch_step slug_ok answers pol books s (set_worker w (Waiting (next_book s)) (s\<lparr>next_book := next_book s + 1\<rparr>))"
| no_more: "\<lbrakk>w < length (workers s); workers s ! w = Idle; \<not> next_book s < length books\<rbrakk>
    \<Longrightarrow> batch_step slug_ok answers pol books s (set_worker w Exited (s\<lparr>next_book := next_book s + 1\<rparr>))"
| admit: "\<lbrakk>w < length (workers s); workers s ! w = Waiting i; \<not> stopped s; admits pol i s\<rbrakk>
    \<Longrightarrow> batch_step slug_ok answers pol books s (set_worker w (Preparing i)
          (s\<lparr>in_flight := in_flight s + reservation pol, next_admit := next_admit s + 1\<rparr>))"
| give_up: "\<lbrakk>w < length (workers s); workers s ! w = Waiting i; stopped s\<rbrakk>
    \<Longrightarrow> batch_step slug_ok answers pol books s (set_worker w Exited s)"
| prepare: "\<lbrakk>w < length (workers s); workers s ! w = Preparing i; may_prepare slug_ok (answers i) (stopped s) (books ! i) out\<rbrakk>
    \<Longrightarrow> batch_step slug_ok answers pol books s (set_worker w (Sending i out) s)"
| send: "\<lbrakk>w < length (workers s); workers s ! w = Sending i out; receiver s \<noteq> WriterFailed;
      length (channel s) < book_workers pol\<rbrakk>
    \<Longrightarrow> batch_step slug_ok answers pol books s (set_worker w Idle (s\<lparr>channel := channel s @ [(i, out)]\<rparr>))"
| send_refused: "\<lbrakk>w < length (workers s); workers s ! w = Sending i out; receiver s = WriterFailed\<rbrakk>
    \<Longrightarrow> batch_step slug_ok answers pol books s (set_worker w Exited s)"
| receive: "\<lbrakk>receiver s = Receiving; channel s = e # rest\<rbrakk>
    \<Longrightarrow> batch_step slug_ok answers pol books s (s\<lparr>channel := rest, waiting := e # waiting s, receiver := Draining\<rparr>)"
| enqueue: "\<lbrakk>receiver s = Draining; map_of (waiting s) (next_enq s) = Some out;
      enqueue_book (cancelled s) (source_changed (answers (next_enq s))) (enqueued (answers (next_enq s)))
        (books ! next_enq s) out = Some r\<rbrakk>
    \<Longrightarrow> batch_step slug_ok answers pol books s (put_result pol out r s)"
| writer_error: "\<lbrakk>receiver s = Draining; map_of (waiting s) (next_enq s) = Some out;
      enqueue_book (cancelled s) (source_changed (answers (next_enq s))) (enqueued (answers (next_enq s)))
        (books ! next_enq s) out = None\<rbrakk>
    \<Longrightarrow> batch_step slug_ok answers pol books s
          (s\<lparr>waiting := filter (\<lambda>e. fst e \<noteq> next_enq s) (waiting s), abort := True,
             receiver := WriterFailed, channel := []\<rparr>)"
| drained: "\<lbrakk>receiver s = Draining; map_of (waiting s) (next_enq s) = None\<rbrakk>
    \<Longrightarrow> batch_step slug_ok answers pol books s (s\<lparr>receiver := Receiving\<rparr>)"
| hung_up: "\<lbrakk>receiver s = Receiving; channel s = []; set (workers s) \<subseteq> {Exited}\<rbrakk>
    \<Longrightarrow> batch_step slug_ok answers pol books s (s\<lparr>receiver := Finished\<rparr>)"

text \<open>The states a batch can be in after \<open>k\<close> steps, the caller's \<^verbatim>\<open>cancel\<close> among them.\<close>

inductive batch_reach :: "(string \<Rightarrow> bool) \<Rightarrow> (nat \<Rightarrow> book_answers) \<Rightarrow> preparation_policy \<Rightarrow> library_book_input list \<Rightarrow> nat \<Rightarrow> batch \<Rightarrow> bool"
  for slug_ok answers pol books where
  reach_start: "batch_reach slug_ok answers pol books 0 (batch_start pol books)"
| reach_step: "\<lbrakk>batch_reach slug_ok answers pol books k s; batch_step slug_ok answers pol books s s'\<rbrakk>
    \<Longrightarrow> batch_reach slug_ok answers pol books (Suc k) s'"
| reach_cancel: "\<lbrakk>batch_reach slug_ok answers pol books k s; \<not> cancelled s\<rbrakk>
    \<Longrightarrow> batch_reach slug_ok answers pol books (Suc k) (s\<lparr>cancelled := True\<rparr>)"

text \<open>The end of \<^verbatim>\<open>add_library_books\<close>: every thread has been joined. It returns the writer's error, or
  a result for every book.\<close>

definition batch_over :: "batch \<Rightarrow> bool" where
  "batch_over s \<longleftrightarrow> receiver s \<in> {Finished, WriterFailed} \<and> set (workers s) \<subseteq> {Exited}"

definition batch_results :: "library_book_input list \<Rightarrow> batch \<Rightarrow> library_book_result list option" where
  "batch_results books s =
     (if receiver s = WriterFailed then None
      else Some (map2 (\<lambda>don book. case don of None \<Rightarrow> book_result book Cancelled | Some r \<Rightarrow> r) (results s) books))"

text \<open>The first loop of \<^verbatim>\<open>add_library_books\<close>: every book gets its number, in input order, before a thread
  starts; \<open>number\<close> is \<^verbatim>\<open>engine.book_number\<close>, on a state of any type, and may refuse.\<close>

fun number_books :: "(string \<Rightarrow> 'n \<Rightarrow> 'n \<times> 'e option) \<Rightarrow> library_book_input list \<Rightarrow> 'n \<Rightarrow> 'n \<times> 'e option" where
  "number_books number [] n = (n, None)"
| "number_books number (book # books) n =
     (case number (file_path book) n of
        (n', Some e) \<Rightarrow> (n', Some e)
      | (n', None) \<Rightarrow> number_books number books n')"

datatype 'e batch_end = NumberRefused 'e | WriterError | BookResults "library_book_result list"

text \<open>A run of \<^verbatim>\<open>add_library_books\<close>: the numbers before and after its first loop, the batch at its
  end, and what it returns.\<close>

inductive add_library_books ::
  "(string \<Rightarrow> bool) \<Rightarrow> (nat \<Rightarrow> book_answers) \<Rightarrow> (string \<Rightarrow> 'n \<Rightarrow> 'n \<times> 'e option) \<Rightarrow> preparation_policy
    \<Rightarrow> library_book_input list \<Rightarrow> 'n \<Rightarrow> 'n \<Rightarrow> batch \<Rightarrow> 'e batch_end \<Rightarrow> bool"
  for slug_ok answers number pol books n where
  refused: "number_books number books n = (n', Some e)
    \<Longrightarrow> add_library_books slug_ok answers number pol books n n' (batch_start pol books) (NumberRefused e)"
| ran: "\<lbrakk>number_books number books n = (n', None); batch_reach slug_ok answers pol books k s; batch_over s\<rbrakk>
    \<Longrightarrow> add_library_books slug_ok answers number pol books n n' s
          (case batch_results books s of None \<Rightarrow> WriterError | Some rs \<Rightarrow> BookResults rs)"

lemma number_books_refused:
  "number_books number books n = (n', Some e) \<Longrightarrow>
     \<exists>pre book post n1. books = pre @ book # post \<and> number_books number pre n = (n1, None)
       \<and> number (file_path book) n1 = (n', Some e)"
proof (induction books arbitrary: n)
  case (Cons b books)
  obtain m err where b: "number (file_path b) n = (m, err)" by fastforce
  show ?case
  proof (cases err)
    case None
    then obtain pre book post n1 where "books = pre @ book # post" "number_books number pre m = (n1, None)"
      "number (file_path book) n1 = (n', Some e)" using Cons b by fastforce
    then have "b # books = (b # pre) @ book # post \<and> number_books number (b # pre) n = (n1, None)
        \<and> number (file_path book) n1 = (n', Some e)" using b None by simp
    then show ?thesis by blast
  next
    case (Some e')
    then have "b # books = [] @ b # books \<and> number_books number [] n = (n, None) \<and> number (file_path b) n = (n', Some e)"
      using Cons.prems b by simp
    then show ?thesis by blast
  qed
qed simp

subsection \<open>Indices: who holds which book\<close>

text \<open>The books admitted by the budget and not enqueued yet, and those waiting for it.\<close>

fun worker_admitted :: "worker \<Rightarrow> nat multiset" where
  "worker_admitted (Preparing i) = {#i#}"
| "worker_admitted (Sending i _) = {#i#}"
| "worker_admitted _ = {#}"

fun worker_waiting :: "worker \<Rightarrow> nat multiset" where
  "worker_waiting (Waiting i) = {#i#}"
| "worker_waiting _ = {#}"

definition held :: "batch \<Rightarrow> nat multiset" where
  "held s = sum_list (map worker_admitted (workers s)) + mset (map fst (channel s)) + mset (map fst (waiting s))"

definition queued :: "batch \<Rightarrow> nat multiset" where
  "queued s = sum_list (map worker_waiting (workers s))"

definition indices_ok :: "preparation_policy \<Rightarrow> nat \<Rightarrow> batch \<Rightarrow> bool" where
  "indices_ok pol n s \<longleftrightarrow>
     next_enq s \<le> next_admit s \<and> next_admit s \<le> min (next_book s) n \<and>
     in_flight s \<le> budget_limit pol \<and>
     (receiver s = WriterFailed \<longrightarrow> abort s) \<and>
     (receiver s \<noteq> WriterFailed \<longrightarrow>
        held s = mset [next_enq s..<next_admit s] \<and> in_flight s = reservation pol * (next_admit s - next_enq s)) \<and>
     (\<not> stopped s \<longrightarrow> queued s = mset [next_admit s..<min (next_book s) n])"

lemma worker_at:
  assumes "w < length (workers s)" "workers s ! w = y"
  obtains xs ys where "workers s = xs @ y # ys" "\<And>x. workers (set_worker w x s) = xs @ x # ys"
proof
  show "workers s = take w (workers s) @ y # drop (Suc w) (workers s)"
    using assms id_take_nth_drop by blast
  show "\<And>x. workers (set_worker w x s) = take w (workers s) @ x # drop (Suc w) (workers s)"
    using assms by (simp add: set_worker_def upd_conv_take_nth_drop)
qed

lemma set_worker_fields [simp]:
  "length (workers (set_worker w x s)) = length (workers s)"
  "next_book (set_worker w x s) = next_book s" "in_flight (set_worker w x s) = in_flight s"
  "next_admit (set_worker w x s) = next_admit s" "channel (set_worker w x s) = channel s"
  "waiting (set_worker w x s) = waiting s" "next_enq (set_worker w x s) = next_enq s"
  "results (set_worker w x s) = results s" "cancelled (set_worker w x s) = cancelled s"
  "abort (set_worker w x s) = abort s" "receiver (set_worker w x s) = receiver s"
  "written (set_worker w x s) = written s" "stopped (set_worker w x s) = stopped s"
  by (simp_all add: set_worker_def stopped_def)

lemma held_set_worker:
  assumes "w < length (workers s)" "workers s ! w = y"
  shows "held (set_worker w x s) + worker_admitted y = held s + worker_admitted x"
proof -
  obtain xs ys where ws: "workers s = xs @ y # ys" "\<And>x. workers (set_worker w x s) = xs @ x # ys"
    using worker_at[OF assms] by blast
  show ?thesis by (simp add: held_def ws ac_simps)
qed

lemma queued_set_worker:
  assumes "w < length (workers s)" "workers s ! w = y"
  shows "queued (set_worker w x s) + worker_waiting y = queued s + worker_waiting x"
proof -
  obtain xs ys where ws: "workers s = xs @ y # ys" "\<And>x. workers (set_worker w x s) = xs @ x # ys"
    using worker_at[OF assms] by blast
  show ?thesis by (simp add: queued_def ws ac_simps)
qed

lemma mset_upt_snoc: "a \<le> b \<Longrightarrow> mset [a..<Suc b] = add_mset b (mset [a..<b])"
  by simp

lemma mset_upt_front: "a < b \<Longrightarrow> mset [a..<b] = add_mset a (mset [Suc a..<b])"
  by (simp add: upt_conv_Cons)

lemma sum_list_replicate_empty: "sum_list (replicate k {#}) = {#}"
  by (induction k) auto

lemma indices_start: "indices_ok pol (length books) (batch_start pol books)"
  by (simp add: indices_ok_def batch_start_def held_def queued_def stopped_def map_replicate_const sum_list_replicate_empty)

lemma map_of_filter_mset:
  "mset (map fst (filter (\<lambda>e. fst e \<noteq> k) xs)) = filter_mset (\<lambda>j. j \<noteq> k) (mset (map fst xs))"
  by (induction xs) auto

lemma filter_absent: "k \<notin># A \<Longrightarrow> filter_mset (\<lambda>j. j \<noteq> k) A = A"
  by (induction A) auto

text \<open>Taking the next book out of what the receiver keeps: no other place holds it.\<close>

lemma take_next:
  assumes "A + mset (map fst wt) = mset [e..<a]" "map_of wt e = Some out"
  shows "e < a \<and> A + mset (map fst (filter (\<lambda>x. fst x \<noteq> e) wt)) = mset [Suc e..<a]"
proof -
  have mem: "e \<in># mset (map fst wt)" using assms(2) by (force dest: map_of_SomeD)
  then have "e \<in># mset [e..<a]" unfolding assms(1)[symmetric] by simp
  then have less: "e < a" by simp
  have rest: "mset [e..<a] = add_mset e (mset [Suc e..<a])" by (rule mset_upt_front[OF less])
  have new: "e \<notin># mset [Suc e..<a]" by simp
  have "count (mset [e..<a]) e = 1" unfolding rest using new by (simp only: count_add_mset not_in_iff) simp
  then have "count A e + count (mset (map fst wt)) e = 1" unfolding assms(1)[symmetric] by (simp only: count_union)
  moreover have "1 \<le> count (mset (map fst wt)) e" using mem by (simp only: count_greater_eq_one_iff)
  ultimately have "count A e = 0" by linarith
  then have A: "filter_mset (\<lambda>j. j \<noteq> e) A = A" by (intro filter_absent) (simp only: not_in_iff)
  have "A + mset (map fst (filter (\<lambda>x. fst x \<noteq> e) wt)) = filter_mset (\<lambda>j. j \<noteq> e) (A + mset (map fst wt))"
    by (simp only: map_of_filter_mset filter_union_mset A)
  also have "\<dots> = filter_mset (\<lambda>j. j \<noteq> e) (add_mset e (mset [Suc e..<a]))"
    unfolding assms(1) rest ..
  also have "\<dots> = mset [Suc e..<a]" by (simp only: filter_mset_add_mset filter_absent[OF new]) simp
  finally show ?thesis using less by (simp only:) 
qed

lemma held_frame [simp]:
  "held (s\<lparr>next_book := a\<rparr>) = held s" "held (s\<lparr>in_flight := a, next_admit := b\<rparr>) = held s"
  "held (s\<lparr>receiver := rc\<rparr>) = held s" "held (s\<lparr>cancelled := c\<rparr>) = held s"
  "held (s\<lparr>channel := channel s @ [(i, out)]\<rparr>) = add_mset i (held s)"
  by (simp_all add: held_def)

lemma queued_frame [simp]:
  "queued (s\<lparr>next_book := a\<rparr>) = queued s" "queued (s\<lparr>in_flight := a, next_admit := b\<rparr>) = queued s"
  "queued (s\<lparr>receiver := rc\<rparr>) = queued s" "queued (s\<lparr>channel := ch\<rparr>) = queued s"
  "queued (s\<lparr>channel := ch, waiting := wt, receiver := rc\<rparr>) = queued s"
  "queued (put_result pol out r s) = queued s"
  by (simp_all add: queued_def put_result_def)

text \<open>The two multisets after a worker's step, from what it was doing before.\<close>

lemmas worker_moves = held_set_worker queued_set_worker

lemma held_moved:
  assumes "w < length (workers s)" "workers s ! w = y" "worker_admitted y = worker_admitted x"
  shows "held (set_worker w x s) = held s"
  using held_set_worker[OF assms(1,2), of x] assms(3) by simp

lemma queued_moved:
  assumes "w < length (workers s)" "workers s ! w = y" "worker_waiting y = worker_waiting x"
  shows "queued (set_worker w x s) = queued s"
  using queued_set_worker[OF assms(1,2), of x] assms(3) by simp

lemma fetch_indices:
  assumes "w < length (workers s)" "workers s ! w = Idle" "next_book s < n" "indices_ok pol n s"
  shows "indices_ok pol n (set_worker w (Waiting (next_book s)) (s\<lparr>next_book := next_book s + 1\<rparr>))"
proof -
  let ?s = "s\<lparr>next_book := next_book s + 1\<rparr>"
  have "held (set_worker w (Waiting (next_book s)) ?s) = held s"
    using assms(1,2) held_moved[of w ?s Idle "Waiting (next_book s)"] by simp
  moreover have "queued (set_worker w (Waiting (next_book s)) ?s) = add_mset (next_book s) (queued s)"
    using assms(1,2) queued_set_worker[of w ?s Idle "Waiting (next_book s)"] by simp
  moreover have "min (next_book s + 1) n = Suc (next_book s)" "min (next_book s) n = next_book s"
    using assms(3) by auto
  ultimately show ?thesis using assms(4) by (auto simp: indices_ok_def stopped_def)
qed

lemma no_more_indices:
  assumes "w < length (workers s)" "workers s ! w = Idle" "\<not> next_book s < n" "indices_ok pol n s"
  shows "indices_ok pol n (set_worker w Exited (s\<lparr>next_book := next_book s + 1\<rparr>))"
proof -
  let ?s = "s\<lparr>next_book := next_book s + 1\<rparr>"
  have "held (set_worker w Exited ?s) = held s" "queued (set_worker w Exited ?s) = queued s"
    using assms(1,2) held_moved[of w ?s Idle Exited] queued_moved[of w ?s Idle Exited] by auto
  moreover have "min (next_book s + 1) n = n" "min (next_book s) n = n" using assms(3) by auto
  ultimately show ?thesis using assms(4) by (auto simp: indices_ok_def stopped_def)
qed

lemma admit_indices:
  assumes "w < length (workers s)" "workers s ! w = Waiting i" "\<not> stopped s" "admits pol i s" "indices_ok pol n s"
  shows "indices_ok pol n (set_worker w (Preparing i)
           (s\<lparr>in_flight := in_flight s + reservation pol, next_admit := next_admit s + 1\<rparr>))"
proof -
  let ?s = "s\<lparr>in_flight := in_flight s + reservation pol, next_admit := next_admit s + 1\<rparr>"
  have i: "i = next_admit s" "in_flight s + reservation pol \<le> budget_limit pol" using assms(4) by (auto simp: admits_def)
  have h: "held (set_worker w (Preparing i) ?s) = add_mset i (held s)"
    using assms(1,2) held_set_worker[of w ?s "Waiting i" "Preparing i"] by simp
  have q: "add_mset i (queued (set_worker w (Preparing i) ?s)) = queued s"
    using assms(1,2) queued_set_worker[of w ?s "Waiting i" "Preparing i"] by simp
  have "i \<in># mset [next_admit s..<min (next_book s) n]"
    using assms(3,5) q by (simp only: indices_ok_def) (metis union_single_eq_member add_mset_add_single)
  then have less: "next_admit s < min (next_book s) n" using i(1) by simp
  have "queued (set_worker w (Preparing i) ?s) = mset [Suc (next_admit s)..<min (next_book s) n]"
    using assms(3,5) q i(1) mset_upt_front[OF less] by (simp add: indices_ok_def del: mset_upt)
  then show ?thesis using assms(3,5) h less i mset_upt_snoc[of "next_enq s" "next_admit s"]
    by (auto simp: indices_ok_def stopped_def Suc_diff_le simp del: mset_upt upt_Suc)
qed

lemma put_indices:
  assumes "receiver s = Draining" "map_of (waiting s) (next_enq s) = Some out" "indices_ok pol n s"
  shows "indices_ok pol n (put_result pol out r s) \<and> next_enq s < next_admit s"
proof -
  let ?A = "sum_list (map worker_admitted (workers s)) + mset (map fst (channel s))"
  have inv: "held s = mset [next_enq s..<next_admit s]" "in_flight s = reservation pol * (next_admit s - next_enq s)"
    using assms(1,3) by (auto simp: indices_ok_def simp del: mset_upt)
  have "next_enq s < next_admit s \<and>
      ?A + mset (map fst (filter (\<lambda>e. fst e \<noteq> next_enq s) (waiting s))) = mset [Suc (next_enq s)..<next_admit s]"
    using inv(1) by (intro take_next[OF _ assms(2)]) (simp only: held_def)
  then have less: "next_enq s < next_admit s"
    and h: "held (put_result pol out r s) = mset [Suc (next_enq s)..<next_admit s]"
    by (auto simp: held_def put_result_def simp del: mset_upt mset_map)
  have "next_admit s - next_enq s = Suc (next_admit s - Suc (next_enq s))" using less by simp
  then have "in_flight s - reservation pol = reservation pol * (next_admit s - Suc (next_enq s))"
    unfolding inv(2) by simp
  then show ?thesis using assms(1,3) less h
    by (auto simp: indices_ok_def put_result_def stopped_def queued_def simp del: mset_upt)
qed

lemma step_indices:
  assumes "batch_step slug_ok answers pol books s s'" "indices_ok pol (length books) s"
  shows "indices_ok pol (length books) s'"
  using assms
proof (induction rule: batch_step.induct)
  case (fetch w s)
  then show ?case by (rule fetch_indices)
next
  case (no_more w s)
  then show ?case by (rule no_more_indices)
next
  case (admit w s i)
  then show ?case by (rule admit_indices)
next
  case (enqueue s out r)
  then show ?case by (blast dest: put_indices)
next
  case (give_up w s i)
  have "held (set_worker w Exited s) = held s"
    using give_up(1,2) by (rule held_moved) simp
  then show ?case using give_up(3,4) by (simp add: indices_ok_def)
next
  case (prepare w s i out)
  have "held (set_worker w (Sending i out) s) = held s" "queued (set_worker w (Sending i out) s) = queued s"
    using held_moved[OF prepare(1,2), of "Sending i out"] queued_moved[OF prepare(1,2), of "Sending i out"] by auto
  then show ?case using prepare(4) by (simp add: indices_ok_def)
next
  case (send w s i out)
  let ?s = "s\<lparr>channel := channel s @ [(i, out)]\<rparr>"
  have "held (set_worker w Idle ?s) = held s" "queued (set_worker w Idle ?s) = queued s"
    using send(1,2) held_set_worker[of w ?s "Sending i out" Idle] queued_moved[of w ?s "Sending i out" Idle] by auto
  then show ?case using send(5) by (simp add: indices_ok_def stopped_def)
next
  case (send_refused w s i out)
  have "queued (set_worker w Exited s) = queued s" using send_refused(1,2) by (rule queued_moved) simp
  then show ?case using send_refused(3,4) by (simp add: indices_ok_def)
next
  case (receive s e rest)
  then show ?case by (simp add: indices_ok_def stopped_def held_def queued_def)
qed (auto simp: indices_ok_def stopped_def)

subsection \<open>Termination\<close>

text \<open>Every step, whatever thread takes it, uses up some of the work that is left.\<close>

fun worker_work :: "worker \<Rightarrow> nat" where
  "worker_work Idle = 1"
| "worker_work (Waiting _) = 9"
| "worker_work (Preparing _) = 8"
| "worker_work (Sending _ _) = 7"
| "worker_work Exited = 0"

fun receiver_work :: "receiver \<Rightarrow> nat" where
  "receiver_work Receiving = 1"
| "receiver_work Draining = 2"
| "receiver_work _ = 0"

definition work_left :: "nat \<Rightarrow> batch \<Rightarrow> nat" where
  "work_left n s =
     10 * (n - next_book s) + sum_list (map worker_work (workers s)) + 4 * length (channel s)
       + 2 * length (waiting s) + receiver_work (receiver s) + (if cancelled s then 0 else 1)"

lemma work_set_worker:
  assumes "w < length (workers s)" "workers s ! w = y"
  shows "work_left n (set_worker w x s) + worker_work y = work_left n s + worker_work x"
proof -
  obtain xs ys where ws: "workers s = xs @ y # ys" "\<And>x. workers (set_worker w x s) = xs @ x # ys"
    using worker_at[OF assms] by blast
  show ?thesis by (simp add: work_left_def ws)
qed

lemma filter_one_less:
  "map_of wt e = Some out \<Longrightarrow> length (filter (\<lambda>x. fst x \<noteq> e) wt) < length wt"
  by (rule length_filter_less[where x = "(e, out)"]) (auto dest: map_of_SomeD)

lemma step_work:
  assumes "batch_step slug_ok answers pol books s s'"
  shows "work_left (length books) s' < work_left (length books) s"
  using assms
proof (induction rule: batch_step.induct)
  case (fetch w s)
  then show ?case using work_set_worker[of w "s\<lparr>next_book := next_book s + 1\<rparr>" Idle "length books" "Waiting (next_book s)"]
    by (simp add: work_left_def)
next
  case (no_more w s)
  then show ?case using work_set_worker[of w "s\<lparr>next_book := next_book s + 1\<rparr>" Idle "length books" Exited]
    by (simp add: work_left_def)
next
  case (admit w s i)
  then show ?case using work_set_worker[of w "s\<lparr>in_flight := in_flight s + reservation pol, next_admit := next_admit s + 1\<rparr>" "Waiting i" "length books" "Preparing i"]
    by (simp add: work_left_def)
next
  case (give_up w s i)
  then show ?case using work_set_worker[of w s "Waiting i" "length books" Exited] by simp
next
  case (prepare w s i out)
  then show ?case using work_set_worker[of w s "Preparing i" "length books" "Sending i out"] by simp
next
  case (send w s i out)
  then show ?case using work_set_worker[of w "s\<lparr>channel := channel s @ [(i, out)]\<rparr>" "Sending i out" "length books" Idle]
    by (simp add: work_left_def)
next
  case (send_refused w s i out)
  then show ?case using work_set_worker[of w s "Sending i out" "length books" Exited] by simp
next
  case (enqueue s out r)
  then show ?case using filter_one_less[OF enqueue(2)] by (simp add: work_left_def put_result_def)
next
  case (writer_error s out)
  then show ?case using filter_one_less[OF writer_error(2)] by (simp add: work_left_def)
qed (simp_all add: work_left_def)

subsection \<open>Outcomes and results\<close>

lemma looks_ok_mono: "looks_ok a look \<Longrightarrow> (a \<Longrightarrow> b) \<Longrightarrow> looks_ok b look"
  by (auto simp: looks_ok_def)

lemma may_prepare_mono: "may_prepare slug_ok ans a book out \<Longrightarrow> (a \<Longrightarrow> b) \<Longrightarrow> may_prepare slug_ok ans b book out"
  unfolding may_prepare_def using looks_ok_mono by blast

text \<open>What a book may get in a batch: its outcome enqueued with its own answers, both seeing the batch
  stopped only when it is.\<close>

definition book_gets :: "(string \<Rightarrow> bool) \<Rightarrow> book_answers \<Rightarrow> bool \<Rightarrow> library_book_input \<Rightarrow> library_book_result \<Rightarrow> bool" where
  "book_gets slug_ok ans stop book r \<longleftrightarrow>
     (\<exists>out c. may_prepare slug_ok ans stop book out \<and> (c \<longrightarrow> stop) \<and>
        enqueue_book c (source_changed ans) (enqueued ans) book out = Some r)"

lemma book_gets_mono: "book_gets slug_ok ans a book r \<Longrightarrow> (a \<Longrightarrow> b) \<Longrightarrow> book_gets slug_ok ans b book r"
  unfolding book_gets_def using may_prepare_mono by blast

lemmas result_defs = book_result_def book_failed_def

lemma prepare_checked_done:
  "prepare_checked slug_ok look ans book = Some (Done r) \<Longrightarrow>
     res_book r = book_id book \<and> res_docs r = 0 \<and> res_status r \<noteq> Indexed \<and>
     (res_status r = Cancelled \<longrightarrow> stop_after_read look \<or> stop_after_prepare look)"
  by (auto simp: prepare_checked_def result_defs Let_def
      split: sum.splits if_splits option.splits source_unavailable.splits)

lemma may_prepare_done:
  assumes "may_prepare slug_ok ans stop book (Done r)"
  shows "res_book r = book_id book \<and> res_docs r = 0 \<and> res_status r \<noteq> Indexed \<and> (res_status r = Cancelled \<longrightarrow> stop)"
proof -
  obtain look where look: "looks_ok stop look" "Done r = prepare_caught slug_ok look ans book"
    using assms by (auto simp: may_prepare_def)
  show ?thesis
  proof (cases "prepare_checked slug_ok look ans book")
    case None
    then show ?thesis using look by (simp add: prepare_caught_def result_defs)
  next
    case (Some out)
    then have "prepare_checked slug_ok look ans book = Some (Done r)" using look(2) by (simp add: prepare_caught_def)
    then show ?thesis using look(1) prepare_checked_done[of slug_ok look ans book r] by (auto simp: looks_ok_def)
  qed
qed

lemma book_gets_fields:
  assumes "book_gets slug_ok ans stop book r"
  shows "res_book r = book_id book \<and> (res_status r = Cancelled \<longrightarrow> stop) \<and> (res_status r \<noteq> Indexed \<longrightarrow> res_docs r = 0)"
proof -
  obtain out c where out: "may_prepare slug_ok ans stop book out" "c \<longrightarrow> stop"
    "enqueue_book c (source_changed ans) (enqueued ans) book out = Some r"
    using assms by (auto simp: book_gets_def)
  show ?thesis
  proof (cases out)
    case (Done d)
    then show ?thesis using out may_prepare_done[of slug_ok ans stop book d] by (auto simp: enqueue_book_def)
  next
    case (Prepared p)
    then show ?thesis using out
      by (auto simp: enqueue_book_def result_defs split: if_splits option.splits)
  qed
qed

text \<open>It is the book's own result, or that of a cancelled book.\<close>

lemma prepared_own:
  assumes "names_source slug_ok book src" "own_path book src" "begin_scan ans src = Inr g"
    "read_book ans = Some (Inr (Some t))" "\<not> text_empty t" "preparation ans book t = Some (Some p)"
    "enqueue_book c (source_changed ans) (enqueued ans) book (Prepared (p\<lparr>p_source_generation := Some (src, g)\<rparr>)) = Some r"
  shows "c \<and> r = book_result book Cancelled \<or> own_result slug_ok ans book r"
proof -
  have t: "has_text slug_ok ans book src g t" using assms by (simp add: has_text_def)
  show ?thesis
    using assms(7) own_result.own_changed [OF t assms(6)] own_result.own_indexed [OF t assms(6)]
    by (auto simp: enqueue_book_def split: if_splits)
qed

text \<open>From a text on: the preparation is interrupted, panics, fails, or yields a book.\<close>

lemma text_own:
  assumes src: "names_source slug_ok book src" "own_path book src" "begin_scan ans src = Inr g"
    and read: "read_book ans = Some (Inr (Some t))" "\<not> text_empty t"
    and look: "looks_ok stop look" "\<not> stop_after_read look" "c \<longrightarrow> stop"
    and e: "enqueue_book c (source_changed ans) (enqueued ans) book (prepare_caught slug_ok look ans book) = Some r"
  shows "stop \<and> r = book_result book Cancelled \<or> own_result slug_ok ans book r"
proof -
  note pc = prepare_checked_source [OF src(1,2), of look ans]
  have has: "has_text slug_ok ans book src g t" using src read by (simp add: has_text_def)
  consider (cut) "interrupted look" | (panic) "\<not> interrupted look" "preparation ans book t = None"
    | (fails) "\<not> interrupted look" "preparation ans book t = Some None"
    | (ready) p where "\<not> interrupted look" "preparation ans book t = Some (Some p)"
    by (cases "preparation ans book t") auto
  then show ?thesis
  proof cases
    case cut
    then show ?thesis using e pc src read look by (simp add: prepare_caught_def enqueue_book_def looks_ok_def)
  next
    case panic
    then have "r = book_failed book PreparePanicked"
      using e pc src read look by (simp add: prepare_caught_def enqueue_book_def)
    then show ?thesis using own_prepare_panic [OF has panic(2)] by simp
  next
    case fails
    then show ?thesis using e pc src read look own_prepare_failed [OF has fails(2)]
      by (cases "stop_after_prepare look") (simp_all add: prepare_caught_def enqueue_book_def looks_ok_def)
  next
    case (ready p)
    then show ?thesis using e pc src read look prepared_own [OF src read ready(2)] by (auto simp: prepare_caught_def)
  qed
qed

text \<open>From an open source on: the batch is stopped, or reading panics, fails, or finds a text or none.\<close>

lemma read_own:
  assumes src: "names_source slug_ok book src" "own_path book src" "begin_scan ans src = Inr g"
    and look: "looks_ok stop look" "c \<longrightarrow> stop"
    and e: "enqueue_book c (source_changed ans) (enqueued ans) book (prepare_caught slug_ok look ans book) = Some r"
  shows "stop \<and> r = book_result book Cancelled \<or> own_result slug_ok ans book r"
proof -
  note pc = prepare_checked_source [OF src(1,2), of look ans]
  consider (cut) "stop_after_read look" | (panic) "\<not> stop_after_read look" "read_book ans = None"
    | (fails) u where "\<not> stop_after_read look" "read_book ans = Some (Inl u)"
    | (none) f where "\<not> stop_after_read look" "read_book ans = Some (Inr f)" "\<forall>x. f = Some x \<longrightarrow> text_empty x"
    | (rows) t where "\<not> stop_after_read look" "read_book ans = Some (Inr (Some t))" "\<not> text_empty t"
    by (metis not_None_eq old.sum.exhaust)
  then show ?thesis
  proof cases
    case cut
    then show ?thesis using e pc src look by (simp add: prepare_caught_def enqueue_book_def looks_ok_def)
  next
    case panic
    then have "r = book_failed book PreparePanicked" using e pc src by (simp add: prepare_caught_def enqueue_book_def)
    then show ?thesis using own_read_panic [OF src panic(2)] by simp
  next
    case (fails u)
    then show ?thesis using e pc src own_unreadable [OF src] own_unavailable [OF src]
      by (cases "u = ReadFailed") (auto simp: prepare_caught_def enqueue_book_def)
  next
    case (none f)
    then have "r = book_result book Missing"
      using e pc src by (cases f) (simp_all add: prepare_caught_def enqueue_book_def)
    then show ?thesis using own_missing [OF src none(2,3)] by simp
  next
    case (rows t)
    then show ?thesis using text_own [OF src rows(2,3) look(1) rows(1) look(2) e] by simp
  qed
qed

lemma book_gets_own:
  assumes "book_gets slug_ok ans stop book r"
  shows "stop \<and> r = book_result book Cancelled \<or> own_result slug_ok ans book r"
proof -
  obtain look c where l: "looks_ok stop look" "c \<longrightarrow> stop"
    and e: "enqueue_book c (source_changed ans) (enqueued ans) book (prepare_caught slug_ok look ans book) = Some r"
    using assms by (auto simp: book_gets_def may_prepare_def)
  have don: "prepare_checked slug_ok look ans book = Some (Done d) \<Longrightarrow> r = d" for d
    using e by (simp add: prepare_caught_def enqueue_book_def)
  consider (error) err where "line_source_of slug_ok (source book) (attached_slug book) = Inl err"
    | (path) src where "names_source slug_ok book src" "\<not> own_path book src"
    | (closed) src u where "names_source slug_ok book src" "own_path book src" "begin_scan ans src = Inl u"
    | (opened) src g where "names_source slug_ok book src" "own_path book src" "begin_scan ans src = Inr g"
    by (metis line_source_of_names old.sum.exhaust)
  then show ?thesis
  proof cases
    case (error err)
    then have "r = book_failed book err" using don by (simp add: prepare_checked_def)
    then show ?thesis using line_source_of_error [OF error]
      by (auto intro: own_result.own_bad_slug own_result.own_no_source)
  next
    case (path src)
    then have "line_source_of slug_ok (source book) (attached_slug book) = Inr src" by (simp add: line_source_of_names)
    then have "r = book_failed book WrongFilePath"
      using don path own_path_iff [OF path(1)] by (simp add: prepare_checked_def)
    then show ?thesis using own_wrong_path [OF path] by simp
  next
    case (closed src u)
    then show ?thesis using don prepare_checked_source [OF closed(1,2)] own_closed [OF closed] by simp
  next
    case (opened src g)
    then show ?thesis using read_own [OF opened l e] by simp
  qed
qed

definition pending :: "batch \<Rightarrow> (nat \<times> outcome) set" where
  "pending s = set (channel s) \<union> set (waiting s) \<union> {(i, out). Sending i out \<in> set (workers s)}"

definition outcomes_ok :: "(string \<Rightarrow> bool) \<Rightarrow> (nat \<Rightarrow> book_answers) \<Rightarrow> library_book_input list \<Rightarrow> batch \<Rightarrow> bool" where
  "outcomes_ok slug_ok answers books s \<longleftrightarrow> (\<forall>(i, out) \<in> pending s. may_prepare slug_ok (answers i) (stopped s) (books ! i) out)"

lemma set_worker_subset: "set (workers (set_worker w x s)) \<subseteq> insert x (set (workers s))"
  by (simp add: set_worker_def set_update_subset_insert)

lemma worker_in: "\<lbrakk>w < length (workers s); workers s ! w = y\<rbrakk> \<Longrightarrow> y \<in> set (workers s)"
  by auto

lemma step_pending:
  assumes "batch_step slug_ok answers pol books s s'"
  shows "(\<forall>(i, out) \<in> pending s'. (i, out) \<in> pending s \<or> may_prepare slug_ok (answers i) (stopped s) (books ! i) out) \<and>
    (stopped s \<longrightarrow> stopped s')"
  using assms
proof (induction rule: batch_step.induct)
  case (prepare w s i out)
  then show ?case using set_worker_subset[of w "Sending i out" s] by (auto simp: pending_def)
next
  case (send w s i out)
  then show ?case
    using set_worker_subset[of w Idle "s\<lparr>channel := channel s @ [(i, out)]\<rparr>"] worker_in[OF send(1,2)]
    by (auto simp: pending_def stopped_def)
next
  case (fetch w s)
  then show ?case using set_worker_subset[of w "Waiting (next_book s)" "s\<lparr>next_book := next_book s + 1\<rparr>"]
    by (auto simp: pending_def stopped_def)
next
  case (no_more w s)
  then show ?case using set_worker_subset[of w Exited "s\<lparr>next_book := next_book s + 1\<rparr>"]
    by (auto simp: pending_def stopped_def)
next
  case (admit w s i)
  then show ?case using set_worker_subset[of w "Preparing i" "s\<lparr>in_flight := in_flight s + reservation pol, next_admit := next_admit s + 1\<rparr>"]
    by (auto simp: pending_def stopped_def)
next
  case (give_up w s i)
  then show ?case using set_worker_subset[of w Exited s] by (auto simp: pending_def)
next
  case (send_refused w s i out)
  then show ?case using set_worker_subset[of w Exited s] by (auto simp: pending_def)
qed (auto simp: pending_def stopped_def put_result_def)

lemma step_outcomes:
  assumes "batch_step slug_ok answers pol books s s'" "outcomes_ok slug_ok answers books s"
  shows "outcomes_ok slug_ok answers books s'"
  using step_pending[OF assms(1)] assms(2) may_prepare_mono unfolding outcomes_ok_def by blast

text \<open>The results so far, and what went to the writer.\<close>

definition indexed_at :: "library_book_result option list \<Rightarrow> nat \<Rightarrow> bool" where
  "indexed_at rs j \<longleftrightarrow> (case rs ! j of Some r \<Rightarrow> res_status r = Indexed | None \<Rightarrow> False)"

definition results_ok :: "(string \<Rightarrow> bool) \<Rightarrow> (nat \<Rightarrow> book_answers) \<Rightarrow> library_book_input list \<Rightarrow> batch \<Rightarrow> bool" where
  "results_ok slug_ok answers books s \<longleftrightarrow>
     length (results s) = length books \<and>
     (\<forall>j < length books. case results s ! j of
        None \<Rightarrow> next_enq s \<le> j
      | Some r \<Rightarrow> j < next_enq s \<and> book_gets slug_ok (answers j) (stopped s) (books ! j) r) \<and>
     written s = filter (indexed_at (results s)) [0..<next_enq s]"

lemma results_start: "results_ok slug_ok answers books (batch_start pol books)"
  by (simp add: results_ok_def batch_start_def)

lemma put_results:
  assumes "receiver s = Draining" "map_of (waiting s) (next_enq s) = Some out"
    "enqueue_book (cancelled s) (source_changed (answers (next_enq s))) (enqueued (answers (next_enq s)))
        (books ! next_enq s) out = Some r"
    "indices_ok pol (length books) s" "outcomes_ok slug_ok answers books s" "results_ok slug_ok answers books s"
  shows "results_ok slug_ok answers books (put_result pol out r s)"
proof -
  have less: "next_enq s < length books"
    using conjunct2[OF put_indices[OF assms(1,2,4)]] assms(4) by (auto simp: indices_ok_def)
  have may: "may_prepare slug_ok (answers (next_enq s)) (stopped s) (books ! next_enq s) out"
    using assms(2,5) by (auto simp: outcomes_ok_def pending_def dest: map_of_SomeD)
  then have alone: "book_gets slug_ok (answers (next_enq s)) (stopped s) (books ! next_enq s) r"
    using assms(3) by (auto simp: book_gets_def stopped_def)
  have "(\<exists>p. out = Prepared p) \<or> res_status r \<noteq> Indexed"
    using assms(3) may may_prepare_done[of slug_ok "answers (next_enq s)" "stopped s" "books ! next_enq s"]
    by (cases out) (auto simp: enqueue_book_def)
  then have new: "(\<exists>p. out = Prepared p) \<and> res_status r = Indexed \<longleftrightarrow> res_status r = Indexed" by blast
  have "filter (indexed_at ((results s)[next_enq s := Some r])) [0..<next_enq s] = filter (indexed_at (results s)) [0..<next_enq s]"
    by (rule filter_cong) (auto simp: indexed_at_def)
  then show ?thesis using assms(6) less alone
    by (auto simp: results_ok_def put_result_def new indexed_at_def nth_list_update stopped_def split: option.splits)
qed

lemma step_results:
  assumes "batch_step slug_ok answers pol books s s'" "indices_ok pol (length books) s" "outcomes_ok slug_ok answers books s"
    "results_ok slug_ok answers books s"
  shows "results_ok slug_ok answers books s'"
  using assms
proof (induction rule: batch_step.induct)
  case (enqueue s out r)
  then show ?case by (rule put_results)
next
  case (writer_error s out)
  then show ?case using book_gets_mono by (fastforce simp: results_ok_def stopped_def split: option.splits)
qed (auto simp: results_ok_def stopped_def split: option.splits)

subsection \<open>Threads, and no deadlock\<close>

definition threads_ok :: "preparation_policy \<Rightarrow> nat \<Rightarrow> batch \<Rightarrow> bool" where
  "threads_ok pol n s \<longleftrightarrow>
     length (workers s) = min (book_workers pol) n \<and> length (channel s) \<le> book_workers pol \<and>
     (\<not> stopped s \<and> Exited \<in> set (workers s) \<longrightarrow> n \<le> next_book s) \<and>
     (receiver s = Finished \<longrightarrow> set (workers s) \<subseteq> {Exited} \<and> channel s = []) \<and>
     (receiver s \<in> {Receiving, Finished} \<longrightarrow> next_enq s \<notin> fst ` set (waiting s)) \<and>
     (abort s \<longleftrightarrow> receiver s = WriterFailed)"

lemma threads_start: "threads_ok pol (length books) (batch_start pol books)"
  by (auto simp: threads_ok_def batch_start_def stopped_def)

text \<open>A worker's step keeps it unless the worker leaves while there are books left.\<close>

lemma worker_threads:
  assumes "threads_ok pol n s" "w < length (workers s)" "workers s ! w \<noteq> Exited"
    "x = Exited \<Longrightarrow> \<not> stopped s \<Longrightarrow> n \<le> next_book s"
  shows "threads_ok pol n (set_worker w x s)"
proof -
  have "workers s ! w \<in> set (workers s)" using assms(2) by simp
  then have "receiver s \<noteq> Finished" using assms(1,3) by (auto simp: threads_ok_def)
  moreover have "Exited \<in> set (workers (set_worker w x s)) \<Longrightarrow> x = Exited \<or> Exited \<in> set (workers s)"
    using set_worker_subset[of w x s] by auto
  ultimately show ?thesis using assms by (auto simp: threads_ok_def)
qed

lemma threads_frame:
  assumes "threads_ok pol n s"
  shows "threads_ok pol n (s\<lparr>next_book := next_book s + 1\<rparr>)"
    "threads_ok pol n (s\<lparr>in_flight := a, next_admit := b\<rparr>)"
    "\<lbrakk>length (channel s) < book_workers pol; receiver s \<noteq> Finished\<rbrakk> \<Longrightarrow> threads_ok pol n (s\<lparr>channel := channel s @ [e]\<rparr>)"
  using assms by (auto simp: threads_ok_def stopped_def)

lemma step_threads:
  assumes "batch_step slug_ok answers pol books s s'" "threads_ok pol (length books) s"
  shows "threads_ok pol (length books) s'"
  using assms
proof (induction rule: batch_step.induct)
  case (fetch w s)
  show ?case by (rule worker_threads) (use fetch threads_frame(1) in auto)
next
  case (no_more w s)
  show ?case by (rule worker_threads) (use no_more threads_frame(1) in auto)
next
  case (admit w s i)
  show ?case by (rule worker_threads) (use admit threads_frame(2) in auto)
next
  case (give_up w s i)
  show ?case by (rule worker_threads) (use give_up in auto)
next
  case (prepare w s i out)
  show ?case by (rule worker_threads) (use prepare in auto)
next
  case (send w s i out)
  have "receiver s \<noteq> Finished" using send(5) worker_in[OF send(1,2)] by (auto simp: threads_ok_def)
  then show ?case by (intro worker_threads) (use send threads_frame(3) in auto)
next
  case (send_refused w s i out)
  then have "stopped s" by (simp add: threads_ok_def stopped_def)
  then show ?case by (intro worker_threads) (use send_refused in auto)
next
  case (drained s)
  then show ?case by (auto simp: threads_ok_def stopped_def map_of_eq_None_iff)
qed (auto simp: threads_ok_def stopped_def put_result_def)

text \<open>The invariant of a batch.\<close>

definition batch_ok :: "(string \<Rightarrow> bool) \<Rightarrow> (nat \<Rightarrow> book_answers) \<Rightarrow> preparation_policy \<Rightarrow> library_book_input list \<Rightarrow> batch \<Rightarrow> bool" where
  "batch_ok slug_ok answers pol books s \<longleftrightarrow>
     indices_ok pol (length books) s \<and> outcomes_ok slug_ok answers books s \<and> results_ok slug_ok answers books s \<and>
     threads_ok pol (length books) s"

text \<open>The caller's cancel keeps it.\<close>

lemma cancel_ok:
  assumes "batch_ok slug_ok answers pol books s"
  shows "batch_ok slug_ok answers pol books (s\<lparr>cancelled := True\<rparr>)"
proof -
  let ?s = "s\<lparr>cancelled := True\<rparr>"
  have "indices_ok pol (length books) ?s" using assms by (auto simp: batch_ok_def indices_ok_def stopped_def)
  moreover have "outcomes_ok slug_ok answers books ?s"
    using assms may_prepare_mono by (fastforce simp: batch_ok_def outcomes_ok_def pending_def stopped_def)
  moreover have "results_ok slug_ok answers books ?s"
    using assms book_gets_mono by (fastforce simp: batch_ok_def results_ok_def stopped_def split: option.splits)
  moreover have "threads_ok pol (length books) ?s" using assms by (auto simp: batch_ok_def threads_ok_def stopped_def)
  ultimately show ?thesis by (simp add: batch_ok_def)
qed

lemma reach_ok: "batch_reach slug_ok answers pol books k s \<Longrightarrow> batch_ok slug_ok answers pol books s"
proof (induction rule: batch_reach.induct)
  case reach_start
  have "outcomes_ok slug_ok answers books (batch_start pol books)"
    by (auto simp: outcomes_ok_def pending_def batch_start_def)
  then show ?case by (simp add: batch_ok_def indices_start results_start threads_start)
next
  case (reach_step k s s')
  then show ?case by (simp add: batch_ok_def step_indices step_outcomes step_results step_threads)
qed (rule cancel_ok)

lemma reach_work: "batch_reach slug_ok answers pol books k s \<Longrightarrow>
  k + work_left (length books) s \<le> work_left (length books) (batch_start pol books)"
proof (induction rule: batch_reach.induct)
  case (reach_step k s s')
  then show ?case using step_work[OF reach_step(2)] by simp
qed (simp_all add: work_left_def)

lemma start_work: "work_left (length books) (batch_start pol books) = 10 * length books + min (book_workers pol) (length books) + 2"
  by (simp add: work_left_def batch_start_def sum_list_replicate)

lemma sum_list_none: "(\<And>x. x \<in> set xs \<Longrightarrow> f x = {#}) \<Longrightarrow> sum_list (map f xs) = {#}"
  by (induction xs) auto

lemma in_sum_list: "i \<in># sum_list (map f xs) \<longleftrightarrow> (\<exists>x \<in> set xs. i \<in># f x)"
  by (induction xs) auto

text \<open>When no worker holds an outcome and the channel is empty, the receiver has everything.\<close>

lemma all_enqueued:
  assumes "batch_ok slug_ok answers pol books s" "receiver s \<in> {Receiving, Finished}" "channel s = []"
    "\<And>x. x \<in> set (workers s) \<Longrightarrow> worker_admitted x = {#}"
  shows "next_enq s = next_admit s"
proof (rule ccontr)
  assume "next_enq s \<noteq> next_admit s"
  then have less: "next_enq s < next_admit s" using assms(1) by (auto simp: batch_ok_def indices_ok_def)
  have "mset (map fst (waiting s)) = held s" using assms(3) sum_list_none[OF assms(4)] by (simp add: held_def)
  also have "\<dots> = mset [next_enq s..<next_admit s]" using assms(1,2) by (auto simp: batch_ok_def indices_ok_def)
  finally have "next_enq s \<in> set (map fst (waiting s))" using less by (metis mset_eq_setD set_upt atLeastLessThan_iff order_refl)
  then show False using assms(1,2) by (auto simp: batch_ok_def threads_ok_def)
qed

lemma enqueue_or_fail:
  assumes "receiver s = Draining"
  shows "\<exists>s'. batch_step slug_ok answers pol books s s'"
proof (cases "map_of (waiting s) (next_enq s)")
  case None
  then show ?thesis using assms batch_step.drained by blast
next
  case (Some out)
  then show ?thesis using assms batch_step.enqueue batch_step.writer_error
    by (cases "enqueue_book (cancelled s) (source_changed (answers (next_enq s))) (enqueued (answers (next_enq s)))
      (books ! next_enq s) out") blast+
qed

lemma may_prepare_some: "may_prepare slug_ok ans stop book (prepare_caught slug_ok no_stop ans book)"
  unfolding may_prepare_def by (rule exI[where x = no_stop]) (simp add: looks_ok_def no_stop_def)

text \<open>While the batch runs, a book that waits for the budget is not alone in its way: either some
  thread moves, or it is the next to be admitted and the budget is free.\<close>

lemma waiting_moves:
  assumes ok: "batch_ok slug_ok answers pol books s" and pos: "0 < book_workers pol"
    and w: "w < length (workers s)" "workers s ! w = Waiting i" and rc: "receiver s = Receiving"
    and empty: "channel s = []" and none: "\<And>x. x \<in> set (workers s) \<Longrightarrow> worker_admitted x = {#}"
  shows "\<exists>s'. batch_step slug_ok answers pol books s s'"
proof (cases "stopped s")
  case True
  then show ?thesis using w batch_step.give_up by blast
next
  case False
  have same: "next_enq s = next_admit s" using all_enqueued[OF ok _ empty none] rc by simp
  have q: "queued s = mset [next_admit s..<min (next_book s) (length books)]"
    using ok False by (simp add: batch_ok_def indices_ok_def del: mset_upt)
  have "i \<in># queued s" unfolding queued_def in_sum_list
    using worker_in[OF w] by (rule rev_bexI) simp
  then have "next_admit s \<in># queued s" unfolding q by simp
  then obtain x where "x \<in> set (workers s)" "next_admit s \<in># worker_waiting x"
    unfolding queued_def in_sum_list by blast
  then obtain v where v: "v < length (workers s)" "workers s ! v = Waiting (next_admit s)"
    by (cases x rule: worker.exhaust) (auto simp: in_set_conv_nth)
  have "in_flight s = 0" using ok rc same by (auto simp: batch_ok_def indices_ok_def)
  then have "admits pol (next_admit s) s" using pos by (simp add: admits_def budget_limit_def)
  then show ?thesis using v False batch_step.admit by blast
qed

lemma no_deadlock:
  assumes ok: "batch_ok slug_ok answers pol books s" and pos: "0 < book_workers pol" and run: "\<not> batch_over s"
  shows "\<exists>s'. batch_step slug_ok answers pol books s s'"
proof (rule ccontr)
  assume stuck: "\<not> (\<exists>s'. batch_step slug_ok answers pol books s s')"
  have idle: "Idle \<notin> set (workers s)"
    using stuck batch_step.fetch batch_step.no_more by (metis in_set_conv_nth)
  have preparing: "Preparing i \<notin> set (workers s)" for i
    using stuck batch_step.prepare may_prepare_some by (metis in_set_conv_nth)
  have draining: "receiver s \<noteq> Draining" using stuck enqueue_or_fail by blast
  have empty: "channel s = []" if "receiver s = Receiving"
    using that stuck batch_step.receive by (cases "channel s") blast+
  have sending: "Sending i out \<notin> set (workers s)" for i out
  proof
    assume mem: "Sending i out \<in> set (workers s)"
    then obtain w where w: "w < length (workers s)" "workers s ! w = Sending i out" by (auto simp: in_set_conv_nth)
    have "receiver s \<noteq> WriterFailed" using stuck w batch_step.send_refused by blast
    moreover have "receiver s \<noteq> Finished" using ok mem by (auto simp: batch_ok_def threads_ok_def)
    ultimately have "channel s = []" "receiver s \<noteq> WriterFailed" using empty draining by (cases "receiver s"; simp)+
    then show False using stuck w pos batch_step.send by (metis list.size(3))
  qed
  have none: "worker_admitted x = {#}" if "x \<in> set (workers s)" for x
    using that preparing sending by (cases x rule: worker.exhaust) auto
  have waiting: "Waiting i \<notin> set (workers s)" for i
  proof
    assume mem: "Waiting i \<in> set (workers s)"
    then obtain w where w: "w < length (workers s)" "workers s ! w = Waiting i" by (auto simp: in_set_conv_nth)
    have "receiver s \<noteq> Finished" using ok mem by (auto simp: batch_ok_def threads_ok_def)
    moreover have "\<not> stopped s" using stuck w batch_step.give_up by blast
    then have "receiver s \<noteq> WriterFailed" using ok by (auto simp: batch_ok_def threads_ok_def stopped_def)
    ultimately have "receiver s = Receiving" using draining by (cases "receiver s") simp_all
    then show False using stuck waiting_moves[OF ok pos w _ empty none] by blast
  qed
  have gone: "set (workers s) \<subseteq> {Exited}"
  proof
    fix x assume "x \<in> set (workers s)"
    then show "x \<in> {Exited}" using idle preparing sending waiting by (cases x rule: worker.exhaust) auto
  qed
  then have "receiver s \<noteq> Receiving" using stuck empty batch_step.hung_up by blast
  then show False using run gone draining by (cases "receiver s") (auto simp: batch_over_def)
qed

lemma finished_complete:
  assumes ok: "batch_ok slug_ok answers pol books s" and pos: "0 < book_workers pol"
    and fin: "receiver s = Finished" and run: "\<not> cancelled s"
  shows "next_enq s = length books"
proof -
  have "\<not> abort s" using ok fin by (simp add: batch_ok_def threads_ok_def)
  then have live: "\<not> stopped s" using run by (simp add: stopped_def)
  have gone: "\<And>x. x \<in> set (workers s) \<Longrightarrow> x = Exited" and empty: "channel s = []"
    using ok fin by (auto simp: batch_ok_def threads_ok_def)
  have same: "next_enq s = next_admit s"
    by (rule all_enqueued[OF ok _ empty]) (use fin in simp, drule gone, simp)
  have "queued s = {#}" unfolding queued_def by (rule sum_list_none) (drule gone, simp)
  then have q: "min (next_book s) (length books) \<le> next_admit s"
    using ok live by (auto simp: batch_ok_def indices_ok_def mset_set_empty_iff min_def)
  have "length books \<le> next_book s"
  proof (cases "workers s")
    case Nil
    then show ?thesis using ok pos by (auto simp: batch_ok_def threads_ok_def)
  next
    case (Cons x xs)
    then have "Exited \<in> set (workers s)" using gone[of x] by simp
    then show ?thesis using ok live by (simp add: batch_ok_def threads_ok_def)
  qed
  then have "length books \<le> next_admit s" using q by simp
  then show ?thesis using ok same by (simp add: batch_ok_def indices_ok_def)
qed

subsection \<open>The properties of a batch\<close>

lemma policy_bounds:
  "1 \<le> book_workers (for_platform economy cores mobile) \<and> book_workers (for_platform economy cores mobile) \<le> 4 \<and>
   reservation (for_platform economy cores mobile) \<le> 96 * 2 ^ 20"
  by (auto simp: for_platform_def reservation_def Let_def)

lemma policy_limit: "budget_limit (for_platform economy cores mobile) \<le> 384 * 2 ^ 20"
proof -
  have "budget_limit (for_platform economy cores mobile) \<le> (96 * 2 ^ 20) * 4"
    unfolding budget_limit_def by (rule mult_le_mono) (use policy_bounds in auto)
  then show ?thesis by simp
qed

text \<open>C8: no deadlock, and termination: in a batch that is not over some thread can take a step, cancelled
  or not and without waiting for the caller, and no run, the cancel included, takes more than ten
  steps per book, one per worker and two more.\<close>

theorem batch_terminates:
  assumes "batch_reach slug_ok answers (for_platform economy cores mobile) books k s"
  shows "(batch_over s \<or> (\<exists>s'. batch_step slug_ok answers (for_platform economy cores mobile) books s s')) \<and>
    k \<le> 10 * length books + min (book_workers (for_platform economy cores mobile)) (length books) + 2"
proof -
  have "0 < book_workers (for_platform economy cores mobile)" using policy_bounds[of economy cores mobile] by simp
  then show ?thesis using no_deadlock reach_ok[OF assms] reach_work[OF assms] start_work by fastforce
qed

text \<open>C9: the memory of a batch is bounded and books are written in order. The buffers in flight stay
  within the limit, which is at most 384 MiB; until the writer fails they are one reservation for each
  book admitted and not enqueued yet, each held in one place; and the writer has got the indexed books
  in input order, each once.\<close>

theorem batch_in_bounds:
  assumes "batch_reach slug_ok answers (for_platform economy cores mobile) books k s"
  shows "in_flight s \<le> budget_limit (for_platform economy cores mobile) \<and>
    budget_limit (for_platform economy cores mobile) \<le> 384 * 2 ^ 20 \<and>
    (receiver s \<noteq> WriterFailed \<longrightarrow>
       held s = mset [next_enq s..<next_admit s] \<and>
       in_flight s = reservation (for_platform economy cores mobile) * size (held s)) \<and>
    sorted_wrt (<) (written s) \<and>
    set (written s) = {j. j < next_enq s \<and> (\<exists>r. results s ! j = Some r \<and> res_status r = Indexed)}"
proof -
  have ok: "batch_ok slug_ok answers (for_platform economy cores mobile) books s" by (rule reach_ok[OF assms])
  have w: "written s = filter (indexed_at (results s)) [0..<next_enq s]"
    using ok by (simp add: batch_ok_def results_ok_def)
  have "sorted_wrt (<) (written s)" unfolding w by (rule sorted_wrt_filter) simp
  moreover have "set (written s) = {j. j < next_enq s \<and> (\<exists>r. results s ! j = Some r \<and> res_status r = Indexed)}"
    unfolding w by (auto simp: indexed_at_def split: option.splits)
  ultimately show ?thesis using ok policy_limit by (auto simp: batch_ok_def indices_ok_def)
qed

text \<open>A batch that ends with the writer's error has a book the writer refused.\<close>

lemma writer_failed_why:
  "batch_reach slug_ok answers pol books k s \<Longrightarrow> receiver s = WriterFailed \<Longrightarrow>
     \<exists>i < length books. enqueued (answers i) = None"
proof (induction rule: batch_reach.induct)
  case (reach_step k s s')
  show ?case
  proof (cases "receiver s = WriterFailed")
    case True
    then show ?thesis using reach_step.IH by blast
  next
    case False
    from reach_step.hyps(2) False reach_step.prems
    have "\<exists>out. receiver s = Draining \<and> map_of (waiting s) (next_enq s) = Some out \<and>
        enqueue_book (cancelled s) (source_changed (answers (next_enq s))) (enqueued (answers (next_enq s)))
          (books ! next_enq s) out = None"
      by cases (auto simp: put_result_def)
    then obtain out where out: "receiver s = Draining" "map_of (waiting s) (next_enq s) = Some out"
      "enqueue_book (cancelled s) (source_changed (answers (next_enq s))) (enqueued (answers (next_enq s)))
         (books ! next_enq s) out = None" by blast
    have ix: "indices_ok pol (length books) s" using reach_ok[OF reach_step.hyps(1)] by (simp add: batch_ok_def)
    have "next_enq s < next_admit s" using put_indices[OF out(1,2) ix] by blast
    moreover have "next_admit s \<le> length books" using ix by (simp add: indices_ok_def)
    ultimately have "next_enq s < length books" by linarith
    moreover have "enqueued (answers (next_enq s)) = None"
      using out(3) by (auto simp: enqueue_book_def split: outcome.splits if_splits)
    ultimately show ?thesis by blast
  qed
next
  case (reach_cancel k s)
  then show ?case by simp
qed (simp add: batch_start_def)

lemma batch_results_own:
  assumes "batch_reach slug_ok answers (for_platform economy cores mobile) books k s"
    and "batch_over s" and "batch_results books s = Some rs"
  shows "length rs = length books"
    and "i < length books \<Longrightarrow> cancelled s \<and> rs ! i = book_result (books ! i) Cancelled
      \<or> own_result slug_ok (answers i) (books ! i) (rs ! i)"
    and "written s = filter (\<lambda>i. res_status (rs ! i) = Indexed) [0..<length books]"
proof -
  have ok: "batch_ok slug_ok answers (for_platform economy cores mobile) books s" by (rule reach_ok[OF assms(1)])
  have pos: "0 < book_workers (for_platform economy cores mobile)" using policy_bounds[of economy cores mobile] by simp
  have fin: "receiver s = Finished" using assms(2,3) by (auto simp: batch_over_def batch_results_def split: if_splits)
  then have stop: "stopped s \<longleftrightarrow> cancelled s" using ok by (simp add: batch_ok_def threads_ok_def stopped_def)
  have res: "results_ok slug_ok answers books s" using ok by (simp add: batch_ok_def)
  have rs: "length rs = length books"
    "\<And>i. i < length books \<Longrightarrow> rs ! i = (case results s ! i of None \<Rightarrow> book_result (books ! i) Cancelled | Some r \<Rightarrow> r)"
    using assms(3) res by (auto simp: batch_results_def results_ok_def split: if_splits)
  show "length rs = length books" by (rule rs(1))
  show "cancelled s \<and> rs ! i = book_result (books ! i) Cancelled \<or> own_result slug_ok (answers i) (books ! i) (rs ! i)"
    if i: "i < length books"
  proof (cases "results s ! i")
    case None
    then have "cancelled s" using finished_complete[OF ok pos fin] res i by (fastforce simp: results_ok_def)
    then show ?thesis using None rs(2)[OF i] by simp
  next
    case (Some r)
    then have "book_gets slug_ok (answers i) (cancelled s) (books ! i) r" using res i stop by (auto simp: results_ok_def)
    then show ?thesis using Some rs(2)[OF i] book_gets_own by fastforce
  qed
  have "next_enq s \<le> length books" using ok by (auto simp: batch_ok_def indices_ok_def)
  then have "[0..<length books] = [0..<next_enq s] @ [next_enq s..<length books]" by (metis le0 le_add_diff_inverse upt_add_eq_append)
  moreover have "filter (\<lambda>i. res_status (rs ! i) = Indexed) [next_enq s..<length books] = []"
    using res rs(2) by (auto simp: filter_empty_conv results_ok_def book_result_def split: option.splits)
  moreover have "filter (\<lambda>i. res_status (rs ! i) = Indexed) [0..<next_enq s] = filter (indexed_at (results s)) [0..<next_enq s]"
    by (rule filter_cong) (use \<open>next_enq s \<le> length books\<close> rs(2) in \<open>auto simp: indexed_at_def book_result_def split: option.splits\<close>)
  ultimately show "written s = filter (\<lambda>i. res_status (rs ! i) = Indexed) [0..<length books]"
    using res by (simp add: results_ok_def)
qed

text \<open>C7: what \<^verbatim>\<open>add_library_books\<close> returns. It ends with the error of the first book that is refused a
  number, before anything is written; or with the writer's error, when the writer refused a book; or with
  a result for every book, in input order: the result that book's own answers give it, which is one,
  or, in a cancelled batch only, that of a cancelled book; and the books written are the indexed ones.\<close>

theorem batch_results_correct:
  assumes "add_library_books slug_ok answers number (for_platform economy cores mobile) books n n' s res"
  shows "case res of
      NumberRefused e \<Rightarrow> written s = [] \<and> (\<exists>pre book post n1. books = pre @ book # post
        \<and> number_books number pre n = (n1, None) \<and> number (file_path book) n1 = (n', Some e))
    | WriterError \<Rightarrow> number_books number books n = (n', None) \<and> (\<exists>i < length books. enqueued (answers i) = None)
    | BookResults rs \<Rightarrow> number_books number books n = (n', None) \<and> length rs = length books
        \<and> (\<forall>i < length books.
             cancelled s \<and> rs ! i = book_result (books ! i) Cancelled
             \<or> own_result slug_ok (answers i) (books ! i) (rs ! i)
               \<and> (\<forall>r. own_result slug_ok (answers i) (books ! i) r \<longrightarrow> r = rs ! i))
        \<and> written s = filter (\<lambda>i. res_status (rs ! i) = Indexed) [0..<length books]"
  using assms
proof cases
  case (refused e)
  then show ?thesis using number_books_refused[of number books n n' e] by (simp add: batch_start_def)
next
  case (ran k)
  show ?thesis
  proof (cases "batch_results books s")
    case None
    then have "receiver s = WriterFailed" by (auto simp: batch_results_def split: if_splits)
    then show ?thesis using ran None writer_failed_why[OF ran(3)] by simp
  next
    case (Some rs)
    note own = batch_results_own[OF ran(3,4) Some]
    have "cancelled s \<and> rs ! i = book_result (books ! i) Cancelled
        \<or> own_result slug_ok (answers i) (books ! i) (rs ! i)
          \<and> (\<forall>r. own_result slug_ok (answers i) (books ! i) r \<longrightarrow> r = rs ! i)" if "i < length books" for i
      using own(2)[OF that] own_result_unique by blast
    then show ?thesis using ran(1,2) Some own(1,3) by simp
  qed
qed

subsection \<open>A run\<close>

text \<open>One book of the library with three lines of text: it is indexed, and the batch ends with its
  result.\<close>

definition one_input :: library_book_input where
  "one_input = \<lparr>source = Library, attached_slug = None, book_id = 7, file_path = ''id:7'',
     source_hash_in = None, storage = LibraryDb\<rparr>"

definition one_prepared :: prepared_book where
  "one_prepared = \<lparr>p_number = 4, p_content_hash = 11, p_text_hash = 12, p_metadata_hash = 13, p_source_hash = 0,
     p_storage = LibraryDb, p_source_generation = None\<rparr>"

definition one_answers :: "nat \<Rightarrow> book_answers" where
  "one_answers = (\<lambda>_. \<lparr>begin_scan = \<lambda>_. Inr 5,
     read_book = Some (Inr (Some \<lparr>text_empty = False, row_has_newline = False, has_notes = False\<rparr>)),
     prepare_text = \<lambda>st hash. Some (Some one_prepared), source_changed = \<lambda>_ g. g \<noteq> 5, enqueued = Some 3\<rparr>)"

definition one_result :: library_book_result where
  "one_result = \<lparr>res_book = 7, res_status = Indexed, res_docs = 3, res_storage = LibraryDb, res_number = 4,
     res_content_hash = 11, res_text_hash = 12, res_metadata_hash = 13, res_source_hash = 0, res_error = None\<rparr>"

definition one_end :: batch where
  "one_end = \<lparr>next_book = 2, in_flight = 0, next_admit = 1, workers = [Exited], channel = [], waiting = [],
     next_enq = 1, results = [Some one_result], cancelled = False, abort = False, receiver = Finished,
     written = [0]\<rparr>"

lemma reach_next:
  "\<lbrakk>batch_reach slug_ok answers pol books k s; batch_step slug_ok answers pol books s s''; s'' = s'\<rbrakk>
    \<Longrightarrow> batch_reach slug_ok answers pol books (Suc k) s'"
  by (blast intro: reach_step)

lemma one_path: "names_source slug_ok one_input SourceLibrary" "own_path one_input SourceLibrary"
  using char_of_char [of "CHR ''7''", where 'a = nat, symmetric] by (simp_all add: names_source_def own_path_def one_input_def library_path_def digit_char_def nat_to_string.simps)

lemma one_outcome:
  "prepare_caught slug_ok no_stop (one_answers i) one_input
     = Prepared (one_prepared\<lparr>p_source_generation := Some (SourceLibrary, 5)\<rparr>)"
  using prepare_checked_source [OF one_path, of slug_ok no_stop "one_answers i"]
  by (simp add: prepare_caught_def one_answers_def no_stop_def preparation_def)

lemma one_run: "batch_reach slug_ok one_answers (for_platform True 4 False) [one_input] 9 one_end"
proof -
  let ?pol = "for_platform True 4 False"
  let ?R = "3 * 2 ^ 20 :: nat"
  let ?books = "[one_input]"
  let ?o = "Prepared (one_prepared\<lparr>p_source_generation := Some (SourceLibrary, 5)\<rparr>)"
  define st where "st nb fl na w ch wt e rs rc wr =
    \<lparr>next_book = nb, in_flight = fl, next_admit = na, workers = [w], channel = ch, waiting = wt, next_enq = e,
     results = [rs], cancelled = False, abort = False, receiver = rc, written = wr\<rparr>"
    for nb fl na w ch wt e rs rc wr
  note defs = st_def set_worker_def stopped_def
  have pol: "book_workers ?pol = 1" "reservation ?pol = ?R" "budget_limit ?pol = ?R"
    by (simp_all add: for_platform_def reservation_def budget_limit_def)
  have prepared: "may_prepare slug_ok (one_answers 0) stop one_input ?o" for stop
    using may_prepare_some[of slug_ok "one_answers 0" stop one_input] by (simp only: one_outcome)
  have "batch_reach slug_ok one_answers ?pol ?books 0 (st 0 0 0 Idle [] [] 0 None Receiving [])"
    using reach_start[of slug_ok one_answers ?pol ?books] by (simp add: batch_start_def st_def pol)
  then have "batch_reach slug_ok one_answers ?pol ?books (Suc 0) (st 1 0 0 (Waiting 0) [] [] 0 None Receiving [])"
    by (rule reach_next[OF _ batch_step.fetch[where w = 0]]) (simp_all add: defs)
  then have "batch_reach slug_ok one_answers ?pol ?books (Suc (Suc 0)) (st 1 ?R 1 (Preparing 0) [] [] 0 None Receiving [])"
    by (rule reach_next[OF _ batch_step.admit[where w = 0 and i = 0]]) (simp_all add: defs admits_def pol)
  then have "batch_reach slug_ok one_answers ?pol ?books (Suc (Suc (Suc 0))) (st 1 ?R 1 (Sending 0 ?o) [] [] 0 None Receiving [])"
    by (rule reach_next[OF _ batch_step.prepare[where w = 0 and i = 0 and out = ?o]])
      (simp_all add: defs prepared)
  then have "batch_reach slug_ok one_answers ?pol ?books (Suc (Suc (Suc (Suc 0)))) (st 1 ?R 1 Idle [(0, ?o)] [] 0 None Receiving [])"
    by (rule reach_next[OF _ batch_step.send[where w = 0 and i = 0 and out = ?o]]) (simp_all add: defs pol)
  then have "batch_reach slug_ok one_answers ?pol ?books (Suc (Suc (Suc (Suc (Suc 0))))) (st 2 ?R 1 Exited [(0, ?o)] [] 0 None Receiving [])"
    by (rule reach_next[OF _ batch_step.no_more[where w = 0]]) (simp_all add: defs)
  then have "batch_reach slug_ok one_answers ?pol ?books (Suc (Suc (Suc (Suc (Suc (Suc 0)))))) (st 2 ?R 1 Exited [] [(0, ?o)] 0 None Draining [])"
    by (rule reach_next[OF _ batch_step.receive]) (simp_all add: defs)
  then have "batch_reach slug_ok one_answers ?pol ?books (Suc (Suc (Suc (Suc (Suc (Suc (Suc 0))))))) (st 2 0 1 Exited [] [] 1 (Some one_result) Draining [0])"
    by (rule reach_next[OF _ batch_step.enqueue[where out = ?o and r = one_result]])
      (simp_all add: defs enqueue_book_def put_result_def pol one_answers_def one_result_def one_prepared_def one_input_def)
  then have "batch_reach slug_ok one_answers ?pol ?books (Suc (Suc (Suc (Suc (Suc (Suc (Suc (Suc 0)))))))) (st 2 0 1 Exited [] [] 1 (Some one_result) Receiving [0])"
    by (rule reach_next[OF _ batch_step.drained]) (simp_all add: defs)
  then have "batch_reach slug_ok one_answers ?pol ?books (Suc (Suc (Suc (Suc (Suc (Suc (Suc (Suc (Suc 0))))))))) (st 2 0 1 Exited [] [] 1 (Some one_result) Finished [0])"
    by (rule reach_next[OF _ batch_step.hung_up]) (simp_all add: defs)
  then show ?thesis by (simp add: st_def one_end_def eval_nat_numeral)
qed

text \<open>The three properties on that run.\<close>

lemma batch_terminates_witness:
  "(batch_over one_end \<or> (\<exists>s'. batch_step (\<lambda>_. False) one_answers (for_platform True 4 False) [one_input] one_end s')) \<and>
    (9::nat) \<le> 10 * length [one_input] + min (book_workers (for_platform True 4 False)) (length [one_input]) + 2"
  using batch_terminates[OF one_run[of "\<lambda>_. False"]] .

lemma batch_in_bounds_witness:
  "in_flight one_end \<le> budget_limit (for_platform True 4 False) \<and> sorted_wrt (<) (written one_end)"
  using batch_in_bounds[OF one_run[of "\<lambda>_. False"]] by simp

lemma batch_results_correct_witness:
  "own_result (\<lambda>_. False) (one_answers 0) one_input one_result \<and> written one_end = [0]"
proof -
  have results: "batch_results [one_input] one_end = Some [one_result]"
    by (simp add: batch_results_def one_end_def)
  have "add_library_books (\<lambda>_. False) one_answers (\<lambda>_ n. (n + 1 :: nat, None :: nat option)) (for_platform True 4 False)
      [one_input] 4 5 one_end (BookResults [one_result])"
    using add_library_books.ran[OF _ one_run[of "\<lambda>_. False"], of "\<lambda>_ n. (n + 1 :: nat, None :: nat option)" 4 5] results
    by (simp add: batch_over_def one_end_def)
  from batch_results_correct[OF this] show ?thesis by (simp add: one_end_def)
qed

end
