(* ===== verification/BookCounts.thy ===== *)
theory BookCounts
  imports BookOrder
begin

section \<open>Counts and fingerprints of books\<close>

text \<open>
  Three collectors of \<^verbatim>\<open>api/search_engine.rs\<close> that group documents by book. \<^verbatim>\<open>BookCountCollector\<close>
  counts them in a vector indexed by path term; \<^verbatim>\<open>BookFingerprintCollector\<close> takes the common
  value of a hash column in a map by path term; \<^verbatim>\<open>SingleBookFingerprintCollector\<close> does so for the
  documents of one book. Columns and dictionaries are those of \<open>stamp_segment\<close>. Proved: the counts
  are exact, and the three ways to read a book's fingerprint (the map, the single book and the
  stamps collector of \<^verbatim>\<open>book_order.rs\<close>) agree. Counters are 32-bit words, whose sums wrap.
\<close>

subsection \<open>BookCountCollector\<close>

text \<open>A segment with the number of its path terms.\<close>

record dict_segment = stamp_segment +
  num_terms :: nat

definition counts_new :: "dict_segment \<Rightarrow> 32 word list" where
  "counts_new sg = (case path_column sg of None \<Rightarrow> [] | Some _ \<Rightarrow> replicate (num_terms sg) 0)"

text \<open>\<^verbatim>\<open>collect\<close>: \<open>None\<close> is the panic of a term outside the vector.\<close>

definition count_doc :: "dict_segment \<Rightarrow> nat \<Rightarrow> 32 word list \<Rightarrow> 32 word list option" where
  "count_doc sg doc counts =
     (case path_column sg of
        None \<Rightarrow> Some counts
      | Some col \<Rightarrow>
          (case col doc of
             None \<Rightarrow> Some counts
           | Some t \<Rightarrow> if t < length counts then Some (counts[t := counts ! t + 1]) else None))"

fun count_docs :: "dict_segment \<Rightarrow> nat list \<Rightarrow> 32 word list \<Rightarrow> 32 word list option" where
  "count_docs sg [] counts = Some counts"
| "count_docs sg (d # ds) counts = Option.bind (count_doc sg d counts) (count_docs sg ds)"

text \<open>\<^verbatim>\<open>harvest\<close>: one pass over the dictionary, which yields the strings of the terms with hits in
  order; a dictionary that cannot be read is an error.\<close>

fun insert_hits :: "dict_segment \<Rightarrow> (path \<Rightarrow> 32 word option) \<Rightarrow> (nat \<times> 32 word) list \<Rightarrow> (path \<Rightarrow> 32 word option) option" where
  "insert_hits sg m [] = Some m"
| "insert_hits sg m ((t, n) # hits) =
     (if readable sg then
        (case term_string sg t of None \<Rightarrow> None | Some p \<Rightarrow> insert_hits sg (m(p \<mapsto> n)) hits)
      else None)"

definition harvest_counts :: "dict_segment \<Rightarrow> 32 word list \<Rightarrow> (path \<Rightarrow> 32 word option) option" where
  "harvest_counts sg counts =
     (case path_column sg of
        None \<Rightarrow> Some (\<lambda>_. None)
      | Some _ \<Rightarrow> insert_hits sg (\<lambda>_. None) (filter (\<lambda>(_, n). 0 < n) (List.enumerate 0 counts)))"

fun merge_counts :: "(path \<Rightarrow> 32 word option) \<Rightarrow> (path \<Rightarrow> 32 word option) option list \<Rightarrow> (path \<Rightarrow> 32 word option) option" where
  "merge_counts merged [] = Some merged"
| "merge_counts merged (None # fs) = None"
| "merge_counts merged (Some f # fs) =
     merge_counts (\<lambda>p. case f p of
         None \<Rightarrow> merged p
       | Some n \<Rightarrow> Some ((case merged p of None \<Rightarrow> 0 | Some k \<Rightarrow> k) + n)) fs"

definition segment_counts :: "dict_segment \<Rightarrow> nat list \<Rightarrow> (path \<Rightarrow> 32 word option) option" where
  "segment_counts sg docs = Option.bind (count_docs sg docs (counts_new sg)) (harvest_counts sg)"

definition book_counts_of :: "(dict_segment \<times> nat list) list \<Rightarrow> (path \<Rightarrow> 32 word option) option" where
  "book_counts_of segs = merge_counts (\<lambda>_. None) (map (\<lambda>(sg, docs). segment_counts sg docs) segs)"

subsection \<open>The fingerprint collectors\<close>

text \<open>The hash column is the \<open>k\<close>-th of the segment's stamp columns.\<close>

definition hash_of :: "nat \<Rightarrow> stamp_segment \<Rightarrow> nat \<Rightarrow> nat option" where
  "hash_of k sg doc = Option.bind (stamp_columns sg ! k) (\<lambda>c. c doc)"

definition collect_fingerprint :: "nat \<Rightarrow> stamp_segment \<Rightarrow> nat \<Rightarrow> (nat \<Rightarrow> nat option option) \<Rightarrow> nat \<Rightarrow> nat option option" where
  "collect_fingerprint k sg doc found =
     (case path_column sg of
        None \<Rightarrow> found
      | Some col \<Rightarrow>
          (case col doc of
             None \<Rightarrow> found
           | Some t \<Rightarrow> found(t \<mapsto> combine_fingerprint (Option.bind (found t) (\<lambda>h. h)) (hash_of k sg doc))))"

definition harvest_fingerprints :: "stamp_segment \<Rightarrow> nat list \<Rightarrow> (nat \<Rightarrow> nat option option) \<Rightarrow> (path \<Rightarrow> nat option option) option" where
  "harvest_fingerprints sg terms found =
     (if path_column sg = None then Some (\<lambda>_. None)
      else if \<not> readable sg \<and> terms \<noteq> [] then None
      else Some (fold (\<lambda>t m. case (term_string sg t, found t) of
                     (Some p, Some h) \<Rightarrow> m(p \<mapsto> h) | _ \<Rightarrow> m) terms (\<lambda>_. None)))"

fun merge_fingerprints :: "(path \<Rightarrow> nat option option) \<Rightarrow> (path \<Rightarrow> nat option option) option list
    \<Rightarrow> (path \<Rightarrow> nat option option) option" where
  "merge_fingerprints merged [] = Some merged"
| "merge_fingerprints merged (None # fs) = None"
| "merge_fingerprints merged (Some f # fs) =
     merge_fingerprints (\<lambda>p. case f p of
         None \<Rightarrow> merged p
       | Some h \<Rightarrow> Some (combine_fingerprint (Option.bind (merged p) (\<lambda>h. h)) h)) fs"

definition segment_fingerprints :: "nat \<Rightarrow> stamp_segment \<Rightarrow> nat list \<Rightarrow> nat list \<Rightarrow> (path \<Rightarrow> nat option option) option" where
  "segment_fingerprints k sg docs terms = harvest_fingerprints sg terms (fold (collect_fingerprint k sg) docs (\<lambda>_. None))"

definition book_fingerprints :: "nat \<Rightarrow> (stamp_segment \<times> nat list \<times> nat list) list \<Rightarrow> (path \<Rightarrow> nat option) option" where
  "book_fingerprints k segs =
     map_option (\<lambda>m p. map_option (\<lambda>h. case h of None \<Rightarrow> 0 | Some v \<Rightarrow> v) (m p))
       (merge_fingerprints (\<lambda>_. None) (map (\<lambda>(sg, docs, terms). segment_fingerprints k sg docs terms) segs))"

text \<open>The documents of one book only, its path not read.\<close>

definition single_collect :: "nat \<Rightarrow> stamp_segment \<Rightarrow> nat \<Rightarrow> nat option \<Rightarrow> nat option" where
  "single_collect k sg doc seen = combine_fingerprint seen (hash_of k sg doc)"

definition single_fingerprint :: "nat \<Rightarrow> (stamp_segment \<times> nat list) list \<Rightarrow> nat" where
  "single_fingerprint k segs =
     (case foldl combine_fingerprint None (map (\<lambda>(sg, docs). fold (single_collect k sg) docs None) segs) of
        None \<Rightarrow> 0 | Some v \<Rightarrow> v)"

subsection \<open>The counts are exact\<close>

text \<open>The documents of a book, and what the code relies on: a readable dictionary whose terms have
  distinct strings, a column that holds its terms only, and documents that are 32-bit numbers.\<close>

definition path_docs :: "'a stamp_segment_scheme \<Rightarrow> nat list \<Rightarrow> path \<Rightarrow> nat list" where
  "path_docs sg docs p = filter (\<lambda>d. \<exists>col t. path_column sg = Some col \<and> col d = Some t \<and> term_string sg t = Some p) docs"

lemma book_docs_path_docs: "book_docs sg docs p = path_docs sg docs p"
  by (simp add: book_docs_def path_docs_def)

definition dict_ok :: "dict_segment \<Rightarrow> nat list \<Rightarrow> bool" where
  "dict_ok sg docs \<longleftrightarrow>
     length docs < 2 ^ 32 \<and> readable sg \<and> (\<forall>t < num_terms sg. term_string sg t \<noteq> None) \<and>
     (\<forall>t u p. term_string sg t = Some p \<longrightarrow> term_string sg u = Some p \<longrightarrow> t = u) \<and>
     (\<forall>col. path_column sg = Some col \<longrightarrow> (\<forall>d \<in> set docs. \<forall>t. col d = Some t \<longrightarrow> t < num_terms sg))"

definition term_docs :: "(nat \<Rightarrow> nat option) \<Rightarrow> nat list \<Rightarrow> nat \<Rightarrow> nat" where
  "term_docs col docs t = length (filter (\<lambda>d. col d = Some t) docs)"

lemma count_docs_exact:
  assumes "path_column sg = Some col" "\<forall>d \<in> set docs. \<forall>t. col d = Some t \<longrightarrow> t < length counts"
  shows "count_docs sg docs counts = Some (map (\<lambda>t. counts ! t + of_nat (term_docs col docs t)) [0..<length counts])"
  using assms(2)
proof (induction docs arbitrary: counts)
  case Nil
  then show ?case by (simp add: term_docs_def map_nth)
next
  case (Cons d docs)
  show ?case
  proof (cases "col d")
    case None
    then show ?thesis using Cons assms(1) by (simp add: count_doc_def term_docs_def)
  next
    case (Some t)
    then have t: "t < length counts" using Cons.prems by simp
    have "count_docs sg docs (counts[t := counts ! t + 1]) =
      Some (map (\<lambda>u. counts[t := counts ! t + 1] ! u + of_nat (term_docs col docs u)) [0..<length counts])"
      using Cons.IH[of "counts[t := counts ! t + 1]"] Cons.prems by simp
    moreover have "map (\<lambda>u. counts[t := counts ! t + 1] ! u + of_nat (term_docs col docs u)) [0..<length counts] =
      map (\<lambda>u. counts ! u + of_nat (term_docs col (d # docs) u)) [0..<length counts]"
      using Some by (auto simp: term_docs_def nth_list_update)
    ultimately show ?thesis using Some t assms(1) by (simp add: count_doc_def)
  qed
qed

lemma insert_hits_exact:
  assumes "readable sg" "\<forall>t u p. term_string sg t = Some p \<longrightarrow> term_string sg u = Some p \<longrightarrow> t = u"
    "\<forall>(t, n) \<in> set hits. term_string sg t \<noteq> None" "distinct (map fst hits)"
  shows "\<exists>m'. insert_hits sg m hits = Some m' \<and>
    (\<forall>(t, n) \<in> set hits. \<forall>p. term_string sg t = Some p \<longrightarrow> m' p = Some n) \<and>
    (\<forall>p. (\<forall>(t, n) \<in> set hits. term_string sg t \<noteq> Some p) \<longrightarrow> m' p = m p)"
  using assms(3,4)
proof (induction hits arbitrary: m)
  case (Cons hit hits)
  obtain t n where hit: "hit = (t, n)" by fastforce
  then obtain q where q: "term_string sg t = Some q" using Cons.prems(1) by auto
  have "\<exists>m'. insert_hits sg (m(q \<mapsto> n)) hits = Some m' \<and>
    (\<forall>(u, k) \<in> set hits. \<forall>p. term_string sg u = Some p \<longrightarrow> m' p = Some k) \<and>
    (\<forall>p. (\<forall>(u, k) \<in> set hits. term_string sg u \<noteq> Some p) \<longrightarrow> m' p = (m(q \<mapsto> n)) p)"
    by (rule Cons.IH) (use Cons.prems in auto)
  then obtain m' where m': "insert_hits sg (m(q \<mapsto> n)) hits = Some m'"
    "\<forall>(u, k) \<in> set hits. \<forall>p. term_string sg u = Some p \<longrightarrow> m' p = Some k"
    "\<forall>p. (\<forall>(u, k) \<in> set hits. term_string sg u \<noteq> Some p) \<longrightarrow> m' p = (m(q \<mapsto> n)) p" by blast
  have "t \<notin> fst ` set hits" using Cons.prems(2) hit by simp
  then have "\<forall>(u, k) \<in> set hits. term_string sg u \<noteq> Some q" using q assms(2) by force
  then have "m' q = Some n" using m'(3) by simp
  then show ?case using m' q by (intro exI[where x = m']) (auto simp: hit assms(1))
qed simp

definition counted :: "nat \<Rightarrow> 32 word option" where
  "counted n = (if n = 0 then None else Some (of_nat n))"

lemma segment_counts_exact:
  assumes "dict_ok sg docs"
  shows "segment_counts sg docs = Some (\<lambda>p. counted (length (path_docs sg docs p)))"
proof (cases "path_column sg")
  case None
  then have "segment_counts sg docs = Some (\<lambda>_. None)"
    by (induction docs) (auto simp: segment_counts_def counts_new_def harvest_counts_def count_doc_def)
  then show ?thesis using None by (simp add: path_docs_def counted_def)
next
  case (Some col)
  let ?counts = "map (\<lambda>t. of_nat (term_docs col docs t) :: 32 word) [0..<num_terms sg]"
  define hs where "hs = filter (\<lambda>(_, n). 0 < n) (List.enumerate 0 ?counts)"
  have bound: "\<forall>d \<in> set docs. \<forall>t. col d = Some t \<longrightarrow> t < num_terms sg" and inj: "\<forall>t u p. term_string sg t = Some p \<longrightarrow> term_string sg u = Some p \<longrightarrow> t = u"
    using assms Some by (auto simp: dict_ok_def)
  have "count_docs sg docs (counts_new sg) = Some (map (\<lambda>t. counts_new sg ! t + of_nat (term_docs col docs t)) [0..<length (counts_new sg)])"
    by (rule count_docs_exact[OF Some]) (use bound Some in \<open>simp add: counts_new_def\<close>)
  also have "\<dots> = Some ?counts" using Some by (simp add: counts_new_def)
  finally have counts: "count_docs sg docs (counts_new sg) = Some ?counts" .
  have small: "term_docs col docs t < 2 ^ 32" for t
    unfolding term_docs_def
    by (rule le_less_trans[OF length_filter_le]) (use assms in \<open>simp add: dict_ok_def\<close>)
  have positive: "0 < (of_nat (term_docs col docs t) :: 32 word) \<longleftrightarrow> 0 < term_docs col docs t" for t
    using small[of t] by (auto simp: word_greater_zero_iff word_of_nat_eq_0_iff intro: gr0I dest: nat_dvd_not_less)
  have hits: "(t, n) \<in> set hs \<longleftrightarrow> t < num_terms sg \<and> n = of_nat (term_docs col docs t) \<and> 0 < term_docs col docs t" for t n
    by (auto simp: hs_def in_set_enumerate_eq positive)
  have "distinct (map fst hs)" unfolding hs_def by (rule distinct_map_filter) simp
  moreover have "\<forall>(t, n) \<in> set hs. term_string sg t \<noteq> None" using assms hits unfolding dict_ok_def by blast
  ultimately obtain m' where m': "insert_hits sg (\<lambda>_. None) hs = Some m'"
    "\<forall>(t, n) \<in> set hs. \<forall>p. term_string sg t = Some p \<longrightarrow> m' p = Some n"
    "\<forall>p. (\<forall>(t, n) \<in> set hs. term_string sg t \<noteq> Some p) \<longrightarrow> m' p = None"
    using insert_hits_exact[of sg hs "\<lambda>_. None"] assms inj by (auto simp: dict_ok_def)
  have "m' p = counted (length (path_docs sg docs p))" for p
  proof (cases "\<exists>t < num_terms sg. term_string sg t = Some p \<and> 0 < term_docs col docs t")
    case True
    then obtain t where t: "(t, of_nat (term_docs col docs t)) \<in> set hs" "term_string sg t = Some p" using hits by blast
    have "path_docs sg docs p = filter (\<lambda>d. col d = Some t) docs"
      unfolding path_docs_def by (rule filter_cong) (use t(2) inj Some in auto)
    moreover have "m' p = Some (of_nat (term_docs col docs t))" using bspec[OF m'(2) t(1)] t(2) by simp
    ultimately show ?thesis using True hits t(1) by (simp add: counted_def term_docs_def)
  next
    case False
    then have "\<forall>(t, n) \<in> set hs. term_string sg t \<noteq> Some p" by (auto simp: hits)
    then have "m' p = None" using m'(3) by blast
    moreover have "path_docs sg docs p = []"
    proof (rule ccontr)
      assume "path_docs sg docs p \<noteq> []"
      then obtain d t where d: "d \<in> set docs" "col d = Some t" "term_string sg t = Some p"
        using Some by (auto simp: path_docs_def filter_empty_conv)
      then have "0 < term_docs col docs t" by (auto simp: term_docs_def filter_empty_conv)
      then show False using False d bound by blast
    qed
    ultimately show ?thesis by (simp add: counted_def)
  qed
  then have "m' = (\<lambda>p. counted (length (path_docs sg docs p)))" by (rule ext)
  moreover have "harvest_counts sg ?counts = Some m'" unfolding harvest_counts_def Some option.case hs_def[symmetric] by (rule m'(1))
  ultimately show ?thesis unfolding segment_counts_def counts by (simp only: Option.bind.simps)
qed

lemma merge_counts_exact:
  "merge_counts (\<lambda>p. counted (m p)) (map (\<lambda>g. Some (\<lambda>p. counted (g p))) gs) =
     Some (\<lambda>p. counted (m p + sum_list (map (\<lambda>g. g p) gs)))"
proof (induction gs arbitrary: m)
  case (Cons g gs)
  have "(\<lambda>p. case counted (g p) of None \<Rightarrow> counted (m p)
      | Some n \<Rightarrow> Some ((case counted (m p) of None \<Rightarrow> 0 | Some k \<Rightarrow> k) + n)) = (\<lambda>p. counted (m p + g p))"
    by (auto simp: counted_def fun_eq_iff)
  then show ?case using Cons[of "\<lambda>p. m p + g p"] by (simp add: add.assoc)
qed simp

text \<open>C31: \<^verbatim>\<open>BookCountCollector\<close> gives each book the number of its documents, over all segments, as a
  32-bit count, and only books that have one.\<close>

theorem book_counts_exact:
  assumes "\<forall>(sg, docs) \<in> set segs. dict_ok sg docs"
  shows "book_counts_of segs = Some (\<lambda>p.
    let n = sum_list (map (\<lambda>(sg, docs). length (path_docs sg docs p)) segs) in if n = 0 then None else Some (of_nat n))"
proof -
  let ?gs = "map (\<lambda>(sg, docs) p. length (path_docs sg docs p)) segs"
  have fruits: "map (\<lambda>(sg, docs). segment_counts sg docs) segs = map (\<lambda>g. Some (\<lambda>p. counted (g p))) ?gs"
    unfolding map_map by (rule map_cong) (use assms segment_counts_exact in auto)
  have none: "(\<lambda>_. None) = (\<lambda>p. counted 0)" by (simp add: counted_def)
  have "book_counts_of segs = Some (\<lambda>p. counted (0 + sum_list (map (\<lambda>g. g p) ?gs)))"
    unfolding book_counts_of_def fruits none by (rule merge_counts_exact)
  moreover have "sum_list (map (\<lambda>g. g p) ?gs) = sum_list (map (\<lambda>(sg, docs). length (path_docs sg docs p)) segs)" for p
    by (simp add: comp_def case_prod_unfold)
  ultimately show ?thesis by (simp only: add_0 counted_def Let_def)
qed

subsection \<open>The fingerprints agree\<close>

text \<open>The map of fingerprints is the \<open>k\<close>-th stamp of the stamps collector's map.\<close>

definition stamp_at :: "nat \<Rightarrow> partial_stamps \<Rightarrow> nat option" where
  "stamp_at k b = stamps b ! k"

definition four_stamps :: "('a \<Rightarrow> partial_stamps option) \<Rightarrow> bool" where
  "four_stamps m \<longleftrightarrow> (\<forall>x b. m x = Some b \<longrightarrow> length (stamps b) = 4)"

definition stamps_at :: "nat \<Rightarrow> ('a \<Rightarrow> partial_stamps option) \<Rightarrow> 'a \<Rightarrow> nat option option" where
  "stamps_at k m x = map_option (stamp_at k) (m x)"

lemma collect_at:
  assumes "k < 4" "length (stamp_columns sg) = 4" "four_stamps m"
  shows "stamps_at k (collect_stamps sg d m) = collect_fingerprint k sg d (stamps_at k m) \<and>
    four_stamps (collect_stamps sg d m)"
proof (cases "Option.bind (path_column sg) (\<lambda>col. col d)")
  case None
  then have "collect_stamps sg d m = m" "collect_fingerprint k sg d f = f" for f
    by (auto simp: collect_stamps_def collect_fingerprint_def split: option.splits)
  then show ?thesis using assms(3) by simp
next
  case (Some t)
  then obtain col where col: "path_column sg = Some col" "col d = Some t" by (auto simp: bind_eq_Some_conv)
  let ?b = "case m t of None \<Rightarrow> stamps_default | Some b \<Rightarrow> b"
  have len: "length (stamps ?b) = 4" using assms(3) by (auto simp: four_stamps_def stamps_default_def split: option.splits)
  have at: "stamp_at k ?b = Option.bind (stamps_at k m t) (\<lambda>h. h)"
    using assms(1) by (cases "m t") (auto simp: stamp_at_def stamps_at_def stamps_default_def less_Suc_eq numeral_eq_Suc)
  show ?thesis
    using col len assms at
    by (auto simp: collect_stamps_def collect_fingerprint_def Let_def stamps_at_def stamp_at_def fun_eq_iff hash_of_def four_stamps_def)
qed

lemma fold_collect_at:
  assumes "k < 4" "length (stamp_columns sg) = 4"
  shows "stamps_at k (fold (collect_stamps sg) docs (\<lambda>_. None)) = fold (collect_fingerprint k sg) docs (\<lambda>_. None) \<and>
    four_stamps (fold (collect_stamps sg) docs (\<lambda>_. None))"
proof (induction docs rule: rev_induct)
  case Nil
  show ?case by (simp add: stamps_at_def four_stamps_def fun_eq_iff)
next
  case (snoc d docs)
  then show ?case using collect_at[OF assms, of "fold (collect_stamps sg) docs (\<lambda>_. None)" d] by simp
qed

lemma harvest_at:
  assumes "four_stamps found"
  shows "harvest_fingerprints sg terms (stamps_at k found) = map_option (stamps_at k) (harvest sg terms found) \<and>
    (\<forall>m. harvest sg terms found = Some m \<longrightarrow> four_stamps m)"
proof -
  let ?ins = "\<lambda>t m. case (term_string sg t, found t) of (Some p, Some b) \<Rightarrow> m(p \<mapsto> b) | _ \<Rightarrow> m"
  let ?ins' = "\<lambda>t m. case (term_string sg t, stamps_at k found t) of (Some p, Some h) \<Rightarrow> m(p \<mapsto> h) | _ \<Rightarrow> m"
  have "fold ?ins' terms (\<lambda>_. None) = stamps_at k (fold ?ins terms (\<lambda>_. None)) \<and> four_stamps (fold ?ins terms (\<lambda>_. None))"
  proof (induction terms rule: rev_induct)
    case Nil
    show ?case by (simp add: stamps_at_def four_stamps_def fun_eq_iff)
  next
    case (snoc t terms)
    then show ?case using assms
      by (cases "term_string sg t"; cases "found t") (auto simp: stamps_at_def four_stamps_def fun_eq_iff)
  qed
  then show ?thesis
    by (auto simp: harvest_fingerprints_def harvest_def stamps_at_def[abs_def] four_stamps_def)
qed

lemma merge_at:
  assumes "k < 4" "four_stamps m" "\<forall>f \<in> set fs. \<forall>g. f = Some g \<longrightarrow> four_stamps g"
  shows "merge_fingerprints (stamps_at k m) (map (map_option (stamps_at k)) fs) = map_option (stamps_at k) (merge_segments m fs) \<and>
    (\<forall>r. merge_segments m fs = Some r \<longrightarrow> four_stamps r)"
  using assms(2,3)
proof (induction fs arbitrary: m)
  case (Cons f fs)
  show ?case
  proof (cases f)
    case (Some g)
    have four: "four_stamps g" using Cons.prems(2) Some by simp
    have new: "length (stamps (case m p of None \<Rightarrow> stamps_default | Some a \<Rightarrow> a)) = 4" for p
      using Cons.prems(1) by (auto simp: four_stamps_def stamps_default_def split: option.splits)
    have at: "stamp_at k (case m p of None \<Rightarrow> stamps_default | Some a \<Rightarrow> a) = Option.bind (stamps_at k m p) (\<lambda>h. h)" for p
      using assms(1) by (cases "m p") (auto simp: stamp_at_def stamps_at_def stamps_default_def less_Suc_eq numeral_eq_Suc)
    have "(\<lambda>p. case stamps_at k g p of None \<Rightarrow> stamps_at k m p
        | Some h \<Rightarrow> Some (combine_fingerprint (Option.bind (stamps_at k m p) (\<lambda>h. h)) h)) = stamps_at k (merge_books m g)"
    proof
      fix p
      show "(case stamps_at k g p of None \<Rightarrow> stamps_at k m p
        | Some h \<Rightarrow> Some (combine_fingerprint (Option.bind (stamps_at k m p) (\<lambda>h. h)) h)) = stamps_at k (merge_books m g) p"
      proof (cases "g p")
        case (Some b)
        then have "length (stamps b) = 4" using four by (simp add: four_stamps_def)
        then show ?thesis using Some new[of p] assms(1) unfolding at[symmetric]
          by (simp add: stamps_at_def merge_books_def stamp_at_def stamps_merge_def)
      qed (simp add: stamps_at_def merge_books_def)
    qed
    moreover have "four_stamps (merge_books m g)"
      using four new Cons.prems(1) by (auto simp: four_stamps_def merge_books_def stamps_merge_def split: option.splits)
    ultimately show ?thesis using Cons.IH[of "merge_books m g"] Cons.prems(2) Some by simp
  qed simp
qed simp

lemma finish_at:
  assumes "k < 4" "length (stamps b) = 4"
  shows "(case stamp_at k b of None \<Rightarrow> 0 | Some v \<Rightarrow> v) = cs_stamps (finish_stamps b) ! k"
  using assms by (simp add: stamp_at_def finish_stamps_def)

lemma fingerprints_are_stamps:
  assumes "k < 4" "\<forall>(sg, docs, terms) \<in> set segs. length (stamp_columns sg) = 4"
  shows "book_fingerprints k segs =
    map_option (\<lambda>m p. map_option (\<lambda>c. cs_stamps c ! k) (m p))
      (merge_stamp_fruits (map (\<lambda>(sg, docs, terms). segment_fruit sg docs terms) segs))"
proof -
  let ?fs = "map (\<lambda>(sg, docs, terms). segment_fruit sg docs terms) segs"
  have each: "segment_fingerprints k sg docs terms = map_option (stamps_at k) (segment_fruit sg docs terms) \<and>
      (\<forall>g. segment_fruit sg docs terms = Some g \<longrightarrow> four_stamps g)"
    if "length (stamp_columns sg) = 4" for sg docs terms
    using fold_collect_at[OF assms(1) that, of docs] harvest_at[of "fold (collect_stamps sg) docs (\<lambda>_. None)" sg terms k]
    by (simp add: segment_fingerprints_def segment_fruit_def)
  have fruits: "map (\<lambda>(sg, docs, terms). segment_fingerprints k sg docs terms) segs = map (map_option (stamps_at k)) ?fs"
    unfolding map_map by (rule map_cong) (use assms(2) each in auto)
  have four: "\<forall>f \<in> set ?fs. \<forall>g. f = Some g \<longrightarrow> four_stamps g" using assms(2) each by fastforce
  have start: "(\<lambda>_. None) = stamps_at k (\<lambda>_. None)" by (simp add: stamps_at_def[abs_def])
  have merged: "merge_fingerprints (\<lambda>_. None) (map (map_option (stamps_at k)) ?fs) = map_option (stamps_at k) (merge_segments (\<lambda>_. None) ?fs) \<and>
      (\<forall>r. merge_segments (\<lambda>_. None) ?fs = Some r \<longrightarrow> four_stamps r)"
    by (subst start) (rule merge_at[OF assms(1) _ four], simp add: four_stamps_def)
  show ?thesis
  proof (cases "merge_segments (\<lambda>_. None) ?fs")
    case None
    then show ?thesis using merged unfolding book_fingerprints_def fruits merge_stamp_fruits_def by (simp only: option.map)
  next
    case (Some r)
    then have r: "four_stamps r" using merged by blast
    have "(\<lambda>p. map_option (\<lambda>h. case h of None \<Rightarrow> 0 | Some v \<Rightarrow> v) (stamps_at k r p)) =
        (\<lambda>p. map_option (\<lambda>c. cs_stamps c ! k) (map_option finish_stamps (r p)))"
    proof
      fix p
      show "map_option (\<lambda>h. case h of None \<Rightarrow> 0 | Some v \<Rightarrow> v) (stamps_at k r p) =
        map_option (\<lambda>c. cs_stamps c ! k) (map_option finish_stamps (r p))"
        using r finish_at[OF assms(1)] by (cases "r p") (simp_all add: stamps_at_def four_stamps_def)
    qed
    then show ?thesis using merged Some unfolding book_fingerprints_def fruits merge_stamp_fruits_def by (simp only: option.map)
  qed
qed

lemma single_collect_agreed:
  "fold (single_collect k sg) docs None = agreed (stamp_values (stamp_columns sg ! k) docs)"
proof (induction docs rule: rev_induct)
  case Nil
  show ?case by (simp add: stamp_values_def map_filter_simps agreed_def)
next
  case (snoc d docs)
  then show ?case by (simp add: single_collect_def hash_of_def combine_agreed_one stamp_values_snoc)
qed

lemma foldl_combine_agreed: "foldl combine_fingerprint (agreed us) (map agreed vss) = agreed (us @ concat vss)"
  by (induction vss arbitrary: us) (simp_all add: combine_agreed)

lemma single_fingerprint_agreed:
  "single_fingerprint k segs =
    (case agreed (concat (map (\<lambda>(sg, docs). stamp_values (stamp_columns sg ! k) docs) segs)) of None \<Rightarrow> 0 | Some v \<Rightarrow> v)"
proof -
  have "map (\<lambda>(sg, docs). fold (single_collect k sg) docs None) segs =
      map agreed (map (\<lambda>(sg, docs). stamp_values (stamp_columns sg ! k) docs) segs)"
    by (simp add: single_collect_agreed case_prod_unfold comp_def)
  moreover have "foldl combine_fingerprint None (map agreed vss) = agreed (concat vss)" for vss
    using foldl_combine_agreed[of "[]" vss] by (simp add: agreed_def)
  ultimately show ?thesis unfolding single_fingerprint_def by (simp only:)
qed

text \<open>The three ways to read the fingerprint of a book agree. The map of
  \<^verbatim>\<open>BookFingerprintCollector\<close> holds the same books as the stamps collector, with the corresponding
  stamp; and \<^verbatim>\<open>SingleBookFingerprintCollector\<close>, run on the documents of one book, yields the entry of
  that book, 0 when there is none.\<close>

theorem fingerprints_agree:
  assumes "\<forall>(sg, docs, terms) \<in> set segs. segment_ok sg \<and> set terms = dom (fold (collect_stamps sg) docs (\<lambda>_. None))"
    and "k < 4"
  shows "\<exists>m st. book_fingerprints k segs = Some m \<and>
    merge_stamp_fruits (map (\<lambda>(sg, docs, terms). segment_fruit sg docs terms) segs) = Some st \<and>
    (\<forall>p. m p = map_option (\<lambda>c. cs_stamps c ! k) (st p) \<and>
       single_fingerprint k (map (\<lambda>(sg, docs, terms). (sg, book_docs sg docs p)) segs) = (case m p of None \<Rightarrow> 0 | Some v \<Rightarrow> v))"
proof -
  let ?ds = "map (\<lambda>(sg, docs, terms). (sg, docs)) segs"
  let ?st = "\<lambda>p. if \<forall>(sg, docs)\<in>set ?ds. book_docs sg docs p = [] then None else Some (finish_stamps (total_stamps ?ds p))"
  have st: "merge_stamp_fruits (map (\<lambda>(sg, docs, terms). segment_fruit sg docs terms) segs) = Some ?st"
    by (rule merge_fruits_total[OF assms(1)])
  have m: "book_fingerprints k segs = Some (\<lambda>p. map_option (\<lambda>c. cs_stamps c ! k) (?st p))"
    using fingerprints_are_stamps[OF assms(2), of segs] assms(1) unfolding st by (auto simp: segment_ok_def)
  have "single_fingerprint k (map (\<lambda>(sg, docs, terms). (sg, book_docs sg docs p)) segs) =
      (case map_option (\<lambda>c. cs_stamps c ! k) (?st p) of None \<Rightarrow> 0 | Some v \<Rightarrow> v)" for p
  proof -
    have single: "single_fingerprint k (map (\<lambda>(sg, docs, terms). (sg, book_docs sg docs p)) segs) =
        (case agreed (seg_values ?ds p k) of None \<Rightarrow> 0 | Some v \<Rightarrow> v)"
      unfolding single_fingerprint_agreed seg_values_def by (simp add: comp_def case_prod_unfold)
    show ?thesis
    proof (cases "\<forall>(sg, docs)\<in>set ?ds. book_docs sg docs p = []")
      case True
      then have "seg_values ?ds p k = []" by (auto simp: seg_values_def stamp_values_def map_filter_simps)
      then show ?thesis unfolding single using True by (simp add: agreed_def)
    next
      case False
      have "cs_stamps (finish_stamps (total_stamps ?ds p)) ! k = (case agreed (seg_values ?ds p k) of None \<Rightarrow> 0 | Some v \<Rightarrow> v)"
        using assms(2) by (simp add: finish_stamps_def total_stamps_def)
      then show ?thesis unfolding single if_not_P[OF False] by (simp only: option.map option.case)
    qed
  qed
  then show ?thesis using st m by blast
qed

subsection \<open>Examples\<close>

text \<open>Two segments: the documents 0 and 2 of the first and 5 of the second belong to \<open>''a''\<close>.\<close>

definition first_terms :: dict_segment where
  "first_terms = \<lparr>path_column = Some (\<lambda>d. Some (d mod 2)), ids = (\<lambda>_. None), stamp_columns = [None, None, None, None],
     term_string = [0 \<mapsto> ''a'', 1 \<mapsto> ''b''], readable = True, num_terms = 2\<rparr>"

definition second_terms :: dict_segment where
  "second_terms = \<lparr>path_column = Some (\<lambda>_. Some 0), ids = (\<lambda>_. None), stamp_columns = [None, None, None, None],
     term_string = [0 \<mapsto> ''a''], readable = True, num_terms = 1\<rparr>"

theorem book_counts_exact_witness:
  "map_option (\<lambda>m. (m ''a'', m ''b'', m ''c'')) (book_counts_of [(first_terms, [0, 1, 2]), (second_terms, [5])])
     = Some (Some 3, Some 1, None)"
proof -
  have "\<forall>(sg, docs) \<in> set [(first_terms, [0, 1, 2]), (second_terms, [5])]. dict_ok sg docs"
    by (auto simp: dict_ok_def first_terms_def second_terms_def split: if_splits)
  then show ?thesis using book_counts_exact by (simp add: path_docs_def first_terms_def second_terms_def)
qed

theorem fingerprints_agree_witness:
  "\<exists>m. book_fingerprints 1 [(one_segment, [2, 3], [0])] = Some m \<and>
     single_fingerprint 1 [(one_segment, book_docs one_segment [2, 3] ''a'')] = (case m ''a'' of None \<Rightarrow> 0 | Some v \<Rightarrow> v)"
proof -
  have "segment_ok one_segment" by (auto simp: segment_ok_def one_segment_def split: if_splits)
  moreover have "set [0] = dom (fold (collect_stamps one_segment) [2, 3] (\<lambda>_. None))"
    by (simp add: collect_stamps_def one_segment_def dom_def Let_def)
  ultimately have "\<forall>(sg, docs, terms) \<in> set [(one_segment, [2, 3], [0])].
      segment_ok sg \<and> set terms = dom (fold (collect_stamps sg) docs (\<lambda>_. None))" by simp
  then show ?thesis using fingerprints_agree[of "[(one_segment, [2, 3], [0])]" 1] by fastforce
qed

end
