(* ===== verification/Compaction.thy ===== *)
theory Compaction
  imports Prelude
begin

section \<open>Which segments are merged\<close>

text \<open>
  The end of \<^verbatim>\<open>api/search_engine.rs\<close>: the segments of an index are measured on disk, sorted by
  size and split into levels. The background merge policy takes only from the smallest level;
  \<^verbatim>\<open>optimize\<close> first rewrites segments full of deleted documents and then takes the first level worth
  it, in a loop. Merging itself is the library's: a parameter of the loop, with the law
  \<open>merges\<close>. Proved: the levels partition the segments; a choice never mixes sizes more than the
  ratio apart and never goes below the target; the loop ends, whatever the merged segments
  weigh, with nothing left to choose and no document lost.
\<close>

subsection \<open>Segments and their sizes\<close>

definition MAX_SEGMENTS_AFTER_OPTIMIZE :: nat where
  "MAX_SEGMENTS_AFTER_OPTIMIZE = 8"

definition MAX_COMPACT_SIZE_RATIO :: nat where
  "MAX_COMPACT_SIZE_RATIO = 4"

record segment =
  seg_id :: nat
  max_doc :: nat
  num_deleted :: nat
  seg_files :: "string list"

datatype file_size = Bytes nat | NotFound | IoError

text \<open>\<^verbatim>\<open>segment_disk_bytes\<close>: \<open>None\<close> is its error; a file that is not there counts nothing.\<close>

fun add_files :: "(string \<Rightarrow> file_size) \<Rightarrow> nat \<Rightarrow> string list \<Rightarrow> nat option" where
  "add_files disk bytes [] = Some bytes"
| "add_files disk bytes (f # fs) =
     (case disk f of
        Bytes n \<Rightarrow> add_files disk (saturating_add u64_max bytes n) fs
      | NotFound \<Rightarrow> add_files disk bytes fs
      | IoError \<Rightarrow> None)"

definition segment_disk_bytes :: "(string \<Rightarrow> file_size) \<Rightarrow> segment \<Rightarrow> nat option" where
  "segment_disk_bytes disk sg = add_files disk 0 (seg_files sg)"

type_synonym sized = "nat \<times> segment"

fun sized_segment_metas :: "(string \<Rightarrow> file_size) \<Rightarrow> segment list \<Rightarrow> sized list option" where
  "sized_segment_metas disk [] = Some []"
| "sized_segment_metas disk (sg # sgs) = do {
     n \<leftarrow> segment_disk_bytes disk sg;
     rest \<leftarrow> sized_segment_metas disk sgs;
     Some ((n, sg) # rest) }"

subsection \<open>Levels\<close>

definition sorted_by_size :: "sized list \<Rightarrow> sized list" where
  "sorted_by_size metas = sort_key fst metas"

text \<open>The end of the level that begins at a segment, and the levels from a position on.\<close>

function level_end :: "nat \<Rightarrow> sized list \<Rightarrow> nat \<Rightarrow> nat" where
  "level_end ceiling by_size e =
     (if e < length by_size \<and> fst (by_size ! e) \<le> ceiling then level_end ceiling by_size (e + 1) else e)"
  by pat_completeness auto
termination by (relation "measure (\<lambda>(_, by_size, e). length by_size - e)") auto

declare level_end.simps [simp del]

lemma level_end_ge: "e \<le> level_end ceiling by_size e"
  by (induction ceiling by_size e rule: level_end.induct) (subst level_end.simps, auto)

function levels_from :: "sized list \<Rightarrow> nat \<Rightarrow> (nat \<times> nat) list" where
  "levels_from by_size start =
     (if start < length by_size then
        (let ceiling = saturating_mul u64_max (fst (by_size ! start)) MAX_COMPACT_SIZE_RATIO;
             e = level_end ceiling by_size (start + 1)
         in (start, e) # levels_from by_size e)
      else [])"
  by pat_completeness auto
termination
  by (relation "measure (\<lambda>(by_size, start). length by_size - start)")
    (auto simp: Let_def intro!: diff_less_mono2 Suc_le_lessD[OF level_end_ge[of "Suc _", simplified]])

declare levels_from.simps [simp del]

definition size_levels :: "sized list \<Rightarrow> (nat \<times> nat) list" where
  "size_levels by_size = levels_from by_size 0"

text \<open>\<^verbatim>\<open>take_from_level\<close> is called with more segments than the target only.\<close>

definition take_from_level :: "nat \<Rightarrow> sized list \<Rightarrow> nat \<times> nat \<Rightarrow> nat list" where
  "take_from_level n_total by_size level =
     (let room = n_total - MAX_SEGMENTS_AFTER_OPTIMIZE + 1;
          k = min (snd level - fst level) room
      in map (\<lambda>(_, sg). seg_id sg) (take k (drop (fst level) by_size)))"

subsection \<open>The choices\<close>

definition select_smallest_level :: "sized list \<Rightarrow> nat list option" where
  "select_smallest_level metas =
     (if length metas \<le> MAX_SEGMENTS_AFTER_OPTIMIZE then None
      else
        (let by_size = sorted_by_size metas
         in case size_levels by_size of
              [] \<Rightarrow> None
            | (a, b) # _ \<Rightarrow>
                if 2 \<le> b - a then Some (take_from_level (length metas) by_size (a, b)) else None))"

definition worth_rewriting :: "nat \<Rightarrow> nat \<times> nat \<Rightarrow> bool" where
  "worth_rewriting rank level =
     (if rank = 0 then 2 \<le> snd level - fst level else MAX_SEGMENTS_AFTER_OPTIMIZE < snd level - fst level)"

definition select_level_to_compact :: "sized list \<Rightarrow> nat list option" where
  "select_level_to_compact metas =
     (if length metas \<le> MAX_SEGMENTS_AFTER_OPTIMIZE then None
      else
        (let by_size = sorted_by_size metas
         in map_option (\<lambda>(_, level). take_from_level (length metas) by_size level)
              (List.find (\<lambda>(rank, level). worth_rewriting rank level) (List.enumerate 0 (size_levels by_size)))))"

text \<open>A share of deleted documents above 0.3. Both counts have 32 bits, so the quotient of the two
  floating-point numbers compares with 0.3 as the fraction does.\<close>

definition delete_heavy :: "segment \<Rightarrow> bool" where
  "delete_heavy sg \<longleftrightarrow> 0 < max_doc sg \<and> 3 * max_doc sg < 10 * num_deleted sg"

definition select_segments_to_compact :: "sized list \<Rightarrow> nat list option" where
  "select_segments_to_compact metas =
     (case filter (\<lambda>(_, sg). delete_heavy sg) metas of
        [] \<Rightarrow> select_level_to_compact metas
      | h # hs \<Rightarrow> Some [seg_id (snd (arg_min_list fst (h # hs)))])"

text \<open>The merge policy of the writer: an unreadable size chooses nothing.\<close>

definition compute_merge_candidates :: "(string \<Rightarrow> file_size) \<Rightarrow> segment list \<Rightarrow> nat list list" where
  "compute_merge_candidates disk metas =
     (if length metas \<le> MAX_SEGMENTS_AFTER_OPTIMIZE then []
      else
        (case sized_segment_metas disk metas of
           None \<Rightarrow> []
         | Some sized \<Rightarrow> (case select_smallest_level sized of None \<Rightarrow> [] | Some ids \<Rightarrow> [ids])))"

text \<open>The loop of \<^verbatim>\<open>optimize_committed_segments\<close>. \<open>merge\<close> yields the segments listed after a merge, \<open>None\<close>
  an error of the merge or of listing; the result is \<open>Some None\<close> when measuring or merging fails.\<close>

partial_function (option) optimize_loop ::
  "(string \<Rightarrow> file_size) \<Rightarrow> (nat list \<Rightarrow> segment list \<Rightarrow> segment list option) \<Rightarrow> segment list \<Rightarrow> segment list option option" where
  "optimize_loop disk merge metas =
     (case sized_segment_metas disk metas of
        None \<Rightarrow> Some None
      | Some sized \<Rightarrow>
          (case select_segments_to_compact sized of
             None \<Rightarrow> Some (Some metas)
           | Some ids \<Rightarrow>
               (case merge ids metas of
                  None \<Rightarrow> Some None
                | Some metas' \<Rightarrow> optimize_loop disk merge metas')))"

text \<open>The whole operation: \<open>opened\<close> tells whether the maintenance writer opened and the segments were
  listed, \<open>waited\<close> whether its merging threads ended well. \<open>Some None\<close> is an error.\<close>

definition optimize_committed_segments ::
  "bool \<Rightarrow> bool \<Rightarrow> (string \<Rightarrow> file_size) \<Rightarrow> (nat list \<Rightarrow> segment list \<Rightarrow> segment list option) \<Rightarrow> segment list
    \<Rightarrow> segment list option option" where
  "optimize_committed_segments opened waited disk merge metas =
     (if opened
      then map_option (\<lambda>r. if waited then r else None) (optimize_loop disk merge metas)
      else Some None)"

subsection \<open>The levels\<close>

abbreviation size_at :: "sized list \<Rightarrow> nat \<Rightarrow> nat" where
  "size_at by_size i \<equiv> fst (by_size ! i)"

definition level_ceiling :: "sized list \<Rightarrow> nat \<Rightarrow> nat" where
  "level_ceiling by_size a = saturating_mul u64_max (size_at by_size a) MAX_COMPACT_SIZE_RATIO"

text \<open>A level from \<open>a\<close> to \<open>b\<close>: everything within the ratio of its first segment, and no more.\<close>

definition greedy_level :: "sized list \<Rightarrow> nat \<Rightarrow> nat \<Rightarrow> bool" where
  "greedy_level by_size a b \<longleftrightarrow>
     a < b \<and> b \<le> length by_size \<and> (\<forall>i. a < i \<and> i < b \<longrightarrow> size_at by_size i \<le> level_ceiling by_size a) \<and>
     (b < length by_size \<longrightarrow> level_ceiling by_size a < size_at by_size b)"

fun tiles :: "nat \<Rightarrow> (nat \<times> nat) list \<Rightarrow> nat \<Rightarrow> bool" where
  "tiles a [] e \<longleftrightarrow> a = e"
| "tiles a ((x, y) # ls) e \<longleftrightarrow> x = a \<and> tiles y ls e"

lemma level_end_spec:
  "e \<le> length by_size \<Longrightarrow> level_end ceiling by_size e \<le> length by_size \<and>
    (\<forall>i. e \<le> i \<and> i < level_end ceiling by_size e \<longrightarrow> size_at by_size i \<le> ceiling) \<and>
    (level_end ceiling by_size e < length by_size \<longrightarrow> ceiling < size_at by_size (level_end ceiling by_size e))"
proof (induction ceiling by_size e rule: level_end.induct)
  case (1 ceiling by_size e)
  show ?case
  proof (cases "e < length by_size \<and> size_at by_size e \<le> ceiling")
    case True
    then have "level_end ceiling by_size e = level_end ceiling by_size (e + 1)" by (subst level_end.simps) simp
    moreover have "size_at by_size i \<le> ceiling" if "e \<le> i" "i < level_end ceiling by_size (e + 1)" for i
      using that 1(1)[OF True] True by (cases "i = e") auto
    ultimately show ?thesis using 1(1)[OF True] True by auto
  next
    case False
    then have "level_end ceiling by_size e = e" by (subst level_end.simps) (simp only: if_False)
    then show ?thesis using False 1(2) by auto
  qed
qed

lemma greedy_first:
  "start < length by_size \<Longrightarrow> greedy_level by_size start (level_end (level_ceiling by_size start) by_size (start + 1))"
  using level_end_spec[of "start + 1" by_size "level_ceiling by_size start"]
    level_end_ge[of "start + 1" "level_ceiling by_size start" by_size]
  by (auto simp: greedy_level_def)

lemma levels_from_step:
  "start < length by_size \<Longrightarrow> levels_from by_size start =
     (start, level_end (level_ceiling by_size start) by_size (start + 1)) #
       levels_from by_size (level_end (level_ceiling by_size start) by_size (start + 1))"
  by (subst levels_from.simps) (simp add: Let_def level_ceiling_def)

lemma levels_from_spec:
  "start \<le> length by_size \<Longrightarrow>
    tiles start (levels_from by_size start) (length by_size) \<and>
    (\<forall>(a, b) \<in> set (levels_from by_size start). greedy_level by_size a b)"
proof (induction by_size start rule: levels_from.induct)
  case (1 by_size start)
  show ?case
  proof (cases "start < length by_size")
    case True
    let ?e = "level_end (level_ceiling by_size start) by_size (start + 1)"
    have g: "greedy_level by_size start ?e" by (rule greedy_first[OF True])
    then have "?e \<le> length by_size" by (simp add: greedy_level_def)
    then show ?thesis using 1(1)[OF True _ refl] g unfolding levels_from_step[OF True]
      by (simp add: level_ceiling_def)
  next
    case False
    then show ?thesis using 1(2) by (subst (1 2) levels_from.simps) simp
  qed
qed

lemma size_levels_spec:
  "tiles 0 (size_levels by_size) (length by_size) \<and> (\<forall>(a, b) \<in> set (size_levels by_size). greedy_level by_size a b)"
  unfolding size_levels_def by (rule levels_from_spec) simp

lemma first_level:
  assumes "size_levels by_size = (a, b) # ls"
  shows "a = 0"
  using size_levels_spec[of by_size] assms by simp

text \<open>In a sorted list, the members of a level are within the ratio of each other.\<close>

lemma level_ratio:
  assumes "greedy_level by_size a b" "sorted (map fst by_size)"
    and i: "a \<le> i" "i < b" and j: "a \<le> j" "j < b"
  shows "size_at by_size j \<le> MAX_COMPACT_SIZE_RATIO * size_at by_size i"
proof -
  have b: "b \<le> length by_size" using assms(1) by (simp add: greedy_level_def)
  have i_le: "size_at by_size a \<le> size_at by_size i"
    using sorted_nth_mono[OF assms(2) i(1)] i b by (simp add: nth_map)
  have "size_at by_size j \<le> MAX_COMPACT_SIZE_RATIO * size_at by_size a"
  proof (cases "j = a")
    case False
    then have "size_at by_size j \<le> level_ceiling by_size a" using assms(1) j by (simp add: greedy_level_def)
    then show ?thesis by (simp add: level_ceiling_def saturating_mul_def mult.commute)
  qed (simp add: MAX_COMPACT_SIZE_RATIO_def)
  then show ?thesis using i_le by (meson le_trans mult_le_mono2)
qed

subsection \<open>What is chosen\<close>

definition seg_ids :: "sized list \<Rightarrow> nat list" where
  "seg_ids metas = map (\<lambda>s. seg_id (snd s)) metas"

definition chosen :: "sized list \<Rightarrow> nat list \<Rightarrow> sized set" where
  "chosen metas ids = {s \<in> set metas. seg_id (snd s) \<in> set ids}"

lemma sorted_by_size_facts [simp]:
  "set (sorted_by_size metas) = set metas" "length (sorted_by_size metas) = length metas"
  "sorted (map fst (sorted_by_size metas))"
  by (simp_all add: sorted_by_size_def)

lemma seg_ids_sorted: "mset (seg_ids (sorted_by_size metas)) = mset (seg_ids metas)"
  unfolding seg_ids_def sorted_by_size_def mset_map by (simp only: mset_sort)

lemma take_from_level_ids:
  "take_from_level n by_size (a, b) = take (min (b - a) (n - MAX_SEGMENTS_AFTER_OPTIMIZE + 1)) (drop a (seg_ids by_size))"
  by (simp add: take_from_level_def Let_def seg_ids_def case_prod_beta' take_map drop_map)

lemma distinct_seg_ids_eq:
  "\<lbrakk>distinct (seg_ids metas); s \<in> set metas; t \<in> set metas; seg_id (snd s) = seg_id (snd t)\<rbrakk> \<Longrightarrow> s = t"
  unfolding seg_ids_def distinct_map inj_on_def by blast

text \<open>Members of a level only, at least two, and no more than the target leaves room for.\<close>

definition level_choice :: "sized list \<Rightarrow> nat list \<Rightarrow> bool" where
  "level_choice metas ids \<longleftrightarrow>
     2 \<le> length ids \<and> length ids + MAX_SEGMENTS_AFTER_OPTIMIZE \<le> length metas + 1 \<and>
     (\<forall>s \<in> chosen metas ids. \<forall>t \<in> chosen metas ids. fst t \<le> MAX_COMPACT_SIZE_RATIO * fst s)"

lemma take_from_level_members:
  assumes "distinct (seg_ids metas)" "greedy_level (sorted_by_size metas) a b"
    and ids: "ids = take_from_level (length metas) (sorted_by_size metas) (a, b)"
    and s: "s \<in> chosen metas ids"
  shows "\<exists>i. a \<le> i \<and> i < b \<and> s = sorted_by_size metas ! i"
proof -
  let ?by = "sorted_by_size metas"
  let ?k = "min (b - a) (length metas - MAX_SEGMENTS_AFTER_OPTIMIZE + 1)"
  have "seg_id (snd s) \<in> set (take ?k (drop a (seg_ids ?by)))" using s unfolding ids take_from_level_ids chosen_def by blast
  then obtain j where j: "j < ?k" "a + j < length ?by" "seg_id (snd s) = seg_ids ?by ! (a + j)"
    by (auto simp: in_set_conv_nth seg_ids_def)
  then have "seg_id (snd s) = seg_id (snd (?by ! (a + j)))" by (simp add: seg_ids_def)
  moreover have "?by ! (a + j) \<in> set metas" "s \<in> set metas" using j(2) s nth_mem[OF j(2)] by (auto simp: chosen_def)
  ultimately have "s = ?by ! (a + j)" using distinct_seg_ids_eq[OF assms(1)] by blast
  then show ?thesis using j(1) by (intro exI[where x = "a + j"]) auto
qed

lemma take_from_level_choice:
  assumes "distinct (seg_ids metas)" "greedy_level (sorted_by_size metas) a b" "2 \<le> b - a"
    "MAX_SEGMENTS_AFTER_OPTIMIZE < length metas" "ids = take_from_level (length metas) (sorted_by_size metas) (a, b)"
  shows "distinct ids \<and> set ids \<subseteq> set (seg_ids metas) \<and> level_choice metas ids"
proof -
  let ?by = "sorted_by_size metas"
  let ?k = "min (b - a) (length metas - MAX_SEGMENTS_AFTER_OPTIMIZE + 1)"
  have b: "b \<le> length metas" using assms(2) by (simp add: greedy_level_def)
  have ids: "ids = take ?k (drop a (seg_ids ?by))" unfolding assms(5) take_from_level_ids ..
  have "distinct (seg_ids ?by)" "set (seg_ids ?by) = set (seg_ids metas)"
    using assms(1) mset_eq_imp_distinct_iff[OF seg_ids_sorted[of metas]] mset_eq_setD[OF seg_ids_sorted[of metas]] by auto
  then have "distinct ids" "set ids \<subseteq> set (seg_ids metas)"
    using set_take_subset[of ?k "drop a (seg_ids ?by)"] set_drop_subset[of a "seg_ids ?by"] by (simp_all add: ids)
  moreover have "length ids = ?k" using b by (simp add: ids seg_ids_def)
  moreover have "fst t \<le> MAX_COMPACT_SIZE_RATIO * fst s" if st: "s \<in> chosen metas ids" "t \<in> chosen metas ids" for s t
  proof -
    note member = take_from_level_members[OF assms(1,2,5)]
    obtain i where "a \<le> i \<and> i < b \<and> s = ?by ! i" using member[OF st(1)] ..
    moreover obtain j where "a \<le> j \<and> j < b \<and> t = ?by ! j" using member[OF st(2)] ..
    ultimately show ?thesis using level_ratio[OF assms(2)] by simp
  qed
  ultimately show ?thesis using assms(3,4) by (auto simp: level_choice_def MAX_SEGMENTS_AFTER_OPTIMIZE_def)
qed

lemma select_level_choice:
  assumes "distinct (seg_ids metas)" "select_level_to_compact metas = Some ids"
  shows "distinct ids \<and> set ids \<subseteq> set (seg_ids metas) \<and> level_choice metas ids"
proof -
  let ?ls = "size_levels (sorted_by_size metas)"
  have large: "MAX_SEGMENTS_AFTER_OPTIMIZE < length metas"
    using assms(2) by (auto simp: select_level_to_compact_def split: if_splits)
  obtain rank a b where f: "List.find (\<lambda>(rank, level). worth_rewriting rank level) (List.enumerate 0 ?ls) = Some (rank, (a, b))"
    and ids: "ids = take_from_level (length metas) (sorted_by_size metas) (a, b)"
    using assms(2) by (auto simp: select_level_to_compact_def Let_def split: if_splits)
  obtain i where "i < length ?ls" "List.enumerate 0 ?ls ! i = (rank, (a, b))" and worth: "worth_rewriting rank (a, b)"
    using f unfolding find_Some_iff by auto
  then have "?ls ! i = (a, b)" "i < length ?ls" by (auto simp: nth_enumerate_eq)
  then have "(a, b) \<in> set ?ls" by (metis nth_mem)
  moreover have "2 \<le> b - a" using worth by (simp add: worth_rewriting_def MAX_SEGMENTS_AFTER_OPTIMIZE_def split: if_splits)
  ultimately have "greedy_level (sorted_by_size metas) a b" "2 \<le> b - a" using size_levels_spec by blast+
  then show ?thesis using take_from_level_choice[OF assms(1) _ _ large ids] by blast
qed


text \<open>A whole choice: one segment full of deleted documents, the smallest of those, or a part of a
  level when there is none.\<close>

lemma select_segments_choice:
  assumes "distinct (seg_ids metas)" "select_segments_to_compact metas = Some ids"
  shows "distinct ids \<and> ids \<noteq> [] \<and> set ids \<subseteq> set (seg_ids metas) \<and>
    (if \<exists>s \<in> set metas. delete_heavy (snd s)
     then \<exists>s \<in> set metas. ids = [seg_id (snd s)] \<and> delete_heavy (snd s) \<and>
       (\<forall>t \<in> set metas. delete_heavy (snd t) \<longrightarrow> fst s \<le> fst t)
     else level_choice metas ids)"
proof (cases "filter (\<lambda>(_, sg). delete_heavy sg) metas")
  case Nil
  then have "\<not> (\<exists>s \<in> set metas. delete_heavy (snd s))" by (auto simp: filter_empty_conv)
  then show ?thesis using select_level_choice[OF assms(1), of ids] assms(2) Nil
    by (auto simp: select_segments_to_compact_def level_choice_def)
next
  case (Cons h hs)
  let ?m = "arg_min_list fst (h # hs)"
  have heavy: "set (h # hs) = {t \<in> set metas. delete_heavy (snd t)}"
    unfolding Cons[symmetric] by auto
  have "?m \<in> set (h # hs)" by (rule arg_min_list_in) simp
  moreover have "fst ?m \<le> fst t" if "t \<in> set (h # hs)" for t
  proof -
    have "fst ?m = Min (fst ` set (h # hs))" by (rule f_arg_min_list_f) simp
    then show ?thesis using that by (metis List.finite_set Min_le finite_imageI imageI)
  qed
  ultimately show ?thesis using assms(2) Cons unfolding heavy
    by (auto simp: select_segments_to_compact_def seg_ids_def simp del: arg_min_list.simps)
qed

subsection \<open>The background merges\<close>

lemma sized_segments: "sized_segment_metas disk metas = Some sized \<Longrightarrow> map snd sized = metas"
  by (induction metas arbitrary: sized) (auto simp: bind_eq_Some_conv)

lemma seg_ids_sized: "sized_segment_metas disk metas = Some sized \<Longrightarrow> seg_ids sized = map seg_id metas"
  using sized_segments[of disk metas sized] by (auto simp: seg_ids_def)

lemma smallest_first:
  assumes "t \<in> set metas" shows "size_at (sorted_by_size metas) 0 \<le> fst t"
proof -
  have "t \<in> set (sorted_by_size metas)" using assms by simp
  then obtain j where "j < length (sorted_by_size metas)" "t = sorted_by_size metas ! j" by (metis in_set_conv_nth)
  then have "0 < length metas" "map fst (sorted_by_size metas) ! 0 \<le> map fst (sorted_by_size metas) ! j"
    using sorted_nth_mono[OF sorted_by_size_facts(3), of 0 j metas] by auto
  then show ?thesis using \<open>j < _\<close> \<open>t = _\<close> by simp
qed

text \<open>The background policy leaves large segments alone. What it proposes is at least two
  segments, all within the ratio of the smallest segment of the index, and merging them leaves no
  fewer than the target; with no more segments than the target it proposes nothing.\<close>

theorem background_merge_small:
  assumes "distinct (map seg_id metas)" and "sized_segment_metas disk metas = Some sized"
    and "ids \<in> set (compute_merge_candidates disk metas)"
  shows "MAX_SEGMENTS_AFTER_OPTIMIZE < length metas \<and> set ids \<subseteq> set (map seg_id metas) \<and> level_choice sized ids \<and>
    (\<forall>s \<in> chosen sized ids. \<forall>t \<in> set sized. fst s \<le> MAX_COMPACT_SIZE_RATIO * fst t)"
proof -
  let ?by = "sorted_by_size sized"
  have d: "distinct (seg_ids sized)" using assms(1) seg_ids_sized[OF assms(2)] by simp
  have large: "MAX_SEGMENTS_AFTER_OPTIMIZE < length metas" and sel: "select_smallest_level sized = Some ids"
    using assms(2,3) by (auto simp: compute_merge_candidates_def split: if_splits option.splits)
  have len: "length sized = length metas" using sized_segments[OF assms(2)] by (metis length_map)
  obtain a b ls where levels: "size_levels ?by = (a, b) # ls" and two: "2 \<le> b - a"
    and ids: "ids = take_from_level (length sized) ?by (a, b)"
    using sel large len by (auto simp: select_smallest_level_def Let_def split: list.splits if_splits)
  have g: "greedy_level ?by a b" using size_levels_spec[of ?by] unfolding levels by auto
  have choice: "set ids \<subseteq> set (seg_ids sized) \<and> level_choice sized ids"
    using take_from_level_choice[OF d g two _ ids] large len by simp
  have "fst s \<le> MAX_COMPACT_SIZE_RATIO * fst t" if s: "s \<in> chosen sized ids" and t: "t \<in> set sized" for s t
  proof -
    obtain i where i: "a \<le> i \<and> i < b \<and> s = ?by ! i" using take_from_level_members[OF d g ids s] ..
    then have "fst s \<le> MAX_COMPACT_SIZE_RATIO * size_at ?by 0"
      using level_ratio[OF g sorted_by_size_facts(3), of 0 i] first_level[OF levels] two by simp
    then show ?thesis using smallest_first[OF t] by (meson le_trans mult_le_mono2)
  qed
  then show ?thesis using large choice seg_ids_sized[OF assms(2)] by simp
qed

subsection \<open>The loop of optimize\<close>

definition live_docs :: "segment list \<Rightarrow> nat" where
  "live_docs metas = sum_list (map (\<lambda>sg. max_doc sg - num_deleted sg) metas)"

text \<open>What the library's merge does: the given segments are replaced by at most one new segment (none
  when no document was live) without deleted documents, and no live document is lost.\<close>

definition merges :: "(nat list \<Rightarrow> segment list \<Rightarrow> segment list option) \<Rightarrow> bool" where
  "merges merge \<longleftrightarrow>
     (\<forall>ids metas metas'. distinct (map seg_id metas) \<and> set ids \<subseteq> seg_id ` set metas \<and> merge ids metas = Some metas' \<longrightarrow>
        distinct (map seg_id metas') \<and> live_docs metas' = live_docs metas \<and>
        (\<exists>new. length new \<le> 1 \<and> (\<forall>sg \<in> set new. num_deleted sg = 0) \<and>
           mset metas' = mset (filter (\<lambda>sg. seg_id sg \<notin> set ids) metas @ new)))"

lemma filter_out_length:
  assumes "distinct (map seg_id metas)" "distinct ids" "set ids \<subseteq> seg_id ` set metas"
  shows "length (filter (\<lambda>sg. seg_id sg \<notin> set ids) metas) + length ids = length metas"
proof -
  have "map seg_id (filter (\<lambda>sg. seg_id sg \<in> set ids) metas) = filter (\<lambda>i. i \<in> set ids) (map seg_id metas)"
    by (simp add: filter_map comp_def)
  then have "length (filter (\<lambda>sg. seg_id sg \<in> set ids) metas) = length (filter (\<lambda>i. i \<in> set ids) (map seg_id metas))"
    by (metis length_map)
  also have "\<dots> = card (set ids \<inter> seg_id ` set metas)"
    using assms(1) by (subst distinct_card[symmetric]) (auto simp: Int_commute intro: arg_cong[where f = card])
  also have "\<dots> = length ids" using assms(2,3) by (simp add: Int_absorb2 distinct_card)
  finally show ?thesis using sum_length_filter_compl[of "\<lambda>sg. seg_id sg \<in> set ids" metas] by simp
qed

definition compaction_work :: "segment list \<Rightarrow> nat" where
  "compaction_work metas = length metas + length (filter delete_heavy metas)"

lemma compaction_work_mset: "mset xs = mset ys \<Longrightarrow> compaction_work xs = compaction_work ys"
  unfolding compaction_work_def by (metis mset_filter size_mset)

lemma merge_progress:
  assumes "merges merge" "distinct (map seg_id metas)" "sized_segment_metas disk metas = Some sized"
    "select_segments_to_compact sized = Some ids" "merge ids metas = Some metas'"
  shows "compaction_work metas' < compaction_work metas \<and> distinct (map seg_id metas') \<and> live_docs metas' = live_docs metas"
proof -
  let ?rest = "filter (\<lambda>sg. seg_id sg \<notin> set ids) metas"
  have seg: "seg_ids sized = map seg_id metas" "map snd sized = metas"
    using seg_ids_sized[OF assms(3)] sized_segments[OF assms(3)] by auto
  have choice: "distinct ids" "ids \<noteq> []" "set ids \<subseteq> seg_id ` set metas"
    "if \<exists>s \<in> set sized. delete_heavy (snd s)
     then \<exists>s \<in> set sized. ids = [seg_id (snd s)] \<and> delete_heavy (snd s) \<and> (\<forall>t \<in> set sized. delete_heavy (snd t) \<longrightarrow> fst s \<le> fst t)
     else level_choice sized ids"
    using select_segments_choice[of sized ids] assms(2,4) seg(1) by auto
  obtain new where new: "length new \<le> 1" "\<forall>sg \<in> set new. num_deleted sg = 0" "mset metas' = mset (?rest @ new)"
    and kept: "distinct (map seg_id metas')" "live_docs metas' = live_docs metas"
    using assms(1,2,5) choice(3) unfolding merges_def by blast
  have len: "length ?rest + length ids = length metas" by (rule filter_out_length[OF assms(2) choice(1,3)])
  have "filter delete_heavy new = []" using new(2) by (auto simp: filter_empty_conv delete_heavy_def)
  then have work: "compaction_work metas' = length ?rest + length new + length (filter delete_heavy ?rest)"
    using compaction_work_mset[OF new(3)] by (simp add: compaction_work_def)
  have swap: "filter delete_heavy ?rest = filter (\<lambda>sg. seg_id sg \<notin> set ids) (filter delete_heavy metas)"
    by (simp add: conj_commute)
  have "compaction_work metas' < compaction_work metas"
  proof (cases "\<exists>s \<in> set sized. delete_heavy (snd s)")
    case True
    then obtain s where s: "s \<in> set sized" "ids = [seg_id (snd s)]" "delete_heavy (snd s)" using choice(4) by auto
    then have "snd s \<in> set metas" using seg(2) by (metis image_eqI set_map)
    then have "length (filter (\<lambda>sg. seg_id sg \<notin> set ids) (filter delete_heavy metas)) < length (filter delete_heavy metas)"
      using s by (intro length_filter_less[where x = "snd s"]) auto
    then have "length (filter delete_heavy ?rest) < length (filter delete_heavy metas)" unfolding swap .
    then show ?thesis using work len new(1) s(2) by (simp add: compaction_work_def)
  next
    case False
    then have "2 \<le> length ids" using choice(4) by (simp add: level_choice_def)
    moreover have "length (filter delete_heavy ?rest) \<le> length (filter delete_heavy metas)"
      unfolding swap by (rule length_filter_le)
    ultimately show ?thesis using work len new(1) by (simp add: compaction_work_def)
  qed
  then show ?thesis using kept by blast
qed

text \<open>Nothing left to compact: no segment full of deleted documents, and few segments or no level worth it.\<close>

definition settled :: "(string \<Rightarrow> file_size) \<Rightarrow> segment list \<Rightarrow> bool" where
  "settled disk metas \<longleftrightarrow>
     (\<forall>sg \<in> set metas. \<not> delete_heavy sg) \<and>
     (length metas \<le> MAX_SEGMENTS_AFTER_OPTIMIZE \<or>
      (\<exists>sized. sized_segment_metas disk metas = Some sized \<and>
        (\<forall>i < length (size_levels (sorted_by_size sized)).
           \<not> worth_rewriting i (size_levels (sorted_by_size sized) ! i))))"

lemma nothing_selected:
  assumes "sized_segment_metas disk metas = Some sized" "select_segments_to_compact sized = None"
  shows "settled disk metas"
proof -
  have heavy: "filter (\<lambda>(_, sg). delete_heavy sg) sized = []" and level: "select_level_to_compact sized = None"
    using assms(2) by (auto simp: select_segments_to_compact_def split: list.splits)
  have "\<not> delete_heavy sg" if "sg \<in> set metas" for sg
    using that heavy sized_segments[OF assms(1)] by (fastforce simp: filter_empty_conv)
  moreover have "length sized = length metas" using sized_segments[OF assms(1)] by (metis length_map)
  moreover have "\<not> worth_rewriting i (size_levels (sorted_by_size sized) ! i)"
    if "\<not> length sized \<le> MAX_SEGMENTS_AFTER_OPTIMIZE" "i < length (size_levels (sorted_by_size sized))" for i
    using level that by (auto simp: select_level_to_compact_def Let_def find_None_iff in_set_enumerate_eq)
  ultimately show ?thesis using assms(1) by (auto simp: settled_def)
qed

lemma optimize_loop_settles:
  assumes "merges merge" and "distinct (map seg_id metas)"
  shows "\<exists>r. optimize_loop disk merge metas = Some r \<and>
    (case r of
       None \<Rightarrow> (\<exists>sgs. sized_segment_metas disk sgs = None) \<or> (\<exists>ids sgs. merge ids sgs = None)
     | Some metas' \<Rightarrow> live_docs metas' = live_docs metas \<and> settled disk metas')"
  using assms(2)
proof (induction "compaction_work metas" arbitrary: metas rule: less_induct)
  case less
  show ?case
  proof (cases "sized_segment_metas disk metas")
    case None
    then show ?thesis by (auto simp: optimize_loop.simps)
  next
    case (Some sized)
    note sized = this
    show ?thesis
    proof (cases "select_segments_to_compact sized")
      case None
      then show ?thesis using sized nothing_selected[OF sized None] by (simp add: optimize_loop.simps)
    next
      case (Some ids)
      show ?thesis
      proof (cases "merge ids metas")
        case None
        then show ?thesis using sized Some by (auto simp: optimize_loop.simps)
      next
        case (Some metas')
        have "optimize_loop disk merge metas = optimize_loop disk merge metas'"
          using sized \<open>select_segments_to_compact sized = Some ids\<close> Some
          by (subst optimize_loop.simps) simp
        moreover have p: "compaction_work metas' < compaction_work metas" "distinct (map seg_id metas')"
          "live_docs metas' = live_docs metas"
          using merge_progress[OF assms(1) less.prems sized \<open>select_segments_to_compact sized = Some ids\<close> Some] by auto
        ultimately show ?thesis using less.hyps[OF p(1,2)] unfolding p(3) by simp
      qed
    qed
  qed
qed

text \<open>C20: \<^verbatim>\<open>optimize\<close> ends, whatever the merged segments weigh: either with an error of the writer, of the
  disk or of a merge, or with every live document kept, no segment full of deleted documents, and no more
  segments than the target or no level worth rewriting.\<close>

theorem optimize_settles:
  assumes "merges merge" and "distinct (map seg_id metas)"
  shows "\<exists>r. optimize_committed_segments opened waited disk merge metas = Some r \<and>
    (case r of
       None \<Rightarrow> \<not> opened \<or> \<not> waited \<or> (\<exists>sgs. sized_segment_metas disk sgs = None) \<or> (\<exists>ids sgs. merge ids sgs = None)
     | Some metas' \<Rightarrow> opened \<and> waited \<and> live_docs metas' = live_docs metas \<and> settled disk metas')"
proof -
  obtain r where r: "optimize_loop disk merge metas = Some r"
    "case r of
       None \<Rightarrow> (\<exists>sgs. sized_segment_metas disk sgs = None) \<or> (\<exists>ids sgs. merge ids sgs = None)
     | Some metas' \<Rightarrow> live_docs metas' = live_docs metas \<and> settled disk metas'"
    using optimize_loop_settles[OF assms] by blast
  show ?thesis
    using r by (cases "opened \<and> waited"; cases r) (auto simp: optimize_committed_segments_def)
qed

subsection \<open>Examples\<close>

text \<open>Nine segments of one size: the two oldest are merged, which leaves the target.\<close>

definition nine_segments :: "segment list" where
  "nine_segments = map (\<lambda>i. \<lparr>seg_id = i, max_doc = 10, num_deleted = 0, seg_files = [''store'']\<rparr>) [0..<9]"

definition even_disk :: "string \<Rightarrow> file_size" where
  "even_disk f = (if f = ''store'' then Bytes 100 else NotFound)"

lemma even_disk_sizes: "sized_segment_metas even_disk sgs \<noteq> None"
proof -
  have "add_files even_disk n fs \<noteq> None" for n fs
    by (induction fs arbitrary: n) (auto simp: even_disk_def)
  then show ?thesis by (induction sgs) (auto simp: segment_disk_bytes_def bind_eq_None_conv)
qed

lemma nine_candidates: "compute_merge_candidates even_disk nine_segments = [[0, 1]]"
  by code_simp

theorem background_merge_small_witness:
  "\<exists>sized. sized_segment_metas even_disk nine_segments = Some sized \<and> level_choice sized [0, 1] \<and>
    chosen sized [0, 1] \<noteq> {}"
proof -
  obtain sized where sized: "sized_segment_metas even_disk nine_segments = Some sized"
    using even_disk_sizes[of nine_segments] by blast
  have "distinct (map seg_id nine_segments)" by (simp add: nine_segments_def comp_def)
  then have r: "set [0, 1] \<subseteq> set (map seg_id nine_segments)" "level_choice sized [0, 1]"
    using background_merge_small[OF _ sized, of "[0, 1]"] by (simp_all add: nine_candidates)
  then have "0 \<in> set (seg_ids sized)" using seg_ids_sized[OF sized] by simp
  then obtain s where "s \<in> set sized" "seg_id (snd s) = 0" by (auto simp: seg_ids_def)
  then have "s \<in> chosen sized [0, 1]" by (simp add: chosen_def)
  then show ?thesis using sized r by blast
qed

text \<open>A merge as the library does it, without errors.\<close>

definition plain_merge :: "nat list \<Rightarrow> segment list \<Rightarrow> segment list option" where
  "plain_merge ids metas =
     (let old = filter (\<lambda>sg. seg_id sg \<in> set ids) metas
      in Some (filter (\<lambda>sg. seg_id sg \<notin> set ids) metas @
           [\<lparr>seg_id = Suc (Max (seg_id ` set metas)), max_doc = live_docs old, num_deleted = 0, seg_files = [''store'']\<rparr>]))"

lemma live_docs_split:
  "live_docs (filter P metas) + live_docs (filter (\<lambda>sg. \<not> P sg) metas) = live_docs metas"
  by (induction metas) (auto simp: live_docs_def)

lemma plain_merge_merges: "merges plain_merge"
  unfolding merges_def
proof (intro allI impI, elim conjE)
  fix ids metas metas'
  assume d: "distinct (map seg_id metas)" and m: "plain_merge ids metas = Some metas'"
  let ?rest = "filter (\<lambda>sg. seg_id sg \<notin> set ids) metas"
  let ?new = "\<lparr>seg_id = Suc (Max (seg_id ` set metas)), max_doc = live_docs (filter (\<lambda>sg. seg_id sg \<in> set ids) metas),
    num_deleted = 0, seg_files = [''store'']\<rparr>"
  have metas': "metas' = ?rest @ [?new]" using m by (simp add: plain_merge_def Let_def)
  have "seg_id sg < seg_id ?new" if "sg \<in> set metas" for sg
    using that by (simp add: less_Suc_eq_le)
  then have "seg_id ?new \<notin> seg_id ` set ?rest" by fastforce
  then have "distinct (map seg_id metas')" unfolding metas' using d by (simp add: distinct_map_filter)
  moreover have "live_docs metas' = live_docs metas"
    unfolding metas' using live_docs_split[of "\<lambda>sg. seg_id sg \<in> set ids" metas] by (simp add: live_docs_def)
  moreover have "\<exists>new. length new \<le> 1 \<and> (\<forall>sg \<in> set new. num_deleted sg = 0) \<and> mset metas' = mset (?rest @ new)"
    by (rule exI[where x = "[?new]"]) (simp add: metas')
  ultimately show "distinct (map seg_id metas') \<and> live_docs metas' = live_docs metas \<and>
    (\<exists>new. length new \<le> 1 \<and> (\<forall>sg \<in> set new. num_deleted sg = 0) \<and> mset metas' = mset (?rest @ new))" by blast
qed

theorem optimize_settles_witness:
  "\<exists>metas'. optimize_committed_segments True True even_disk plain_merge nine_segments = Some (Some metas') \<and> live_docs metas' = 90"
proof -
  have d: "distinct (map seg_id nine_segments)" by (simp add: nine_segments_def comp_def)
  obtain r where r: "optimize_committed_segments True True even_disk plain_merge nine_segments = Some r"
    "case r of
       None \<Rightarrow> \<not> True \<or> \<not> True \<or> (\<exists>sgs. sized_segment_metas even_disk sgs = None) \<or> (\<exists>ids sgs. plain_merge ids sgs = None)
     | Some metas' \<Rightarrow> True \<and> True \<and> live_docs metas' = live_docs nine_segments \<and> settled even_disk metas'"
    using optimize_settles[OF plain_merge_merges d] by blast
  have "\<not> (\<exists>ids sgs. plain_merge ids sgs = None)" "\<not> (\<exists>sgs. sized_segment_metas even_disk sgs = None)"
    using even_disk_sizes by (simp_all add: plain_merge_def Let_def)
  moreover have "r = None \<Longrightarrow> (\<exists>sgs. sized_segment_metas even_disk sgs = None) \<or> (\<exists>ids sgs. plain_merge ids sgs = None)"
    using r(2) by (simp only: option.case) blast
  ultimately have "r \<noteq> None" by blast
  then obtain metas' where "r = Some metas'" by blast
  have "live_docs nine_segments = 90" by code_simp
  then show ?thesis using r \<open>r = Some metas'\<close> by auto
qed

end
