(* ===== verification/HtmlStrip.thy ===== *)
theory HtmlStrip
  imports Marks
begin

section \<open>Stripping HTML for the index\<close>

text \<open>
  \<^verbatim>\<open>hebrew_query.rs\<close>: how the markup of a line leaves its text before it is indexed. A tag is
  deleted, or becomes a space when it separates words (block tags, and \<^verbatim>\<open>sup\<close>/\<^verbatim>\<open>sub\<close> unless they hold one
  letter inside a word); an entity is deleted, a white space entity becomes a space.

  The code walks the bytes of a \<^verbatim>\<open>str\<close>. Every position it slices at is next to one of the ASCII
  chars it looks for, so positions here count chars. The loops that shorten a slice are functions
  with a measure.
\<close>

subsection \<open>Searching a string\<close>

abbreviation lt_char :: uchar where "lt_char \<equiv> 0x3C"
abbreviation gt_char :: uchar where "gt_char \<equiv> 0x3E"
abbreviation amp_char :: uchar where "amp_char \<equiv> 0x26"
abbreviation semi_char :: uchar where "semi_char \<equiv> 0x3B"
abbreviation slash_char :: uchar where "slash_char \<equiv> 0x2F"
abbreviation space_char :: uchar where "space_char \<equiv> 0x20"

definition ascii :: "string \<Rightarrow> ustr" where
  "ascii s = map of_char s"

definition starts_with :: "ustr \<Rightarrow> ustr \<Rightarrow> bool" where
  "starts_with s p \<longleftrightarrow> take (length p) s = p"

text \<open>\<^verbatim>\<open>find\<close> and \<^verbatim>\<open>rfind\<close> of a char.\<close>

fun char_index :: "uchar \<Rightarrow> ustr \<Rightarrow> nat option" where
  "char_index c [] = None"
| "char_index c (d # s) = (if d = c then Some 0 else map_option Suc (char_index c s))"

fun char_rindex :: "uchar \<Rightarrow> ustr \<Rightarrow> nat option" where
  "char_rindex c [] = None"
| "char_rindex c (d # s) =
     (case char_rindex c s of Some i \<Rightarrow> Some (Suc i) | None \<Rightarrow> if d = c then Some 0 else None)"

definition trim_end_while :: "(uchar \<Rightarrow> bool) \<Rightarrow> ustr \<Rightarrow> ustr" where
  "trim_end_while P s = rev (dropWhile P (rev s))"

definition ascii_lower :: "uchar \<Rightarrow> uchar" where
  "ascii_lower c = (if 0x41 \<le> c \<and> c \<le> 0x5A then c + 32 else c)"

definition eq_ignore_ascii_case :: "ustr \<Rightarrow> ustr \<Rightarrow> bool" where
  "eq_ignore_ascii_case s t \<longleftrightarrow> map ascii_lower s = map ascii_lower t"

subsection \<open>Tags\<close>

definition BREAKING_TAG_NAMES :: "ustr list" where
  "BREAKING_TAG_NAMES = map ascii
     [''address'', ''article'', ''aside'', ''blockquote'', ''br'', ''caption'', ''center'', ''dd'',
      ''div'', ''dl'', ''dt'', ''figcaption'', ''figure'', ''footer'', ''h1'', ''h2'', ''h3'', ''h4'', ''h5'',
      ''h6'', ''header'', ''hr'', ''li'', ''main'', ''nav'', ''ol'', ''p'', ''pre'', ''section'', ''table'',
      ''tbody'', ''td'', ''tfoot'', ''th'', ''thead'', ''tr'', ''ul'']"

definition SCRIPT_TAG_NAMES :: "ustr list" where
  "SCRIPT_TAG_NAMES = map ascii [''sub'', ''sup'']"

definition tag_name :: "ustr \<Rightarrow> (bool \<times> ustr) option" where
  "tag_name body =
     (let (closing, name) = (case body of c # rest \<Rightarrow> if c = slash_char then (True, rest) else (False, body)
                                        | [] \<Rightarrow> (False, body));
          word = takeWhile is_ascii_alphanumeric name
      in if 1 \<le> length word \<and> length word \<le> 10 then Some (closing, word) else None)"

definition is_listed :: "ustr list \<Rightarrow> ustr \<Rightarrow> bool" where
  "is_listed names name \<longleftrightarrow> list_ex (\<lambda>listed. eq_ignore_ascii_case listed name) names"

definition is_script_letter :: "uchar \<Rightarrow> bool" where
  "is_script_letter c =
     (case fold_presentation_form c of
        Some folded \<Rightarrow> (case folded of [] \<Rightarrow> False | f # fs \<Rightarrow> is_hebrew_letter f \<and> list_all is_attached_mark fs)
      | None \<Rightarrow> is_hebrew_letter c)"

definition is_inline_tag :: "ustr \<Rightarrow> bool" where
  "is_inline_tag body \<longleftrightarrow>
     \<not> (case tag_name body of
          None \<Rightarrow> False
        | Some (_, name) \<Rightarrow> is_listed BREAKING_TAG_NAMES name \<or> is_listed SCRIPT_TAG_NAMES name)"

definition is_script_invisible :: "uchar \<Rightarrow> bool" where
  "is_script_invisible c \<longleftrightarrow> is_invisible_char c \<or> c = CGJ \<or> c = 0xFB1E"

text \<open>One round of the loops: the slice after invisible chars and an inline tag, \<open>None\<close> at the break.\<close>

definition skip_tag_start :: "ustr \<Rightarrow> ustr option" where
  "skip_tag_start source =
     (case source of
        c # body \<Rightarrow>
          if c = lt_char then
            (case char_index gt_char body of
               None \<Rightarrow> None
             | Some gt \<Rightarrow> if is_inline_tag (take gt body) then Some (drop (gt + 1) body) else None)
          else None
      | [] \<Rightarrow> None)"

definition skip_tag_end :: "ustr \<Rightarrow> ustr option" where
  "skip_tag_end source =
     (if source \<noteq> [] \<and> last source = gt_char then
        (let body = butlast source
         in case char_rindex lt_char body of
              None \<Rightarrow> None
            | Some lt \<Rightarrow>
                if gt_char \<in> set (drop (lt + 1) body) \<or> \<not> is_inline_tag (drop (lt + 1) body) then None
                else Some (take lt body))
      else None)"

lemma char_index_less: "char_index c s = Some i \<Longrightarrow> i < length s"
  by (induction s arbitrary: i) (auto split: if_splits)

lemma char_rindex_less: "char_rindex c s = Some i \<Longrightarrow> i < length s"
  by (induction s arbitrary: i) (auto split: if_splits option.splits)

lemma skip_tag_start_less: "skip_tag_start s = Some t \<Longrightarrow> length t < length s"
  by (auto simp: skip_tag_start_def split: list.splits if_splits option.splits)

lemma skip_tag_end_less: "skip_tag_end s = Some t \<Longrightarrow> length t < length s"
  by (cases "s = []") (auto simp: skip_tag_end_def Let_def split: if_splits option.splits dest: char_rindex_less)

lemma trim_end_while_le: "length (trim_end_while P s) \<le> length s"
  unfolding trim_end_while_def by (metis length_rev length_dropWhile_le)

function trim_script_formatting_start :: "ustr \<Rightarrow> ustr" where
  "trim_script_formatting_start source =
     (let trimmed = dropWhile is_script_invisible source
      in case skip_tag_start trimmed of None \<Rightarrow> trimmed | Some rest \<Rightarrow> trim_script_formatting_start rest)"
  by pat_completeness auto
termination
  by (relation "measure length")
    (auto dest: skip_tag_start_less intro: less_le_trans[OF _ length_dropWhile_le])

function trim_script_formatting_end :: "ustr \<Rightarrow> ustr" where
  "trim_script_formatting_end source =
     (let trimmed = trim_end_while is_script_invisible source
      in case skip_tag_end trimmed of None \<Rightarrow> trimmed | Some rest \<Rightarrow> trim_script_formatting_end rest)"
  by pat_completeness auto
termination
  by (relation "measure length")
    (auto dest: skip_tag_end_less intro: less_le_trans[OF _ trim_end_while_le])

declare trim_script_formatting_start.simps [simp del] trim_script_formatting_end.simps [simp del]

lemma formatting_start_le: "length (trim_script_formatting_start s) \<le> length s"
proof (induction s rule: trim_script_formatting_start.induct)
  case (1 s)
  show ?case
  proof (cases "skip_tag_start (dropWhile is_script_invisible s)")
    case None
    then show ?thesis by (subst trim_script_formatting_start.simps) (simp add: length_dropWhile_le)
  next
    case (Some r)
    then have "length r < length s" using skip_tag_start_less length_dropWhile_le less_le_trans by blast
    then show ?thesis using 1[OF refl Some] Some by (subst trim_script_formatting_start.simps) simp
  qed
qed

lemma formatting_end_le: "length (trim_script_formatting_end s) \<le> length s"
proof (induction s rule: trim_script_formatting_end.induct)
  case (1 s)
  show ?case
  proof (cases "skip_tag_end (trim_end_while is_script_invisible s)")
    case None
    then show ?thesis by (subst trim_script_formatting_end.simps) (simp add: trim_end_while_le)
  next
    case (Some r)
    then have "length r < length s" using skip_tag_end_less trim_end_while_le less_le_trans by blast
    then show ?thesis using 1[OF refl Some] Some by (subst trim_script_formatting_end.simps) simp
  qed
qed

function trim_script_context_end :: "ustr \<Rightarrow> ustr" where
  "trim_script_context_end source =
     (let trimmed = trim_end_while is_word_mark (trim_script_formatting_end source)
      in if length trimmed = length source then source else trim_script_context_end trimmed)"
  by pat_completeness auto
termination
  by (relation "measure length")
    (auto simp: le_neq_implies_less[OF le_trans[OF trim_end_while_le formatting_end_le]])

function trim_script_context_start :: "ustr \<Rightarrow> ustr" where
  "trim_script_context_start source =
     (let trimmed = dropWhile is_word_mark (trim_script_formatting_start source)
      in if length trimmed = length source then source else trim_script_context_start trimmed)"
  by pat_completeness auto
termination
  by (relation "measure length")
    (auto simp: le_neq_implies_less[OF le_trans[OF length_dropWhile_le formatting_start_le]])

declare trim_script_context_end.simps [simp del] trim_script_context_start.simps [simp del]

text \<open>\<^verbatim>\<open>marks_footnote\<close>: no two occurrences of the word overlap, so the matches are all occurrences.\<close>

definition FOOTNOTE_MARKER :: ustr where
  "FOOTNOTE_MARKER = ascii ''footnote-marker''"

definition is_marker_word :: "uchar \<Rightarrow> bool" where
  "is_marker_word c \<longleftrightarrow> is_ascii_alphanumeric c \<or> c = 0x5F"

definition marks_footnote :: "ustr \<Rightarrow> bool" where
  "marks_footnote attributes =
     (let lower = map ascii_lower attributes
      in list_ex (\<lambda>i. starts_with (drop i lower) FOOTNOTE_MARKER \<and>
           \<not> (0 < i \<and> is_marker_word (lower ! (i - 1))) \<and>
           \<not> (i + length FOOTNOTE_MARKER < length lower \<and> is_marker_word (lower ! (i + length FOOTNOTE_MARKER))))
         [0..<length lower])"

definition next_back :: "ustr \<Rightarrow> uchar option" where
  "next_back s = (if s = [] then None else Some (last s))"

definition next_char :: "ustr \<Rightarrow> uchar option" where
  "next_char s = (case s of [] \<Rightarrow> None | c # _ \<Rightarrow> Some c)"

definition is_letter :: "uchar option \<Rightarrow> bool" where
  "is_letter c = (case c of None \<Rightarrow> False | Some c \<Rightarrow> is_script_letter c)"

definition text_slice :: "ustr \<Rightarrow> nat \<Rightarrow> nat \<Rightarrow> ustr" where
  "text_slice s a b = drop a (take b s)"

text \<open>\<^verbatim>\<open>script_open_before\<close>: where the open tag before a lone letter is.\<close>

definition script_open_before :: "ustr \<Rightarrow> nat \<Rightarrow> (nat \<times> nat) option" where
  "script_open_before source lt =
     (let front = trim_script_context_end (take lt source)
      in if is_letter (next_back front) then
           (let rest = trim_script_formatting_end (butlast front)
            in if rest = [] then None
               else
                 (let gt = length rest - 1
                  in if source ! gt \<noteq> gt_char then None
                     else
                       (case char_rindex lt_char (take gt source) of
                          None \<Rightarrow> None
                        | Some open_at \<Rightarrow>
                            if gt_char \<in> set (text_slice source (open_at + 1) gt) then None else Some (open_at, gt))))
         else None)"

definition is_word_internal_script :: "ustr \<Rightarrow> nat \<Rightarrow> nat \<Rightarrow> bool" where
  "is_word_internal_script source lt gt =
     (case tag_name (text_slice source (lt + 1) gt) of
        Some (False, name) \<Rightarrow>
          \<not> marks_footnote (text_slice source (lt + 1) gt) \<and>
          is_letter (next_back (trim_script_context_end (take lt source))) \<and>
          (case trim_script_formatting_start (drop (gt + 1) source) of
             [] \<Rightarrow> False
           | c # content \<Rightarrow>
               is_script_letter c \<and>
               (case trim_script_context_start content of
                  [] \<Rightarrow> False
                | d # close \<Rightarrow>
                    d = lt_char \<and>
                    (case char_index gt_char close of
                       None \<Rightarrow> False
                     | Some close_gt \<Rightarrow>
                         (case tag_name (take close_gt close) of
                            Some (True, closing) \<Rightarrow> eq_ignore_ascii_case closing name
                          | _ \<Rightarrow> False) \<and>
                         is_letter (next_char (trim_script_context_start (drop (close_gt + 1) close))))))
      | _ \<Rightarrow> False)"

definition tag_breaks_word :: "ustr \<Rightarrow> nat \<Rightarrow> nat \<Rightarrow> bool" where
  "tag_breaks_word source lt gt =
     (case tag_name (text_slice source (lt + 1) gt) of
        None \<Rightarrow> False
      | Some (closing, name) \<Rightarrow>
          if is_listed BREAKING_TAG_NAMES name then True
          else if \<not> is_listed SCRIPT_TAG_NAMES name then False
          else
            (let opened = (if closing then script_open_before source lt else Some (lt, gt))
             in \<not> (case opened of None \<Rightarrow> False | Some (lt, gt) \<Rightarrow> is_word_internal_script source lt gt)))"

subsection \<open>The scan\<close>

definition SPACE_ENTITIES :: "ustr list" where
  "SPACE_ENTITIES = map ascii [''&nbsp;'', ''&thinsp;'', ''&ensp;'', ''&emsp;'']"

definition space_entity_len :: "ustr \<Rightarrow> nat option" where
  "space_entity_len at = map_option length (List.find (starts_with at) SPACE_ENTITIES)"

text \<open>The \<^verbatim>\<open>;\<close> that ends an entity, with the white space entities inside it skipped.\<close>

lemma space_entity_len_pos: "space_entity_len s = Some n \<Longrightarrow> 6 \<le> n"
  by (auto simp: space_entity_len_def SPACE_ENTITIES_def ascii_def split: if_splits)

function find_semi :: "ustr \<Rightarrow> nat \<Rightarrow> nat option" where
  "find_semi text j =
     (if j < length text then
        (if text ! j = semi_char then Some j
         else if text ! j = amp_char then
           find_semi text (j + (case space_entity_len (drop j text) of None \<Rightarrow> 1 | Some n \<Rightarrow> n))
         else find_semi text (j + 1))
      else None)"
  by pat_completeness auto
termination
  by (relation "measure (\<lambda>(text, j). length text - j)")
    (auto dest: space_entity_len_pos split: option.splits)

declare find_semi.simps [simp del]

text \<open>What stands for the markup at a position, and where it ends; \<open>None\<close> at a char of the text.\<close>

definition html_markup :: "ustr \<Rightarrow> nat \<Rightarrow> (ustr \<times> nat) option" where
  "html_markup text i =
     (if text ! i = lt_char then
        (case char_index gt_char (drop (i + 1) text) of
           Some close \<Rightarrow>
             Some (if tag_breaks_word text i (i + 1 + close) then [space_char] else [], i + close + 2)
         | None \<Rightarrow> Some ([lt_char], i + 1))
      else if text ! i = amp_char then
        (case space_entity_len (drop i text) of
           Some n \<Rightarrow> Some ([space_char], i + n)
         | None \<Rightarrow>
             (case find_semi text (i + 1) of
                Some semi \<Rightarrow> if i + 1 < semi then Some ([], semi + 1) else Some ([amp_char], i + 1)
              | None \<Rightarrow> Some ([amp_char], i + 1)))
      else None)"

lemma find_semi_ge: "find_semi s j = Some k \<Longrightarrow> j \<le> k \<and> k < length s \<and> s ! k = semi_char"
proof (induction s j rule: find_semi.induct)
  case (1 s j)
  note step = 1(3)[unfolded find_semi.simps[of s j]]
  then have j: "j < length s" by (simp split: if_splits)
  show ?case
  proof (cases "s ! j = semi_char")
    case False
    show ?thesis
    proof (cases "s ! j = amp_char")
      case True
      then have "find_semi s (j + (case space_entity_len (drop j s) of None \<Rightarrow> 1 | Some n \<Rightarrow> n)) = Some k"
        using step j by simp
      then show ?thesis using 1(1)[OF j False True] by linarith
    next
      case amp: False
      then have "find_semi s (j + 1) = Some k" using step j False by simp
      then show ?thesis using 1(2)[OF j False amp] by linarith
    qed
  qed (use step j in simp)
qed

lemma html_markup_gt: "html_markup text i = Some (r, nx) \<Longrightarrow> i < nx"
  by (auto simp: html_markup_def split: if_splits option.splits dest: space_entity_len_pos)

text \<open>\<^verbatim>\<open>for_each_html_stripped_piece_at\<close>: the pieces with the range of the line they stand for.\<close>

type_synonym piece = "(nat \<times> nat) \<times> ustr"

function pieces_from :: "ustr \<Rightarrow> nat \<Rightarrow> nat \<Rightarrow> piece list" where
  "pieces_from text copied i =
     (if i < length text then
        (case html_markup text i of
           None \<Rightarrow> pieces_from text copied (i + 1)
         | Some (replacement, nx) \<Rightarrow>
             (if copied < i then [((copied, i), text_slice text copied i)] else []) @
             (if replacement \<noteq> [] then [((i, nx), replacement)] else []) @
             pieces_from text nx nx)
      else if copied < length text then [((copied, length text), drop copied text)] else [])"
  by pat_completeness auto
termination
  by (relation "measure (\<lambda>(text, copied, i). length text - i)") (auto dest: html_markup_gt)

declare pieces_from.simps [simp del]

definition html_pieces_at :: "ustr \<Rightarrow> piece list" where
  "html_pieces_at text =
     (if lt_char \<notin> set text \<and> amp_char \<notin> set text then [((0, length text), text)] else pieces_from text 0 0)"

definition html_pieces :: "ustr \<Rightarrow> ustr list" where
  "html_pieces text = map snd (html_pieces_at text)"

definition strip_html_for_indexing :: "ustr \<Rightarrow> ustr" where
  "strip_html_for_indexing text = concat (html_pieces text)"

end
