(* ===== verification/StripReference.thy ===== *)
theory StripReference
  imports HtmlStrip
begin

section \<open>The strip is the documented two-pass strip\<close>

text \<open>
  The doc comment of \<^verbatim>\<open>strip_html_for_indexing\<close> describes two passes: the white space entities become
  spaces, then tags and the remaining entities are removed. The code makes one pass over the
  original line. This theory states the two passes (\<open>space_out\<close>, \<open>strip_scan\<close>) and proves that the one
  pass has the same output: the judgement of a tag, which looks back and ahead over the
  original text, does not see the difference between an entity and its space.
\<close>

subsection \<open>The two passes\<close>

function space_out :: "ustr \<Rightarrow> ustr" where
  "space_out [] = []"
| "space_out (c # s) =
     (case space_entity_len (c # s) of
        Some n \<Rightarrow> space_char # space_out (drop n (c # s))
      | None \<Rightarrow> c # space_out s)"
  by pat_completeness auto
termination
  by (relation "measure length") (auto dest: space_entity_len_pos)

declare space_out.simps(2) [simp del]

function strip_scan :: "ustr \<Rightarrow> nat \<Rightarrow> ustr" where
  "strip_scan t i =
     (if i < length t then
        (if t ! i = lt_char then
           (case char_index gt_char (drop (i + 1) t) of
              Some n \<Rightarrow>
                (if tag_breaks_word t i (i + 1 + n) then [space_char] else []) @ strip_scan t (i + n + 2)
            | None \<Rightarrow> lt_char # strip_scan t (i + 1))
         else if t ! i = amp_char then
           (case char_index semi_char (drop (i + 1) t) of
              Some n \<Rightarrow> if 1 \<le> n then strip_scan t (i + n + 2) else amp_char # strip_scan t (i + 1)
            | None \<Rightarrow> amp_char # strip_scan t (i + 1))
         else t ! i # strip_scan t (i + 1))
      else [])"
  by pat_completeness auto
termination
  by (relation "measure (\<lambda>(t, i). length t - i)") auto

declare strip_scan.simps [simp del]

subsection \<open>Entities\<close>

definition entity_char :: "uchar \<Rightarrow> bool" where
  "entity_char c \<longleftrightarrow> c = amp_char \<or> c = semi_char \<or> 0x61 \<le> c \<and> c \<le> 0x7A"

lemma entity_shape:
  assumes "e \<in> set SPACE_ENTITIES"
  obtains u where "e = amp_char # u @ [semi_char]" "\<forall>c \<in> set u. 0x61 \<le> c \<and> c \<le> 0x7A"
proof -
  have "e = amp_char # butlast (tl e) @ [semi_char]" "\<forall>c \<in> set (butlast (tl e)). 0x61 \<le> c \<and> c \<le> 0x7A"
    using assms by (auto simp: SPACE_ENTITIES_def ascii_def)
  then show ?thesis by (rule that)
qed

lemma starts_with_iff: "starts_with s p \<longleftrightarrow> (\<exists>r. s = p @ r)"
  unfolding starts_with_def by (metis append_eq_conv_conj append_take_drop_id)

lemma space_entity_Some:
  "space_entity_len s = Some n \<Longrightarrow> (\<exists>e \<in> set SPACE_ENTITIES. starts_with s e \<and> n = length e)"
  by (auto simp: space_entity_len_def find_Some_iff)

lemma space_entity_None:
  "space_entity_len s = None \<longleftrightarrow> (\<forall>e \<in> set SPACE_ENTITIES. \<not> starts_with s e)"
  by (auto simp: space_entity_len_def find_None_iff)

lemma space_entity_Some_iff:
  "space_entity_len s = Some n \<longleftrightarrow> (\<exists>e \<in> set SPACE_ENTITIES. starts_with s e \<and> n = length e)"
proof
  assume "\<exists>e \<in> set SPACE_ENTITIES. starts_with s e \<and> n = length e"
  then show "space_entity_len s = Some n"
    by (auto simp: space_entity_len_def SPACE_ENTITIES_def ascii_def starts_with_iff)
qed (rule space_entity_Some)

text \<open>A white space entity at the start: its chars, up to the first \<^verbatim>\<open>;\<close>.\<close>

lemma space_entity_split:
  assumes "space_entity_len s = Some n"
  obtains u r where "s = amp_char # u @ semi_char # r" "n = length u + 2" "\<forall>c \<in> set u. 0x61 \<le> c \<and> c \<le> 0x7A"
    "\<And>r'. space_entity_len (amp_char # u @ semi_char # r') = Some n"
proof -
  obtain e where e: "e \<in> set SPACE_ENTITIES" "starts_with s e" "n = length e"
    using space_entity_Some [OF assms] by blast
  obtain u where u: "e = amp_char # u @ [semi_char]" "\<forall>c \<in> set u. 0x61 \<le> c \<and> c \<le> 0x7A"
    using e(1) by (rule entity_shape)
  obtain r where "s = e @ r" using e(2) by (auto simp: starts_with_iff)
  moreover have "space_entity_len (amp_char # u @ semi_char # r') = Some n" for r'
  proof -
    have "starts_with (amp_char # u @ semi_char # r') e" by (auto simp: starts_with_iff u)
    then show ?thesis unfolding space_entity_Some_iff using e(1,3) by blast
  qed
  ultimately show ?thesis using that u e(3) by simp
qed

lemma space_out_entity:
  assumes "space_entity_len s = Some n"
  shows "space_out s = space_char # space_out (drop n s)"
  using assms by (cases s) (auto simp: space_out.simps(2) space_entity_len_def SPACE_ENTITIES_def
      ascii_def starts_with_def split: option.splits if_splits)

lemma space_out_char:
  assumes "c \<noteq> amp_char"
  shows "space_out (c # s) = c # space_out s"
proof -
  have "space_entity_len (c # s) = None"
  proof (rule ccontr)
    assume "space_entity_len (c # s) \<noteq> None"
    then obtain n where "space_entity_len (c # s) = Some n" by auto
    then show False by (rule space_entity_split) (use assms in simp)
  qed
  then show ?thesis by (simp add: space_out.simps(2))
qed

lemma space_out_plain: "amp_char \<notin> set u \<Longrightarrow> space_out (u @ w) = u @ space_out w"
  by (induction u) (auto simp: space_out_char)

lemma space_out_plain_all: "amp_char \<notin> set u \<Longrightarrow> space_out u = u"
  using space_out_plain [of u "[]"] by simp

subsection \<open>Cuts\<close>

text \<open>No entity reaches over a cut whose right side starts with, or whose left side ends in, a char that is in none.\<close>

lemma entity_append:
  assumes "w = [] \<or> hd w = amp_char \<or> \<not> entity_char (hd w)" "v \<noteq> []"
  shows "space_entity_len (v @ w) = space_entity_len v"
proof (cases "space_entity_len (v @ w)")
  case None
  then have "space_entity_len v = None"
    by (auto simp: space_entity_None starts_with_iff)
  then show ?thesis using None by simp
next
  case (Some n)
  then obtain u r where u: "v @ w = amp_char # u @ semi_char # r" "n = length u + 2"
    "\<forall>c \<in> set u. 0x61 \<le> c \<and> c \<le> 0x7A" "\<And>r'. space_entity_len (amp_char # u @ semi_char # r') = Some n"
    by (rule space_entity_split) blast
  have "length u + 2 \<le> length v"
  proof (rule ccontr)
    assume short: "\<not> length u + 2 \<le> length v"
    then have "w \<noteq> []" using arg_cong [OF u(1), of length] by auto
    moreover have "hd w = (v @ w) ! length v" using \<open>w \<noteq> []\<close> by (simp add: nth_append hd_conv_nth)
    moreover have "(v @ w) ! length v \<in> set (u @ [semi_char])"
    proof -
      obtain k where k: "length v = Suc k" using assms(2) by (cases v) auto
      then have "k < length (u @ [semi_char])" using short by simp
      moreover have "(v @ w) ! length v = (u @ [semi_char]) ! k"
        using short k unfolding u(1) by (auto simp: nth_append)
      ultimately show ?thesis by (metis nth_mem)
    qed
    ultimately show False using assms(1) u(3) by (auto simp: entity_char_def)
  qed
  moreover have "v = take (length v) ((amp_char # u @ [semi_char]) @ r)"
    using u(1) by (metis append_Cons append_Nil append_assoc append_eq_conv_conj)
  ultimately have "v = amp_char # u @ semi_char # take (length v - (length u + 2)) r"
    unfolding take_append by (simp add: take_all)
  then show ?thesis using u(4) Some by metis
qed

lemma space_entity_le: "space_entity_len s = Some n \<Longrightarrow> n \<le> length s"
  by (auto dest!: space_entity_Some simp: starts_with_iff)

lemma space_out_append:
  assumes "w = [] \<or> hd w = amp_char \<or> \<not> entity_char (hd w)"
  shows "space_out (v @ w) = space_out v @ space_out w"
proof (induction v rule: space_out.induct)
  case (2 c s)
  have same: "space_entity_len (c # s @ w) = space_entity_len (c # s)"
    using entity_append [OF assms, of "c # s"] by simp
  show ?case
  proof (cases "space_entity_len (c # s)")
    case None
    then show ?thesis using 2(1) same by (simp add: space_out.simps(2))
  next
    case (Some n)
    then have "n \<le> length (c # s)" by (rule space_entity_le)
    then have "drop n (c # s @ w) = drop n (c # s) @ w" by (simp flip: append_Cons)
    then show ?thesis using 2(2) [OF Some] same Some by (simp add: space_out.simps(2))
  qed
qed simp

lemma space_out_solid:
  assumes "\<not> entity_char c"
  shows "space_out (v @ c # w) = space_out v @ c # space_out w"
  using space_out_append [of "c # w" v] assms by (auto simp: space_out_char entity_char_def)

lemma space_out_Nil [simp]: "space_out s = [] \<longleftrightarrow> s = []"
  by (cases s) (auto simp: space_out.simps(2) split: option.splits)

lemma space_out_hd:
  assumes "s \<noteq> []"
  shows "hd (space_out s) = hd s \<or> hd s = amp_char \<and> hd (space_out s) = space_char"
proof (cases "space_entity_len s")
  case None
  then show ?thesis using assms by (cases s) (auto simp: space_out.simps(2))
next
  case (Some n)
  then obtain u r where "s = amp_char # u @ semi_char # r" by (rule space_entity_split) blast
  then show ?thesis using space_out_entity [OF Some] by simp
qed

lemma space_out_last:
  assumes "s \<noteq> []"
  shows "last (space_out s) = last s \<or> last s = semi_char \<and> last (space_out s) = space_char"
  using assms
proof (induction s rule: space_out.induct)
  case (2 c s)
  show ?case
  proof (cases "space_entity_len (c # s)")
    case None
    then show ?thesis using 2(1) by (cases "s = []") (auto simp: space_out.simps(2))
  next
    case (Some n)
    then obtain u r where u: "c # s = amp_char # u @ semi_char # r" "n = length u + 2"
      by (rule space_entity_split) blast
    then have d: "drop n (c # s) = r" by simp
    have out: "space_out (c # s) = space_char # space_out r"
      using space_out_entity [OF Some] d by simp
    show ?thesis
    proof (cases "r = []")
      case True
      then show ?thesis using out u(1) by simp
    next
      case False
      then show ?thesis using 2(2) [OF Some] unfolding d using out u(1) by simp
    qed
  qed
qed simp

text \<open>A prefix of the spaced text is the spaced prefix of the text, and chars other than the space are its own.\<close>

lemma space_out_prefix:
  assumes "space_out s = v @ w"
  obtains v' w' where "s = v' @ w'" "space_out v' = v" "space_out w' = w"
  using assms
proof (induction s arbitrary: v thesis rule: space_out.induct)
  case (2 c s)
  show ?case
  proof (cases v)
    case Nil
    then show ?thesis using 2(3) [of "[]" "c # s"] 2(4) by simp
  next
    case (Cons d v1)
    show ?thesis
    proof (cases "space_entity_len (c # s)")
      case None
      then have "d = c" "space_out s = v1 @ w" using 2(4) Cons by (auto simp: space_out.simps(2))
      then obtain v' w' where v': "s = v' @ w'" "space_out v' = v1" "space_out w' = w"
        using 2(1) [OF None] by blast
      have "space_entity_len (c # v') = None"
        using None v'(1) by (auto simp: space_entity_None starts_with_iff simp flip: append_Cons)
      then have "space_out (c # v') = v" using v' Cons \<open>d = c\<close> by (simp add: space_out.simps(2))
      then show ?thesis using 2(3) [of "c # v'" w'] v' by simp
    next
      case (Some n)
      then obtain u r where u: "c # s = amp_char # u @ semi_char # r" "n = length u + 2"
          "\<And>r'. space_entity_len (amp_char # u @ semi_char # r') = Some n"
        by (rule space_entity_split) blast
      have "drop n (c # s) = r" using u(1,2) by simp
      then have "d = space_char" "space_out r = v1 @ w"
        using 2(4) Cons space_out_entity [OF Some] by auto
      then obtain v' w' where v': "r = v' @ w'" "space_out v' = v1" "space_out w' = w"
        using 2(2) [OF Some] \<open>drop n (c # s) = r\<close> by metis
      have "space_out (amp_char # u @ semi_char # v') = v"
        using space_out_entity [OF u(3)] u(2) v'(2) Cons \<open>d = space_char\<close> by simp
      then show ?thesis using 2(3) [of "amp_char # u @ semi_char # v'" w'] v' u(1) by simp
    qed
  qed
qed simp

lemma space_out_own:
  assumes "space_out s = f @ w" "space_char \<notin> set f"
  obtains w' where "s = f @ w'" "space_out w' = w"
  using assms
proof (induction f arbitrary: s thesis)
  case (Cons d f)
  obtain c s' where s: "s = c # s'" using Cons.prems(2) by (metis append_is_Nil_conv list.distinct(1) list.exhaust space_out_Nil)
  have "space_entity_len s = None"
    using Cons.prems(2,3) space_out_entity by (cases "space_entity_len s") auto
  then have "d = c" "space_out s' = f @ w" using Cons.prems(2) s by (auto simp: space_out.simps(2))
  then show ?case using Cons.IH [of s'] Cons.prems(1,3) s by auto
qed simp

subsection \<open>Searching and trimming\<close>

lemma char_index_split: "c \<notin> set v \<Longrightarrow> char_index c (v @ c # w) = Some (length v)"
  by (induction v) auto

lemma char_index_None: "char_index c s = None \<longleftrightarrow> c \<notin> set s"
  by (induction s) auto

lemma char_rindex_None: "char_rindex c s = None \<longleftrightarrow> c \<notin> set s"
  by (induction s) (auto split: option.splits)

lemma char_rindex_split: "c \<notin> set w \<Longrightarrow> char_rindex c (v @ c # w) = Some (length v)"
  by (induction v) (auto simp: char_rindex_None [THEN iffD2])

lemma char_index_Some:
  assumes "char_index c s = Some n"
  obtains v w where "s = v @ c # w" "c \<notin> set v" "n = length v"
proof -
  have "c \<in> set s" using assms char_index_None [of c s] by auto
  then obtain v w where "s = v @ c # w" "c \<notin> set v" by (meson split_list_first)
  then show ?thesis using that char_index_split [of c v w] assms by simp
qed

lemma char_rindex_Some:
  assumes "char_rindex c s = Some n"
  obtains v w where "s = v @ c # w" "c \<notin> set w" "n = length v"
proof -
  have "c \<in> set s" using assms char_rindex_None [of c s] by auto
  then obtain v w where "s = v @ c # w" "c \<notin> set w" by (meson split_list_last)
  then show ?thesis using that char_rindex_split [of c w v] assms by simp
qed

lemma set_space_out: "set (space_out s) \<subseteq> insert space_char (set s)"
proof (induction s rule: space_out.induct)
  case (2 c s)
  then show ?case
    using set_drop_subset [of _ "c # s"] by (fastforce simp: space_out.simps(2) split: option.splits)
qed simp

lemma space_out_mem:
  assumes "\<not> entity_char c" "c \<noteq> space_char"
  shows "c \<in> set (space_out s) \<longleftrightarrow> c \<in> set s"
proof
  assume "c \<in> set s"
  then obtain v w where "s = v @ c # w" by (meson split_list)
  then show "c \<in> set (space_out s)" using space_out_solid [OF assms(1)] by simp
qed (use set_space_out assms(2) in blast)

text \<open>The class of chars the trimming functions remove: none is in an entity or a space.\<close>

definition outside_entities :: "(uchar \<Rightarrow> bool) \<Rightarrow> bool" where
  "outside_entities P \<longleftrightarrow> \<not> P space_char \<and> (\<forall>c. P c \<longrightarrow> \<not> entity_char c)"

lemma dropWhile_space_out:
  assumes "outside_entities P"
  shows "dropWhile P (space_out s) = space_out (dropWhile P s)"
proof (induction s)
  case (Cons c s)
  show ?case
  proof (cases "P c")
    case True
    then have "c \<noteq> amp_char" using assms by (auto simp: outside_entities_def entity_char_def)
    then show ?thesis using True Cons by (simp add: space_out_char)
  next
    case False
    have "\<not> P (hd (space_out (c # s)))"
      using space_out_hd [of "c # s"] False assms by (auto simp: outside_entities_def)
    then have "dropWhile P (space_out (c # s)) = space_out (c # s)"
      by (cases "space_out (c # s)") auto
    then show ?thesis using False by simp
  qed
qed simp

lemma trim_end_split:
  obtains u where "s = trim_end_while P s @ u" "\<forall>c \<in> set u. P c"
    "trim_end_while P s = [] \<or> \<not> P (last (trim_end_while P s))"
proof -
  have "s = rev (takeWhile P (rev s) @ dropWhile P (rev s))" by simp
  then have "s = trim_end_while P s @ rev (takeWhile P (rev s))"
    by (simp only: trim_end_while_def rev_append)
  moreover have "\<forall>c \<in> set (rev (takeWhile P (rev s))). P c" by (auto dest: set_takeWhileD)
  moreover have "trim_end_while P s = [] \<or> \<not> P (last (trim_end_while P s))"
    by (cases "dropWhile P (rev s) = []") (auto simp: trim_end_while_def last_rev hd_dropWhile)
  ultimately show ?thesis by (rule that)
qed

lemma trim_end_unique:
  assumes "s = v @ u" "\<forall>c \<in> set u. P c" "v = [] \<or> \<not> P (last v)"
  shows "trim_end_while P s = v"
proof -
  have "dropWhile P (rev s) = dropWhile P (rev v)"
    using assms(1,2) by (auto intro!: dropWhile_append2)
  also have "\<dots> = rev v"
    using assms(3) by (cases "rev v") (auto simp flip: hd_rev)
  finally show ?thesis by (simp add: trim_end_while_def)
qed

lemma trim_end_space_out:
  assumes "outside_entities P"
  shows "trim_end_while P (space_out s) = space_out (trim_end_while P s)"
proof -
  obtain u where u: "s = trim_end_while P s @ u" "\<forall>c \<in> set u. P c"
    "trim_end_while P s = [] \<or> \<not> P (last (trim_end_while P s))"
    by (rule trim_end_split)
  have solid: "\<forall>c \<in> set u. \<not> entity_char c" using u(2) assms by (auto simp: outside_entities_def)
  then have "amp_char \<notin> set u" by (auto simp: entity_char_def)
  then have "space_out s = space_out (trim_end_while P s) @ u"
    using space_out_append [of u "trim_end_while P s"] solid space_out_plain_all [of u] u(1)
    by (cases u) auto
  moreover have "space_out (trim_end_while P s) = [] \<or> \<not> P (last (space_out (trim_end_while P s)))"
    using u(3) space_out_last [of "trim_end_while P s"] assms by (auto simp: outside_entities_def)
  ultimately show ?thesis using u(2) by (intro trim_end_unique)
qed

subsection \<open>Tags\<close>

lemma space_out_takeWhile:
  assumes "\<not> P amp_char" "\<not> P space_char"
  shows "takeWhile P (space_out s) = takeWhile P s"
proof (induction s rule: space_out.induct)
  case (2 c s)
  show ?case
  proof (cases "space_entity_len (c # s)")
    case None
    then show ?thesis using 2(1) by (simp add: space_out.simps(2))
  next
    case (Some n)
    then have "c = amp_char" by (rule space_entity_split) simp
    then show ?thesis using assms Some by (simp add: space_out.simps(2))
  qed
qed simp

lemma tag_name_space_out: "tag_name (space_out b) = tag_name b"
proof -
  have alnum: "\<not> is_ascii_alphanumeric amp_char" "\<not> is_ascii_alphanumeric space_char"
    by (simp_all add: is_ascii_alphanumeric_def)
  show ?thesis
  proof (cases "b \<noteq> [] \<and> hd b = slash_char")
    case True
    then obtain r where "b = slash_char # r" by (cases b) auto
    then show ?thesis
      by (simp add: tag_name_def space_out_char space_out_takeWhile [of is_ascii_alphanumeric, OF alnum])
  next
    case False
    have "space_out b = [] \<or> hd (space_out b) \<noteq> slash_char"
      using space_out_hd [of b] False by (cases "b = []") auto
    then have "(case space_out b of c # rest \<Rightarrow> if c = slash_char then (True, rest) else (False, space_out b)
        | [] \<Rightarrow> (False, space_out b)) = (False, space_out b)"
      by (cases "space_out b") auto
    moreover have "(case b of c # rest \<Rightarrow> if c = slash_char then (True, rest) else (False, b)
        | [] \<Rightarrow> (False, b)) = (False, b)"
      using False by (cases b) auto
    ultimately show ?thesis
      by (simp add: tag_name_def space_out_takeWhile [of is_ascii_alphanumeric, OF alnum])
  qed
qed

lemma is_inline_tag_space_out [simp]: "is_inline_tag (space_out b) = is_inline_tag b"
  by (simp add: is_inline_tag_def tag_name_space_out)

lemma angle_solid [simp]: "\<not> entity_char lt_char" "\<not> entity_char gt_char"
  by (simp_all add: entity_char_def)

lemma skip_tag_start_space_out: "skip_tag_start (space_out s) = map_option space_out (skip_tag_start s)"
proof (cases "s \<noteq> [] \<and> hd s = lt_char")
  case True
  then obtain w where w: "s = lt_char # w" by (cases s) auto
  show ?thesis
  proof (cases "char_index gt_char w")
    case None
    then have "char_index gt_char (space_out w) = None"
      by (simp add: char_index_None space_out_mem)
    then show ?thesis using None w by (simp add: skip_tag_start_def space_out_char)
  next
    case (Some n)
    then obtain b r where b: "w = b @ gt_char # r" "gt_char \<notin> set b" "n = length b"
      by (rule char_index_Some)
    then have "space_out w = space_out b @ gt_char # space_out r" "gt_char \<notin> set (space_out b)"
      by (simp_all add: space_out_solid space_out_mem)
    then show ?thesis using b w by (simp add: skip_tag_start_def space_out_char char_index_split)
  qed
next
  case False
  then have "skip_tag_start s = None"
    by (cases s) (auto simp: skip_tag_start_def)
  moreover have "skip_tag_start (space_out s) = None"
    using space_out_hd [of s] False by (cases "s = []"; cases "space_out s") (auto simp: skip_tag_start_def)
  ultimately show ?thesis by simp
qed

lemma skip_tag_end_split:
  "lt_char \<notin> set b \<Longrightarrow>
    skip_tag_end (r @ lt_char # b @ [gt_char]) = (if gt_char \<in> set b \<or> \<not> is_inline_tag b then None else Some r)"
  by (simp add: skip_tag_end_def butlast_append char_rindex_split)

lemma skip_tag_end_space_out: "skip_tag_end (space_out s) = map_option space_out (skip_tag_end s)"
proof (cases "s \<noteq> [] \<and> last s = gt_char")
  case True
  then obtain w where w: "s = w @ [gt_char]" by (cases s rule: rev_cases) auto
  then have out: "space_out s = space_out w @ [gt_char]" using space_out_solid [of gt_char w "[]"] by simp
  show ?thesis
  proof (cases "char_rindex lt_char w")
    case None
    then have "char_rindex lt_char (space_out w) = None"
      by (simp add: char_rindex_None space_out_mem)
    then show ?thesis using None w out by (simp add: skip_tag_end_def)
  next
    case (Some n)
    then obtain r b where b: "w = r @ lt_char # b" "lt_char \<notin> set b" "n = length r"
      by (rule char_rindex_Some)
    then have "space_out w = space_out r @ lt_char # space_out b" "lt_char \<notin> set (space_out b)"
      by (simp_all add: space_out_solid space_out_mem)
    then show ?thesis using b w out by (simp add: skip_tag_end_split space_out_mem)
  qed
next
  case False
  then have "skip_tag_end s = None"
    by (auto simp: skip_tag_end_def)
  moreover have "skip_tag_end (space_out s) = None"
    using space_out_last [of s] False by (cases "s = []") (auto simp: skip_tag_end_def)
  ultimately show ?thesis by simp
qed

lemma invisible_outside: "outside_entities is_script_invisible"
  by (auto simp: outside_entities_def entity_char_def is_script_invisible_def is_invisible_char_def CGJ_def)

lemma mark_outside: "outside_entities is_word_mark"
  by (auto simp: outside_entities_def entity_char_def is_word_mark_def is_attached_mark_def
      is_general_combining_mark_def)

lemma low_not_letter: "c < 0x5D0 \<Longrightarrow> \<not> is_script_letter c"
  by (simp add: is_script_letter_def is_hebrew_letter_def fold_presentation_form_below)

lemma letter_outside: "outside_entities is_script_letter"
  using low_not_letter by (fastforce simp: outside_entities_def entity_char_def)

lemma formatting_start_space_out:
  "trim_script_formatting_start (space_out s) = space_out (trim_script_formatting_start s)"
proof (induction s rule: trim_script_formatting_start.induct)
  case (1 s)
  show ?case
    using 1 [OF refl]
    by (subst (1 2) trim_script_formatting_start.simps)
      (auto simp: dropWhile_space_out [OF invisible_outside] skip_tag_start_space_out split: option.split)
qed

lemma formatting_end_space_out:
  "trim_script_formatting_end (space_out s) = space_out (trim_script_formatting_end s)"
proof (induction s rule: trim_script_formatting_end.induct)
  case (1 s)
  show ?case
    using 1 [OF refl]
    by (subst (1 2) trim_script_formatting_end.simps)
      (auto simp: trim_end_space_out [OF invisible_outside] skip_tag_end_space_out split: option.split)
qed

text \<open>What the trimming functions leave, and that the cut they make is at no entity.\<close>

definition solid_prefix :: "ustr \<Rightarrow> ustr \<Rightarrow> bool" where
  "solid_prefix v s \<longleftrightarrow> (\<exists>u. s = v @ u \<and> (u = [] \<or> \<not> entity_char (hd u)))"

definition solid_suffix :: "ustr \<Rightarrow> ustr \<Rightarrow> bool" where
  "solid_suffix v s \<longleftrightarrow> (\<exists>u. s = u @ v \<and> (u = [] \<or> \<not> entity_char (last u)))"

lemma solid_prefix_refl [simp]: "solid_prefix s s"
  by (simp add: solid_prefix_def)

lemma solid_suffix_refl [simp]: "solid_suffix s s"
  by (simp add: solid_suffix_def)

lemma solid_prefix_trans:
  assumes "solid_prefix v s" "solid_prefix s t"
  shows "solid_prefix v t"
proof -
  obtain u u' where u: "s = v @ u" "u = [] \<or> \<not> entity_char (hd u)" "t = s @ u'" "u' = [] \<or> \<not> entity_char (hd u')"
    using assms by (auto simp: solid_prefix_def)
  then have "t = v @ (u @ u')" "u @ u' = [] \<or> \<not> entity_char (hd (u @ u'))" by (auto simp: hd_append)
  then show ?thesis unfolding solid_prefix_def by blast
qed

lemma solid_suffix_trans:
  assumes "solid_suffix v s" "solid_suffix s t"
  shows "solid_suffix v t"
proof -
  obtain u u' where u: "s = u @ v" "u = [] \<or> \<not> entity_char (last u)" "t = u' @ s" "u' = [] \<or> \<not> entity_char (last u')"
    using assms by (auto simp: solid_suffix_def)
  then have "t = (u' @ u) @ v" "u' @ u = [] \<or> \<not> entity_char (last (u' @ u))" by (auto simp: last_append)
  then show ?thesis unfolding solid_suffix_def by blast
qed

lemma solid_prefix_space_out:
  assumes "solid_prefix v s"
  shows "length (space_out v) = length (space_out s) \<longleftrightarrow> length v = length s"
proof -
  obtain u where u: "s = v @ u" "u = [] \<or> \<not> entity_char (hd u)" using assms by (auto simp: solid_prefix_def)
  then have "space_out s = space_out v @ space_out u" using space_out_append by blast
  then show ?thesis using u(1) by simp
qed

lemma solid_suffix_split:
  assumes "s = u @ v" "u = [] \<or> \<not> entity_char (last u)"
  shows "space_out s = space_out u @ space_out v"
proof (cases u rule: rev_cases)
  case (snoc u0 c)
  then show ?thesis
    using assms space_out_solid [of c u0 v] space_out_solid [of c u0 "[]"] by simp
qed (use assms in simp)

lemma solid_suffix_space_out:
  assumes "solid_suffix v s"
  shows "length (space_out v) = length (space_out s) \<longleftrightarrow> length v = length s"
proof -
  obtain u where u: "s = u @ v" "u = [] \<or> \<not> entity_char (last u)" using assms by (auto simp: solid_suffix_def)
  then show ?thesis using solid_suffix_split [OF u] by simp
qed

lemma trim_end_solid:
  assumes "outside_entities P"
  shows "solid_prefix (trim_end_while P s) s"
proof -
  obtain u where "s = trim_end_while P s @ u" "\<forall>c \<in> set u. P c" by (rule trim_end_split)
  then have "s = trim_end_while P s @ u \<and> (u = [] \<or> \<not> entity_char (hd u))"
    using assms by (cases u) (auto simp: outside_entities_def)
  then show ?thesis unfolding solid_prefix_def by blast
qed

lemma dropWhile_solid:
  assumes "outside_entities P"
  shows "solid_suffix (dropWhile P s) s"
proof -
  have "takeWhile P s = [] \<or> P (last (takeWhile P s))"
    by (metis last_in_set set_takeWhileD)
  then have "s = takeWhile P s @ dropWhile P s \<and> (takeWhile P s = [] \<or> \<not> entity_char (last (takeWhile P s)))"
    using assms by (auto simp: outside_entities_def)
  then show ?thesis unfolding solid_suffix_def by blast
qed

lemma skip_tag_start_solid: "skip_tag_start s = Some r \<Longrightarrow> solid_suffix r s"
proof -
  assume "skip_tag_start s = Some r"
  then obtain w n where w: "s = lt_char # w" "char_index gt_char w = Some n" "r = drop (n + 1) w"
    by (auto simp: skip_tag_start_def split: list.splits if_splits option.splits)
  obtain b v where "w = b @ gt_char # v" "n = length b" using w(2) by (rule char_index_Some)
  then have "s = (lt_char # b @ [gt_char]) @ r" using w by simp
  then show "solid_suffix r s" unfolding solid_suffix_def by (metis angle_solid(2) last_ConsR last_snoc snoc_eq_iff_butlast)
qed

lemma skip_tag_end_solid: "skip_tag_end s = Some r \<Longrightarrow> solid_prefix r s"
proof -
  assume "skip_tag_end s = Some r"
  then obtain n where w: "s \<noteq> []" "char_rindex lt_char (butlast s) = Some n" "r = take n (butlast s)"
    by (auto simp: skip_tag_end_def Let_def split: if_splits option.splits)
  obtain v b where "butlast s = v @ lt_char # b" "n = length v" using w(2) by (rule char_rindex_Some)
  then have "s = r @ (lt_char # b @ [last s])" using w append_butlast_last_id [OF w(1)] by simp
  then show "solid_prefix r s" unfolding solid_prefix_def by (metis angle_solid(1) list.sel(1))
qed

lemma formatting_start_solid: "solid_suffix (trim_script_formatting_start s) s"
proof (induction s rule: trim_script_formatting_start.induct)
  case (1 s)
  let ?t = "dropWhile is_script_invisible s"
  have t: "solid_suffix ?t s" by (rule dropWhile_solid [OF invisible_outside])
  show ?case
  proof (cases "skip_tag_start ?t")
    case None
    then show ?thesis using t by (subst trim_script_formatting_start.simps) simp
  next
    case (Some r)
    have "solid_suffix (trim_script_formatting_start r) s"
      using 1 [OF refl Some] skip_tag_start_solid [OF Some] t by (blast intro: solid_suffix_trans)
    then show ?thesis using Some by (subst trim_script_formatting_start.simps) simp
  qed
qed

lemma formatting_end_solid: "solid_prefix (trim_script_formatting_end s) s"
proof (induction s rule: trim_script_formatting_end.induct)
  case (1 s)
  let ?t = "trim_end_while is_script_invisible s"
  have t: "solid_prefix ?t s" by (rule trim_end_solid [OF invisible_outside])
  show ?case
  proof (cases "skip_tag_end ?t")
    case None
    then show ?thesis using t by (subst trim_script_formatting_end.simps) simp
  next
    case (Some r)
    have "solid_prefix (trim_script_formatting_end r) s"
      using 1 [OF refl Some] skip_tag_end_solid [OF Some] t by (blast intro: solid_prefix_trans)
    then show ?thesis using Some by (subst trim_script_formatting_end.simps) simp
  qed
qed

lemma context_round:
  "solid_prefix (trim_end_while is_word_mark (trim_script_formatting_end s)) s"
  "solid_suffix (dropWhile is_word_mark (trim_script_formatting_start s)) s"
  by (blast intro: solid_prefix_trans [OF trim_end_solid [OF mark_outside] formatting_end_solid])
    (blast intro: solid_suffix_trans [OF dropWhile_solid [OF mark_outside] formatting_start_solid])

lemma context_round_space_out:
  "trim_end_while is_word_mark (trim_script_formatting_end (space_out s)) =
    space_out (trim_end_while is_word_mark (trim_script_formatting_end s))"
  "dropWhile is_word_mark (trim_script_formatting_start (space_out s)) =
    space_out (dropWhile is_word_mark (trim_script_formatting_start s))"
  by (simp_all add: formatting_end_space_out formatting_start_space_out
      trim_end_space_out [OF mark_outside] dropWhile_space_out [OF mark_outside])

lemma context_end_space_out: "trim_script_context_end (space_out s) = space_out (trim_script_context_end s)"
proof (induction s rule: trim_script_context_end.induct)
  case (1 s)
  show ?case
    using 1 [OF refl]
    by (subst (1 2) trim_script_context_end.simps)
      (simp add: Let_def context_round_space_out solid_prefix_space_out [OF context_round(1)])
qed

lemma context_start_space_out: "trim_script_context_start (space_out s) = space_out (trim_script_context_start s)"
proof (induction s rule: trim_script_context_start.induct)
  case (1 s)
  show ?case
    using 1 [OF refl]
    by (subst (1 2) trim_script_context_start.simps)
      (simp add: Let_def context_round_space_out solid_suffix_space_out [OF context_round(2)])
qed

lemma context_end_solid: "solid_prefix (trim_script_context_end s) s"
proof (induction s rule: trim_script_context_end.induct)
  case (1 s)
  show ?case
    using 1 [OF refl] context_round(1) [of s]
    by (subst trim_script_context_end.simps) (auto simp: Let_def intro: solid_prefix_trans)
qed

lemma letter_next_back: "is_letter (next_back (space_out s)) = is_letter (next_back s)"
  using space_out_last [of s] letter_outside low_not_letter
  by (auto simp: is_letter_def next_back_def)

lemma letter_next_char: "is_letter (next_char (space_out s)) = is_letter (next_char s)"
  using space_out_hd [of s] low_not_letter
  by (cases s; cases "space_out s") (auto simp: is_letter_def next_char_def)

subsection \<open>Footnote markers\<close>

lemma marks_footnote_iff:
  "marks_footnote b \<longleftrightarrow>
    (\<exists>v f w. b = v @ f @ w \<and> map ascii_lower f = FOOTNOTE_MARKER \<and>
      (v = [] \<or> \<not> is_marker_word (ascii_lower (last v))) \<and>
      (w = [] \<or> \<not> is_marker_word (ascii_lower (hd w))))" (is "_ \<longleftrightarrow> (\<exists>v f w. ?split v f w)")
proof
  let ?n = "length FOOTNOTE_MARKER"
  assume "marks_footnote b"
  then obtain i where "i \<in> set [0..<length (map ascii_lower b)]"
    and i2: "starts_with (drop i (map ascii_lower b)) FOOTNOTE_MARKER"
      "\<not> (0 < i \<and> is_marker_word (map ascii_lower b ! (i - 1)))"
      "\<not> (i + ?n < length (map ascii_lower b) \<and> is_marker_word (map ascii_lower b ! (i + ?n)))"
    unfolding marks_footnote_def Let_def list_ex_iff by blast
  then have i: "i < length b" by simp
  note i = i i2
  have "take i b = [] \<or> last (take i b) = b ! (i - 1) \<and> 0 < i"
    using i(1) by (auto simp: last_conv_nth)
  then have left: "take i b = [] \<or> \<not> is_marker_word (ascii_lower (last (take i b)))"
    using i(1,3) by auto
  have right: "drop (i + ?n) b = [] \<or> \<not> is_marker_word (ascii_lower (hd (drop (i + ?n) b)))"
    using i(4) by (auto simp: hd_drop_conv_nth)
  have "map ascii_lower (take ?n (drop i b)) = FOOTNOTE_MARKER"
    using i(2) by (simp add: starts_with_def drop_map take_map)
  moreover have "b = take i b @ take ?n (drop i b) @ drop (i + ?n) b"
    by (metis append_take_drop_id drop_drop add.commute)
  ultimately have "?split (take i b) (take ?n (drop i b)) (drop (i + ?n) b)"
    using left right by blast
  then show "\<exists>v f w. ?split v f w" by blast
next
  let ?n = "length FOOTNOTE_MARKER"
  assume "\<exists>v f w. ?split v f w"
  then obtain v f w where s: "?split v f w" by blast
  then have n: "length f = ?n" by (metis length_map)
  have "0 < ?n" by (simp add: FOOTNOTE_MARKER_def ascii_def)
  then have "length v < length b" using s n by (metis add_gr_0 length_append less_add_same_cancel1)
  moreover have "\<not> (0 < length v \<and> is_marker_word (map ascii_lower b ! (length v - 1)))"
    using s by (cases v rule: rev_cases) (auto simp: nth_append)
  moreover have "\<not> (length v + ?n < length b \<and> is_marker_word (map ascii_lower b ! (length v + ?n)))"
    using s n by (cases w) (auto simp: nth_append)
  moreover have "starts_with (drop (length v) (map ascii_lower b)) FOOTNOTE_MARKER"
    using s by (auto simp: starts_with_iff)
  ultimately show "marks_footnote b"
    unfolding marks_footnote_def Let_def list_ex_iff by (intro bexI [of _ "length v"]) auto
qed

lemma marker_chars:
  assumes "map ascii_lower f = FOOTNOTE_MARKER"
  obtains x y where "f = x @ 0x2D # y" "\<forall>c \<in> set f. c \<noteq> amp_char \<and> c \<noteq> semi_char \<and> c \<noteq> space_char"
proof -
  have "\<forall>c \<in> set FOOTNOTE_MARKER. c \<noteq> amp_char \<and> c \<noteq> semi_char \<and> c \<noteq> space_char"
    by (simp add: FOOTNOTE_MARKER_def ascii_def)
  then have "\<forall>c \<in> set f. ascii_lower c \<noteq> amp_char \<and> ascii_lower c \<noteq> semi_char \<and> ascii_lower c \<noteq> space_char"
    unfolding assms [symmetric] by simp
  then have plain: "\<forall>c \<in> set f. c \<noteq> amp_char \<and> c \<noteq> semi_char \<and> c \<noteq> space_char"
    by (auto simp: ascii_lower_def)
  have "0x2D \<in> set FOOTNOTE_MARKER" by (simp add: FOOTNOTE_MARKER_def ascii_def)
  then obtain c where "c \<in> set f" "ascii_lower c = 0x2D" unfolding assms [symmetric] by auto
  then have "0x2D \<in> set f" by (auto simp: ascii_lower_def split: if_splits)
  then show ?thesis using that plain by (meson split_list)
qed

lemma space_out_no_semi:
  assumes "semi_char \<notin> set u"
  shows "space_out (v @ u) = space_out v @ u"
proof (induction v rule: space_out.induct)
  case 1
  have "space_out u = u" using assms
  proof (induction u)
    case (Cons c u)
    then have "space_entity_len (c # u) = None"
      by (metis in_set_conv_decomp list.set_intros(2) not_None_eq space_entity_split)
    then show ?case using Cons by (simp add: space_out.simps(2))
  qed simp
  then show ?case by simp
next
  case (2 c s)
  show ?case
  proof (cases "space_entity_len (c # s @ u)")
    case None
    then have "space_entity_len (c # s) = None"
      by (auto simp: space_entity_None starts_with_iff simp flip: append_Cons)
    then show ?thesis using 2(1) None by (simp add: space_out.simps(2))
  next
    case (Some n)
    then obtain x r where x: "c # s @ u = amp_char # x @ semi_char # r" "n = length x + 2"
      "\<And>r'. space_entity_len (amp_char # x @ semi_char # r') = Some n"
      by (rule space_entity_split) blast
    have "(c # s) @ u = (amp_char # x @ [semi_char]) @ r" using x(1) by simp
    then obtain z where z: "c # s = (amp_char # x @ [semi_char]) @ z \<or>
        (c # s) @ z = amp_char # x @ [semi_char] \<and> u = z @ r"
      unfolding append_eq_append_conv2 by blast
    have "z = []" if longer: "(c # s) @ z = amp_char # x @ [semi_char]" "u = z @ r"
    proof (rule ccontr)
      assume "z \<noteq> []"
      then have "last z = last (amp_char # x @ [semi_char])" using longer(1) by (metis last_appendR)
      then show False using \<open>z \<noteq> []\<close> longer(2) assms by (metis Un_iff last_ConsR last_in_set last_snoc set_append snoc_eq_iff_butlast)
    qed
    then have "\<exists>z. c # s = amp_char # x @ semi_char # z"
      using z by (metis append_Cons append_Nil append_Nil2 append_assoc)
    then have here: "space_entity_len (c # s) = Some n" using x(3) by metis
    then have "drop n (c # s @ u) = drop n (c # s) @ u"
      using space_entity_le [OF here] drop_append [of n "c # s" u] by simp
    then show ?thesis using 2(2) [OF here] here Some by (simp add: space_out.simps(2))
  qed
qed

lemma marker_edges:
  "space_out v = [] \<or> \<not> is_marker_word (ascii_lower (last (space_out v))) \<longleftrightarrow>
    v = [] \<or> \<not> is_marker_word (ascii_lower (last v))"
  "space_out w = [] \<or> \<not> is_marker_word (ascii_lower (hd (space_out w))) \<longleftrightarrow>
    w = [] \<or> \<not> is_marker_word (ascii_lower (hd w))"
proof -
  have edge: "\<not> is_marker_word (ascii_lower amp_char)" "\<not> is_marker_word (ascii_lower semi_char)"
    "\<not> is_marker_word (ascii_lower space_char)"
    by (simp_all add: is_marker_word_def is_ascii_alphanumeric_def ascii_lower_def)
  show "space_out v = [] \<or> \<not> is_marker_word (ascii_lower (last (space_out v))) \<longleftrightarrow>
      v = [] \<or> \<not> is_marker_word (ascii_lower (last v))"
    using space_out_last [of v] edge by (cases "v = []") auto
  show "space_out w = [] \<or> \<not> is_marker_word (ascii_lower (hd (space_out w))) \<longleftrightarrow>
      w = [] \<or> \<not> is_marker_word (ascii_lower (hd w))"
    using space_out_hd [of w] edge by (cases "w = []") auto
qed

lemma marks_footnote_space_out: "marks_footnote (space_out b) = marks_footnote b"
proof
  assume "marks_footnote b"
  then obtain v f w where s: "b = v @ f @ w" "map ascii_lower f = FOOTNOTE_MARKER"
    "v = [] \<or> \<not> is_marker_word (ascii_lower (last v))"
    "w = [] \<or> \<not> is_marker_word (ascii_lower (hd w))"
    unfolding marks_footnote_iff by blast
  obtain x y where f: "f = x @ 0x2D # y" "\<forall>c \<in> set f. c \<noteq> amp_char \<and> c \<noteq> semi_char \<and> c \<noteq> space_char"
    using s(2) by (rule marker_chars)
  have "space_out b = space_out (v @ x) @ 0x2D # space_out (y @ w)"
    using space_out_solid [of "0x2D" "v @ x" "y @ w"] s(1) f(1) by (simp add: entity_char_def)
  also have "\<dots> = (space_out v @ x) @ 0x2D # (y @ space_out w)"
    using f by (subst space_out_no_semi) (auto simp: space_out_plain)
  finally have out: "space_out b = space_out v @ f @ space_out w" using f(1) by simp
  then show "marks_footnote (space_out b)"
    unfolding marks_footnote_iff using s(2-4) marker_edges by blast
next
  assume "marks_footnote (space_out b)"
  then obtain v f w where s: "space_out b = v @ f @ w" "map ascii_lower f = FOOTNOTE_MARKER"
    "v = [] \<or> \<not> is_marker_word (ascii_lower (last v))"
    "w = [] \<or> \<not> is_marker_word (ascii_lower (hd w))"
    unfolding marks_footnote_iff by blast
  have f: "space_char \<notin> set f" using s(2) by (rule marker_chars) auto
  obtain v' x where v': "b = v' @ x" "space_out v' = v" "space_out x = f @ w"
    using s(1) by (rule space_out_prefix)
  obtain w' where w': "x = f @ w'" "space_out w' = w" using v'(3) f by (rule space_out_own)
  have "b = v' @ f @ w'" using v'(1) w'(1) by simp
  moreover have "v' = [] \<or> \<not> is_marker_word (ascii_lower (last v'))"
    "w' = [] \<or> \<not> is_marker_word (ascii_lower (hd w'))"
    using s(3,4) marker_edges v'(2) w'(2) by blast+
  ultimately show "marks_footnote b" unfolding marks_footnote_iff using s(2) by blast
qed

subsection \<open>The judgement of a tag\<close>

text \<open>The judgement over what stands before the tag, in it and after it.\<close>

definition internal_script :: "ustr \<Rightarrow> ustr \<Rightarrow> ustr \<Rightarrow> bool" where
  "internal_script pre body post =
     (case tag_name body of
        Some (False, name) \<Rightarrow>
          \<not> marks_footnote body \<and>
          is_letter (next_back (trim_script_context_end pre)) \<and>
          (case trim_script_formatting_start post of
             [] \<Rightarrow> False
           | c # content \<Rightarrow>
               is_script_letter c \<and>
               (case trim_script_context_start content of
                  [] \<Rightarrow> False
                | d # close \<Rightarrow>
                    d = lt_char \<and>
                    (case char_index gt_char close of
                       None \<Rightarrow> False
                     | Some n \<Rightarrow>
                         (case tag_name (take n close) of
                            Some (True, closing) \<Rightarrow> eq_ignore_ascii_case closing name
                          | _ \<Rightarrow> False) \<and>
                         is_letter (next_char (trim_script_context_start (drop (n + 1) close))))))
      | _ \<Rightarrow> False)"

definition open_before :: "ustr \<Rightarrow> (ustr \<times> ustr \<times> ustr) option" where
  "open_before pre =
     (let front = trim_script_context_end pre
      in if is_letter (next_back front) then
           (let rest = trim_script_formatting_end (butlast front)
            in if rest = [] \<or> last rest \<noteq> gt_char then None
               else
                 (case char_rindex lt_char (butlast rest) of
                    None \<Rightarrow> None
                  | Some n \<Rightarrow>
                      if gt_char \<in> set (drop (n + 1) (butlast rest)) then None
                      else Some (take n rest, drop (n + 1) (butlast rest), drop (length rest) pre)))
         else None)"

definition breaks_word :: "ustr \<Rightarrow> ustr \<Rightarrow> ustr \<Rightarrow> bool" where
  "breaks_word pre body post =
     (case tag_name body of
        None \<Rightarrow> False
      | Some (closing, name) \<Rightarrow>
          if is_listed BREAKING_TAG_NAMES name then True
          else if \<not> is_listed SCRIPT_TAG_NAMES name then False
          else if closing then
            \<not> (case open_before pre of None \<Rightarrow> False
                | Some (p, b, between) \<Rightarrow> internal_script p b (between @ lt_char # body @ gt_char # post))
          else \<not> internal_script pre body post)"

lemma split_positions:
  "text_slice (pre @ c # body @ d # post) (length pre + 1) (length pre + 1 + length body) = body"
  "take (length pre) (pre @ c # body @ d # post) = pre"
  "drop (length pre + 1 + length body + 1) (pre @ c # body @ d # post) = post"
  by (simp_all add: text_slice_def)

lemma word_internal_split:
  "is_word_internal_script (pre @ lt_char # body @ gt_char # post) (length pre) (length pre + 1 + length body) =
    internal_script pre body post"
  unfolding is_word_internal_script_def internal_script_def split_positions ..

lemma open_before_pieces:
  assumes "open_before pre = Some (p, b, between)"
  shows "pre = p @ lt_char # b @ gt_char # between"
proof -
  define front where "front = trim_script_context_end pre"
  define rest where "rest = trim_script_formatting_end (butlast front)"
  obtain n where n: "rest \<noteq> []" "last rest = gt_char" "char_rindex lt_char (butlast rest) = Some n"
    "p = take n rest" "b = drop (n + 1) (butlast rest)" "between = drop (length rest) pre"
    using assms by (auto simp: open_before_def Let_def front_def rest_def split: if_splits option.splits)
  obtain v w where v: "butlast rest = v @ lt_char # w" "n = length v"
    using n(3) by (rule char_rindex_Some)
  have rest: "rest = v @ lt_char # w @ [gt_char]"
    using v(1) n(1,2) append_butlast_last_id [of rest] by simp
  have "\<exists>u. pre = front @ u" using context_end_solid [of pre] by (auto simp: front_def solid_prefix_def)
  moreover have "\<exists>u. butlast front = rest @ u"
    using formatting_end_solid [of "butlast front"] by (auto simp: rest_def solid_prefix_def)
  moreover have "\<exists>u. front = butlast front @ u" by (metis append_take_drop_id butlast_conv_take)
  ultimately obtain u where "pre = rest @ u" by (metis append_assoc)
  then show ?thesis using n(4-6) v rest by simp
qed

lemma script_open_before_split:
  "script_open_before (pre @ post) (length pre) =
    map_option (\<lambda>(p, b, between). (length p, length p + 1 + length b)) (open_before pre)"
proof -
  define front where "front = trim_script_context_end pre"
  define rest where "rest = trim_script_formatting_end (butlast front)"
  have "\<exists>u. pre = front @ u" using context_end_solid [of pre] by (auto simp: front_def solid_prefix_def)
  moreover have "\<exists>u. butlast front = rest @ u"
    using formatting_end_solid [of "butlast front"] by (auto simp: rest_def solid_prefix_def)
  moreover have "\<exists>u. front = butlast front @ u" by (metis append_take_drop_id butlast_conv_take)
  ultimately obtain u where u: "pre = rest @ u" by (metis append_assoc)
  have at_end: "(pre @ post) ! (length rest - 1) = last rest" "take (length rest - 1) (pre @ post) = butlast rest"
    if "rest \<noteq> []"
    using u that by (auto simp: nth_append last_conv_nth butlast_conv_take)
  have between: "text_slice (pre @ post) (n + 1) (length rest - 1) = drop (n + 1) (butlast rest)" if "rest \<noteq> []" for n
    using at_end(2) [OF that] by (simp add: text_slice_def)
  show ?thesis
  proof (cases "is_letter (next_back front) \<and> rest \<noteq> [] \<and> last rest = gt_char")
    case True
    show ?thesis
    proof (cases "char_rindex lt_char (butlast rest)")
      case None
      then show ?thesis
        using True at_end
        by (simp add: script_open_before_def open_before_def Let_def flip: front_def rest_def)
    next
      case (Some n)
      then obtain v w where v: "butlast rest = v @ lt_char # w" "n = length v" by (rule char_rindex_Some)
      then have "length rest - 1 = length v + 1 + length w"
        by (metis One_nat_def add.commute add_Suc_right length_Cons length_append length_butlast plus_1_eq_Suc)
      then show ?thesis
        using True Some at_end between v
        by (simp add: script_open_before_def open_before_def Let_def flip: front_def rest_def)
    qed
  next
    case False
    then show ?thesis
      using at_end
      by (auto simp: script_open_before_def open_before_def Let_def simp flip: front_def rest_def)
  qed
qed

lemma tag_breaks_split:
  "tag_breaks_word (pre @ lt_char # body @ gt_char # post) (length pre) (length pre + 1 + length body) =
    breaks_word pre body post"
proof (cases "open_before pre")
  case None
  then show ?thesis
    using word_internal_split [of pre body post]
    unfolding tag_breaks_word_def breaks_word_def split_positions script_open_before_split
    by (auto split: option.split)
next
  case (Some opened)
  obtain p b between where o: "opened = (p, b, between)" by (cases opened)
  have "pre = p @ lt_char # b @ gt_char # between" using open_before_pieces Some o by blast
  then have "is_word_internal_script (pre @ lt_char # body @ gt_char # post) (length p) (length p + 1 + length b) =
      internal_script p b (between @ lt_char # body @ gt_char # post)"
    using word_internal_split [of p b "between @ lt_char # body @ gt_char # post"] by simp
  then show ?thesis
    using word_internal_split [of pre body post] Some o
    unfolding tag_breaks_word_def breaks_word_def split_positions script_open_before_split
    by (auto split: option.split)
qed

lemma close_space_out:
  "(case char_index gt_char (space_out close) of None \<Rightarrow> False
    | Some n \<Rightarrow>
        (case tag_name (take n (space_out close)) of Some (True, closing) \<Rightarrow> eq_ignore_ascii_case closing name | _ \<Rightarrow> False) \<and>
        is_letter (next_char (trim_script_context_start (drop (n + 1) (space_out close))))) =
   (case char_index gt_char close of None \<Rightarrow> False
    | Some n \<Rightarrow>
        (case tag_name (take n close) of Some (True, closing) \<Rightarrow> eq_ignore_ascii_case closing name | _ \<Rightarrow> False) \<and>
        is_letter (next_char (trim_script_context_start (drop (n + 1) close))))"
proof (cases "char_index gt_char close")
  case None
  then have "char_index gt_char (space_out close) = None"
    by (simp add: char_index_None space_out_mem)
  then show ?thesis using None by simp
next
  case (Some n)
  then obtain b r where b: "close = b @ gt_char # r" "gt_char \<notin> set b" "n = length b"
    by (rule char_index_Some)
  then have "space_out close = space_out b @ gt_char # space_out r" "gt_char \<notin> set (space_out b)"
    by (simp_all add: space_out_solid space_out_mem)
  then show ?thesis
    using b by (simp add: char_index_split tag_name_space_out context_start_space_out letter_next_char)
qed

text \<open>A test of the first char that only a char outside entities passes, and of what follows it.\<close>

lemma first_space_out:
  assumes "outside_entities P" "\<And>s. Q (space_out s) = Q s"
  shows "(case space_out s of [] \<Rightarrow> False | c # r \<Rightarrow> P c \<and> Q r) = (case s of [] \<Rightarrow> False | c # r \<Rightarrow> P c \<and> Q r)"
proof (cases s)
  case (Cons c r)
  show ?thesis
  proof (cases "P c")
    case True
    then have "c \<noteq> amp_char" using assms(1) by (auto simp: outside_entities_def entity_char_def)
    then show ?thesis using Cons assms(2) by (simp add: space_out_char)
  next
    case False
    then show ?thesis
      using space_out_hd [of s] Cons assms(1) by (cases "space_out s") (auto simp: outside_entities_def)
  qed
qed simp

lemma lt_outside: "outside_entities (\<lambda>d. d = lt_char)"
  by (simp add: outside_entities_def)

lemma internal_space_out:
  "internal_script (space_out pre) (space_out body) (space_out post) = internal_script pre body post"
proof -
  define shut where "shut name = (\<lambda>close. case char_index gt_char close of None \<Rightarrow> False
    | Some n \<Rightarrow>
        (case tag_name (take n close) of Some (True, closing) \<Rightarrow> eq_ignore_ascii_case closing name | _ \<Rightarrow> False) \<and>
        is_letter (next_char (trim_script_context_start (drop (n + 1) close))))" for name
  define inner where "inner name = (\<lambda>content. case trim_script_context_start content of
      [] \<Rightarrow> False | d # close \<Rightarrow> d = lt_char \<and> shut name close)" for name
  have internal: "internal_script pre body post =
     (case tag_name body of
        Some (False, name) \<Rightarrow>
          \<not> marks_footnote body \<and> is_letter (next_back (trim_script_context_end pre)) \<and>
          (case trim_script_formatting_start post of [] \<Rightarrow> False | c # content \<Rightarrow> is_script_letter c \<and> inner name content)
      | _ \<Rightarrow> False)" for pre body post
    unfolding internal_script_def inner_def shut_def ..
  have "shut name (space_out s) = shut name s" for name s
    unfolding shut_def by (rule close_space_out)
  then have "inner name (space_out s) = inner name s" for name s
    unfolding inner_def context_start_space_out by (rule first_space_out [OF lt_outside])
  then have first: "(case space_out s of [] \<Rightarrow> False | c # content \<Rightarrow> is_script_letter c \<and> inner name content) =
      (case s of [] \<Rightarrow> False | c # content \<Rightarrow> is_script_letter c \<and> inner name content)" for name s
    by (rule first_space_out [OF letter_outside])
  show ?thesis
    unfolding internal tag_name_space_out marks_footnote_space_out context_end_space_out letter_next_back
      formatting_start_space_out first ..
qed

lemma open_before_space_out:
  "open_before (space_out pre) =
    map_option (\<lambda>(p, b, between). (space_out p, space_out b, space_out between)) (open_before pre)"
proof -
  define front where "front = trim_script_context_end pre"
  define rest where "rest = trim_script_formatting_end (butlast front)"
  have front': "trim_script_context_end (space_out pre) = space_out front"
    by (simp add: front_def context_end_space_out)
  show ?thesis
  proof (cases "is_letter (next_back front)")
    case False
    then show ?thesis
      by (simp add: open_before_def front' letter_next_back flip: front_def)
  next
    case True
    then obtain f c where f: "front = f @ [c]" "is_script_letter c"
      by (cases front rule: rev_cases) (auto simp: is_letter_def next_back_def)
    then have "space_out front = space_out f @ [c]"
      using space_out_solid [of c f "[]"] letter_outside by (auto simp: outside_entities_def)
    then have rest': "trim_script_formatting_end (butlast (space_out front)) = space_out rest"
      using f(1) by (simp add: rest_def formatting_end_space_out)
    have after: "open_before pre = (if rest = [] \<or> last rest \<noteq> gt_char then None
        else (case char_rindex lt_char (butlast rest) of None \<Rightarrow> None
          | Some n \<Rightarrow> if gt_char \<in> set (drop (n + 1) (butlast rest)) then None
              else Some (take n rest, drop (n + 1) (butlast rest), drop (length rest) pre)))"
      using True by (simp add: open_before_def Let_def flip: front_def rest_def)
    have after': "open_before (space_out pre) = (if space_out rest = [] \<or> last (space_out rest) \<noteq> gt_char then None
        else (case char_rindex lt_char (butlast (space_out rest)) of None \<Rightarrow> None
          | Some n \<Rightarrow> if gt_char \<in> set (drop (n + 1) (butlast (space_out rest))) then None
              else Some (take n (space_out rest), drop (n + 1) (butlast (space_out rest)),
                drop (length (space_out rest)) (space_out pre))))"
      using True by (simp add: open_before_def Let_def front' rest' letter_next_back)
    show ?thesis
    proof (cases "rest \<noteq> [] \<and> last rest = gt_char")
      case False
      then have "space_out rest = [] \<or> last (space_out rest) \<noteq> gt_char"
        using space_out_last [of rest] by auto
      then show ?thesis using False unfolding after after' by auto
    next
      case ends: True
      then obtain w where w: "rest = w @ [gt_char]" by (cases rest rule: rev_cases) auto
      have out: "space_out rest = space_out w @ [gt_char]"
        using space_out_solid [of gt_char w "[]"] w by simp
      show ?thesis
      proof (cases "char_rindex lt_char w")
        case None
        then have "char_rindex lt_char (space_out w) = None"
          by (simp add: char_rindex_None space_out_mem)
        then show ?thesis using None out unfolding after after' out by (simp add: w)
      next
        case (Some n)
        then obtain p b where b: "w = p @ lt_char # b" "lt_char \<notin> set b" "n = length p"
          by (rule char_rindex_Some)
        then have out_w: "space_out w = space_out p @ lt_char # space_out b" "lt_char \<notin> set (space_out b)"
          by (simp_all add: space_out_solid space_out_mem)
        show ?thesis
        proof (cases "gt_char \<in> set b")
          case True
          then have "open_before pre = None"
            using True b unfolding after w by (simp add: butlast_append char_rindex_split)
          moreover have "gt_char \<in> set (space_out b)" using True by (simp add: space_out_mem)
          then have "open_before (space_out pre) = None"
            using out_w unfolding after' out by (simp add: butlast_append char_rindex_split)
          ultimately show ?thesis by simp
        next
          case False
          then have found: "open_before pre = Some (p, b, drop (length rest) pre)"
            using False b unfolding after w by (simp add: butlast_append char_rindex_split)
          then have "pre = p @ lt_char # b @ gt_char # drop (length rest) pre"
            by (rule open_before_pieces)
          then have "space_out pre =
              (space_out p @ lt_char # space_out b @ [gt_char]) @ space_out (drop (length rest) pre)"
            using space_out_solid [of lt_char p "b @ gt_char # drop (length rest) pre"]
              space_out_solid [of gt_char b "drop (length rest) pre"] by simp
          then have "drop (length (space_out rest)) (space_out pre) = space_out (drop (length rest) pre)"
            using out out_w by simp
          moreover have "gt_char \<notin> set (space_out b)" using False by (simp add: space_out_mem)
          ultimately have "open_before (space_out pre) =
              Some (space_out p, space_out b, space_out (drop (length rest) pre))"
            using out_w unfolding after' out by (simp add: butlast_append char_rindex_split)
          then show ?thesis using found by simp
        qed
      qed
    qed
  qed
qed

lemma breaks_word_space_out:
  "breaks_word (space_out pre) (space_out body) (space_out post) = breaks_word pre body post"
proof -
  have "internal_script (space_out p) (space_out b) (space_out between @ lt_char # space_out body @ gt_char # space_out post) =
      internal_script p b (between @ lt_char # body @ gt_char # post)" for p b between
    using internal_space_out [of p b "between @ lt_char # body @ gt_char # post"]
    by (simp add: space_out_solid)
  then show ?thesis
    unfolding breaks_word_def tag_name_space_out open_before_space_out internal_space_out
    by (auto split: option.split)
qed

subsection \<open>The pass over the line\<close>

text \<open>
  A cut the pass reaches: whatever part of the rest is put after it, the two sides are spaced
  out apart.
\<close>

definition cut_at :: "ustr \<Rightarrow> ustr \<Rightarrow> bool" where
  "cut_at pre rest \<longleftrightarrow> (\<forall>v w. rest = v @ w \<longrightarrow> space_out (pre @ v) = space_out pre @ space_out v)"

lemma cut_atD: "cut_at pre rest \<Longrightarrow> space_out (pre @ rest) = space_out pre @ space_out rest"
  by (auto simp: cut_at_def)

lemma cut_at_solid:
  assumes "\<not> entity_char c"
  shows "cut_at (u @ [c]) w"
  unfolding cut_at_def by (intro allI impI solid_suffix_split [OF refl]) (simp add: assms)

lemma cut_at_char: "c \<noteq> amp_char \<or> space_entity_len (c # w) = None \<Longrightarrow> cut_at [c] w"
proof -
  assume c: "c \<noteq> amp_char \<or> space_entity_len (c # w) = None"
  have "space_out (c # v) = c # space_out v" if "w = v @ v'" for v v'
  proof (cases "c = amp_char")
    case True
    then have "space_entity_len (c # v) = None"
      using c that by (auto simp: space_entity_None starts_with_iff simp flip: append_Cons)
    then show ?thesis by (simp add: space_out.simps(2))
  qed (simp add: space_out_char)
  moreover have "space_out [c] = [c]"
    by (cases "c = amp_char") (auto simp: space_out_char space_out.simps(2) space_entity_len_def
        SPACE_ENTITIES_def ascii_def starts_with_def)
  ultimately show ?thesis by (auto simp: cut_at_def)
qed

lemma cut_at_trans:
  assumes "cut_at pre (x @ w)" "cut_at x w"
  shows "cut_at (pre @ x) w"
  unfolding cut_at_def
proof (intro allI impI)
  fix v v'
  assume w: "w = v @ v'"
  have "space_out (pre @ (x @ v)) = space_out pre @ space_out (x @ v)"
    using assms(1) w unfolding cut_at_def by (metis append_assoc)
  moreover have "space_out (x @ v) = space_out x @ space_out v"
    using assms(2) w unfolding cut_at_def by blast
  moreover have "space_out (pre @ x) = space_out pre @ space_out x"
    using assms(1) unfolding cut_at_def by metis
  ultimately show "space_out ((pre @ x) @ v) = space_out (pre @ x) @ space_out v" by simp
qed

lemma cut_at_entity:
  assumes "space_entity_len rest = Some n"
  obtains x w where "rest = x @ w" "length x = n" "cut_at x w" "space_out x = [space_char]"
proof -
  obtain u r where u: "rest = amp_char # u @ semi_char # r" "n = length u + 2"
    "\<And>r'. space_entity_len (amp_char # u @ semi_char # r') = Some n"
    using assms by (rule space_entity_split) blast
  let ?x = "amp_char # u @ [semi_char]"
  have "space_out (?x @ v) = space_char # space_out v" for v
    using space_out_entity [OF u(3) [of v]] u(2) by simp
  moreover from this [of "[]"] have "space_out ?x = [space_char]" by simp
  ultimately have "cut_at ?x r" by (simp add: cut_at_def)
  then show ?thesis using that [of ?x r] u(1,2) \<open>space_out ?x = [space_char]\<close> by simp
qed

text \<open>The \<^verbatim>\<open>;\<close> that the scan of the original line finds is the first one of the spaced line.\<close>

lemma find_semi_space_out:
  assumes "j \<le> length s"
  shows "case find_semi s j of
      None \<Rightarrow> semi_char \<notin> set (space_out (drop j s))
    | Some k \<Rightarrow> (\<exists>u r. drop j s = u @ semi_char # r \<and> k = j + length u \<and>
        semi_char \<notin> set (space_out u) \<and> cut_at (u @ [semi_char]) r \<and>
        space_out (u @ [semi_char]) = space_out u @ [semi_char])"
  using assms
proof (induction s j rule: find_semi.induct)
  case (1 s j)
  show ?case
  proof (cases "j < length s")
    case False
    then show ?thesis using 1(3) by (subst find_semi.simps) simp
  next
    case j: True
    then have split: "drop j s = s ! j # drop (j + 1) s" by (simp add: Cons_nth_drop_Suc)
    consider "s ! j = semi_char" | n where "s ! j = amp_char" "space_entity_len (drop j s) = Some n"
      | "s ! j \<noteq> semi_char" "s ! j \<noteq> amp_char \<or> space_entity_len (drop j s) = None" by fastforce
    then show ?thesis
    proof cases
      case 1
      then have "cut_at [semi_char] (drop (j + 1) s)" by (intro cut_at_char) simp
      then show ?thesis using j 1 split by (subst find_semi.simps) (auto simp: space_out_char)
    next
      case 2
      obtain x w where x: "drop j s = x @ w" "length x = n" "cut_at x w" "space_out x = [space_char]"
        using 2(2) by (rule cut_at_entity)
      have le: "j + n \<le> length s"
        using x(1,2) j by (metis add_le_cancel_left diff_add_inverse le_add1 length_append length_drop less_imp_le_nat le_add_diff_inverse)
      have w: "drop (j + n) s = w" using x(1,2) by (metis add.commute append_eq_conv_conj drop_drop)
      have here: "find_semi s j = find_semi s (j + n)"
        using j 2 by (subst find_semi.simps) simp
      have IH: "case find_semi s (j + n) of
          None \<Rightarrow> semi_char \<notin> set (space_out w)
        | Some k \<Rightarrow> (\<exists>u r. w = u @ semi_char # r \<and> k = j + n + length u \<and>
            semi_char \<notin> set (space_out u) \<and> cut_at (u @ [semi_char]) r \<and>
            space_out (u @ [semi_char]) = space_out u @ [semi_char])"
      proof -
        have "s ! j \<noteq> semi_char" "j + (case space_entity_len (drop j s) of None \<Rightarrow> 1 | Some n \<Rightarrow> n) = j + n"
          using 2 by simp_all
        from 1(1) [OF j this(1) 2(1), unfolded this(2), OF le] show ?thesis unfolding w .
      qed
      show ?thesis
      proof (cases "find_semi s (j + n)")
        case None
        then show ?thesis using IH here x cut_atD [OF x(3)] by simp
      next
        case (Some k)
        then obtain u r where u: "w = u @ semi_char # r" "k = j + n + length u"
            "semi_char \<notin> set (space_out u)" "cut_at (u @ [semi_char]) r"
            "space_out (u @ [semi_char]) = space_out u @ [semi_char]"
          using IH by auto
        have xu: "space_out (x @ u) = space_char # space_out u"
          "space_out (x @ u @ [semi_char]) = space_char # space_out (u @ [semi_char])"
          using x(3,4) u(1) unfolding cut_at_def by (metis append_Cons append_Nil append_assoc)+
        have "cut_at (x @ (u @ [semi_char])) r"
        proof (rule cut_at_trans [OF _ u(4)])
          show "cut_at x ((u @ [semi_char]) @ r)" using x(3) u(1) by simp
        qed
        then show ?thesis
          unfolding here Some option.case
          by (intro exI [of _ "x @ u"] exI [of _ r]) (use x(1,2) u xu in simp)
      qed
    next
      case 3
      have cut: "cut_at [s ! j] (drop (j + 1) s)"
        using 3(2) split by (intro cut_at_char) simp
      have single: "space_out [s ! j] = [s ! j]"
        by (cases "s ! j = amp_char") (auto simp: space_out_char space_out.simps(2) space_entity_len_def
            SPACE_ENTITIES_def ascii_def starts_with_def)
      have here: "find_semi s j = find_semi s (j + 1)"
        using j 3 by (subst find_semi.simps) auto
      have IH: "case find_semi s (j + 1) of
          None \<Rightarrow> semi_char \<notin> set (space_out (drop (j + 1) s))
        | Some k \<Rightarrow> (\<exists>u r. drop (j + 1) s = u @ semi_char # r \<and> k = j + 1 + length u \<and>
            semi_char \<notin> set (space_out u) \<and> cut_at (u @ [semi_char]) r \<and>
            space_out (u @ [semi_char]) = space_out u @ [semi_char])"
      proof (cases "s ! j = amp_char")
        case True
        then have "j + (case space_entity_len (drop j s) of None \<Rightarrow> 1 | Some n \<Rightarrow> n) = j + 1"
          using 3(2) by simp
        from 1(1) [OF j 3(1) True, unfolded this] show ?thesis using j by simp
      next
        case False
        then show ?thesis using 1(2) [OF j 3(1)] j by simp
      qed
      show ?thesis
      proof (cases "find_semi s (j + 1)")
        case None
        then show ?thesis using IH here 3(1) cut_atD [OF cut] single split by simp
      next
        case (Some k)
        then obtain u r where u: "drop (j + 1) s = u @ semi_char # r" "k = j + 1 + length u"
            "semi_char \<notin> set (space_out u)" "cut_at (u @ [semi_char]) r"
            "space_out (u @ [semi_char]) = space_out u @ [semi_char]"
          using IH by auto
        have xu: "space_out ([s ! j] @ u) = [s ! j] @ space_out u"
          "space_out ([s ! j] @ u @ [semi_char]) = [s ! j] @ space_out (u @ [semi_char])"
          using cut single u(1) unfolding cut_at_def by (metis append_Cons append_Nil append_assoc)+
        have "cut_at ([s ! j] @ (u @ [semi_char])) r"
        proof (rule cut_at_trans [OF _ u(4)])
          show "cut_at [s ! j] ((u @ [semi_char]) @ r)" using cut u(1) by simp
        qed
        then show ?thesis
          unfolding here Some option.case
          by (intro exI [of _ "s ! j # u"] exI [of _ r]) (use split u xu 3(1) in simp)
      qed
    qed
  qed
qed

text \<open>The pass without its copying: chars are emitted one by one.\<close>

function strip_from :: "ustr \<Rightarrow> nat \<Rightarrow> ustr" where
  "strip_from text i =
     (if i < length text then
        (case html_markup text i of
           None \<Rightarrow> text ! i # strip_from text (i + 1)
         | Some (replacement, nx) \<Rightarrow> replacement @ strip_from text nx)
      else [])"
  by pat_completeness auto
termination
  by (relation "measure (\<lambda>(text, i). length text - i)") (auto dest: html_markup_gt)

declare strip_from.simps [simp del]

lemma html_markup_le:
  assumes "html_markup t i = Some (r, nx)" "i < length t"
  shows "nx \<le> length t"
proof (cases "t ! i = lt_char")
  case True
  then show ?thesis
    using assms char_index_less by (auto simp: html_markup_def split: option.splits) fastforce
next
  case False
  then have amp: "t ! i = amp_char" using assms(1) by (auto simp: html_markup_def split: if_splits)
  show ?thesis
  proof (cases "space_entity_len (drop i t)")
    case None
    then show ?thesis
      using assms False amp find_semi_ge [of t "i + 1"]
      by (auto simp: html_markup_def split: option.splits if_splits)
  next
    case (Some n)
    then have "n \<le> length t - i" using space_entity_le by fastforce
    then show ?thesis using assms False amp Some by (auto simp: html_markup_def)
  qed
qed

lemma concat_pieces:
  "copied \<le> i \<Longrightarrow> i \<le> length t \<Longrightarrow>
    concat (map snd (pieces_from t copied i)) = text_slice t copied i @ strip_from t i"
proof (induction t copied i rule: pieces_from.induct)
  case (1 t copied i)
  show ?case
  proof (cases "i < length t")
    case False
    then have "i = length t" using 1(4) by simp
    then show ?thesis by (subst pieces_from.simps, subst strip_from.simps) (simp add: text_slice_def)
  next
    case True
    show ?thesis
    proof (cases "html_markup t i")
      case None
      have "text_slice t copied (i + 1) = text_slice t copied i @ [t ! i]"
        using True 1(3) by (simp add: text_slice_def take_Suc_conv_app_nth)
      then show ?thesis
        using True None 1(1) [OF True None] 1(3)
        by (subst pieces_from.simps, subst strip_from.simps) simp
    next
      case (Some m)
      obtain r nx where m: "html_markup t i = Some (r, nx)" using Some by (cases m) auto
      have "nx \<le> length t" using html_markup_le [OF m True] .
      then have "concat (map snd (pieces_from t nx nx)) = strip_from t nx"
        using 1(2) [OF True m refl] by (simp add: text_slice_def)
      moreover have "copied < i \<or> text_slice t copied i = []" using 1(3) by (auto simp: text_slice_def)
      ultimately show ?thesis
        using True m by (subst pieces_from.simps, subst strip_from.simps) auto
    qed
  qed
qed

lemma strip_from_plain: "lt_char \<notin> set t \<Longrightarrow> amp_char \<notin> set t \<Longrightarrow> strip_from t i = drop i t"
proof (induction t i rule: strip_from.induct)
  case (1 t i)
  show ?case
  proof (cases "i < length t")
    case True
    then have "t ! i \<noteq> lt_char" "t ! i \<noteq> amp_char"
      using 1 nth_mem [OF True] by metis+
    then have "html_markup t i = None"
      by (simp add: html_markup_def)
    then show ?thesis
      using True 1 by (subst strip_from.simps) (simp add: Cons_nth_drop_Suc)
  qed (subst strip_from.simps, simp)
qed

lemma strip_html_from: "strip_html_for_indexing t = strip_from t 0"
  by (simp add: strip_html_for_indexing_def html_pieces_def html_pieces_at_def strip_from_plain concat_pieces)
    (simp add: text_slice_def)

text \<open>One round on each side.\<close>

lemma html_markup_at:
  "html_markup (pre @ lt_char # w) (length pre) =
     (case char_index gt_char w of
        Some n \<Rightarrow>
          Some (if tag_breaks_word (pre @ lt_char # w) (length pre) (length pre + 1 + n) then [space_char] else [],
            length pre + n + 2)
      | None \<Rightarrow> Some ([lt_char], length pre + 1))"
  "html_markup (pre @ amp_char # w) (length pre) =
     (case space_entity_len (amp_char # w) of
        Some n \<Rightarrow> Some ([space_char], length pre + n)
      | None \<Rightarrow>
          (case find_semi (pre @ amp_char # w) (length pre + 1) of
             Some semi \<Rightarrow> if length pre + 1 < semi then Some ([], semi + 1) else Some ([amp_char], length pre + 1)
           | None \<Rightarrow> Some ([amp_char], length pre + 1)))"
  "c \<noteq> lt_char \<Longrightarrow> c \<noteq> amp_char \<Longrightarrow> html_markup (pre @ c # w) (length pre) = None"
  by (simp_all add: html_markup_def)

lemma strip_scan_at:
  "strip_scan (pre @ lt_char # w) (length pre) =
     (case char_index gt_char w of
        Some n \<Rightarrow>
          (if tag_breaks_word (pre @ lt_char # w) (length pre) (length pre + 1 + n) then [space_char] else []) @
          strip_scan (pre @ lt_char # w) (length pre + n + 2)
      | None \<Rightarrow> lt_char # strip_scan (pre @ lt_char # w) (length pre + 1))"
  "strip_scan (pre @ amp_char # w) (length pre) =
     (case char_index semi_char w of
        Some n \<Rightarrow>
          if 1 \<le> n then strip_scan (pre @ amp_char # w) (length pre + n + 2)
          else amp_char # strip_scan (pre @ amp_char # w) (length pre + 1)
      | None \<Rightarrow> amp_char # strip_scan (pre @ amp_char # w) (length pre + 1))"
  "c \<noteq> lt_char \<Longrightarrow> c \<noteq> amp_char \<Longrightarrow>
    strip_scan (pre @ c # w) (length pre) = c # strip_scan (pre @ c # w) (length pre + 1)"
  by (subst strip_scan.simps, simp split: option.split)+

lemma strip_passes_agree:
  "cut_at pre rest \<Longrightarrow>
    strip_from (pre @ rest) (length pre) = strip_scan (space_out (pre @ rest)) (length (space_out pre))"
proof (induction "length rest" arbitrary: pre rest rule: less_induct)
  case less
  note cut = cut_atD [OF less.prems]
  have later: "strip_from (pre @ rest) (length (pre @ x)) =
      strip_scan (space_out (pre @ rest)) (length (space_out pre @ space_out x))"
    if x: "rest = x @ w" "x \<noteq> []" "cut_at x w" for x w
  proof -
    have prems: "cut_at pre (x @ w)" using less.prems x(1) by simp
    have "space_out (pre @ x) = space_out pre @ space_out x"
      using prems unfolding cut_at_def by metis
    then show ?thesis
      using less.hyps [of w "pre @ x"] cut_at_trans [OF prems x(3)] x(1,2) by simp
  qed
  show ?case
  proof (cases rest)
    case Nil
    then show ?thesis by (subst strip_from.simps, subst strip_scan.simps) simp
  next
    case (Cons c w)
    have here: "length pre < length (pre @ rest)" using Cons by simp
    consider "c = lt_char" "gt_char \<notin> set w" | b r where "c = lt_char" "w = b @ gt_char # r" "gt_char \<notin> set b"
      | n where "c = amp_char" "space_entity_len rest = Some n" | "c = amp_char" "space_entity_len rest = None"
      | "c \<noteq> lt_char" "c \<noteq> amp_char"
      by (cases "c = lt_char"; cases "c = amp_char"; cases "space_entity_len rest") (auto dest: split_list_first)
    then show ?thesis
    proof cases
      case 1
      then have "space_out (pre @ rest) = space_out pre @ lt_char # space_out w" "gt_char \<notin> set (space_out w)"
        using cut Cons by (simp_all add: space_out_char space_out_mem)
      then show ?thesis
        using later [of "[lt_char]" w] 1 Cons here cut_at_solid [of lt_char "[]" w]
        by (subst strip_from.simps) (simp add: html_markup_at strip_scan_at char_index_None [THEN iffD2] space_out_char)
    next
      case 2
      let ?x = "lt_char # b @ [gt_char]"
      have out: "space_out (pre @ rest) = space_out pre @ lt_char # space_out b @ gt_char # space_out r"
        "space_out ?x = lt_char # space_out b @ [gt_char]" "gt_char \<notin> set (space_out b)"
        using cut Cons 2 space_out_solid [of gt_char b "[]"]
        by (simp_all add: space_out_char space_out_mem space_out_solid)
      have judged: "tag_breaks_word (pre @ rest) (length pre) (length pre + 1 + length b) =
          tag_breaks_word (space_out (pre @ rest)) (length (space_out pre)) (length (space_out pre) + 1 + length (space_out b))"
      proof -
        have "tag_breaks_word (pre @ rest) (length pre) (length pre + 1 + length b) = breaks_word pre b r"
          unfolding Cons 2 by (rule tag_breaks_split)
        also have "\<dots> = breaks_word (space_out pre) (space_out b) (space_out r)"
          by (rule breaks_word_space_out [symmetric])
        also have "\<dots> = tag_breaks_word (space_out (pre @ rest)) (length (space_out pre))
            (length (space_out pre) + 1 + length (space_out b))"
          unfolding out by (rule tag_breaks_split [symmetric])
        finally show ?thesis .
      qed
      have "cut_at ?x r" using cut_at_solid [of gt_char "lt_char # b" r] by simp
      then have "strip_from (pre @ rest) (length pre + length b + 2) =
          strip_scan (space_out (pre @ rest)) (length (space_out pre) + length (space_out b) + 2)"
        using later [of ?x r] Cons 2 out by simp
      then show ?thesis
        using here judged Cons 2 out
        by (subst strip_from.simps) (simp add: html_markup_at strip_scan_at char_index_split)
    next
      case 3
      obtain x w' where x: "rest = x @ w'" "length x = n" "cut_at x w'" "space_out x = [space_char]"
        using 3(2) by (rule cut_at_entity)
      have "x \<noteq> []" using x(4) by auto
      then have next_cut: "strip_from (pre @ rest) (length pre + n) =
          strip_scan (space_out (pre @ rest)) (length (space_out pre) + 1)"
        using later [OF x(1) _ x(3)] x by simp
      have "space_out (pre @ rest) = space_out pre @ space_char # space_out w'"
        using cut cut_atD [OF x(3)] x by simp
      then have "strip_scan (space_out (pre @ rest)) (length (space_out pre)) =
          space_char # strip_scan (space_out (pre @ rest)) (length (space_out pre) + 1)"
        by (simp add: strip_scan_at)
      then show ?thesis
        using here next_cut 3 Cons by (subst strip_from.simps) (simp add: html_markup_at)
    next
      case 4
      have out: "space_out (pre @ rest) = space_out pre @ amp_char # space_out w"
        using cut Cons 4 by (simp add: space_out.simps(2))
      have amp: "space_out [amp_char] = [amp_char]"
        by (simp add: space_out.simps(2) space_entity_len_def SPACE_ENTITIES_def ascii_def starts_with_def)
      have cut_amp: "cut_at [amp_char] w" using 4 Cons by (intro cut_at_char) simp
      have step: "strip_from (pre @ rest) (length pre + 1) =
          strip_scan (space_out (pre @ rest)) (length (space_out pre) + 1)"
        using later [of "[amp_char]" w] cut_amp Cons 4 amp by simp
      have w: "drop (length pre + 1) (pre @ rest) = w" using Cons by simp
      have semi: "case find_semi (pre @ rest) (length pre + 1) of
          None \<Rightarrow> semi_char \<notin> set (space_out w)
        | Some k \<Rightarrow> (\<exists>u r. w = u @ semi_char # r \<and> k = length pre + 1 + length u \<and>
            semi_char \<notin> set (space_out u) \<and> cut_at (u @ [semi_char]) r \<and>
            space_out (u @ [semi_char]) = space_out u @ [semi_char])"
        by (rule find_semi_space_out [of "length pre + 1" "pre @ rest", unfolded w]) (use here in \<open>simp add: Suc_le_eq\<close>)
      show ?thesis
      proof (cases "find_semi (pre @ rest) (length pre + 1)")
        case None
        then have "char_index semi_char (space_out w) = None" using semi by (simp add: char_index_None)
        then show ?thesis
          using here None step out 4 Cons by (subst strip_from.simps) (simp add: html_markup_at strip_scan_at)
      next
        case (Some k)
        then obtain u r where u: "w = u @ semi_char # r" "k = length pre + 1 + length u"
            "semi_char \<notin> set (space_out u)" "cut_at (u @ [semi_char]) r"
            "space_out (u @ [semi_char]) = space_out u @ [semi_char]"
          using semi by auto
        have "space_out w = space_out u @ semi_char # space_out r"
          using cut_atD [OF u(4)] u(1,5) by simp
        then have found: "char_index semi_char (space_out w) = Some (length (space_out u))"
          using u(3) by (simp add: char_index_split)
        have cut_u: "cut_at ([amp_char] @ (u @ [semi_char])) r"
          using cut_amp u(1) by (intro cut_at_trans [OF _ u(4)]) simp
        have "space_out ([amp_char] @ (u @ [semi_char])) = [amp_char] @ space_out (u @ [semi_char])"
          using cut_amp amp u(1) unfolding cut_at_def by (metis append_Cons append_Nil append_assoc)
        then have "strip_from (pre @ rest) (length pre + length u + 2) =
            strip_scan (space_out (pre @ rest)) (length (space_out pre) + length (space_out u) + 2)"
          using later [OF _ _ cut_u] Cons 4 u by simp
        then show ?thesis
          using here Some found step out 4 Cons u(2)
          by (subst strip_from.simps) (cases "u = []"; simp add: html_markup_at strip_scan_at Suc_le_eq)
      qed
    next
      case 5
      then have "space_out (pre @ rest) = space_out pre @ c # space_out w"
        using cut Cons by (simp add: space_out_char)
      moreover have "cut_at [c] w" using 5 by (intro cut_at_char) simp
      ultimately show ?thesis
        using later [of "[c]" w] here 5 Cons
        by (subst strip_from.simps) (simp add: html_markup_at strip_scan_at space_out_char)
    qed
  qed
qed

text \<open>C32: the one pass over a line with markup has the output of the two documented passes. On every line,
  stripping equals first turning the white space entities into spaces and then, in the spaced
  line, dropping a \<^verbatim>\<open><\<close> through the next \<^verbatim>\<open>>\<close>, with a space where the tag separates words, and an \<^verbatim>\<open>&\<close>
  through the next \<^verbatim>\<open>;\<close> that is not right after it, and keeping every other char, a \<^verbatim>\<open><\<close> or \<^verbatim>\<open>&\<close> that is not
  terminated included. This holds although the judgement of a \<^verbatim>\<open>sup\<close> or \<^verbatim>\<open>sub\<close> tag reads the unspaced text on
  both sides of it, and a white space entity inside another entity hides its own \<^verbatim>\<open>;\<close>.
\<close>

theorem strip_is_two_passes: "strip_html_for_indexing s = strip_scan (space_out s) 0"
proof -
  have "cut_at [] s" by (simp add: cut_at_def)
  then show ?thesis using strip_passes_agree [of "[]" s] by (simp add: strip_html_from)
qed

text \<open>The ranges of the pieces.\<close>

definition range_ok :: "ustr \<Rightarrow> nat \<Rightarrow> piece \<Rightarrow> bool" where
  "range_ok s low p \<longleftrightarrow>
     (case p of ((a, b), out) \<Rightarrow>
        low \<le> a \<and> a \<le> b \<and> b \<le> length s \<and>
        (out = text_slice s a b \<or> s ! a \<in> {lt_char, amp_char} \<and> out \<in> {[space_char], [lt_char], [amp_char]}))"

lemma html_markup_replacement:
  "html_markup s i = Some (r, nx) \<Longrightarrow> s ! i \<in> {lt_char, amp_char} \<and> r \<in> {[], [space_char], [lt_char], [amp_char]}"
  by (auto simp: html_markup_def split: if_splits option.splits)

lemma pieces_from_ranges:
  "copied \<le> i \<Longrightarrow> i \<le> length s \<Longrightarrow>
    (\<forall>p \<in> set (pieces_from s copied i). range_ok s copied p) \<and>
    sorted_wrt (\<lambda>p q. snd (fst p) \<le> fst (fst q)) (pieces_from s copied i)"
proof (induction s copied i rule: pieces_from.induct)
  case (1 s copied i)
  show ?case
  proof (cases "i < length s")
    case False
    then show ?thesis
      using 1(3,4) by (subst (1 2) pieces_from.simps) (auto simp: range_ok_def text_slice_def)
  next
    case True
    show ?thesis
    proof (cases "html_markup s i")
      case None
      then show ?thesis
        using True 1(1) [OF True None] 1(3) by (subst (1 2) pieces_from.simps) simp
    next
      case (Some m)
      obtain r nx where m: "html_markup s i = Some (r, nx)" using Some by (cases m) auto
      have nx: "i < nx" "nx \<le> length s" using html_markup_gt [OF m] html_markup_le [OF m True] .
      have rest: "(\<forall>p \<in> set (pieces_from s nx nx). range_ok s nx p) \<and>
          sorted_wrt (\<lambda>p q. snd (fst p) \<le> fst (fst q)) (pieces_from s nx nx)"
        using 1(2) [OF True m refl] nx by simp
      have later: "range_ok s copied p" "nx \<le> fst (fst p)" if "p \<in> set (pieces_from s nx nx)" for p
        using rest that nx 1(3) by (cases p; auto simp: range_ok_def)+
      define before where "before = (if copied < i then [((copied, i), text_slice s copied i)] else [])"
      define here where "here = (if r \<noteq> [] then [((i, nx), r)] else [])"
      have here: "pieces_from s copied i = before @ here @ pieces_from s nx nx"
        using True m by (subst pieces_from.simps) (simp add: before_def here_def)
      have "\<forall>p \<in> set (before @ here). range_ok s copied p \<and> snd (fst p) \<le> nx"
        using True nx 1(3) html_markup_replacement [OF m] by (auto simp: before_def here_def range_ok_def)
      moreover have "sorted_wrt (\<lambda>p q. snd (fst p) \<le> fst (fst q)) (before @ here)"
        by (simp add: before_def here_def)
      ultimately show ?thesis
        unfolding here using rest later
        by (auto simp: sorted_wrt_append simp flip: append_assoc intro: order_trans)
    qed
  qed
qed

text \<open>The pieces a line is streamed in keep the offsets of the line. On every line the ranges of the
  pieces ascend, do not overlap and stay within the line, and every piece is the line's own text
  over its range, or a single char standing for the markup that starts there, so that an
  annotation of the stripped text can be carried back to the line.
\<close>

theorem piece_ranges:
  "list_all (range_ok s 0) (html_pieces_at s) \<and>
   sorted_wrt (\<lambda>p q. snd (fst p) \<le> fst (fst q)) (html_pieces_at s)"
  using pieces_from_ranges [of 0 0 s]
  by (auto simp: html_pieces_at_def list_all_iff range_ok_def text_slice_def)

end
