(* ===== verification/LineNormal.thy ===== *)
theory LineNormal
  imports HtmlStrip
begin

section \<open>The text a line is indexed as\<close>

text \<open>
  \<^verbatim>\<open>hebrew_query.rs\<close>: every line goes through one pass that strips HTML, folds presentation forms,
  drops attached marks and collapses white space, with a fast path for runs of bytes that all of
  that leaves alone. Proved: the pass is the composition of its steps (the reference
  \<open>fold_strip_collapse\<close>), the two texts of a line come out of one pass as they come out of two, and
  the result is the words of the text joined by single spaces.
\<close>

subsection \<open>Collapsed white space\<close>

record collapsed =
  out :: ustr
  pending_space :: bool

definition collapsed_new :: collapsed where
  "collapsed_new = \<lparr>out = [], pending_space = False\<rparr>"

definition push_char :: "uchar \<Rightarrow> collapsed \<Rightarrow> collapsed" where
  "push_char c s =
     (if is_whitespace c then (if out s \<noteq> [] then s\<lparr>pending_space := True\<rparr> else s)
      else \<lparr>out = out s @ (if pending_space s then [space_char] else []) @ [c], pending_space = False\<rparr>)"

definition push_plain :: "ustr \<Rightarrow> collapsed \<Rightarrow> collapsed" where
  "push_plain run s = \<lparr>out = out s @ (if pending_space s then [space_char] else []) @ run, pending_space = False\<rparr>"

subsection \<open>Plain runs\<close>

text \<open>\<^verbatim>\<open>plain_run_len\<close> accepts the bytes 0x21 to 0x7E and the pairs D7 88 to D7 BF, the chars
  U+05C8 to U+05FF.\<close>

definition is_plain :: "uchar \<Rightarrow> bool" where
  "is_plain c \<longleftrightarrow> 0x21 \<le> c \<and> c \<le> 0x7E \<or> 0x05C8 \<le> c \<and> c \<le> 0x05FF"

definition plain_run :: "ustr \<Rightarrow> ustr" where
  "plain_run s = takeWhile is_plain s"

text \<open>\<^verbatim>\<open>for_each_run\<close>: \<open>run\<close> and \<open>other\<close> update the state.\<close>

function for_each_run :: "(ustr \<Rightarrow> 's \<Rightarrow> 's) \<Rightarrow> (uchar \<Rightarrow> 's \<Rightarrow> 's) \<Rightarrow> ustr \<Rightarrow> 's \<Rightarrow> 's" where
  "for_each_run run other piece st =
     (case piece of
        [] \<Rightarrow> st
      | c # rest \<Rightarrow>
          if plain_run piece \<noteq> [] then for_each_run run other (drop (length (plain_run piece)) piece) (run (plain_run piece) st)
          else for_each_run run other rest (other c st))"
  by pat_completeness auto
termination
  by (relation "measure (\<lambda>(run, other, piece, st). length piece)") auto

declare for_each_run.simps [simp del]

definition for_each_folded :: "(uchar \<Rightarrow> 's \<Rightarrow> 's) \<Rightarrow> uchar \<Rightarrow> 's \<Rightarrow> 's" where
  "for_each_folded f c st = (case fold_presentation_form c of Some folded \<Rightarrow> fold f folded st | None \<Rightarrow> f c st)"

subsection \<open>The passes\<close>

definition push_unless :: "bool \<Rightarrow> uchar \<Rightarrow> collapsed \<Rightarrow> collapsed" where
  "push_unless strip_marks c s = (if strip_marks \<and> is_attached_mark c then s else push_char c s)"

definition normalize_one_pass :: "ustr \<Rightarrow> bool \<Rightarrow> (uchar \<Rightarrow> bool) \<Rightarrow> ustr" where
  "normalize_one_pass inp strip_marks drops =
     out (fold (for_each_run push_plain
         (\<lambda>c s. if drops c then s else for_each_folded (push_unless strip_marks) c s))
       (html_pieces inp) collapsed_new)"

definition normalize_text_for_indexing :: "ustr \<Rightarrow> ustr" where
  "normalize_text_for_indexing inp = normalize_one_pass inp True (\<lambda>_. False)"

definition normalize_vocalized_text_for_indexing :: "ustr \<Rightarrow> ustr" where
  "normalize_vocalized_text_for_indexing inp = normalize_one_pass inp False (\<lambda>_. False)"

definition normalize_pdf_text_for_indexing :: "ustr \<Rightarrow> ustr" where
  "normalize_pdf_text_for_indexing inp = normalize_one_pass inp True is_invisible_char"

definition normalize_line_for_indexing :: "ustr \<Rightarrow> ustr \<times> ustr option" where
  "normalize_line_for_indexing inp =
     (if \<not> contains_attached_marks inp then (normalize_one_pass inp True (\<lambda>_. False), None)
      else
        (let (plain, vocalized) =
           fold (for_each_run (\<lambda>run (p, v). (push_plain run p, push_plain run v))
               (for_each_folded (\<lambda>c (p, v). (if is_attached_mark c then p else push_char c p, push_char c v))))
             (html_pieces inp) (collapsed_new, collapsed_new)
         in (out plain, if out vocalized = [] then None else Some (out vocalized))))"

text \<open>The reference of the code's tests: char by char, over text already stripped of HTML.\<close>

definition emit :: "bool \<Rightarrow> uchar \<Rightarrow> ustr \<times> bool \<Rightarrow> ustr \<times> bool" where
  "emit strip_marks c = (\<lambda>(acc, pending).
     if strip_marks \<and> is_attached_mark c then (acc, pending)
     else if is_whitespace c then (if acc \<noteq> [] then (acc, True) else (acc, pending))
     else (if pending then (acc @ [space_char, c], False) else (acc @ [c], pending)))"

definition fold_strip_collapse :: "ustr \<Rightarrow> bool \<Rightarrow> (uchar \<Rightarrow> bool) \<Rightarrow> ustr" where
  "fold_strip_collapse s strip_marks drops =
     fst (fold (\<lambda>c st. if drops c then st
         else (case fold_presentation_form c of
             Some folded \<Rightarrow> fold (emit strip_marks) folded st
           | None \<Rightarrow> emit strip_marks c st)) s ([], False))"

subsection \<open>Plain runs change nothing\<close>

lemma plain_facts:
  assumes "is_plain c"
  shows "fold_presentation_form c = None" "\<not> is_attached_mark c" "\<not> is_whitespace c" "\<not> is_invisible_char c"
  using assms by (auto simp: is_plain_def is_attached_mark_def is_whitespace_def is_invisible_char_def
      intro!: fold_presentation_form_below)

lemma push_plain_fold:
  "run \<noteq> [] \<Longrightarrow> list_all is_plain run \<Longrightarrow> push_plain run s = fold push_char run s"
proof (induction run arbitrary: s)
  case (Cons c run)
  then have c: "is_plain c" "list_all is_plain run" by simp_all
  show ?case
  proof (cases "run = []")
    case True
    then show ?thesis using plain_facts[OF c(1)] by (simp add: push_plain_def push_char_def)
  next
    case False
    then have "fold push_char run (push_char c s) = push_plain run (push_char c s)" using Cons.IH c(2) by simp
    moreover have "push_plain run (push_char c s) = push_plain (c # run) s"
      using plain_facts[OF c(1)] by (simp add: push_plain_def push_char_def)
    ultimately show ?thesis by simp
  qed
qed simp

lemma plain_run_all: "list_all is_plain (plain_run s)"
  by (auto simp: plain_run_def list_all_iff dest: set_takeWhileD)

lemma plain_run_split: "plain_run s @ drop (length (plain_run s)) s = s"
  unfolding plain_run_def by (metis dropWhile_eq_drop takeWhile_dropWhile_id)

text \<open>Runs and single chars together are a fold over the chars, when \<open>run\<close> is the fold of \<open>step\<close>.\<close>

lemma for_each_run_fold:
  assumes "\<And>r st. r \<noteq> [] \<Longrightarrow> list_all is_plain r \<Longrightarrow> run r st = fold other r st"
  shows "for_each_run run other piece st = fold other piece st"
proof (induction piece arbitrary: st rule: length_induct)
  case (1 piece)
  show ?case
  proof (cases piece)
    case (Cons c rest)
    show ?thesis
    proof (cases "plain_run piece = []")
      case True
      then have "for_each_run run other piece st = for_each_run run other rest (other c st)"
        using Cons by (subst for_each_run.simps) simp
      then show ?thesis using 1 Cons by simp
    next
      case False
      let ?r = "plain_run piece" and ?d = "drop (length (plain_run piece)) piece"
      have "for_each_run run other piece st = for_each_run run other ?d (run ?r st)"
        using Cons False by (subst for_each_run.simps) simp
      also have "\<dots> = fold other ?d (fold other ?r st)"
        using 1 False Cons assms[OF False plain_run_all] by simp
      also have "\<dots> = fold other (?r @ ?d) st" by simp
      finally show ?thesis by (simp only: plain_run_split)
    qed
  qed (simp add: for_each_run.simps)
qed

lemma fold_pieces: "fold (\<lambda>p. fold f p) ps st = fold f (concat ps) st"
  by (induction ps arbitrary: st) simp_all

subsection \<open>The steps of the pass\<close>

definition fold_char :: "uchar \<Rightarrow> ustr" where
  "fold_char c = (case fold_presentation_form c of Some folded \<Rightarrow> folded | None \<Rightarrow> [c])"

text \<open>What a text is before its white space is collapsed.\<close>

definition kept :: "bool \<Rightarrow> (uchar \<Rightarrow> bool) \<Rightarrow> ustr \<Rightarrow> ustr" where
  "kept strip_marks drops s =
     filter (\<lambda>c. \<not> (strip_marks \<and> is_attached_mark c)) (fold_presentation_forms (filter (\<lambda>c. \<not> drops c) s))"

lemma kept_append: "kept m d (s @ t) = kept m d s @ kept m d t"
  by (simp add: kept_def)

lemma kept_Cons: "kept m d (c # s) = (if d c then [] else filter (\<lambda>c. \<not> (m \<and> is_attached_mark c)) (fold_char c)) @ kept m d s"
  by (simp add: kept_def fold_presentation_forms_loop fold_char_def)

lemma kept_Nil: "kept m d [] = []"
  by (simp add: kept_def fold_presentation_forms_loop)

lemma fold_unless: "fold (push_unless m) s st = fold push_char (filter (\<lambda>c. \<not> (m \<and> is_attached_mark c)) s) st"
  by (induction s arbitrary: st) (auto simp: push_unless_def)

lemma fold_kept:
  "fold (\<lambda>c s. if drops c then s else for_each_folded (push_unless m) c s) inp st = fold push_char (kept m drops inp) st"
proof (induction inp arbitrary: st)
  case (Cons c inp)
  have "for_each_folded (push_unless m) c st = fold push_char (filter (\<lambda>c. \<not> (m \<and> is_attached_mark c)) (fold_char c)) st"
    using fold_unless[of m "fold_char c" st]
    by (cases "fold_presentation_form c") (simp_all add: for_each_folded_def fold_char_def)
  then show ?case using Cons by (simp add: kept_Cons)
qed (simp add: kept_Nil)

lemma plain_kept: "list_all is_plain r \<Longrightarrow> \<forall>c. is_plain c \<longrightarrow> \<not> d c \<Longrightarrow> kept m d r = r"
  by (induction r) (auto simp: kept_Nil kept_Cons fold_char_def plain_facts)

lemma normalize_one_pass_eq:
  assumes "\<forall>c. is_plain c \<longrightarrow> \<not> drops c"
  shows "normalize_one_pass inp m drops = out (fold push_char (kept m drops (strip_html_for_indexing inp)) collapsed_new)"
proof -
  let ?other = "\<lambda>c s. if drops c then s else for_each_folded (push_unless m) c s"
  have "push_plain r st = fold ?other r st" if "r \<noteq> []" "list_all is_plain r" for r st
    unfolding fold_kept plain_kept[OF that(2) assms] by (rule push_plain_fold[OF that])
  then have "for_each_run push_plain ?other = fold ?other" by (intro ext for_each_run_fold)
  then show ?thesis
    by (simp only: normalize_one_pass_def fold_pieces fold_kept strip_html_for_indexing_def)
qed

text \<open>The reference yields the same.\<close>

lemma emit_push:
  "emit m c (out s, pending_space s) = (out (push_unless m c s), pending_space (push_unless m c s))"
  by (auto simp: emit_def push_unless_def push_char_def)

lemma fold_emit:
  "fold (emit m) cs (out s, pending_space s) = (out (fold (push_unless m) cs s), pending_space (fold (push_unless m) cs s))"
  by (induction cs arbitrary: s) (simp_all add: emit_push)

lemma fold_strip_collapse_eq: "fold_strip_collapse s m drops = out (fold push_char (kept m drops s) collapsed_new)"
proof -
  have "fold (\<lambda>c st. if drops c then st
         else (case fold_presentation_form c of Some folded \<Rightarrow> fold (emit m) folded st | None \<Rightarrow> emit m c st)) s (out t, pending_space t) =
     (out (fold push_char (kept m drops s) t), pending_space (fold push_char (kept m drops s) t))" for t
  proof (induction s arbitrary: t)
    case (Cons c s)
    show ?case
    proof (cases "drops c")
      case False
      have "(case fold_presentation_form c of Some folded \<Rightarrow> fold (emit m) folded (out t, pending_space t)
          | None \<Rightarrow> emit m c (out t, pending_space t)) =
        (out (fold (push_unless m) (fold_char c) t), pending_space (fold (push_unless m) (fold_char c) t))"
        by (simp add: fold_char_def fold_emit emit_push split: option.split)
      then show ?thesis using Cons False by (simp add: kept_Cons fold_unless)
    qed (use Cons in \<open>simp add: kept_Cons\<close>)
  qed (simp add: kept_Nil)
  from this[of collapsed_new] show ?thesis by (simp add: fold_strip_collapse_def collapsed_new_def)
qed

lemma normalize_reference:
  "(\<forall>c. is_plain c \<longrightarrow> \<not> drops c) \<Longrightarrow> normalize_one_pass inp m drops = fold_strip_collapse (strip_html_for_indexing inp) m drops"
  by (simp add: normalize_one_pass_eq fold_strip_collapse_eq)

lemma plain_not_invisible: "\<forall>c. is_plain c \<longrightarrow> \<not> is_invisible_char c"
  using plain_facts by blast

text \<open>The one pass for both texts is the two passes.\<close>

lemma fold_both:
  "fold (for_each_folded (\<lambda>c (p, v). (if is_attached_mark c then p else push_char c p, push_char c v))) s (p, v) =
     (fold push_char (kept True (\<lambda>_. False) s) p, fold push_char (kept False (\<lambda>_. False) s) v)"
proof (induction s arbitrary: p v)
  case (Cons c s)
  have step: "fold (\<lambda>c (p, v). (if is_attached_mark c then p else push_char c p, push_char c v)) cs (p, v) =
      (fold push_char (filter (\<lambda>c. \<not> is_attached_mark c) cs) p, fold push_char cs v)" for cs p v
    by (induction cs arbitrary: p v) auto
  have "for_each_folded (\<lambda>c (p, v). (if is_attached_mark c then p else push_char c p, push_char c v)) c (p, v) =
      (fold push_char (filter (\<lambda>c. \<not> is_attached_mark c) (fold_char c)) p, fold push_char (fold_char c) v)"
    using step[of "fold_char c" p v]
    by (cases "fold_presentation_form c") (simp_all add: for_each_folded_def fold_char_def)
  then show ?case using Cons by (simp add: kept_Cons)
qed (simp add: kept_Nil)

lemma normalize_line_eq:
  "normalize_line_for_indexing inp =
     (normalize_text_for_indexing inp,
      if contains_attached_marks inp \<and> normalize_vocalized_text_for_indexing inp \<noteq> []
      then Some (normalize_vocalized_text_for_indexing inp) else None)"
proof (cases "contains_attached_marks inp")
  case True
  let ?other = "for_each_folded (\<lambda>c (p, v). (if is_attached_mark c then p else push_char c p, push_char c v))"
  have "(\<lambda>(p, v). (push_plain r p, push_plain r v)) st = fold ?other r st" if "r \<noteq> []" "list_all is_plain r" for r st
    using plain_kept[OF that(2), of "\<lambda>_. False"] push_plain_fold[OF that]
    by (cases st) (simp add: fold_both)
  then have "for_each_run (\<lambda>run (p, v). (push_plain run p, push_plain run v)) ?other = fold ?other"
    by (intro ext for_each_run_fold)
  then have "fold (for_each_run (\<lambda>run (p, v). (push_plain run p, push_plain run v)) ?other) (html_pieces inp) (collapsed_new, collapsed_new) =
      (fold push_char (kept True (\<lambda>_. False) (strip_html_for_indexing inp)) collapsed_new,
       fold push_char (kept False (\<lambda>_. False) (strip_html_for_indexing inp)) collapsed_new)"
    by (simp only: fold_pieces fold_both strip_html_for_indexing_def)
  then show ?thesis using True
    by (simp add: normalize_line_for_indexing_def normalize_text_for_indexing_def
        normalize_vocalized_text_for_indexing_def normalize_one_pass_eq)
qed (simp add: normalize_line_for_indexing_def normalize_text_for_indexing_def)

subsection \<open>The words of the text\<close>

text \<open>The words between white space, and words joined by single spaces.\<close>

function ws_words :: "ustr \<Rightarrow> ustr list" where
  "ws_words s =
     (case dropWhile is_whitespace s of
        [] \<Rightarrow> []
      | c # t \<Rightarrow> (c # takeWhile (\<lambda>d. \<not> is_whitespace d) t) # ws_words (dropWhile (\<lambda>d. \<not> is_whitespace d) t))"
  by pat_completeness auto
termination
proof (relation "measure length", simp)
  fix s c t assume "dropWhile is_whitespace s = c # t"
  then have "length t < length s" using length_dropWhile_le[of is_whitespace s] by simp
  then show "(dropWhile (\<lambda>d. \<not> is_whitespace d) t, s) \<in> measure length"
    using length_dropWhile_le[of "\<lambda>d. \<not> is_whitespace d" t] by simp
qed

declare ws_words.simps [simp del]

definition spaced_words :: "ustr list \<Rightarrow> ustr" where
  "spaced_words ws = concat (map (\<lambda>w. space_char # w) ws)"

definition join_words :: "ustr list \<Rightarrow> ustr" where
  "join_words ws = (case ws of [] \<Rightarrow> [] | w # rest \<Rightarrow> w @ spaced_words rest)"

lemma ws_words_Nil [simp]: "ws_words [] = []"
  by (simp add: ws_words.simps)

lemma ws_words_ws [simp]: "is_whitespace c \<Longrightarrow> ws_words (c # s) = ws_words s"
  by (simp add: ws_words.simps[of "c # s"] ws_words.simps[of s])

lemma ws_words_word [simp]:
  "\<not> is_whitespace c \<Longrightarrow>
     ws_words (c # s) = (c # takeWhile (\<lambda>d. \<not> is_whitespace d) s) # ws_words (dropWhile (\<lambda>d. \<not> is_whitespace d) s)"
  by (simp add: ws_words.simps[of "c # s"])

fun collapse_from :: "bool \<Rightarrow> ustr \<Rightarrow> ustr" where
  "collapse_from p [] = []"
| "collapse_from p (c # s) =
     (if is_whitespace c then collapse_from True s else (if p then [space_char] else []) @ c # collapse_from False s)"

lemma fold_push_from:
  "acc \<noteq> [] \<Longrightarrow> out (fold push_char s \<lparr>out = acc, pending_space = p\<rparr>) = acc @ collapse_from p s"
  by (induction s arbitrary: acc p) (auto simp: push_char_def)

lemma collapse_from_words:
  "collapse_from p s =
     (if p then spaced_words (ws_words s)
      else takeWhile (\<lambda>d. \<not> is_whitespace d) s @ spaced_words (ws_words (dropWhile (\<lambda>d. \<not> is_whitespace d) s)))"
  by (induction s arbitrary: p) (auto simp: spaced_words_def)

lemma fold_push_words: "out (fold push_char s collapsed_new) = join_words (ws_words s)"
proof (induction s)
  case (Cons c s)
  show ?case
  proof (cases "is_whitespace c")
    case False
    then have "out (fold push_char (c # s) collapsed_new) = [c] @ collapse_from False s"
      using fold_push_from[of "[c]" s False] by (simp add: push_char_def collapsed_new_def)
    then show ?thesis using False by (simp add: collapse_from_words join_words_def)
  qed (use Cons in \<open>simp add: push_char_def collapsed_new_def\<close>)
qed (simp add: collapsed_new_def join_words_def)

text \<open>Words after a filter that keeps white space, and of joined words.\<close>

definition word_ok :: "ustr \<Rightarrow> bool" where
  "word_ok w \<longleftrightarrow> w \<noteq> [] \<and> (\<forall>c \<in> set w. \<not> is_whitespace c)"

lemma ws_words_append:
  assumes "\<forall>c \<in> set w. \<not> is_whitespace c" "s = [] \<or> is_whitespace (hd s)"
  shows "ws_words (w @ s) = (if w = [] then ws_words s else w # ws_words s)"
proof (cases w)
  case (Cons c t)
  have t: "\<forall>d \<in> set t. \<not> is_whitespace d" using assms(1) Cons by simp
  then have "takeWhile (\<lambda>d. \<not> is_whitespace d) (t @ s) = t @ takeWhile (\<lambda>d. \<not> is_whitespace d) s"
    "dropWhile (\<lambda>d. \<not> is_whitespace d) (t @ s) = dropWhile (\<lambda>d. \<not> is_whitespace d) s" by auto
  moreover have "dropWhile (\<lambda>d. \<not> is_whitespace d) s = s" "takeWhile (\<lambda>d. \<not> is_whitespace d) s = []"
    using assms(2) by (cases s; simp)+
  ultimately show ?thesis using assms(1) Cons by simp
qed simp

lemma ws_words_ok: "\<forall>w \<in> set (ws_words s). word_ok w"
proof (induction s rule: length_induct)
  case (1 s)
  show ?case
  proof (cases s)
    case (Cons c t)
    have "length (dropWhile (\<lambda>d. \<not> is_whitespace d) t) < length s"
      using length_dropWhile_le[of "\<lambda>d. \<not> is_whitespace d" t] Cons by simp
    then have "\<forall>w \<in> set (ws_words (dropWhile (\<lambda>d. \<not> is_whitespace d) t)). word_ok w" using 1 by blast
    moreover have "\<not> is_whitespace c \<Longrightarrow> word_ok (c # takeWhile (\<lambda>d. \<not> is_whitespace d) t)"
      by (auto simp: word_ok_def dest: set_takeWhileD)
    moreover have "\<forall>w \<in> set (ws_words t). word_ok w" using 1 Cons by (metis impossible_Cons not_le)
    ultimately show ?thesis using Cons by (cases "is_whitespace c") simp_all
  qed simp
qed

lemma space_is_whitespace: "is_whitespace space_char"
  by (simp add: is_whitespace_def)

lemma ws_words_spaced: "\<forall>w \<in> set ws. word_ok w \<Longrightarrow> ws_words (spaced_words ws) = ws"
proof (induction ws)
  case (Cons w ws)
  have "spaced_words ws = [] \<or> is_whitespace (hd (spaced_words ws))"
    using space_is_whitespace by (cases ws) (simp_all add: spaced_words_def)
  then have "ws_words (w @ spaced_words ws) = w # ws"
    using Cons by (subst ws_words_append) (auto simp: word_ok_def)
  then show ?case using space_is_whitespace by (simp add: spaced_words_def)
qed (simp add: spaced_words_def)

lemma ws_words_join:
  assumes "\<forall>w \<in> set ws. word_ok w" shows "ws_words (join_words ws) = ws"
proof (cases ws)
  case (Cons w rest)
  have "spaced_words rest = [] \<or> is_whitespace (hd (spaced_words rest))"
    using space_is_whitespace by (cases rest) (simp_all add: spaced_words_def)
  then show ?thesis using assms Cons ws_words_spaced[of rest]
    by (simp add: join_words_def) (subst ws_words_append, auto simp: word_ok_def)
qed (simp add: join_words_def)

lemma ws_words_filter:
  assumes "\<And>c. is_whitespace c \<Longrightarrow> P c"
  shows "ws_words (filter P s) = filter (\<lambda>w. w \<noteq> []) (map (filter P) (ws_words s))"
proof (induction s rule: length_induct)
  case (1 s)
  show ?case
  proof (cases s)
    case (Cons c t)
    show ?thesis
    proof (cases "is_whitespace c")
      case True
      then show ?thesis using 1 Cons assms by simp
    next
      case False
      let ?w = "c # takeWhile (\<lambda>d. \<not> is_whitespace d) t" and ?d = "dropWhile (\<lambda>d. \<not> is_whitespace d) t"
      have s: "s = ?w @ ?d" using Cons by simp
      have w: "\<forall>x \<in> set (filter P ?w). \<not> is_whitespace x" using False by (auto dest: set_takeWhileD)
      have d: "filter P ?d = [] \<or> is_whitespace (hd (filter P ?d))"
      proof (cases ?d)
        case (Cons e u)
        then have "is_whitespace e" using hd_dropWhile[of "\<lambda>d. \<not> is_whitespace d" t] by simp
        then show ?thesis using Cons assms by simp
      next
        case Nil
        then show ?thesis by (metis filter.simps(1))
      qed
      have "length ?d < length s" using length_dropWhile_le[of "\<lambda>d. \<not> is_whitespace d" t] Cons by simp
      then have "ws_words (filter P ?d) = filter (\<lambda>w. w \<noteq> []) (map (filter P) (ws_words ?d))" using 1 by blast
      moreover have "ws_words (filter P s) = (if filter P ?w = [] then ws_words (filter P ?d) else filter P ?w # ws_words (filter P ?d))"
        by (subst s) (simp only: filter_append ws_words_append[OF w d])
      moreover have "ws_words s = ?w # ws_words ?d" using Cons False by simp
      ultimately show ?thesis by simp
    qed
  qed simp
qed

subsection \<open>The properties\<close>

text \<open>C33: the one pass is the composition of its steps, for each of the three texts, and a line's two
  texts are the two normalizations: the fast path for plain runs and the shared pass change nothing.\<close>

theorem normalization_parity:
  "normalize_text_for_indexing inp = fold_strip_collapse (strip_html_for_indexing inp) True (\<lambda>_. False) \<and>
   normalize_vocalized_text_for_indexing inp = fold_strip_collapse (strip_html_for_indexing inp) False (\<lambda>_. False) \<and>
   normalize_pdf_text_for_indexing inp = fold_strip_collapse (strip_html_for_indexing inp) True is_invisible_char \<and>
   normalize_line_for_indexing inp =
     (fold_strip_collapse (strip_html_for_indexing inp) True (\<lambda>_. False),
      if contains_attached_marks inp \<and> fold_strip_collapse (strip_html_for_indexing inp) False (\<lambda>_. False) \<noteq> []
      then Some (fold_strip_collapse (strip_html_for_indexing inp) False (\<lambda>_. False)) else None)"
  using plain_not_invisible
  by (simp add: normalize_line_eq normalize_text_for_indexing_def normalize_vocalized_text_for_indexing_def
      normalize_pdf_text_for_indexing_def normalize_reference)

lemma kept_all: "kept True (\<lambda>_. False) s = strip_attached_marks (fold_presentation_forms s)"
  "kept False (\<lambda>_. False) s = fold_presentation_forms s"
  by (simp_all add: kept_def strip_attached_marks_def)

lemma whitespace_not_mark: "is_whitespace c \<Longrightarrow> \<not> is_attached_mark c"
  by (auto simp: is_whitespace_def is_attached_mark_def)

lemma plain_from_vocalized:
  "join_words (ws_words (strip_attached_marks (join_words (ws_words s)))) = join_words (ws_words (strip_attached_marks s))"
  unfolding strip_attached_marks_def
  using whitespace_not_mark by (simp add: ws_words_filter ws_words_join ws_words_ok)

lemma ws_words_chars: "\<forall>w \<in> set (ws_words s). set w \<subseteq> set s"
proof (induction s rule: length_induct)
  case (1 s)
  show ?case
  proof (cases s)
    case (Cons c t)
    let ?d = "dropWhile (\<lambda>d. \<not> is_whitespace d) t"
    have "length ?d < length s" "length t < length s"
      using length_dropWhile_le[of "\<lambda>d. \<not> is_whitespace d" t] Cons by simp_all
    then have "\<forall>w \<in> set (ws_words ?d). set w \<subseteq> set ?d" "\<forall>w \<in> set (ws_words t). set w \<subseteq> set t" using 1 by blast+
    moreover have "set ?d \<subseteq> set t" by (meson set_dropWhileD subsetI)
    ultimately show ?thesis using Cons
      by (cases "is_whitespace c") (auto dest: set_takeWhileD)
  qed simp
qed

lemma join_words_chars: "set (join_words ws) \<subseteq> insert space_char (\<Union> (set ` set ws))"
  by (cases ws) (auto simp: join_words_def spaced_words_def)

text \<open>C34: a normalized text is the words of the line, folded and without its attached marks (which the
  vocalized text keeps), joined by single spaces. The plain text is the vocalized one without its
  marks, normalizing the plain text's chars again changes nothing, and no mark is left in it.\<close>

theorem normalized_words:
  "normalize_text_for_indexing inp =
     join_words (ws_words (strip_attached_marks (fold_presentation_forms (strip_html_for_indexing inp)))) \<and>
   normalize_vocalized_text_for_indexing inp = join_words (ws_words (fold_presentation_forms (strip_html_for_indexing inp))) \<and>
   normalize_text_for_indexing inp = join_words (ws_words (strip_attached_marks (normalize_vocalized_text_for_indexing inp))) \<and>
   join_words (ws_words (normalize_text_for_indexing inp)) = normalize_text_for_indexing inp \<and>
   \<not> contains_attached_marks (normalize_text_for_indexing inp)"
proof -
  let ?s = "fold_presentation_forms (strip_html_for_indexing inp)"
  have plain: "normalize_text_for_indexing inp = join_words (ws_words (strip_attached_marks ?s))"
    by (simp add: normalize_text_for_indexing_def normalize_one_pass_eq fold_push_words kept_all)
  have vocalized: "normalize_vocalized_text_for_indexing inp = join_words (ws_words ?s)"
    by (simp add: normalize_vocalized_text_for_indexing_def normalize_one_pass_eq fold_push_words kept_all)
  have "c \<in> set (strip_attached_marks ?s) \<or> c = space_char" if "c \<in> set (join_words (ws_words (strip_attached_marks ?s)))" for c
    using that join_words_chars[of "ws_words (strip_attached_marks ?s)"] ws_words_chars[of "strip_attached_marks ?s"] by fastforce
  then have "\<not> contains_attached_marks (normalize_text_for_indexing inp)"
    unfolding plain contains_attached_marks_def
    using whitespace_not_mark[OF space_is_whitespace] by (fastforce simp: strip_attached_marks_def)
  then show ?thesis unfolding plain vocalized by (simp add: plain_from_vocalized ws_words_join ws_words_ok)
qed

text \<open>A line whose marks stand inside presentation forms only has no vocalized text, although its
  vocalized normalization carries marks: the shin with its dot, U+FB2A.\<close>

lemma presentation_marks_only:
  "normalize_line_for_indexing [0xFB2A] = ([0x05E9], None) \<and>
   normalize_vocalized_text_for_indexing [0xFB2A] = [0x05E9, 0x05C1]"
proof -
  have "strip_html_for_indexing [0xFB2A] = [0xFB2A]"
    by (simp add: strip_html_for_indexing_def html_pieces_def html_pieces_at_def)
  moreover have "fold_presentation_forms [0xFB2A] = [0x05E9, 0x05C1]"
    by (simp add: fold_presentation_forms_loop fold_presentation_form_def presentation_table_def)
  moreover have "\<not> contains_attached_marks [0xFB2A]" by (simp add: contains_attached_marks_def is_attached_mark_def)
  ultimately show ?thesis
    by (simp add: normalize_line_eq normalize_text_for_indexing_def normalize_vocalized_text_for_indexing_def
        normalize_one_pass_eq kept_all strip_attached_marks_def is_attached_mark_def
        is_whitespace_def push_char_def collapsed_new_def)
qed

end
