(* ===== verification/WordPatterns.thy ===== *)
theory WordPatterns
  imports Prelude
begin

section \<open>Patterns of a query word\<close>

text \<open>
  \<^verbatim>\<open>hebrew_query.rs\<close>: the regular expression of a word is compiled branch by branch, so a pattern
  given as a string is split at its top-level alternation, after one group around all of it has
  been taken off. A scanner follows escapes, groups and character classes.

  Patterns have a small syntax here (\<open>regex_atom\<close>, \<open>show_atom\<close>): literals, escapes, classes and groups;
  repetition signs are literals of it. Proved: on every pattern of that syntax the splitter
  yields exactly the branches as they were written, and joining branches into one pattern and
  parsing it again gives them back. The syntax leaves out classes made of escapes alone, such as \<^verbatim>\<open>[\d]\<close>:
  the scanner never leaves them, and \<open>escaped_class_splits\<close> shows what that does.
\<close>

abbreviation ch_open :: uchar where "ch_open \<equiv> 0x28"
abbreviation ch_close :: uchar where "ch_close \<equiv> 0x29"
abbreviation ch_bar :: uchar where "ch_bar \<equiv> 0x7C"
abbreviation ch_lbracket :: uchar where "ch_lbracket \<equiv> 0x5B"
abbreviation ch_rbracket :: uchar where "ch_rbracket \<equiv> 0x5D"
abbreviation ch_caret :: uchar where "ch_caret \<equiv> 0x5E"
abbreviation ch_backslash :: uchar where "ch_backslash \<equiv> 0x5C"
abbreviation ch_question :: uchar where "ch_question \<equiv> 0x3F"
abbreviation ch_colon :: uchar where "ch_colon \<equiv> 0x3A"

subsection \<open>The scanner\<close>

record char_class_scanner =
  in_class :: bool
  class_index :: nat
  negated :: bool

definition scanner_default :: char_class_scanner where
  "scanner_default = \<lparr>in_class = False, class_index = 0, negated = False\<rparr>"

text \<open>\<^verbatim>\<open>consume_inside\<close>: whether the char was consumed, and the scanner after it.\<close>

definition consume_inside :: "uchar \<Rightarrow> char_class_scanner \<Rightarrow> bool \<times> char_class_scanner" where
  "consume_inside ch s =
     (if \<not> in_class s then (False, s)
      else
        (let s' = (if class_index s = 0 \<and> ch = ch_caret then s\<lparr>negated := True\<rparr>
                   else if ch = ch_rbracket \<and> (if negated s then 1 else 0) < class_index s then s\<lparr>in_class := False\<rparr>
                   else s)
         in (True, s'\<lparr>class_index := class_index s' + 1\<rparr>)))"

definition open_class :: "char_class_scanner \<Rightarrow> char_class_scanner" where
  "open_class s = s\<lparr>in_class := True, class_index := 0, negated := False\<rparr>"

text \<open>The position at which the group opened by the first char closes.\<close>

fun group_end :: "int \<Rightarrow> bool \<Rightarrow> char_class_scanner \<Rightarrow> nat \<Rightarrow> ustr \<Rightarrow> nat option" where
  "group_end depth escaped cls i [] = None"
| "group_end depth escaped cls i (ch # s) =
     (if escaped then group_end depth False cls (i + 1) s
      else if ch = ch_backslash then group_end depth True cls (i + 1) s
      else
        (let (consumed, cls') = consume_inside ch cls
         in if consumed then group_end depth False cls' (i + 1) s
            else if ch = ch_lbracket then group_end depth False (open_class cls') (i + 1) s
            else if ch = ch_open then group_end (depth + 1) False cls' (i + 1) s
            else if ch = ch_close then
              (if depth - 1 = 0 then Some i else group_end (depth - 1) False cls' (i + 1) s)
            else group_end depth False cls' (i + 1) s))"

definition strip_enclosing_group :: "ustr \<Rightarrow> ustr" where
  "strip_enclosing_group pat =
     (case pat of
        [] \<Rightarrow> pat
      | c # rest \<Rightarrow>
          if c \<noteq> ch_open then pat
          else
            (let inner_start =
               (if take 2 rest = [ch_question, ch_colon] then Some 3
                else if take 1 rest = [ch_question] then None
                else Some (1 :: nat))
             in case inner_start of
                  None \<Rightarrow> pat
                | Some k \<Rightarrow>
                    (case group_end 0 False scanner_default 0 pat of
                       None \<Rightarrow> pat
                     | Some i \<Rightarrow> if i = length pat - 1 then drop k (take i pat) else pat)))"

text \<open>The loop of \<^verbatim>\<open>split_top_level_alternation\<close>: the parts so far and the current one.\<close>

fun split_scan :: "int \<Rightarrow> bool \<Rightarrow> char_class_scanner \<Rightarrow> ustr list \<Rightarrow> ustr \<Rightarrow> ustr \<Rightarrow> ustr list" where
  "split_scan depth escaped cls parts current [] = parts @ [current]"
| "split_scan depth escaped cls parts current (ch # s) =
     (if escaped then split_scan depth False cls parts (current @ [ch]) s
      else if ch = ch_backslash then split_scan depth True cls parts (current @ [ch]) s
      else
        (let (consumed, cls') = consume_inside ch cls
         in if consumed then split_scan depth False cls' parts (current @ [ch]) s
            else if ch = ch_lbracket then split_scan depth False (open_class cls') parts (current @ [ch]) s
            else if ch = ch_open then split_scan (depth + 1) False cls' parts (current @ [ch]) s
            else if ch = ch_close then split_scan (depth - 1) False cls' parts (current @ [ch]) s
            else if ch = ch_bar \<and> depth = 0 then split_scan depth False cls' (parts @ [current]) [] s
            else split_scan depth False cls' parts (current @ [ch]) s))"

definition split_top_level_alternation :: "ustr \<Rightarrow> ustr list" where
  "split_top_level_alternation pat =
     filter (\<lambda>p. p \<noteq> []) (split_scan 0 False scanner_default [] [] (strip_enclosing_group pat))"

subsection \<open>Word patterns\<close>

datatype word_pattern = Literal ustr | Alternation "ustr list"

definition branches :: "word_pattern \<Rightarrow> ustr list" where
  "branches p = (case p of Literal pat \<Rightarrow> [pat] | Alternation bs \<Rightarrow> bs)"

fun join_bar :: "ustr list \<Rightarrow> ustr" where
  "join_bar [] = []"
| "join_bar [b] = b"
| "join_bar (b # bs) = b @ ch_bar # join_bar bs"

definition joined :: "word_pattern \<Rightarrow> ustr" where
  "joined p =
     (case p of
        Literal pat \<Rightarrow> pat
      | Alternation bs \<Rightarrow> [ch_open, ch_question, ch_colon] @ join_bar bs @ [ch_close])"

definition with_extra_branches :: "ustr list \<Rightarrow> word_pattern \<Rightarrow> word_pattern" where
  "with_extra_branches extra p = (if extra = [] then p else Alternation (branches p @ extra))"

definition parse_pattern :: "ustr \<Rightarrow> word_pattern" where
  "parse_pattern pat =
     (let bs = split_top_level_alternation pat in if length bs \<le> 1 then Literal pat else Alternation bs)"

subsection \<open>The syntax of patterns\<close>

datatype class_item = Class_Char uchar | Class_Escape uchar

datatype regex_atom =
    Regex_Char uchar
  | Regex_Escape uchar
  | Regex_Class bool "class_item list"
  | Regex_Group ustr "regex_atom list list"

fun show_item :: "class_item \<Rightarrow> ustr" where
  "show_item (Class_Char c) = [c]"
| "show_item (Class_Escape c) = [ch_backslash, c]"

definition show_items :: "class_item list \<Rightarrow> ustr" where
  "show_items items = concat (map show_item items)"

fun show_atom :: "regex_atom \<Rightarrow> ustr" where
  "show_atom (Regex_Char c) = [c]"
| "show_atom (Regex_Escape c) = [ch_backslash, c]"
| "show_atom (Regex_Class neg items) = ch_lbracket # (if neg then [ch_caret] else []) @ show_items items @ [ch_rbracket]"
| "show_atom (Regex_Group flags alts) =
     ch_open # flags @ join_bar (map (\<lambda>b. concat (map show_atom b)) alts) @ [ch_close]"

definition show_branch :: "regex_atom list \<Rightarrow> ustr" where
  "show_branch b = concat (map show_atom b)"

definition show_regex :: "regex_atom list list \<Rightarrow> ustr" where
  "show_regex alts = join_bar (map show_branch alts)"

text \<open>
  A class has at least one char that is not escaped; a \<^verbatim>\<open>]\<close> is only its first item, and its first plain
  char is not a \<^verbatim>\<open>^\<close>, which would negate it.
\<close>

fun plain_items :: "class_item list \<Rightarrow> uchar list" where
  "plain_items [] = []"
| "plain_items (Class_Char c # is) = c # plain_items is"
| "plain_items (Class_Escape c # is) = plain_items is"

definition class_ok :: "bool \<Rightarrow> class_item list \<Rightarrow> bool" where
  "class_ok neg items \<longleftrightarrow>
     (case plain_items items of
        [] \<Rightarrow> False
      | c # cs \<Rightarrow> (neg \<or> c \<noteq> ch_caret) \<and> ch_rbracket \<notin> set cs \<and>
          (c = ch_rbracket \<longrightarrow> hd items = Class_Char c) \<and>
          ch_backslash \<notin> set (c # cs) \<and> ch_lbracket \<notin> set (c # cs))"

definition special :: "uchar set" where
  "special = {ch_backslash, ch_lbracket, ch_open, ch_close, ch_bar}"

text \<open>What follows the parenthesis of a group: nothing, \<^verbatim>\<open>?:\<close>, or other flags.\<close>

definition flags_ok :: "ustr \<Rightarrow> bool" where
  "flags_ok flags \<longleftrightarrow>
     set flags \<inter> special = {} \<and>
     (flags = [] \<or> flags = [ch_question, ch_colon] \<or>
      (\<exists>c rest. flags = ch_question # c # rest \<and> c \<noteq> ch_colon))"

fun atom_ok :: "regex_atom \<Rightarrow> bool" where
  "atom_ok (Regex_Char c) \<longleftrightarrow> c \<notin> special"
| "atom_ok (Regex_Escape c) \<longleftrightarrow> True"
| "atom_ok (Regex_Class neg items) \<longleftrightarrow> class_ok neg items"
| "atom_ok (Regex_Group flags alts) \<longleftrightarrow>
     flags_ok flags \<and> alts \<noteq> [] \<and> (\<forall>b \<in> set alts. \<forall>a \<in> set b. atom_ok a) \<and>
     (flags = [] \<longrightarrow> take 1 (join_bar (map (\<lambda>b. concat (map show_atom b)) alts)) \<noteq> [ch_question])"

definition regex_ok :: "regex_atom list list \<Rightarrow> bool" where
  "regex_ok alts \<longleftrightarrow> alts \<noteq> [] \<and> (\<forall>b \<in> set alts. \<forall>a \<in> set b. atom_ok a)"


subsection \<open>Scanning a pattern of the syntax\<close>

text \<open>
  What both loops do on a stretch that neither closes the group it starts in nor meets a bar at
  its own depth: the state after it.
\<close>

fun scan :: "int \<Rightarrow> bool \<Rightarrow> char_class_scanner \<Rightarrow> ustr \<Rightarrow> (int \<times> bool \<times> char_class_scanner) option" where
  "scan k e c [] = Some (k, e, c)"
| "scan k e c (ch # s) =
     (if e then scan k False c s
      else if ch = ch_backslash then scan k True c s
      else if in_class c then scan k False (snd (consume_inside ch c)) s
      else if ch = ch_lbracket then scan k False (open_class c) s
      else if ch = ch_open then scan (k + 1) False c s
      else if ch = ch_close then (if k \<le> 0 then None else scan (k - 1) False c s)
      else if ch = ch_bar \<and> k \<le> 0 then None
      else scan k False c s)"

lemma consume_outside [simp]: "\<not> in_class c \<Longrightarrow> consume_inside ch c = (False, c)"
  by (simp add: consume_inside_def)

lemma consume_within: "in_class c \<Longrightarrow> fst (consume_inside ch c)"
  by (simp add: consume_inside_def Let_def)

lemma scan_append:
  "scan k e c (v @ w) = (case scan k e c v of None \<Rightarrow> None | Some (k', e', c') \<Rightarrow> scan k' e' c' w)"
  by (induction k e c v rule: scan.induct) auto

lemma group_end_scan:
  assumes "scan k e c w = Some (k', e', c')" "0 \<le> k"
  shows "group_end (k + 1) e c i (w @ r) = group_end (k' + 1) e' c' (i + length w) r"
  using assms
proof (induction k e c w arbitrary: i rule: scan.induct)
  case (2 k e c ch s)
  consider "e" | "\<not> e" "in_class c" | "\<not> e" "\<not> in_class c" by blast
  then show ?case
  proof cases
    case 1
    then show ?thesis using 2 by simp
  next
    case 2
    then show ?thesis
      using "2.prems" "2.IH"(2,3) by (auto simp: consume_within split_beta Let_def split: if_splits)
  next
    case 3
    then show ?thesis
      using "2.prems" "2.IH"(2,4,5,6,7) by (auto simp: algebra_simps Let_def split: if_splits)
  qed
qed simp

lemma split_scan_scan:
  assumes "scan k e c w = Some (k', e', c')" "0 \<le> k"
  shows "split_scan k e c parts current (w @ r) = split_scan k' e' c' parts (current @ w) r"
  using assms
proof (induction k e c w arbitrary: current rule: scan.induct)
  case (2 k e c ch s)
  consider "e" | "\<not> e" "in_class c" | "\<not> e" "\<not> in_class c" by blast
  then show ?case
  proof cases
    case 1
    then show ?thesis using 2 by simp
  next
    case 2
    then show ?thesis
      using "2.prems" "2.IH"(2,3) by (auto simp: consume_within split_beta Let_def split: if_splits)
  next
    case 3
    then show ?thesis
      using "2.prems" "2.IH"(2,4,5,6,7) by (auto simp: Let_def split: if_splits)
  qed
qed simp

text \<open>A stretch that is scanned through, from outside every class to outside every class.\<close>

definition scans :: "int \<Rightarrow> ustr \<Rightarrow> bool" where
  "scans k w \<longleftrightarrow> (\<forall>c. \<not> in_class c \<longrightarrow> (\<exists>c'. \<not> in_class c' \<and> scan k False c w = Some (k, False, c')))"

lemma scansE:
  assumes "scans k w" "\<not> in_class c"
  obtains c' where "\<not> in_class c'" "scan k False c w = Some (k, False, c')"
  using assms by (auto simp: scans_def)

lemma scans_Nil [simp]: "scans k []"
  by (simp add: scans_def)

lemma scans_append: "scans k v \<Longrightarrow> scans k w \<Longrightarrow> scans k (v @ w)"
  by (fastforce simp: scans_def scan_append)

lemma scans_concat: "(\<And>w. w \<in> set ws \<Longrightarrow> scans k w) \<Longrightarrow> scans k (concat ws)"
  by (induction ws) (auto intro: scans_append)

lemma scans_char: "ch \<notin> special \<Longrightarrow> scans k [ch]"
  by (auto simp: scans_def special_def)

lemma scans_plain: "set w \<inter> special = {} \<Longrightarrow> scans k w"
proof (induction w)
  case (Cons ch w)
  then have "scans k ([ch] @ w)" by (intro scans_append scans_char) auto
  then show ?case by simp
qed simp

lemma scans_bar: "0 < k \<Longrightarrow> scans k [ch_bar]"
  by (auto simp: scans_def)

lemma scans_join_bar:
  assumes "0 < k" "\<And>b. b \<in> set bs \<Longrightarrow> scans k b"
  shows "scans k (join_bar bs)"
  using assms(2)
proof (induction bs rule: join_bar.induct)
  case (3 b b' bs)
  then have "scans k (b @ [ch_bar] @ join_bar (b' # bs))"
    by (intro scans_append scans_bar assms(1)) auto
  then show ?case by simp
qed auto

lemma scans_group:
  assumes "scans (k + 1) w" "0 \<le> k"
  shows "scans k (ch_open # w @ [ch_close])"
  unfolding scans_def
proof (intro allI impI)
  fix c :: char_class_scanner
  assume "\<not> in_class c"
  with assms(1) obtain c' where "\<not> in_class c'" "scan (k + 1) False c w = Some (k + 1, False, c')"
    by (auto simp: scans_def)
  then show "\<exists>c'. \<not> in_class c' \<and> scan k False c (ch_open # w @ [ch_close]) = Some (k, False, c')"
    using \<open>\<not> in_class c\<close> assms(2) by (auto simp: scan_append)
qed

text \<open>Inside a class only the chars that are not escaped move the scanner.\<close>

lemma consume_plain:
  assumes "in_class c" "class_index c = 0 \<longrightarrow> ch \<noteq> ch_caret"
    "ch = ch_rbracket \<longrightarrow> class_index c \<le> (if negated c then 1 else 0)"
  shows "consume_inside ch c = (True, c\<lparr>class_index := class_index c + 1\<rparr>)"
  using assms by (auto simp: consume_inside_def Let_def)

lemma scan_items:
  assumes "in_class c" "ch_backslash \<notin> set (plain_items items)"
    "case plain_items items of [] \<Rightarrow> True
     | ch # chs \<Rightarrow> (class_index c = 0 \<longrightarrow> ch \<noteq> ch_caret) \<and> ch_rbracket \<notin> set chs \<and>
         (ch = ch_rbracket \<longrightarrow> class_index c \<le> (if negated c then 1 else 0))"
  shows "scan k False c (show_items items) =
    Some (k, False, c\<lparr>class_index := class_index c + length (plain_items items)\<rparr>)"
  using assms
proof (induction items arbitrary: c)
  case Nil
  then show ?case by (simp add: show_items_def)
next
  case (Cons item items)
  show ?case
  proof (cases item)
    case (Class_Char ch)
    have next_ok: "scan k False (c\<lparr>class_index := class_index c + 1\<rparr>) (show_items items) =
      Some (k, False, c\<lparr>class_index := class_index c + 1, class_index := class_index c + 1 + length (plain_items items)\<rparr>)"
      using Cons.prems Class_Char
      by (subst Cons.IH) (auto split: list.splits)
    have "consume_inside ch c = (True, c\<lparr>class_index := class_index c + 1\<rparr>)"
      using Cons.prems Class_Char by (intro consume_plain) auto
    then show ?thesis
      using Cons.prems Class_Char next_ok by (simp add: show_items_def)
  next
    case (Class_Escape ch)
    then show ?thesis
      using Cons.prems Cons.IH [of c] by (simp add: show_items_def)
  qed
qed

lemma scans_class:
  assumes "class_ok neg items"
  shows "scans k (show_atom (Regex_Class neg items))"
  unfolding scans_def
proof (intro allI impI)
  fix c :: char_class_scanner
  assume outside: "\<not> in_class c"
  obtain ch chs where plain: "plain_items items = ch # chs"
    using assms by (cases "plain_items items") (auto simp: class_ok_def)
  define opened where
    "opened = (if neg then (open_class c)\<lparr>negated := True, class_index := 1\<rparr> else open_class c)"
  have opened: "in_class opened" "negated opened = neg" "class_index opened = (if neg then 1 else 0)"
    by (auto simp: opened_def open_class_def)
  have "scan k False opened (show_items items) =
    Some (k, False, opened\<lparr>class_index := class_index opened + length (plain_items items)\<rparr>)"
    using assms plain opened by (intro scan_items) (auto simp: class_ok_def)
  moreover have "scan k False (open_class c) (if neg then [ch_caret] else []) = Some (k, False, opened)"
    by (auto simp: opened_def consume_inside_def open_class_def)
  ultimately have "scan k False c (show_atom (Regex_Class neg items)) =
    scan k False (opened\<lparr>class_index := class_index opened + length (plain_items items)\<rparr>) [ch_rbracket]"
    using outside by (simp add: scan_append)
  then show "\<exists>c'. \<not> in_class c' \<and> scan k False c (show_atom (Regex_Class neg items)) = Some (k, False, c')"
    using opened plain by (auto simp: consume_inside_def Let_def)
qed

lemma scans_atom: "atom_ok a \<Longrightarrow> 0 \<le> k \<Longrightarrow> scans k (show_atom a)"
proof (induction a arbitrary: k)
  case (Regex_Char ch)
  then show ?case by (simp add: scans_char)
next
  case (Regex_Escape ch)
  then show ?case by (simp add: scans_def)
next
  case (Regex_Class neg items)
  then show ?case by (metis atom_ok.simps(3) scans_class)
next
  case (Regex_Group flags alts)
  have "scans (k + 1) (join_bar (map (\<lambda>b. concat (map show_atom b)) alts))"
    using Regex_Group by (intro scans_join_bar) (auto intro!: scans_concat)
  moreover have "scans (k + 1) flags"
    using Regex_Group.prems by (auto simp: flags_ok_def intro: scans_plain)
  ultimately have "scans k (ch_open # (flags @ join_bar (map (\<lambda>b. concat (map show_atom b)) alts)) @ [ch_close])"
    using Regex_Group.prems by (intro scans_group scans_append) auto
  then show ?case by simp
qed

lemma scans_branch: "\<forall>a \<in> set b. atom_ok a \<Longrightarrow> 0 \<le> k \<Longrightarrow> scans k (show_branch b)"
  by (auto simp: show_branch_def intro!: scans_concat scans_atom)

subsection \<open>The group around the whole pattern\<close>

lemma group_end_scans:
  assumes "scans 0 w" "\<not> in_class c"
  obtains c' where "\<not> in_class c'"
    "\<And>r. group_end 1 False c i (w @ r) = group_end 1 False c' (i + length w) r"
proof -
  obtain c' where c': "\<not> in_class c'" "scan 0 False c w = Some (0, False, c')"
    using assms by (rule scansE)
  show ?thesis
    by (rule that [OF c'(1)]) (use group_end_scan [OF c'(2), of i] in simp)
qed

lemma group_end_body:
  assumes "\<And>b. b \<in> set bs \<Longrightarrow> scans 0 b" "\<not> in_class c"
  shows "group_end 1 False c i (join_bar bs @ ch_close # r) = Some (i + length (join_bar bs))"
  using assms
proof (induction bs arbitrary: c i rule: join_bar.induct)
  case (2 b)
  then obtain c' where "\<not> in_class c'"
    "\<And>r. group_end 1 False c i (b @ r) = group_end 1 False c' (i + length b) r"
    by (metis group_end_scans list.set_intros(1))
  then show ?case by simp
next
  case (3 b b' bs)
  then obtain c' where "\<not> in_class c'"
    "\<And>r. group_end 1 False c i (b @ r) = group_end 1 False c' (i + length b) r"
    by (metis group_end_scans list.set_intros(1))
  then show ?case using 3 by simp
qed simp

definition show_body :: "regex_atom list list \<Rightarrow> ustr" where
  "show_body alts = join_bar (map show_branch alts)"

lemma show_group: "show_atom (Regex_Group flags alts) = ch_open # flags @ show_body alts @ [ch_close]"
  by (simp add: show_body_def show_branch_def [abs_def])

lemma scans_branches:
  "\<forall>b \<in> set alts. \<forall>a \<in> set b. atom_ok a \<Longrightarrow> w \<in> set (map show_branch alts) \<Longrightarrow> scans 0 w"
  by (auto intro: scans_branch)

lemma group_end_group:
  assumes "atom_ok (Regex_Group flags alts)"
  shows "group_end 0 False scanner_default 0 (show_atom (Regex_Group flags alts) @ r) =
    Some (length (show_atom (Regex_Group flags alts)) - 1)"
proof -
  have idle: "\<not> in_class scanner_default" by (simp add: scanner_default_def)
  have "scans 0 flags"
    using assms by (auto simp: flags_ok_def intro: scans_plain)
  then obtain c' where c': "\<not> in_class c'"
    "\<And>r. group_end 1 False scanner_default 1 (flags @ r) = group_end 1 False c' (1 + length flags) r"
    using idle by (rule group_end_scans [of flags scanner_default 1]) blast
  have "group_end 1 False c' (1 + length flags) (join_bar (map show_branch alts) @ ch_close # r) =
      Some (1 + length flags + length (join_bar (map show_branch alts)))"
    by (rule group_end_body [OF _ c'(1)]) (rule scans_branches, use assms in auto)
  then show ?thesis
    using c'(2) [of "show_body alts @ ch_close # r"] idle
    by (simp add: show_group show_body_def del: show_atom.simps)
qed

lemma show_atom_not_Nil: "show_atom a \<noteq> []"
  by (cases a) auto

lemma show_atom_head:
  "atom_ok a \<Longrightarrow> hd (show_atom a) = ch_open \<Longrightarrow> (\<exists>flags alts. a = Regex_Group flags alts)"
  by (cases a) (auto simp: special_def)

text \<open>What follows the first atom of a pattern.\<close>

definition after_first :: "regex_atom list \<Rightarrow> regex_atom list list \<Rightarrow> ustr" where
  "after_first as rest = show_branch as @ (if rest = [] then [] else ch_bar # show_regex rest)"

lemma show_regex_Cons: "show_regex ((a # as) # rest) = show_atom a @ after_first as rest"
  by (cases rest) (auto simp: show_regex_def show_branch_def after_first_def)

lemma after_first_Nil: "after_first as rest = [] \<longleftrightarrow> as = [] \<and> rest = []"
  using show_atom_not_Nil by (cases as) (auto simp: after_first_def show_branch_def)

text \<open>The branches a pattern has once one plain group around all of it is taken off.\<close>

definition top_branches :: "regex_atom list list \<Rightarrow> regex_atom list list" where
  "top_branches alts =
     (case alts of
        [[Regex_Group flags inner]] \<Rightarrow>
          if flags = [] \<or> flags = [ch_question, ch_colon] then inner else alts
      | _ \<Rightarrow> alts)"

lemma strip_group:
  assumes "atom_ok (Regex_Group flags inner)"
  shows "strip_enclosing_group (show_atom (Regex_Group flags inner)) =
    (if flags = [] \<or> flags = [ch_question, ch_colon] then show_body inner
     else show_atom (Regex_Group flags inner))"
proof -
  have ends: "group_end 0 False scanner_default 0 (ch_open # flags @ show_body inner @ [ch_close]) =
      Some (length (flags @ show_body inner) + 1)"
    using group_end_group [OF assms, of "[]"] by (simp add: show_group del: show_atom.simps group_end.simps)
  consider "flags = []" "take 1 (show_body inner) \<noteq> [ch_question]"
    | "flags = [ch_question, ch_colon]" | ch rest where "flags = ch_question # ch # rest" "ch \<noteq> ch_colon"
    using assms by (auto simp: flags_ok_def show_body_def show_branch_def [abs_def])
  then show ?thesis
  proof cases
    case 1
    then have "take 1 (show_body inner @ [ch_close]) \<noteq> [ch_question]" "take 2 (show_body inner @ [ch_close]) \<noteq> [ch_question, ch_colon]"
      by (cases "show_body inner"; simp)+
    then show ?thesis
      using 1 ends by (simp add: show_group strip_enclosing_group_def Let_def del: show_atom.simps group_end.simps)
  next
    case 2
    then show ?thesis
      using ends by (simp add: show_group strip_enclosing_group_def Let_def del: show_atom.simps group_end.simps)
  next
    case 3
    then show ?thesis
      by (simp add: show_group strip_enclosing_group_def del: show_atom.simps)
  qed
qed

lemma strip_unwrapped:
  assumes "regex_ok ((a # as) # rest)" "as \<noteq> [] \<or> rest \<noteq> []"
  shows "strip_enclosing_group (show_regex ((a # as) # rest)) = show_regex ((a # as) # rest)"
proof (cases "hd (show_atom a) = ch_open")
  case True
  have ok: "atom_ok a" using assms by (simp add: regex_ok_def)
  with True obtain flags inner where a: "a = Regex_Group flags inner"
    using show_atom_head by blast
  have "after_first as rest \<noteq> []" using assms by (simp add: after_first_Nil)
  then have "length (show_atom a) - 1 \<noteq> length (show_atom a @ after_first as rest) - 1"
    using show_atom_not_Nil [of a] by (cases "show_atom a") auto
  then show ?thesis
    using group_end_group [OF ok [unfolded a]]
    unfolding show_regex_Cons strip_enclosing_group_def a
    by (simp split: list.split option.split)
next
  case False
  then show ?thesis
    using show_atom_not_Nil [of a]
    by (cases "show_atom a") (simp_all add: show_regex_Cons strip_enclosing_group_def)
qed

lemma strip_show_regex:
  assumes "regex_ok alts"
  shows "strip_enclosing_group (show_regex alts) = show_regex (top_branches alts)"
proof -
  consider "alts = [[]]" | rest where "alts = [] # rest" "rest \<noteq> []"
    | a where "alts = [[a]]" | a as rest where "alts = (a # as) # rest" "as \<noteq> [] \<or> rest \<noteq> []"
    using assms by (cases alts; cases "hd alts") (auto simp: regex_ok_def)
  then show ?thesis
  proof cases
    case 2
    then show ?thesis
      by (cases rest) (auto simp: show_regex_def show_branch_def strip_enclosing_group_def top_branches_def)
  next
    case 3
    have ok: "atom_ok a" using assms 3 by (simp add: regex_ok_def)
    show ?thesis
    proof (cases "hd (show_atom a) = ch_open")
      case True
      then obtain flags inner where "a = Regex_Group flags inner"
        using ok show_atom_head by blast
      then show ?thesis
        using strip_group [of flags inner] ok 3
        by (simp add: show_regex_def show_branch_def [of "[_]"] top_branches_def show_body_def)
    next
      case False
      then have "\<nexists>flags inner. a = Regex_Group flags inner" by (auto simp: show_group)
      then show ?thesis
        using False show_atom_not_Nil [of a] 3
        by (cases "show_atom a"; cases a)
          (auto simp: show_regex_def show_branch_def strip_enclosing_group_def top_branches_def)
    qed
  next
    case 4
    then have "top_branches alts = alts"
      by (auto simp: top_branches_def split: list.split regex_atom.split)
    then show ?thesis using strip_unwrapped assms 4 by simp
  qed (simp add: show_regex_def show_branch_def strip_enclosing_group_def top_branches_def)
qed

subsection \<open>The split\<close>

lemma split_scan_join_bar:
  assumes "\<And>w. w \<in> set (b # bs) \<Longrightarrow> scans 0 w" "\<not> in_class c"
  shows "split_scan 0 False c parts current (join_bar (b # bs)) = parts @ (current @ b) # bs"
  using assms
proof (induction bs arbitrary: b c parts current)
  case Nil
  then obtain c' where "scan 0 False c b = Some (0, False, c')"
    by (meson list.set_intros(1) scansE)
  then show ?case
    using split_scan_scan [of 0 False c b 0 False c' parts current "[]"] by simp
next
  case (Cons b' bs)
  then obtain c' where c': "\<not> in_class c'" "scan 0 False c b = Some (0, False, c')"
    by (meson list.set_intros(1) scansE)
  then have "split_scan 0 False c parts current (b @ ch_bar # join_bar (b' # bs)) =
      split_scan 0 False c' (parts @ [current @ b]) [] (join_bar (b' # bs))"
    by (simp add: split_scan_scan)
  then show ?case
    using Cons.IH [of b' c' "parts @ [current @ b]" "[]"] Cons.prems c' by simp
qed

lemma top_branches_ok: "regex_ok alts \<Longrightarrow> regex_ok (top_branches alts)"
  by (auto simp: regex_ok_def top_branches_def split: list.split regex_atom.split)

lemma split_show_regex:
  assumes "regex_ok alts"
  shows "split_top_level_alternation (show_regex alts) =
    filter (\<lambda>p. p \<noteq> []) (map show_branch (top_branches alts))"
proof -
  have ok: "regex_ok (top_branches alts)" using assms by (rule top_branches_ok)
  obtain b bs where bs: "map show_branch (top_branches alts) = b # bs"
    using ok by (cases "top_branches alts") (auto simp: regex_ok_def)
  have "\<And>w. w \<in> set (b # bs) \<Longrightarrow> scans 0 w"
    using ok unfolding bs [symmetric] by (intro scans_branches) (auto simp: regex_ok_def)
  then have "split_scan 0 False scanner_default [] [] (join_bar (b # bs)) = b # bs"
    by (subst split_scan_join_bar) (auto simp: scanner_default_def)
  then show ?thesis
    by (simp add: split_top_level_alternation_def strip_show_regex [OF assms] show_regex_def [of "top_branches alts"] bs)
qed

lemma show_branch_Nil: "show_branch b = [] \<longleftrightarrow> b = []"
  using show_atom_not_Nil by (cases b) (auto simp: show_branch_def)

text \<open>One group around all the branches, as \<^verbatim>\<open>joined\<close> writes it.\<close>

lemma split_joined:
  assumes "\<forall>b \<in> set bs. b \<noteq> [] \<and> (\<forall>a \<in> set b. atom_ok a)" "bs \<noteq> []"
  shows "split_top_level_alternation (joined (Alternation (map show_branch bs))) = map show_branch bs"
proof -
  let ?group = "Regex_Group [ch_question, ch_colon] bs"
  have "regex_ok [[?group]]"
    using assms by (simp add: regex_ok_def flags_ok_def special_def)
  moreover have "joined (Alternation (map show_branch bs)) = show_regex [[?group]]"
    by (simp add: joined_def show_regex_def show_branch_def [abs_def])
  moreover have "filter (\<lambda>p. p \<noteq> []) (map show_branch bs) = map show_branch bs"
    using assms show_branch_Nil by auto
  ultimately show ?thesis
    by (simp add: split_show_regex top_branches_def)
qed

text \<open>C35: the splitter finds exactly the branches of a pattern. For every pattern of the syntax, that is for
  branches of literals, escapes, character classes and nested groups, joined by bars, the
  parts of \<^verbatim>\<open>split_top_level_alternation\<close> are the branches as they were written, less the empty ones;
  a bar inside a class, a group or after a backslash never splits. One group around all of the
  pattern is taken off first when it is \<^verbatim>\<open>(...)\<close> or \<^verbatim>\<open>(?:...)\<close>, and no other group is.
\<close>

theorem split_exact:
  assumes "regex_ok alts"
  shows "split_top_level_alternation (show_regex alts) =
    filter (\<lambda>p. p \<noteq> []) (map show_branch (top_branches alts))"
  using assms by (rule split_show_regex)

text \<open>The pattern \<^verbatim>\<open>(?:a[|]\||(b|c)d||e)\<close>.\<close>

theorem split_exact_witness:
  "split_top_level_alternation
     [0x28, 0x3F, 0x3A, 97, 0x5B, 0x7C, 0x5D, 0x5C, 0x7C, 0x7C, 0x28, 98, 0x7C, 99, 0x29, 100, 0x7C, 0x7C, 101, 0x29] =
     [[97, 0x5B, 0x7C, 0x5D, 0x5C, 0x7C], [0x28, 98, 0x7C, 99, 0x29, 100], [101]]"
  using split_exact [of "[[Regex_Group [0x3F, 0x3A]
      [[Regex_Char 97, Regex_Class False [Class_Char 0x7C], Regex_Escape 0x7C],
       [Regex_Group [] [[Regex_Char 98], [Regex_Char 99]], Regex_Char 100], [], [Regex_Char 101]]]]"]
  by (simp add: regex_ok_def flags_ok_def class_ok_def special_def top_branches_def show_regex_def
      show_branch_def show_items_def)

text \<open>C36: writing a word's branches as one pattern and parsing it back gives the branches. For a word pattern,
  a literal or an alternation, with the branches added for its typos, whose two or more branches are
  nonempty patterns of the syntax, \<^verbatim>\<open>parse\<close> of \<^verbatim>\<open>joined\<close> yields the same branches in the same order,
  so that collecting branch by branch and compiling the single combined form search the same
  words.
\<close>

theorem pattern_round_trip:
  assumes "branches p = map show_branch bs"
    "2 \<le> length (bs @ extra)"
    "\<forall>b \<in> set (bs @ extra). b \<noteq> [] \<and> (\<forall>a \<in> set b. atom_ok a)"
  shows "parse_pattern (joined (with_extra_branches (map show_branch extra) p)) =
    Alternation (branches p @ map show_branch extra)"
proof -
  have "with_extra_branches (map show_branch extra) p = Alternation (map show_branch (bs @ extra))"
    using assms(1,2) by (cases p) (auto simp: with_extra_branches_def branches_def dest!: arg_cong [where f = length])
  moreover have "bs @ extra \<noteq> []" using assms(2) by auto
  ultimately show ?thesis
    using split_joined [OF assms(3)] assms(1,2) by (simp add: parse_pattern_def)
qed

text \<open>The literal \<^verbatim>\<open>a(b|c)\<close> with the branch \<^verbatim>\<open>d\<close> added.\<close>

theorem pattern_round_trip_witness:
  "parse_pattern (joined (with_extra_branches [[100]] (Literal [97, 0x28, 98, 0x7C, 99, 0x29]))) =
    Alternation [[97, 0x28, 98, 0x7C, 99, 0x29], [100]]"
  using pattern_round_trip [of "Literal [97, 0x28, 98, 0x7C, 99, 0x29]"
      "[[Regex_Char 97, Regex_Group [] [[Regex_Char 98], [Regex_Char 99]]]]" "[[Regex_Char 100]]"]
  by (simp add: branches_def flags_ok_def special_def show_branch_def)

text \<open>
  A class of escapes alone: the scanner counts the plain chars since the bracket, and with none of
  them the closing bracket counts as a literal. The class is then never left: in \<^verbatim>\<open>[\d]([a]|b)\<close> the
  next bracket ends it, the opening parenthesis is missed, and the bar inside the group splits
  the pattern into \<^verbatim>\<open>[\d]([a]\<close> and \<^verbatim>\<open>b)\<close>, neither of which is a regular expression.
\<close>

theorem escaped_class_splits:
  "split_top_level_alternation
     [0x5B, 0x5C, 100, 0x5D, 0x28, 0x5B, 97, 0x5D, 0x7C, 98, 0x29] =
     [[0x5B, 0x5C, 100, 0x5D, 0x28, 0x5B, 97, 0x5D], [98, 0x29]]"
  by (simp add: split_top_level_alternation_def strip_enclosing_group_def scanner_default_def
      consume_inside_def open_class_def Let_def)

end
