(* ===== verification/QuoteExpansion.thy ===== *)
theory QuoteExpansion
  imports Prelude "HOL-Library.List_Lexorder"
begin

section \<open>Quote-free spellings\<close>

text \<open>
  \<^verbatim>\<open>quote_expansion.rs\<close>: the index holds a word with geresh or gershayim as it is written, and the
  query side finds it without its quotes: an automaton is wrapped so that it accepts a term as
  written or without its quotes, and an exact word is expanded to the terms of the dictionary that
  are it with quotes inserted.

  The automata of \<^verbatim>\<open>tantivy_fst\<close> are the locale \<open>automaton\<close> (what the trait documents of
  \<^verbatim>\<open>can_match\<close>); the walk of a dictionary with an automaton is a parameter, which yields the terms the
  automaton accepts (\<open>streams\<close>). A term is its list of bytes.
\<close>

type_synonym byte = nat
type_synonym bytes = "byte list"

subsection \<open>Automata\<close>

record 's fst_automaton =
  start :: 's
  is_match :: "'s \<Rightarrow> bool"
  can_match :: "'s \<Rightarrow> bool"
  accept :: "'s \<Rightarrow> byte \<Rightarrow> 's"

text \<open>What an automaton accepts when it is abandoned at a state that cannot match.\<close>

fun walks :: "'s fst_automaton \<Rightarrow> 's \<Rightarrow> bytes \<Rightarrow> bool" where
  "walks A s [] \<longleftrightarrow> is_match A s"
| "walks A s (b # w) \<longleftrightarrow> can_match A s \<and> walks A (accept A s b) w"

definition accepts :: "'s fst_automaton \<Rightarrow> bytes \<Rightarrow> bool" where
  "accepts A w = walks A (start A) w"

locale automaton =
  fixes A :: "'s fst_automaton"
  assumes dead_end: "\<not> can_match A s \<Longrightarrow> \<not> is_match A (foldl (accept A) s w)"
begin

lemma walks_run: "walks A s w = is_match A (foldl (accept A) s w)"
proof (induction w arbitrary: s)
  case (Cons b w)
  then show ?case using dead_end [of s "b # w"] by auto
qed simp

lemma accepts_run: "accepts A w = is_match A (foldl (accept A) (start A) w)"
  by (simp add: accepts_def walks_run)

end

subsection \<open>Quotes\<close>

definition is_quote :: "byte \<Rightarrow> bool" where
  "is_quote b \<longleftrightarrow> b = 0x27 \<or> b = 0x22"

definition strip_quotes :: "bytes \<Rightarrow> bytes" where
  "strip_quotes w = filter (\<lambda>b. \<not> is_quote b) w"

lemma strip_quotes_simps [simp]:
  "strip_quotes [] = []"
  "strip_quotes (b # w) = (if is_quote b then strip_quotes w else b # strip_quotes w)"
  by (simp_all add: strip_quotes_def)

datatype 's quote_state = Same 's bool | Split "'s option" "'s option" bool

definition alive :: "'s fst_automaton \<Rightarrow> 's \<Rightarrow> 's option" where
  "alive A s = (if can_match A s then Some s else None)"

definition some_and :: "('s \<Rightarrow> bool) \<Rightarrow> 's option \<Rightarrow> bool" where
  "some_and P s = (case s of None \<Rightarrow> False | Some s \<Rightarrow> P s)"

fun quote_is_match :: "'s fst_automaton \<Rightarrow> 's quote_state \<Rightarrow> bool" where
  "quote_is_match A (Same s letters) \<longleftrightarrow> is_match A s"
| "quote_is_match A (Split literal bare bare_letters) \<longleftrightarrow>
     some_and (is_match A) literal \<or> bare_letters \<and> some_and (is_match A) bare"

fun quote_can_match :: "'s fst_automaton \<Rightarrow> 's quote_state \<Rightarrow> bool" where
  "quote_can_match A (Same s letters) \<longleftrightarrow> can_match A s"
| "quote_can_match A (Split literal bare bare_letters) \<longleftrightarrow>
     some_and (can_match A) literal \<or> some_and (can_match A) bare"

fun quote_accept :: "'s fst_automaton \<Rightarrow> 's quote_state \<Rightarrow> byte \<Rightarrow> 's quote_state" where
  "quote_accept A (Same s letters) b =
     (if \<not> is_quote b then Same (accept A s b) True
      else Split (alive A (accept A s b)) (alive A s) letters)"
| "quote_accept A (Split literal bare bare_letters) b =
     Split (Option.bind literal (\<lambda>s. alive A (accept A s b)))
       (if is_quote b then bare else Option.bind bare (\<lambda>s. alive A (accept A s b)))
       (bare_letters \<or> \<not> is_quote b)"

definition quote_transparent :: "'s fst_automaton \<Rightarrow> 's quote_state fst_automaton" where
  "quote_transparent A =
     \<lparr>start = Same (start A) False, is_match = quote_is_match A, can_match = quote_can_match A,
      accept = quote_accept A\<rparr>"

lemma quote_transparent_simps [simp]:
  "start (quote_transparent A) = Same (start A) False"
  "is_match (quote_transparent A) = quote_is_match A"
  "can_match (quote_transparent A) = quote_can_match A"
  "accept (quote_transparent A) = quote_accept A"
  by (simp_all add: quote_transparent_def)

context automaton
begin

lemma alive_run: "some_and (\<lambda>s. is_match A (foldl (accept A) s w)) (alive A s) = is_match A (foldl (accept A) s w)"
  using dead_end [of s w] by (simp add: some_and_def alive_def)

lemma split_run:
  "quote_is_match A (foldl (quote_accept A) (Split literal bare bl) w) \<longleftrightarrow>
     some_and (\<lambda>s. is_match A (foldl (accept A) s w)) literal \<or>
     (bl \<or> strip_quotes w \<noteq> []) \<and> some_and (\<lambda>s. is_match A (foldl (accept A) s (strip_quotes w))) bare"
proof (induction w arbitrary: literal bare bl)
  case Nil
  then show ?case by (simp add: some_and_def split: option.split)
next
  case (Cons b w)
  show ?case
    using Cons alive_run by (cases literal; cases bare) (auto simp: some_and_def)
qed

lemma same_run:
  "quote_is_match A (foldl (quote_accept A) (Same s letters) w) \<longleftrightarrow>
     is_match A (foldl (accept A) s w) \<or>
     (letters \<or> strip_quotes w \<noteq> []) \<and> is_match A (foldl (accept A) s (strip_quotes w))"
proof (induction w arbitrary: s letters)
  case (Cons b w)
  show ?case
    using Cons by (cases "is_quote b") (simp_all add: split_run alive_run)
qed auto

lemma quote_dead_end:
  assumes "\<not> quote_can_match A st"
  shows "\<not> quote_is_match A (foldl (quote_accept A) st w)"
proof (cases st)
  case (Same s letters)
  then show ?thesis using assms dead_end by (simp add: same_run)
next
  case (Split literal bare bl)
  then show ?thesis using assms dead_end by (auto simp: split_run some_and_def split: option.splits)
qed

end

text \<open>An automaton that is wrapped: the wrapper is an automaton again.\<close>

locale quoted = automaton

sublocale quoted \<subseteq> transparent: automaton "quote_transparent A"
  by unfold_locales (simp add: quote_dead_end)

context quoted
begin

lemma quote_accepts:
  "accepts (quote_transparent A) w \<longleftrightarrow>
     accepts A w \<or> strip_quotes w \<noteq> [] \<and> accepts A (strip_quotes w)"
  by (simp add: transparent.accepts_run accepts_run same_run)

end

subsection \<open>The automaton of given words\<close>

type_synonym literal_state = "(nat \<times> nat \<times> nat) option"

definition byte_none_or :: "(byte \<Rightarrow> bool) \<Rightarrow> bytes \<Rightarrow> nat \<Rightarrow> bool" where
  "byte_none_or P w depth \<longleftrightarrow> (if depth < length w then P (w ! depth) else True)"

definition literal_new :: "bytes list \<Rightarrow> bytes list" where
  "literal_new ws = sort_dedup ws"

definition literal_start :: "bytes list \<Rightarrow> literal_state" where
  "literal_start ws = (if ws \<noteq> [] then Some (0, length ws, 0) else None)"

definition literal_is_match :: "bytes list \<Rightarrow> literal_state \<Rightarrow> bool" where
  "literal_is_match ws st = (case st of None \<Rightarrow> False | Some (lo, _, depth) \<Rightarrow> length (ws ! lo) = depth)"

definition literal_accept :: "bytes list \<Rightarrow> literal_state \<Rightarrow> byte \<Rightarrow> literal_state" where
  "literal_accept ws st b =
     (case st of
        None \<Rightarrow> None
      | Some (lo, hi, depth) \<Rightarrow>
          (let range = drop lo (take hi ws);
               first = lo + partition_point (\<lambda>w. byte_none_or (\<lambda>c. c < b) w depth) range;
               last = lo + partition_point (\<lambda>w. byte_none_or (\<lambda>c. c \<le> b) w depth) range
           in if first < last then Some (first, last, depth + 1) else None))"

definition literal_automaton :: "bytes list \<Rightarrow> literal_state fst_automaton" where
  "literal_automaton ws =
     \<lparr>start = literal_start ws, is_match = literal_is_match ws, can_match = (\<lambda>st. st \<noteq> None),
      accept = literal_accept ws\<rparr>"

definition literal :: "bytes list \<Rightarrow> literal_state fst_automaton" where
  "literal ws = literal_automaton (literal_new ws)"

lemma literal_dead: "foldl (literal_accept ws) None w = None"
  by (induction w) (simp_all add: literal_accept_def)

interpretation lit: quoted "literal ws"
proof unfold_locales
  fix s w
  assume "\<not> can_match (literal ws) s"
  then have "s = None" by (cases s) (auto simp: literal_def literal_automaton_def)
  then show "\<not> is_match (literal ws) (foldl (accept (literal ws)) s w)"
    by (simp add: literal_def literal_automaton_def literal_dead literal_is_match_def)
qed

text \<open>The words of a state: the range of those that start with what has been read.\<close>

definition starts :: "bytes \<Rightarrow> bytes \<Rightarrow> bool" where
  "starts u w \<longleftrightarrow> take (length u) w = u"

definition range_of :: "bytes list \<Rightarrow> bytes \<Rightarrow> literal_state \<Rightarrow> bool" where
  "range_of ws u st \<longleftrightarrow>
     (case st of
        None \<Rightarrow> (\<forall>w \<in> set ws. \<not> starts u w)
      | Some (lo, hi, depth) \<Rightarrow>
          depth = length u \<and> lo < hi \<and> hi \<le> length ws \<and>
          (\<forall>i < length ws. starts u (ws ! i) \<longleftrightarrow> lo \<le> i \<and> i < hi))"

lemma takeWhile_length_iff:
  assumes "\<And>i j. i < j \<Longrightarrow> j < length xs \<Longrightarrow> P (xs ! j) \<Longrightarrow> P (xs ! i)" "i < length xs"
  shows "i < length (takeWhile P xs) \<longleftrightarrow> P (xs ! i)"
proof
  assume "i < length (takeWhile P xs)"
  then show "P (xs ! i)" by (metis nth_mem set_takeWhileD takeWhile_nth)
next
  assume Pi: "P (xs ! i)"
  show "i < length (takeWhile P xs)"
  proof (rule ccontr)
    assume *: "\<not> i < length (takeWhile P xs)"
    then have "length (takeWhile P xs) < length xs" using assms(2) by linarith
    then have "\<not> P (xs ! length (takeWhile P xs))" by (rule nth_length_takeWhile)
    moreover have "length (takeWhile P xs) < i \<or> length (takeWhile P xs) = i" using * by linarith
    ultimately show False using assms Pi by metis
  qed
qed

lemma list_le_append: "(u @ x \<le> u @ y) \<longleftrightarrow> x \<le> (y :: nat list)"
  by (induction u) auto

lemma byte_partitioned:
  assumes "x \<le> y" "starts u x" "starts u y" "byte_none_or P y (length u)" "\<And>c d. c \<le> d \<Longrightarrow> P d \<Longrightarrow> P c"
  shows "byte_none_or P x (length u)"
proof -
  obtain x' y' where xy: "x = u @ x'" "y = u @ y'"
    using assms(2,3) unfolding starts_def by (metis append_take_drop_id)
  then have "x' \<le> y'" using assms(1) list_le_append by simp
  then show ?thesis
    using assms(4,5) xy by (cases x'; cases y') (auto simp: byte_none_or_def nth_append intro: less_imp_le)
qed

lemma sorted_nth_le: "sorted xs \<Longrightarrow> i \<le> j \<Longrightarrow> j < length xs \<Longrightarrow> xs ! i \<le> xs ! j"
  by (simp add: sorted_iff_nth_mono)

lemma starts_step: "starts (u @ [b]) w \<longleftrightarrow> starts u w \<and> length u < length w \<and> w ! length u = b"
proof -
  have "take (Suc (length u)) w = u @ [b] \<longleftrightarrow> take (length u) w = u \<and> length u < length w \<and> w ! length u = b"
  proof (cases "length u < length w")
    case True
    then show ?thesis by (simp add: take_Suc_conv_app_nth)
  next
    case False
    then have "length (take (Suc (length u)) w) \<noteq> length (u @ [b])" by simp
    then show ?thesis using False by fastforce
  qed
  then show ?thesis by (simp add: starts_def)
qed

lemma partition_point_range:
  assumes "sorted ws" "range_of ws u (Some (lo, hi, length u))" "\<And>c d. c \<le> d \<Longrightarrow> P d \<Longrightarrow> P c"
    "lo \<le> i" "i < hi"
  shows "i < lo + partition_point (\<lambda>w. byte_none_or P w (length u)) (drop lo (take hi ws)) \<longleftrightarrow>
    byte_none_or P (ws ! i) (length u)"
proof -
  let ?range = "drop lo (take hi ws)" and ?P = "\<lambda>w. byte_none_or P w (length u)"
  have hi: "hi \<le> length ws" and sel: "\<And>i. i < length ws \<Longrightarrow> starts u (ws ! i) \<longleftrightarrow> lo \<le> i \<and> i < hi"
    using assms(2) by (auto simp: range_of_def)
  have at: "?range ! k = ws ! (lo + k)" if "k < length ?range" for k
    using that hi by simp
  have "?P (?range ! k)" if k: "k < l" "l < length ?range" "?P (?range ! l)" for k l
  proof -
    have "lo + l < length ws" "lo + l < hi" using k(2) hi by auto
    then have "starts u (ws ! (lo + k))" "starts u (ws ! (lo + l))" "ws ! (lo + k) \<le> ws ! (lo + l)"
      using k(1) sel sorted_nth_le [OF assms(1), of "lo + k" "lo + l"] by auto
    then show ?thesis using byte_partitioned assms(3) at k by (metis order.strict_trans)
  qed
  then have "i - lo < length (takeWhile ?P ?range) \<longleftrightarrow> ?P (?range ! (i - lo))"
    using assms(4,5) hi by (intro takeWhile_length_iff) auto
  then show ?thesis
    using at [of "i - lo"] assms(4,5) hi by (auto simp: partition_point_def)
qed

lemma range_of_accept:
  assumes "sorted ws" "range_of ws u st"
  shows "range_of ws (u @ [b]) (literal_accept ws st b)"
proof (cases st)
  case None
  then show ?thesis using assms(2) by (simp add: range_of_def literal_accept_def starts_step)
next
  case (Some q)
  obtain lo hi depth where q: "q = (lo, hi, depth)" by (cases q)
  have depth: "depth = length u" "lo < hi" "hi \<le> length ws"
    and sel: "\<And>i. i < length ws \<Longrightarrow> starts u (ws ! i) \<longleftrightarrow> lo \<le> i \<and> i < hi"
    using assms(2) Some q by (auto simp: range_of_def)
  define first where "first = lo + partition_point (\<lambda>w. byte_none_or (\<lambda>c. c < b) w depth) (drop lo (take hi ws))"
  define last where "last = lo + partition_point (\<lambda>w. byte_none_or (\<lambda>c. c \<le> b) w depth) (drop lo (take hi ws))"
  have bounds: "lo \<le> first" "first \<le> hi" "last \<le> hi"
    unfolding first_def last_def partition_point_def
    using length_takeWhile_le [of _ "drop lo (take hi ws)"] depth(2,3)
    by (auto simp: le_diff_conv2 [symmetric] intro: order_trans [OF add_left_mono [OF length_takeWhile_le]])
  have first_iff: "i < first \<longleftrightarrow> byte_none_or (\<lambda>c. c < b) (ws ! i) (length u)" if "lo \<le> i" "i < hi" for i
    unfolding first_def depth(1)
    by (rule partition_point_range [OF assms(1) _ _ that]) (use assms(2) Some q depth(1) in auto)
  have last_iff: "i < last \<longleftrightarrow> byte_none_or (\<lambda>c. c \<le> b) (ws ! i) (length u)" if "lo \<le> i" "i < hi" for i
    unfolding last_def depth(1)
    by (rule partition_point_range [OF assms(1) _ _ that]) (use assms(2) Some q depth(1) in auto)
  have words: "starts (u @ [b]) (ws ! i) \<longleftrightarrow> first \<le> i \<and> i < last" if i: "i < length ws" for i
  proof (cases "lo \<le> i \<and> i < hi")
    case True
    then have "starts u (ws ! i)" using sel i by simp
    then show ?thesis
      using first_iff [of i] last_iff [of i] True by (auto simp: starts_step byte_none_or_def split: if_splits)
  next
    case False
    then have "\<not> starts u (ws ! i)" using sel i by simp
    then show ?thesis using False bounds by (auto simp: starts_step)
  qed
  have accept: "literal_accept ws st b = (if first < last then Some (first, last, depth + 1) else None)"
    by (simp add: literal_accept_def Some q first_def last_def Let_def)
  show ?thesis
  proof (cases "first < last")
    case True
    then show ?thesis using accept words bounds depth by (simp add: range_of_def)
  next
    case False
    then have "\<not> starts (u @ [b]) w" if "w \<in> set ws" for w
      using that words by (metis in_set_conv_nth order.strict_trans1)
    then show ?thesis using accept False by (simp add: range_of_def)
  qed
qed

lemma range_of_run:
  "sorted ws \<Longrightarrow> range_of ws u st \<Longrightarrow> range_of ws (u @ w) (foldl (literal_accept ws) st w)"
proof (induction w arbitrary: u st)
  case (Cons b w)
  then have "range_of ws (u @ [b]) (literal_accept ws st b)" using range_of_accept by blast
  then show ?case using Cons.IH [of "u @ [b]"] Cons.prems by simp
qed simp

lemma range_of_match:
  assumes "sorted ws" "range_of ws w st"
  shows "literal_is_match ws st \<longleftrightarrow> w \<in> set ws"
proof (cases st)
  case None
  then show ?thesis using assms(2) by (auto simp: literal_is_match_def range_of_def starts_def)
next
  case (Some q)
  obtain lo hi depth where q: "q = (lo, hi, depth)" by (cases q)
  have depth: "depth = length w" "lo < hi" "hi \<le> length ws"
    and sel: "\<And>i. i < length ws \<Longrightarrow> starts w (ws ! i) \<longleftrightarrow> lo \<le> i \<and> i < hi"
    using assms(2) Some q by (auto simp: range_of_def)
  have first: "starts w (ws ! lo)" using sel depth by simp
  show ?thesis
  proof
    assume "literal_is_match ws st"
    then have "length (ws ! lo) = length w" by (simp add: literal_is_match_def Some q depth(1))
    then have "ws ! lo = w" using first by (simp add: starts_def)
    then show "w \<in> set ws" using depth by (metis nth_mem order.strict_trans2)
  next
    assume "w \<in> set ws"
    then obtain i where i: "i < length ws" "ws ! i = w" by (auto simp: in_set_conv_nth)
    then have "lo \<le> i" using sel [OF i(1)] by (simp add: starts_def)
    then have "ws ! lo \<le> w" using sorted_nth_le [OF assms(1)] i by blast
    moreover obtain v where "ws ! lo = w @ v" using first unfolding starts_def by (metis append_take_drop_id)
    ultimately have "w @ v \<le> w @ []" by simp
    then have "v \<le> []" by (simp only: list_le_append)
    then have "v = []" by (cases v) simp_all
    then show "literal_is_match ws st"
      using \<open>ws ! lo = w @ v\<close> by (simp add: literal_is_match_def Some q depth(1))
  qed
qed

lemma literal_accepts: "accepts (literal ws) w \<longleftrightarrow> w \<in> set ws"
proof -
  let ?ws = "literal_new ws"
  have "sorted ?ws" by (simp add: literal_new_def strict_sorted_imp_sorted)
  moreover have "range_of ?ws [] (literal_start ?ws)"
    by (simp add: range_of_def literal_start_def starts_def)
  ultimately have "literal_is_match ?ws (foldl (literal_accept ?ws) (literal_start ?ws) w) \<longleftrightarrow> w \<in> set ?ws"
    using range_of_run [of ?ws "[]"] range_of_match by (metis append_Nil)
  then have "is_match (literal ws) (foldl (accept (literal ws)) (start (literal ws)) w) \<longleftrightarrow> w \<in> set ws"
    by (simp add: literal_def literal_automaton_def literal_new_def)
  then show ?thesis by (simp only: lit.accepts_run)
qed

subsection \<open>The spellings of a word\<close>

text \<open>A term that the dictionary can hold as a string: the byte sequences of \<^verbatim>\<open>std::str::from_utf8\<close>.\<close>

definition continuation :: "byte \<Rightarrow> bool" where
  "continuation b \<longleftrightarrow> 0x80 \<le> b \<and> b \<le> 0xBF"

definition utf8_second :: "byte \<Rightarrow> byte \<Rightarrow> bool" where
  "utf8_second a b \<longleftrightarrow>
     (if a = 0xE0 then 0xA0 \<le> b \<and> b \<le> 0xBF
      else if a = 0xED then 0x80 \<le> b \<and> b \<le> 0x9F
      else if a = 0xF0 then 0x90 \<le> b \<and> b \<le> 0xBF
      else if a = 0xF4 then 0x80 \<le> b \<and> b \<le> 0x8F
      else continuation b)"

definition utf8_width :: "byte \<Rightarrow> nat" where
  "utf8_width a =
     (if a < 0x80 then 1 else if 0xC2 \<le> a \<and> a \<le> 0xDF then 2
      else if 0xE0 \<le> a \<and> a \<le> 0xEF then 3 else if 0xF0 \<le> a \<and> a \<le> 0xF4 then 4 else 0)"

function from_utf8_ok :: "bytes \<Rightarrow> bool" where
  "from_utf8_ok [] = True"
| "from_utf8_ok (a # r) =
     (let n = utf8_width a
      in n \<noteq> 0 \<and> n - 1 \<le> length r \<and> (1 < n \<longrightarrow> utf8_second a (hd r)) \<and>
         list_all continuation (take (n - 2) (tl r)) \<and> from_utf8_ok (drop (n - 1) r))"
  by pat_completeness auto
termination by (relation "measure length") auto

text \<open>
  The dictionary of a segment is its terms in ascending order, or the error of opening it; \<open>search\<close> is
  the walk of the library, which streams the terms that the automaton accepts.
\<close>

type_synonym 's walk = "'s fst_automaton \<Rightarrow> bytes list \<Rightarrow> bytes list"

definition streams :: "'s walk \<Rightarrow> bool" where
  "streams search \<longleftrightarrow> (\<forall>A terms. automaton A \<longrightarrow> search A terms = filter (accepts A) terms)"

text \<open>One step of the loops over a stream: a new string is pushed.\<close>

definition push_new :: "bytes \<Rightarrow> bytes list \<Rightarrow> bytes list" where
  "push_new term out = (if from_utf8_ok term then if term \<in> set out then out else out @ [term] else out)"

fun spellings_loop :: "(literal_state quote_state) walk \<Rightarrow> bytes \<Rightarrow> ('e + bytes list) list \<Rightarrow> bytes list \<Rightarrow> 'e + bytes list" where
  "spellings_loop search word [] out = Inr out"
| "spellings_loop search word (reader # readers) out =
     (case reader of
        Inl e \<Rightarrow> Inl e
      | Inr terms \<Rightarrow>
          spellings_loop search word readers (fold push_new (search (quote_transparent (literal [word])) terms) out))"

definition spellings :: "(literal_state quote_state) walk \<Rightarrow> ('e + bytes list) list \<Rightarrow> bytes \<Rightarrow> 'e + bytes list" where
  "spellings search readers word =
     (if list_ex is_quote word then Inr [word] else spellings_loop search word readers [word])"

text \<open>\<^verbatim>\<open>spelling_terms\<close>: the map of what is found is an association of words to lists.\<close>

definition add_found :: "bytes \<Rightarrow> (bytes \<Rightarrow> bytes list) \<Rightarrow> bytes \<Rightarrow> bytes list" where
  "add_found term found = (if from_utf8_ok term then found (strip_quotes term := found (strip_quotes term) @ [term]) else found)"

fun found_loop :: "(literal_state quote_state) walk \<Rightarrow> bytes list \<Rightarrow> ('e + bytes list) list \<Rightarrow> (bytes \<Rightarrow> bytes list) \<Rightarrow> 'e + (bytes \<Rightarrow> bytes list)" where
  "found_loop search ws [] found = Inr found"
| "found_loop search ws (reader # readers) found =
     (case reader of
        Inl e \<Rightarrow> Inl e
      | Inr terms \<Rightarrow>
          found_loop search ws readers (fold add_found (search (quote_transparent (literal ws)) terms) found))"

definition insert_seen :: "bytes \<Rightarrow> bytes list \<Rightarrow> bytes list" where
  "insert_seen spelling out = (if spelling \<in> set out then out else out @ [spelling])"

definition spelling_terms :: "(literal_state quote_state) walk \<Rightarrow> ('e + bytes list) list \<Rightarrow> bytes list \<Rightarrow> 'e + bytes list" where
  "spelling_terms search readers ws =
     (let plain = filter (\<lambda>w. \<not> list_ex is_quote w) ws
      in case (if can_match (literal plain) (start (literal plain)) then found_loop search plain readers (\<lambda>_. [])
               else Inr (\<lambda>_. [])) of
           Inl e \<Rightarrow> Inl e
         | Inr found \<Rightarrow> Inr (fold (\<lambda>w. fold insert_seen (w # found w)) ws []))"

text \<open>
  What the spellings are: the word first, then in the order of the segments and of each dictionary
  the terms that are the word once their quotes are dropped.
\<close>

definition is_spelling :: "bytes \<Rightarrow> bytes \<Rightarrow> bool" where
  "is_spelling word term \<longleftrightarrow>
     from_utf8_ok term \<and> (term = word \<or> word \<noteq> [] \<and> \<not> list_ex is_quote word \<and> strip_quotes term = word)"

fun dedup_first :: "'a list \<Rightarrow> 'a list" where
  "dedup_first [] = []"
| "dedup_first (x # xs) = x # filter (\<lambda>y. y \<noteq> x) (dedup_first xs)"

lemma dedup_first_set [simp]: "set (dedup_first xs) = set xs"
  by (induction xs) auto

lemma dedup_first_distinct [simp]: "distinct (dedup_first xs)"
  by (induction xs) auto

text \<open>Inserting one by one what is not there yet.\<close>

lemma filter_dedup_first: "filter P (dedup_first xs) = dedup_first (filter P xs)"
proof (induction xs)
  case (Cons x xs)
  show ?case
  proof (cases "P x")
    case True
    have "filter P (filter (\<lambda>y. y \<noteq> x) (dedup_first xs)) = filter (\<lambda>y. y \<noteq> x) (filter P (dedup_first xs))"
      by (simp add: conj_commute)
    then show ?thesis using Cons True by simp
  next
    case False
    then have "filter P (filter (\<lambda>y. y \<noteq> x) (dedup_first xs)) = filter P (dedup_first xs)"
      by (auto intro: filter_cong)
    then show ?thesis using Cons False by simp
  qed
qed simp

lemma fold_insert_seen: "fold insert_seen xs out = out @ dedup_first (filter (\<lambda>x. x \<notin> set out) xs)"
proof (induction xs arbitrary: out)
  case (Cons x xs)
  show ?case
  proof (cases "x \<in> set out")
    case False
    have "filter (\<lambda>y. y \<notin> set (out @ [x])) xs = filter (\<lambda>y. y \<noteq> x) (filter (\<lambda>y. y \<notin> set out) xs)"
      by (auto simp: filter_filter intro: filter_cong)
    then show ?thesis
      using Cons False by (simp add: insert_seen_def filter_dedup_first)
  qed (use Cons in \<open>simp add: insert_seen_def\<close>)
qed simp

lemma fold_insert_seen_Nil: "fold insert_seen xs [] = dedup_first xs"
  by (simp add: fold_insert_seen)

lemma fold_push_new: "fold push_new xs out = fold insert_seen (filter from_utf8_ok xs) out"
  by (induction xs arbitrary: out) (auto simp: push_new_def insert_seen_def)

text \<open>What a wrapped automaton of words accepts.\<close>

lemma quoted_literal_accepts:
  "accepts (quote_transparent (literal ws)) term \<longleftrightarrow>
     term \<in> set ws \<or> strip_quotes term \<noteq> [] \<and> strip_quotes term \<in> set ws"
  by (simp add: lit.quote_accepts literal_accepts)

lemma streams_literal:
  "streams search \<Longrightarrow> search (quote_transparent (literal ws)) terms =
    filter (\<lambda>term. term \<in> set ws \<or> strip_quotes term \<noteq> [] \<and> strip_quotes term \<in> set ws) terms"
proof -
  assume "streams search"
  then have "search (quote_transparent (literal ws)) terms = filter (accepts (quote_transparent (literal ws))) terms"
    unfolding streams_def using lit.transparent.automaton_axioms by blast
  moreover have "accepts (quote_transparent (literal ws)) =
      (\<lambda>term. term \<in> set ws \<or> strip_quotes term \<noteq> [] \<and> strip_quotes term \<in> set ws)"
    by (rule ext) (rule quoted_literal_accepts)
  ultimately show ?thesis by simp
qed

text \<open>The dictionaries, when all of them open.\<close>

fun dictionaries :: "('e + bytes list) list \<Rightarrow> 'e + bytes list" where
  "dictionaries [] = Inr []"
| "dictionaries (Inl e # readers) = Inl e"
| "dictionaries (Inr terms # readers) =
     (case dictionaries readers of Inl e \<Rightarrow> Inl e | Inr rest \<Rightarrow> Inr (terms @ rest))"

lemma spellings_loop_all:
  "spellings_loop search word readers out =
     (case dictionaries readers of Inl e \<Rightarrow> Inl e
      | Inr _ \<Rightarrow> Inr (fold push_new (concat (map (\<lambda>r. case r of Inl _ \<Rightarrow> [] | Inr terms \<Rightarrow>
          search (quote_transparent (literal [word])) terms) readers)) out))"
  by (induction readers arbitrary: out) (auto split: sum.split)

lemma dictionaries_all:
  "dictionaries readers = Inr terms \<Longrightarrow>
    concat (map (\<lambda>r. case r of Inl _ \<Rightarrow> [] | Inr terms \<Rightarrow> filter P terms) readers) = filter P terms"
  by (induction readers arbitrary: terms rule: dictionaries.induct) (auto split: sum.splits)

lemma no_quotes_strip: "\<not> list_ex is_quote w \<Longrightarrow> strip_quotes w = w"
  by (induction w) auto

lemma strip_no_quotes: "\<not> list_ex is_quote (strip_quotes w)"
  by (induction w) auto

lemma spellings_eq:
  assumes "streams search"
  shows "spellings search readers word =
    (if list_ex is_quote word then Inr [word]
     else case dictionaries readers of Inl e \<Rightarrow> Inl e
       | Inr terms \<Rightarrow> Inr (dedup_first (word # filter (is_spelling word) terms)))"
proof (cases "list_ex is_quote word")
  case False
  have walk: "search (quote_transparent (literal [word])) =
      filter (\<lambda>term. term = word \<or> strip_quotes term \<noteq> [] \<and> strip_quotes term = word)"
    using streams_literal [OF assms] by (intro ext) simp
  have "fold push_new (filter (\<lambda>term. term = word \<or> strip_quotes term \<noteq> [] \<and> strip_quotes term = word) terms) [word] =
      dedup_first (word # filter (is_spelling word) terms)" for terms
  proof -
    have "filter from_utf8_ok (filter (\<lambda>term. term = word \<or> strip_quotes term \<noteq> [] \<and> strip_quotes term = word) terms) =
        filter (is_spelling word) terms"
      using False by (auto simp: is_spelling_def intro!: filter_cong)
    then show ?thesis
      using fold_insert_seen_Nil [of "word # filter (is_spelling word) terms"]
      by (simp add: fold_push_new insert_seen_def)
  qed
  then show ?thesis
    using False by (simp add: spellings_def spellings_loop_all walk dictionaries_all split: sum.split)
qed (simp add: spellings_def)

lemma found_loop_eq:
  assumes "streams search"
  shows "found_loop search ws readers found =
    (case dictionaries readers of Inl e \<Rightarrow> Inl e
     | Inr terms \<Rightarrow> Inr (\<lambda>w. found w @ filter (\<lambda>term. from_utf8_ok term \<and> strip_quotes term = w \<and>
         (term \<in> set ws \<or> strip_quotes term \<noteq> [] \<and> strip_quotes term \<in> set ws)) terms))"
proof (induction readers arbitrary: found)
  case Nil
  then show ?case by simp
next
  case (Cons reader readers)
  have add: "fold add_found terms found = (\<lambda>w. found w @ filter (\<lambda>term. from_utf8_ok term \<and> strip_quotes term = w) terms)"
    for terms found
    by (induction terms arbitrary: found) (auto simp: add_found_def)
  show ?case
  proof (cases reader)
    case (Inr terms)
    have "filter (\<lambda>term. from_utf8_ok term \<and> strip_quotes term = w)
          (filter (\<lambda>term. term \<in> set ws \<or> strip_quotes term \<noteq> [] \<and> strip_quotes term \<in> set ws) terms) =
        filter (\<lambda>term. from_utf8_ok term \<and> strip_quotes term = w \<and>
         (term \<in> set ws \<or> strip_quotes term \<noteq> [] \<and> strip_quotes term \<in> set ws)) terms" for w
      by (auto intro!: filter_cong)
    then show ?thesis
      using Inr Cons by (simp add: streams_literal [OF assms] add split: sum.split)
  qed simp
qed

lemma dedup_first_append: "dedup_first (xs @ ys) = dedup_first xs @ filter (\<lambda>y. y \<notin> set xs) (dedup_first ys)"
  by (induction xs) (auto simp: filter_filter intro!: filter_cong)

lemma dedup_first_idem [simp]: "dedup_first (dedup_first xs) = dedup_first xs"
proof -
  have "distinct ys \<Longrightarrow> dedup_first ys = ys" for ys :: "'a list"
    by (induction ys) (auto intro: filter_True)
  then show ?thesis by simp
qed

lemma dedup_first_concat: "dedup_first (concat (map (\<lambda>x. dedup_first (f x)) xs)) = dedup_first (concat (map f xs))"
  by (induction xs) (simp_all add: dedup_first_append)

lemma fold_insert_concat: "fold (\<lambda>w. fold insert_seen (f w)) ws out = fold insert_seen (concat (map f ws)) out"
  by (induction ws arbitrary: out) simp_all

text \<open>The spellings of every word, one after the other, with the first error.\<close>

fun spellings_each :: "(literal_state quote_state) walk \<Rightarrow> ('e + bytes list) list \<Rightarrow> bytes list \<Rightarrow> 'e + bytes list" where
  "spellings_each search readers [] = Inr []"
| "spellings_each search readers (w # ws) =
     (case spellings search readers w of
        Inl e \<Rightarrow> Inl e
      | Inr out \<Rightarrow> (case spellings_each search readers ws of Inl e \<Rightarrow> Inl e | Inr rest \<Rightarrow> Inr (out @ rest)))"

lemma quoted_dedup: "list_ex is_quote w \<Longrightarrow> dedup_first (w # filter (is_spelling w) terms) = [w]"
  by (auto simp: is_spelling_def filter_empty_conv)

lemma spellings_each_eq:
  assumes "streams search"
  shows "spellings_each search readers ws =
    (case (if list_all (list_ex is_quote) ws then Inr [] else dictionaries readers) of
       Inl e \<Rightarrow> Inl e
     | Inr terms \<Rightarrow> Inr (concat (map (\<lambda>w. dedup_first (w # filter (is_spelling w) terms)) ws)))"
proof (induction ws)
  case (Cons w ws)
  have all: "list_all (list_ex is_quote) vs \<Longrightarrow> concat (map (\<lambda>w. dedup_first (w # filter (is_spelling w) terms)) vs) = vs"
    for vs terms
    by (induction vs) (simp_all add: quoted_dedup del: dedup_first.simps)
  have singles: "concat (map (\<lambda>w. dedup_first [w]) vs) = vs" for vs :: "bytes list"
    by (induction vs) simp_all
  show ?case
  proof (cases "list_ex is_quote w")
    case True
    then show ?thesis
      using Cons quoted_dedup [of w] dedup_first.simps(2) [of w "[]"]
      by (auto simp: spellings_eq [OF assms] simp del: dedup_first.simps(2) split: sum.splits)
  next
    case False
    then show ?thesis
      using Cons all [of ws] singles [of ws]
      by (auto simp: spellings_eq [OF assms] simp del: dedup_first.simps split: sum.splits)
  qed
qed simp

lemma spelling_terms_eq:
  assumes "streams search"
  shows "spelling_terms search readers ws =
    (case (if list_all (list_ex is_quote) ws then Inr [] else dictionaries readers) of
       Inl e \<Rightarrow> Inl e
     | Inr terms \<Rightarrow> Inr (dedup_first (concat (map (\<lambda>w. w # filter (is_spelling w) terms) ws))))"
proof -
  define plain where "plain = filter (\<lambda>w. \<not> list_ex is_quote w) ws"
  have any: "can_match (literal plain) (start (literal plain)) \<longleftrightarrow> plain \<noteq> []"
    by (simp add: literal_def literal_automaton_def literal_start_def literal_new_def sort_dedup_def)
  have none: "plain = [] \<longleftrightarrow> list_all (list_ex is_quote) ws"
    by (simp add: plain_def filter_empty_conv list_all_iff)
  define found where "found terms w = filter (\<lambda>term. from_utf8_ok term \<and> strip_quotes term = w \<and>
      (term \<in> set plain \<or> strip_quotes term \<noteq> [] \<and> strip_quotes term \<in> set plain)) terms" for terms w
  have loop: "found_loop search plain readers (\<lambda>_. []) =
      (case dictionaries readers of Inl e \<Rightarrow> Inl e | Inr terms \<Rightarrow> Inr (found terms))"
    by (simp add: found_loop_eq [OF assms] found_def [abs_def] cong: sum.case_cong)
  have found: "found terms w = (if list_ex is_quote w then [] else filter (is_spelling w) terms)" if "w \<in> set ws" for w terms
  proof (cases "list_ex is_quote w")
    case True
    then show ?thesis using strip_no_quotes by (auto simp: found_def filter_empty_conv)
  next
    case False
    then have "w \<in> set plain" using that by (simp add: plain_def)
    moreover have "strip_quotes t = t" if "t \<in> set plain" for t
      using that no_quotes_strip by (auto simp: plain_def)
    ultimately have "(from_utf8_ok term \<and> strip_quotes term = w \<and>
        (term \<in> set plain \<or> strip_quotes term \<noteq> [] \<and> strip_quotes term \<in> set plain)) \<longleftrightarrow> is_spelling w term" for "term"
      using False by (auto simp: is_spelling_def)
    then show ?thesis using False by (simp add: found_def)
  qed
  show ?thesis
  proof (cases "plain = []")
    case True
    then have all: "list_all (list_ex is_quote) ws" using none by simp
    have "concat (map (\<lambda>w. w # filter (is_spelling w) []) ws) = ws" by (induction ws) auto
    then show ?thesis
      using True all any
      by (simp add: spelling_terms_def Let_def fold_insert_concat fold_insert_seen_Nil flip: plain_def)
  next
    case False
    then have some: "\<not> list_all (list_ex is_quote) ws" using none by simp
    have same: "dedup_first (concat (map (\<lambda>w. w # (if list_ex is_quote w then [] else filter (is_spelling w) terms)) ws)) =
        dedup_first (concat (map (\<lambda>w. w # filter (is_spelling w) terms) ws))" for terms
    proof -
      have "dedup_first (w # (if list_ex is_quote w then [] else filter (is_spelling w) terms)) =
          dedup_first (w # filter (is_spelling w) terms)" for w
        using quoted_dedup [of w terms] by (cases "list_ex is_quote w") simp_all
      then show ?thesis by (subst (1 2) dedup_first_concat [symmetric]) (simp only:)
    qed
    have result: "fold (\<lambda>w. fold insert_seen (w # found terms w)) ws [] =
        dedup_first (concat (map (\<lambda>w. w # filter (is_spelling w) terms) ws))" for terms
    proof -
      have "map (\<lambda>w. w # found terms w) ws =
          map (\<lambda>w. w # (if list_ex is_quote w then [] else filter (is_spelling w) terms)) ws"
        using found by simp
      then show ?thesis
        by (simp only: fold_insert_concat fold_insert_seen_Nil same)
    qed
    have "spelling_terms search readers ws =
        (case dictionaries readers of Inl e \<Rightarrow> Inl e
         | Inr terms \<Rightarrow> Inr (fold (\<lambda>w. fold insert_seen (w # found terms w)) ws []))"
    proof -
      have open_automaton: "can_match (literal plain) (start (literal plain)) = True" using any False by simp
      show ?thesis
        unfolding spelling_terms_def Let_def plain_def [symmetric] open_automaton if_True loop
        by (cases "dictionaries readers") (simp_all only: sum.case)
    qed
    then show ?thesis using some by (simp only: result if_False)
  qed
qed

subsection \<open>Phrases over spellings\<close>

definition MAX_SPELLING_PHRASES :: nat where
  "MAX_SPELLING_PHRASES = 16"

definition checked_mul :: "nat \<Rightarrow> nat \<Rightarrow> nat option" where
  "checked_mul a b = (if a * b < 2 ^ 64 then Some (a * b) else None)"

text \<open>The queries built: phrases of given terms with a slop, their union, one phrase over automata, and the
  wrapper for scores.\<close>

datatype phrase_query =
    Phrase_Query "bytes list" nat
  | Union_Query "phrase_query list"
  | Regex_Phrase_Query "literal_state quote_state fst_automaton list" nat
  | Spelling_Scored phrase_query "bytes list list"

fun combination_count :: "bytes list list \<Rightarrow> nat \<Rightarrow> nat option" where
  "combination_count [] n = Some n"
| "combination_count (s # ss) n = Option.bind (checked_mul n (length s)) (combination_count ss)"

fun pick_terms :: "bytes list list \<Rightarrow> nat \<Rightarrow> bytes list" where
  "pick_terms [] rest = []"
| "pick_terms (options # ss) rest = options ! (rest mod length options) # pick_terms ss (rest div length options)"

definition scored_wrap :: "phrase_query \<Rightarrow> bytes list list \<Rightarrow> phrase_query" where
  "scored_wrap inner ws =
     (let groups = filter (\<lambda>spellings. 1 < length spellings) ws
      in if groups = [] then inner else Spelling_Scored inner groups)"

text \<open>\<^verbatim>\<open>PhraseQuery::new\<close>, with its slop set: it panics for fewer than two terms (\<open>None\<close>).\<close>

definition phrase_new :: "bytes list \<Rightarrow> nat \<Rightarrow> phrase_query option" where
  "phrase_new terms slop = (if length terms < 2 then None else Some (Phrase_Query terms slop))"

text \<open>The phrases of a union, in order, unless one panics.\<close>

fun phrases_new :: "(nat \<Rightarrow> bytes list) \<Rightarrow> nat \<Rightarrow> nat list \<Rightarrow> phrase_query list option" where
  "phrases_new pick slop [] = Some []"
| "phrases_new pick slop (n # ns) = do {
     q \<leftarrow> phrase_new (pick n) slop;
     qs \<leftarrow> phrases_new pick slop ns;
     Some (q # qs) }"

definition phrase_query_from_spellings :: "bytes list list \<Rightarrow> nat \<Rightarrow> (nat \<Rightarrow> bytes list) \<Rightarrow> phrase_query option" where
  "phrase_query_from_spellings spelled slop alternatives =
     (let automata = map (\<lambda>offset. quote_transparent (literal (alternatives offset))) [0..<length spelled];
          split = scored_wrap (Regex_Phrase_Query automata slop) spelled
      in case combination_count spelled 1 of
           None \<Rightarrow> Some split
         | Some n \<Rightarrow>
             if n \<le> MAX_SPELLING_PHRASES then
               if n = 1 then phrase_new (pick_terms spelled 0) slop
               else map_option (\<lambda>phrases. scored_wrap (Union_Query phrases) spelled)
                      (phrases_new (pick_terms spelled) slop [0..<n])
             else Some split)"

fun each_result :: "('a \<Rightarrow> 'e + 'b) \<Rightarrow> 'a list \<Rightarrow> 'e + 'b list" where
  "each_result f [] = Inr []"
| "each_result f (x # xs) =
     (case f x of Inl e \<Rightarrow> Inl e
      | Inr y \<Rightarrow> (case each_result f xs of Inl e \<Rightarrow> Inl e | Inr ys \<Rightarrow> Inr (y # ys)))"

definition spelled_phrase :: "(literal_state quote_state) walk \<Rightarrow> ('e + bytes list) list \<Rightarrow> bytes list \<Rightarrow> nat \<Rightarrow> 'e + phrase_query option" where
  "spelled_phrase search readers ws slop =
     map_sum id (\<lambda>spelled. phrase_query_from_spellings spelled slop (\<lambda>at. [ws ! at]))
       (each_result (spellings search readers) ws)"

definition alternatives_phrase_query :: "(literal_state quote_state) walk \<Rightarrow> ('e + bytes list) list \<Rightarrow> bytes list list \<Rightarrow> nat \<Rightarrow> 'e + phrase_query option" where
  "alternatives_phrase_query search readers ws slop =
     map_sum id (\<lambda>spelled. phrase_query_from_spellings spelled slop (\<lambda>at. ws ! at))
       (each_result (spelling_terms search readers) ws)"

text \<open>The documents a query matches. When a document has given terms as a phrase within a slop is the
  library's matching, the parameter \<open>within\<close>; a union matches what one of its phrases does, and a phrase over
  automata what a phrase of terms they accept does.\<close>

fun query_matches :: "(nat \<Rightarrow> bytes list \<Rightarrow> 'd \<Rightarrow> bool) \<Rightarrow> phrase_query \<Rightarrow> 'd \<Rightarrow> bool" where
  "query_matches within (Phrase_Query terms slop) d \<longleftrightarrow> within slop terms d"
| "query_matches within (Union_Query qs) d \<longleftrightarrow> (\<exists>q \<in> set qs. query_matches within q d)"
| "query_matches within (Regex_Phrase_Query automata slop) d \<longleftrightarrow>
     (\<exists>terms. list_all2 accepts automata terms \<and> within slop terms d)"
| "query_matches within (Spelling_Scored q groups) d \<longleftrightarrow> query_matches within q d"

text \<open>The query under the wrapper, and the groups the wrapper scores as one.\<close>

fun unscored :: "phrase_query \<Rightarrow> phrase_query" where
  "unscored (Spelling_Scored q groups) = q"
| "unscored q = q"

fun score_groups :: "phrase_query \<Rightarrow> bytes list list" where
  "score_groups (Spelling_Scored q groups) = groups"
| "score_groups q = []"

text \<open>The kind of query that a phrase with given spellings is: one phrase for one combination of
  spellings, the union of the phrases of all combinations up to sixteen of them, and one phrase
  over automata beyond; scored with the spellings of each word that has several as one term.\<close>

definition phrase_shape :: "bytes list list \<Rightarrow> nat \<Rightarrow> phrase_query \<Rightarrow> bool" where
  "phrase_shape spelled slop q \<longleftrightarrow>
     (let n = prod_list (map length spelled)
      in score_groups q = filter (\<lambda>spellings. 1 < length spellings) spelled \<and>
         (if n = 1 then unscored q = Phrase_Query (map hd spelled) slop
          else if n \<le> 16 then
            (\<exists>picks. unscored q = Union_Query (map (\<lambda>terms. Phrase_Query terms slop) picks)
               \<and> length picks = n \<and> set picks = {terms. list_all2 (\<lambda>s t. t \<in> set s) spelled terms})
          else (\<exists>automata. unscored q = Regex_Phrase_Query automata slop \<and> length automata = length spelled)))"

lemma combination_count_prod: "combination_count ss k = Some n \<Longrightarrow> n = k * prod_list (map length ss)"
  by (induction ss arbitrary: k) (fastforce simp: checked_mul_def mult.assoc split: if_splits bind_splits)+

lemma pick_terms_all:
  "list_all2 (\<lambda>s t. t \<in> set s) ss ts \<longleftrightarrow> (\<exists>pick < prod_list (map length ss). ts = pick_terms ss pick)"
proof (induction ss arbitrary: ts)
  case (Cons s ss)
  show ?case
  proof
    assume "list_all2 (\<lambda>s t. t \<in> set s) (s # ss) ts"
    then obtain t ts' where ts: "ts = t # ts'" "t \<in> set s" "list_all2 (\<lambda>s t. t \<in> set s) ss ts'"
      by (auto simp: list_all2_Cons1)
    then obtain pick where pick: "pick < prod_list (map length ss)" "ts' = pick_terms ss pick"
      using Cons by blast
    obtain i where i: "i < length s" "s ! i = t" using ts(2) by (auto simp: in_set_conv_nth)
    have "i + length s * pick < length s + length s * pick" using i by simp
    also have "\<dots> = length s * Suc pick" by simp
    also have "\<dots> \<le> length s * prod_list (map length ss)" using pick(1) by (intro mult_le_mono2) simp
    finally have bound: "i + length s * pick < prod_list (map length (s # ss))" by simp
    have "length s \<noteq> 0" using i(1) by linarith
    then have "(i + length s * pick) div length s = pick + i div length s" by (rule div_mult_self2)
    moreover have "(i + length s * pick) mod length s = i" "i div length s = 0" using i(1) by simp_all
    ultimately have "ts = pick_terms (s # ss) (i + length s * pick)" using ts(1) i pick(2) by simp
    with bound show "\<exists>pick < prod_list (map length (s # ss)). ts = pick_terms (s # ss) pick" by blast
  next
    assume "\<exists>pick < prod_list (map length (s # ss)). ts = pick_terms (s # ss) pick"
    then obtain pick where pick: "pick < length s * prod_list (map length ss)" "ts = pick_terms (s # ss) pick"
      by auto
    then have "0 < length s" by (cases "length s") auto
    moreover have "pick div length s < prod_list (map length ss)"
      using pick(1) by (simp add: less_mult_imp_div_less mult.commute)
    then have "list_all2 (\<lambda>s t. t \<in> set s) ss (pick_terms ss (pick div length s))" using Cons by blast
    ultimately show "list_all2 (\<lambda>s t. t \<in> set s) (s # ss) ts" using pick(2) by simp
  qed
qed auto

lemma pick_terms_length [simp]: "length (pick_terms ss pick) = length ss"
  by (induction ss arbitrary: pick) simp_all

lemma pick_terms_0: "[] \<notin> set ss \<Longrightarrow> pick_terms ss 0 = map hd ss"
  by (induction ss) (auto simp: hd_conv_nth)

lemma combination_overflow:
  "combination_count ss k = None \<Longrightarrow> [] \<notin> set ss \<Longrightarrow> 2 ^ 64 \<le> k * prod_list (map length ss)"
proof (induction ss arbitrary: k)
  case (Cons s ss)
  have pos: "1 \<le> prod_list (map length ss)" using Cons.prems(2) by (induction ss) (auto simp: Suc_le_eq)
  show ?case
  proof (cases "checked_mul k (length s)")
    case None
    then have "2 ^ 64 \<le> k * length s" by (simp add: checked_mul_def split: if_splits)
    also have "\<dots> \<le> k * length s * prod_list (map length ss)" using pos by simp
    finally show ?thesis by (simp add: mult.assoc)
  next
    case (Some m)
    then have "m = k * length s" by (simp add: checked_mul_def split: if_splits)
    then have "2 ^ 64 \<le> k * length s * prod_list (map length ss)" using Cons.IH [of m] Cons.prems Some by simp
    then show ?thesis by (simp add: mult.assoc)
  qed
qed simp

lemma prod_one: "prod_list (map length ss) = 1 \<Longrightarrow> s \<in> set ss \<Longrightarrow> length s = 1" for ss :: "'a list list"
  by (induction ss) auto

lemma scored_wrap_simps [simp]:
  "query_matches within (scored_wrap q ws) d \<longleftrightarrow> query_matches within q d"
  "unscored (scored_wrap (Union_Query qs) ws) = Union_Query qs"
  "unscored (scored_wrap (Regex_Phrase_Query as n) ws) = Regex_Phrase_Query as n"
  "score_groups (scored_wrap (Union_Query qs) ws) = filter (\<lambda>spellings. 1 < length spellings) ws"
  "score_groups (scored_wrap (Regex_Phrase_Query as n) ws) = filter (\<lambda>spellings. 1 < length spellings) ws"
  by (simp_all add: scored_wrap_def Let_def)

lemma phrases_new_some:
  "(\<And>n. 2 \<le> length (pick n)) \<Longrightarrow> phrases_new pick slop ns = Some (map (\<lambda>n. Phrase_Query (pick n) slop) ns)"
  by (induction ns) (simp_all add: phrase_new_def not_less)

text \<open>With two words or more the query is built, is of its kind, and matches a document that has some choice
  of spellings as a phrase within the slop.\<close>

lemma phrase_from_spellings:
  assumes two: "2 \<le> length spelled" and some: "[] \<notin> set spelled"
    and at: "\<And>i t ts d. i < length spelled \<Longrightarrow> within slop ts d \<Longrightarrow> t \<in> set ts \<Longrightarrow>
      accepts (quote_transparent (literal (alternatives i))) t \<longleftrightarrow> t \<in> set (spelled ! i)"
  shows "\<exists>q. phrase_query_from_spellings spelled slop alternatives = Some q \<and> phrase_shape spelled slop q
    \<and> (\<forall>d. query_matches within q d \<longleftrightarrow> (\<exists>ts. list_all2 (\<lambda>s t. t \<in> set s) spelled ts \<and> within slop ts d))"
proof -
  define automata where "automata = map (\<lambda>offset. quote_transparent (literal (alternatives offset))) [0..<length spelled]"
  let ?n = "prod_list (map length spelled)"
  define split where "split = scored_wrap (Regex_Phrase_Query automata slop) spelled"
  have accepted: "list_all2 accepts automata ts \<longleftrightarrow> list_all2 (\<lambda>s t. t \<in> set s) spelled ts" if "within slop ts d" for ts d
    using at [OF _ that] by (auto simp: automata_def list_all2_conv_all_nth)
  have large: "phrase_shape spelled slop split
      \<and> (\<forall>d. query_matches within split d \<longleftrightarrow> (\<exists>ts. list_all2 (\<lambda>s t. t \<in> set s) spelled ts \<and> within slop ts d))"
    if "16 < ?n"
    using that accepted by (auto simp: split_def phrase_shape_def Let_def automata_def [symmetric]) (simp add: automata_def)
  have pick: "2 \<le> length (pick_terms spelled m)" for m using two by simp
  show ?thesis
  proof (cases "combination_count spelled 1")
    case None
    then have "16 < ?n" using combination_overflow [of spelled 1] some by simp
    then show ?thesis using None large
      by (auto simp: phrase_query_from_spellings_def Let_def automata_def [symmetric] split_def [symmetric])
  next
    case (Some n)
    then have n: "n = ?n" using combination_count_prod by fastforce
    consider (one) "?n = 1" | (union) "?n \<noteq> 1" "?n \<le> 16" | (split) "16 < ?n" by linarith
    then show ?thesis
    proof cases
      case one
      let ?q = "Phrase_Query (pick_terms spelled 0) slop"
      have "score_groups ?q = filter (\<lambda>spellings. 1 < length spellings) spelled"
        using prod_one [OF one] by (auto simp: filter_empty_conv)
      then have "phrase_shape spelled slop ?q" using one some by (simp add: phrase_shape_def pick_terms_0)
      moreover have "query_matches within ?q d \<longleftrightarrow> (\<exists>ts. list_all2 (\<lambda>s t. t \<in> set s) spelled ts \<and> within slop ts d)" for d
        using pick_terms_all [of spelled] one by simp
      moreover have "phrase_query_from_spellings spelled slop alternatives = Some ?q"
        using Some n one two by (simp add: phrase_query_from_spellings_def MAX_SPELLING_PHRASES_def phrase_new_def)
      ultimately show ?thesis by blast
    next
      case union
      let ?picks = "map (pick_terms spelled) [0..<?n]"
      let ?q = "scored_wrap (Union_Query (map (\<lambda>terms. Phrase_Query terms slop) ?picks)) spelled"
      have picks: "set ?picks = {ts. list_all2 (\<lambda>s t. t \<in> set s) spelled ts}"
        using pick_terms_all [of spelled] by (auto simp: image_iff)
      have "phrase_shape spelled slop ?q"
        unfolding phrase_shape_def Let_def if_not_P [OF union(1)] if_P [OF union(2)]
        by (intro conjI exI [of _ ?picks] picks) simp_all
      moreover have "query_matches within ?q d \<longleftrightarrow> (\<exists>ts. list_all2 (\<lambda>s t. t \<in> set s) spelled ts \<and> within slop ts d)" for d
      proof -
        have "query_matches within ?q d \<longleftrightarrow> (\<exists>ts \<in> set ?picks. within slop ts d)" by auto
        then show ?thesis unfolding picks by blast
      qed
      moreover have "phrase_query_from_spellings spelled slop alternatives = Some ?q"
        using Some n union phrases_new_some [of "pick_terms spelled" slop "[0..<?n]", OF pick]
        by (simp add: phrase_query_from_spellings_def MAX_SPELLING_PHRASES_def o_def)
      ultimately show ?thesis by blast
    next
      case split
      then show ?thesis using Some n large
        by (auto simp: phrase_query_from_spellings_def Let_def MAX_SPELLING_PHRASES_def automata_def [symmetric] split_def [symmetric])
    qed
  qed
qed

lemma each_result_nth:
  "each_result f xs = Inr ys \<Longrightarrow> length ys = length xs \<and> (\<forall>i < length xs. f (xs ! i) = Inr (ys ! i))"
  by (induction xs arbitrary: ys) (auto simp: nth_Cons split: sum.splits nat.splits)

lemma each_result_defined: "(\<And>x. x \<in> set xs \<Longrightarrow> \<exists>y. f x = Inr y) \<Longrightarrow> \<exists>ys. each_result f xs = Inr ys"
proof (induction xs)
  case (Cons x xs)
  then obtain y ys where "f x = Inr y" "each_result f xs = Inr ys" by (metis list.set_intros)
  then show ?case by simp
qed simp

lemma spelling_accepted:
  assumes "from_utf8_ok term"
  shows "accepts (quote_transparent (literal ws)) term \<longleftrightarrow> (\<exists>w \<in> set ws. is_spelling w term)"
proof
  assume "accepts (quote_transparent (literal ws)) term"
  then show "\<exists>w \<in> set ws. is_spelling w term"
    using assms strip_no_quotes unfolding quoted_literal_accepts is_spelling_def by blast
next
  assume "\<exists>w \<in> set ws. is_spelling w term"
  then show "accepts (quote_transparent (literal ws)) term"
    by (auto simp: quoted_literal_accepts is_spelling_def)
qed

lemma spellings_mem:
  assumes "streams search" "dictionaries readers = Inr terms" "t \<in> set terms" "from_utf8_ok t"
  shows "\<exists>out. spellings search readers w = Inr out \<and> (t \<in> set out \<longleftrightarrow> is_spelling w t)"
proof (cases "list_ex is_quote w")
  case True
  then show ?thesis using assms(4) by (auto simp: spellings_eq [OF assms(1)] is_spelling_def)
next
  case False
  then show ?thesis using assms by (auto simp: spellings_eq is_spelling_def)
qed

lemma spelling_terms_some:
  assumes "streams search" "dictionaries readers = Inr terms" "ws \<noteq> []"
  shows "spelling_terms search readers ws \<noteq> Inr []"
proof -
  have none: "dedup_first xs = [] \<longleftrightarrow> xs = []" for xs :: "bytes list" by (cases xs) simp_all
  show ?thesis
    using assms(2,3) by (cases ws) (auto simp: spelling_terms_eq [OF assms(1)] none simp del: dedup_first.simps)
qed

lemma spelling_terms_mem:
  assumes "streams search" "dictionaries readers = Inr terms" "t \<in> set terms" "from_utf8_ok t"
  shows "\<exists>out. spelling_terms search readers ws = Inr out \<and> (t \<in> set out \<longleftrightarrow> (\<exists>w \<in> set ws. is_spelling w t))"
proof -
  have "t \<in> set ws \<Longrightarrow> \<exists>w \<in> set ws. is_spelling w t" using assms(4) by (auto simp: is_spelling_def)
  then show ?thesis
    using assms by (cases "list_all (list_ex is_quote) ws")
      (auto simp: spelling_terms_eq [OF assms(1)] is_spelling_def list_all_iff)
qed

subsection \<open>The properties\<close>

text \<open>C37: an automaton made transparent to quotes accepts exactly the terms that the automaton accepts as
  they are written or without their quotes, a term of quotes alone only as written. This holds for
  every automaton that keeps the contract of \<^verbatim>\<open>can_match\<close>, also when a walk abandons every state that
  \<^verbatim>\<open>can_match\<close> gives up, so no spelling is lost to pruning although the two runs are merged until the
  first quote.\<close>

theorem quote_transparent_exact:
  assumes "automaton A"
  shows "accepts (quote_transparent A) w \<longleftrightarrow>
    accepts A w \<or> strip_quotes w \<noteq> [] \<and> accepts A (strip_quotes w)"
  by (rule quoted.quote_accepts) (use assms in \<open>simp add: quoted_def\<close>)

text \<open>The word \<^verbatim>\<open>ab\<close> is accepted with a quote inside, its quotes alone are not.\<close>

theorem quote_transparent_exact_witness:
  "accepts (quote_transparent (literal [[97, 98], []])) [97, 0x22, 98] \<and>
   \<not> accepts (quote_transparent (literal [[97, 98], []])) [0x22]"
  using quote_transparent_exact [OF lit.automaton_axioms, of "[[97, 98], []]" "[97, 0x22, 98]"]
    quote_transparent_exact [OF lit.automaton_axioms, of "[[97, 98], []]" "[0x22]"]
  by (simp add: literal_accepts is_quote_def)

text \<open>C19: the spellings of a word are the word first, indexed or not, and then every term of the
  dictionaries that is the word with quotes inserted, each once. A word that has quotes has itself as
  its only spelling, and no dictionary is opened for it; otherwise the first dictionary that does
  not open is the error.\<close>

theorem spellings_exact:
  assumes "streams search"
  shows "spellings search readers word =
    (if list_ex is_quote word then Inr [word]
     else case dictionaries readers of Inl e \<Rightarrow> Inl e
       | Inr terms \<Rightarrow> Inr (word # filter (\<lambda>t. t \<noteq> word)
           (dedup_first (filter (\<lambda>t. from_utf8_ok t \<and> word \<noteq> [] \<and> strip_quotes t = word) terms))))"
proof (cases "list_ex is_quote word")
  case False
  have "filter (\<lambda>t. t \<noteq> word) (filter (is_spelling word) terms) =
      filter (\<lambda>t. t \<noteq> word) (filter (\<lambda>t. from_utf8_ok t \<and> word \<noteq> [] \<and> strip_quotes t = word) terms)" for terms
    using False by (auto simp: is_spelling_def intro!: filter_cong)
  then show ?thesis
    using False by (simp add: spellings_eq [OF assms] filter_dedup_first cong: sum.case_cong)
qed (simp add: spellings_eq [OF assms])

definition demo_walk :: "'s walk" where
  "demo_walk A terms = filter (accepts A) terms"

lemma demo_streams: "streams demo_walk"
  by (simp add: streams_def demo_walk_def)

theorem spellings_exact_witness:
  "spellings demo_walk [Inr [[97, 0x22, 98], [97, 98]], Inr [[0x27, 97, 98], [97, 0x22, 98], [99]] :: nat + bytes list] [97, 98] =
     Inr [[97, 98], [97, 0x22, 98], [0x27, 97, 98]]"
  unfolding spellings_exact [OF demo_streams]
  by (simp add: is_quote_def utf8_width_def Let_def)

text \<open>The one walk for many words gives what a walk for each of them gives. For every list of words,
  \<^verbatim>\<open>spelling_terms\<close> yields the spellings of the words one after the other, each term at its first place,
  and the same error when a dictionary does not open; the shared automaton and the map by quote-free
  form mix up no two words, and words with quotes pass through as they are.\<close>

theorem spelling_terms_batch:
  assumes "streams search"
  shows "spelling_terms search readers ws =
    (case spellings_each search readers ws of Inl e \<Rightarrow> Inl e | Inr out \<Rightarrow> Inr (dedup_first out))"
  unfolding spelling_terms_eq [OF assms] spellings_each_eq [OF assms]
  by (auto simp: dedup_first_concat simp del: dedup_first.simps split: sum.split)

theorem spelling_terms_batch_witness:
  "spelling_terms demo_walk [Inr [[97, 0x22, 98], [99, 0x27]] :: nat + bytes list] [[99], [97, 0x22, 98], [97, 98]] =
     Inr [[99], [99, 0x27], [97, 0x22, 98], [97, 98]]"
  unfolding spelling_terms_batch [OF demo_streams] spellings_each_eq [OF demo_streams]
  by (simp add: is_spelling_def is_quote_def utf8_width_def Let_def)

text \<open>C38: a phrase of two words or more over spellings is built as meant and matches exactly the right documents.
  The query is one phrase when every word has one spelling, the union of the phrases of all combinations of
  spellings up to sixteen, and one phrase over automata beyond, always with the slop it was asked for; it
  matches a document exactly when the document has, as a phrase within that slop, some sequence of terms that
  are spellings of the words at their places; the same for a phrase of alternatives. Building the
  query fails only when a dictionary does not open.\<close>

theorem phrase_spellings_exact:
  assumes "streams search" "dictionaries readers = Inr terms" "2 \<le> length ws" "2 \<le> length wss" "[] \<notin> set wss"
    and within: "\<And>slop ts d. within slop ts d \<Longrightarrow> \<forall>t \<in> set ts. t \<in> set terms \<and> from_utf8_ok t"
  shows "(\<exists>spelled q. each_result (spellings search readers) ws = Inr spelled \<and>
      spelled_phrase search readers ws slop = Inr (Some q) \<and> phrase_shape spelled slop q \<and>
      (\<forall>d. query_matches within q d \<longleftrightarrow> (\<exists>ts. list_all2 is_spelling ws ts \<and> within slop ts d))) \<and>
    (\<exists>spelled q. each_result (spelling_terms search readers) wss = Inr spelled \<and>
      alternatives_phrase_query search readers wss slop = Inr (Some q) \<and> phrase_shape spelled slop q \<and>
      (\<forall>d. query_matches within q d \<longleftrightarrow>
         (\<exists>ts. list_all2 (\<lambda>ws t. \<exists>w \<in> set ws. is_spelling w t) wss ts \<and> within slop ts d)))"
proof
  have "\<exists>spelled. each_result (spellings search readers) ws = Inr spelled"
    by (rule each_result_defined) (use assms(1,2) in \<open>auto simp: spellings_eq\<close>)
  then obtain spelled where s: "each_result (spellings search readers) ws = Inr spelled" by blast
  note spelled = each_result_nth [OF s]
  have at: "t \<in> set (spelled ! i) \<longleftrightarrow> is_spelling (ws ! i) t" if "i < length ws" "within slop ts d" "t \<in> set ts" for i t ts d
    using spellings_mem [OF assms(1,2), of t "ws ! i"] within [OF that(2)] spelled that by auto
  have some: "[] \<notin> set spelled"
  proof
    assume "[] \<in> set spelled"
    then obtain i where i: "i < length ws" "spelled ! i = []" using spelled by (auto simp: in_set_conv_nth)
    then have "spellings search readers (ws ! i) = Inr []" using spelled by auto
    moreover have "dedup_first (w # out) \<noteq> []" for w and out :: "bytes list" by simp
    ultimately show False
      using assms(2) by (auto simp: spellings_eq [OF assms(1)] simp del: dedup_first.simps split: if_splits)
  qed
  obtain q where q: "phrase_query_from_spellings spelled slop (\<lambda>at. [ws ! at]) = Some q" "phrase_shape spelled slop q"
    "\<forall>d. query_matches within q d \<longleftrightarrow> (\<exists>ts. list_all2 (\<lambda>s t. t \<in> set s) spelled ts \<and> within slop ts d)"
    using phrase_from_spellings [of spelled within slop "\<lambda>at. [ws ! at]"] at spelled within some assms(3)
    by (auto simp: spelling_accepted)
  moreover have "list_all2 (\<lambda>s t. t \<in> set s) spelled ts \<longleftrightarrow> list_all2 is_spelling ws ts" if "within slop ts d" for ts d
    using at [OF _ that] spelled by (auto simp: list_all2_conv_all_nth)
  ultimately show "\<exists>spelled q. each_result (spellings search readers) ws = Inr spelled \<and>
      spelled_phrase search readers ws slop = Inr (Some q) \<and> phrase_shape spelled slop q \<and>
      (\<forall>d. query_matches within q d \<longleftrightarrow> (\<exists>ts. list_all2 is_spelling ws ts \<and> within slop ts d))"
    using s unfolding spelled_phrase_def by (intro exI [of _ spelled] exI [of _ q] conjI; (simp; fail | blast))
next
  have "\<exists>spelled. each_result (spelling_terms search readers) wss = Inr spelled"
    by (rule each_result_defined) (use assms(1,2) in \<open>auto simp: spelling_terms_eq\<close>)
  then obtain spelled where s: "each_result (spelling_terms search readers) wss = Inr spelled" by blast
  note spelled = each_result_nth [OF s]
  have at: "t \<in> set (spelled ! i) \<longleftrightarrow> (\<exists>w \<in> set (wss ! i). is_spelling w t)"
    if "i < length wss" "within slop ts d" "t \<in> set ts" for i t ts d
    using spelling_terms_mem [OF assms(1,2), of t "wss ! i"] within [OF that(2)] spelled that by auto
  have some: "[] \<notin> set spelled"
  proof
    assume "[] \<in> set spelled"
    then obtain i where i: "i < length wss" "spelled ! i = []" using spelled by (auto simp: in_set_conv_nth)
    then have "spelling_terms search readers (wss ! i) = Inr []" "wss ! i \<noteq> []"
      using spelled assms(5) by (auto simp: in_set_conv_nth)
    then show False using spelling_terms_some [OF assms(1,2)] by blast
  qed
  obtain q where q: "phrase_query_from_spellings spelled slop (\<lambda>at. wss ! at) = Some q" "phrase_shape spelled slop q"
    "\<forall>d. query_matches within q d \<longleftrightarrow> (\<exists>ts. list_all2 (\<lambda>s t. t \<in> set s) spelled ts \<and> within slop ts d)"
    using phrase_from_spellings [of spelled within slop "\<lambda>at. wss ! at"] at spelled within some assms(4)
    by (auto simp: spelling_accepted)
  moreover have "list_all2 (\<lambda>s t. t \<in> set s) spelled ts \<longleftrightarrow> list_all2 (\<lambda>ws t. \<exists>w \<in> set ws. is_spelling w t) wss ts"
    if "within slop ts d" for ts d
    using at [OF _ that] spelled by (auto simp: list_all2_conv_all_nth)
  ultimately show "\<exists>spelled q. each_result (spelling_terms search readers) wss = Inr spelled \<and>
      alternatives_phrase_query search readers wss slop = Inr (Some q) \<and> phrase_shape spelled slop q \<and>
      (\<forall>d. query_matches within q d \<longleftrightarrow>
         (\<exists>ts. list_all2 (\<lambda>ws t. \<exists>w \<in> set ws. is_spelling w t) wss ts \<and> within slop ts d))"
    using s unfolding alternatives_phrase_query_def by (intro exI [of _ spelled] exI [of _ q] conjI; (simp; fail | blast))
qed

text \<open>A matching: two terms in order with at most the slop of other terms between them, in a document of
  two terms of the dictionary.\<close>

definition demo_within :: "nat \<Rightarrow> bytes list \<Rightarrow> bytes list \<Rightarrow> bool" where
  "demo_within slop ts d \<longleftrightarrow> set d \<subseteq> {[97, 0x22, 98], [99]} \<and>
     (\<exists>s t xs ys zs. ts = [s, t] \<and> d = xs @ s # ys @ t # zs \<and> length ys \<le> slop)"

theorem phrase_spellings_exact_witness:
  "\<exists>q. spelled_phrase demo_walk [Inr [[97, 0x22, 98], [99]] :: nat + bytes list] [[97, 98], [99]] 0 = Inr (Some q) \<and>
      query_matches demo_within q [[97, 0x22, 98], [99]]"
proof -
  have "\<forall>t \<in> set ts. t \<in> set [[97, 0x22, 98], [99]] \<and> from_utf8_ok t" if "demo_within slop ts d" for slop ts d
    using that by (auto simp: demo_within_def utf8_width_def Let_def)
  note exact = phrase_spellings_exact [OF demo_streams, of "[Inr [[97, 0x22, 98], [99]] :: nat + bytes list]"
      "[[97, 0x22, 98], [99]]" "[[97, 98], [99]]" "[[[100], [97, 98]], [[99]]]" demo_within 0, OF _ _ _ _ this]
  have "demo_within 0 [[97, 0x22, 98], [99]] [[97, 0x22, 98], [99]]"
    unfolding demo_within_def
    by (intro conjI exI [of _ "[97, 0x22, 98]"] exI [of _ "[99]"] exI [of _ "[]"]) simp_all
  moreover have "list_all2 is_spelling [[97, 98], [99]] [[97, 0x22, 98], [99]]"
    by (simp add: is_spelling_def is_quote_def utf8_width_def Let_def)
  moreover have "dictionaries [Inr [[97, 0x22, 98], [99]] :: nat + bytes list] = Inr [[97, 0x22, 98], [99]]" by simp
  ultimately show ?thesis using exact by fastforce
qed

end
