(* ===== verification/TermAutomata.thy ===== *)
theory TermAutomata
  imports QuoteExpansion "HOL-Library.Product_Lexorder"
begin

section \<open>Automata over the term dictionary\<close>

text \<open>
  \<^verbatim>\<open>term_automaton.rs\<close>: the branches of a word are compiled into automata, halved while their union is
  too large for one, and the dictionary terms they accept are collected, ranked by the branch that
  accepts them, and cut to the budgets of a search. When a scan overflows, the terms are collected
  again branch by branch.

  The dense automata of \<^verbatim>\<open>regex-automata\<close> are the record \<open>dense_dfa\<close> of the operations that are called,
  and \<open>dfa_ok\<close> is what is documented of an anchored automaton that reports all its matching
  patterns; building one and walking a dictionary are parameters. Whether the flag of a cancelled
  search is seen is a parameter of each point that looks at it.
\<close>

subsection \<open>The automaton of a range of branches\<close>

record 's dense_dfa =
  next_state :: "'s \<Rightarrow> byte \<Rightarrow> 's"
  next_eoi_state :: "'s \<Rightarrow> 's"
  is_dead_state :: "'s \<Rightarrow> bool"
  is_match_state :: "'s \<Rightarrow> bool"
  match_patterns :: "'s \<Rightarrow> nat list"
  pattern_len :: nat

record ('s, 'p) term_dfa =
  dfa :: "'s dense_dfa"
  dfa_start :: 's
  first_branch :: nat
  dfa_branches :: "'p list"

definition term_dfa_new :: "('s dense_dfa \<Rightarrow> 'e + 's) \<Rightarrow> 's dense_dfa \<Rightarrow> nat \<Rightarrow> 'p list \<Rightarrow> 'e + ('s, 'p) term_dfa" where
  "term_dfa_new start_state d first ps =
     (case start_state d of
        Inl e \<Rightarrow> Inl e
      | Inr s \<Rightarrow> Inr \<lparr>dfa = d, dfa_start = s, first_branch = first, dfa_branches = ps\<rparr>)"

text \<open>The loop of \<^verbatim>\<open>matched_branch\<close>, which returns early in a dead state.\<close>

fun dfa_run :: "'s dense_dfa \<Rightarrow> 's \<Rightarrow> bytes \<Rightarrow> 's option" where
  "dfa_run d s [] = Some s"
| "dfa_run d s (b # w) = (if is_dead_state d (next_state d s b) then None else dfa_run d (next_state d s b) w)"

definition matched_branch :: "('s, 'p) term_dfa \<Rightarrow> bytes \<Rightarrow> nat option" where
  "matched_branch p term =
     (case dfa_run (dfa p) (dfa_start p) term of
        None \<Rightarrow> None
      | Some s \<Rightarrow>
          (let stop = next_eoi_state (dfa p) s
           in if \<not> is_match_state (dfa p) stop then None
              else (case match_patterns (dfa p) stop of [] \<Rightarrow> None | i # is \<Rightarrow> Some (first_branch p + Min (set (i # is))))))"

definition dfa_automaton :: "('s, 'p) term_dfa \<Rightarrow> 's fst_automaton" where
  "dfa_automaton p =
     \<lparr>start = dfa_start p, is_match = (\<lambda>s. is_match_state (dfa p) (next_eoi_state (dfa p) s)),
      can_match = (\<lambda>s. \<not> is_dead_state (dfa p) s), accept = next_state (dfa p)\<rparr>"

text \<open>What is documented of the automaton: dead states stay dead and match nothing, and after a whole term the
  match state names the patterns that match it; \<open>lang\<close> is the language of a pattern.\<close>

definition dfa_ok :: "('p \<Rightarrow> bytes \<Rightarrow> bool) \<Rightarrow> ('s, 'p) term_dfa \<Rightarrow> bool" where
  "dfa_ok lang p \<longleftrightarrow>
     (\<forall>s b. is_dead_state (dfa p) s \<longrightarrow> is_dead_state (dfa p) (next_state (dfa p) s b)) \<and>
     (\<forall>s. is_dead_state (dfa p) s \<longrightarrow> \<not> is_match_state (dfa p) (next_eoi_state (dfa p) s)) \<and>
     (\<forall>w. let stop = next_eoi_state (dfa p) (foldl (next_state (dfa p)) (dfa_start p) w)
          in is_match_state (dfa p) stop = (\<exists>q \<in> set (dfa_branches p). lang q w) \<and>
             set (match_patterns (dfa p) stop) = {i. i < length (dfa_branches p) \<and> lang (dfa_branches p ! i) w}) \<and>
     pattern_len (dfa p) = length (dfa_branches p)"

subsection \<open>Building\<close>

text \<open>\<^verbatim>\<open>build_range\<close>: \<open>build_dfa\<close> is the compiler of the library.\<close>

function build_range :: "('h list \<Rightarrow> 'e + 's dense_dfa) \<Rightarrow> ('s dense_dfa \<Rightarrow> 'e + 's) \<Rightarrow> 'h list \<Rightarrow> 'p list \<Rightarrow> nat \<Rightarrow>
    ('s, 'p) term_dfa list \<Rightarrow> 'e + ('s, 'p) term_dfa list" where
  "build_range build_dfa start_state hirs ps first parts =
     (case build_dfa hirs of
        Inr d \<Rightarrow> (case term_dfa_new start_state d first ps of Inl e \<Rightarrow> Inl e | Inr p \<Rightarrow> Inr (parts @ [p]))
      | Inl e \<Rightarrow>
          if 1 < length hirs then
            (let mid = length hirs div 2
             in case build_range build_dfa start_state (take mid hirs) (take mid ps) first parts of
                  Inl e \<Rightarrow> Inl e
                | Inr parts \<Rightarrow> build_range build_dfa start_state (drop mid hirs) (drop mid ps) (first + mid) parts)
          else Inl e)"
  by pat_completeness auto
termination
  by (relation "measure (\<lambda>(b, s, hirs, ps, first, parts). length hirs)") auto

declare build_range.simps [simp del]

definition build_branches :: "('p \<Rightarrow> 'e + 'h) \<Rightarrow> ('h list \<Rightarrow> 'e + 's dense_dfa) \<Rightarrow> ('s dense_dfa \<Rightarrow> 'e + 's) \<Rightarrow>
    'p list \<Rightarrow> 'e + ('s, 'p) term_dfa list" where
  "build_branches parse build_dfa start_state ps =
     (case each_result parse ps of Inl e \<Rightarrow> Inl e | Inr hirs \<Rightarrow> build_range build_dfa start_state hirs ps 0 [])"

subsection \<open>Collecting terms\<close>

record ranked_term =
  the_term :: bytes
  branch :: nat
  doc_freq :: nat

type_synonym entries = "(bytes \<times> nat) list"
type_synonym 's entry_walk = "'s fst_automaton \<Rightarrow> entries \<Rightarrow> entries"

definition streams_entries :: "'s entry_walk \<Rightarrow> bool" where
  "streams_entries search \<longleftrightarrow> (\<forall>A seg. automaton A \<longrightarrow> search A seg = filter (\<lambda>(t, _). accepts A t) seg)"

definition min_option :: "nat option \<Rightarrow> nat option \<Rightarrow> nat option" where
  "min_option a b =
     (case a of None \<Rightarrow> b | Some x \<Rightarrow> (case b of None \<Rightarrow> a | Some y \<Rightarrow> Some (min x y)))"

definition quote_transparent_branch :: "('s, 'p) term_dfa \<Rightarrow> bytes \<Rightarrow> nat option" where
  "quote_transparent_branch p term =
     (let written = matched_branch p term
      in if \<not> list_ex is_quote term then written
         else
           (let bare = strip_quotes term
            in min_option written (if bare \<noteq> [] then matched_branch p bare else None)))"

text \<open>The points at which a search looks whether it is cancelled.\<close>

datatype check_point = In_Scan nat nat nat | Before_Branch nat | In_Branch nat nat nat

fun scan_loop :: "(nat \<Rightarrow> bool) \<Rightarrow> 'e \<Rightarrow> nat \<Rightarrow> (bytes \<Rightarrow> nat option) \<Rightarrow> entries \<Rightarrow> nat \<Rightarrow> (bytes \<times> nat \<times> nat) list \<Rightarrow>
    'e + (bytes \<times> nat \<times> nat) list \<times> bool" where
  "scan_loop cancelled err cap branch_of [] k hits = Inr (hits, False)"
| "scan_loop cancelled err cap branch_of ((key, freq) # rest) k hits =
     (if cancelled k then Inl err
      else if cap \<le> length hits then Inr (hits, True)
      else scan_loop cancelled err cap branch_of rest (k + 1)
        (if from_utf8_ok key then (case branch_of key of None \<Rightarrow> hits | Some b \<Rightarrow> hits @ [(key, b, freq)]) else hits))"

definition scan_terms :: "'s quote_state entry_walk \<Rightarrow> 's fst_automaton \<Rightarrow> ('e + entries) \<Rightarrow> (nat \<Rightarrow> bool) \<Rightarrow> 'e \<Rightarrow> nat \<Rightarrow>
    (bytes \<Rightarrow> nat option) \<Rightarrow> 'e + (bytes \<times> nat \<times> nat) list \<times> bool" where
  "scan_terms search A segment cancelled err cap branch_of =
     (case segment of Inl e \<Rightarrow> Inl e
      | Inr terms \<Rightarrow> scan_loop cancelled err cap branch_of (search (quote_transparent A) terms) 0 [])"

text \<open>The map from terms to their places, the terms found, and whether the cap cut anything.\<close>

type_synonym gathered = "(bytes \<Rightarrow> nat option) \<times> ranked_term list"

definition gather_hit :: "nat \<Rightarrow> bytes \<times> nat \<times> nat \<Rightarrow> gathered \<times> bool \<Rightarrow> gathered \<times> bool" where
  "gather_hit cap = (\<lambda>(term, b, freq) ((index, found), capped).
     (case index term of
        Some i \<Rightarrow>
          ((index, found[i := (found ! i)\<lparr>doc_freq := doc_freq (found ! i) + freq, branch := min (branch (found ! i)) b\<rparr>]), capped)
      | None \<Rightarrow>
          if cap \<le> length found then ((index, found), True)
          else ((index(term \<mapsto> length found), found @ [\<lparr>the_term = term, branch = b, doc_freq = freq\<rparr>]), capped)))"

definition gather_scans :: "nat \<Rightarrow> ((bytes \<times> nat \<times> nat) list \<times> bool) list \<Rightarrow> gathered \<times> bool" where
  "gather_scans cap scans =
     fold (\<lambda>(hits, scan_capped) (g, capped). fold (gather_hit cap) hits (g, capped \<or> scan_capped)) scans ((Map.empty, []), False)"

text \<open>The sort key: branch, chars, the doc frequency descending, the term.\<close>

definition chars_count :: "bytes \<Rightarrow> nat" where
  "chars_count w = length (filter (\<lambda>b. \<not> continuation b) w)"

definition rank_key :: "ranked_term \<Rightarrow> nat \<times> nat \<times> int \<times> bytes" where
  "rank_key t = (branch t, chars_count (the_term t), - int (doc_freq t), the_term t)"

definition sort_ranked :: "ranked_term list \<Rightarrow> ranked_term list" where
  "sort_ranked ts = sort_key rank_key ts"

text \<open>\<^verbatim>\<open>collect_one_branch\<close>\<close>

definition note_term :: "nat \<Rightarrow> nat \<Rightarrow> bytes \<Rightarrow> nat \<Rightarrow> gathered \<Rightarrow> gathered" where
  "note_term cap b key freq = (\<lambda>(index, found).
     (case index key of
        Some i \<Rightarrow>
          if branch (found ! i) = b then (index, found[i := (found ! i)\<lparr>doc_freq := doc_freq (found ! i) + freq\<rparr>])
          else (index, found)
      | None \<Rightarrow>
          if length found < cap then (index(key \<mapsto> length found), found @ [\<lparr>the_term = key, branch = b, doc_freq = freq\<rparr>])
          else (index, found)))"

fun visit_loop :: "(nat \<Rightarrow> bool) \<Rightarrow> 'e \<Rightarrow> nat \<Rightarrow> nat \<Rightarrow> entries \<Rightarrow> nat \<Rightarrow> gathered \<Rightarrow> 'e + gathered" where
  "visit_loop cancelled err cap b [] visited g = Inr g"
| "visit_loop cancelled err cap b ((key, freq) # rest) visited g =
     (if cancelled visited then Inl err
      else if cap \<le> visited then Inr g
      else visit_loop cancelled err cap b rest (visited + 1) (if from_utf8_ok key then note_term cap b key freq g else g))"

fun collect_one_branch :: "'s quote_state entry_walk \<Rightarrow> (check_point \<Rightarrow> bool) \<Rightarrow> 'e \<Rightarrow> nat \<Rightarrow> 's fst_automaton \<Rightarrow> nat \<Rightarrow>
    nat \<Rightarrow> ('e + entries) list \<Rightarrow> gathered \<Rightarrow> 'e + gathered" where
  "collect_one_branch search cancelled err cap A b s [] g = Inr g"
| "collect_one_branch search cancelled err cap A b s (segment # segments) g =
     (case segment of
        Inl e \<Rightarrow> Inl e
      | Inr terms \<Rightarrow>
          (case visit_loop (\<lambda>k. cancelled (In_Branch b s k)) err cap b (search (quote_transparent A) terms) 0 g of
             Inl e \<Rightarrow> Inl e
           | Inr g \<Rightarrow> collect_one_branch search cancelled err cap A b (s + 1) segments g))"

text \<open>
  \<^verbatim>\<open>collect_in_branch_order\<close>: the patterns of all parts, then the extra automata; both loops stop when the
  set is full. \<open>compile\<close> is \<^verbatim>\<open>compile_pattern\<close>.
\<close>

fun pattern_loop :: "'s quote_state entry_walk \<Rightarrow> (check_point \<Rightarrow> bool) \<Rightarrow> 'e \<Rightarrow> nat \<Rightarrow> ('p \<Rightarrow> 'e + ('s, 'p) term_dfa) \<Rightarrow>
    ('e + entries) list \<Rightarrow> 'p list \<Rightarrow> nat \<Rightarrow> gathered \<Rightarrow> 'e + gathered" where
  "pattern_loop search cancelled err cap compile segments [] b g = Inr g"
| "pattern_loop search cancelled err cap compile segments (p # ps) b g =
     (if cap \<le> length (snd g) then Inr g
      else if cancelled (Before_Branch b) then Inl err
      else
        (case compile p of
           Inl e \<Rightarrow> Inl e
         | Inr d \<Rightarrow>
             (case collect_one_branch search cancelled err cap (dfa_automaton d) b 0 segments g of
                Inl e \<Rightarrow> Inl e
              | Inr g \<Rightarrow> pattern_loop search cancelled err cap compile segments ps (b + 1) g)))"

fun extra_loop :: "'t quote_state entry_walk \<Rightarrow> (check_point \<Rightarrow> bool) \<Rightarrow> 'e \<Rightarrow> nat \<Rightarrow>
    ('e + entries) list \<Rightarrow> 't fst_automaton list \<Rightarrow> nat \<Rightarrow> gathered \<Rightarrow> 'e + gathered" where
  "extra_loop search cancelled err cap segments [] b g = Inr g"
| "extra_loop search cancelled err cap segments (A # As) b g =
     (if cap \<le> length (snd g) then Inr g
      else if cancelled (Before_Branch b) then Inl err
      else
        (case collect_one_branch search cancelled err cap A b 0 segments g of
           Inl e \<Rightarrow> Inl e
         | Inr g \<Rightarrow> extra_loop search cancelled err cap segments As (b + 1) g))"

definition collect_in_branch_order :: "'s quote_state entry_walk \<Rightarrow> 't quote_state entry_walk \<Rightarrow> (check_point \<Rightarrow> bool) \<Rightarrow> 'e \<Rightarrow> nat \<Rightarrow>
    ('p \<Rightarrow> 'e + ('s, 'p) term_dfa) \<Rightarrow> ('e + entries) list \<Rightarrow> ('s, 'p) term_dfa list \<Rightarrow> 't fst_automaton list \<Rightarrow> 'e + ranked_term list" where
  "collect_in_branch_order search search_extra cancelled err cap compile segments parts extra =
     (let ps = concat (map dfa_branches parts)
      in case pattern_loop search cancelled err cap compile segments ps 0 (Map.empty, []) of
           Inl e \<Rightarrow> Inl e
         | Inr g \<Rightarrow> map_sum id snd (extra_loop search_extra cancelled err cap segments extra (length ps) g))"

definition part_scan :: "'s quote_state entry_walk \<Rightarrow> (check_point \<Rightarrow> bool) \<Rightarrow> 'e \<Rightarrow> nat \<Rightarrow> ('e + entries) list \<Rightarrow>
    ('s, 'p) term_dfa \<Rightarrow> nat \<Rightarrow> nat \<Rightarrow> 'e + (bytes \<times> nat \<times> nat) list \<times> bool" where
  "part_scan search cancelled err cap segments part source s =
     (let single = (if pattern_len (dfa part) = 1 then Some (first_branch part) else None)
      in scan_terms search (dfa_automaton part) (segments ! s) (\<lambda>k. cancelled (In_Scan source s k)) err cap
           (\<lambda>term. case single of Some b \<Rightarrow> Some b | None \<Rightarrow> quote_transparent_branch part term))"

definition collect_ranked_terms :: "'s quote_state entry_walk \<Rightarrow> 't quote_state entry_walk \<Rightarrow> (check_point \<Rightarrow> bool) \<Rightarrow> 'e \<Rightarrow> nat \<Rightarrow>
    ('p \<Rightarrow> 'e + ('s, 'p) term_dfa) \<Rightarrow> ('e + entries) list \<Rightarrow> ('s, 'p) term_dfa list \<Rightarrow> 't fst_automaton list \<Rightarrow> 'e + ranked_term list \<times> bool" where
  "collect_ranked_terms search search_extra cancelled err cap compile segments parts extra =
     (let branches = sum_list (map (\<lambda>p. pattern_len (dfa p)) parts);
          sources = length parts + length extra;
          pairs = concat (map (\<lambda>a. map (\<lambda>s. (a, s)) [0..<length segments]) [0..<sources]);
          scans = each_result (\<lambda>(source, s).
            if source < length parts then part_scan search cancelled err cap segments (parts ! source) source s
            else scan_terms search_extra (extra ! (source - length parts)) (segments ! s)
              (\<lambda>k. cancelled (In_Scan source s k)) err cap (\<lambda>_. Some (branches + (source - length parts)))) pairs
      in case scans of
           Inl e \<Rightarrow> Inl e
         | Inr scans \<Rightarrow>
             (let ((index, found), capped) = gather_scans cap scans
              in if capped then
                   (case collect_in_branch_order search search_extra cancelled err cap compile segments parts extra of
                      Inl e \<Rightarrow> Inl e
                    | Inr found \<Rightarrow> Inr (sort_ranked found, True))
                 else Inr (sort_ranked found, False)))"

text \<open>\<^verbatim>\<open>within_budgets\<close>; \<open>u64_max\<close> bounds the saturating sum.\<close>

fun budget_loop :: "nat \<Rightarrow> nat \<Rightarrow> ranked_term list \<Rightarrow> ranked_term list \<Rightarrow> nat \<Rightarrow> ranked_term list" where
  "budget_loop max_terms postings_budget [] kept cost = kept"
| "budget_loop max_terms postings_budget (t # ts) kept cost =
     (let cost = saturating_add u64_max cost (doc_freq t); kept = kept @ [t]
      in if max_terms \<le> length kept \<or> postings_budget \<le> cost then kept
         else budget_loop max_terms postings_budget ts kept cost)"

definition within_budgets :: "ranked_term list \<Rightarrow> bool \<Rightarrow> nat \<Rightarrow> nat \<Rightarrow> ranked_term list \<times> bool" where
  "within_budgets ts capped max_terms postings_budget =
     (let kept = budget_loop max_terms postings_budget ts [] 0 in (kept, capped \<or> length kept < length ts))"

subsection \<open>What an automaton of branches accepts\<close>

lemma dfa_dead:
  assumes "dfa_ok lang p" "is_dead_state (dfa p) s"
  shows "\<not> is_match_state (dfa p) (next_eoi_state (dfa p) (foldl (next_state (dfa p)) s w))"
  using assms(2)
proof (induction w arbitrary: s)
  case (Cons b w)
  then show ?case using assms(1) unfolding dfa_ok_def by simp
qed (use assms(1) in \<open>simp add: dfa_ok_def\<close>)

lemma dfa_automaton_ok: "dfa_ok lang p \<Longrightarrow> automaton (dfa_automaton p)"
  by unfold_locales (simp add: dfa_automaton_def dfa_dead)

lemma dfa_end:
  assumes "dfa_ok lang p"
  shows "is_match_state (dfa p) (next_eoi_state (dfa p) (foldl (next_state (dfa p)) (dfa_start p) w)) \<longleftrightarrow>
      (\<exists>q \<in> set (dfa_branches p). lang q w)"
    "set (match_patterns (dfa p) (next_eoi_state (dfa p) (foldl (next_state (dfa p)) (dfa_start p) w))) =
      {i. i < length (dfa_branches p) \<and> lang (dfa_branches p ! i) w}"
  using assms unfolding dfa_ok_def Let_def by blast+

lemma dfa_accepts: "dfa_ok lang p \<Longrightarrow> accepts (dfa_automaton p) w \<longleftrightarrow> (\<exists>q \<in> set (dfa_branches p). lang q w)"
  using dfa_end(1) [of lang p w] automaton.accepts_run [OF dfa_automaton_ok [of lang p], of w]
  by (simp add: dfa_automaton_def)

text \<open>A term as written, or without its quotes.\<close>

definition spelt :: "('p \<Rightarrow> bytes \<Rightarrow> bool) \<Rightarrow> 'p \<Rightarrow> bytes \<Rightarrow> bool" where
  "spelt lang q w \<longleftrightarrow> lang q w \<or> strip_quotes w \<noteq> [] \<and> lang q (strip_quotes w)"

lemma dfa_quote_accepts:
  "dfa_ok lang p \<Longrightarrow> accepts (quote_transparent (dfa_automaton p)) w \<longleftrightarrow> (\<exists>q \<in> set (dfa_branches p). spelt lang q w)"
  by (subst quote_transparent_exact) (auto simp: dfa_automaton_ok dfa_accepts spelt_def)

text \<open>The place of the first of some branches.\<close>

definition first_index :: "('p \<Rightarrow> bool) \<Rightarrow> 'p list \<Rightarrow> nat option" where
  "first_index P ps = (if \<exists>q \<in> set ps. P q then Some (LEAST i. i < length ps \<and> P (ps ! i)) else None)"

lemma first_index_Min:
  "\<exists>q \<in> set ps. P q \<Longrightarrow> Min {i. i < length ps \<and> P (ps ! i)} = (LEAST i. i < length ps \<and> P (ps ! i))"
  by (rule Least_Min [symmetric]) (auto simp: in_set_conv_nth)

lemma dfa_run_eq:
  assumes "dfa_ok lang p"
  shows "case dfa_run (dfa p) s w of
      None \<Rightarrow> \<not> is_match_state (dfa p) (next_eoi_state (dfa p) (foldl (next_state (dfa p)) s w))
    | Some s' \<Rightarrow> s' = foldl (next_state (dfa p)) s w"
proof (induction w arbitrary: s)
  case (Cons b w)
  then show ?case
    using Cons [of "next_state (dfa p) s b"] dfa_dead [OF assms, of "next_state (dfa p) s b" w]
    by (cases "dfa_run (dfa p) (next_state (dfa p) s b) w") auto
qed simp

lemma matched_branch_eq:
  assumes "dfa_ok lang p"
  shows "matched_branch p w = map_option (\<lambda>i. first_branch p + i) (first_index (\<lambda>q. lang q w) (dfa_branches p))"
proof -
  let ?stop = "next_eoi_state (dfa p) (foldl (next_state (dfa p)) (dfa_start p) w)"
  note fin = dfa_end [OF assms, of w]
  show ?thesis
  proof (cases "\<exists>q \<in> set (dfa_branches p). lang q w")
    case True
    then have run: "dfa_run (dfa p) (dfa_start p) w = Some (foldl (next_state (dfa p)) (dfa_start p) w)"
      using dfa_run_eq [OF assms, of "dfa_start p" w] fin(1) by (auto split: option.splits)
    have "match_patterns (dfa p) ?stop \<noteq> []"
      using fin(2) True by (auto simp: in_set_conv_nth simp del: set_empty simp flip: set_empty)
    then obtain i "is" where list: "match_patterns (dfa p) ?stop = i # is" by (cases "match_patterns (dfa p) ?stop") auto
    then have "Min (set (i # is)) = (LEAST i. i < length (dfa_branches p) \<and> lang (dfa_branches p ! i) w)"
      using fin(2) first_index_Min [of "dfa_branches p" "\<lambda>q. lang q w"] True by simp
    then show ?thesis
      using run list fin(1) True by (simp add: matched_branch_def Let_def first_index_def)
  next
    case False
    then show ?thesis
      using dfa_run_eq [OF assms, of "dfa_start p" w] fin(1)
      by (auto simp: matched_branch_def Let_def first_index_def split: option.splits)
  qed
qed

lemma first_index_or:
  "first_index (\<lambda>q. P q \<or> Q q) ps = min_option (first_index P ps) (first_index Q ps)"
proof (induction ps)
  case Nil
  then show ?case by (simp add: first_index_def min_option_def)
next
  case (Cons p ps)
  have step: "first_index R (p # ps) = (if R p then Some 0 else map_option Suc (first_index R ps))" for R
  proof (cases "R p")
    case True
    then have "(LEAST i. i < length (p # ps) \<and> R ((p # ps) ! i)) = 0"
      by (intro Least_equality) auto
    then show ?thesis using True by (simp add: first_index_def)
  next
    case False
    show ?thesis
    proof (cases "\<exists>q \<in> set ps. R q")
      case True
      then obtain i where i: "i < length ps \<and> R (ps ! i)" by (auto simp: in_set_conv_nth)
      have "(LEAST i. i < length (p # ps) \<and> R ((p # ps) ! i)) = Suc (LEAST i. Suc i < length (p # ps) \<and> R ((p # ps) ! Suc i))"
        by (rule Least_Suc [of _ "Suc i"]) (use i False in auto)
      then show ?thesis using False True by (simp add: first_index_def)
    next
      case none: False
      then show ?thesis using False by (auto simp: first_index_def)
    qed
  qed
  show ?case
    using Cons by (auto simp: step min_option_def split: option.splits)
qed

lemma quote_transparent_branch_eq:
  assumes "dfa_ok lang p"
  shows "quote_transparent_branch p w = map_option (\<lambda>i. first_branch p + i) (first_index (\<lambda>q. spelt lang q w) (dfa_branches p))"
proof -
  have or: "first_index (\<lambda>q. spelt lang q w) (dfa_branches p) =
      min_option (first_index (\<lambda>q. lang q w) (dfa_branches p))
        (first_index (\<lambda>q. strip_quotes w \<noteq> [] \<and> lang q (strip_quotes w)) (dfa_branches p))"
    unfolding spelt_def by (rule first_index_or)
  have bare: "first_index (\<lambda>q. strip_quotes w \<noteq> [] \<and> lang q (strip_quotes w)) (dfa_branches p) =
      (if strip_quotes w \<noteq> [] then first_index (\<lambda>q. lang q (strip_quotes w)) (dfa_branches p) else None)"
    by (simp add: first_index_def)
  show ?thesis
  proof (cases "list_ex is_quote w")
    case True
    then show ?thesis
      unfolding quote_transparent_branch_def Let_def matched_branch_eq [OF assms] or bare
      by (auto simp: min_option_def split: option.split)
  next
    case False
    then have "spelt lang q w = lang q w" for q by (auto simp: spelt_def no_quotes_strip)
    then show ?thesis using False by (simp add: quote_transparent_branch_def matched_branch_eq [OF assms])
  qed
qed

subsection \<open>The sources of terms\<close>

text \<open>The parts number their branches one after the other.\<close>

fun numbered :: "nat \<Rightarrow> ('s, 'p) term_dfa list \<Rightarrow> bool" where
  "numbered n [] = True"
| "numbered n (p # ps) \<longleftrightarrow> first_branch p = n \<and> numbered (n + length (dfa_branches p)) ps"

definition parts_ok :: "('p \<Rightarrow> bytes \<Rightarrow> bool) \<Rightarrow> ('s, 'p) term_dfa list \<Rightarrow> bool" where
  "parts_ok lang parts \<longleftrightarrow> (\<forall>p \<in> set parts. dfa_ok lang p) \<and> numbered 0 parts"

text \<open>Whether a branch takes a term: the patterns of the parts first, then the extra automata.\<close>

definition takes :: "('p \<Rightarrow> bytes \<Rightarrow> bool) \<Rightarrow> 'p list \<Rightarrow> 't fst_automaton list \<Rightarrow> nat \<Rightarrow> bytes \<Rightarrow> bool" where
  "takes lang ps extra b w \<longleftrightarrow>
     (if b < length ps then spelt lang (ps ! b) w
      else b < length ps + length extra \<and> accepts (quote_transparent (extra ! (b - length ps))) w)"

text \<open>The branch that a source, a part or an extra automaton, gives a term.\<close>

definition source_branch :: "('p \<Rightarrow> bytes \<Rightarrow> bool) \<Rightarrow> ('s, 'p) term_dfa list \<Rightarrow> 't fst_automaton list \<Rightarrow> nat \<Rightarrow> bytes \<Rightarrow> nat option" where
  "source_branch lang parts extra a w =
     (if a < length parts then
        map_option (\<lambda>i. first_branch (parts ! a) + i) (first_index (\<lambda>q. spelt lang q w) (dfa_branches (parts ! a)))
      else if accepts (quote_transparent (extra ! (a - length parts))) w
        then Some (length (concat (map dfa_branches parts)) + (a - length parts)) else None)"

lemma first_index_Some:
  assumes "first_index P ps = Some i"
  shows "i < length ps" "P (ps ! i)" "\<And>j. j < i \<Longrightarrow> \<not> P (ps ! j)"
proof -
  have ex: "\<exists>q \<in> set ps. P q" and i: "i = (LEAST i. i < length ps \<and> P (ps ! i))"
    using assms by (auto simp: first_index_def split: if_splits)
  then have "\<exists>j. j < length ps \<and> P (ps ! j)" by (auto simp: in_set_conv_nth)
  from LeastI_ex [OF this] show *: "i < length ps" "P (ps ! i)" unfolding i by blast+
  show "\<not> P (ps ! j)" if "j < i" for j
    using not_less_Least [of j "\<lambda>i. i < length ps \<and> P (ps ! i)"] that * i by auto
qed

lemma first_index_None: "first_index P ps = None \<longleftrightarrow> (\<forall>q \<in> set ps. \<not> P q)"
  by (auto simp: first_index_def)

text \<open>The branches of the parts, by their number.\<close>

lemma numbered_branch:
  assumes "numbered n parts" "a < length parts" "i < length (dfa_branches (parts ! a))"
  shows "n \<le> first_branch (parts ! a)"
    "first_branch (parts ! a) + i < n + length (concat (map dfa_branches parts))"
    "concat (map dfa_branches parts) ! (first_branch (parts ! a) + i - n) = dfa_branches (parts ! a) ! i"
  using assms
proof (induction parts arbitrary: n a)
  case (Cons p ps)
  { case 1
    then show ?case using Cons.IH(1) [of "n + length (dfa_branches p)" "a - 1"] by (cases a) auto
  next
    case 2
    then show ?case using Cons.IH(2) [of "n + length (dfa_branches p)" "a - 1"] by (cases a) auto
  next
    case 3
    then show ?case
      using Cons.IH(1,3) [of "n + length (dfa_branches p)" "a - 1"] by (cases a) (auto simp: nth_append)
  }
qed simp_all

lemma numbered_cover:
  assumes "numbered n parts" "b < length (concat (map dfa_branches parts))"
  obtains a i where "a < length parts" "i < length (dfa_branches (parts ! a))" "first_branch (parts ! a) + i = n + b"
  using assms
proof (induction parts arbitrary: n b thesis)
  case (Cons p ps)
  show ?case
  proof (cases "b < length (dfa_branches p)")
    case True
    then show ?thesis using Cons.prems(1) [of 0 b] Cons.prems(2) by simp
  next
    case False
    then obtain k where k: "b = length (dfa_branches p) + k" by (metis le_add_diff_inverse not_less)
    then have "k < length (concat (map dfa_branches ps))" using Cons.prems(3) by simp
    then obtain a i where "a < length ps" "i < length (dfa_branches (ps ! a))"
      "first_branch (ps ! a) + i = n + length (dfa_branches p) + k"
      using Cons.IH [of "n + length (dfa_branches p)" k] Cons.prems(2) by auto
    then show ?thesis using Cons.prems(1) [of "Suc a" i] k by simp
  qed
qed simp

text \<open>The branches of the sources are the branches that take the term: each source gives one of them, and
  the least of all is given by some source.\<close>

lemma source_branch_takes:
  assumes "parts_ok lang parts" "a < length parts + length extra" "source_branch lang parts extra a w = Some b"
  shows "takes lang (concat (map dfa_branches parts)) extra b w"
proof (cases "a < length parts")
  case True
  obtain i where i: "first_index (\<lambda>q. spelt lang q w) (dfa_branches (parts ! a)) = Some i" "b = first_branch (parts ! a) + i"
    using assms(3) True by (auto simp: source_branch_def)
  note ix = first_index_Some [OF i(1)]
  have "numbered 0 parts" using assms(1) by (simp add: parts_ok_def)
  from numbered_branch [OF this True ix(1)] show ?thesis using ix(2) i(2) by (simp add: takes_def)
next
  case False
  then show ?thesis using assms(2,3) by (auto simp: source_branch_def takes_def split: if_splits)
qed

lemma takes_source:
  assumes "parts_ok lang parts" "takes lang (concat (map dfa_branches parts)) extra b w"
  obtains a b' where "a < length parts + length extra" "source_branch lang parts extra a w = Some b'" "b' \<le> b"
proof (cases "b < length (concat (map dfa_branches parts))")
  case True
  have num: "numbered 0 parts" using assms(1) by (simp add: parts_ok_def)
  then obtain a i where a: "a < length parts" "i < length (dfa_branches (parts ! a))" "first_branch (parts ! a) + i = 0 + b"
    using True by (rule numbered_cover)
  have "spelt lang (dfa_branches (parts ! a) ! i) w"
    using assms(2) True numbered_branch(3) [OF num a(1,2)] a(3) by (simp add: takes_def)
  moreover then obtain j where "first_index (\<lambda>q. spelt lang q w) (dfa_branches (parts ! a)) = Some j"
    using a(2) first_index_None [of "\<lambda>q. spelt lang q w"] nth_mem by fastforce
  moreover from this have "j \<le> i" using first_index_Some(3) calculation(1) not_le by blast
  ultimately show ?thesis using that [of a "first_branch (parts ! a) + j"] a by (simp add: source_branch_def)
next
  case False
  then obtain k where k: "b = length (concat (map dfa_branches parts)) + k" by (metis le_add_diff_inverse not_less)
  then have "k < length extra" "accepts (quote_transparent (extra ! k)) w"
    using assms(2) by (auto simp: takes_def)
  then show ?thesis
    using that [of "length parts + k" b] k by (simp add: source_branch_def)
qed

subsection \<open>The combined scan\<close>

text \<open>The hits of a source in a segment.\<close>

definition hit_of :: "(bytes \<Rightarrow> nat option) \<Rightarrow> bytes \<Rightarrow> nat \<Rightarrow> (bytes \<times> nat \<times> nat) list" where
  "hit_of branch_of t f = (if from_utf8_ok t then (case branch_of t of None \<Rightarrow> [] | Some b \<Rightarrow> [(t, b, f)]) else [])"

definition hits_of :: "(bytes \<Rightarrow> nat option) \<Rightarrow> entries \<Rightarrow> (bytes \<times> nat \<times> nat) list" where
  "hits_of branch_of seg = concat (map (\<lambda>(t, f). hit_of branch_of t f) seg)"

lemma hits_of_simps [simp]:
  "hits_of branch_of [] = []"
  "hits_of branch_of ((t, f) # seg) = hit_of branch_of t f @ hits_of branch_of seg"
  by (simp_all add: hits_of_def)

lemma scan_loop_hits:
  "scan_loop cancelled err cap branch_of seg k hits = Inr (out, False) \<Longrightarrow> out = hits @ hits_of branch_of seg"
proof (induction cancelled err cap branch_of seg k hits rule: scan_loop.induct)
  case (2 cancelled err cap branch_of key freq rest k hits)
  then show ?case by (auto simp: hit_of_def split: if_splits option.splits)
qed simp

lemma hits_of_filter:
  assumes "\<And>t. branch_of t = (if P t then branch' t else None)"
  shows "hits_of branch' (filter (\<lambda>(t, _). P t) seg) = hits_of branch_of seg"
  by (induction seg) (auto simp: hit_of_def assms)

lemma hit_of_mem: "(t, b, f) \<in> set (hit_of branch_of u v) \<longleftrightarrow> u = t \<and> v = f \<and> from_utf8_ok t \<and> branch_of t = Some b"
  by (cases "from_utf8_ok u"; cases "branch_of u") (auto simp: hit_of_def)

lemma hits_of_mem: "(t, b, f) \<in> set (hits_of branch_of seg) \<longleftrightarrow> (t, f) \<in> set seg \<and> from_utf8_ok t \<and> branch_of t = Some b"
  by (induction seg) (auto simp: hit_of_mem)

text \<open>How often a segment holds a term, summed.\<close>

definition freq_in :: "bytes \<Rightarrow> entries \<Rightarrow> nat" where
  "freq_in t seg = sum_list (map snd (filter (\<lambda>(u, _). u = t) seg))"

definition hit_freq :: "bytes \<Rightarrow> (bytes \<times> nat \<times> nat) list \<Rightarrow> nat" where
  "hit_freq t hits = sum_list (map (\<lambda>(_, _, f). f) (filter (\<lambda>(u, _, _). u = t) hits))"

lemma hit_freq_append [simp]: "hit_freq t (xs @ ys) = hit_freq t xs + hit_freq t ys"
  by (simp add: hit_freq_def)

lemma hit_freq_concat: "hit_freq t (concat hs) = sum_list (map (hit_freq t) hs)"
  by (induction hs) (simp_all, simp add: hit_freq_def)

lemma hit_freq_single: "hit_freq t (hit_of branch_of u v) = (if u = t \<and> from_utf8_ok t \<and> branch_of t \<noteq> None then v else 0)"
  by (cases "from_utf8_ok u"; cases "branch_of u") (auto simp: hit_of_def hit_freq_def)

lemma hit_freq_of: "from_utf8_ok t \<Longrightarrow> hit_freq t (hits_of branch_of seg) = (if branch_of t = None then 0 else freq_in t seg)"
proof (induction seg)
  case (Cons entry seg)
  then show ?case by (cases entry) (simp add: hit_freq_single freq_in_def)
qed (simp add: hit_freq_def freq_in_def)

text \<open>What is gathered, over the hits seen so far.\<close>

definition gathered_ok :: "gathered \<Rightarrow> bool" where
  "gathered_ok = (\<lambda>(index, found). \<forall>t i. index t = Some i \<longleftrightarrow> i < length found \<and> the_term (found ! i) = t)"

lemma gathered_okD:
  assumes "gathered_ok (index, found)"
  shows "index t = Some i \<longleftrightarrow> i < length found \<and> the_term (found ! i) = t"
    "index t = None \<longleftrightarrow> t \<notin> the_term ` set found" "distinct (map the_term found)"
proof -
  show iff: "index t = Some i \<longleftrightarrow> i < length found \<and> the_term (found ! i) = t" for t i
    using assms by (simp add: gathered_ok_def)
  show "index t = None \<longleftrightarrow> t \<notin> the_term ` set found"
  proof (cases "index t")
    case None
    then show ?thesis using iff by (auto simp: in_set_conv_nth) (metis option.distinct(1))
  next
    case (Some i)
    then show ?thesis using iff [of t i] by (auto simp: image_iff intro: bexI [OF _ nth_mem])
  qed
  show "distinct (map the_term found)"
    unfolding distinct_conv_nth using iff by (metis length_map nth_map option.inject)
qed

lemma gathered_ok_push:
  assumes "gathered_ok (index, found)" "index t = None" "the_term e = t"
  shows "gathered_ok (index(t \<mapsto> length found), found @ [e])"
proof -
  have "t \<notin> the_term ` set found" using assms(1,2) gathered_okD(2) by blast
  then show ?thesis
    using assms(3) gathered_okD(1) [OF assms(1)] unfolding gathered_ok_def
    by (auto simp: nth_append less_Suc_eq image_iff) (metis nth_mem)
qed

lemma gathered_ok_update:
  assumes "gathered_ok (index, found)" "i < length found" "the_term e = the_term (found ! i)"
  shows "gathered_ok (index, found[i := e])"
  using assms gathered_okD(1) [OF assms(1)] by (auto simp: gathered_ok_def nth_list_update)

definition gathers :: "(bytes \<times> nat \<times> nat) list \<Rightarrow> gathered \<Rightarrow> bool" where
  "gathers hits = (\<lambda>(index, found). gathered_ok (index, found) \<and> the_term ` set found = fst ` set hits \<and>
     (\<forall>e \<in> set found. branch e = Min {b. \<exists>f. (the_term e, b, f) \<in> set hits} \<and> doc_freq e = hit_freq (the_term e) hits))"

lemma finite_hit_branches: "finite {b. \<exists>f. (t, b, f) \<in> set hits}"
  by (rule finite_subset [of _ "(\<lambda>(_, b, _). b) ` set hits"]) force+

lemma gather_hit_step:
  assumes "gathers hits (index, found)" "gather_hit cap (t, b, f) ((index, found), False) = (g, False)"
  shows "gathers (hits @ [(t, b, f)]) g"
proof -
  have ok: "gathered_ok (index, found)" and terms: "the_term ` set found = fst ` set hits"
    and each: "\<And>e. e \<in> set found \<Longrightarrow> branch e = Min {b. \<exists>f. (the_term e, b, f) \<in> set hits} \<and> doc_freq e = hit_freq (the_term e) hits"
    using assms(1) by (auto simp: gathers_def)
  have others: "{b'. \<exists>f'. (u, b', f') \<in> set (hits @ [(t, b, f)])} = {b'. \<exists>f'. (u, b', f') \<in> set hits}"
    "hit_freq u (hits @ [(t, b, f)]) = hit_freq u hits" if "u \<noteq> t" for u
    using that by (auto simp: hit_freq_def)
  show ?thesis
  proof (cases "index t")
    case None
    then have new: "t \<notin> fst ` set hits" using gathered_okD(2) [OF ok] terms by simp
    then have "{b'. \<exists>f'. (t, b', f') \<in> set hits} = {}" "hit_freq t hits = 0"
      by (force simp: hit_freq_def filter_empty_conv)+
    moreover have g: "g = (index(t \<mapsto> length found), found @ [\<lparr>the_term = t, branch = b, doc_freq = f\<rparr>])"
      using assms(2) None by (auto simp: gather_hit_def split: if_splits)
    moreover have "the_term e \<noteq> t" if "e \<in> set found" for e using that new terms by auto
    ultimately show ?thesis
      using gathered_ok_push [OF ok None] each others terms
      by (auto simp: gathers_def hit_freq_def)
  next
    case (Some i)
    then have i: "i < length found" "the_term (found ! i) = t" using gathered_okD(1) [OF ok] by auto
    let ?e = "(found ! i)\<lparr>doc_freq := doc_freq (found ! i) + f, branch := min (branch (found ! i)) b\<rparr>"
    have g: "g = (index, found[i := ?e])" using assms(2) Some by (auto simp: gather_hit_def)
    have "found ! i \<in> set found" using i(1) by simp
    then have "t \<in> fst ` set hits" using terms i(2) by blast
    then have ne: "{b'. \<exists>f'. (t, b', f') \<in> set hits} \<noteq> {}" by force
    have "{b'. \<exists>f'. (t, b', f') \<in> set (hits @ [(t, b, f)])} = insert b {b'. \<exists>f'. (t, b', f') \<in> set hits}" by auto
    then have min: "Min {b'. \<exists>f'. (t, b', f') \<in> set (hits @ [(t, b, f)])} = min b (Min {b'. \<exists>f'. (t, b', f') \<in> set hits})"
      using ne by (simp add: finite_hit_branches)
    have mem: "e = ?e \<or> e \<in> set found \<and> the_term e \<noteq> t" if "e \<in> set (found[i := ?e])" for e
    proof -
      obtain j where j: "j < length found" "e = found[i := ?e] ! j"
        using \<open>e \<in> set (found[i := ?e])\<close> by (auto simp: in_set_conv_nth)
      show ?thesis
      proof (cases "j = i")
        case False
        then have "the_term (found ! j) \<noteq> t" using gathered_okD(1) [OF ok, of t] Some j(1) by (metis option.inject)
        then show ?thesis using j False by simp
      qed (use j in simp)
    qed
    have "map the_term (found[i := ?e]) = (map the_term found)[i := the_term (found ! i)]" by (simp add: map_update)
    also have "\<dots> = map the_term found" using i(1) by (simp add: list_update_same_conv)
    finally have "map the_term (found[i := ?e]) = map the_term found" .
    then have "the_term ` set (found[i := ?e]) = fst ` set hits" using terms by (metis set_map)
    moreover have "branch ?e = Min {b'. \<exists>f'. (t, b', f') \<in> set (hits @ [(t, b, f)])} \<and> doc_freq ?e = hit_freq t (hits @ [(t, b, f)])"
      using each [OF \<open>found ! i \<in> set found\<close>] i(2) min by (simp add: hit_freq_def min.commute)
    ultimately have upd: "the_term ` set (found[i := ?e]) = fst ` set hits"
      "branch ?e = Min {b'. \<exists>f'. (t, b', f') \<in> set (hits @ [(t, b, f)])}" "doc_freq ?e = hit_freq t (hits @ [(t, b, f)])"
      by blast+
    have "branch e = Min {b'. \<exists>f'. (the_term e, b', f') \<in> set (hits @ [(t, b, f)])} \<and>
        doc_freq e = hit_freq (the_term e) (hits @ [(t, b, f)])" if "e \<in> set (found[i := ?e])" for e
      using mem [OF that]
    proof
      assume "e = ?e"
      then show ?thesis using upd(2,3) i(2) by simp
    next
      assume "e \<in> set found \<and> the_term e \<noteq> t"
      then show ?thesis using each [of e] others [of "the_term e"] by simp
    qed
    moreover have "gathered_ok (index, found[i := ?e])"
      by (rule gathered_ok_update [OF ok i(1)]) simp
    moreover have "the_term ` set (found[i := ?e]) = fst ` set (hits @ [(t, b, f)])"
      using upd(1) \<open>t \<in> fst ` set hits\<close> by auto
    ultimately show ?thesis unfolding g gathers_def by blast
  qed
qed

lemma gather_hits:
  "fold (gather_hit cap) hits ((Map.empty, []), False) = (g, False) \<Longrightarrow> gathers hits g"
proof (induction hits arbitrary: g rule: rev_induct)
  case Nil
  then show ?case by (auto simp: gathers_def gathered_ok_def)
next
  case (snoc h hits)
  obtain t b f where h: "h = (t, b, f)" by (cases h)
  obtain index found capped where mid: "fold (gather_hit cap) hits ((Map.empty, []), False) = ((index, found), capped)"
    by (metis surj_pair)
  then have step: "gather_hit cap (t, b, f) ((index, found), capped) = (g, False)" using snoc.prems h by simp
  then have "capped = False" by (auto simp: gather_hit_def split: option.splits if_splits)
  then show ?case using gather_hit_step step snoc.IH mid h by blast
qed

lemma gather_hit_capped: "snd (gather_hit cap h (g, True)) = True"
  by (cases h; cases g) (auto simp: gather_hit_def split: option.split)

lemma fold_gather_capped: "snd (fold (gather_hit cap) hits (g, True)) = True"
proof (induction hits arbitrary: g)
  case (Cons h hits)
  obtain g' c where "gather_hit cap h (g, True) = (g', c)" by (metis surj_pair)
  moreover from this have "c = True" using gather_hit_capped [of cap h g] by simp
  ultimately show ?case using Cons by simp
qed simp

lemma gather_scans_fold:
  assumes "fold (\<lambda>(hits, scan_capped) (g, capped). fold (gather_hit cap) hits (g, capped \<or> scan_capped)) scans (g, c) = (g', False)"
  shows "c = False \<and> (\<forall>(hits, flag) \<in> set scans. \<not> flag) \<and>
    fold (gather_hit cap) (concat (map fst scans)) (g, False) = (g', False)"
  using assms
proof (induction scans arbitrary: g c)
  case (Cons scan scans)
  obtain hits flag where scan: "scan = (hits, flag)" by (cases scan)
  obtain g1 c1 where mid: "fold (gather_hit cap) hits (g, c \<or> flag) = (g1, c1)" by (metis surj_pair)
  have rest: "c1 = False \<and> (\<forall>(hits, flag) \<in> set scans. \<not> flag) \<and>
      fold (gather_hit cap) (concat (map fst scans)) (g1, False) = (g', False)"
    by (rule Cons.IH) (use Cons.prems mid scan in simp)
  then have "\<not> (c \<or> flag)" using fold_gather_capped [of cap hits g] mid by (cases "c \<or> flag") auto
  then show ?case using rest mid scan by simp
qed auto

definition all_hits :: "('p \<Rightarrow> bytes \<Rightarrow> bool) \<Rightarrow> ('s, 'p) term_dfa list \<Rightarrow> 't fst_automaton list \<Rightarrow> entries list \<Rightarrow> (bytes \<times> nat \<times> nat) list" where
  "all_hits lang parts extra segs =
     concat (map (\<lambda>a. concat (map (\<lambda>seg. hits_of (source_branch lang parts extra a) seg) segs)) [0..<length parts + length extra])"

text \<open>How many sources take a term.\<close>

definition sources_taking :: "('p \<Rightarrow> bytes \<Rightarrow> bool) \<Rightarrow> ('s, 'p) term_dfa list \<Rightarrow> 't fst_automaton list \<Rightarrow> bytes \<Rightarrow> nat" where
  "sources_taking lang parts extra t =
     length (filter (\<lambda>a. source_branch lang parts extra a t \<noteq> None) [0..<length parts + length extra])"

lemma all_hits_freq:
  assumes "from_utf8_ok t"
  shows "hit_freq t (all_hits lang parts extra segs) =
    sources_taking lang parts extra t * sum_list (map (freq_in t) segs)"
proof -
  have one: "hit_freq t (concat (map (\<lambda>seg. hits_of (source_branch lang parts extra a) seg) segs)) =
      (if source_branch lang parts extra a t = None then 0 else sum_list (map (freq_in t) segs))" for a
    by (induction segs) (auto simp: hit_freq_of [OF assms] hit_freq_def [of t "[]"])
  have "sum_list (map (\<lambda>a. if source_branch lang parts extra a t = None then 0 else n) as) =
      length (filter (\<lambda>a. source_branch lang parts extra a t \<noteq> None) as) * n" for n as
    by (induction as) auto
  then show ?thesis
    unfolding all_hits_def hit_freq_concat sources_taking_def by (simp add: comp_def one)
qed

lemma all_hits_mem:
  "(t, b, f) \<in> set (all_hits lang parts extra segs) \<longleftrightarrow>
    from_utf8_ok t \<and> (\<exists>seg \<in> set segs. (t, f) \<in> set seg) \<and>
    (\<exists>a < length parts + length extra. source_branch lang parts extra a t = Some b)"
  by (auto simp: all_hits_def hits_of_mem)

lemma scan_terms_hits:
  assumes "streams_entries search" "automaton A" "segment = Inr seg"
    "scan_terms search A segment cancelled err cap branch' = Inr (hits, False)"
    "\<And>t. branch_of t = (if accepts (quote_transparent A) t then branch' t else None)"
  shows "hits = hits_of branch_of seg"
proof -
  have "automaton (quote_transparent A)"
    using quoted.quote_accepts quoted_def assms(2) automaton.quote_dead_end [OF assms(2)]
    by (simp add: automaton_def)
  then have "search (quote_transparent A) seg = filter (\<lambda>(t, _). accepts (quote_transparent A) t) seg"
    using assms(1) unfolding streams_entries_def by blast
  then show ?thesis
    using assms(3,4) scan_loop_hits [of cancelled err cap branch' _ 0 "[]" hits]
      hits_of_filter [of branch_of "accepts (quote_transparent A)" branch' seg] assms(5)
    by (auto simp: scan_terms_def)
qed

lemma source_branch_part:
  assumes "parts_ok lang parts" "a < length parts"
  shows "source_branch lang parts extra a t =
    (if accepts (quote_transparent (dfa_automaton (parts ! a))) t
     then (case (if pattern_len (dfa (parts ! a)) = 1 then Some (first_branch (parts ! a)) else None) of
        Some b \<Rightarrow> Some b | None \<Rightarrow> quote_transparent_branch (parts ! a) t) else None)"
proof -
  have ok: "dfa_ok lang (parts ! a)" using assms by (simp add: parts_ok_def)
  then have len: "pattern_len (dfa (parts ! a)) = length (dfa_branches (parts ! a))" by (simp add: dfa_ok_def)
  show ?thesis
  proof (cases "\<exists>q \<in> set (dfa_branches (parts ! a)). spelt lang q t")
    case True
    then obtain i where i: "first_index (\<lambda>q. spelt lang q t) (dfa_branches (parts ! a)) = Some i"
      by (simp add: first_index_def)
    then have "i = 0" if "length (dfa_branches (parts ! a)) = 1" using first_index_Some(1) [OF i] that by simp
    then show ?thesis
      using True i assms(2) by (auto simp: source_branch_def dfa_quote_accepts [OF ok] quote_transparent_branch_eq [OF ok] len)
  next
    case False
    then show ?thesis
      using assms(2) by (auto simp: source_branch_def dfa_quote_accepts [OF ok] first_index_None)
  qed
qed

lemma collect_ranked_gathers:
  assumes "streams_entries search" "streams_entries search_extra" "parts_ok lang parts"
    "\<forall>A \<in> set extra. automaton A"
    "collect_ranked_terms search search_extra cancelled err cap compile (map Inr segs) parts extra = Inr (out, False)"
  obtains index found where "gathers (all_hits lang parts extra segs) (index, found)" "out = sort_ranked found"
proof -
  let ?sources = "length parts + length extra"
  define pairs where "pairs = concat (map (\<lambda>a. map (\<lambda>s. (a, s)) [0..<length segs]) [0..<?sources])"
  define run where "run = (\<lambda>(source, s).
    if source < length parts then part_scan search cancelled err cap (map Inr segs) (parts ! source) source s
    else scan_terms search_extra (extra ! (source - length parts)) (map Inr segs ! s)
      (\<lambda>k. cancelled (In_Scan source s k)) err cap
      (\<lambda>_. Some (sum_list (map (\<lambda>p. pattern_len (dfa p)) parts) + (source - length parts))))"
  obtain scans index found where scans: "each_result run pairs = Inr scans"
      "gather_scans cap scans = ((index, found), False)" "out = sort_ranked found"
    using assms(5) by (auto simp: collect_ranked_terms_def Let_def simp flip: pairs_def run_def
        split: sum.splits prod.splits if_splits)
  have flags: "\<forall>(hits, flag) \<in> set scans. \<not> flag"
    and g: "fold (gather_hit cap) (concat (map fst scans)) ((Map.empty, []), False) = ((index, found), False)"
    using gather_scans_fold scans(2) unfolding gather_scans_def by blast+
  have total: "sum_list (map (\<lambda>p. pattern_len (dfa p)) parts) = length (concat (map dfa_branches parts))"
    using assms(3) by (simp add: parts_ok_def dfa_ok_def length_concat comp_def cong: map_cong)
  have hits: "hits = hits_of (source_branch lang parts extra a) (segs ! s)"
    if r: "run (a, s) = Inr (hits, False)" and a: "a < ?sources" and s: "s < length segs" for a s hits
  proof (cases "a < length parts")
    case True
    then have "scan_terms search (dfa_automaton (parts ! a)) (Inr (segs ! s)) (\<lambda>k. cancelled (In_Scan a s k)) err cap
        (\<lambda>t. case (if pattern_len (dfa (parts ! a)) = 1 then Some (first_branch (parts ! a)) else None) of
           Some b \<Rightarrow> Some b | None \<Rightarrow> quote_transparent_branch (parts ! a) t) = Inr (hits, False)"
      using r s by (simp add: run_def part_scan_def Let_def)
    moreover have "automaton (dfa_automaton (parts ! a))"
      using assms(3) True by (auto simp: parts_ok_def intro: dfa_automaton_ok)
    ultimately show ?thesis
      using source_branch_part [OF assms(3) True] by (intro scan_terms_hits [OF assms(1) _ refl]) blast+
  next
    case False
    then have "scan_terms search_extra (extra ! (a - length parts)) (Inr (segs ! s)) (\<lambda>k. cancelled (In_Scan a s k)) err cap
        (\<lambda>_. Some (length (concat (map dfa_branches parts)) + (a - length parts))) = Inr (hits, False)"
      using r s total by (simp add: run_def)
    moreover have "automaton (extra ! (a - length parts))" using assms(4) False a by auto
    ultimately show ?thesis
      using False by (intro scan_terms_hits [OF assms(2) _ refl]) (auto simp: source_branch_def)
  qed
  have pairs: "\<forall>(a, s) \<in> set pairs. a < ?sources \<and> s < length segs" by (auto simp: pairs_def)
  have "map fst scans = map (\<lambda>(a, s). hits_of (source_branch lang parts extra a) (segs ! s)) pairs"
  proof (rule nth_equalityI)
    note nth = each_result_nth [OF scans(1)]
    then show "length (map fst scans) = length (map (\<lambda>(a, s). hits_of (source_branch lang parts extra a) (segs ! s)) pairs)"
      by simp
    fix i
    assume i: "i < length (map fst scans)"
    obtain a s where p: "pairs ! i = (a, s)" by (metis surj_pair)
    obtain h f where h: "scans ! i = (h, f)" by (metis surj_pair)
    have "\<not> f" using flags i h nth_mem [of i scans] by auto
    then have "run (a, s) = Inr (h, False)" using nth i p h by auto
    moreover have "a < ?sources" "s < length segs" using pairs nth i p nth_mem [of i pairs] by auto
    ultimately show "map fst scans ! i = map (\<lambda>(a, s). hits_of (source_branch lang parts extra a) (segs ! s)) pairs ! i"
      using hits i h p nth by simp
  qed
  moreover have "concat (map (\<lambda>(a, s). hits_of (source_branch lang parts extra a) (segs ! s)) pairs) =
      all_hits lang parts extra segs"
  proof -
    have "map (\<lambda>s. hits_of (source_branch lang parts extra a) (segs ! s)) [0..<length segs] =
        map (hits_of (source_branch lang parts extra a)) segs" for a
      by (intro nth_equalityI) auto
    then have "concat (map (\<lambda>(a, s). hits_of (source_branch lang parts extra a) (segs ! s))
          (concat (map (\<lambda>a. map (\<lambda>s. (a, s)) [0..<length segs]) as))) =
        concat (map (\<lambda>a. concat (map (hits_of (source_branch lang parts extra a)) segs)) as)" for as
      by (induction as) (simp_all add: comp_def)
    then show ?thesis by (simp add: pairs_def all_hits_def)
  qed
  ultimately have "gathers (all_hits lang parts extra segs) (index, found)"
    using gather_hits [of cap "concat (map fst scans)" "(index, found)"] g by simp
  then show ?thesis using that scans(3) by blast
qed

lemma key_rank_distinct: "distinct (map the_term found) \<Longrightarrow> distinct (map rank_key found)"
  by (auto simp: distinct_map rank_key_def inj_on_def)

text \<open>What is collected, with the frequencies as they come out: each is the one summed over the segments
  times the number of automata that take the term, so a term a part and a typo automaton both take
  is counted twice.\<close>

lemma collect_ranked_all:
  assumes "streams_entries search" "streams_entries search_extra" "parts_ok lang parts"
    "\<forall>A \<in> set extra. automaton A"
    "collect_ranked_terms search search_extra cancelled err cap compile (map Inr segs) parts extra = Inr (out, False)"
  shows "sorted (map rank_key out) \<and> distinct (map the_term out) \<and>
    the_term ` set out = {t. from_utf8_ok t \<and> (\<exists>seg \<in> set segs. t \<in> fst ` set seg) \<and>
      (\<exists>b. takes lang (concat (map dfa_branches parts)) extra b t)} \<and>
    (\<forall>e \<in> set out. branch e = (LEAST b. takes lang (concat (map dfa_branches parts)) extra b (the_term e)) \<and>
      doc_freq e = sources_taking lang parts extra (the_term e) * sum_list (map (freq_in (the_term e)) segs))"
proof -
  let ?takes = "takes lang (concat (map dfa_branches parts)) extra" and ?hits = "all_hits lang parts extra segs"
  obtain index found where g: "gathers ?hits (index, found)" "out = sort_ranked found"
    by (rule collect_ranked_gathers [OF assms])
  then have ok: "gathered_ok (index, found)" and terms: "the_term ` set found = fst ` set ?hits"
    and each: "\<And>e. e \<in> set found \<Longrightarrow> branch e = Min {b. \<exists>f. (the_term e, b, f) \<in> set ?hits} \<and> doc_freq e = hit_freq (the_term e) ?hits"
    by (auto simp: gathers_def)
  have mset: "mset out = mset found" by (simp add: g(2) sort_ranked_def)
  then have set: "set out = set found" by (rule mset_eq_setD)
  have "distinct (map the_term out)"
  proof -
    have "mset (map the_term out) = mset (map the_term found)" using mset by simp
    then show ?thesis using gathered_okD(3) [OF ok] mset_eq_imp_distinct_iff by blast
  qed
  moreover have "sorted (map rank_key out)" by (simp add: g(2) sort_ranked_def)
  moreover have "fst ` set ?hits = {t. from_utf8_ok t \<and> (\<exists>seg \<in> set segs. t \<in> fst ` set seg) \<and> (\<exists>b. ?takes b t)}"
  proof (intro set_eqI iffI)
    fix t
    assume "t \<in> fst ` set ?hits"
    then obtain b f where "(t, b, f) \<in> set ?hits" by auto
    then obtain seg a where hit: "from_utf8_ok t" "seg \<in> set segs" "(t, f) \<in> set seg"
      "a < length parts + length extra" "source_branch lang parts extra a t = Some b"
      by (auto simp: all_hits_mem)
    then have "t \<in> fst ` set seg" by (metis fst_conv image_eqI)
    moreover have "?takes b t" using source_branch_takes [OF assms(3) hit(4,5)] .
    ultimately show "t \<in> {t. from_utf8_ok t \<and> (\<exists>seg \<in> set segs. t \<in> fst ` set seg) \<and> (\<exists>b. ?takes b t)}"
      using hit(1,2) by blast
  next
    fix t
    assume t: "t \<in> {t. from_utf8_ok t \<and> (\<exists>seg \<in> set segs. t \<in> fst ` set seg) \<and> (\<exists>b. ?takes b t)}"
    then obtain b seg f where "?takes b t" "seg \<in> set segs" "(t, f) \<in> set seg" by auto
    moreover obtain a b' where "a < length parts + length extra" "source_branch lang parts extra a t = Some b'"
      using takes_source [OF assms(3) calculation(1)] by blast
    ultimately have "(t, b', f) \<in> set ?hits" using t by (auto simp: all_hits_mem)
    then show "t \<in> fst ` set ?hits" by force
  qed
  moreover have "branch e = (LEAST b. ?takes b (the_term e)) \<and>
      doc_freq e = sources_taking lang parts extra (the_term e) * sum_list (map (freq_in (the_term e)) segs)"
    if e: "e \<in> set found" for e
  proof
    have "the_term e \<in> fst ` set ?hits" using terms e by blast
    then obtain b0 f0 where hit: "(the_term e, b0, f0) \<in> set ?hits" by auto
    define B where "B = {b. \<exists>f. (the_term e, b, f) \<in> set ?hits}"
    have B: "finite B" "b0 \<in> B" using finite_hit_branches hit by (auto simp: B_def)
    have "(LEAST b. ?takes b (the_term e)) = Min B"
    proof (rule Least_equality)
      have "Min B \<in> B" using B by (intro Min_in) auto
      then obtain f where "(the_term e, Min B, f) \<in> set ?hits" unfolding B_def by blast
      then obtain a where "a < length parts + length extra" "source_branch lang parts extra a (the_term e) = Some (Min B)"
        by (auto simp: all_hits_mem)
      then show "?takes (Min B) (the_term e)" by (rule source_branch_takes [OF assms(3)])
    next
      fix b
      assume "?takes b (the_term e)"
      then obtain a b' where a: "a < length parts + length extra" "source_branch lang parts extra a (the_term e) = Some b'" "b' \<le> b"
        by (rule takes_source [OF assms(3)])
      then have "(the_term e, b', f0) \<in> set ?hits" using hit by (auto simp: all_hits_mem)
      then have "b' \<in> B" by (auto simp: B_def)
      then show "Min B \<le> b" using B a(3) by (meson Min_le order_trans)
    qed
    then show "branch e = (LEAST b. ?takes b (the_term e))" using each [OF e] by (simp add: B_def)
    have "from_utf8_ok (the_term e)" using hit by (simp add: all_hits_mem)
    then show "doc_freq e = sources_taking lang parts extra (the_term e) * sum_list (map (freq_in (the_term e)) segs)"
      using each [OF e] all_hits_freq by simp
  qed
  ultimately show ?thesis using set terms by simp
qed

text \<open>C16: the terms of a word are collected exactly. When no scan reaches the cap, the result has every term of
  the dictionaries that some branch takes, as it is written or without its quotes, and no other,
  each once, with the least branch that takes it, sorted by branch, length, falling frequency and
  spelling. A term that one automaton takes has its document frequency summed over the segments.\<close>

theorem collect_ranked_exact:
  assumes "streams_entries search" "streams_entries search_extra" "parts_ok lang parts"
    "\<forall>A \<in> set extra. automaton A"
    "collect_ranked_terms search search_extra cancelled err cap compile (map Inr segs) parts extra = Inr (out, False)"
  shows "sorted (map rank_key out) \<and> distinct (map the_term out) \<and>
    the_term ` set out = {t. from_utf8_ok t \<and> (\<exists>seg \<in> set segs. t \<in> fst ` set seg) \<and>
      (\<exists>b. takes lang (concat (map dfa_branches parts)) extra b t)} \<and>
    (\<forall>e \<in> set out. branch e = (LEAST b. takes lang (concat (map dfa_branches parts)) extra b (the_term e)) \<and>
      (sources_taking lang parts extra (the_term e) = 1 \<longrightarrow>
        doc_freq e = sum_list (map (freq_in (the_term e)) segs)))"
  using collect_ranked_all [OF assms] by simp

subsection \<open>Branch by branch\<close>

lemma freq_in_append: "freq_in t (xs @ ys) = freq_in t xs + freq_in t ys"
  by (simp add: freq_in_def)

lemma freq_in_absent: "t \<notin> fst ` set seg \<Longrightarrow> freq_in t seg = 0"
  by (force simp: freq_in_def filter_empty_conv)

text \<open>The set while one branch is collected: \<open>old\<close> is what earlier branches found, \<open>seen\<close> what this one has visited.\<close>

definition collecting :: "nat \<Rightarrow> nat \<Rightarrow> ranked_term list \<Rightarrow> entries \<Rightarrow> gathered \<Rightarrow> bool" where
  "collecting cap b old seen = (\<lambda>(index, found). gathered_ok (index, found) \<and> length found \<le> cap \<and> set old \<subseteq> set found \<and>
     (\<forall>e \<in> set found. e \<in> set old \<or> branch e = b \<and> the_term e \<notin> the_term ` set old \<and> the_term e \<in> fst ` set seen) \<and>
     (length found < cap \<longrightarrow> fst ` set seen \<subseteq> the_term ` set found \<and>
        (\<forall>e \<in> set found. e \<notin> set old \<longrightarrow> doc_freq e = freq_in (the_term e) seen)))"

lemma note_term_length: "length (snd g) \<le> length (snd (note_term cap b t f g))"
  by (cases g) (auto simp: note_term_def split: option.split)

lemma same_term_entry:
  "gathered_ok (index, found) \<Longrightarrow> e \<in> set found \<Longrightarrow> e' \<in> set found \<Longrightarrow> the_term e = the_term e' \<Longrightarrow> e = e'"
  using gathered_okD(3) [of index found] by (auto simp: distinct_map inj_on_def)

lemma collecting_note:
  assumes "collecting cap b old seen (index, found)" "\<forall>e \<in> set old. branch e < b"
  shows "collecting cap b old (seen @ [(t, f)]) (note_term cap b t f (index, found))"
proof -
  have ok: "gathered_ok (index, found)" and le: "length found \<le> cap" and sub: "set old \<subseteq> set found"
    and each: "\<And>e. e \<in> set found \<Longrightarrow> e \<in> set old \<or> branch e = b \<and> the_term e \<notin> the_term ` set old \<and> the_term e \<in> fst ` set seen"
    and room: "length found < cap \<Longrightarrow> fst ` set seen \<subseteq> the_term ` set found"
      "\<And>e. length found < cap \<Longrightarrow> e \<in> set found \<Longrightarrow> e \<notin> set old \<Longrightarrow> doc_freq e = freq_in (the_term e) seen"
    using assms(1) by (auto simp: collecting_def)
  have more: "e \<in> set old \<or> branch e = b \<and> the_term e \<notin> the_term ` set old \<and> the_term e \<in> fst ` set (seen @ [(t, f)])"
    if "e \<in> set found" for e
  proof -
    have "fst ` set seen \<subseteq> fst ` set (seen @ [(t, f)])" by auto
    then show ?thesis using each [OF that] by blast
  qed
  have freq: "freq_in u (seen @ [(t, f)]) = freq_in u seen + (if u = t then f else 0)" for u
    by (simp add: freq_in_append) (simp add: freq_in_def)
  show ?thesis
  proof (cases "index t")
    case None
    then have new: "t \<notin> the_term ` set found" using gathered_okD(2) [OF ok] by simp
    show ?thesis
    proof (cases "length found < cap")
      case True
      let ?e = "\<lparr>the_term = t, branch = b, doc_freq = f\<rparr>"
      have note_eq: "note_term cap b t f (index, found) = (index(t \<mapsto> length found), found @ [?e])"
        using None True by (simp add: note_term_def)
      have zero: "freq_in t seen = 0" using new room(1) [OF True] by (intro freq_in_absent) blast
      have exact: "\<forall>e \<in> set (found @ [?e]). e \<notin> set old \<longrightarrow> doc_freq e = freq_in (the_term e) (seen @ [(t, f)])"
        using new zero room(2) [OF True] by (auto simp: freq)
      have t_old: "t \<notin> the_term ` set old" using new sub by blast
      have each': "\<forall>e \<in> set (found @ [?e]). e \<in> set old \<or>
          branch e = b \<and> the_term e \<notin> the_term ` set old \<and> the_term e \<in> fst ` set (seen @ [(t, f)])"
      proof
        fix e
        assume e: "e \<in> set (found @ [?e])"
        show "e \<in> set old \<or> branch e = b \<and> the_term e \<notin> the_term ` set old \<and> the_term e \<in> fst ` set (seen @ [(t, f)])"
          using e more [of e] t_old by (cases "e \<in> set found") (blast, simp)
      qed
      have "fst ` set (seen @ [(t, f)]) \<subseteq> the_term ` set (found @ [?e])" using room(1) [OF True] by auto
      moreover have "gathered_ok (index(t \<mapsto> length found), found @ [?e])" by (rule gathered_ok_push [OF ok None]) simp
      moreover have "length (found @ [?e]) \<le> cap" "set old \<subseteq> set (found @ [?e])" using True sub by auto
      ultimately show ?thesis
        using each' exact unfolding note_eq collecting_def prod.case by blast
    next
      case False
      then have "note_term cap b t f (index, found) = (index, found)" using None by (simp add: note_term_def)
      then show ?thesis using ok le sub each False by (auto simp: collecting_def)
    qed
  next
    case (Some i)
    then have i: "i < length found" "the_term (found ! i) = t" using gathered_okD(1) [OF ok] by auto
    then have mem: "found ! i \<in> set found" "t \<in> the_term ` set found" by (simp, metis imageI nth_mem)
    show ?thesis
    proof (cases "branch (found ! i) = b")
      case True
      let ?e = "(found ! i)\<lparr>doc_freq := doc_freq (found ! i) + f\<rparr>"
      have note_eq: "note_term cap b t f (index, found) = (index, found[i := ?e])"
        using Some True by (simp add: note_term_def)
      have fresh: "found ! i \<notin> set old" using assms(2) True by auto
      have elems: "e = ?e \<or> e \<in> set found \<and> the_term e \<noteq> t" if "e \<in> set (found[i := ?e])" for e
      proof -
        obtain j where j: "j < length found" "e = found[i := ?e] ! j"
          using \<open>e \<in> set (found[i := ?e])\<close> by (auto simp: in_set_conv_nth)
        show ?thesis
        proof (cases "j = i")
          case False
          then have "the_term (found ! j) \<noteq> t" using gathered_okD(1) [OF ok, of t] Some j(1) by (metis option.inject)
          then show ?thesis using j False by simp
        qed (use j in simp)
      qed
      have "map the_term (found[i := ?e]) = (map the_term found)[i := the_term (found ! i)]" by (simp add: map_update)
      also have "\<dots> = map the_term found" using i(1) by (simp add: list_update_same_conv)
      finally have names: "the_term ` set (found[i := ?e]) = the_term ` set found" by (metis set_map)
      have kept: "set old \<subseteq> set (found[i := ?e])"
      proof
        fix e
        assume e: "e \<in> set old"
        then obtain j where j: "j < length found" "found ! j = e" using sub by (metis in_set_conv_nth subsetD)
        then have "j \<noteq> i" using fresh e by auto
        then show "e \<in> set (found[i := ?e])" using j by (metis length_list_update nth_list_update_neq nth_mem)
      qed
      have old_t: "t \<notin> the_term ` set old" "t \<in> fst ` set seen" using each [OF mem(1)] fresh i(2) by auto
      have "e \<in> set old \<or> branch e = b \<and> the_term e \<notin> the_term ` set old \<and> the_term e \<in> fst ` set (seen @ [(t, f)])"
        if "e \<in> set (found[i := ?e])" for e
        using elems [OF that] each [of e] old_t True i(2) by auto
      moreover have "doc_freq e = freq_in (the_term e) (seen @ [(t, f)])"
        if "e \<in> set (found[i := ?e])" "e \<notin> set old" "length found < cap" for e
        using elems [OF that(1)] room(2) [OF that(3), of e] room(2) [OF that(3) mem(1) fresh] that(2) i(2) by (auto simp: freq)
      moreover have "gathered_ok (index, found[i := ?e])" by (rule gathered_ok_update [OF ok i(1)]) simp
      ultimately show ?thesis
        using le kept names room(1) mem(2) unfolding note_eq by (auto simp: collecting_def)
    next
      case False
      then have note_eq: "note_term cap b t f (index, found) = (index, found)" using Some by (simp add: note_term_def)
      have "found ! i \<in> set old" using each [OF mem(1)] False by blast
      then have "the_term e \<noteq> t" if "e \<in> set found" "e \<notin> set old" for e
        using that same_term_entry [OF ok that(1) mem(1)] i(2) by auto
      then have exact: "length found < cap \<longrightarrow>
          (\<forall>e \<in> set found. e \<notin> set old \<longrightarrow> doc_freq e = freq_in (the_term e) (seen @ [(t, f)]))"
        using room(2) by (simp add: freq)
      have "length found < cap \<longrightarrow> fst ` set (seen @ [(t, f)]) \<subseteq> the_term ` set found" using room(1) mem(2) by auto
      then show ?thesis
        using ok le sub more exact unfolding note_eq collecting_def prod.case by blast
    qed
  qed
qed

definition note_entry :: "nat \<Rightarrow> nat \<Rightarrow> bytes \<times> nat \<Rightarrow> gathered \<Rightarrow> gathered" where
  "note_entry cap b = (\<lambda>(t, f). note_term cap b t f)"

lemma collecting_fold:
  assumes "collecting cap b old seen g" "\<forall>e \<in> set old. branch e < b"
  shows "collecting cap b old (seen @ xs) (fold (note_entry cap b) xs g)"
  using assms(1)
proof (induction xs arbitrary: seen g)
  case (Cons x xs)
  obtain t f where x: "x = (t, f)" by (cases x)
  have "collecting cap b old (seen @ [(t, f)]) (note_entry cap b x g)"
    using collecting_note [of cap b old seen "fst g" "snd g" t f] Cons.prems assms(2) by (simp add: x note_entry_def)
  then show ?case using Cons.IH [of "seen @ [(t, f)]" "note_entry cap b x g"] by (simp add: x)
qed simp

lemma fold_note_length: "length (snd g) \<le> length (snd (fold (note_entry cap b) xs g))"
proof (induction xs arbitrary: g)
  case (Cons x xs)
  have "length (snd g) \<le> length (snd (note_entry cap b x g))"
    using note_term_length by (cases x) (simp add: note_entry_def)
  also have "\<dots> \<le> length (snd (fold (note_entry cap b) xs (note_entry cap b x g)))" by (rule Cons.IH)
  finally show ?case by simp
qed simp

text \<open>A stream is visited whole, or for as many terms as the cap.\<close>

lemma visit_loop_prefix:
  assumes "visit_loop cancelled err cap b xs visited g = Inr g'" "\<forall>(t, f) \<in> set xs. from_utf8_ok t"
  shows "\<exists>ys zs. xs = ys @ zs \<and> g' = fold (note_entry cap b) ys g \<and> (zs = [] \<or> cap \<le> visited + length ys)"
  using assms
proof (induction cancelled err cap b xs visited g rule: visit_loop.induct)
  case (2 cancelled err cap b key freq rest visited g)
  show ?case
  proof (cases "cap \<le> visited")
    case True
    then show ?thesis using 2(2) by (intro exI [of _ "[]"] exI [of _ "(key, freq) # rest"]) (simp split: if_splits)
  next
    case False
    then obtain ys zs where "rest = ys @ zs" "g' = fold (note_entry cap b) ys (note_term cap b key freq g)"
      "zs = [] \<or> cap \<le> visited + 1 + length ys"
      using 2 by (auto split: if_splits)
    then show ?thesis
      by (intro exI [of _ "(key, freq) # ys"] exI [of _ zs]) (simp add: note_entry_def)
  qed
qed auto

lemma visit_loop_collects:
  assumes "visit_loop cancelled err cap b xs 0 g = Inr g'" "\<forall>(t, f) \<in> set xs. from_utf8_ok t" "distinct (map fst xs)"
    "collecting cap b old seen g" "\<forall>e \<in> set old. branch e < b"
  shows "\<exists>ys. set ys \<subseteq> set xs \<and> collecting cap b old (seen @ ys) g' \<and> (length (snd g') < cap \<longrightarrow> ys = xs)"
proof -
  obtain ys zs where ys: "xs = ys @ zs" "g' = fold (note_entry cap b) ys g" "zs = [] \<or> cap \<le> length ys"
    using visit_loop_prefix [OF assms(1,2)] by auto
  have coll: "collecting cap b old (seen @ ys) g'" using collecting_fold [OF assms(4,5)] ys(2) by simp
  have "cap \<le> length (snd g')" if "cap \<le> length ys"
  proof (rule ccontr)
    assume "\<not> cap \<le> length (snd g')"
    then have "fst ` set ys \<subseteq> the_term ` set (snd g')" using coll by (cases g') (auto simp: collecting_def)
    then have "card (fst ` set ys) \<le> card (the_term ` set (snd g'))" by (intro card_mono) auto
    moreover have "card (fst ` set ys) = length ys"
      using assms(3) ys(1) by (metis distinct_append distinct_card length_map map_append set_map)
    moreover have "card (the_term ` set (snd g')) \<le> length (snd g')"
      by (metis card_length length_map set_map)
    ultimately show False using that \<open>\<not> cap \<le> length (snd g')\<close> by linarith
  qed
  then have "length (snd g') < cap \<longrightarrow> ys = xs" using ys by auto
  then show ?thesis using coll ys(1) by (intro exI [of _ ys]) auto
qed

lemma visit_loop_length: "visit_loop cancelled err cap b xs k g = Inr g' \<Longrightarrow> length (snd g) \<le> length (snd g')"
proof (induction cancelled err cap b xs k g rule: visit_loop.induct)
  case (2 cancelled err cap b key freq rest visited g)
  then show ?case
    using note_term_length [of g cap b key freq] by (auto split: if_splits)
qed simp

text \<open>The terms of the segments that a branch takes.\<close>

definition taken :: "(bytes \<Rightarrow> bool) \<Rightarrow> entries list \<Rightarrow> entries" where
  "taken P segs = concat (map (filter (\<lambda>(t, _). P t)) segs)"

definition segments_ok :: "entries list \<Rightarrow> bool" where
  "segments_ok segs \<longleftrightarrow> (\<forall>seg \<in> set segs. distinct (map fst seg) \<and> (\<forall>(t, f) \<in> set seg. from_utf8_ok t))"

lemma collect_one_length:
  "collect_one_branch search cancelled err cap A b s segments g = Inr g' \<Longrightarrow> length (snd g) \<le> length (snd g')"
proof (induction segments arbitrary: s g)
  case (Cons segment segments)
  then obtain terms g1 where g1: "visit_loop (\<lambda>k. cancelled (In_Branch b s k)) err cap b (search (quote_transparent A) terms) 0 g = Inr g1"
    "collect_one_branch search cancelled err cap A b (s + 1) segments g1 = Inr g'"
    by (auto split: sum.splits)
  show ?case using visit_loop_length [OF g1(1)] Cons.IH [OF g1(2)] by linarith
qed simp

lemma collect_one_collects:
  assumes "streams_entries search" "automaton A" "segments_ok segs"
    "collect_one_branch search cancelled err cap A b s (map Inr segs) g = Inr g'"
    "collecting cap b old seen g" "\<forall>e \<in> set old. branch e < b"
  shows "\<exists>ys. set ys \<subseteq> set (taken (accepts (quote_transparent A)) segs) \<and> collecting cap b old (seen @ ys) g' \<and>
    (length (snd g') < cap \<longrightarrow> ys = taken (accepts (quote_transparent A)) segs)"
  using assms(3-5)
proof (induction segs arbitrary: s g seen)
  case Nil
  then show ?case by (intro exI [of _ "[]"]) (simp add: taken_def)
next
  case (Cons seg segs)
  have "automaton (quote_transparent A)" using automaton.quote_dead_end [OF assms(2)] by (simp add: automaton_def)
  then have stream: "search (quote_transparent A) seg = filter (\<lambda>(t, _). accepts (quote_transparent A) t) seg"
    using assms(1) unfolding streams_entries_def by blast
  let ?xs = "filter (\<lambda>(t, _). accepts (quote_transparent A) t) seg"
  obtain g1 where g1: "visit_loop (\<lambda>k. cancelled (In_Branch b s k)) err cap b ?xs 0 g = Inr g1"
    "collect_one_branch search cancelled err cap A b (s + 1) (map Inr segs) g1 = Inr g'"
    using Cons.prems(2) stream by (auto split: sum.splits)
  have "\<forall>(t, f) \<in> set ?xs. from_utf8_ok t" "distinct (map fst ?xs)"
    using Cons.prems(1) by (auto simp: segments_ok_def distinct_map_filter)
  then obtain ys where ys: "set ys \<subseteq> set ?xs" "collecting cap b old (seen @ ys) g1" "length (snd g1) < cap \<longrightarrow> ys = ?xs"
    using visit_loop_collects [OF g1(1) _ _ Cons.prems(3) assms(6)] by blast
  obtain zs where zs: "set zs \<subseteq> set (taken (accepts (quote_transparent A)) segs)"
    "collecting cap b old ((seen @ ys) @ zs) g'"
    "length (snd g') < cap \<longrightarrow> zs = taken (accepts (quote_transparent A)) segs"
    using Cons.IH [OF _ g1(2) ys(2)] Cons.prems(1) by (auto simp: segments_ok_def)
  have "length (snd g1) \<le> length (snd g')" by (rule collect_one_length [OF g1(2)])
  then have "length (snd g') < cap \<longrightarrow> ys @ zs = taken (accepts (quote_transparent A)) (seg # segs)"
    using ys(3) zs(3) by (auto simp: taken_def)
  then show ?case
    using ys(1) zs(1,2) by (intro exI [of _ "ys @ zs"]) (auto simp: taken_def)
qed


text \<open>What the set holds before branch \<open>b\<close>, for the test \<open>T\<close> of each branch: nothing wrong, nothing of a branch while
  a lower one is incomplete, and all of the branches below \<open>b\<close> while there is room.\<close>

definition branch_ordered :: "(nat \<Rightarrow> bytes \<Rightarrow> bool) \<Rightarrow> entries list \<Rightarrow> nat \<Rightarrow> nat \<Rightarrow> ranked_term list \<Rightarrow> bool" where
  "branch_ordered T segs cap b found \<longleftrightarrow> length found \<le> cap \<and>
     (\<forall>e \<in> set found. branch e < b \<and> T (branch e) (the_term e) \<and> (\<forall>b' < branch e. \<not> T b' (the_term e)) \<and>
        the_term e \<in> fst ` set (concat segs) \<and>
        (\<forall>t \<in> fst ` set (concat segs). (\<exists>b' < branch e. T b' t) \<longrightarrow> t \<in> the_term ` set found) \<and>
        (\<forall>e' \<in> set found. branch e < branch e' \<longrightarrow> doc_freq e = freq_in (the_term e) (concat segs))) \<and>
     (length found < cap \<longrightarrow>
        (\<forall>t \<in> fst ` set (concat segs). (\<exists>b' < b. T b' t) \<longrightarrow> t \<in> the_term ` set found) \<and>
        (\<forall>e \<in> set found. doc_freq e = freq_in (the_term e) (concat segs)))"

lemma branch_ordered_full:
  "branch_ordered T segs cap b found \<Longrightarrow> cap \<le> length found \<Longrightarrow> b \<le> b' \<Longrightarrow> branch_ordered T segs cap b' found"
  by (auto simp: branch_ordered_def)

lemma taken_freq: "P t \<Longrightarrow> freq_in t (taken P segs) = freq_in t (concat segs)"
proof (induction segs)
  case (Cons seg segs)
  have "filter (\<lambda>(u, _). u = t) (filter (\<lambda>(u, _). P u) seg) = filter (\<lambda>(u, _). u = t) seg"
    using Cons.prems by (induction seg) auto
  then have "freq_in t (filter (\<lambda>(u, _). P u) seg) = freq_in t seg" by (simp add: freq_in_def)
  then show ?case using Cons by (simp add: taken_def freq_in_append)
qed (simp add: taken_def)

lemma taken_terms: "t \<in> fst ` set (taken P segs) \<longleftrightarrow> P t \<and> t \<in> fst ` set (concat segs)"
  by (force simp: taken_def)

lemma branch_ordered_step:
  assumes "streams_entries search" "automaton A" "segments_ok segs" "accepts (quote_transparent A) = T b"
    "collect_one_branch search cancelled err cap A b 0 (map Inr segs) (index, old) = Inr (index', found)"
    "gathered_ok (index, old)" "branch_ordered T segs cap b old" "length old < cap"
  shows "gathered_ok (index', found) \<and> branch_ordered T segs cap (b + 1) found"
proof -
  have old: "branch e < b" "T (branch e) (the_term e)" "\<forall>b' < branch e. \<not> T b' (the_term e)" "the_term e \<in> fst ` set (concat segs)"
      "doc_freq e = freq_in (the_term e) (concat segs)" if "e \<in> set old" for e
    using assms(7,8) that unfolding branch_ordered_def by blast+
  have below: "t \<in> the_term ` set old" if "t \<in> fst ` set (concat segs)" "b' < b" "T b' t" for t b'
    using assms(7,8) that unfolding branch_ordered_def by blast
  have "collecting cap b old [] (index, old)" using assms(6,8) by (auto simp: collecting_def)
  then obtain ys where ys: "set ys \<subseteq> set (taken (T b) segs)" "collecting cap b old ([] @ ys) (index', found)"
    "length found < cap \<longrightarrow> ys = taken (T b) segs"
    using collect_one_collects [OF assms(1-3,5)] old(1) assms(4) by fastforce
  have ok: "gathered_ok (index', found)" and le: "length found \<le> cap" and sub: "set old \<subseteq> set found"
    and each: "\<And>e. e \<in> set found \<Longrightarrow> e \<in> set old \<or> branch e = b \<and> the_term e \<notin> the_term ` set old \<and> the_term e \<in> fst ` set ys"
    and room: "length found < cap \<Longrightarrow> fst ` set ys \<subseteq> the_term ` set found"
      "\<And>e. length found < cap \<Longrightarrow> e \<in> set found \<Longrightarrow> e \<notin> set old \<Longrightarrow> doc_freq e = freq_in (the_term e) ys"
    using ys(2) by (auto simp: collecting_def)
  have fresh: "branch e = b" "T b (the_term e)" "the_term e \<in> fst ` set (concat segs)" "\<forall>b' < b. \<not> T b' (the_term e)"
    if "e \<in> set found" "e \<notin> set old" for e
  proof -
    have e: "branch e = b" "the_term e \<notin> the_term ` set old" "the_term e \<in> fst ` set ys" using each [OF that(1)] that(2) by blast+
    then have "the_term e \<in> fst ` set (taken (T b) segs)" using ys(1) by blast
    then show "branch e = b" "T b (the_term e)" "the_term e \<in> fst ` set (concat segs)" "\<forall>b' < b. \<not> T b' (the_term e)"
      using e below unfolding taken_terms by blast+
  qed
  have low: "branch e \<le> b" if "e \<in> set found" for e
    using that old(1) [of e] fresh(1) [of e] by fastforce
  have subr: "the_term ` set old \<subseteq> the_term ` set found" using sub by blast
  have part: "branch e < b + 1 \<and> T (branch e) (the_term e) \<and> (\<forall>b' < branch e. \<not> T b' (the_term e)) \<and>
      the_term e \<in> fst ` set (concat segs) \<and>
      (\<forall>t \<in> fst ` set (concat segs). (\<exists>b' < branch e. T b' t) \<longrightarrow> t \<in> the_term ` set found) \<and>
      (\<forall>e' \<in> set found. branch e < branch e' \<longrightarrow> doc_freq e = freq_in (the_term e) (concat segs))" if e: "e \<in> set found" for e
  proof (intro conjI)
    show "branch e < b + 1" using low [OF e] by simp
    show "T (branch e) (the_term e)" "\<forall>b' < branch e. \<not> T b' (the_term e)" "the_term e \<in> fst ` set (concat segs)"
      using old(2-4) [of e] fresh [OF e] by (cases "e \<in> set old"; simp)+
    show "\<forall>t \<in> fst ` set (concat segs). (\<exists>b' < branch e. T b' t) \<longrightarrow> t \<in> the_term ` set found"
      using low [OF e] below subr by (meson less_le_trans subsetD)
    show "\<forall>e' \<in> set found. branch e < branch e' \<longrightarrow> doc_freq e = freq_in (the_term e) (concat segs)"
      using old(5) [of e] fresh(1) [OF e] low by (cases "e \<in> set old") (blast, fastforce)
  qed
  have full: "(\<forall>t \<in> fst ` set (concat segs). (\<exists>b' < b + 1. T b' t) \<longrightarrow> t \<in> the_term ` set found) \<and>
      (\<forall>e \<in> set found. doc_freq e = freq_in (the_term e) (concat segs))" if less: "length found < cap"
  proof (intro conjI ballI impI)
    fix t
    assume t: "t \<in> fst ` set (concat segs)" "\<exists>b' < b + 1. T b' t"
    then obtain b' where "b' < b \<or> b' = b" "T b' t" by (metis Suc_eq_plus1 less_Suc_eq)
    moreover have "t \<in> the_term ` set found" if "T b t"
      using room(1) [OF less] ys(3) less t(1) that taken_terms [of t "T b" segs] by blast
    ultimately show "t \<in> the_term ` set found" using below [OF t(1)] subr by blast
  next
    fix e
    assume "e \<in> set found"
    then show "doc_freq e = freq_in (the_term e) (concat segs)"
      using old(5) [of e] room(2) [OF less, of e] fresh(2) [of e] ys(3) less taken_freq [of "T b" "the_term e" segs] by metis
  qed
  show ?thesis using ok le part full unfolding branch_ordered_def by blast
qed

lemma pattern_loop_ordered:
  assumes "streams_entries search" "segments_ok segs"
    "\<And>p d. compile p = Inr d \<Longrightarrow> dfa_ok lang d \<and> dfa_branches d = [p]"
    "pattern_loop search cancelled err cap compile (map Inr segs) ps b g = Inr g'"
    "\<And>i. i < length ps \<Longrightarrow> T (b + i) = spelt lang (ps ! i)"
    "gathered_ok g" "branch_ordered T segs cap b (snd g)"
  shows "gathered_ok g' \<and> branch_ordered T segs cap (b + length ps) (snd g')"
  using assms(4-7)
proof (induction ps arbitrary: b g)
  case (Cons p ps)
  show ?case
  proof (cases "cap \<le> length (snd g)")
    case True
    then show ?thesis using Cons.prems branch_ordered_full [OF Cons.prems(4) True] by auto
  next
    case False
    then obtain d g1 where d: "compile p = Inr d"
      "collect_one_branch search cancelled err cap (dfa_automaton d) b 0 (map Inr segs) g = Inr g1"
      "pattern_loop search cancelled err cap compile (map Inr segs) ps (b + 1) g1 = Inr g'"
      using Cons.prems(1) by (auto split: if_splits sum.splits)
    have dok: "dfa_ok lang d" "dfa_branches d = [p]" using assms(3) [OF d(1)] by blast+
    have "accepts (quote_transparent (dfa_automaton d)) = T b"
      using Cons.prems(2) [of 0] dfa_quote_accepts [OF dok(1)] dok(2) by (intro ext) simp
    then have "gathered_ok g1 \<and> branch_ordered T segs cap (b + 1) (snd g1)"
      using branch_ordered_step [OF assms(1) dfa_automaton_ok [OF dok(1)] assms(2), of T b cancelled err cap "fst g" "snd g" "fst g1" "snd g1"]
        d(2) Cons.prems(3,4) False by simp
    then show ?thesis
      using Cons.IH [OF d(3)] Cons.prems(2) [of "Suc i" for i] by simp
  qed
qed simp

lemma extra_loop_ordered:
  assumes "streams_entries search" "segments_ok segs" "\<forall>A \<in> set As. automaton A"
    "extra_loop search cancelled err cap (map Inr segs) As b g = Inr g'"
    "\<And>i. i < length As \<Longrightarrow> T (b + i) = accepts (quote_transparent (As ! i))"
    "gathered_ok g" "branch_ordered T segs cap b (snd g)"
  shows "gathered_ok g' \<and> branch_ordered T segs cap (b + length As) (snd g')"
  using assms(3-7)
proof (induction As arbitrary: b g)
  case (Cons A As)
  show ?case
  proof (cases "cap \<le> length (snd g)")
    case True
    then show ?thesis using Cons.prems branch_ordered_full [OF Cons.prems(5) True] by auto
  next
    case False
    then obtain g1 where d: "collect_one_branch search cancelled err cap A b 0 (map Inr segs) g = Inr g1"
      "extra_loop search cancelled err cap (map Inr segs) As (b + 1) g1 = Inr g'"
      using Cons.prems(2) by (auto split: if_splits sum.splits)
    have "automaton A" "accepts (quote_transparent A) = T b" using Cons.prems(1) Cons.prems(3) [of 0] by simp_all
    then have "gathered_ok g1 \<and> branch_ordered T segs cap (b + 1) (snd g1)"
      using branch_ordered_step [OF assms(1) _ assms(2), of A T b cancelled err cap "fst g" "snd g" "fst g1" "snd g1"]
        d(1) Cons.prems(4,5) False by simp
    then show ?thesis
      using Cons.IH [OF _ d(2)] Cons.prems(1) Cons.prems(3) [of "Suc i" for i] by simp
  qed
qed simp

lemma branch_order_retry:
  assumes "streams_entries search" "streams_entries search_extra" "segments_ok segs" "\<forall>A \<in> set extra. automaton A"
    "\<And>p d. compile p = Inr d \<Longrightarrow> dfa_ok lang d \<and> dfa_branches d = [p]"
    "collect_in_branch_order search search_extra cancelled err cap compile (map Inr segs) parts extra = Inr found"
  shows "distinct (map the_term found) \<and>
    branch_ordered (takes lang (concat (map dfa_branches parts)) extra) segs cap (length (concat (map dfa_branches parts)) + length extra) found"
proof -
  define ps where "ps = concat (map dfa_branches parts)"
  let ?T = "takes lang ps extra"
  obtain g g' where g: "pattern_loop search cancelled err cap compile (map Inr segs) ps 0 (Map.empty, []) = Inr g"
    "extra_loop search_extra cancelled err cap (map Inr segs) extra (length ps) g = Inr g'" "found = snd g'"
    using assms(6) by (auto simp: collect_in_branch_order_def Let_def map_sum_def simp flip: ps_def split: sum.splits)
  have T: "?T i = spelt lang (ps ! i)" if "i < length ps" for i
    using that by (intro ext) (simp add: takes_def)
  have "gathered_ok (Map.empty, [])" "branch_ordered ?T segs cap 0 []"
    by (simp_all add: gathered_ok_def branch_ordered_def)
  then have "gathered_ok g \<and> branch_ordered ?T segs cap (0 + length ps) (snd g)"
    using pattern_loop_ordered [OF assms(1,3,5) g(1), of ?T] T by simp
  moreover have "?T (length ps + i) = accepts (quote_transparent (extra ! i))" if "i < length extra" for i
    using that by (intro ext) (simp add: takes_def)
  ultimately have "gathered_ok g' \<and> branch_ordered ?T segs cap (length ps + length extra) (snd g')"
    using extra_loop_ordered [OF assms(2,3,4) g(2), of ?T] by simp
  then show ?thesis using gathered_okD(3) [of "fst g'" "snd g'"] g(3) by (simp add: ps_def)
qed


text \<open>C17: a word whose terms overflow the cap is served in branch order. The result has at most \<open>cap\<close> terms of the
  dictionaries, each once, with the least branch that takes it, and a term is there only if every term
  of the lower branches is: a broad branch never takes the place of a term of an earlier one. All
  frequencies below the last branch are the exact sums over the segments; and while there is room, the
  result is complete and every frequency is exact.\<close>

theorem overflow_keeps_branch_order:
  assumes "streams_entries search" "streams_entries search_extra" "segments_ok segs" "\<forall>A \<in> set extra. automaton A"
    "\<And>p d. compile p = Inr d \<Longrightarrow> dfa_ok lang d \<and> dfa_branches d = [p]"
    "collect_ranked_terms search search_extra cancelled err cap compile (map Inr segs) parts extra = Inr (out, True)"
  shows "sorted (map rank_key out) \<and> distinct (map the_term out) \<and> length out \<le> cap \<and>
    (\<forall>e \<in> set out. the_term e \<in> fst ` set (concat segs) \<and>
      takes lang (concat (map dfa_branches parts)) extra (branch e) (the_term e) \<and>
      (\<forall>b < branch e. \<not> takes lang (concat (map dfa_branches parts)) extra b (the_term e)) \<and>
      (\<forall>t \<in> fst ` set (concat segs). (\<exists>b < branch e. takes lang (concat (map dfa_branches parts)) extra b t) \<longrightarrow>
        t \<in> the_term ` set out) \<and>
      (\<forall>e' \<in> set out. branch e < branch e' \<longrightarrow> doc_freq e = freq_in (the_term e) (concat segs))) \<and>
    (length out < cap \<longrightarrow>
      the_term ` set out = {t \<in> fst ` set (concat segs). \<exists>b. takes lang (concat (map dfa_branches parts)) extra b t} \<and>
      (\<forall>e \<in> set out. doc_freq e = freq_in (the_term e) (concat segs)))"
proof -
  define T where "T = takes lang (concat (map dfa_branches parts)) extra"
  define n where "n = length (concat (map dfa_branches parts)) + length extra"
  obtain found where found: "collect_in_branch_order search search_extra cancelled err cap compile (map Inr segs) parts extra = Inr found"
    "out = sort_ranked found"
    using assms(6) by (auto simp: collect_ranked_terms_def Let_def split: sum.splits prod.splits if_splits)
  have ord: "distinct (map the_term found)" "branch_ordered T segs cap n found"
    using branch_order_retry [OF assms(1-5) found(1)] by (simp_all add: T_def n_def)
  have mset: "mset out = mset found" by (simp add: found(2) sort_ranked_def)
  have "mset (map the_term out) = mset (map the_term found)" using mset by simp
  then have dist: "distinct (map the_term out)" using ord(1) mset_eq_imp_distinct_iff by blast
  have bo: "branch_ordered T segs cap n out"
    using ord(2) mset_eq_setD [OF mset] mset_eq_length [OF mset] by (simp add: branch_ordered_def)
  then have each: "length out \<le> cap" "\<And>e. e \<in> set out \<Longrightarrow> the_term e \<in> fst ` set (concat segs) \<and> T (branch e) (the_term e) \<and>
      (\<forall>b < branch e. \<not> T b (the_term e)) \<and>
      (\<forall>t \<in> fst ` set (concat segs). (\<exists>b < branch e. T b t) \<longrightarrow> t \<in> the_term ` set out) \<and>
      (\<forall>e' \<in> set out. branch e < branch e' \<longrightarrow> doc_freq e = freq_in (the_term e) (concat segs))"
    unfolding branch_ordered_def by (blast, meson)
  have full: "\<And>t b. length out < cap \<Longrightarrow> t \<in> fst ` set (concat segs) \<Longrightarrow> b < n \<Longrightarrow> T b t \<Longrightarrow> t \<in> the_term ` set out"
    "\<And>e. length out < cap \<Longrightarrow> e \<in> set out \<Longrightarrow> doc_freq e = freq_in (the_term e) (concat segs)"
    using bo unfolding branch_ordered_def by meson+
  have bound: "b < n" if "T b t" for b t
    using that by (simp add: T_def n_def takes_def split: if_splits)
  have terms: "the_term ` set out = {t \<in> fst ` set (concat segs). \<exists>b. T b t}" if "length out < cap"
  proof (intro equalityI subsetI)
    fix t
    assume "t \<in> the_term ` set out"
    then obtain e where "e \<in> set out" "t = the_term e" by blast
    then show "t \<in> {t \<in> fst ` set (concat segs). \<exists>b. T b t}" using each(2) [of e] by blast
  next
    fix t
    assume "t \<in> {t \<in> fst ` set (concat segs). \<exists>b. T b t}"
    then obtain b where "t \<in> fst ` set (concat segs)" "T b t" by blast
    then show "t \<in> the_term ` set out" using full(1) [OF that] bound by blast
  qed
  have all: "length out \<le> cap \<and>
    (\<forall>e \<in> set out. the_term e \<in> fst ` set (concat segs) \<and> T (branch e) (the_term e) \<and> (\<forall>b < branch e. \<not> T b (the_term e)) \<and>
      (\<forall>t \<in> fst ` set (concat segs). (\<exists>b < branch e. T b t) \<longrightarrow> t \<in> the_term ` set out) \<and>
      (\<forall>e' \<in> set out. branch e < branch e' \<longrightarrow> doc_freq e = freq_in (the_term e) (concat segs))) \<and>
    (length out < cap \<longrightarrow> the_term ` set out = {t \<in> fst ` set (concat segs). \<exists>b. T b t} \<and>
      (\<forall>e \<in> set out. doc_freq e = freq_in (the_term e) (concat segs)))"
    by (intro conjI impI) (rule each(1), rule ballI, erule each(2), erule terms, rule ballI, erule full(2))
  have "sorted (map rank_key out)" by (simp add: found(2) sort_ranked_def)
  then show ?thesis using dist all unfolding T_def by blast
qed

subsection \<open>Built automata\<close>

lemma numbered_append: "numbered n (ps @ qs) \<longleftrightarrow> numbered n ps \<and> numbered (n + length (concat (map dfa_branches ps))) qs"
  by (induction ps arbitrary: n) (auto simp: add.assoc)

text \<open>What the compiler of the library is relied on for: an automaton built of parsed patterns has their languages.\<close>

definition builds :: "('p \<Rightarrow> bytes \<Rightarrow> bool) \<Rightarrow> ('p \<Rightarrow> 'e + 'h) \<Rightarrow> ('h list \<Rightarrow> 'e + 's dense_dfa) \<Rightarrow> ('s dense_dfa \<Rightarrow> 'e + 's) \<Rightarrow> bool" where
  "builds lang parse build_dfa start_state \<longleftrightarrow>
     (\<forall>ps hirs d s first. list_all2 (\<lambda>p h. parse p = Inr h) ps hirs \<longrightarrow> build_dfa hirs = Inr d \<longrightarrow> start_state d = Inr s \<longrightarrow>
        dfa_ok lang \<lparr>dfa = d, dfa_start = s, first_branch = first, dfa_branches = ps\<rparr>)"

text \<open>The errors that a list of patterns may end in: no halving removes them.\<close>

definition unbuildable :: "('h list \<Rightarrow> 'e + 's dense_dfa) \<Rightarrow> ('s dense_dfa \<Rightarrow> 'e + 's) \<Rightarrow> 'h list \<Rightarrow> 'e \<Rightarrow> bool" where
  "unbuildable build_dfa start_state hirs e \<longleftrightarrow>
     (\<exists>hs. length hs \<le> 1 \<and> set hs \<subseteq> set hirs \<and> build_dfa hs = Inl e) \<or>
     (\<exists>hs d. set hs \<subseteq> set hirs \<and> build_dfa hs = Inr d \<and> start_state d = Inl e)"

lemma unbuildable_mono: "unbuildable build_dfa start_state hs e \<Longrightarrow> set hs \<subseteq> set hirs \<Longrightarrow> unbuildable build_dfa start_state hirs e"
  unfolding unbuildable_def by (meson subset_trans)

lemma build_range_ok:
  assumes "builds lang parse build_dfa start_state" "list_all2 (\<lambda>p h. parse p = Inr h) ps hirs"
  shows "case build_range build_dfa start_state hirs ps first parts of
      Inl e \<Rightarrow> unbuildable build_dfa start_state hirs e
    | Inr out \<Rightarrow> \<exists>new. out = parts @ new \<and> (\<forall>p \<in> set new. dfa_ok lang p) \<and> numbered first new \<and> concat (map dfa_branches new) = ps"
  using assms
proof (induction build_dfa start_state hirs ps first parts rule: build_range.induct)
  case (1 build_dfa start_state hirs ps first parts)
  let ?mid = "length hirs div 2"
  let ?range = "build_range build_dfa start_state"
  show ?case
  proof (cases "build_dfa hirs")
    case (Inr d)
    show ?thesis
    proof (cases "start_state d")
      case err: (Inl e)
      have "unbuildable build_dfa start_state hirs e" unfolding unbuildable_def using Inr err by blast
      then show ?thesis using Inr err by (subst build_range.simps) (simp add: term_dfa_new_def)
    next
      case ok: (Inr s)
      have "dfa_ok lang \<lparr>dfa = d, dfa_start = s, first_branch = first, dfa_branches = ps\<rparr>"
        using 1(3,4) Inr ok unfolding builds_def by blast
      then show ?thesis using Inr ok by (subst build_range.simps) (simp add: term_dfa_new_def)
    qed
  next
    case (Inl e)
    show ?thesis
    proof (cases "1 < length hirs")
      case False
      then have "unbuildable build_dfa start_state hirs e" unfolding unbuildable_def using Inl by (metis not_less order_refl)
      then show ?thesis using Inl False by (subst build_range.simps) simp
    next
      case True
      have eq: "?range hirs ps first parts =
          (case ?range (take ?mid hirs) (take ?mid ps) first parts of Inl e \<Rightarrow> Inl e
           | Inr parts \<Rightarrow> ?range (drop ?mid hirs) (drop ?mid ps) (first + ?mid) parts)"
        using Inl True by (subst build_range.simps) (simp add: Let_def)
      have sub: "set (take ?mid hirs) \<subseteq> set hirs" "set (drop ?mid hirs) \<subseteq> set hirs"
        by (rule set_take_subset, rule set_drop_subset)
      note IH1 = 1(1) [OF Inl True refl 1(3) list_all2_takeI [OF 1(4)]]
      show ?thesis
      proof (cases "?range (take ?mid hirs) (take ?mid ps) first parts")
        case err: (Inl e')
        then show ?thesis using IH1 unbuildable_mono [OF _ sub(1)] by (simp add: eq)
      next
        case ok: (Inr out1)
        then obtain new1 where new1: "out1 = parts @ new1" "\<forall>p \<in> set new1. dfa_ok lang p" "numbered first new1"
          "concat (map dfa_branches new1) = take ?mid ps"
          using IH1 by auto
        have "length ps = length hirs" by (rule list_all2_lengthD [OF 1(4)])
        then have len: "length (concat (map dfa_branches new1)) = ?mid" using new1(4) by simp
        note IH2 = 1(2) [OF Inl True refl ok 1(3) list_all2_dropI [OF 1(4)]]
        show ?thesis
        proof (cases "?range (drop ?mid hirs) (drop ?mid ps) (first + ?mid) out1")
          case err: (Inl e')
          then show ?thesis using IH2 unbuildable_mono [OF _ sub(2)] ok by (simp add: eq)
        next
          case ok2: (Inr out2)
          then obtain new2 where "out2 = out1 @ new2" "\<forall>p \<in> set new2. dfa_ok lang p" "numbered (first + ?mid) new2"
            "concat (map dfa_branches new2) = drop ?mid ps"
            using IH2 by auto
          then have "out2 = parts @ (new1 @ new2) \<and> (\<forall>p \<in> set (new1 @ new2). dfa_ok lang p) \<and> numbered first (new1 @ new2) \<and>
              concat (map dfa_branches (new1 @ new2)) = ps"
            using new1 len by (auto simp: numbered_append)
          then show ?thesis using ok ok2 by (simp add: eq)
        qed
      qed
    qed
  qed
qed

lemma each_result_parsed: "each_result f xs = Inr ys \<Longrightarrow> list_all2 (\<lambda>x y. f x = Inr y) xs ys"
  using each_result_nth [of f xs ys] by (simp add: list_all2_conv_all_nth)

lemma each_result_error: "each_result f xs = Inl e \<Longrightarrow> \<exists>x \<in> set xs. f x = Inl e"
  by (induction xs) (auto split: sum.splits)

text \<open>C39: a list of patterns is compiled whole or refused for a cause that no halving removes: a pattern the
  parser refuses, one pattern too large for an automaton by itself, or an automaton without a start
  state. When it is compiled, however often it was halved, the parts hold the patterns in their order,
  each once, number them from 0 and are right automata for them.\<close>

theorem built_parts_exact:
  assumes "builds lang parse build_dfa start_state"
  shows "case build_branches parse build_dfa start_state ps of
      Inl e \<Rightarrow> (\<exists>p \<in> set ps. parse p = Inl e) \<or>
        (\<exists>hirs. list_all2 (\<lambda>p h. parse p = Inr h) ps hirs \<and> unbuildable build_dfa start_state hirs e)
    | Inr parts \<Rightarrow> parts_ok lang parts \<and> concat (map dfa_branches parts) = ps"
proof (cases "each_result parse ps")
  case (Inl e)
  then show ?thesis using each_result_error [of parse ps e] by (simp add: build_branches_def)
next
  case (Inr hirs)
  note parsed = each_result_parsed [OF this]
  have "case build_range build_dfa start_state hirs ps 0 [] of
      Inl e \<Rightarrow> unbuildable build_dfa start_state hirs e
    | Inr out \<Rightarrow> \<exists>new. out = [] @ new \<and> (\<forall>p \<in> set new. dfa_ok lang p) \<and> numbered 0 new \<and> concat (map dfa_branches new) = ps"
    by (rule build_range_ok [OF assms parsed])
  then show ?thesis using Inr parsed by (auto simp: build_branches_def parts_ok_def split: sum.splits)
qed

text \<open>A single pattern compiles to a single automaton, which is right for it.\<close>

lemma build_range_single:
  "build_range build_dfa start_state [h] [p] first parts =
    (case build_dfa [h] of Inl e \<Rightarrow> Inl e
     | Inr d \<Rightarrow> (case term_dfa_new start_state d first [p] of Inl e \<Rightarrow> Inl e | Inr q \<Rightarrow> Inr (parts @ [q])))"
  by (subst build_range.simps) (simp split: sum.split)

lemma single_build:
  assumes "builds lang parse build_dfa start_state" "build_branches parse build_dfa start_state [p] = Inr parts"
  shows "\<exists>d. parts = [d] \<and> dfa_ok lang d \<and> dfa_branches d = [p]"
proof -
  obtain h where h: "parse p = Inr h" "build_range build_dfa start_state [h] [p] 0 [] = Inr parts"
    using assms(2) by (auto simp: build_branches_def split: sum.splits)
  then obtain d s where d: "build_dfa [h] = Inr d" "start_state d = Inr s"
    "parts = [\<lparr>dfa = d, dfa_start = s, first_branch = 0, dfa_branches = [p]\<rparr>]"
    by (auto simp: build_range_single term_dfa_new_def split: sum.splits)
  have "list_all2 (\<lambda>p h. parse p = Inr h) [p] [h]" using h(1) by simp
  then have "dfa_ok lang \<lparr>dfa = d, dfa_start = s, first_branch = 0, dfa_branches = [p]\<rparr>"
    using assms(1) d(1,2) unfolding builds_def by blast
  then show ?thesis by (simp add: d(3))
qed

subsection \<open>The budgets of a word\<close>

definition summed_freq :: "ranked_term list \<Rightarrow> nat" where
  "summed_freq ts = min u64_max (sum_list (map doc_freq ts))"

lemma budget_loop_prefix:
  assumes "\<forall>j < length kept. 0 < j \<longrightarrow> j < max_terms \<and> summed_freq (take j kept) < postings_budget"
    "kept \<noteq> [] \<Longrightarrow> length kept < max_terms \<and> summed_freq kept < postings_budget"
  shows "\<exists>k. budget_loop max_terms postings_budget ts kept (summed_freq kept) = kept @ take k ts \<and> k \<le> length ts \<and>
    (ts \<noteq> [] \<longrightarrow> 0 < k) \<and>
    (\<forall>j < length kept + k. 0 < j \<longrightarrow> j < max_terms \<and> summed_freq (take j (kept @ ts)) < postings_budget) \<and>
    (k < length ts \<longrightarrow> max_terms \<le> length kept + k \<or> postings_budget \<le> summed_freq (kept @ take k ts))"
  using assms
proof (induction ts arbitrary: kept)
  case Nil
  then show ?case by (intro exI [of _ 0]) simp
next
  case (Cons t ts)
  let ?kept = "kept @ [t]"
  have sum: "saturating_add u64_max (summed_freq kept) (doc_freq t) = summed_freq ?kept"
    by (auto simp: saturating_add_def summed_freq_def)
  have below: "j < max_terms \<and> summed_freq (take j kept) < postings_budget" if "j < length ?kept" "0 < j" for j
  proof (cases "j = length kept")
    case True
    then show ?thesis using that Cons.prems(2) by auto
  next
    case False
    then show ?thesis using that Cons.prems(1) by simp
  qed
  show ?case
  proof (cases "max_terms \<le> length ?kept \<or> postings_budget \<le> summed_freq ?kept")
    case True
    then show ?thesis using below sum by (intro exI [of _ 1]) (simp add: Let_def)
  next
    case False
    then obtain k where k: "budget_loop max_terms postings_budget ts ?kept (summed_freq ?kept) = ?kept @ take k ts" "k \<le> length ts"
      "\<forall>j < length ?kept + k. 0 < j \<longrightarrow> j < max_terms \<and> summed_freq (take j (?kept @ ts)) < postings_budget"
      "k < length ts \<longrightarrow> max_terms \<le> length ?kept + k \<or> postings_budget \<le> summed_freq (?kept @ take k ts)"
      using Cons.IH [of ?kept] below by auto
    then show ?thesis using False sum by (intro exI [of _ "k + 1"]) (simp add: Let_def)
  qed
qed

text \<open>C40: a word is served the shortest ranked prefix that reaches a budget, and at least one term when there is
  one: no shorter prefix has the number of terms or the summed frequency, the prefix has one of them
  unless it is the whole list, and the flag says exactly whether anything was dropped, here or at the
  cap.\<close>

theorem budgets_keep_shortest_prefix:
  "\<exists>k \<le> length ts. within_budgets ts capped max_terms postings_budget = (take k ts, capped \<or> k < length ts) \<and>
    (ts \<noteq> [] \<longrightarrow> 0 < k) \<and>
    (\<forall>j < k. 0 < j \<longrightarrow> j < max_terms \<and> min u64_max (sum_list (map doc_freq (take j ts))) < postings_budget) \<and>
    (k < length ts \<longrightarrow> max_terms \<le> k \<or> postings_budget \<le> min u64_max (sum_list (map doc_freq (take k ts))))"
proof -
  have "summed_freq [] = 0" by (simp add: summed_freq_def)
  then obtain k where "budget_loop max_terms postings_budget ts [] 0 = take k ts" "k \<le> length ts" "ts \<noteq> [] \<longrightarrow> 0 < k"
    "\<forall>j < k. 0 < j \<longrightarrow> j < max_terms \<and> summed_freq (take j ts) < postings_budget"
    "k < length ts \<longrightarrow> max_terms \<le> k \<or> postings_budget \<le> summed_freq (take k ts)"
    using budget_loop_prefix [of "[]" max_terms postings_budget ts] by auto
  then show ?thesis by (intro exI [of _ k]) (simp add: within_budgets_def summed_freq_def)
qed

subsection \<open>A dictionary\<close>

text \<open>An automaton for a list of words, its states the bytes read.\<close>

definition demo_dfa :: "bytes list \<Rightarrow> bytes dense_dfa" where
  "demo_dfa ws =
     \<lparr>next_state = (\<lambda>s b. s @ [b]), next_eoi_state = (\<lambda>s. s), is_dead_state = (\<lambda>_. False), is_match_state = (\<lambda>s. s \<in> set ws),
      match_patterns = (\<lambda>s. filter (\<lambda>i. ws ! i = s) [0..<length ws]), pattern_len = length ws\<rparr>"

definition demo_part :: "nat \<Rightarrow> bytes list \<Rightarrow> (bytes, bytes) term_dfa" where
  "demo_part n ws = \<lparr>dfa = demo_dfa ws, dfa_start = [], first_branch = n, dfa_branches = ws\<rparr>"

lemma demo_dfa_ok: "dfa_ok (=) (demo_part n ws)"
proof -
  have "foldl (\<lambda>s b. s @ [b]) s w = s @ w" for s w :: bytes by (induction w arbitrary: s) auto
  then show ?thesis by (auto simp: dfa_ok_def demo_part_def demo_dfa_def Let_def)
qed

definition demo_entries :: "'s entry_walk" where
  "demo_entries A seg = filter (\<lambda>(t, _). accepts A t) seg"

lemma demo_streams_entries: "streams_entries demo_entries"
  by (simp add: streams_entries_def demo_entries_def)

definition demo_segs :: "entries list" where
  "demo_segs = [[([97], 1), ([122], 2)], [([122], 1)]]"

lemma demo_complete:
  "collect_ranked_terms demo_entries demo_entries (\<lambda>_. False) (0 :: nat) 5 (\<lambda>p. Inr (demo_part 0 [p])) (map Inr demo_segs)
     [demo_part 0 [[122]]] [literal [[122], [97]]] =
   Inr ([\<lparr>the_term = [122], branch = 0, doc_freq = 6\<rparr>, \<lparr>the_term = [97], branch = 1, doc_freq = 1\<rparr>], False)"
  by code_simp

lemma demo_overflow:
  "collect_ranked_terms demo_entries demo_entries (\<lambda>_. False) (0 :: nat) 1 (\<lambda>p. Inr (demo_part 0 [p])) (map Inr demo_segs)
     [demo_part 0 [[122]]] [literal [[122], [97]]] =
   Inr ([\<lparr>the_term = [122], branch = 0, doc_freq = 3\<rparr>], True)"
  by code_simp

lemma demo_automata: "\<forall>A \<in> set [literal ws]. automaton A"
  using lit.automaton_axioms by simp

theorem collect_ranked_exact_witness:
  "sources_taking (=) [demo_part 0 [[122]]] [literal [[122], [97]]] [97] = 1
    \<and> sum_list (map (freq_in [97]) demo_segs) = 1"
proof -
  have parts: "parts_ok (=) [demo_part 0 [[122]]]" using demo_dfa_ok by (simp add: parts_ok_def) (simp add: demo_part_def)
  have "source_branch (=) [demo_part 0 [[122 :: byte]]] [literal [[122], [97]]] 0 [97] = None"
    by (simp add: source_branch_def first_index_def demo_part_def spelt_def is_quote_def)
  moreover have "source_branch (=) [demo_part 0 [[122 :: byte]]] [literal [[122], [97]]] (Suc 0) [97] \<noteq> None"
    by (simp add: source_branch_def quoted_literal_accepts)
  ultimately have one: "sources_taking (=) [demo_part 0 [[122]]] [literal [[122], [97]]] [97] = 1"
    by (simp add: sources_taking_def upt_rec)
  then show ?thesis
    using collect_ranked_exact [OF demo_streams_entries demo_streams_entries parts demo_automata demo_complete]
    by simp
qed

theorem overflow_keeps_branch_order_witness:
  "takes (=) [[122 :: byte]] [literal [[122], [97]]] 0 [122] \<and> [122] \<in> fst ` set (concat demo_segs)"
proof -
  have "segments_ok demo_segs" by code_simp
  from overflow_keeps_branch_order [OF demo_streams_entries demo_streams_entries this demo_automata _ demo_overflow, of "(=)"]
  show ?thesis using demo_dfa_ok by (simp add: demo_part_def)
qed

text \<open>A compiler that builds automata for one word at a time.\<close>

definition demo_build :: "bytes list \<Rightarrow> nat + bytes dense_dfa" where
  "demo_build ws = (if length ws \<le> 1 then Inr (demo_dfa ws) else Inl 2)"

lemma demo_builds: "builds (=) Inr demo_build (\<lambda>_. Inr [])"
proof -
  have "hirs = ps" if "list_all2 (\<lambda>p h. (Inr p :: nat + bytes) = Inr h) ps hirs" for ps hirs
    using that by (simp add: list_all2_conv_all_nth list_eq_iff_nth_eq)
  moreover have "dfa_ok (=) \<lparr>dfa = d, dfa_start = [], first_branch = first, dfa_branches = ws\<rparr>"
    if "demo_build ws = Inr d" for ws d first
    using that demo_dfa_ok [of first ws] by (simp add: demo_build_def demo_part_def split: if_splits)
  ultimately show ?thesis unfolding builds_def by fastforce
qed

lemma demo_parts:
  "build_branches Inr demo_build (\<lambda>_. Inr []) [[97], [98]] = Inr [demo_part 0 [[97]], demo_part 1 [[98]]]"
proof -
  have "build_range demo_build (\<lambda>_. Inr []) [[97], [98]] [[97], [98]] 0 [] = Inr [demo_part 0 [[97]], demo_part 1 [[98]]]"
    by (subst build_range.simps)
      (simp add: build_range_single demo_build_def term_dfa_new_def demo_part_def Let_def)
  then show ?thesis by (simp add: build_branches_def)
qed

theorem built_parts_exact_witness:
  "parts_ok (=) [demo_part 0 [[97 :: byte]], demo_part 1 [[98]]]"
  using built_parts_exact [OF demo_builds, of "[[97], [98]]"] unfolding demo_parts by simp

theorem budgets_keep_shortest_prefix_witness:
  "\<exists>k \<le> 2. within_budgets [\<lparr>the_term = [97], branch = 0, doc_freq = 9\<rparr>, \<lparr>the_term = [98], branch = 0, doc_freq = 1\<rparr>] False 5 8 =
     (take k [\<lparr>the_term = [97], branch = 0, doc_freq = 9\<rparr>, \<lparr>the_term = [98], branch = 0, doc_freq = 1\<rparr>], k < 2) \<and> 0 < k"
  using budgets_keep_shortest_prefix
    [of "[\<lparr>the_term = [97], branch = 0, doc_freq = 9\<rparr>, \<lparr>the_term = [98], branch = 0, doc_freq = 1\<rparr>]" False 5 8]
  by (auto simp: numeral_2_eq_2)

end
