(* ===== verification/AutomataCache.thy ===== *)
theory AutomataCache
  imports TermAutomata
begin

section \<open>The cache of automata\<close>

text \<open>
  The process-wide cache of \<^verbatim>\<open>term_automaton.rs\<close>: the automata of a list of patterns, or the error of
  building them, by the list alone. The map is the unbounded \<^verbatim>\<open>LruCache\<close> of the library \<^verbatim>\<open>lru\<close>, a record
  of the operations that are called, and its contract the locale \<open>lru_contents\<close>; the memory of an
  automaton is the parameter \<open>mem\<close>. The lock is held in each of the two steps of a call and not while
  automata are built, so other threads may do anything between them.
\<close>

subsection \<open>State and operations\<close>

record ('c, 'k, 'v) lru_map =
  lru_lookup :: "'k \<Rightarrow> 'c \<Rightarrow> 'c \<times> 'v option"
  lru_put :: "'k \<Rightarrow> 'v \<Rightarrow> 'c \<Rightarrow> 'c \<times> 'v option"
  pop_lru :: "'c \<Rightarrow> 'c \<times> ('k \<times> 'v) option"
  lru_len :: "'c \<Rightarrow> nat"

type_synonym ('s, 'p, 'e) cache_value = "'e + ('s, 'p) term_dfa list"
type_synonym ('c, 's, 'p, 'e) dfa_lru = "('c, 'p list, ('s, 'p, 'e) cache_value) lru_map"

record 'c dfa_cache =
  cache_entries :: 'c
  cache_bytes :: nat

definition CACHE_ENTRIES :: nat where
  "CACHE_ENTRIES = 256"

definition CACHE_BYTES :: nat where
  "CACHE_BYTES = 96 * 2 ^ 20"

definition memory_usage :: "(('s, 'p) term_dfa \<Rightarrow> nat) \<Rightarrow> ('s, 'p) term_dfa list \<Rightarrow> nat" where
  "memory_usage mem parts = sum_list (map mem parts)"

definition cached_bytes :: "(('s, 'p) term_dfa \<Rightarrow> nat) \<Rightarrow> ('s, 'p, 'e) cache_value \<Rightarrow> nat" where
  "cached_bytes mem v = (case v of Inl e \<Rightarrow> 0 | Inr parts \<Rightarrow> memory_usage mem parts)"

text \<open>The loop of evictions.\<close>

partial_function (option) evict ::
  "('c, 's, 'p, 'e) dfa_lru \<Rightarrow> (('s, 'p) term_dfa \<Rightarrow> nat) \<Rightarrow> 'c dfa_cache \<Rightarrow> 'c dfa_cache option" where
  "evict ops mem c =
     (if CACHE_ENTRIES < lru_len ops (cache_entries c) \<or> CACHE_BYTES < cache_bytes c \<and> 1 < lru_len ops (cache_entries c)
      then (case pop_lru ops (cache_entries c) of
              (l, None) \<Rightarrow> Some \<lparr>cache_entries = l, cache_bytes = cache_bytes c\<rparr>
            | (l, Some (k, old)) \<Rightarrow>
                evict ops mem \<lparr>cache_entries = l, cache_bytes = cache_bytes c - cached_bytes mem old\<rparr>)
      else Some c)"

definition cache_lookup :: "('c, 's, 'p, 'e) dfa_lru \<Rightarrow> 'p list \<Rightarrow> 'c dfa_cache \<Rightarrow> 'c dfa_cache \<times> ('s, 'p, 'e) cache_value option" where
  "cache_lookup ops key c = (case lru_lookup ops key (cache_entries c) of (l, v) \<Rightarrow> (c\<lparr>cache_entries := l\<rparr>, v))"

definition cache_store :: "('c, 's, 'p, 'e) dfa_lru \<Rightarrow> (('s, 'p) term_dfa \<Rightarrow> nat) \<Rightarrow> 'p list \<Rightarrow> ('s, 'p, 'e) cache_value \<Rightarrow>
    'c dfa_cache \<Rightarrow> 'c dfa_cache option" where
  "cache_store ops mem key value c =
     (case lru_put ops key value (cache_entries c) of
        (l, old) \<Rightarrow>
          (let bytes = (case old of None \<Rightarrow> cache_bytes c | Some v \<Rightarrow> cache_bytes c - cached_bytes mem v)
           in evict ops mem \<lparr>cache_entries = l, cache_bytes = bytes + cached_bytes mem value\<rparr>))"

text \<open>\<^verbatim>\<open>compile_branches\<close>, where \<open>build\<close> is \<open>build_branches\<close> and \<open>others\<close> is what other threads do to the cache while
  it runs; the outer \<open>None\<close> would be a loop without end. \<^verbatim>\<open>compile_pattern\<close> expects a single
  automaton, \<open>None\<close> is its panic.\<close>

definition compile_branches :: "('c, 's, 'p, 'e) dfa_lru \<Rightarrow> (('s, 'p) term_dfa \<Rightarrow> nat) \<Rightarrow> ('p list \<Rightarrow> ('s, 'p, 'e) cache_value) \<Rightarrow>
    ('c dfa_cache \<Rightarrow> 'c dfa_cache) \<Rightarrow> 'p list \<Rightarrow> 'c dfa_cache \<Rightarrow> ('c dfa_cache \<times> ('s, 'p, 'e) cache_value) option" where
  "compile_branches ops mem build others key c =
     (case cache_lookup ops key c of
        (c, Some hit) \<Rightarrow> Some (c, hit)
      | (c, None) \<Rightarrow> (let value = build key in map_option (\<lambda>c. (c, value)) (cache_store ops mem key value (others c))))"

fun single_part :: "'d list \<Rightarrow> 'd option" where
  "single_part [only] = Some only"
| "single_part parts = None"

definition compile_pattern :: "('c, 's, 'p, 'e) dfa_lru \<Rightarrow> (('s, 'p) term_dfa \<Rightarrow> nat) \<Rightarrow> ('p list \<Rightarrow> ('s, 'p, 'e) cache_value) \<Rightarrow>
    ('c dfa_cache \<Rightarrow> 'c dfa_cache) \<Rightarrow> 'p \<Rightarrow> 'c dfa_cache \<Rightarrow> ('c dfa_cache \<times> ('e + ('s, 'p) term_dfa)) option" where
  "compile_pattern ops mem build others pattern c =
     (case compile_branches ops mem build others [pattern] c of
        None \<Rightarrow> None
      | Some (c, Inl e) \<Rightarrow> Some (c, Inl e)
      | Some (c, Inr parts) \<Rightarrow> map_option (\<lambda>d. (c, Inr d)) (single_part parts))"

subsection \<open>What the cache serves\<close>

text \<open>The map as the list of its entries, the most recently used first.\<close>

definition to_front :: "'k \<Rightarrow> 'v \<Rightarrow> ('k \<times> 'v) list \<Rightarrow> ('k \<times> 'v) list" where
  "to_front k x kvs = (k, x) # filter (\<lambda>y. fst y \<noteq> k) kvs"

lemma to_front_keys: "distinct (map fst kvs) \<Longrightarrow> distinct (map fst (to_front k x kvs))"
  by (auto simp: to_front_def distinct_map inj_on_def)

locale lru_contents =
  fixes ops :: "('c, 'k, 'v) lru_map" and sound :: "'c \<Rightarrow> bool" and contents :: "'c \<Rightarrow> ('k \<times> 'v) list"
  assumes keys: "sound l \<Longrightarrow> distinct (map fst (contents l))"
    and lookup: "sound l \<Longrightarrow> lru_lookup ops k l = (l', v) \<Longrightarrow> sound l' \<and> v = map_of (contents l) k \<and>
      contents l' = (case v of None \<Rightarrow> contents l | Some x \<Rightarrow> to_front k x (contents l))"
    and put: "sound l \<Longrightarrow> lru_put ops k x l = (l', old) \<Longrightarrow> sound l' \<and> old = map_of (contents l) k \<and> contents l' = to_front k x (contents l)"
    and pop: "sound l \<Longrightarrow> contents l \<noteq> [] \<Longrightarrow> pop_lru ops l = (l', e) \<Longrightarrow>
      sound l' \<and> contents l' = butlast (contents l) \<and> e = Some (last (contents l))"
    and len: "sound l \<Longrightarrow> lru_len ops l = length (contents l)"

definition held_bytes :: "(('s, 'p) term_dfa \<Rightarrow> nat) \<Rightarrow> ('k \<times> ('s, 'p, 'e) cache_value) list \<Rightarrow> nat" where
  "held_bytes mem kvs = sum_list (map (cached_bytes mem \<circ> snd) kvs)"

definition in_bounds :: "(('s, 'p) term_dfa \<Rightarrow> nat) \<Rightarrow> ('k \<times> ('s, 'p, 'e) cache_value) list \<Rightarrow> bool" where
  "in_bounds mem kvs \<longleftrightarrow> length kvs \<le> CACHE_ENTRIES \<and> (held_bytes mem kvs \<le> CACHE_BYTES \<or> length kvs \<le> 1)"

definition cache_good :: "('c \<Rightarrow> bool) \<Rightarrow> ('c \<Rightarrow> ('p list \<times> ('s, 'p, 'e) cache_value) list) \<Rightarrow> (('s, 'p) term_dfa \<Rightarrow> nat) \<Rightarrow>
    ('p list \<Rightarrow> ('s, 'p, 'e) cache_value) \<Rightarrow> 'c dfa_cache \<Rightarrow> bool" where
  "cache_good sound contents mem build c \<longleftrightarrow>
     sound (cache_entries c) \<and> cache_bytes c = held_bytes mem (contents (cache_entries c)) \<and>
     in_bounds mem (contents (cache_entries c)) \<and> (\<forall>(k, v) \<in> set (contents (cache_entries c)). v = build k)"

text \<open>The steps of the threads that share the cache.\<close>

inductive dfa_cache_step :: "('c, 's, 'p, 'e) dfa_lru \<Rightarrow> (('s, 'p) term_dfa \<Rightarrow> nat) \<Rightarrow> ('p list \<Rightarrow> ('s, 'p, 'e) cache_value) \<Rightarrow>
    'c dfa_cache \<Rightarrow> 'c dfa_cache \<Rightarrow> bool" for ops mem build where
  looked_up: "cache_lookup ops key c = (c', v) \<Longrightarrow> dfa_cache_step ops mem build c c'"
| stored: "cache_store ops mem key (build key) c = Some c' \<Longrightarrow> dfa_cache_step ops mem build c c'"

lemma held_bytes_without:
  "distinct (map fst kvs) \<Longrightarrow> held_bytes mem (filter (\<lambda>y. fst y \<noteq> k) kvs) =
    held_bytes mem kvs - (case map_of kvs k of None \<Rightarrow> 0 | Some v \<Rightarrow> cached_bytes mem v)"
  "distinct (map fst kvs) \<Longrightarrow> (case map_of kvs k of None \<Rightarrow> 0 | Some v \<Rightarrow> cached_bytes mem v) \<le> held_bytes mem kvs"
proof (induction kvs)
  case (Cons y kvs)
  have absent: "filter (\<lambda>z. fst z \<noteq> fst y) kvs = kvs" if "fst y \<notin> fst ` set kvs"
    unfolding filter_id_conv using that by (metis image_eqI)
  { case 1
    then show ?case using Cons.IH by (auto simp: held_bytes_def absent)
  next
    case 2
    then show ?case using Cons.IH by (auto simp: held_bytes_def)
  }
qed (simp_all add: held_bytes_def)

lemma held_bytes_front:
  assumes "distinct (map fst kvs)"
  shows "held_bytes mem (to_front k x kvs) =
    (case map_of kvs k of None \<Rightarrow> held_bytes mem kvs | Some v \<Rightarrow> held_bytes mem kvs - cached_bytes mem v) + cached_bytes mem x"
  using held_bytes_without [OF assms, of mem k] by (simp add: to_front_def held_bytes_def split: option.splits)

lemma held_bytes_butlast: "kvs \<noteq> [] \<Longrightarrow> held_bytes mem (butlast kvs) = held_bytes mem kvs - cached_bytes mem (snd (last kvs))"
  by (cases kvs rule: rev_cases) (simp_all add: held_bytes_def)

locale automata_cache = lru_contents ops sound contents
  for ops :: "('c, 's, 'p, 'e) dfa_lru" and sound :: "'c \<Rightarrow> bool" and contents :: "'c \<Rightarrow> ('p list \<times> ('s, 'p, 'e) cache_value) list" +
  fixes mem :: "('s, 'p) term_dfa \<Rightarrow> nat" and build :: "'p list \<Rightarrow> ('s, 'p, 'e) cache_value"
begin

text \<open>Eviction ends, and drops the fewest entries from the back.\<close>

lemma evict_ends:
  assumes "sound (cache_entries c)" "cache_bytes c = held_bytes mem (contents (cache_entries c))"
  shows "\<exists>c' n. evict ops mem c = Some c' \<and> sound (cache_entries c') \<and> n \<le> length (contents (cache_entries c)) \<and>
    contents (cache_entries c') = take n (contents (cache_entries c)) \<and>
    cache_bytes c' = held_bytes mem (contents (cache_entries c')) \<and> in_bounds mem (contents (cache_entries c')) \<and>
    (\<forall>m > n. m \<le> length (contents (cache_entries c)) \<longrightarrow> \<not> in_bounds mem (take m (contents (cache_entries c))))"
  using assms
proof (induction "length (contents (cache_entries c))" arbitrary: c)
  case 0
  then show ?case
    by (subst evict.simps, intro exI [of _ c] exI [of _ 0]) (simp add: len in_bounds_def CACHE_ENTRIES_def)
next
  case (Suc k)
  let ?kvs = "contents (cache_entries c)"
  show ?case
  proof (cases "in_bounds mem ?kvs")
    case True
    then show ?thesis
      using Suc.prems len [OF Suc.prems(1)]
      by (subst evict.simps, intro exI [of _ c] exI [of _ "length ?kvs"]) (auto simp: in_bounds_def)
  next
    case False
    have ne: "?kvs \<noteq> []" using Suc.hyps(2) by auto
    obtain l e where l: "pop_lru ops (cache_entries c) = (l, e)" by (metis surj_pair)
    note popped = pop [OF Suc.prems(1) ne l]
    obtain key old where last: "last ?kvs = (key, old)" by (metis surj_pair)
    define c1 where "c1 = \<lparr>cache_entries = l, cache_bytes = cache_bytes c - cached_bytes mem old\<rparr>"
    have step: "evict ops mem c = evict ops mem c1"
      using False len [OF Suc.prems(1)] popped last l Suc.prems(2)
      by (subst evict.simps) (auto simp: in_bounds_def c1_def)
    have kvs1: "contents (cache_entries c1) = take k ?kvs" "sound (cache_entries c1)"
      using popped Suc.hyps(2) [symmetric] by (simp_all add: c1_def butlast_conv_take)
    have "cache_bytes c1 = held_bytes mem (contents (cache_entries c1))"
      using popped last Suc.prems(2) held_bytes_butlast [OF ne, of mem] by (simp add: c1_def)
    moreover have "k = length (contents (cache_entries c1))" using kvs1 Suc.hyps(2) by simp
    ultimately obtain c' n where c': "evict ops mem c1 = Some c'" "sound (cache_entries c')" "n \<le> k"
      "contents (cache_entries c') = take n (take k ?kvs)" "cache_bytes c' = held_bytes mem (contents (cache_entries c'))"
      "in_bounds mem (contents (cache_entries c'))" "\<forall>m > n. m \<le> k \<longrightarrow> \<not> in_bounds mem (take m (take k ?kvs))"
      using Suc.hyps(1) [of c1] kvs1 by metis
    have "\<not> in_bounds mem (take m ?kvs)" if m: "n < m" "m \<le> length ?kvs" for m
    proof (cases "m = Suc k")
      case True
      then show ?thesis using False Suc.hyps(2) by simp
    next
      case other: False
      then have "m \<le> k" using m Suc.hyps(2) by simp
      then show ?thesis using c'(7) m by (auto simp: min_def dest!: spec [of _ m])
    qed
    then show ?thesis
      using c' step Suc.hyps(2) by (intro exI [of _ c'] exI [of _ n]) (simp add: min_def)
  qed
qed

abbreviation good :: "'c dfa_cache \<Rightarrow> bool" where
  "good \<equiv> cache_good sound contents mem build"

lemma lookup_good:
  assumes "good c" "cache_lookup ops key c = (c', v)"
  shows "good c'" "v = map_of (contents (cache_entries c)) key"
    "v \<noteq> None \<Longrightarrow> v = Some (build key) \<and> hd (contents (cache_entries c')) = (key, build key) \<and> contents (cache_entries c') \<noteq> []"
proof -
  let ?kvs = "contents (cache_entries c)"
  obtain l where l: "lru_lookup ops key (cache_entries c) = (l, v)" and c': "c' = c\<lparr>cache_entries := l\<rparr>"
    using assms(2) by (auto simp: cache_lookup_def split: prod.splits)
  have sound: "sound (cache_entries c)" and right: "\<forall>(k, v) \<in> set ?kvs. v = build k"
    and bounds: "in_bounds mem ?kvs" "cache_bytes c = held_bytes mem ?kvs"
    using assms(1) by (auto simp: cache_good_def)
  note look = lookup [OF sound l]
  then show v: "v = map_of ?kvs key" by blast
  have val: "x = build key" if "v = Some x" for x
    using v that right map_of_SomeD [of ?kvs key x] by auto
  show "v \<noteq> None \<Longrightarrow> v = Some (build key) \<and> hd (contents (cache_entries c')) = (key, build key) \<and> contents (cache_entries c') \<noteq> []"
    using look val c' by (auto simp: to_front_def)
  show "good c'"
  proof (cases v)
    case None
    then show ?thesis using look assms(1) c' by (simp add: cache_good_def)
  next
    case (Some x)
    have mem_x: "(key, x) \<in> set ?kvs" using v Some map_of_SomeD by metis
    have held: "held_bytes mem (to_front key x ?kvs) = held_bytes mem ?kvs"
      using held_bytes_front [OF keys [OF sound], of mem key x] held_bytes_without(2) [OF keys [OF sound], where k = key and mem = mem] mem_x
      by (simp add: v [symmetric] Some)
    have "length (filter (\<lambda>y. fst y \<noteq> key) ?kvs) < length ?kvs" using mem_x by (intro length_filter_less) auto
    then have "length (to_front key x ?kvs) \<le> length ?kvs" by (simp add: to_front_def)
    then have "in_bounds mem (to_front key x ?kvs)" using bounds held by (auto simp: in_bounds_def)
    then show ?thesis
      using look Some c' bounds held right val [OF Some] by (auto simp: cache_good_def to_front_def)
  qed
qed

lemma store_good:
  assumes "good c"
  shows "\<exists>c' n. cache_store ops mem key (build key) c = Some c' \<and> good c' \<and>
    contents (cache_entries c') = take n (to_front key (build key) (contents (cache_entries c))) \<and> 0 < n \<and>
    (\<forall>m > n. m \<le> length (to_front key (build key) (contents (cache_entries c))) \<longrightarrow>
      \<not> in_bounds mem (take m (to_front key (build key) (contents (cache_entries c)))))"
proof -
  let ?kvs = "contents (cache_entries c)"
  let ?new = "to_front key (build key) ?kvs"
  have sound: "sound (cache_entries c)" and right: "\<forall>(k, v) \<in> set ?kvs. v = build k" and bytes: "cache_bytes c = held_bytes mem ?kvs"
    using assms by (auto simp: cache_good_def)
  obtain l old where l: "lru_put ops key (build key) (cache_entries c) = (l, old)" by (metis surj_pair)
  note putted = put [OF sound l]
  define c1 where "c1 = \<lparr>cache_entries = l, cache_bytes = (case old of None \<Rightarrow> cache_bytes c
      | Some v \<Rightarrow> cache_bytes c - cached_bytes mem v) + cached_bytes mem (build key)\<rparr>"
  have store: "cache_store ops mem key (build key) c = evict ops mem c1" by (simp add: cache_store_def l c1_def Let_def)
  have c1: "sound (cache_entries c1)" "contents (cache_entries c1) = ?new" using putted by (simp_all add: c1_def)
  have "cache_bytes c1 = held_bytes mem (contents (cache_entries c1))"
    using putted bytes held_bytes_front [OF keys [OF sound], of mem key "build key"]
    unfolding c1(2) by (simp add: c1_def split: option.splits)
  then obtain c' n where c': "evict ops mem c1 = Some c'" "sound (cache_entries c')" "n \<le> length ?new"
    "contents (cache_entries c') = take n ?new" "cache_bytes c' = held_bytes mem (contents (cache_entries c'))"
    "in_bounds mem (contents (cache_entries c'))" "\<forall>m > n. m \<le> length ?new \<longrightarrow> \<not> in_bounds mem (take m ?new)"
    using evict_ends [OF c1(1)] unfolding c1(2) by metis
  have "in_bounds mem (take 1 ?new)" "1 \<le> length ?new" by (simp_all add: to_front_def in_bounds_def CACHE_ENTRIES_def)
  then have "0 < n" using c'(7) by (metis not_gr0 zero_less_one)
  moreover have "\<forall>(k, v) \<in> set ?new. v = build k" using right by (auto simp: to_front_def)
  then have "\<forall>(k, v) \<in> set (take n ?new). v = build k" by (auto dest: in_set_takeD)
  then have "good c'" using c' by (simp add: cache_good_def)
  ultimately show ?thesis using store c' by metis
qed

lemma step_good: "dfa_cache_step ops mem build c c' \<Longrightarrow> good c \<Longrightarrow> good c'"
proof (induction rule: dfa_cache_step.induct)
  case (looked_up key c c' v)
  then show ?case by (blast intro: lookup_good(1))
next
  case (stored key c c')
  then show ?case using store_good [of c key] by auto
qed

lemma steps_good: "rtranclp (dfa_cache_step ops mem build) c c' \<Longrightarrow> good c \<Longrightarrow> good c'"
  by (induction rule: rtranclp_induct) (auto intro: step_good)

lemma new_good: "sound l \<Longrightarrow> contents l = [] \<Longrightarrow> good \<lparr>cache_entries = l, cache_bytes = 0\<rparr>"
  by (simp add: cache_good_def held_bytes_def in_bounds_def)

lemma compile_serves:
  assumes "good c" "\<And>c. rtranclp (dfa_cache_step ops mem build) c (others c)"
  shows "\<exists>c'. compile_branches ops mem build others key c = Some (c', build key) \<and> good c' \<and>
    contents (cache_entries c') \<noteq> [] \<and> hd (contents (cache_entries c')) = (key, build key)"
proof -
  obtain c1 v where look: "cache_lookup ops key c = (c1, v)" by (metis surj_pair)
  note c1 = lookup_good [OF assms(1) look]
  show ?thesis
  proof (cases v)
    case None
    have "good (others c1)" using steps_good [OF assms(2)] c1(1) by blast
    then obtain c' n where c': "cache_store ops mem key (build key) (others c1) = Some c'" "good c'" "0 < n"
      "contents (cache_entries c') = take n (to_front key (build key) (contents (cache_entries (others c1))))"
      using store_good by metis
    then show ?thesis using look None by (cases n) (simp_all add: compile_branches_def Let_def to_front_def)
  next
    case (Some x)
    then show ?thesis using c1(1,3) look by (simp add: compile_branches_def)
  qed
qed

end

text \<open>The map as a list.\<close>

definition list_lru :: "(('k \<times> 'v) list, 'k, 'v) lru_map" where
  "list_lru =
     \<lparr>lru_lookup = (\<lambda>k l. case map_of l k of None \<Rightarrow> (l, None) | Some x \<Rightarrow> (to_front k x l, Some x)),
      lru_put = (\<lambda>k x l. (to_front k x l, map_of l k)),
      pop_lru = (\<lambda>l. if l = [] then (l, None) else (butlast l, Some (last l))),
      lru_len = length\<rparr>"

interpretation listed: automata_cache list_lru "\<lambda>l. distinct (map fst l)" "\<lambda>l. l" mem build for mem build
  by unfold_locales
    (auto simp: list_lru_def to_front_keys distinct_butlast map_butlast split: option.splits if_splits)

text \<open>C18: compiling a list of patterns always returns what building it gives, error or automata, whatever is cached
  and whatever other threads do to the cache meanwhile; the eviction loop ends. After any number of
  calls the counted bytes are the memory of the entries, there are at most 256 entries of at most
  96 MiB together or a single one, every entry is what its patterns are built to, and the entry just
  asked for is kept as the most recent.\<close>

theorem cache_serves_builds:
  assumes "automata_cache ops sound contents" "sound l" "contents l = []"
    "rtranclp (dfa_cache_step ops mem build) \<lparr>cache_entries = l, cache_bytes = 0\<rparr> c"
    "\<And>c. rtranclp (dfa_cache_step ops mem build) c (others c)"
  shows "\<exists>c'. compile_branches ops mem build others key c = Some (c', build key) \<and>
    cache_bytes c' = held_bytes mem (contents (cache_entries c')) \<and>
    length (contents (cache_entries c')) \<le> 256 \<and>
    (cache_bytes c' \<le> 96 * 2 ^ 20 \<or> length (contents (cache_entries c')) = 1) \<and>
    (\<forall>(k, v) \<in> set (contents (cache_entries c')). v = build k) \<and>
    contents (cache_entries c') \<noteq> [] \<and> hd (contents (cache_entries c')) = (key, build key)"
proof -
  note cache = automata_cache.steps_good [OF assms(1,4) automata_cache.new_good [OF assms(1-3)]]
  obtain c' where c': "compile_branches ops mem build others key c = Some (c', build key)" "cache_good sound contents mem build c'"
    "contents (cache_entries c') \<noteq> []" "hd (contents (cache_entries c')) = (key, build key)"
    using automata_cache.compile_serves [OF assms(1) cache assms(5)] by blast
  then have "length (contents (cache_entries c')) \<le> 1 \<longleftrightarrow> length (contents (cache_entries c')) = 1"
    by (cases "contents (cache_entries c')") auto
  then show ?thesis
    using c' by (intro exI [of _ c']) (auto simp: cache_good_def in_bounds_def CACHE_ENTRIES_def CACHE_BYTES_def)
qed

text \<open>What the retry of an overflowing word relies on.\<close>

lemma compile_pattern_ok:
  assumes "automata_cache ops sound contents" "builds lang parse build_dfa start_state"
    "cache_good sound contents mem (build_branches parse build_dfa start_state) c"
    "\<And>c. rtranclp (dfa_cache_step ops mem (build_branches parse build_dfa start_state)) c (others c)"
  shows "\<exists>c' r. compile_pattern ops mem (build_branches parse build_dfa start_state) others p c = Some (c', r) \<and>
    (\<forall>d. r = Inr d \<longrightarrow> dfa_ok lang d \<and> dfa_branches d = [p])"
proof -
  let ?build = "build_branches parse build_dfa start_state"
  obtain c' where c': "compile_branches ops mem ?build others [p] c = Some (c', ?build [p])"
    using automata_cache.compile_serves [OF assms(1,3,4)] by blast
  show ?thesis
  proof (cases "?build [p]")
    case (Inl e)
    then show ?thesis using c' by (simp add: compile_pattern_def)
  next
    case (Inr parts)
    then show ?thesis using c' single_build [OF assms(2) Inr] by (auto simp: compile_pattern_def)
  qed
qed

theorem cache_serves_builds_witness:
  "\<exists>c'. compile_branches list_lru (\<lambda>_. 0) (build_branches Inr demo_build (\<lambda>_. Inr [])) (\<lambda>c. c) [[97], [98]]
      \<lparr>cache_entries = [], cache_bytes = 0\<rparr> = Some (c', build_branches Inr demo_build (\<lambda>_. Inr []) [[97], [98]]) \<and>
    cache_entries c' \<noteq> []"
  using cache_serves_builds [OF listed.automata_cache_axioms, of "[]" "\<lambda>_. 0" "build_branches Inr demo_build (\<lambda>_. Inr [])"
      "\<lparr>cache_entries = [], cache_bytes = 0\<rparr>" "\<lambda>c. c" "[[97], [98]]"]
  by auto

end
