(* ===== verification/Spec2Isabelle.thy ===== *)
theory Spec2Isabelle
  imports QueryAgree SectionScope DocStore LexicalCancellation NegativeQuery GapPhrase Grouping PageCache
    LibraryIndexing BookCounts Compaction StripReference LineNormal WordPatterns
    QuoteExpansion TermAutomata AutomataCache
begin

text \<open>
  \<^bold>\<open>A verification library for the Otzaria search engine.\<close>

  The program (\<^verbatim>\<open>src/rust\<close>) is a full-text search engine for Hebrew books on top of the
  library \<^verbatim>\<open>tantivy\<close>. Every line of a book is a document. Text is cut into tokens by a
  Hebrew tokenizer, at indexing time and, with the same code, when a query is typed; a query
  becomes a combination of scorers, each a cursor over ascending document numbers; hits are
  shown in the order of the catalogue or of the generations. The library models the engine's own
  logic and proves what makes it correct; what belongs to \<^verbatim>\<open>tantivy\<close> (postings, columns,
  stored documents, the directory), to the Unicode tables and to serde is a parameter of the
  definitions, with what the code relies on as named hypotheses.

  \<^bold>\<open>Conventions\<close> (\<^verbatim>\<open>Prelude\<close>). A \<^verbatim>\<open>char\<close> is its code point, a \<^verbatim>\<open>str\<close> a list of chars
  with UTF-8 byte offsets; \<open>None\<close> is a panic; unsigned integers are naturals with their
  saturating and checked operations, or words where the code shifts or wraps. Hash maps that
  are iterated are lists in an arbitrary order. Shared mutable state is explicit.

  \<^bold>\<open>Text\<close>
  \<^item> \<^verbatim>\<open>Chars\<close>, \<^verbatim>\<open>Marks\<close>: the character classes of \<^verbatim>\<open>hebrew_query.rs\<close> and
    \<^verbatim>\<open>hebrew_tokenizer.rs\<close>, the canonical order of marks (it decides canonical equivalence).
  \<^item> \<^verbatim>\<open>Tokenizer\<close>, \<^verbatim>\<open>TokenShape\<close>, \<^verbatim>\<open>TokenStream\<close>, \<^verbatim>\<open>Lexer\<close>: \<^verbatim>\<open>hebrew_tokenizer.rs\<close>: token
    boundaries, paired readings, normal form, the token stream with its positions. It never
    panics, ends, and yields the tokens the specification \<open>token_then\<close> describes: it says where a
    token must end, inner quotes joined and a closing geresh kept, so that there is one reading of a text.
  \<^item> \<^verbatim>\<open>QueryWords\<close>, \<^verbatim>\<open>QueryAgree\<close>: the words of a query (\<^verbatim>\<open>hebrew_query.rs\<close>), which are
    exactly the terms the index holds for the same text, and their UTF-16 ranges, which are those of the
    tokens, counted in 32-bit words.
  \<^item> \<^verbatim>\<open>HtmlStrip\<close>, \<^verbatim>\<open>StripReference\<close>, \<^verbatim>\<open>LineNormal\<close>: how a line becomes the text that is indexed
    (\<^verbatim>\<open>hebrew_query.rs\<close>): the strip of HTML in one pass, equal to the documented two passes, and the
    normalization, equal to the composition of its steps.
  \<^item> \<^verbatim>\<open>WordPatterns\<close>: the branches of a word's pattern and the splitter of alternations
    (\<^verbatim>\<open>hebrew_query.rs\<close>), which finds the branches of every pattern of a small syntax.

  \<^bold>\<open>Scorers\<close>
  \<^item> \<^verbatim>\<open>DocSets\<close>: the interface \<^verbatim>\<open>tantivy::DocSet\<close> as the locale \<open>doc_set\<close>, the filter
    \<open>checked_set\<close> as its sublocale, id cursors as its interpretation. A check that panics is a panic of
    the filter.
  \<^item> \<^verbatim>\<open>IdLookup\<close> (\<^verbatim>\<open>id_lookup.rs\<close>), \<^verbatim>\<open>SectionScope\<close> (\<^verbatim>\<open>section_scope.rs\<close> and the two
    passes of \<^verbatim>\<open>api/search_engine.rs\<close>), \<^verbatim>\<open>NegativeQuery\<close> (\<^verbatim>\<open>negative_query.rs\<close>),
    \<^verbatim>\<open>LexicalCancellation\<close> (\<^verbatim>\<open>lexical_cancellation.rs\<close>, a step relation over the registry and
    the open calls): each scorer yields exactly the documents of its specification.
  \<^item> \<^verbatim>\<open>ChainSweep\<close>, \<^verbatim>\<open>WordPositions\<close>, \<^verbatim>\<open>WordWindows\<close>, \<^verbatim>\<open>GapPhrase\<close>: the phrases with gaps of
    \<^verbatim>\<open>gap_phrase.rs\<close>: the sweep over positions, the three ways of reading positions, the
    windows with their bipartite matching, and the verified scorer.

  \<^bold>\<open>Terms of a query word\<close>
  \<^item> \<^verbatim>\<open>QuoteExpansion\<close> (\<^verbatim>\<open>quote_expansion.rs\<close>): automata over the bytes of a term as the locale
    \<open>automaton\<close>, the wrapper that looks through quotes as its sublocale in \<open>quoted\<close>, the automaton of
    literal words as its interpretation; the spellings of a word in the dictionaries, and the
    phrases over them: which kind of query is built, with which slop, and what it matches, the library's
    matching of a phrase being a parameter.
  \<^item> \<^verbatim>\<open>TermAutomata\<close>, \<^verbatim>\<open>AutomataCache\<close> (\<^verbatim>\<open>term_automaton.rs\<close>): building the automata of a word's
    branches by halving, collecting the terms they take in one combined scan or, when it overflows,
    branch by branch, ranking them and cutting them to the budgets; the cache of automata, over the
    locale \<open>lru_contents\<close> of the LRU map. Dense automata, the parser of patterns and the walk over a
    dictionary are parameters, and so is what happens at each point that looks whether the search
    is cancelled. The scans of a search run in parallel and do not interact; of several errors the
    model returns the first.

  \<^bold>\<open>Documents and books\<close>
  \<^item> \<^verbatim>\<open>DerivedColumns\<close>, \<^verbatim>\<open>DocStore\<close>: derived columns and stored documents.
  \<^item> \<^verbatim>\<open>BookNumbers\<close>, \<^verbatim>\<open>BookOrder\<close>: \<^verbatim>\<open>book_order.rs\<close>: the numbers of books handed out by
    interleaving engines (a step relation with its invariant; reading or replacing the file of
    reservations may fail, and the numbers are unique as long as the read made when the writer is taken
    does not), the order file, the rank tables
    and sort keys, the stamps of books.
  \<^item> \<^verbatim>\<open>LibraryIndexing\<close>: \<^verbatim>\<open>library_indexing.rs\<close>: the books of a batch are prepared by worker threads
    under a memory budget and enqueued in input order. The threads are a step relation,
    the caller's cancel comes from outside; the threads alone never deadlock, a batch ends, stays within the
    budget and gives every book the result \<open>own_result\<close> of what the database, the preparation and the
    writer answer for it.
  \<^item> \<^verbatim>\<open>Compaction\<close>: the choice of segments to merge and the loop of \<^verbatim>\<open>optimize\<close>, at the end of
    \<^verbatim>\<open>api/search_engine.rs\<close>: it never mixes large segments with small ones, and ends.

  \<^bold>\<open>Results\<close>
  \<^item> \<^verbatim>\<open>BookCounts\<close>: the collectors of \<^verbatim>\<open>api/search_engine.rs\<close> that count the documents of books and
    read their fingerprints; they are exact (counts as 32-bit words), and agree with the stamps of
    \<^verbatim>\<open>BookOrder\<close>.
  \<^item> \<^verbatim>\<open>Grouping\<close>: \<^verbatim>\<open>GroupCollector\<close> of \<^verbatim>\<open>api/search_engine.rs\<close>: threads fill buffers and flush them into
    one bounded map of groups; the page shows the best groups for every interleaving.
  \<^item> \<^verbatim>\<open>PageCache\<close>: \<^verbatim>\<open>page_cache.rs\<close> and the searches that go through it. The LRU map of the library
    \<^verbatim>\<open>lru\<close> is the locale \<open>lru_cache\<close>, interpreted on an association list that drops its last
    entry; a cache over a fixed truth is the locale \<open>true_cache\<close>. What the cache serves is
    what the full search finds, whatever other threads do between two accesses. A limit of zero that the
    cache does not serve is the library's panic.

  \<^bold>\<open>Bounds and fuel.\<close> Loops over byte offsets are partial functions into \<open>option\<close>, and are
  proved to return; all other recursions are structural or have a measure. No fuel is used.
  Positions and document numbers are naturals where the library bounds them by 2^32; sums of counters that
  the code keeps in 32 bits are words, or have the remainder written out.

  \<^bold>\<open>Not modelled.\<close> Generated bindings and the Dart side; the semantic half
  (\<^verbatim>\<open>semantic_*.rs\<close>), which is a client of the library \<^verbatim>\<open>otzaria_semantic_search\<close>; code that
  rewrites the syntax trees of \<^verbatim>\<open>regex-syntax\<close> or matches with the library \<^verbatim>\<open>regex\<close>
  (\<^verbatim>\<open>user_regex.rs\<close>, \<^verbatim>\<open>display_highlight.rs\<close>, \<^verbatim>\<open>highlight_matcher.rs\<close>); reading from SQLite (\<^verbatim>\<open>line_source.rs\<close>,
  \<^verbatim>\<open>magic\<close>, \<^verbatim>\<open>sqlite_host.rs\<close>); buffers spilled to disk; floating-point scores.
\<close>

end
